(* ===== verification/Zu_Prelude.thy ===== *)
theory Zu_Prelude
  imports Main "HOL-Library.Word" "HOL-Library.Code_Target_Numeral"
begin

text \<open>
  Shared vocabulary of the development: the machine types of the C sources, 64-bit
  arithmetic on \<open>nat\<close> with the wrap-around written out, memory writes on byte lists,
  little-endian and big-endian byte strings, and the combinator \<open>run_loop\<close> that models every
  C loop of the shape \<^verbatim>\<open>for (;;) { ... }\<close> with its partial- and total-correctness rules.

  A size, a cursor or a \<^verbatim>\<open>uint64_t\<close> counter is a \<open>nat\<close> below \<open>2 ^ 64\<close>; an operation
  that can leave that range in C is written with \<open>u64_add\<close> or \<open>u64_sub\<close>, which reduce modulo
  \<open>2 ^ 64\<close>. A byte is an \<open>8 word\<close> and a flag word a \<open>32 word\<close>, so the bit operations of the
  code are the library's.
\<close>

unbundle bit_operations_syntax

subsection \<open>Types and collections\<close>

type_synonym byte = "8 word"
type_synonym u32 = "32 word"

text \<open>Facts on cursors and windows that every component's proofs share.\<close>

named_theorems buf_simps
named_theorems loop_rules

subsection \<open>64-bit unsigned arithmetic\<close>

definition UINT64_MAX :: nat where
  "UINT64_MAX = 2 ^ 64 - 1"

abbreviation SIZE_MAX :: nat where
  "SIZE_MAX \<equiv> UINT64_MAX"

definition u64_add :: "nat \<Rightarrow> nat \<Rightarrow> nat" where
  "u64_add a b = (a + b) mod 2 ^ 64"

definition u64_sub :: "nat \<Rightarrow> nat \<Rightarrow> nat" where
  "u64_sub a b = (if b \<le> a then a - b else a + 2 ^ 64 - b)"

definition u64_mul :: "nat \<Rightarrow> nat \<Rightarrow> nat" where
  "u64_mul a b = (a * b) mod 2 ^ 64"

lemma u64_sub_le [simp]: "b \<le> a \<Longrightarrow> u64_sub a b = a - b"
  by (simp add: u64_sub_def)

lemma u64_add_small [simp]: "a + b \<le> UINT64_MAX \<Longrightarrow> u64_add a b = a + b"
  by (simp add: u64_add_def UINT64_MAX_def)

lemma u64_mul_small [simp]: "a * b \<le> UINT64_MAX \<Longrightarrow> u64_mul a b = a * b"
  by (simp add: u64_mul_def UINT64_MAX_def)

lemma u64_add_bound: "u64_add a b \<le> UINT64_MAX"
  using mod_less_divisor [of "2 ^ 64" "a + b"] by (simp add: u64_add_def UINT64_MAX_def)

text \<open>What a 64-bit counter shows after \<open>n\<close> increments.\<close>

definition u64_of :: "nat \<Rightarrow> nat" where
  "u64_of n = n mod 2 ^ 64"

lemma u64_add_of [simp]: "u64_add (u64_of a) b = u64_of (a + b)"
  by (simp add: u64_add_def u64_of_def mod_add_left_eq)

lemma u64_of_0 [simp]: "u64_of 0 = 0"
  by (simp add: u64_of_def)

lemma u64_of_small [simp]: "n \<le> UINT64_MAX \<Longrightarrow> u64_of n = n"
  by (simp add: u64_of_def UINT64_MAX_def)

lemma u64_add_zero [simp]: "a \<le> UINT64_MAX \<Longrightarrow> u64_add a 0 = a"
  by simp

text \<open>A flag test \<^verbatim>\<open>flags & BIT\<close>, read as a truth value.\<close>

definition has_flag :: "u32 \<Rightarrow> u32 \<Rightarrow> bool" where
  "has_flag f m \<longleftrightarrow> f AND m \<noteq> 0"

subsection \<open>Guarded returns\<close>

text \<open>A chain of early returns of one value either returns it or passed every guard.\<close>

lemma guard_fails: "y = x \<or> P \<Longrightarrow> (if b then x else y) = x \<or> \<not> b \<and> P"
  by auto

subsection \<open>Memory as byte lists\<close>

text \<open>\<open>write_at m i ys\<close> is \<^verbatim>\<open>memcpy(m + i, ys, length ys)\<close>.\<close>

definition write_at :: "'a list \<Rightarrow> nat \<Rightarrow> 'a list \<Rightarrow> 'a list" where
  "write_at m i ys = take i m @ ys @ drop (i + length ys) m"

definition seg :: "'a list \<Rightarrow> nat \<Rightarrow> nat \<Rightarrow> 'a list" where
  "seg m i j = take (j - i) (drop i m)"

text \<open>\<^verbatim>\<open>realloc\<close> to \<open>n\<close> bytes; what it adds is never read before it is written.\<close>

definition resize :: "nat \<Rightarrow> byte list \<Rightarrow> byte list" where
  "resize n m = take n m @ replicate (n - length m) 0"

lemma write_at_length [simp]: "i + length ys \<le> length m \<Longrightarrow> length (write_at m i ys) = length m"
  by (simp add: write_at_def)

lemma write_at_Nil [simp]: "i \<le> length m \<Longrightarrow> write_at m i [] = m"
  by (simp add: write_at_def)

lemma write_at_take: "j \<le> i \<Longrightarrow> i \<le> length m \<Longrightarrow> take j (write_at m i ys) = take j m"
  by (simp add: write_at_def min_def)

lemma write_at_drop:
  "i + length ys \<le> j \<Longrightarrow> i \<le> length m \<Longrightarrow> drop j (write_at m i ys) = drop j m"
  by (simp add: write_at_def min_def drop_append)

lemma write_at_seg:
  "i \<le> length m \<Longrightarrow> seg (write_at m i ys) i (i + length ys) = ys"
  by (simp add: write_at_def seg_def min_def)

lemma seg_length [simp]: "j \<le> length m \<Longrightarrow> length (seg m i j) = j - i"
  by (simp add: seg_def)

lemma seg_self [simp]: "seg m i i = []"
  by (simp add: seg_def)

lemma seg_append:
  assumes "i \<le> j" "j \<le> k"
  shows "seg m i j @ seg m j k = seg m i k"
proof -
  have "k - i = (j - i) + (k - j)" and "j = (j - i) + i"
    using assms by simp_all
  then have "take (k - i) (drop i m) = take (j - i) (drop i m) @ take (k - j) (drop j m)"
    by (metis take_add drop_drop)
  then show ?thesis by (simp add: seg_def)
qed

lemma seg_full: "length m \<le> j \<Longrightarrow> seg m 0 j = m"
  by (simp add: seg_def)

lemma seg_cong_take:
  "take j m = take j m' \<Longrightarrow> seg m i j = seg m' i j"
  unfolding seg_def by (cases "i \<le> j") (simp_all add: take_drop)

lemma seg_nth: "i + k < j \<Longrightarrow> j \<le> length m \<Longrightarrow> seg m i j ! k = m ! (i + k)"
  by (simp add: seg_def)

lemma seg_Suc: "i < j \<Longrightarrow> j \<le> length m \<Longrightarrow> seg m i j = m ! i # seg m (Suc i) j"
  unfolding seg_def by (simp add: Suc_diff_Suc [symmetric] Cons_nth_drop_Suc [symmetric])

lemma take_eq_take_mono: "take j xs = take j ys \<Longrightarrow> i \<le> j \<Longrightarrow> take i xs = take i ys"
  by (metis min.absorb1 take_take)

lemma drop_eq_drop_mono: "drop i xs = drop i ys \<Longrightarrow> i \<le> j \<Longrightarrow> drop j xs = drop j ys"
  by (metis drop_drop le_add_diff_inverse2)

subsection \<open>Byte order\<close>

text \<open>The \<open>k\<close> bytes of \<open>n\<close>, least significant first.\<close>

fun le_bytes :: "nat \<Rightarrow> nat \<Rightarrow> byte list" where
  "le_bytes 0 n = []"
| "le_bytes (Suc k) n = word_of_nat n # le_bytes k (n div 256)"

fun of_le_bytes :: "byte list \<Rightarrow> nat" where
  "of_le_bytes [] = 0"
| "of_le_bytes (b # bs) = unat b + 256 * of_le_bytes bs"

lemma le_bytes_length [simp]: "length (le_bytes k n) = k"
  by (induction k arbitrary: n) simp_all

lemma of_le_bytes_le_bytes: "of_le_bytes (le_bytes k n) = n mod 256 ^ k"
proof (induction k arbitrary: n)
  case 0
  then show ?case by simp
next
  case (Suc k)
  have "unat (word_of_nat n :: byte) = n mod 256"
    by (simp add: unat_of_nat)
  with Suc.IH [of "n div 256"] show ?case
    by (simp add: mod_mult2_eq)
qed

lemma of_le_bytes_append:
  "of_le_bytes (xs @ ys) = of_le_bytes xs + 256 ^ length xs * of_le_bytes ys"
  by (induction xs) (simp_all add: algebra_simps)

lemma of_le_bytes_zeros [simp]: "of_le_bytes (replicate n 0) = 0"
  by (induction n) simp_all

lemma of_le_bytes_bound: "of_le_bytes bs < 256 ^ length bs"
proof (induction bs)
  case Nil
  then show ?case by simp
next
  case (Cons b bs)
  have "unat b < 256" using unsigned_less [of b] by simp
  with Cons.IH show ?case by simp
qed

lemma take_le_bytes: "take j (le_bytes k n) = le_bytes (min j k) n"
proof (induction k arbitrary: j n)
  case 0
  then show ?case by simp
next
  case (Suc k)
  then show ?case by (cases j) simp_all
qed

subsection \<open>Unbounded loops\<close>

text \<open>
  One turn of a loop body either returns from the enclosing function or goes round again with
  a new state. A body may itself call code that does not return, so it yields an option, and
  \<open>None\<close> from \<open>run_loop\<close> means that the loop runs forever (or that a call inside it does).
\<close>

datatype ('r, 's) loop_step = Ret 'r | Next 's

partial_function (option) run_loop ::
  "('s \<Rightarrow> ('r, 's) loop_step option) \<Rightarrow> 's \<Rightarrow> 'r option" where
  "run_loop f s =
     (case f s of
        None \<Rightarrow> None
      | Some x \<Rightarrow> (case x of Ret r \<Rightarrow> Some r | Next s' \<Rightarrow> run_loop f s'))"

declare run_loop.simps [code]

lemma run_loop_Ret: "f s = Some (Ret r) \<Longrightarrow> run_loop f s = Some r"
  by (simp add: run_loop.simps)

lemma run_loop_Next: "f s = Some (Next s') \<Longrightarrow> run_loop f s = run_loop f s'"
  by (subst run_loop.simps) simp

lemma run_loop_None: "f s = None \<Longrightarrow> run_loop f s = None"
  by (simp add: run_loop.simps)

text \<open>
  Total correctness: under an invariant the body always finishes its turn, a turn that goes
  round again re-establishes the invariant and decreases a well-founded relation, and a turn
  that returns establishes the postcondition.
\<close>

lemma run_loop_wf [loop_rules]:
  assumes wf: "wf R" and init: "I s"
    and turn: "\<And>s. I s \<Longrightarrow>
      (\<exists>r. f s = Some (Ret r) \<and> Q r) \<or> (\<exists>s'. f s = Some (Next s') \<and> I s' \<and> (s', s) \<in> R)"
  shows "\<exists>r. run_loop f s = Some r \<and> Q r"
  using wf init
proof (induction s rule: wf_induct_rule)
  case (less s)
  from turn [OF less.prems] show ?case
  proof
    assume "\<exists>r. f s = Some (Ret r) \<and> Q r"
    then show ?thesis by (auto simp: run_loop_Ret)
  next
    assume "\<exists>s'. f s = Some (Next s') \<and> I s' \<and> (s', s) \<in> R"
    then obtain s' where s': "f s = Some (Next s')" "I s'" "(s', s) \<in> R" by blast
    with less.IH [of s'] show ?thesis by (simp add: run_loop_Next)
  qed
qed

lemma run_loop_measure:
  assumes "I s"
    and "\<And>s. I s \<Longrightarrow>
      (\<exists>r. f s = Some (Ret r) \<and> Q r) \<or> (\<exists>s'. f s = Some (Next s') \<and> I s' \<and> m s' < (m s :: nat))"
  shows "\<exists>r. run_loop f s = Some r \<and> Q r"
  using run_loop_wf [of "measure m" I s f Q] assms by (simp add: in_measure)

text \<open>
  Partial correctness: what the invariant and the returning turn imply, wherever the loop does
  return.
\<close>

lemma run_loop_inv:
  fixes f :: "'s \<Rightarrow> ('r, 's) loop_step option" and Q :: "'r \<Rightarrow> bool"
  assumes ret: "run_loop f s = Some r" and init: "I s"
    and next_inv: "\<And>s s'. I s \<Longrightarrow> f s = Some (Next s') \<Longrightarrow> I s'"
    and ret_post: "\<And>s r. I s \<Longrightarrow> f s = Some (Ret r) \<Longrightarrow> Q r"
  shows "Q r"
proof -
  have "\<forall>I. I s \<longrightarrow> (\<forall>s s'. I s \<longrightarrow> f s = Some (Next s') \<longrightarrow> I s') \<longrightarrow>
      (\<forall>s r. I s \<longrightarrow> f s = Some (Ret r) \<longrightarrow> Q r) \<longrightarrow> Q r"
  proof (rule run_loop.raw_induct [where P =
        "\<lambda>f s r. \<forall>I. I s \<longrightarrow> (\<forall>s s'. I s \<longrightarrow> f s = Some (Next s') \<longrightarrow> I s') \<longrightarrow>
          (\<forall>s r. I s \<longrightarrow> f s = Some (Ret r) \<longrightarrow> Q r) \<longrightarrow> Q r", OF _ ret], intro allI impI)
    fix g :: "('s \<Rightarrow> ('r, 's) loop_step option) \<Rightarrow> 's \<Rightarrow> 'r option" and f s r and I :: "'s \<Rightarrow> bool"
    assume IH: "\<And>f s r. g f s = Some r \<Longrightarrow>
        \<forall>I. I s \<longrightarrow> (\<forall>s s'. I s \<longrightarrow> f s = Some (Next s') \<longrightarrow> I s') \<longrightarrow>
          (\<forall>s r. I s \<longrightarrow> f s = Some (Ret r) \<longrightarrow> Q r) \<longrightarrow> Q r"
      and eq: "(case f s of None \<Rightarrow> None
          | Some x \<Rightarrow> (case x of Ret r \<Rightarrow> Some r | Next s' \<Rightarrow> g f s')) = Some r"
      and I: "I s" and nx: "\<forall>s s'. I s \<longrightarrow> f s = Some (Next s') \<longrightarrow> I s'"
      and rt: "\<forall>s r. I s \<longrightarrow> f s = Some (Ret r) \<longrightarrow> Q r"
    from eq consider "f s = Some (Ret r)" | s' where "f s = Some (Next s')" "g f s' = Some r"
      by (auto split: option.splits loop_step.splits)
    then show "Q r"
    proof cases
      case 1
      with I rt show ?thesis by blast
    next
      case 2
      with I nx have "I s'" by blast
      with IH [OF 2(2)] nx rt show ?thesis by blast
    qed
  qed
  with init next_inv ret_post show ?thesis by blast
qed

end
