(* ===== verification/Zu_Abi.thy ===== *)
theory Zu_Abi
  imports Zu_Prelude
begin

text \<open>
  The public C ABI of \<^verbatim>\<open>inst/include/zukomp.h\<close>: status and codec enumerations, the buffer with
  its cursors, the option structs, the codec vtable and the capability description, and the
  status vocabulary of \<^verbatim>\<open>src/zu_status.c\<close>.

  A pointer that may be \<^verbatim>\<open>NULL\<close> is an \<open>option\<close>. A function pointer of the vtable is an
  optional HOL function; the codec's own stream state, a \<^verbatim>\<open>void *\<close> in C, is a value of the type
  parameter \<open>'s\<close> under \<open>option\<close>. A process function of a codec yields \<open>None\<close> when the C
  function would not return. A function that writes through a pointer returns the written
  object.
\<close>

subsection \<open>Status\<close>

datatype zu_status =
    ZU_OK | ZU_NEED_INPUT | ZU_NEED_OUTPUT | ZU_STREAM_END
  | ZU_ERR_INVALID_ARGUMENT | ZU_ERR_UNSUPPORTED | ZU_ERR_INVALID_DATA | ZU_ERR_TRUNCATED
  | ZU_ERR_CHECKSUM | ZU_ERR_TRAILING | ZU_ERR_MEMORY | ZU_ERR_OUTPUT_LIMIT
  | ZU_ERR_RATIO_LIMIT | ZU_ERR_INTERNAL

text \<open>The enumerators in declaration order; an enumerator's number is its position.\<close>

definition zu_status_enum :: "zu_status list" where
  "zu_status_enum =
     [ZU_OK, ZU_NEED_INPUT, ZU_NEED_OUTPUT, ZU_STREAM_END,
      ZU_ERR_INVALID_ARGUMENT, ZU_ERR_UNSUPPORTED, ZU_ERR_INVALID_DATA, ZU_ERR_TRUNCATED,
      ZU_ERR_CHECKSUM, ZU_ERR_TRAILING, ZU_ERR_MEMORY, ZU_ERR_OUTPUT_LIMIT,
      ZU_ERR_RATIO_LIMIT, ZU_ERR_INTERNAL]"

definition status_of_int :: "nat \<Rightarrow> zu_status option" where
  "status_of_int n = (if n < length zu_status_enum then Some (zu_status_enum ! n) else None)"

fun is_progress :: "zu_status \<Rightarrow> bool" where
  "is_progress ZU_OK = True"
| "is_progress ZU_NEED_INPUT = True"
| "is_progress ZU_NEED_OUTPUT = True"
| "is_progress ZU_STREAM_END = True"
| "is_progress _ = False"

fun status_text :: "zu_status \<Rightarrow> string" where
  "status_text ZU_OK = ''ok''"
| "status_text ZU_NEED_INPUT = ''needs more input''"
| "status_text ZU_NEED_OUTPUT = ''needs more output space''"
| "status_text ZU_STREAM_END = ''end of stream''"
| "status_text ZU_ERR_INVALID_ARGUMENT = ''invalid argument''"
| "status_text ZU_ERR_UNSUPPORTED = ''unsupported codec or operation''"
| "status_text ZU_ERR_INVALID_DATA = ''invalid compressed data''"
| "status_text ZU_ERR_TRUNCATED = ''truncated input''"
| "status_text ZU_ERR_CHECKSUM = ''checksum mismatch''"
| "status_text ZU_ERR_TRAILING = ''unexpected trailing bytes''"
| "status_text ZU_ERR_MEMORY = ''out of memory''"
| "status_text ZU_ERR_OUTPUT_LIMIT = ''output size limit exceeded''"
| "status_text ZU_ERR_RATIO_LIMIT = ''compression ratio limit exceeded''"
| "status_text ZU_ERR_INTERNAL = ''internal error''"

text \<open>
  \<^verbatim>\<open>zu_status_string\<close>: an enumeration argument may carry any integer in C, and one that is no
  enumerator falls through the \<^verbatim>\<open>switch\<close>.
\<close>

definition zu_status_string :: "nat \<Rightarrow> string" where
  "zu_status_string n =
     (case status_of_int n of Some st \<Rightarrow> status_text st | None \<Rightarrow> ''unrecognised status'')"

definition ZUKOMP_ABI_VERSION :: nat where
  "ZUKOMP_ABI_VERSION = 1"

definition zu_abi_version :: nat where
  "zu_abi_version = ZUKOMP_ABI_VERSION"

text \<open>\<^verbatim>\<open>zukomp_all_status_strings\<close> of \<^verbatim>\<open>src/zukomp_r.c\<close>: the text of every enumerator.\<close>

definition zukomp_all_status_strings :: "string list" where
  "zukomp_all_status_strings = map zu_status_string [0..<14]"

subsection \<open>Codec identities\<close>

type_synonym zu_codec = nat

definition ZU_CODEC_NONE :: zu_codec where "ZU_CODEC_NONE = 0"
definition ZU_CODEC_IDENTITY :: zu_codec where "ZU_CODEC_IDENTITY = 1"
definition ZU_CODEC_DEFLATE_RAW :: zu_codec where "ZU_CODEC_DEFLATE_RAW = 2"
definition ZU_CODEC_ZLIB :: zu_codec where "ZU_CODEC_ZLIB = 3"
definition ZU_CODEC_GZIP :: zu_codec where "ZU_CODEC_GZIP = 4"
definition ZU_CODEC_BROTLI :: zu_codec where "ZU_CODEC_BROTLI = 16"
definition ZU_CODEC_ZSTD :: zu_codec where "ZU_CODEC_ZSTD = 17"
definition ZU_CODEC_LZ4_FRAME :: zu_codec where "ZU_CODEC_LZ4_FRAME = 18"
definition ZU_CODEC_LZ4_BLOCK :: zu_codec where "ZU_CODEC_LZ4_BLOCK = 19"
definition ZU_CODEC_SNAPPY_FRAME :: zu_codec where "ZU_CODEC_SNAPPY_FRAME = 20"
definition ZU_CODEC_SNAPPY_RAW :: zu_codec where "ZU_CODEC_SNAPPY_RAW = 21"
definition ZU_CODEC_VENDOR_BASE :: zu_codec where "ZU_CODEC_VENDOR_BASE = 1024"

lemmas zu_codec_ids =
  ZU_CODEC_NONE_def ZU_CODEC_IDENTITY_def ZU_CODEC_DEFLATE_RAW_def ZU_CODEC_ZLIB_def
  ZU_CODEC_GZIP_def ZU_CODEC_BROTLI_def ZU_CODEC_ZSTD_def ZU_CODEC_LZ4_FRAME_def
  ZU_CODEC_LZ4_BLOCK_def ZU_CODEC_SNAPPY_FRAME_def ZU_CODEC_SNAPPY_RAW_def
  ZU_CODEC_VENDOR_BASE_def

subsection \<open>Buffers and flush modes\<close>

record zu_buffer =
  src :: "byte list option"
  src_size :: nat
  src_pos :: nat
  dst :: "byte list option"
  dst_size :: nat
  dst_pos :: nat

text \<open>The three modes, and whatever other integer a caller's enumeration argument may hold.\<close>

datatype zu_flush = ZU_RUN | ZU_FLUSH | ZU_FINISH | Zu_flush_other int

subsection \<open>Options\<close>

definition ZU_LEVEL_DEFAULT :: int where
  "ZU_LEVEL_DEFAULT = - (2 ^ 31)"

definition ZU_DEC_REJECT_TRAILING :: u32 where "ZU_DEC_REJECT_TRAILING = 1"
definition ZU_DEC_CONCAT_MEMBERS :: u32 where "ZU_DEC_CONCAT_MEMBERS = 2"
definition ZU_DEC_EXPECTED_SIZE :: u32 where "ZU_DEC_EXPECTED_SIZE = 4"

record zu_encoder_opts =
  eo_struct_size :: nat
  eo_codec :: zu_codec
  eo_level :: int
  eo_flags :: u32

record zu_decoder_opts =
  do_struct_size :: nat
  do_codec :: zu_codec
  do_max_output :: nat
  do_max_ratio :: nat
  do_flags :: u32
  do_expected_size :: nat

text \<open>
  Sizes and offsets under the LP64 layout (4-byte enumerations and \<^verbatim>\<open>int\<close>, 8-byte pointers,
  \<^verbatim>\<open>size_t\<close> and \<^verbatim>\<open>uint64_t\<close>, natural alignment).
\<close>

definition ZU_ENCODER_OPTS_REQUIRED_SIZE :: nat where "ZU_ENCODER_OPTS_REQUIRED_SIZE = 16"
definition ZU_DECODER_OPTS_REQUIRED_SIZE :: nat where "ZU_DECODER_OPTS_REQUIRED_SIZE = 24"
definition sizeof_zu_encoder_opts :: nat where "sizeof_zu_encoder_opts = 16"
definition sizeof_zu_decoder_opts :: nat where "sizeof_zu_decoder_opts = 32"
definition offsetof_expected_size :: nat where "offsetof_expected_size = 24"

lemmas opts_layout =
  ZU_ENCODER_OPTS_REQUIRED_SIZE_def ZU_DECODER_OPTS_REQUIRED_SIZE_def
  sizeof_zu_encoder_opts_def sizeof_zu_decoder_opts_def offsetof_expected_size_def

subsection \<open>Capability description and vtable\<close>

definition ZU_CAN_ENCODE :: u32 where "ZU_CAN_ENCODE = 1"
definition ZU_CAN_DECODE :: u32 where "ZU_CAN_DECODE = 2"
definition ZU_CAN_FLUSH :: u32 where "ZU_CAN_FLUSH = 4"

lemmas zu_flag_bits =
  has_flag_def ZU_CAN_ENCODE_def ZU_CAN_DECODE_def ZU_CAN_FLUSH_def
  ZU_DEC_REJECT_TRAILING_def ZU_DEC_CONCAT_MEMBERS_def ZU_DEC_EXPECTED_SIZE_def

record zu_codec_info =
  i_struct_size :: nat
  i_codec :: zu_codec
  i_name :: "string option"
  i_content_encoding :: "string option"
  i_source :: "string option"
  i_level_min :: int
  i_level_max :: int
  i_level_default :: int
  i_flags :: u32
  i_detectable :: bool
  i_level_fast :: int
  i_level_best :: int

type_synonym 's process_fn =
  "'s option \<Rightarrow> zu_buffer \<Rightarrow> zu_flush \<Rightarrow> (zu_status \<times> 's option \<times> zu_buffer) option"

record 's zu_codec_vtable =
  v_struct_size :: nat
  v_codec :: zu_codec
  v_name :: "string option"
  v_content_encoding :: "string option"
  v_source :: "string option"
  v_level_min :: int
  v_level_max :: int
  v_level_default :: int
  v_flags :: u32
  v_magic :: "byte list option"
  v_magic_len :: nat
  v_magic_offset :: nat
  v_sniff :: "(byte list \<Rightarrow> nat \<Rightarrow> bool) option"
  v_encoder_new :: "(zu_encoder_opts \<Rightarrow> zu_status \<times> 's option) option"
  v_encoder_process :: "'s process_fn option"
  v_encoder_reset :: "('s option \<Rightarrow> zu_encoder_opts \<Rightarrow> zu_status \<times> 's option) option"
  v_encoder_free :: "('s option \<Rightarrow> string list) option"
  v_decoder_new :: "(zu_decoder_opts \<Rightarrow> zu_status \<times> 's option) option"
  v_decoder_process :: "'s process_fn option"
  v_decoder_reset :: "('s option \<Rightarrow> zu_decoder_opts \<Rightarrow> zu_status \<times> 's option) option"
  v_decoder_free :: "('s option \<Rightarrow> string list) option"
  v_bound :: "(int \<Rightarrow> nat \<Rightarrow> zu_status \<times> nat option) option"
  v_level_fast :: int
  v_level_best :: int

definition sizeof_zu_codec_vtable :: nat where "sizeof_zu_codec_vtable = 160"
definition ZU_VTABLE_REQUIRED_SIZE :: nat where "ZU_VTABLE_REQUIRED_SIZE = 152"
definition vtable_level_end :: nat where "vtable_level_end = 160"
definition info_required_size :: nat where "info_required_size = 52"
definition info_level_end :: nat where "info_level_end = 60"

lemmas vtable_layout =
  sizeof_zu_codec_vtable_def ZU_VTABLE_REQUIRED_SIZE_def vtable_level_end_def
  info_required_size_def info_level_end_def

subsection \<open>The status vocabulary is complete\<close>

lemma zu_status_enum_complete: "st \<in> set zu_status_enum"
  by (cases st) (simp_all add: zu_status_enum_def)

lemma zu_status_enum_distinct: "distinct zu_status_enum"
  by (simp add: zu_status_enum_def)

lemma zu_status_enum_length: "length zu_status_enum = 14"
  by (simp add: zu_status_enum_def)

lemma status_of_int_surj: "\<exists>n < 14. status_of_int n = Some st"
proof -
  from zu_status_enum_complete [of st] obtain n where
    "n < length zu_status_enum" "zu_status_enum ! n = st"
    unfolding in_set_conv_nth by blast
  then show ?thesis
    by (intro exI [of _ n]) (simp add: status_of_int_def zu_status_enum_length)
qed

end
