(* ===== verification/Zu_Buf.thy ===== *)
theory Zu_Buf
  imports Zu_Abi
begin

text \<open>
  Checked size arithmetic (\<^verbatim>\<open>src/zu_buf.c\<close>) and the cursor discipline of \<^verbatim>\<open>zu_buffer\<close>: what a
  well-formed buffer is, what a callee may change in it, and which bytes a call consumed and
  emitted. The discipline is stated once, as the preorder \<open>buf_adv\<close>, and every codec and
  driver proof composes its steps with the lemmas collected in \<open>buf_simps\<close>.
\<close>

subsection \<open>Checked size arithmetic\<close>

definition ZU_INT_MIN_BUFFER :: nat where
  "ZU_INT_MIN_BUFFER = 4096"

text \<open>The result is the status and the object written through \<^verbatim>\<open>out\<close>, when it is written.\<close>

definition zu_int_add :: "nat \<Rightarrow> nat \<Rightarrow> zu_status \<times> nat option" where
  "zu_int_add a b =
     (if b > SIZE_MAX - a then (ZU_ERR_MEMORY, None) else (ZU_OK, Some (u64_add a b)))"

definition zu_int_mul :: "nat \<Rightarrow> nat \<Rightarrow> zu_status \<times> nat option" where
  "zu_int_mul a b =
     (if a \<noteq> 0 \<and> b > SIZE_MAX div a then (ZU_ERR_MEMORY, None)
      else (ZU_OK, Some (u64_mul a b)))"

definition zu_int_grow :: "nat \<Rightarrow> nat \<Rightarrow> zu_status \<times> nat option" where
  "zu_int_grow current needed =
     (case zu_int_add current needed of
        (st, None) \<Rightarrow> (st, None)
      | (st, Some required) \<Rightarrow>
          (let doubled = (case zu_int_mul current 2 of
                            (ZU_OK, Some d) \<Rightarrow> d
                          | _ \<Rightarrow> required);
               nxt = (if doubled > required then doubled else required)
           in (ZU_OK, Some (if nxt < ZU_INT_MIN_BUFFER then ZU_INT_MIN_BUFFER else nxt))))"

lemma zu_int_add_cases:
  assumes "a \<le> SIZE_MAX"
  shows "zu_int_add a b =
     (if a + b \<le> SIZE_MAX then (ZU_OK, Some (a + b)) else (ZU_ERR_MEMORY, None))"
  using assms by (auto simp: zu_int_add_def)

lemma zu_int_mul_cases:
  "zu_int_mul a b =
     (if a * b \<le> SIZE_MAX then (ZU_OK, Some (a * b)) else (ZU_ERR_MEMORY, None))"
proof (cases "a = 0")
  case True
  then show ?thesis by (simp add: zu_int_mul_def)
next
  case False
  then have "b \<le> SIZE_MAX div a \<longleftrightarrow> a * b \<le> SIZE_MAX"
    by (simp add: less_eq_div_iff_mult_less_eq mult.commute)
  with False show ?thesis by (auto simp: zu_int_mul_def not_less)
qed

lemma zu_int_grow_cases:
  assumes "current \<le> SIZE_MAX"
  shows "zu_int_grow current needed =
    (if current + needed \<le> SIZE_MAX
     then (ZU_OK, Some (max ZU_INT_MIN_BUFFER
            (if 2 * current \<le> SIZE_MAX then max (2 * current) (current + needed)
             else current + needed)))
     else (ZU_ERR_MEMORY, None))"
  using assms
  by (simp add: zu_int_grow_def zu_int_add_cases zu_int_mul_cases Let_def max_def mult.commute)

lemma zu_int_grow_OK_iff:
  assumes "current \<le> SIZE_MAX"
  shows "fst (zu_int_grow current needed) = ZU_OK \<longleftrightarrow> current + needed \<le> SIZE_MAX"
  using assms by (simp add: zu_int_grow_cases)

lemma zu_int_grow_OK:
  assumes "current \<le> SIZE_MAX" and "zu_int_grow current needed = (ZU_OK, Some n)"
  shows "current + needed \<le> n" and "n \<le> SIZE_MAX"
  using assms
  by (auto simp: zu_int_grow_cases ZU_INT_MIN_BUFFER_def UINT64_MAX_def split: if_splits)

subsection \<open>Windows of a buffer\<close>

definition src_mem :: "zu_buffer \<Rightarrow> byte list" where
  "src_mem b = (case src b of None \<Rightarrow> [] | Some m \<Rightarrow> m)"

definition dst_mem :: "zu_buffer \<Rightarrow> byte list" where
  "dst_mem b = (case dst b of None \<Rightarrow> [] | Some m \<Rightarrow> m)"

definition avail_in :: "zu_buffer \<Rightarrow> nat" where
  "avail_in b = u64_sub (src_size b) (src_pos b)"

definition avail_out :: "zu_buffer \<Rightarrow> nat" where
  "avail_out b = u64_sub (dst_size b) (dst_pos b)"

text \<open>The input not yet consumed; \<^verbatim>\<open>src[src_pos + k]\<close>; moving the input cursor; writing at the
  output cursor and moving it.\<close>

definition in_window :: "zu_buffer \<Rightarrow> byte list" where
  "in_window b = seg (src_mem b) (src_pos b) (src_size b)"

definition src_byte :: "zu_buffer \<Rightarrow> nat \<Rightarrow> byte" where
  "src_byte b k = src_mem b ! (src_pos b + k)"

definition skip_in :: "nat \<Rightarrow> zu_buffer \<Rightarrow> zu_buffer" where
  "skip_in n b = b\<lparr>src_pos := src_pos b + n\<rparr>"

definition put_out :: "byte list \<Rightarrow> zu_buffer \<Rightarrow> zu_buffer" where
  "put_out bs b = b\<lparr>dst := map_option (\<lambda>m. write_at m (dst_pos b) bs) (dst b),
                    dst_pos := dst_pos b + length bs\<rparr>"

text \<open>The cursors are within their sizes and the sizes within the memory they describe.\<close>

definition buf_wf :: "zu_buffer \<Rightarrow> bool" where
  "buf_wf b \<longleftrightarrow> src_pos b \<le> src_size b \<and> src_size b \<le> length (src_mem b) \<and>
     dst_pos b \<le> dst_size b \<and> dst_size b \<le> length (dst_mem b) \<and>
     length (src_mem b) \<le> SIZE_MAX \<and> length (dst_mem b) \<le> SIZE_MAX"

text \<open>
  What \<^verbatim>\<open>zukomp.h\<close> promises of every call: the callee advances \<^verbatim>\<open>src_pos\<close> and \<^verbatim>\<open>dst_pos\<close>
  within the sizes it was given and touches nothing else. Output memory may change only inside
  the window \<open>[dst_pos, dst_size)\<close>.
\<close>

definition buf_adv :: "zu_buffer \<Rightarrow> zu_buffer \<Rightarrow> bool" where
  "buf_adv b b' \<longleftrightarrow>
     src b' = src b \<and> src_size b' = src_size b \<and> dst_size b' = dst_size b \<and>
     src_pos b \<le> src_pos b' \<and> src_pos b' \<le> src_size b \<and>
     dst_pos b \<le> dst_pos b' \<and> dst_pos b' \<le> dst_size b \<and>
     length (dst_mem b') = length (dst_mem b) \<and> (dst b' = None \<longleftrightarrow> dst b = None) \<and>
     take (dst_pos b) (dst_mem b') = take (dst_pos b) (dst_mem b) \<and>
     drop (dst_size b) (dst_mem b') = drop (dst_size b) (dst_mem b)"

definition consumed :: "zu_buffer \<Rightarrow> zu_buffer \<Rightarrow> byte list" where
  "consumed b b' = seg (src_mem b) (src_pos b) (src_pos b')"

definition emitted :: "zu_buffer \<Rightarrow> zu_buffer \<Rightarrow> byte list" where
  "emitted b b' = seg (dst_mem b') (dst_pos b) (dst_pos b')"

subsection \<open>The cursor discipline composes\<close>

lemma buf_adv_refl [simp]: "buf_wf b \<Longrightarrow> buf_adv b b"
  by (simp add: buf_adv_def buf_wf_def)

lemma buf_adv_src_mem: "buf_adv b b' \<Longrightarrow> src_mem b' = src_mem b"
  by (simp add: buf_adv_def src_mem_def)

lemma buf_adv_wf: "buf_wf b \<Longrightarrow> buf_adv b b' \<Longrightarrow> buf_wf b'"
  by (auto simp: buf_adv_def buf_wf_def src_mem_def)

lemma buf_adv_trans [trans]:
  assumes "buf_adv a b" "buf_adv b c"
  shows "buf_adv a c"
proof -
  from assms have "take (dst_pos b) (dst_mem c) = take (dst_pos b) (dst_mem b)" "dst_pos a \<le> dst_pos b"
    by (simp_all add: buf_adv_def)
  then have "take (dst_pos a) (dst_mem c) = take (dst_pos a) (dst_mem b)"
    by (rule take_eq_take_mono)
  with assms show ?thesis by (simp add: buf_adv_def)
qed

lemma consumed_refl [simp]: "consumed b b = []"
  by (simp add: consumed_def)

lemma emitted_refl [simp]: "emitted b b = []"
  by (simp add: emitted_def)

lemma consumed_trans:
  "buf_adv a b \<Longrightarrow> buf_adv b c \<Longrightarrow> consumed a c = consumed a b @ consumed b c"
  using seg_append [of "src_pos a" "src_pos b" "src_pos c" "src_mem a"]
  by (simp add: consumed_def buf_adv_src_mem) (simp add: buf_adv_def)

lemma emitted_trans:
  assumes "buf_adv a b" "buf_adv b c"
  shows "emitted a c = emitted a b @ emitted b c"
proof -
  have "take (dst_pos b) (dst_mem c) = take (dst_pos b) (dst_mem b)"
    using assms(2) by (simp add: buf_adv_def)
  then have "seg (dst_mem c) (dst_pos a) (dst_pos b) = seg (dst_mem b) (dst_pos a) (dst_pos b)"
    by (rule seg_cong_take)
  moreover have "dst_pos a \<le> dst_pos b" "dst_pos b \<le> dst_pos c"
    using assms by (simp_all add: buf_adv_def)
  ultimately show ?thesis
    using seg_append [of "dst_pos a" "dst_pos b" "dst_pos c" "dst_mem c"]
    by (simp add: emitted_def)
qed

lemma consumed_length:
  "buf_wf a \<Longrightarrow> buf_adv a b \<Longrightarrow> length (consumed a b) = src_pos b - src_pos a"
  by (simp add: consumed_def buf_adv_def buf_wf_def)

lemma emitted_length:
  "buf_wf a \<Longrightarrow> buf_adv a b \<Longrightarrow> length (emitted a b) = dst_pos b - dst_pos a"
  by (simp add: emitted_def buf_adv_def buf_wf_def)

lemma consumed_window:
  assumes "buf_wf a" "buf_adv a b"
  shows "in_window a = consumed a b @ in_window b"
  using assms seg_append [of "src_pos a" "src_pos b" "src_size a" "src_mem a"]
  by (simp add: in_window_def consumed_def buf_adv_src_mem) (simp add: buf_adv_def)

lemma consumed_prefix:
  assumes "buf_wf a" "buf_adv a b"
  shows "consumed a b = take (src_pos b - src_pos a) (in_window a)"
  using consumed_window [OF assms] consumed_length [OF assms] by simp

subsection \<open>Elementary moves\<close>

lemma avail_in_wf [buf_simps]: "buf_wf b \<Longrightarrow> avail_in b = src_size b - src_pos b"
  by (simp add: avail_in_def buf_wf_def)

lemma avail_out_wf [buf_simps]: "buf_wf b \<Longrightarrow> avail_out b = dst_size b - dst_pos b"
  by (simp add: avail_out_def buf_wf_def)

lemma in_window_length: "buf_wf b \<Longrightarrow> length (in_window b) = avail_in b"
  by (simp add: in_window_def avail_in_wf) (simp add: buf_wf_def)

lemma src_byte_window: "buf_wf b \<Longrightarrow> k < avail_in b \<Longrightarrow> src_byte b k = in_window b ! k"
  by (simp add: src_byte_def in_window_def avail_in_wf seg_nth buf_wf_def)

lemma dst_mem_put_out [buf_simps]:
  "buf_wf b \<Longrightarrow> length bs \<le> avail_out b \<Longrightarrow> dst_mem (put_out bs b) = write_at (dst_mem b) (dst_pos b) bs"
  by (cases "dst b") (auto simp: put_out_def dst_mem_def avail_out_wf write_at_def buf_wf_def)

lemma skip_in_adv:
  "buf_wf b \<Longrightarrow> n \<le> avail_in b \<Longrightarrow> buf_adv b (skip_in n b)"
  by (simp add: avail_in_wf) (auto simp: skip_in_def buf_adv_def dst_mem_def buf_wf_def)

lemma put_out_adv:
  assumes "buf_wf b" "length bs \<le> avail_out b"
  shows "buf_adv b (put_out bs b)"
proof -
  from assms have len: "dst_pos b + length bs \<le> dst_size b" "dst_size b \<le> length (dst_mem b)"
    by (auto simp: avail_out_wf buf_wf_def)
  have mem: "dst_mem (put_out bs b) = write_at (dst_mem b) (dst_pos b) bs"
    by (rule dst_mem_put_out [OF assms])
  have fields: "src (put_out bs b) = src b" "src_size (put_out bs b) = src_size b"
      "dst_size (put_out bs b) = dst_size b" "src_pos (put_out bs b) = src_pos b"
      "dst_pos (put_out bs b) = dst_pos b + length bs"
      "(dst (put_out bs b) = None) = (dst b = None)"
    by (simp_all add: put_out_def)
  show ?thesis
    using len assms(1)
    unfolding buf_adv_def fields mem
    by (auto simp: write_at_take write_at_drop buf_wf_def)
qed

lemma skip_in_consumed [buf_simps]: "consumed b (skip_in n b) = seg (src_mem b) (src_pos b) (src_pos b + n)"
  by (simp add: consumed_def skip_in_def)

lemma skip_in_emitted [buf_simps]: "emitted b (skip_in n b) = []"
  by (simp add: emitted_def skip_in_def)

lemma put_out_consumed [buf_simps]: "consumed b (put_out bs b) = []"
  by (simp add: consumed_def put_out_def)

lemma put_out_emitted [buf_simps]:
  assumes "buf_wf b" "length bs \<le> avail_out b"
  shows "emitted b (put_out bs b) = bs"
proof -
  from assms have "dst_pos b \<le> length (dst_mem b)" by (auto simp: buf_wf_def)
  with assms show ?thesis
    by (simp add: emitted_def dst_mem_put_out write_at_seg) (simp add: put_out_def write_at_seg)
qed

lemma skip_in_seg: "buf_wf b \<Longrightarrow> n \<le> avail_in b \<Longrightarrow>
    seg (src_mem b) (src_pos b) (src_pos b + n) = take n (in_window b)"
  by (simp add: seg_def in_window_def avail_in_wf min_def)

lemma skip_in_pos [simp]: "src_pos (skip_in n b) = src_pos b + n" "dst_pos (skip_in n b) = dst_pos b"
    "src_size (skip_in n b) = src_size b" "dst_size (skip_in n b) = dst_size b"
    "src (skip_in n b) = src b" "dst (skip_in n b) = dst b"
  by (simp_all add: skip_in_def)

lemma put_out_pos [simp]: "dst_pos (put_out bs b) = dst_pos b + length bs"
    "src_pos (put_out bs b) = src_pos b" "src_size (put_out bs b) = src_size b"
    "dst_size (put_out bs b) = dst_size b" "src (put_out bs b) = src b"
  by (simp_all add: put_out_def)

text \<open>One move of both cursors, the shape of every library call: consume \<open>n\<close> bytes and emit
  \<open>bs\<close>.\<close>

lemma move_adv:
  assumes "buf_wf b" "n \<le> avail_in b" "length bs \<le> avail_out b"
  shows "buf_adv b (put_out bs (skip_in n b))"
    and "consumed b (put_out bs (skip_in n b)) = take n (in_window b)"
    and "emitted b (put_out bs (skip_in n b)) = bs"
proof -
  let ?c = "skip_in n b"
  have c: "buf_adv b ?c" by (rule skip_in_adv [OF assms(1,2)])
  then have wf: "buf_wf ?c" using assms(1) by (rule buf_adv_wf [rotated])
  have "avail_out ?c = avail_out b" by (simp add: avail_out_def)
  with assms(3) have out: "length bs \<le> avail_out ?c" by simp
  have d: "buf_adv ?c (put_out bs ?c)" by (rule put_out_adv [OF wf out])
  from c d show "buf_adv b (put_out bs ?c)" by (rule buf_adv_trans)
  show "consumed b (put_out bs ?c) = take n (in_window b)"
    using consumed_trans [OF c d] assms by (simp add: buf_simps skip_in_seg)
  show "emitted b (put_out bs ?c) = bs"
    using emitted_trans [OF c d] wf out by (simp add: buf_simps)
qed

end
