(* ===== verification/Zu_Registry.thy ===== *)
theory Zu_Registry
  imports Zu_Buf
begin

text \<open>
  The codec registry (\<^verbatim>\<open>src/zu_registry.c\<close>): the static table of codec names this build knows,
  the append-only table of registered vtables with its mutation counter, registration with its
  identity invariants, lookup by identity, name and content-coding token, capability queries,
  and detection by magic bytes and predicates.

  The file-scope variables \<^verbatim>\<open>zu_int_registry\<close>, \<^verbatim>\<open>zu_int_registry_n\<close> and
  \<^verbatim>\<open>zu_int_registry_gen\<close> are the record \<open>zu_registry\<close>, passed to and returned from each
  operation. C strings are \<open>string\<close> values without a NUL, and \<^verbatim>\<open>strcmp(a, b) == 0\<close> is equality.
\<close>

subsection \<open>Declared codec names\<close>

record zu_int_codec_decl =
  d_codec :: zu_codec
  d_name :: string
  d_content_encoding :: "string option"

definition zu_int_declared :: "zu_int_codec_decl list" where
  "zu_int_declared =
    [\<lparr>d_codec = ZU_CODEC_IDENTITY,     d_name = ''identity'',     d_content_encoding = Some ''identity''\<rparr>,
     \<lparr>d_codec = ZU_CODEC_DEFLATE_RAW,  d_name = ''deflate-raw'',  d_content_encoding = None\<rparr>,
     \<lparr>d_codec = ZU_CODEC_ZLIB,         d_name = ''zlib'',         d_content_encoding = Some ''deflate''\<rparr>,
     \<lparr>d_codec = ZU_CODEC_GZIP,         d_name = ''gzip'',         d_content_encoding = Some ''gzip''\<rparr>,
     \<lparr>d_codec = ZU_CODEC_BROTLI,       d_name = ''brotli'',       d_content_encoding = Some ''br''\<rparr>,
     \<lparr>d_codec = ZU_CODEC_ZSTD,         d_name = ''zstd'',         d_content_encoding = Some ''zstd''\<rparr>,
     \<lparr>d_codec = ZU_CODEC_LZ4_FRAME,    d_name = ''lz4-frame'',    d_content_encoding = None\<rparr>,
     \<lparr>d_codec = ZU_CODEC_LZ4_BLOCK,    d_name = ''lz4-block'',    d_content_encoding = None\<rparr>,
     \<lparr>d_codec = ZU_CODEC_SNAPPY_FRAME, d_name = ''snappy-frame'', d_content_encoding = None\<rparr>,
     \<lparr>d_codec = ZU_CODEC_SNAPPY_RAW,   d_name = ''snappy-raw'',   d_content_encoding = None\<rparr>]"

definition zu_int_declared_count :: nat where
  "zu_int_declared_count = length zu_int_declared"

definition zu_int_declared_at :: "nat \<Rightarrow> zu_int_codec_decl option" where
  "zu_int_declared_at i = (if i < length zu_int_declared then Some (zu_int_declared ! i) else None)"

definition zu_int_declared_for :: "zu_codec \<Rightarrow> zu_int_codec_decl option" where
  "zu_int_declared_for c = find (\<lambda>d. d_codec d = c) zu_int_declared"

subsection \<open>The registry\<close>

definition ZU_INT_REGISTRY_CAP :: nat where
  "ZU_INT_REGISTRY_CAP = 32"

record 's zu_registry =
  reg_table :: "'s zu_codec_vtable list"
  reg_gen :: nat

definition zu_registry_init :: "'s zu_registry" where
  "zu_registry_init = \<lparr>reg_table = [], reg_gen = 0\<rparr>"

definition zu_int_registry_count :: "'s zu_registry \<Rightarrow> nat" where
  "zu_int_registry_count r = length (reg_table r)"

definition zu_int_registry_at :: "'s zu_registry \<Rightarrow> nat \<Rightarrow> 's zu_codec_vtable option" where
  "zu_int_registry_at r i = (if i < length (reg_table r) then Some (reg_table r ! i) else None)"

definition zu_int_registry_lookup :: "'s zu_registry \<Rightarrow> zu_codec \<Rightarrow> 's zu_codec_vtable option" where
  "zu_int_registry_lookup r c =
     (if c = ZU_CODEC_NONE then None else find (\<lambda>v. v_codec v = c) (reg_table r))"

definition zu_int_registry_generation :: "'s zu_registry \<Rightarrow> nat" where
  "zu_int_registry_generation r = reg_gen r"

text \<open>
  \<^verbatim>\<open>zu_int_ieq\<close>: the byte at the cursor, 0 at the end of the string, folded to lower case when
  it is an ASCII capital; both cursors advance until the bytes differ or end.
\<close>

definition c_at :: "string \<Rightarrow> nat" where
  "c_at s = (case s of [] \<Rightarrow> 0 | c # _ \<Rightarrow> of_char c)"

definition c_lower :: "nat \<Rightarrow> nat" where
  "c_lower c = (if 65 \<le> c \<and> c \<le> 90 then c - 65 + 97 else c)"

function zu_int_ieq :: "string \<Rightarrow> string \<Rightarrow> bool" where
  "zu_int_ieq a b =
     (let ca = c_lower (c_at a); cb = c_lower (c_at b)
      in if ca \<noteq> cb then False else if ca = 0 then True else zu_int_ieq (tl a) (tl b))"
  by pat_completeness auto
termination
  by (relation "measure (\<lambda>(a, b). length a)") (auto simp: c_at_def c_lower_def split: list.splits)

declare zu_int_ieq.simps [simp del]

text \<open>Two optional tokens clash when both are present and equal up to ASCII case.\<close>

definition token_clash :: "string option \<Rightarrow> string option \<Rightarrow> bool" where
  "token_clash t u =
     (case t of None \<Rightarrow> False | Some a \<Rightarrow> (case u of None \<Rightarrow> False | Some b \<Rightarrow> zu_int_ieq a b))"

text \<open>\<^verbatim>\<open>zu_register_codec\<close>, its checks in the order of the code.\<close>

definition zu_register_codec ::
  "'s zu_codec_vtable option \<Rightarrow> 's zu_registry \<Rightarrow> zu_status \<times> 's zu_registry" where
  "zu_register_codec vt r =
    (case vt of
       None \<Rightarrow> (ZU_ERR_INVALID_ARGUMENT, r)
     | Some v \<Rightarrow>
        if v_name v = None \<or> v_source v = None then (ZU_ERR_INVALID_ARGUMENT, r)
        else if v_struct_size v < ZU_VTABLE_REQUIRED_SIZE then (ZU_ERR_INVALID_ARGUMENT, r)
        else if v_codec v = ZU_CODEC_NONE then (ZU_ERR_INVALID_ARGUMENT, r)
        else if has_flag (v_flags v) ZU_CAN_ENCODE \<and>
                (v_encoder_new v = None \<or> v_encoder_process v = None \<or> v_encoder_free v = None)
             then (ZU_ERR_INVALID_ARGUMENT, r)
        else if has_flag (v_flags v) ZU_CAN_DECODE \<and>
                (v_decoder_new v = None \<or> v_decoder_process v = None \<or> v_decoder_free v = None)
             then (ZU_ERR_INVALID_ARGUMENT, r)
        else if zu_int_registry_lookup r (v_codec v) \<noteq> None then (ZU_ERR_INVALID_ARGUMENT, r)
        else if (case zu_int_declared_for (v_codec v) of
                   Some d \<Rightarrow> v_name v \<noteq> Some (d_name d)
                 | None \<Rightarrow> v_codec v < ZU_CODEC_VENDOR_BASE)
             then (ZU_ERR_INVALID_ARGUMENT, r)
        else if (\<exists>d \<in> set zu_int_declared.
                   (Some (d_name d) = v_name v \<and> d_codec d \<noteq> v_codec v) \<or>
                   (token_clash (d_content_encoding d) (v_content_encoding v) \<and>
                    d_codec d \<noteq> v_codec v))
             then (ZU_ERR_INVALID_ARGUMENT, r)
        else if (\<exists>w \<in> set (reg_table r).
                   v_name w = v_name v \<or>
                   token_clash (v_content_encoding w) (v_content_encoding v))
             then (ZU_ERR_INVALID_ARGUMENT, r)
        else if length (reg_table r) \<ge> ZU_INT_REGISTRY_CAP then (ZU_ERR_MEMORY, r)
        else (ZU_OK, r\<lparr>reg_table := reg_table r @ [v], reg_gen := u64_add (reg_gen r) 1\<rparr>))"

text \<open>Registration of a fixed list, stopping at the first failure: the loop of
  \<^verbatim>\<open>zu_int_register_builtin_codecs\<close>.\<close>

fun register_list :: "'s zu_codec_vtable list \<Rightarrow> 's zu_registry \<Rightarrow> zu_status \<times> 's zu_registry" where
  "register_list [] r = (ZU_OK, r)"
| "register_list (v # vs) r =
     (case zu_register_codec (Some v) r of
        (st, r') \<Rightarrow> if st \<noteq> ZU_OK then (st, r') else register_list vs r')"

subsection \<open>Lookup and capability queries\<close>

definition zu_codec_lookup :: "'s zu_registry \<Rightarrow> string option \<Rightarrow> zu_codec" where
  "zu_codec_lookup r name =
     (case name of
        None \<Rightarrow> ZU_CODEC_NONE
      | Some n \<Rightarrow>
          (case find (\<lambda>d. d_name d = n) zu_int_declared of
             Some d \<Rightarrow> d_codec d
           | None \<Rightarrow>
               (case find (\<lambda>v. v_name v = Some n) (reg_table r) of
                  Some v \<Rightarrow> v_codec v
                | None \<Rightarrow> ZU_CODEC_NONE)))"

definition zu_codec_from_content_encoding :: "'s zu_registry \<Rightarrow> string option \<Rightarrow> zu_codec" where
  "zu_codec_from_content_encoding r token =
     (case token of
        None \<Rightarrow> ZU_CODEC_NONE
      | Some t \<Rightarrow>
          (case find (\<lambda>d. token_clash (d_content_encoding d) (Some t)) zu_int_declared of
             Some d \<Rightarrow> d_codec d
           | None \<Rightarrow>
               (case find (\<lambda>v. token_clash (v_content_encoding v) (Some t)) (reg_table r) of
                  Some v \<Rightarrow> v_codec v
                | None \<Rightarrow> ZU_CODEC_NONE)))"

definition zu_codec_available :: "'s zu_registry \<Rightarrow> zu_codec \<Rightarrow> bool" where
  "zu_codec_available r c \<longleftrightarrow> zu_int_registry_lookup r c \<noteq> None"

definition zu_int_vtable_level_fast :: "'s zu_codec_vtable \<Rightarrow> int" where
  "zu_int_vtable_level_fast v =
     (if v_struct_size v < vtable_level_end \<or> (v_level_fast v = 0 \<and> v_level_best v = 0)
      then v_level_default v else v_level_fast v)"

definition zu_int_vtable_level_best :: "'s zu_codec_vtable \<Rightarrow> int" where
  "zu_int_vtable_level_best v =
     (if v_struct_size v < vtable_level_end \<or> (v_level_fast v = 0 \<and> v_level_best v = 0)
      then v_level_default v else v_level_best v)"

definition zu_codec_get_info ::
  "'s zu_registry \<Rightarrow> zu_codec \<Rightarrow> zu_codec_info option \<Rightarrow> zu_status \<times> zu_codec_info option" where
  "zu_codec_get_info r c out =
     (case out of
        None \<Rightarrow> (ZU_ERR_INVALID_ARGUMENT, None)
      | Some i \<Rightarrow>
          if i_struct_size i < info_required_size then (ZU_ERR_INVALID_ARGUMENT, Some i)
          else (case zu_int_registry_lookup r c of
                  None \<Rightarrow> (ZU_ERR_UNSUPPORTED, Some i)
                | Some v \<Rightarrow>
                    (let i1 = i\<lparr>i_codec := v_codec v, i_name := v_name v,
                                i_content_encoding := v_content_encoding v, i_source := v_source v,
                                i_level_min := v_level_min v, i_level_max := v_level_max v,
                                i_level_default := v_level_default v, i_flags := v_flags v,
                                i_detectable := (v_magic v \<noteq> None \<or> v_sniff v \<noteq> None)\<rparr>
                     in (ZU_OK, Some (if i_struct_size i \<ge> info_level_end
                                      then i1\<lparr>i_level_fast := zu_int_vtable_level_fast v,
                                              i_level_best := zu_int_vtable_level_best v\<rparr>
                                      else i1)))))"

text \<open>\<^verbatim>\<open>zu_codec_list\<close>: \<open>None\<close> for the output array is the count-only probe; the array itself is
  the list of what was written to its front.\<close>

definition zu_codec_list ::
  "'s zu_registry \<Rightarrow> nat option \<Rightarrow> zu_status \<times> nat \<times> zu_codec list" where
  "zu_codec_list r cap =
     (case cap of
        None \<Rightarrow> (ZU_OK, length (reg_table r), [])
      | Some k \<Rightarrow>
          if k < length (reg_table r)
          then (ZU_ERR_INVALID_ARGUMENT, length (reg_table r), [])
          else (ZU_OK, length (reg_table r), map v_codec (reg_table r)))"

subsection \<open>Detection\<close>

definition magic_matches :: "byte list \<Rightarrow> nat \<Rightarrow> 's zu_codec_vtable \<Rightarrow> bool" where
  "magic_matches buf n v =
     (case v_magic v of
        None \<Rightarrow> False
      | Some m \<Rightarrow>
          if v_magic_len v = 0 then False
          else (case zu_int_add (v_magic_offset v) (v_magic_len v) of
                  (ZU_OK, Some e) \<Rightarrow>
                     if n < e then False
                     else seg buf (v_magic_offset v) (v_magic_offset v + v_magic_len v) =
                          take (v_magic_len v) m
                | _ \<Rightarrow> False))"

definition sniff_step ::
  "byte list \<Rightarrow> nat \<Rightarrow> 's zu_codec_vtable \<Rightarrow> nat \<times> zu_codec \<Rightarrow> nat \<times> zu_codec" where
  "sniff_step buf n v acc =
     (if magic_matches buf n v
      then (if v_magic_len v > fst acc then (v_magic_len v, v_codec v) else acc)
      else acc)"

definition sniffs :: "byte list \<Rightarrow> nat \<Rightarrow> 's zu_codec_vtable \<Rightarrow> bool" where
  "sniffs buf n v = (case v_sniff v of None \<Rightarrow> False | Some f \<Rightarrow> f buf n)"

definition zu_sniff :: "'s zu_registry \<Rightarrow> byte list option \<Rightarrow> nat \<Rightarrow> zu_status \<times> zu_codec option" where
  "zu_sniff r buf n =
     (if buf = None \<and> n \<noteq> 0 then (ZU_ERR_INVALID_ARGUMENT, None)
      else
        (let bytes = (case buf of None \<Rightarrow> [] | Some m \<Rightarrow> m);
             best = fold (sniff_step bytes n) (reg_table r) (0, ZU_CODEC_NONE)
         in if snd best \<noteq> ZU_CODEC_NONE then (ZU_OK, Some (snd best))
            else (case find (sniffs bytes n) (reg_table r) of
                    Some v \<Rightarrow> (ZU_OK, Some (v_codec v))
                  | None \<Rightarrow> (ZU_ERR_UNSUPPORTED, Some ZU_CODEC_NONE))))"

subsection \<open>Case-insensitive tokens\<close>

definition c_norm :: "string \<Rightarrow> nat list" where
  "c_norm s = map (\<lambda>c. c_lower (of_char c)) (takeWhile (\<lambda>c. of_char c \<noteq> (0 :: nat)) s)"

lemma c_lower_0_iff [simp]: "c_lower n = 0 \<longleftrightarrow> n = 0"
  by (auto simp: c_lower_def)

lemma c_lower_0 [simp]: "c_lower 0 = 0"
  by simp

lemma c_lower_0_iff2 [simp]: "0 = c_lower n \<longleftrightarrow> n = 0"
  by (metis c_lower_0_iff)

lemma zu_int_ieq_norm: "zu_int_ieq a b \<longleftrightarrow> c_norm a = c_norm b"
proof (induction a b rule: zu_int_ieq.induct)
  case (1 a b)
  show ?case
  proof (cases "c_lower (c_at a) \<noteq> c_lower (c_at b) \<or> c_lower (c_at a) = 0")
    case True
    then show ?thesis
      by (subst zu_int_ieq.simps) (auto simp: Let_def c_at_def c_norm_def split: list.splits)
  next
    case False
    then have "\<not> c_lower (c_at a) \<noteq> c_lower (c_at b)" "c_lower (c_at a) \<noteq> 0"
      by blast+
    then have "zu_int_ieq (tl a) (tl b) \<longleftrightarrow> c_norm (tl a) = c_norm (tl b)"
      by (rule "1.IH" [OF refl refl])
    moreover from False have "c_at b \<noteq> 0" by (metis c_lower_0_iff)
    ultimately show ?thesis using False
      by (subst zu_int_ieq.simps) (auto simp: Let_def c_at_def c_norm_def split: list.splits)
  qed
qed

lemma zu_int_ieq_refl [simp]: "zu_int_ieq a a"
  by (simp add: zu_int_ieq_norm)

lemma token_clash_sym: "token_clash t u = token_clash u t"
  by (auto simp: token_clash_def zu_int_ieq_norm split: option.splits)

lemma token_clash_trans: "token_clash t u \<Longrightarrow> token_clash u w \<Longrightarrow> token_clash t w"
  by (auto simp: token_clash_def zu_int_ieq_norm split: option.splits)

subsection \<open>The registry invariant\<close>

text \<open>
  What every accepted vtable satisfies on its own, and what any two registered vtables satisfy
  together: no shared identity, name or content-coding token.
\<close>

definition vtable_ok :: "'s zu_codec_vtable \<Rightarrow> bool" where
  "vtable_ok v \<longleftrightarrow>
     v_name v \<noteq> None \<and> v_source v \<noteq> None \<and> v_struct_size v \<ge> ZU_VTABLE_REQUIRED_SIZE \<and>
     v_codec v \<noteq> ZU_CODEC_NONE \<and>
     (has_flag (v_flags v) ZU_CAN_ENCODE \<longrightarrow>
        v_encoder_new v \<noteq> None \<and> v_encoder_process v \<noteq> None \<and> v_encoder_free v \<noteq> None) \<and>
     (has_flag (v_flags v) ZU_CAN_DECODE \<longrightarrow>
        v_decoder_new v \<noteq> None \<and> v_decoder_process v \<noteq> None \<and> v_decoder_free v \<noteq> None) \<and>
     (case zu_int_declared_for (v_codec v) of
        Some d \<Rightarrow> v_name v = Some (d_name d)
      | None \<Rightarrow> v_codec v \<ge> ZU_CODEC_VENDOR_BASE) \<and>
     (\<forall>d \<in> set zu_int_declared.
        (Some (d_name d) = v_name v \<longrightarrow> d_codec d = v_codec v) \<and>
        (token_clash (d_content_encoding d) (v_content_encoding v) \<longrightarrow> d_codec d = v_codec v))"

definition vtables_apart :: "'s zu_codec_vtable \<Rightarrow> 's zu_codec_vtable \<Rightarrow> bool" where
  "vtables_apart w v \<longleftrightarrow> v_codec w \<noteq> v_codec v \<and> v_name w \<noteq> v_name v \<and>
     \<not> token_clash (v_content_encoding w) (v_content_encoding v)"

definition registry_wf :: "'s zu_registry \<Rightarrow> bool" where
  "registry_wf r \<longleftrightarrow> length (reg_table r) \<le> ZU_INT_REGISTRY_CAP \<and>
     (\<forall>v \<in> set (reg_table r). vtable_ok v) \<and> sorted_wrt vtables_apart (reg_table r) \<and>
     reg_gen r = length (reg_table r)"

lemma vtables_apart_sym: "vtables_apart w v \<Longrightarrow> vtables_apart v w"
  by (auto simp: vtables_apart_def token_clash_sym)

lemma registry_wf_apart:
  assumes "registry_wf r" "v \<in> set (reg_table r)" "w \<in> set (reg_table r)" "v \<noteq> w"
  shows "vtables_apart v w"
proof -
  from assms obtain i j where ij: "i < length (reg_table r)" "v = reg_table r ! i"
      "j < length (reg_table r)" "w = reg_table r ! j" "i \<noteq> j"
    unfolding in_set_conv_nth by blast
  have s: "sorted_wrt vtables_apart (reg_table r)"
    using assms(1) by (simp add: registry_wf_def)
  show ?thesis
  proof (cases "i < j")
    case True
    with s ij show ?thesis by (simp add: sorted_wrt_nth_less)
  next
    case False
    with ij have "j < i" by simp
    with s ij have "vtables_apart w v" by (simp add: sorted_wrt_nth_less)
    then show ?thesis by (rule vtables_apart_sym)
  qed
qed

lemma find_Some_mem: "find P xs = Some x \<Longrightarrow> x \<in> set xs \<and> P x"
  by (auto simp: find_Some_iff)

lemma registry_lookup_None:
  "c \<noteq> ZU_CODEC_NONE \<Longrightarrow>
    zu_int_registry_lookup r c = None \<longleftrightarrow> (\<forall>w \<in> set (reg_table r). v_codec w \<noteq> c)"
  by (auto simp: zu_int_registry_lookup_def find_None_iff)

lemma registry_lookup_Some:
  "zu_int_registry_lookup r c = Some v \<Longrightarrow> v \<in> set (reg_table r) \<and> v_codec v = c"
  by (auto simp: zu_int_registry_lookup_def dest: find_Some_mem split: if_splits)

text \<open>Registration decides exactly the invariant: the conjunction of the code's checks.\<close>

lemma zu_register_codec_rejects:
  "zu_register_codec (Some v) r = (ZU_ERR_INVALID_ARGUMENT, r) \<or>
   vtable_ok v \<and> (\<forall>w \<in> set (reg_table r). vtables_apart w v)"
proof -
  have "zu_register_codec (Some v) r = (ZU_ERR_INVALID_ARGUMENT, r) \<or>
      \<not> (v_name v = None \<or> v_source v = None) \<and>
      \<not> v_struct_size v < ZU_VTABLE_REQUIRED_SIZE \<and>
      v_codec v \<noteq> ZU_CODEC_NONE \<and>
      \<not> (has_flag (v_flags v) ZU_CAN_ENCODE \<and>
         (v_encoder_new v = None \<or> v_encoder_process v = None \<or> v_encoder_free v = None)) \<and>
      \<not> (has_flag (v_flags v) ZU_CAN_DECODE \<and>
         (v_decoder_new v = None \<or> v_decoder_process v = None \<or> v_decoder_free v = None)) \<and>
      \<not> zu_int_registry_lookup r (v_codec v) \<noteq> None \<and>
      \<not> (case zu_int_declared_for (v_codec v) of
           Some d \<Rightarrow> v_name v \<noteq> Some (d_name d) | None \<Rightarrow> v_codec v < ZU_CODEC_VENDOR_BASE) \<and>
      \<not> (\<exists>d \<in> set zu_int_declared.
           (Some (d_name d) = v_name v \<and> d_codec d \<noteq> v_codec v) \<or>
           (token_clash (d_content_encoding d) (v_content_encoding v) \<and> d_codec d \<noteq> v_codec v)) \<and>
      \<not> (\<exists>w \<in> set (reg_table r).
           v_name w = v_name v \<or> token_clash (v_content_encoding w) (v_content_encoding v)) \<and> True"
    unfolding zu_register_codec_def option.case by (intro guard_fails disjI2 TrueI)
  then show ?thesis
    by (auto simp: vtable_ok_def vtables_apart_def registry_lookup_None split: option.splits)
qed

lemma zu_register_codec_accepts:
  assumes "vtable_ok v" "\<forall>w \<in> set (reg_table r). vtables_apart w v"
  shows "zu_register_codec (Some v) r =
    (if length (reg_table r) < ZU_INT_REGISTRY_CAP
     then (ZU_OK, r\<lparr>reg_table := reg_table r @ [v], reg_gen := u64_add (reg_gen r) 1\<rparr>)
     else (ZU_ERR_MEMORY, r))"
proof -
  have "zu_int_registry_lookup r (v_codec v) = None"
    using assms by (simp add: registry_lookup_None vtables_apart_def vtable_ok_def)
  moreover have "\<not> (case zu_int_declared_for (v_codec v) of
      Some d \<Rightarrow> v_name v \<noteq> Some (d_name d) | None \<Rightarrow> v_codec v < ZU_CODEC_VENDOR_BASE)"
    using assms(1) by (auto simp: vtable_ok_def split: option.splits)
  moreover have "\<not> (\<exists>d \<in> set zu_int_declared.
      (Some (d_name d) = v_name v \<and> d_codec d \<noteq> v_codec v) \<or>
      (token_clash (d_content_encoding d) (v_content_encoding v) \<and> d_codec d \<noteq> v_codec v))"
    using assms(1) unfolding vtable_ok_def by blast
  moreover have "\<not> (\<exists>w \<in> set (reg_table r).
      v_name w = v_name v \<or> token_clash (v_content_encoding w) (v_content_encoding v))"
    using assms(2) unfolding vtables_apart_def by blast
  ultimately show ?thesis
    using assms(1) unfolding zu_register_codec_def vtable_ok_def
    by (simp only: option.case not_less if_False simp_thms) auto
qed

text \<open>Registration decides exactly the invariant: the conjunction of the code's checks.\<close>

lemma zu_register_codec_eq:
  "zu_register_codec (Some v) r =
     (if vtable_ok v \<and> (\<forall>w \<in> set (reg_table r). vtables_apart w v)
      then if length (reg_table r) < ZU_INT_REGISTRY_CAP
           then (ZU_OK, r\<lparr>reg_table := reg_table r @ [v], reg_gen := u64_add (reg_gen r) 1\<rparr>)
           else (ZU_ERR_MEMORY, r)
      else (ZU_ERR_INVALID_ARGUMENT, r))"
  using zu_register_codec_rejects [of v r] zu_register_codec_accepts [of v r] by presburger

lemma zu_register_codec_None: "zu_register_codec None r = (ZU_ERR_INVALID_ARGUMENT, r)"
  by (simp add: zu_register_codec_def)

lemma registry_wf_init: "registry_wf zu_registry_init"
  by (simp add: registry_wf_def zu_registry_init_def)

lemma registry_wf_register:
  assumes "registry_wf r" "zu_register_codec vt r = (st, r')"
  shows "registry_wf r'"
proof (cases vt)
  case None
  with assms show ?thesis by (simp add: zu_register_codec_None)
next
  case (Some v)
  from assms(1) have "u64_add (reg_gen r) 1 = length (reg_table r) + 1"
    by (simp add: registry_wf_def ZU_INT_REGISTRY_CAP_def UINT64_MAX_def)
  with assms show ?thesis
    by (auto simp: Some zu_register_codec_eq registry_wf_def sorted_wrt_append split: if_splits)
qed

lemma register_appends:
  "zu_register_codec vt r = (st, r') \<Longrightarrow> \<exists>ws. reg_table r' = reg_table r @ ws"
  by (cases vt) (auto simp: zu_register_codec_None zu_register_codec_eq split: if_splits)

subsection \<open>The registry as its clients see it\<close>

text \<open>
  The contract the stream driver and the discovery functions rely on: a lookup answers with the
  asked identity and an acceptable vtable, registrations preserve the invariant, and a lookup
  that succeeded keeps its answer under every later registration.
\<close>

locale codec_directory =
  fixes inv :: "'r \<Rightarrow> bool"
    and lookup :: "'r \<Rightarrow> zu_codec \<Rightarrow> 's zu_codec_vtable option"
    and register :: "'s zu_codec_vtable option \<Rightarrow> 'r \<Rightarrow> zu_status \<times> 'r"
  assumes lookup_sound: "inv r \<Longrightarrow> lookup r c = Some v \<Longrightarrow> v_codec v = c \<and> vtable_ok v"
    and register_inv: "inv r \<Longrightarrow> inv (snd (register vt r))"
    and register_stable: "inv r \<Longrightarrow> lookup r c = Some v \<Longrightarrow> lookup (snd (register vt r)) c = Some v"
    and register_found: "inv r \<Longrightarrow> fst (register (Some v) r) = ZU_OK \<Longrightarrow>
          lookup (snd (register (Some v) r)) (v_codec v) = Some v"
begin

lemma lookup_callable:
  assumes "inv r" "lookup r c = Some v"
  shows "has_flag (v_flags v) ZU_CAN_ENCODE \<Longrightarrow>
           v_encoder_new v \<noteq> None \<and> v_encoder_process v \<noteq> None \<and> v_encoder_free v \<noteq> None"
    and "has_flag (v_flags v) ZU_CAN_DECODE \<Longrightarrow>
           v_decoder_new v \<noteq> None \<and> v_decoder_process v \<noteq> None \<and> v_decoder_free v \<noteq> None"
  using lookup_sound [OF assms] by (auto simp: vtable_ok_def)

lemma registrations_inv: "inv r \<Longrightarrow> inv (fold (\<lambda>vt s. snd (register vt s)) vts r)"
  by (induction vts arbitrary: r) (simp_all add: register_inv)

lemma registrations_stable:
  "inv r \<Longrightarrow> lookup r c = Some v \<Longrightarrow> lookup (fold (\<lambda>vt s. snd (register vt s)) vts r) c = Some v"
  by (induction vts arbitrary: r) (simp_all add: register_inv register_stable)

lemma registered_for_good:
  assumes "inv r" "fst (register (Some v) r) = ZU_OK"
  shows "lookup (fold (\<lambda>vt s. snd (register vt s)) vts (snd (register (Some v) r))) (v_codec v) = Some v"
  using assms by (simp add: registrations_stable register_inv register_found)

end

lemma find_append_Some: "find P xs = Some x \<Longrightarrow> find P (xs @ ys) = Some x"
  by (induction xs) (auto split: if_splits)

lemma find_append_None: "find P xs = None \<Longrightarrow> find P (xs @ ys) = find P ys"
  by (induction xs) (auto split: if_splits)

interpretation dir: codec_directory registry_wf zu_int_registry_lookup zu_register_codec
proof unfold_locales
  fix r :: "'s zu_registry" and c v and vt :: "'s zu_codec_vtable option"
  assume wf: "registry_wf r"
  show "registry_wf (snd (zu_register_codec vt r))"
    using registry_wf_register [OF wf, of vt] by (cases "zu_register_codec vt r") simp
  show "v_codec v = c \<and> vtable_ok v" if "zu_int_registry_lookup r c = Some v"
    using registry_lookup_Some [OF that] wf by (simp add: registry_wf_def)
  show "zu_int_registry_lookup (snd (zu_register_codec vt r)) c = Some v"
    if "zu_int_registry_lookup r c = Some v"
  proof -
    obtain st r' where reg: "zu_register_codec vt r = (st, r')" by fastforce
    from register_appends [OF reg] obtain ws where "reg_table r' = reg_table r @ ws" by blast
    with that show ?thesis
      by (auto simp: reg zu_int_registry_lookup_def intro: find_append_Some split: if_splits)
  qed
next
  fix r :: "'s zu_registry" and v
  assume wf: "registry_wf r" and ok: "fst (zu_register_codec (Some v) r) = ZU_OK"
  from ok have v: "vtable_ok v" "\<forall>w \<in> set (reg_table r). vtables_apart w v"
      "length (reg_table r) < ZU_INT_REGISTRY_CAP"
    by (auto simp: zu_register_codec_eq split: if_splits)
  then have "find (\<lambda>w. v_codec w = v_codec v) (reg_table r) = None"
    by (auto simp: find_None_iff vtables_apart_def)
  with v show "zu_int_registry_lookup (snd (zu_register_codec (Some v) r)) (v_codec v) = Some v"
    by (simp add: zu_register_codec_eq zu_int_registry_lookup_def find_append_None vtable_ok_def)
qed

subsection \<open>Names and tokens resolve to one codec\<close>

lemma registry_lookup_mem:
  assumes wf: "registry_wf r" and v: "v \<in> set (reg_table r)"
  shows "zu_int_registry_lookup r (v_codec v) = Some v"
proof -
  have nz: "v_codec v \<noteq> ZU_CODEC_NONE"
    using wf v by (auto simp: registry_wf_def vtable_ok_def)
  then obtain w where w: "zu_int_registry_lookup r (v_codec v) = Some w"
    using v registry_lookup_None [OF nz, of r] by (cases "zu_int_registry_lookup r (v_codec v)") auto
  then have "w \<in> set (reg_table r)" "v_codec w = v_codec v"
    by (auto dest: registry_lookup_Some)
  with registry_wf_apart [OF wf, of w v] v have "w = v"
    by (auto simp: vtables_apart_def)
  with w show ?thesis by simp
qed

lemma declared_for_mem: "zu_int_declared_for c = Some d \<Longrightarrow> d \<in> set zu_int_declared \<and> d_codec d = c"
  by (auto simp: zu_int_declared_for_def dest: find_Some_mem)

lemma find_unique_key:
  assumes "find P xs = Some y" and "\<And>z. z \<in> set xs \<Longrightarrow> P z \<Longrightarrow> f z = k"
  shows "f y = k"
  using assms(2) find_Some_mem [OF assms(1)] by simp

lemma registered_name_resolves:
  assumes wf: "registry_wf r" and v: "v \<in> set (reg_table r)"
  shows "zu_codec_lookup r (v_name v) = v_codec v"
proof -
  have ok: "vtable_ok v" using wf v by (simp add: registry_wf_def)
  then obtain n where n: "v_name v = Some n" by (auto simp: vtable_ok_def)
  show ?thesis
  proof (cases "find (\<lambda>d. d_name d = n) zu_int_declared")
    case (Some d)
    moreover have "\<And>d. d \<in> set zu_int_declared \<Longrightarrow> d_name d = n \<Longrightarrow> d_codec d = v_codec v"
      using ok n by (auto simp: vtable_ok_def)
    ultimately have "d_codec d = v_codec v" by (rule find_unique_key)
    with Some n show ?thesis by (simp add: zu_codec_lookup_def)
  next
    case None
    have "find (\<lambda>v. v_name v = Some n) (reg_table r) \<noteq> None"
      using v n by (auto simp: find_None_iff)
    then obtain w where w: "find (\<lambda>v. v_name v = Some n) (reg_table r) = Some w" by blast
    then have "w \<in> set (reg_table r)" "v_name w = v_name v"
      using n by (auto dest: find_Some_mem)
    with registry_wf_apart [OF wf, of w v] v have "w = v" by (auto simp: vtables_apart_def)
    with None w n show ?thesis by (simp add: zu_codec_lookup_def)
  qed
qed

lemma registered_token_resolves:
  assumes wf: "registry_wf r" and v: "v \<in> set (reg_table r)"
    and t: "token_clash (v_content_encoding v) (Some t)"
  shows "zu_codec_from_content_encoding r (Some t) = v_codec v"
proof -
  have ok: "vtable_ok v" using wf v by (simp add: registry_wf_def)
  show ?thesis
  proof (cases "find (\<lambda>d. token_clash (d_content_encoding d) (Some t)) zu_int_declared")
    case (Some d)
    moreover have "\<And>d. d \<in> set zu_int_declared \<Longrightarrow> token_clash (d_content_encoding d) (Some t) \<Longrightarrow>
        d_codec d = v_codec v"
      using ok token_clash_trans [OF _ token_clash_sym [THEN iffD1, OF t]]
      unfolding vtable_ok_def by blast
    ultimately have "d_codec d = v_codec v" by (rule find_unique_key)
    with Some show ?thesis by (simp add: zu_codec_from_content_encoding_def)
  next
    case None
    have "find (\<lambda>v. token_clash (v_content_encoding v) (Some t)) (reg_table r) \<noteq> None"
      using v t by (auto simp: find_None_iff)
    then obtain w where w: "find (\<lambda>v. token_clash (v_content_encoding v) (Some t)) (reg_table r) = Some w"
      by blast
    then have "w \<in> set (reg_table r)" "token_clash (v_content_encoding w) (Some t)"
      by (auto dest: find_Some_mem)
    moreover from this(2) have "token_clash (v_content_encoding w) (v_content_encoding v)"
      using token_clash_trans token_clash_sym [THEN iffD1, OF t] by blast
    ultimately have "w = v" using registry_wf_apart [OF wf, of w v] v by (auto simp: vtables_apart_def)
    with None w show ?thesis by (simp add: zu_codec_from_content_encoding_def)
  qed
qed

subsection \<open>Detection\<close>

lemma magic_matches_len: "magic_matches buf n v \<Longrightarrow> 0 < v_magic_len v"
  by (auto simp: magic_matches_def split: option.splits if_splits)

text \<open>The magic loop keeps the first of the longest matches seen so far.\<close>

lemma sniff_fold:
  assumes "fold (sniff_step buf n) vs (k, c) = (k', c')"
  shows "k \<le> k' \<and> (\<forall>w \<in> set vs. magic_matches buf n w \<longrightarrow> v_magic_len w \<le> k') \<and>
    ((k', c') = (k, c) \<or>
     (\<exists>v \<in> set vs. magic_matches buf n v \<and> v_magic_len v = k' \<and> v_codec v = c' \<and> k < k'))"
  using assms
proof (induction vs arbitrary: k c)
  case Nil
  then show ?case by simp
next
  case (Cons v vs)
  obtain k1 c1 where s: "sniff_step buf n v (k, c) = (k1, c1)" by fastforce
  with Cons.prems have "fold (sniff_step buf n) vs (k1, c1) = (k', c')" by simp
  note IH = Cons.IH [OF this]
  show ?case
  proof (cases "magic_matches buf n v \<and> k < v_magic_len v")
    case True
    with s have "k1 = v_magic_len v" "c1 = v_codec v" by (simp_all add: sniff_step_def)
    with IH True show ?thesis by auto
  next
    case False
    with s have "k1 = k" "c1 = c" by (auto simp: sniff_step_def split: if_splits)
    with IH False show ?thesis by auto
  qed
qed

lemma sniff_fold_found:
  assumes wf: "registry_wf r"
    and f: "fold (sniff_step buf n) (reg_table r) (0, ZU_CODEC_NONE) = (k, c)"
  shows "c \<noteq> ZU_CODEC_NONE \<Longrightarrow> \<exists>v \<in> set (reg_table r). v_codec v = c \<and> magic_matches buf n v \<and>
      (\<forall>w \<in> set (reg_table r). magic_matches buf n w \<longrightarrow> v_magic_len w \<le> v_magic_len v)"
    and "c = ZU_CODEC_NONE \<longleftrightarrow> (\<forall>w \<in> set (reg_table r). \<not> magic_matches buf n w)"
proof -
  note S = sniff_fold [OF f]
  show "c \<noteq> ZU_CODEC_NONE \<Longrightarrow> \<exists>v \<in> set (reg_table r). v_codec v = c \<and> magic_matches buf n v \<and>
      (\<forall>w \<in> set (reg_table r). magic_matches buf n w \<longrightarrow> v_magic_len w \<le> v_magic_len v)"
    using S by auto
  have "\<And>v. v \<in> set (reg_table r) \<Longrightarrow> v_codec v \<noteq> ZU_CODEC_NONE"
    using wf by (auto simp: registry_wf_def vtable_ok_def)
  with S show "c = ZU_CODEC_NONE \<longleftrightarrow> (\<forall>w \<in> set (reg_table r). \<not> magic_matches buf n w)"
    using magic_matches_len by fastforce
qed

text \<open>What detection answers, on every branch, over a well-formed registry.\<close>

lemma zu_sniff_cases:
  assumes wf: "registry_wf r"
  shows "if \<exists>w \<in> set (reg_table r). magic_matches buf n w
     then \<exists>v \<in> set (reg_table r). zu_sniff r (Some buf) n = (ZU_OK, Some (v_codec v)) \<and>
        magic_matches buf n v \<and>
        (\<forall>w \<in> set (reg_table r). magic_matches buf n w \<longrightarrow> v_magic_len w \<le> v_magic_len v)
     else (case find (sniffs buf n) (reg_table r) of
             Some v \<Rightarrow> zu_sniff r (Some buf) n = (ZU_OK, Some (v_codec v))
           | None \<Rightarrow> zu_sniff r (Some buf) n = (ZU_ERR_UNSUPPORTED, Some ZU_CODEC_NONE))"
proof -
  obtain k c where f: "fold (sniff_step buf n) (reg_table r) (0, ZU_CODEC_NONE) = (k, c)"
    by fastforce
  note F = sniff_fold_found [OF wf f]
  show ?thesis
  proof (cases "c = ZU_CODEC_NONE")
    case True
    with F(2) have "\<not> (\<exists>w \<in> set (reg_table r). magic_matches buf n w)" by blast
    with True f show ?thesis
      by (auto simp: zu_sniff_def split: option.splits)
  next
    case False
    with F(2) have ex: "\<exists>w \<in> set (reg_table r). magic_matches buf n w" by blast
    from False f have "zu_sniff r (Some buf) n = (ZU_OK, Some c)" by (simp add: zu_sniff_def)
    with ex F(1) [OF False] show ?thesis by auto
  qed
qed

end
