(* ===== verification/Zu_Stream.thy ===== *)
theory Zu_Stream
  imports Zu_Registry
begin

text \<open>
  The core stream driver (\<^verbatim>\<open>src/zu_stream.c\<close>): validation, the encoder and decoder handles with
  their life cycle, the enforcement of \<^verbatim>\<open>max_output\<close>, \<^verbatim>\<open>expected_size\<close> and \<^verbatim>\<open>max_ratio\<close> around
  an arbitrary codec, and the one-shot entry points.

  A handle or buffer that C passes by pointer is a value here, so the guards against a
  \<^verbatim>\<open>NULL\<close> handle, buffer or out-parameter have no counterpart; the guards on what the objects
  hold are all present. Heap exhaustion is a parameter \<open>mem\<close>: \<open>mem what n\<close> says whether the
  allocation of \<open>n\<close> units named \<open>what\<close> succeeds.
\<close>

type_synonym alloc = "string \<Rightarrow> nat \<Rightarrow> bool"

record 's zu_encoder =
  e_vtable :: "'s zu_codec_vtable"
  e_state :: "'s option"
  e_opts :: zu_encoder_opts
  e_finished :: bool

record 's zu_decoder =
  dec_vtable :: "'s zu_codec_vtable"
  dec_state :: "'s option"
  dec_opts :: zu_decoder_opts
  dec_finished :: bool
  total_in :: nat
  total_out :: nat

subsection \<open>Shared validation\<close>

definition zu_int_check_buffer :: "zu_buffer \<Rightarrow> zu_status" where
  "zu_int_check_buffer b =
     (if src_pos b > src_size b \<or> dst_pos b > dst_size b then ZU_ERR_INVALID_ARGUMENT
      else if src b = None \<and> src_size b \<noteq> 0 then ZU_ERR_INVALID_ARGUMENT
      else if dst b = None \<and> dst_size b \<noteq> 0 then ZU_ERR_INVALID_ARGUMENT
      else ZU_OK)"

definition zu_int_check_flush :: "zu_flush \<Rightarrow> zu_status" where
  "zu_int_check_flush f =
     (if f \<noteq> ZU_RUN \<and> f \<noteq> ZU_FLUSH \<and> f \<noteq> ZU_FINISH then ZU_ERR_INVALID_ARGUMENT else ZU_OK)"

definition zu_int_resolve ::
  "'s zu_registry \<Rightarrow> zu_codec \<Rightarrow> u32 \<Rightarrow> zu_status \<times> 's zu_codec_vtable option" where
  "zu_int_resolve r c direction =
     (case zu_int_registry_lookup r c of
        None \<Rightarrow> (ZU_ERR_UNSUPPORTED, None)
      | Some v \<Rightarrow> if \<not> has_flag (v_flags v) direction then (ZU_ERR_UNSUPPORTED, None)
                  else (ZU_OK, Some v))"

definition zu_int_check_level :: "'s zu_codec_vtable \<Rightarrow> int \<Rightarrow> zu_status" where
  "zu_int_check_level v level =
     (if level = ZU_LEVEL_DEFAULT then ZU_OK
      else if v_level_min v = 0 \<and> v_level_max v = 0 \<and> v_level_default v = 0
           then (if level = 0 then ZU_OK else ZU_ERR_INVALID_ARGUMENT)
      else if level < v_level_min v \<or> level > v_level_max v then ZU_ERR_INVALID_ARGUMENT
      else ZU_OK)"

subsection \<open>Option structs of any age\<close>

text \<open>
  \<^verbatim>\<open>zu_int_copy_opts\<close> works on the bytes of the caller's struct: zero the destination, copy the
  bytes both sides have, stamp the destination's own size into its first four bytes.
\<close>

definition zu_int_copy_opts :: "nat \<Rightarrow> byte list \<Rightarrow> nat \<Rightarrow> byte list" where
  "zu_int_copy_opts dsize s ssize =
     (let n = (if ssize < dsize then ssize else dsize);
          d = write_at (replicate dsize 0) 0 (take n s)
      in write_at d 0 (le_bytes 4 dsize))"

text \<open>The struct as bytes, fields in declaration order, little-endian; and back.\<close>

definition u32_of_int :: "int \<Rightarrow> nat" where
  "u32_of_int i = nat (i mod 2 ^ 32)"

definition int_of_u32 :: "nat \<Rightarrow> int" where
  "int_of_u32 n = (if n < 2 ^ 31 then int n else int n - 2 ^ 32)"

definition encoder_opts_bytes :: "zu_encoder_opts \<Rightarrow> byte list" where
  "encoder_opts_bytes os =
     le_bytes 4 (eo_struct_size os) @ le_bytes 4 (eo_codec os) @
     le_bytes 4 (u32_of_int (eo_level os)) @ le_bytes 4 (unat (eo_flags os))"

definition encoder_opts_of :: "byte list \<Rightarrow> zu_encoder_opts" where
  "encoder_opts_of m =
     \<lparr>eo_struct_size = of_le_bytes (seg m 0 4), eo_codec = of_le_bytes (seg m 4 8),
      eo_level = int_of_u32 (of_le_bytes (seg m 8 12)),
      eo_flags = word_of_nat (of_le_bytes (seg m 12 16))\<rparr>"

definition decoder_opts_bytes :: "zu_decoder_opts \<Rightarrow> byte list" where
  "decoder_opts_bytes os =
     le_bytes 4 (do_struct_size os) @ le_bytes 4 (do_codec os) @ le_bytes 8 (do_max_output os) @
     le_bytes 4 (do_max_ratio os) @ le_bytes 4 (unat (do_flags os)) @ le_bytes 8 (do_expected_size os)"

definition decoder_opts_of :: "byte list \<Rightarrow> zu_decoder_opts" where
  "decoder_opts_of m =
     \<lparr>do_struct_size = of_le_bytes (seg m 0 4), do_codec = of_le_bytes (seg m 4 8),
      do_max_output = of_le_bytes (seg m 8 16), do_max_ratio = of_le_bytes (seg m 16 20),
      do_flags = word_of_nat (of_le_bytes (seg m 20 24)),
      do_expected_size = of_le_bytes (seg m 24 32)\<rparr>"

definition copy_encoder_opts :: "zu_encoder_opts \<Rightarrow> zu_encoder_opts" where
  "copy_encoder_opts os =
     encoder_opts_of (zu_int_copy_opts sizeof_zu_encoder_opts (encoder_opts_bytes os) (eo_struct_size os))"

definition copy_decoder_opts :: "zu_decoder_opts \<Rightarrow> zu_decoder_opts" where
  "copy_decoder_opts os =
     decoder_opts_of (zu_int_copy_opts sizeof_zu_decoder_opts (decoder_opts_bytes os) (do_struct_size os))"

subsection \<open>Encoder\<close>

definition zu_encoder_new ::
  "alloc \<Rightarrow> 's zu_registry \<Rightarrow> zu_encoder_opts \<Rightarrow> zu_status \<times> 's zu_encoder option" where
  "zu_encoder_new mem r opts =
     (if eo_struct_size opts < ZU_ENCODER_OPTS_REQUIRED_SIZE then (ZU_ERR_INVALID_ARGUMENT, None)
      else case zu_int_resolve r (eo_codec opts) ZU_CAN_ENCODE of
          (st, None) \<Rightarrow> (st, None)
        | (st, Some v) \<Rightarrow>
            (let lst = zu_int_check_level v (eo_level opts) in
             if lst \<noteq> ZU_OK then (lst, None)
             else if \<not> mem ''zu_encoder'' 1 then (ZU_ERR_MEMORY, None)
             else
               (let o' = copy_encoder_opts opts in
                case the (v_encoder_new v) o' of
                  (nst, s) \<Rightarrow>
                    if nst \<noteq> ZU_OK then (nst, None)
                    else (ZU_OK, Some \<lparr>e_vtable = v, e_state = s, e_opts = o', e_finished = False\<rparr>))))"

definition zu_encoder_process ::
  "'s zu_encoder \<Rightarrow> zu_buffer \<Rightarrow> zu_flush \<Rightarrow> (zu_status \<times> 's zu_encoder \<times> zu_buffer) option" where
  "zu_encoder_process e b flush =
     (if zu_int_check_buffer b \<noteq> ZU_OK then Some (zu_int_check_buffer b, e, b)
      else if zu_int_check_flush flush \<noteq> ZU_OK then Some (zu_int_check_flush flush, e, b)
      else if e_finished e
           then Some (if src_pos b < src_size b then ZU_ERR_INVALID_ARGUMENT else ZU_STREAM_END, e, b)
      else if flush = ZU_FLUSH \<and> \<not> has_flag (v_flags (e_vtable e)) ZU_CAN_FLUSH
           then Some (ZU_ERR_UNSUPPORTED, e, b)
      else case the (v_encoder_process (e_vtable e)) (e_state e) b flush of
          None \<Rightarrow> None
        | Some (st, s', b') \<Rightarrow>
            Some (st, e\<lparr>e_state := s', e_finished := (st = ZU_STREAM_END \<or> e_finished e)\<rparr>, b'))"

text \<open>\<^verbatim>\<open>zu_encoder_reset\<close>; \<open>None\<close> for \<^verbatim>\<open>opts == NULL\<close>, which reuses the stored options.\<close>

definition zu_encoder_reset ::
  "'s zu_encoder \<Rightarrow> zu_encoder_opts option \<Rightarrow> zu_status \<times> 's zu_encoder" where
  "zu_encoder_reset e opts =
     (let given = (case opts of Some o' \<Rightarrow> o' | None \<Rightarrow> e_opts e) in
      if eo_struct_size given < ZU_ENCODER_OPTS_REQUIRED_SIZE then (ZU_ERR_INVALID_ARGUMENT, e)
      else
        (let use = copy_encoder_opts given in
         if eo_codec use \<noteq> eo_codec (e_opts e) then (ZU_ERR_INVALID_ARGUMENT, e)
         else if zu_int_check_level (e_vtable e) (eo_level use) \<noteq> ZU_OK
              then (zu_int_check_level (e_vtable e) (eo_level use), e)
         else case v_encoder_reset (e_vtable e) of
             None \<Rightarrow> (ZU_ERR_UNSUPPORTED, e)
           | Some f \<Rightarrow>
               (case f (e_state e) use of
                  (st, s') \<Rightarrow>
                    if st \<noteq> ZU_OK then (st, e\<lparr>e_state := s'\<rparr>)
                    else (ZU_OK, e\<lparr>e_state := s', e_opts := use, e_finished := False\<rparr>))))"

text \<open>The release calls of \<^verbatim>\<open>zu_encoder_free\<close>, in order; \<open>None\<close> is \<^verbatim>\<open>free(NULL)\<close>.\<close>

definition zu_encoder_free :: "'s zu_encoder option \<Rightarrow> string list" where
  "zu_encoder_free e =
     (case e of
        None \<Rightarrow> []
      | Some h \<Rightarrow>
          (case v_encoder_free (e_vtable h) of None \<Rightarrow> [] | Some f \<Rightarrow> f (e_state h)) @ [''free''])"

subsection \<open>Decoder\<close>

definition zu_int_check_dec_opts :: "zu_decoder_opts \<Rightarrow> zu_status" where
  "zu_int_check_dec_opts os =
     (if do_struct_size os < ZU_DECODER_OPTS_REQUIRED_SIZE then ZU_ERR_INVALID_ARGUMENT
      else if has_flag (do_flags os) ZU_DEC_EXPECTED_SIZE \<and>
              do_struct_size os < offsetof_expected_size + 8 then ZU_ERR_INVALID_ARGUMENT
      else ZU_OK)"

definition zu_decoder_new ::
  "alloc \<Rightarrow> 's zu_registry \<Rightarrow> zu_decoder_opts \<Rightarrow> zu_status \<times> 's zu_decoder option" where
  "zu_decoder_new mem r opts =
     (if zu_int_check_dec_opts opts \<noteq> ZU_OK then (ZU_ERR_INVALID_ARGUMENT, None)
      else case zu_int_resolve r (do_codec opts) ZU_CAN_DECODE of
          (st, None) \<Rightarrow> (st, None)
        | (st, Some v) \<Rightarrow>
            if \<not> mem ''zu_decoder'' 1 then (ZU_ERR_MEMORY, None)
            else
              (let o' = copy_decoder_opts opts in
               case the (v_decoder_new v) o' of
                 (nst, s) \<Rightarrow>
                   if nst \<noteq> ZU_OK then (nst, None)
                   else (ZU_OK, Some \<lparr>dec_vtable = v, dec_state = s, dec_opts = o',
                                      dec_finished = False, total_in = 0, total_out = 0\<rparr>)))"

text \<open>
  The output ceiling and the status for crossing it: \<^verbatim>\<open>max_output\<close>, or the expected size when
  that is at least as tight.
\<close>

definition decoder_ceiling :: "zu_decoder_opts \<Rightarrow> (nat \<times> zu_status) option" where
  "decoder_ceiling os =
     (let c = (if do_max_output os \<noteq> 0 then Some (do_max_output os, ZU_ERR_OUTPUT_LIMIT) else None)
      in if has_flag (do_flags os) ZU_DEC_EXPECTED_SIZE \<and>
            (case c of None \<Rightarrow> True | Some (m, _) \<Rightarrow> do_expected_size os \<le> m)
         then Some (do_expected_size os, ZU_ERR_INVALID_DATA) else c)"

text \<open>The window the codec is given: whether it is capped, and the output allowance.\<close>

definition decoder_window :: "'s zu_decoder \<Rightarrow> zu_buffer \<Rightarrow> bool \<times> nat" where
  "decoder_window d b =
     (let allowance = u64_sub (dst_size b) (dst_pos b)
      in case decoder_ceiling (dec_opts d) of
           None \<Rightarrow> (False, allowance)
         | Some (ceiling, _) \<Rightarrow>
             (let remaining = (if total_out d < ceiling then ceiling - total_out d else 0)
              in if remaining < allowance then (True, remaining) else (False, allowance)))"

text \<open>The ratio policy, with the guard that keeps the product from wrapping.\<close>

definition ratio_exceeded :: "zu_decoder_opts \<Rightarrow> nat \<Rightarrow> nat \<Rightarrow> bool" where
  "ratio_exceeded os tin tout =
     (do_max_ratio os \<noteq> 0 \<and> tout > 0 \<and>
      (let allowed = (if tin = 0 then 0
                      else if tin > UINT64_MAX div do_max_ratio os then UINT64_MAX
                      else u64_mul tin (do_max_ratio os))
       in tout > allowed))"

text \<open>The checks after the codec returned, on the updated counters.\<close>

definition decoder_verdict ::
  "zu_decoder_opts \<Rightarrow> nat \<Rightarrow> nat \<Rightarrow> zu_buffer \<Rightarrow> bool \<Rightarrow> nat \<Rightarrow> nat \<Rightarrow> zu_status \<Rightarrow> zu_status" where
  "decoder_verdict os tin tout b capped allowance produced st =
     (let has_expected = has_flag (do_flags os) ZU_DEC_EXPECTED_SIZE;
          over_status = (case decoder_ceiling os of Some (_, x) \<Rightarrow> x | None \<Rightarrow> ZU_ERR_OUTPUT_LIMIT)
      in if st = ZU_STREAM_END \<and> has_expected \<and> tout \<noteq> do_expected_size os then ZU_ERR_INVALID_DATA
         else if st = ZU_STREAM_END \<and> src_pos b < src_size b \<and>
                 has_flag (do_flags os) ZU_DEC_REJECT_TRAILING then ZU_ERR_TRAILING
         else if capped \<and> st = ZU_NEED_OUTPUT \<and> produced = allowance then over_status
         else if capped \<and> allowance = 0 \<and> st \<noteq> ZU_STREAM_END \<and> src_pos b < src_size b then over_status
         else if do_max_output os \<noteq> 0 \<and> tout > do_max_output os then ZU_ERR_OUTPUT_LIMIT
         else if has_expected \<and> tout > do_expected_size os then ZU_ERR_INVALID_DATA
         else if st \<noteq> ZU_ERR_OUTPUT_LIMIT \<and> ratio_exceeded os tin tout then ZU_ERR_RATIO_LIMIT
         else st)"

definition zu_decoder_process ::
  "'s zu_decoder \<Rightarrow> zu_buffer \<Rightarrow> zu_flush \<Rightarrow> (zu_status \<times> 's zu_decoder \<times> zu_buffer) option" where
  "zu_decoder_process d b flush =
     (if zu_int_check_buffer b \<noteq> ZU_OK then Some (zu_int_check_buffer b, d, b)
      else if zu_int_check_flush flush \<noteq> ZU_OK then Some (zu_int_check_flush flush, d, b)
      else if dec_finished d
           then Some (if src_pos b < src_size b \<and> has_flag (do_flags (dec_opts d)) ZU_DEC_REJECT_TRAILING
                      then ZU_ERR_TRAILING else ZU_STREAM_END, d, b)
      else if flush = ZU_FLUSH \<and> \<not> has_flag (v_flags (dec_vtable d)) ZU_CAN_FLUSH
           then Some (ZU_ERR_UNSUPPORTED, d, b)
      else
        (let (capped, allowance) = decoder_window d b;
             b0 = (if capped then b\<lparr>dst_size := dst_pos b + allowance\<rparr> else b)
         in case the (v_decoder_process (dec_vtable d)) (dec_state d) b0 flush of
              None \<Rightarrow> None
            | Some (st, s', b1) \<Rightarrow>
                (let used_in = u64_sub (src_pos b1) (src_pos b);
                     produced = u64_sub (dst_pos b1) (dst_pos b);
                     b2 = (if capped then b1\<lparr>dst_size := dst_size b\<rparr> else b1);
                     tin = u64_add (total_in d) used_in;
                     tout = u64_add (total_out d) produced
                 in Some (decoder_verdict (dec_opts d) tin tout b2 capped allowance produced st,
                          d\<lparr>dec_state := s', total_in := tin, total_out := tout,
                            dec_finished := (st = ZU_STREAM_END \<or> dec_finished d)\<rparr>,
                          b2))))"

definition zu_decoder_reset ::
  "'s zu_decoder \<Rightarrow> zu_decoder_opts option \<Rightarrow> zu_status \<times> 's zu_decoder" where
  "zu_decoder_reset d opts =
     (let given = (case opts of Some o' \<Rightarrow> o' | None \<Rightarrow> dec_opts d) in
      if zu_int_check_dec_opts given \<noteq> ZU_OK then (ZU_ERR_INVALID_ARGUMENT, d)
      else
        (let use = copy_decoder_opts given in
         if do_codec use \<noteq> do_codec (dec_opts d) then (ZU_ERR_INVALID_ARGUMENT, d)
         else case v_decoder_reset (dec_vtable d) of
             None \<Rightarrow> (ZU_ERR_UNSUPPORTED, d)
           | Some f \<Rightarrow>
               (case f (dec_state d) use of
                  (st, s') \<Rightarrow>
                    if st \<noteq> ZU_OK then (st, d\<lparr>dec_state := s'\<rparr>)
                    else (ZU_OK, d\<lparr>dec_state := s', dec_opts := use, dec_finished := False,
                                   total_in := 0, total_out := 0\<rparr>))))"

definition zu_decoder_free :: "'s zu_decoder option \<Rightarrow> string list" where
  "zu_decoder_free d =
     (case d of
        None \<Rightarrow> []
      | Some h \<Rightarrow>
          (case v_decoder_free (dec_vtable h) of None \<Rightarrow> [] | Some f \<Rightarrow> f (dec_state h)) @ [''free''])"

subsection \<open>One-shot\<close>

definition zu_compress_bound :: "'s zu_registry \<Rightarrow> zu_codec \<Rightarrow> int \<Rightarrow> nat \<Rightarrow> zu_status \<times> nat option" where
  "zu_compress_bound r c level n =
     (case zu_int_resolve r c ZU_CAN_ENCODE of
        (st, None) \<Rightarrow> (st, None)
      | (st, Some v) \<Rightarrow>
          if zu_int_check_level v level \<noteq> ZU_OK then (zu_int_check_level v level, None)
          else case v_bound v of None \<Rightarrow> (ZU_ERR_UNSUPPORTED, None) | Some f \<Rightarrow> f level n)"

text \<open>Either kind of handle, as the \<^verbatim>\<open>encode ? ... : ...\<close> selections of the drive loops use it.\<close>

datatype 's handle = Enc "'s zu_encoder" | Dec "'s zu_decoder"
datatype any_opts = EncOpts zu_encoder_opts | DecOpts zu_decoder_opts

definition handle_new :: "alloc \<Rightarrow> 's zu_registry \<Rightarrow> any_opts \<Rightarrow> zu_status \<times> 's handle option" where
  "handle_new mem r opts =
     (case opts of
        EncOpts o' \<Rightarrow> map_prod id (map_option Enc) (zu_encoder_new mem r o')
      | DecOpts o' \<Rightarrow> map_prod id (map_option Dec) (zu_decoder_new mem r o'))"

definition handle_process ::
  "'s handle \<Rightarrow> zu_buffer \<Rightarrow> zu_flush \<Rightarrow> (zu_status \<times> 's handle \<times> zu_buffer) option" where
  "handle_process h b flush =
     (case h of
        Enc e \<Rightarrow> map_option (\<lambda>(st, e', b'). (st, Enc e', b')) (zu_encoder_process e b flush)
      | Dec d \<Rightarrow> map_option (\<lambda>(st, d', b'). (st, Dec d', b')) (zu_decoder_process d b flush))"

text \<open>One turn of the \<^verbatim>\<open>for (;;)\<close> of \<^verbatim>\<open>zu_int_one_shot\<close>.\<close>

definition one_shot_step ::
  "'s handle \<times> zu_buffer \<Rightarrow> (zu_status \<times> 's handle \<times> zu_buffer, 's handle \<times> zu_buffer) loop_step option" where
  "one_shot_step hb =
     (case hb of (h, b) \<Rightarrow>
        case handle_process h b ZU_FINISH of
          None \<Rightarrow> None
        | Some (st, h', b') \<Rightarrow>
            Some (if st = ZU_STREAM_END then Ret (ZU_OK, h', b')
                  else if st \<noteq> ZU_OK \<and> st \<noteq> ZU_NEED_INPUT \<and> st \<noteq> ZU_NEED_OUTPUT then Ret (st, h', b')
                  else if st = ZU_NEED_OUTPUT \<and> dst_pos b' = dst_size b' then Ret (ZU_ERR_OUTPUT_LIMIT, h', b')
                  else if dst_pos b' = dst_pos b \<and> src_pos b' = src_pos b then Ret (ZU_ERR_INTERNAL, h', b')
                  else Next (h', b')))"

text \<open>The status, the value of \<^verbatim>\<open>*written\<close> when it is assigned, and the output memory.\<close>

definition zu_int_one_shot ::
  "alloc \<Rightarrow> 's zu_registry \<Rightarrow> any_opts \<Rightarrow> byte list option \<Rightarrow> nat \<Rightarrow> byte list option \<Rightarrow> nat \<Rightarrow>
    (zu_status \<times> nat option \<times> byte list option) option" where
  "zu_int_one_shot mem r opts s n d cap =
     (if (s = None \<and> n \<noteq> 0) \<or> (d = None \<and> cap \<noteq> 0) then Some (ZU_ERR_INVALID_ARGUMENT, None, d)
      else case handle_new mem r opts of
          (st, None) \<Rightarrow> Some (st, Some 0, d)
        | (st, Some h) \<Rightarrow>
            (case run_loop one_shot_step
                    (h, \<lparr>src = s, src_size = n, src_pos = 0, dst = d, dst_size = cap, dst_pos = 0\<rparr>) of
               None \<Rightarrow> None
             | Some (st, h', b) \<Rightarrow> Some (st, Some (dst_pos b), dst b)))"

definition zu_compress_one where
  "zu_compress_one mem r opts s n d cap = zu_int_one_shot mem r (EncOpts opts) s n d cap"

definition zu_decompress_one where
  "zu_decompress_one mem r opts s n d cap = zu_int_one_shot mem r (DecOpts opts) s n d cap"

subsection \<open>Copied option structs\<close>

lemma copy_opts_bytes:
  assumes "length m = dsize" "4 \<le> dsize"
  shows "zu_int_copy_opts dsize m k =
    le_bytes 4 dsize @ drop 4 (take k m @ replicate (dsize - k) 0)"
proof -
  have *: "take (if k < dsize then k else dsize) m = take k m"
    using assms by (auto simp: min_def)
  have "write_at (replicate dsize 0) 0 (take k m) = take k m @ replicate (dsize - k) 0"
    using assms by (simp add: write_at_def min_def)
  then show ?thesis
    unfolding zu_int_copy_opts_def Let_def * by (simp add: write_at_def)
qed

text \<open>
  A struct of the original size or longer is copied field by field; the appended field receives
  the bytes the caller's struct has and zeros for the rest.
\<close>

lemma copy_decoder_opts_eq:
  assumes "24 \<le> do_struct_size os" "do_codec os < 2 ^ 32" "do_max_output os < 2 ^ 64"
    "do_max_ratio os < 2 ^ 32"
  shows "copy_decoder_opts os =
    os\<lparr>do_struct_size := 32,
       do_expected_size := do_expected_size os mod 256 ^ (min 8 (do_struct_size os - 24))\<rparr>"
proof -
  let ?k = "do_struct_size os - 24"
  have "zu_int_copy_opts 32 (decoder_opts_bytes os) (do_struct_size os) =
      le_bytes 4 32 @ le_bytes 4 (do_codec os) @ le_bytes 8 (do_max_output os) @
      le_bytes 4 (do_max_ratio os) @ le_bytes 4 (unat (do_flags os)) @
      take ?k (le_bytes 8 (do_expected_size os)) @ replicate (8 - ?k) 0"
    using assms(1) by (subst copy_opts_bytes) (simp_all add: decoder_opts_bytes_def)
  moreover have "unat (do_flags os) < 256 ^ 4"
    using unsigned_less [of "do_flags os"] by simp
  ultimately show ?thesis
    using assms
    by (simp add: copy_decoder_opts_def sizeof_zu_decoder_opts_def decoder_opts_of_def seg_def
        of_le_bytes_le_bytes of_le_bytes_append take_le_bytes min.commute)
qed

lemma int_u32_inverse:
  assumes "- (2 ^ 31) \<le> i" "i < 2 ^ 31"
  shows "int_of_u32 (u32_of_int i) = i"
proof (cases "0 \<le> i")
  case True
  with assms have "i mod 2 ^ 32 = i" by (intro mod_pos_pos_trivial) simp_all
  with True assms show ?thesis by (simp add: int_of_u32_def u32_of_int_def nat_less_iff)
next
  case False
  with assms have "(i + 2 ^ 32) mod 2 ^ 32 = i + 2 ^ 32" by (intro mod_pos_pos_trivial) simp_all
  then have "i mod 2 ^ 32 = i + 2 ^ 32" by simp
  with False assms show ?thesis by (simp add: int_of_u32_def u32_of_int_def nat_less_iff)
qed

lemma copy_encoder_opts_eq:
  assumes "16 \<le> eo_struct_size os" "eo_codec os < 2 ^ 32" "- (2 ^ 31) \<le> eo_level os" "eo_level os < 2 ^ 31"
  shows "copy_encoder_opts os = os\<lparr>eo_struct_size := 16\<rparr>"
proof -
  have "zu_int_copy_opts 16 (encoder_opts_bytes os) (eo_struct_size os) =
      le_bytes 4 16 @ le_bytes 4 (eo_codec os) @ le_bytes 4 (u32_of_int (eo_level os)) @
      le_bytes 4 (unat (eo_flags os))"
    using assms(1) by (subst copy_opts_bytes) (simp_all add: encoder_opts_bytes_def)
  moreover have "unat (eo_flags os) < 256 ^ 4"
    using unsigned_less [of "eo_flags os"] by simp
  moreover have "u32_of_int (eo_level os) < 256 ^ 4"
    by (simp add: u32_of_int_def nat_less_iff)
  ultimately show ?thesis
    using assms
    by (simp add: copy_encoder_opts_def sizeof_zu_encoder_opts_def encoder_opts_of_def seg_def
        of_le_bytes_le_bytes int_u32_inverse)
qed

text \<open>Whatever the caller passed, the stored limits are 64-bit values.\<close>

lemma seg_length_le: "length (seg m i j) \<le> j - i"
  by (simp add: seg_def)

lemma of_le_bytes_seg_bound: "of_le_bytes (seg m i (i + 8)) \<le> UINT64_MAX"
proof -
  have "of_le_bytes (seg m i (i + 8)) < 256 ^ length (seg m i (i + 8))"
    by (rule of_le_bytes_bound)
  also have "\<dots> \<le> 256 ^ 8"
    using seg_length_le [of m i "i + 8"] by (intro power_increasing) simp_all
  finally show ?thesis by (simp add: UINT64_MAX_def)
qed

lemma copied_limits_bound:
  "do_max_output (copy_decoder_opts os) \<le> UINT64_MAX"
  "do_expected_size (copy_decoder_opts os) \<le> UINT64_MAX"
  using of_le_bytes_seg_bound [of _ 8] of_le_bytes_seg_bound [of _ 24]
  by (simp_all add: copy_decoder_opts_def decoder_opts_of_def)

subsection \<open>The shrunken window\<close>

lemma buf_wf_check: "buf_wf b \<Longrightarrow> zu_int_check_buffer b = ZU_OK"
  by (cases "src b"; cases "dst b") (auto simp: buf_wf_def zu_int_check_buffer_def src_mem_def dst_mem_def)

lemma shrink_wf:
  "buf_wf b \<Longrightarrow> a \<le> avail_out b \<Longrightarrow> buf_wf (b\<lparr>dst_size := dst_pos b + a\<rparr>)"
  by (simp add: avail_out_wf) (auto simp: buf_wf_def src_mem_def dst_mem_def)

lemma shrink_adv:
  assumes wf: "buf_wf b" and a: "a \<le> avail_out b"
    and adv: "buf_adv (b\<lparr>dst_size := dst_pos b + a\<rparr>) b1"
  defines "b2 \<equiv> b1\<lparr>dst_size := dst_size b\<rparr>"
  shows "buf_adv b b2" and "dst_pos b2 \<le> dst_pos b + a"
    and "consumed b b2 = consumed (b\<lparr>dst_size := dst_pos b + a\<rparr>) b1"
    and "emitted b b2 = emitted (b\<lparr>dst_size := dst_pos b + a\<rparr>) b1"
proof -
  have le: "dst_pos b + a \<le> dst_size b" "dst_pos b \<le> dst_size b"
    using wf a by (auto simp: avail_out_wf buf_wf_def)
  have mem: "dst_mem b2 = dst_mem b1" "src_mem (b\<lparr>dst_size := dst_pos b + a\<rparr>) = src_mem b"
      "dst_mem (b\<lparr>dst_size := dst_pos b + a\<rparr>) = dst_mem b"
    by (simp_all add: b2_def dst_mem_def src_mem_def)
  have "drop (dst_pos b + a) (dst_mem b1) = drop (dst_pos b + a) (dst_mem b)"
    using adv mem by (simp add: buf_adv_def)
  then have "drop (dst_size b) (dst_mem b1) = drop (dst_size b) (dst_mem b)"
    using le(1) by (rule drop_eq_drop_mono)
  then show "buf_adv b b2"
    using adv le mem by (simp add: buf_adv_def b2_def)
  show "dst_pos b2 \<le> dst_pos b + a"
    using adv by (simp add: buf_adv_def b2_def)
  show "consumed b b2 = consumed (b\<lparr>dst_size := dst_pos b + a\<rparr>) b1"
    "emitted b b2 = emitted (b\<lparr>dst_size := dst_pos b + a\<rparr>) b1"
    using mem by (simp_all add: consumed_def emitted_def b2_def)
qed

definition within_limits :: "'s zu_decoder \<Rightarrow> bool" where
  "within_limits d \<longleftrightarrow>
     (case decoder_ceiling (dec_opts d) of None \<Rightarrow> True | Some (c, _) \<Rightarrow> total_out d \<le> c \<and> c \<le> UINT64_MAX)"

lemma within_limits_max_output:
  "within_limits d \<Longrightarrow> do_max_output (dec_opts d) \<noteq> 0 \<Longrightarrow> total_out d \<le> do_max_output (dec_opts d)"
  by (auto simp: within_limits_def decoder_ceiling_def Let_def split: if_splits)

lemma within_limits_expected:
  "within_limits d \<Longrightarrow> has_flag (do_flags (dec_opts d)) ZU_DEC_EXPECTED_SIZE \<Longrightarrow>
    total_out d \<le> do_expected_size (dec_opts d)"
  by (auto simp: within_limits_def decoder_ceiling_def Let_def split: if_splits)

lemma decoder_ceiling_bound:
  "decoder_ceiling os = Some (c, x) \<Longrightarrow> c = do_max_output os \<or> c = do_expected_size os"
  by (auto simp: decoder_ceiling_def Let_def split: if_splits)

lemma decoder_window_bounds:
  assumes wf: "buf_wf b" and w: "decoder_window d b = (capped, allowance)"
  shows "allowance \<le> avail_out b" and "\<not> capped \<Longrightarrow> allowance = avail_out b"
    and "within_limits d \<Longrightarrow> decoder_ceiling (dec_opts d) = Some (c, x) \<Longrightarrow> total_out d + allowance \<le> c"
  using w by (auto simp: decoder_window_def within_limits_def Let_def avail_out_def
      split: option.splits if_splits prod.splits)

end
