(* ===== verification/Zu_Driver.thy ===== *)
theory Zu_Driver
  imports Zu_Stream
begin

text \<open>
  What the driver guarantees around any codec that keeps to the cursor discipline of
  \<^verbatim>\<open>zukomp.h\<close>. The discipline is the locales \<open>decoder_codec\<close> and \<open>encoder_codec\<close>; their lemmas
  are the driver's contract for one call, and the inductive predicate \<open>decoder_session\<close> lifts
  them to every sequence of calls a program can make on a handle. The codec theories interpret
  the locales on their own vtables.
\<close>

subsection \<open>The contract of a codec\<close>

locale decoder_codec =
  fixes inv :: "'s option \<Rightarrow> bool" and v :: "'s zu_codec_vtable"
  assumes new_inv: "the (v_decoder_new v) os = (ZU_OK, s) \<Longrightarrow> inv s"
    and process_ok: "inv s \<Longrightarrow> buf_wf b \<Longrightarrow>
      \<exists>st s' b'. the (v_decoder_process v) s b flush = Some (st, s', b') \<and> inv s' \<and> buf_adv b b'"
    and reset_inv: "v_decoder_reset v = Some f \<Longrightarrow> inv s \<Longrightarrow> f s os = (st, s') \<Longrightarrow> inv s'"

locale encoder_codec =
  fixes inv :: "'s option \<Rightarrow> bool" and v :: "'s zu_codec_vtable"
  assumes new_inv: "the (v_encoder_new v) os = (ZU_OK, s) \<Longrightarrow> inv s"
    and process_ok: "inv s \<Longrightarrow> buf_wf b \<Longrightarrow>
      \<exists>st s' b'. the (v_encoder_process v) s b flush = Some (st, s', b') \<and> inv s' \<and> buf_adv b b'"
    and reset_inv: "v_encoder_reset v = Some f \<Longrightarrow> inv s \<Longrightarrow> f s os = (st, s') \<Longrightarrow> inv s'"

text \<open>A handle on this codec whose counters respect the limits.\<close>

definition decoder_inv :: "('s option \<Rightarrow> bool) \<Rightarrow> 's zu_codec_vtable \<Rightarrow> 's zu_decoder \<Rightarrow> bool" where
  "decoder_inv I v d \<longleftrightarrow> dec_vtable d = v \<and> I (dec_state d) \<and> within_limits d \<and>
     total_in d \<le> UINT64_MAX \<and> total_out d \<le> UINT64_MAX"

text \<open>What one call of \<^verbatim>\<open>zu_decoder_process\<close> leaves behind.\<close>

definition decoder_moved ::
  "('s option \<Rightarrow> bool) \<Rightarrow> 's zu_codec_vtable \<Rightarrow> 's zu_decoder \<Rightarrow> zu_buffer \<Rightarrow> 's zu_decoder \<Rightarrow> zu_buffer \<Rightarrow> bool" where
  "decoder_moved I v d b d' b' \<longleftrightarrow> buf_adv b b' \<and> decoder_inv I v d' \<and> dec_opts d' = dec_opts d \<and>
     total_in d' = u64_add (total_in d) (length (consumed b b')) \<and>
     total_out d' = u64_add (total_out d) (length (emitted b b')) \<and>
     (\<forall>c x. decoder_ceiling (dec_opts d) = Some (c, x) \<longrightarrow> total_out d + length (emitted b b') \<le> c)"

lemma decoder_moved_still:
  "decoder_inv I v d \<Longrightarrow> buf_wf b \<Longrightarrow> decoder_moved I v d b d b"
  by (auto simp: decoder_moved_def decoder_inv_def within_limits_def)

subsection \<open>The two paths of a call\<close>

definition decoder_active :: "'s zu_decoder \<Rightarrow> zu_flush \<Rightarrow> bool" where
  "decoder_active d flush \<longleftrightarrow> zu_int_check_flush flush = ZU_OK \<and> \<not> dec_finished d \<and>
     \<not> (flush = ZU_FLUSH \<and> \<not> has_flag (v_flags (dec_vtable d)) ZU_CAN_FLUSH)"

lemma decoder_process_still:
  "buf_wf b \<Longrightarrow> \<not> decoder_active d flush \<Longrightarrow> \<exists>st. zu_decoder_process d b flush = Some (st, d, b)"
  by (auto simp: zu_decoder_process_def decoder_active_def buf_wf_check)

lemma decoder_process_call:
  assumes "buf_wf b" "decoder_active d flush" "decoder_window d b = (capped, a)"
    and "the (v_decoder_process (dec_vtable d)) (dec_state d)
      (if capped then b\<lparr>dst_size := dst_pos b + a\<rparr> else b) flush = Some (st, s', b1)"
  defines "b2 \<equiv> (if capped then b1\<lparr>dst_size := dst_size b\<rparr> else b1)"
    and "p \<equiv> u64_sub (dst_pos b1) (dst_pos b)"
    and "tin \<equiv> u64_add (total_in d) (u64_sub (src_pos b1) (src_pos b))"
    and "tout \<equiv> u64_add (total_out d) (u64_sub (dst_pos b1) (dst_pos b))"
  shows "zu_decoder_process d b flush =
    Some (decoder_verdict (dec_opts d) tin tout b2 capped a p st,
          d\<lparr>dec_state := s', total_in := tin, total_out := tout,
            dec_finished := (st = ZU_STREAM_END \<or> dec_finished d)\<rparr>, b2)"
  using assms(1-4) unfolding b2_def p_def tin_def tout_def
  by (auto simp: zu_decoder_process_def decoder_active_def Let_def buf_wf_check)

context decoder_codec
begin

lemma codec_call:
  assumes inv: "decoder_inv inv v d" and wf: "buf_wf b"
    and w: "decoder_window d b = (capped, allowance)"
  defines "b0 \<equiv> (if capped then b\<lparr>dst_size := dst_pos b + allowance\<rparr> else b)"
  obtains st s' b1 where "the (v_decoder_process v) (dec_state d) b0 flush = Some (st, s', b1)"
    and "inv s'" and "buf_adv b (if capped then b1\<lparr>dst_size := dst_size b\<rparr> else b1)"
    and "dst_pos b1 \<le> dst_pos b + allowance"
proof -
  note W = decoder_window_bounds [OF wf w]
  have b0: "buf_wf b0" using shrink_wf [OF wf W(1)] wf by (simp add: b0_def)
  with inv obtain st s' b1 where call: "the (v_decoder_process v) (dec_state d) b0 flush = Some (st, s', b1)"
      "inv s'" "buf_adv b0 b1"
    using process_ok [of "dec_state d" b0 flush] unfolding decoder_inv_def by blast
  have "buf_adv b (if capped then b1\<lparr>dst_size := dst_size b\<rparr> else b1) \<and> dst_pos b1 \<le> dst_pos b + allowance"
  proof (cases capped)
    case True
    with call(3) shrink_adv [OF wf W(1)] show ?thesis by (simp add: b0_def)
  next
    case False
    with call(3) W(2) wf show ?thesis by (auto simp: b0_def buf_adv_def avail_out_wf)
  qed
  with call that show thesis by blast
qed

text \<open>The call always returns, keeps the caller's view of the buffer, and accounts every byte.\<close>

lemma process_moved:
  assumes inv: "decoder_inv inv v d" and wf: "buf_wf b"
  obtains st d' b' where "zu_decoder_process d b flush = Some (st, d', b')"
    and "decoder_moved inv v d b d' b'"
proof -
  let ?still = "\<exists>st. zu_decoder_process d b flush = Some (st, d, b)"
  have vt: "dec_vtable d = v" using inv by (simp add: decoder_inv_def)
  have chk: "zu_int_check_buffer b = ZU_OK" by (rule buf_wf_check [OF wf])
  obtain capped allowance where w: "decoder_window d b = (capped, allowance)" by fastforce
  show thesis
  proof (cases "zu_int_check_flush flush = ZU_OK \<and> \<not> dec_finished d \<and>
      \<not> (flush = ZU_FLUSH \<and> \<not> has_flag (v_flags v) ZU_CAN_FLUSH)")
    case False
    then have ?still using vt chk by (auto simp: zu_decoder_process_def)
    with decoder_moved_still [OF inv wf] that show thesis by blast
  next
    case True
    obtain st s' b1 where call:
      "the (v_decoder_process v) (dec_state d)
         (if capped then b\<lparr>dst_size := dst_pos b + allowance\<rparr> else b) flush = Some (st, s', b1)"
      "inv s'" "buf_adv b (if capped then b1\<lparr>dst_size := dst_size b\<rparr> else b1)"
      "dst_pos b1 \<le> dst_pos b + allowance"
      by (rule codec_call [OF inv wf w])
    define b2 where "b2 = (if capped then b1\<lparr>dst_size := dst_size b\<rparr> else b1)"
    have adv: "buf_adv b b2" using call(3) by (simp add: b2_def)
    have pos: "src_pos b2 = src_pos b1" "dst_pos b2 = dst_pos b1" by (simp_all add: b2_def)
    have used: "u64_sub (src_pos b1) (src_pos b) = length (consumed b b2)"
      "u64_sub (dst_pos b1) (dst_pos b) = length (emitted b b2)"
      using adv consumed_length [OF wf adv] emitted_length [OF wf adv] pos
      by (simp_all add: buf_adv_def)
    define d' where "d' = d\<lparr>dec_state := s', total_in := u64_add (total_in d) (length (consumed b b2)),
        total_out := u64_add (total_out d) (length (emitted b b2)),
        dec_finished := (st = ZU_STREAM_END \<or> dec_finished d)\<rparr>"
    have ret: "zu_decoder_process d b flush =
        Some (decoder_verdict (dec_opts d) (total_in d') (total_out d') b2 capped allowance
                (length (emitted b b2)) st, d', b2)"
      using True chk vt call(1)
      by (auto simp: zu_decoder_process_def w Let_def used d'_def b2_def [symmetric])
    have "length (emitted b b2) \<le> allowance"
      using call(4) emitted_length [OF wf adv] pos by simp
    then have lim: "total_out d + length (emitted b b2) \<le> c"
      if "decoder_ceiling (dec_opts d) = Some (c, x)" for c x
      using inv decoder_window_bounds(3) [OF wf w _ that] by (simp add: decoder_inv_def)
    then have "within_limits d'"
      using inv by (fastforce simp: within_limits_def d'_def decoder_inv_def split: option.splits)
    then have "decoder_moved inv v d b d' b2"
      using adv vt call(2) u64_add_bound lim
      by (simp add: decoder_moved_def decoder_inv_def d'_def)
    with ret that show thesis by blast
  qed
qed

lemma process_moves:
  "decoder_inv inv v d \<Longrightarrow> buf_wf b \<Longrightarrow> zu_decoder_process d b flush = Some (st, d', b') \<Longrightarrow>
    decoder_moved inv v d b d' b'"
  by (erule (1) process_moved [where flush = flush]) simp

lemma process_returns:
  "decoder_inv inv v d \<Longrightarrow> buf_wf b \<Longrightarrow> \<exists>st d' b'. zu_decoder_process d b flush = Some (st, d', b')"
  by (erule (1) process_moved [where flush = flush]) blast

lemma copied_within: "total_out d = 0 \<Longrightarrow> dec_opts d = copy_decoder_opts os \<Longrightarrow> within_limits d"
  using copied_limits_bound [of os]
  by (auto simp: within_limits_def dest: decoder_ceiling_bound split: option.splits)

lemma new_decoder_inv:
  assumes "zu_decoder_new mem r opts = (ZU_OK, Some d)"
    and "dec_vtable d = v"
  shows "decoder_inv inv v d"
  using assms copied_within [of d opts] new_inv
  by (auto simp: zu_decoder_new_def decoder_inv_def Let_def split: if_splits prod.splits option.splits)

lemma reset_decoder_inv:
  assumes "decoder_inv inv v d" "zu_decoder_reset d opts = (st, d')"
  shows "decoder_inv inv v d'"
proof -
  have w: "within_limits (d\<lparr>dec_state := s', dec_opts := copy_decoder_opts os, dec_finished := False,
      total_in := 0, total_out := 0\<rparr>)" for s' os
    by (rule copied_within [of _ os]) simp_all
  have w': "within_limits (d\<lparr>dec_state := s'\<rparr>) = within_limits d" for s'
    by (simp add: within_limits_def split: option.splits)
  from assms w w' reset_inv show ?thesis
    by (auto simp: zu_decoder_reset_def decoder_inv_def Let_def split: if_splits prod.splits option.splits)
qed

end

subsection \<open>Sessions\<close>

text \<open>
  Every history of a decoder handle: creation, any number of process calls on well-formed
  buffers of any size and with any flush argument, and resets. The two lists are the input
  consumed and the output delivered since the creation or the last successful reset.
\<close>

inductive decoder_session ::
  "alloc \<Rightarrow> 's zu_registry \<Rightarrow> 's zu_decoder \<Rightarrow> byte list \<Rightarrow> byte list \<Rightarrow> bool"
  for mem :: alloc and r :: "'s zu_registry" where
  new: "zu_decoder_new mem r opts = (ZU_OK, Some d) \<Longrightarrow> decoder_session mem r d [] []"
| process: "decoder_session mem r d i out \<Longrightarrow> buf_wf b \<Longrightarrow>
    zu_decoder_process d b flush = Some (st, d', b') \<Longrightarrow>
    decoder_session mem r d' (i @ consumed b b') (out @ emitted b b')"
| reset: "decoder_session mem r d i out \<Longrightarrow> zu_decoder_reset d opts = (ZU_OK, d') \<Longrightarrow>
    decoder_session mem r d' [] []"
| reset_failed: "decoder_session mem r d i out \<Longrightarrow> zu_decoder_reset d opts = (st, d') \<Longrightarrow> st \<noteq> ZU_OK \<Longrightarrow>
    decoder_session mem r d' i out"

definition decoders_ok :: "('s zu_codec_vtable \<Rightarrow> 's option \<Rightarrow> bool) \<Rightarrow> 's zu_registry \<Rightarrow> bool" where
  "decoders_ok I r \<longleftrightarrow> (\<forall>v \<in> set (reg_table r). has_flag (v_flags v) ZU_CAN_DECODE \<longrightarrow> decoder_codec (I v) v)"

lemma decoder_new_registered:
  "zu_decoder_new mem r opts = (ZU_OK, Some d) \<Longrightarrow>
    dec_vtable d \<in> set (reg_table r) \<and> has_flag (v_flags (dec_vtable d)) ZU_CAN_DECODE"
  by (auto simp: zu_decoder_new_def zu_int_resolve_def Let_def dest: registry_lookup_Some
      split: if_splits prod.splits option.splits)

text \<open>The counters agree with the bytes that moved, modulo the width of the counter.\<close>

definition session_counts :: "'s zu_decoder \<Rightarrow> byte list \<Rightarrow> byte list \<Rightarrow> bool" where
  "session_counts d i out \<longleftrightarrow> total_in d = u64_of (length i) \<and> total_out d = u64_of (length out) \<and>
     (decoder_ceiling (dec_opts d) \<noteq> None \<longrightarrow> total_out d = length out)"

lemma session_counts_moved:
  assumes "decoder_moved I v d b d' b'" "session_counts d i out" "decoder_inv I v d"
  shows "session_counts d' (i @ consumed b b') (out @ emitted b b')"
proof -
  have "total_out d' = length out + length (emitted b b')"
    if c: "decoder_ceiling (dec_opts d) = Some (c, x)" for c x
  proof -
    have "total_out d = length out" using assms(2) c by (simp add: session_counts_def)
    moreover have "total_out d + length (emitted b b') \<le> c" "c \<le> UINT64_MAX"
      using assms(1,3) c by (auto simp: decoder_moved_def decoder_inv_def within_limits_def)
    ultimately show ?thesis using assms(1) by (simp add: decoder_moved_def)
  qed
  with assms(1,2) show ?thesis
    unfolding session_counts_def decoder_moved_def by auto
qed

lemma reset_fields:
  "zu_decoder_reset d opts = (st, d') \<Longrightarrow>
    (if st = ZU_OK then total_in d' = 0 \<and> total_out d' = 0 \<and> dec_finished d' = False
     else total_in d' = total_in d \<and> total_out d' = total_out d \<and> dec_opts d' = dec_opts d)"
  by (auto simp: zu_decoder_reset_def Let_def split: if_splits prod.splits option.splits)

lemma new_fields:
  "zu_decoder_new mem r opts = (ZU_OK, Some d) \<Longrightarrow>
    total_in d = 0 \<and> total_out d = 0 \<and> dec_finished d = False \<and> dec_opts d = copy_decoder_opts opts"
  by (auto simp: zu_decoder_new_def Let_def split: if_splits prod.splits option.splits)

text \<open>The session invariant, by rule induction: the handle's codec is a registered one, the
  handle is in its invariant, and the counters count.\<close>

lemma session_inv:
  assumes ok: "decoders_ok I r" and s: "decoder_session mem r d i out"
  shows "dec_vtable d \<in> set (reg_table r) \<and> decoder_codec (I (dec_vtable d)) (dec_vtable d) \<and>
    decoder_inv (I (dec_vtable d)) (dec_vtable d) d \<and> session_counts d i out"
  using s
proof (induction rule: decoder_session.induct)
  case (new opts d)
  have reg: "dec_vtable d \<in> set (reg_table r)" "has_flag (v_flags (dec_vtable d)) ZU_CAN_DECODE"
    using decoder_new_registered [OF new] by simp_all
  with ok have c: "decoder_codec (I (dec_vtable d)) (dec_vtable d)" by (simp add: decoders_ok_def)
  from reg(1) c decoder_codec.new_decoder_inv [OF c new refl] new_fields [OF new] show ?case
    by (simp add: session_counts_def)
next
  case (process d i out b flush st d' b')
  then have c: "decoder_codec (I (dec_vtable d)) (dec_vtable d)"
    and inv: "decoder_inv (I (dec_vtable d)) (dec_vtable d) d" and cnt: "session_counts d i out"
    and reg: "dec_vtable d \<in> set (reg_table r)" by simp_all
  have m: "decoder_moved (I (dec_vtable d)) (dec_vtable d) d b d' b'"
    by (rule decoder_codec.process_moves [OF c inv process.hyps(2,3)])
  then have "dec_vtable d' = dec_vtable d" by (simp add: decoder_moved_def decoder_inv_def)
  with c reg m session_counts_moved [OF m cnt inv] show ?case by (simp add: decoder_moved_def)
next
  case (reset d i out opts d')
  then have c: "decoder_codec (I (dec_vtable d)) (dec_vtable d)"
    and inv: "decoder_inv (I (dec_vtable d)) (dec_vtable d) d"
    and reg: "dec_vtable d \<in> set (reg_table r)" by simp_all
  have i': "decoder_inv (I (dec_vtable d)) (dec_vtable d) d'"
    by (rule decoder_codec.reset_decoder_inv [OF c inv reset.hyps(2)])
  then have "dec_vtable d' = dec_vtable d" by (simp add: decoder_inv_def)
  with c reg i' reset_fields [OF reset.hyps(2)] show ?case by (simp add: session_counts_def)
next
  case (reset_failed d i out opts st d')
  then have c: "decoder_codec (I (dec_vtable d)) (dec_vtable d)"
    and inv: "decoder_inv (I (dec_vtable d)) (dec_vtable d) d" and cnt: "session_counts d i out"
    and reg: "dec_vtable d \<in> set (reg_table r)" by simp_all
  have i': "decoder_inv (I (dec_vtable d)) (dec_vtable d) d'"
    by (rule decoder_codec.reset_decoder_inv [OF c inv reset_failed.hyps(2)])
  then have "dec_vtable d' = dec_vtable d" by (simp add: decoder_inv_def)
  with c reg i' cnt reset_fields [OF reset_failed.hyps(2)] reset_failed.hyps(3) show ?case
    by (auto simp: session_counts_def)
qed

subsection \<open>What a session has delivered\<close>

text \<open>The output of a session never passes the cap, nor the size the caller announced.\<close>

lemma session_capped:
  assumes "decoders_ok I r" "decoder_session mem r d i out"
  shows "do_max_output (dec_opts d) \<noteq> 0 \<Longrightarrow> length out \<le> do_max_output (dec_opts d)"
    and "has_flag (do_flags (dec_opts d)) ZU_DEC_EXPECTED_SIZE \<Longrightarrow>
      length out \<le> do_expected_size (dec_opts d)"
proof -
  have inv: "decoder_inv (I (dec_vtable d)) (dec_vtable d) d" and cnt: "session_counts d i out"
    using session_inv [OF assms] by simp_all
  have w: "within_limits d" using inv by (simp add: decoder_inv_def)
  show "length out \<le> do_max_output (dec_opts d)" if "do_max_output (dec_opts d) \<noteq> 0"
  proof -
    from that have "decoder_ceiling (dec_opts d) \<noteq> None" by (simp add: decoder_ceiling_def Let_def)
    then have "total_out d = length out" using cnt by (simp add: session_counts_def)
    with within_limits_max_output [OF w that] show ?thesis by simp
  qed
  show "length out \<le> do_expected_size (dec_opts d)"
    if "has_flag (do_flags (dec_opts d)) ZU_DEC_EXPECTED_SIZE"
  proof -
    from that have "decoder_ceiling (dec_opts d) \<noteq> None" by (simp add: decoder_ceiling_def Let_def)
    then have "total_out d = length out" using cnt by (simp add: session_counts_def)
    with within_limits_expected [OF w that] show ?thesis by simp
  qed
qed

text \<open>A codec call that the driver lets through: what the verdict \<^const>\<open>ZU_STREAM_END\<close>, and any
  status that is not an error, say of the counters.\<close>

lemma verdict_stream_end:
  "decoder_verdict os tin tout b capped a p st = ZU_STREAM_END \<Longrightarrow> st = ZU_STREAM_END"
  by (auto simp: decoder_verdict_def Let_def decoder_ceiling_def split: if_splits)

lemma verdict_stream_end_expected:
  "decoder_verdict os tin tout b capped a p st = ZU_STREAM_END \<Longrightarrow>
    has_flag (do_flags os) ZU_DEC_EXPECTED_SIZE \<Longrightarrow> tout = do_expected_size os"
  by (auto simp: decoder_verdict_def Let_def decoder_ceiling_def split: if_splits)

lemma verdict_stream_end_trailing:
  "decoder_verdict os tin tout b capped a p st = ZU_STREAM_END \<Longrightarrow>
    has_flag (do_flags os) ZU_DEC_REJECT_TRAILING \<Longrightarrow> src_size b \<le> src_pos b"
  by (auto simp: decoder_verdict_def Let_def decoder_ceiling_def split: if_splits)

lemma ratio_exceeded_iff:
  assumes "tin \<le> UINT64_MAX" "tout \<le> UINT64_MAX"
  shows "ratio_exceeded os tin tout \<longleftrightarrow> do_max_ratio os \<noteq> 0 \<and> tin * do_max_ratio os < tout"
proof (cases "do_max_ratio os = 0")
  case True
  then show ?thesis by (simp add: ratio_exceeded_def)
next
  case False
  then have r: "0 < do_max_ratio os" by simp
  have small: "tin * do_max_ratio os \<le> UINT64_MAX \<longleftrightarrow> \<not> UINT64_MAX div do_max_ratio os < tin"
    using r by (simp add: less_eq_div_iff_mult_less_eq [OF r] not_less)
  show ?thesis
  proof (cases "UINT64_MAX div do_max_ratio os < tin")
    case True
    with small assms have "tout \<le> tin * do_max_ratio os" by linarith
    with True assms r show ?thesis by (auto simp: ratio_exceeded_def Let_def)
  next
    case False
    with small have "u64_mul tin (do_max_ratio os) = tin * do_max_ratio os"
      by (intro u64_mul_small) simp
    with False r show ?thesis by (auto simp: ratio_exceeded_def Let_def)
  qed
qed

lemma verdict_progress_ratio:
  "is_progress (decoder_verdict os tin tout b capped a p st) \<Longrightarrow> \<not> ratio_exceeded os tin tout"
  by (auto simp: decoder_verdict_def Let_def decoder_ceiling_def split: if_splits)

lemma process_verdict:
  assumes call: "zu_decoder_process d b flush = Some (st, d', b')" and prog: "is_progress st"
    and fresh: "\<not> dec_finished d"
  obtains capped a p st0 where
    "st = decoder_verdict (dec_opts d) (total_in d') (total_out d') b' capped a p st0"
    and "dec_opts d' = dec_opts d" and "dec_finished d' = (st0 = ZU_STREAM_END)"
proof -
  have chk: "zu_int_check_buffer b = ZU_OK" "zu_int_check_flush flush = ZU_OK"
    "\<not> (flush = ZU_FLUSH \<and> \<not> has_flag (v_flags (dec_vtable d)) ZU_CAN_FLUSH)"
    using call prog fresh
    by (auto simp: zu_decoder_process_def zu_int_check_buffer_def zu_int_check_flush_def
        simp del: not_less split: if_splits)
  obtain capped a where w: "decoder_window d b = (capped, a)" by fastforce
  obtain st0 s' b1 where c: "the (v_decoder_process (dec_vtable d)) (dec_state d)
      (if capped then b\<lparr>dst_size := dst_pos b + a\<rparr> else b) flush = Some (st0, s', b1)"
    using call chk fresh w by (auto simp: zu_decoder_process_def Let_def split: option.splits)
  show thesis
    using call chk fresh by (intro that) (auto simp: zu_decoder_process_def Let_def w c)
qed

lemma session_stream_end_expected:
  assumes ok: "decoders_ok I r" and s: "decoder_session mem r d i out" and wf: "buf_wf b"
    and fresh: "\<not> dec_finished d" and exp: "has_flag (do_flags (dec_opts d)) ZU_DEC_EXPECTED_SIZE"
    and call: "zu_decoder_process d b flush = Some (ZU_STREAM_END, d', b')"
  shows "length (out @ emitted b b') = do_expected_size (dec_opts d)"
proof -
  have "decoder_session mem r d' (i @ consumed b b') (out @ emitted b b')"
    by (rule decoder_session.process [OF s wf call])
  then have cnt: "session_counts d' (i @ consumed b b') (out @ emitted b b')"
    using session_inv [OF ok] by blast
  from call fresh obtain capped a p st0 where
    "ZU_STREAM_END = decoder_verdict (dec_opts d) (total_in d') (total_out d') b' capped a p st0"
    "dec_opts d' = dec_opts d"
    by (auto elim: process_verdict)
  then have "total_out d' = do_expected_size (dec_opts d)" "decoder_ceiling (dec_opts d') \<noteq> None"
    using exp verdict_stream_end_expected [of "dec_opts d", OF sym]
    by (auto simp: decoder_ceiling_def Let_def)
  with cnt show ?thesis by (simp add: session_counts_def)
qed

lemma session_ratio:
  assumes ok: "decoders_ok I r" and s: "decoder_session mem r d i out" and wf: "buf_wf b"
    and fresh: "\<not> dec_finished d" and ratio: "do_max_ratio (dec_opts d) \<noteq> 0"
    and call: "zu_decoder_process d b flush = Some (st, d', b')" and prog: "is_progress st"
    and small: "length (i @ consumed b b') \<le> UINT64_MAX" "length (out @ emitted b b') \<le> UINT64_MAX"
  shows "length (out @ emitted b b') \<le> length (i @ consumed b b') * do_max_ratio (dec_opts d)"
proof -
  have "decoder_session mem r d' (i @ consumed b b') (out @ emitted b b')"
    by (rule decoder_session.process [OF s wf call])
  then have cnt: "session_counts d' (i @ consumed b b') (out @ emitted b b')"
    using session_inv [OF ok] by blast
  from call prog fresh obtain capped a p st0 where
    "is_progress (decoder_verdict (dec_opts d) (total_in d') (total_out d') b' capped a p st0)"
    by (metis process_verdict)
  then have "\<not> ratio_exceeded (dec_opts d) (total_in d') (total_out d')"
    by (rule verdict_progress_ratio)
  moreover have "total_in d' = length (i @ consumed b b')" "total_out d' = length (out @ emitted b b')"
    using cnt small by (simp_all only: session_counts_def u64_of_small)
  ultimately show ?thesis using ratio small ratio_exceeded_iff by (metis not_less)
qed

end
