(* ===== verification/Zu_Handle.thy ===== *)
theory Zu_Handle
  imports Zu_Driver
begin

text \<open>
  The encoder side of the driver's contract, the contract of a stream handle of either
  direction as the drive loops see it (locale \<open>stream_handle\<close>), and the one-shot loop of
  \<^verbatim>\<open>zu_stream.c\<close> proved to return on top of it.
\<close>

subsection \<open>Encoders\<close>

definition encoder_inv :: "('s option \<Rightarrow> bool) \<Rightarrow> 's zu_codec_vtable \<Rightarrow> 's zu_encoder \<Rightarrow> bool" where
  "encoder_inv I v e \<longleftrightarrow> e_vtable e = v \<and> I (e_state e)"

context encoder_codec
begin

lemma encoder_moves:
  assumes inv: "encoder_inv inv v e" and wf: "buf_wf b"
  shows "\<exists>st e' b'. zu_encoder_process e b flush = Some (st, e', b') \<and>
    encoder_inv inv v e' \<and> buf_adv b b' \<and> e_opts e' = e_opts e"
proof -
  have vt: "e_vtable e = v" "inv (e_state e)" using inv by (simp_all add: encoder_inv_def)
  have chk: "zu_int_check_buffer b = ZU_OK" by (rule buf_wf_check [OF wf])
  obtain st s' b' where call: "the (v_encoder_process v) (e_state e) b flush = Some (st, s', b')"
      "inv s'" "buf_adv b b'"
    using process_ok [OF vt(2) wf, of flush] by blast
  show ?thesis
    using vt chk call wf by (simp add: zu_encoder_process_def encoder_inv_def)
qed

lemma new_encoder_inv:
  assumes "zu_encoder_new mem r opts = (ZU_OK, Some e)" and "e_vtable e = v"
  shows "encoder_inv inv v e"
  using assms new_inv
  by (auto simp: zu_encoder_new_def encoder_inv_def Let_def split: if_splits prod.splits option.splits)

lemma reset_encoder_inv:
  assumes "encoder_inv inv v e" "zu_encoder_reset e opts = (st, e')"
  shows "encoder_inv inv v e'"
  using assms reset_inv
  by (auto simp: zu_encoder_reset_def encoder_inv_def Let_def split: if_splits prod.splits option.splits)

end

definition encoders_ok :: "('s zu_codec_vtable \<Rightarrow> 's option \<Rightarrow> bool) \<Rightarrow> 's zu_registry \<Rightarrow> bool" where
  "encoders_ok J r \<longleftrightarrow> (\<forall>v \<in> set (reg_table r). has_flag (v_flags v) ZU_CAN_ENCODE \<longrightarrow> encoder_codec (J v) v)"

lemma encoder_new_registered:
  "zu_encoder_new mem r opts = (ZU_OK, Some e) \<Longrightarrow>
    e_vtable e \<in> set (reg_table r) \<and> has_flag (v_flags (e_vtable e)) ZU_CAN_ENCODE"
  by (auto simp: zu_encoder_new_def zu_int_resolve_def Let_def dest: registry_lookup_Some
      split: if_splits prod.splits option.splits)

text \<open>After \<^const>\<open>ZU_STREAM_END\<close> an encoder accepts nothing more and moves nothing.\<close>

lemma encoder_finished_process:
  "e_finished e \<Longrightarrow> buf_wf b \<Longrightarrow> zu_int_check_flush flush = ZU_OK \<Longrightarrow>
    zu_encoder_process e b flush =
      Some (if 0 < avail_in b then ZU_ERR_INVALID_ARGUMENT else ZU_STREAM_END, e, b)"
  by (simp add: zu_encoder_process_def buf_wf_check avail_in_wf)

subsection \<open>The contract of a handle\<close>

locale stream_handle =
  fixes hinv :: "'h \<Rightarrow> bool"
    and proc :: "'h \<Rightarrow> zu_buffer \<Rightarrow> zu_flush \<Rightarrow> (zu_status \<times> 'h \<times> zu_buffer) option"
  assumes proc_ok: "hinv h \<Longrightarrow> buf_wf b \<Longrightarrow>
      \<exists>st h' b'. proc h b flush = Some (st, h', b') \<and> hinv h' \<and> buf_adv b b'"
begin

lemma proc_moves:
  assumes "hinv h" "buf_wf b" "proc h b flush = Some (st, h', b')"
  shows "hinv h'" "buf_adv b b'" "buf_wf b'"
  using proc_ok [OF assms(1,2), of flush] assms(2,3) by (auto intro: buf_adv_wf)

text \<open>A call that moved a cursor leaves less to move.\<close>

lemma proc_progress:
  assumes "hinv h" "buf_wf b" "proc h b flush = Some (st, h', b')"
    and "\<not> (dst_pos b' = dst_pos b \<and> src_pos b' = src_pos b)"
  shows "avail_in b' + avail_out b' < avail_in b + avail_out b"
proof -
  note m = proc_moves [OF assms(1-3)]
  have "src_size b' = src_size b" "dst_size b' = dst_size b" "src_pos b \<le> src_pos b'" "src_pos b' \<le> src_size b"
    "dst_pos b \<le> dst_pos b'" "dst_pos b' \<le> dst_size b"
    using m(2) by (simp_all add: buf_adv_def)
  with assms(4) show ?thesis
    using avail_in_wf [OF assms(2)] avail_out_wf [OF assms(2)] avail_in_wf [OF m(3)] avail_out_wf [OF m(3)]
    by linarith
qed

end

text \<open>A handle whose codec keeps the discipline, in either direction.\<close>

definition handle_inv ::
  "('s zu_codec_vtable \<Rightarrow> 's option \<Rightarrow> bool) \<Rightarrow> ('s zu_codec_vtable \<Rightarrow> 's option \<Rightarrow> bool) \<Rightarrow> 's handle \<Rightarrow> bool" where
  "handle_inv I J h \<longleftrightarrow>
     (case h of
        Enc e \<Rightarrow> encoder_codec (J (e_vtable e)) (e_vtable e) \<and> encoder_inv (J (e_vtable e)) (e_vtable e) e
      | Dec d \<Rightarrow> decoder_codec (I (dec_vtable d)) (dec_vtable d) \<and>
                 decoder_inv (I (dec_vtable d)) (dec_vtable d) d)"

lemma handle_process_ok:
  assumes "handle_inv I J h" "buf_wf b"
  shows "\<exists>st h' b'. handle_process h b flush = Some (st, h', b') \<and> handle_inv I J h' \<and> buf_adv b b'"
proof (cases h)
  case (Enc e)
  with assms have c: "encoder_codec (J (e_vtable e)) (e_vtable e)" "encoder_inv (J (e_vtable e)) (e_vtable e) e"
    by (simp_all add: handle_inv_def)
  from encoder_codec.encoder_moves [OF c assms(2), of flush] c(1) Enc show ?thesis
    by (auto simp: handle_process_def handle_inv_def encoder_inv_def)
next
  case (Dec d)
  with assms have c: "decoder_codec (I (dec_vtable d)) (dec_vtable d)"
    and i: "decoder_inv (I (dec_vtable d)) (dec_vtable d) d"
    by (simp_all add: handle_inv_def)
  from c i assms(2) obtain st d' b' where p: "zu_decoder_process d b flush = Some (st, d', b')"
      and m: "decoder_moved (I (dec_vtable d)) (dec_vtable d) d b d' b'"
    by (rule decoder_codec.process_moved)
  from m have "dec_vtable d' = dec_vtable d" by (simp add: decoder_moved_def decoder_inv_def)
  with c p m Dec show ?thesis
    by (auto simp: handle_process_def handle_inv_def decoder_moved_def)
qed

interpretation hnd: stream_handle "handle_inv I J" handle_process for I J
  by unfold_locales (rule handle_process_ok)

lemma handle_new_inv:
  assumes "decoders_ok I r" "encoders_ok J r" "handle_new mem r opts = (ZU_OK, Some h)"
  shows "handle_inv I J h"
proof (cases opts)
  case (EncOpts os)
  with assms(3) obtain e where e: "zu_encoder_new mem r os = (ZU_OK, Some e)" "h = Enc e"
    by (cases "zu_encoder_new mem r os") (auto simp: handle_new_def)
  then have c: "encoder_codec (J (e_vtable e)) (e_vtable e)"
    using encoder_new_registered [OF e(1)] assms(2) by (auto simp: encoders_ok_def)
  with encoder_codec.new_encoder_inv [OF c e(1) refl] e(2) show ?thesis by (simp add: handle_inv_def)
next
  case (DecOpts os)
  with assms(3) obtain d where d: "zu_decoder_new mem r os = (ZU_OK, Some d)" "h = Dec d"
    by (cases "zu_decoder_new mem r os") (auto simp: handle_new_def)
  then have c: "decoder_codec (I (dec_vtable d)) (dec_vtable d)"
    using decoder_new_registered [OF d(1)] assms(1) by (auto simp: decoders_ok_def)
  with decoder_codec.new_decoder_inv [OF c d(1) refl] d(2) show ?thesis by (simp add: handle_inv_def)
qed

lemma handle_new_status: "handle_new mem r opts = (st, Some h) \<Longrightarrow> st = ZU_OK"
  by (auto simp: handle_new_def zu_encoder_new_def zu_decoder_new_def Let_def
      split: any_opts.splits if_splits prod.splits option.splits)

subsection \<open>The one-shot loop\<close>

text \<open>One turn, for a handle in its invariant: it returns, or it moved a cursor.\<close>

lemma one_shot_turn:
  assumes "handle_inv I J h" "buf_wf b"
  obtains st h' b' where "handle_process h b ZU_FINISH = Some (st, h', b')"
    and "handle_inv I J h'" and "buf_adv b b'"
    and "(\<exists>st'. one_shot_step (h, b) = Some (Ret (st', h', b')) \<and>
            (st' = ZU_OK \<longleftrightarrow> st = ZU_STREAM_END) \<and> \<not> (is_progress st' \<and> st' \<noteq> ZU_OK)) \<or>
         one_shot_step (h, b) = Some (Next (h', b')) \<and>
            avail_in b' + avail_out b' < avail_in b + avail_out b"
proof -
  from assms obtain st h' b' where p: "handle_process h b ZU_FINISH = Some (st, h', b')"
      "handle_inv I J h'" "buf_adv b b'"
    using handle_process_ok by blast
  note less = hnd.proc_progress [OF assms p(1)]
  show thesis
    by (rule that [OF p]) (cases st; use p(1) less in \<open>auto simp: one_shot_step_def\<close>)
qed

text \<open>Everything the loop keeps: the codec discipline, the caller's memory outside the window,
  and, for a decoder, that the run so far is a session of the handle.\<close>

definition one_shot_inv ::
  "('s zu_codec_vtable \<Rightarrow> 's option \<Rightarrow> bool) \<Rightarrow> ('s zu_codec_vtable \<Rightarrow> 's option \<Rightarrow> bool) \<Rightarrow>
    alloc \<Rightarrow> 's zu_registry \<Rightarrow> zu_buffer \<Rightarrow> 's handle \<Rightarrow> zu_buffer \<Rightarrow> bool" where
  "one_shot_inv I J mem r b0 h b \<longleftrightarrow> handle_inv I J h \<and> buf_wf b \<and> buf_adv b0 b \<and>
     (\<forall>d. h = Dec d \<longrightarrow> decoder_session mem r d (consumed b0 b) (emitted b0 b))"

lemma one_shot_inv_process:
  assumes inv: "one_shot_inv I J mem r b0 h b"
    and p: "handle_process h b flush = Some (st, h', b')"
  shows "one_shot_inv I J mem r b0 h' b'"
proof -
  have h: "handle_inv I J h" "buf_wf b" "buf_adv b0 b" using inv by (simp_all add: one_shot_inv_def)
  note m = hnd.proc_moves [OF h(1,2) p]
  have "decoder_session mem r d' (consumed b0 b') (emitted b0 b')" if "h' = Dec d'" for d'
  proof -
    from p that obtain d where d: "h = Dec d" "zu_decoder_process d b flush = Some (st, d', b')"
      by (auto simp: handle_process_def split: handle.splits)
    then have "decoder_session mem r d (consumed b0 b) (emitted b0 b)"
      using inv by (simp add: one_shot_inv_def)
    from decoder_session.process [OF this h(2) d(2)] show ?thesis
      by (simp add: consumed_trans [OF h(3) m(2)] emitted_trans [OF h(3) m(2)])
  qed
  with m h(3) show ?thesis by (auto simp: one_shot_inv_def intro: buf_adv_trans)
qed

text \<open>The loop returns; what it returns is the last call's handle and buffer, still in the
  invariant, and its status is never a progress status other than \<^const>\<open>ZU_OK\<close>.\<close>

lemma one_shot_loop:
  assumes "one_shot_inv I J mem r b0 h b"
  shows "\<exists>q. run_loop one_shot_step (h, b) = Some q \<and>
    (case q of (st, h', b') \<Rightarrow> one_shot_inv I J mem r b0 h' b' \<and> \<not> (is_progress st \<and> st \<noteq> ZU_OK))"
proof (rule run_loop_measure [where I = "\<lambda>(h, b). one_shot_inv I J mem r b0 h b"
      and m = "\<lambda>(h, b). avail_in b + avail_out b"], goal_cases)
  case 1
  from assms show ?case by simp
next
  case (2 s)
  then obtain h b where s: "s = (h, b)" and inv: "one_shot_inv I J mem r b0 h b" by (cases s) auto
  from inv have "handle_inv I J h" "buf_wf b" by (simp_all add: one_shot_inv_def)
  then obtain st h' b' where p: "handle_process h b ZU_FINISH = Some (st, h', b')"
    and d: "(\<exists>st'. one_shot_step (h, b) = Some (Ret (st', h', b')) \<and>
            (st' = ZU_OK \<longleftrightarrow> st = ZU_STREAM_END) \<and> \<not> (is_progress st' \<and> st' \<noteq> ZU_OK)) \<or>
         one_shot_step (h, b) = Some (Next (h', b')) \<and>
            avail_in b' + avail_out b' < avail_in b + avail_out b"
    by (rule one_shot_turn)
  have "one_shot_inv I J mem r b0 h' b'" by (rule one_shot_inv_process [OF inv p])
  with d s show ?case by auto
qed

lemma handle_new_session:
  assumes "decoders_ok I r" "encoders_ok J r" "handle_new mem r opts = (st, Some h)" "buf_wf b"
  shows "one_shot_inv I J mem r b h b"
proof -
  have st: "st = ZU_OK" using assms(3) by (rule handle_new_status)
  have "decoder_session mem r d [] []" if "h = Dec d" for d
    using assms(3) that st
    by (auto simp: handle_new_def map_prod_def split: any_opts.splits prod.splits intro: decoder_session.new)
  with assms st handle_new_inv [OF assms(1,2)] show ?thesis by (simp add: one_shot_inv_def)
qed

end
