(* ===== verification/Codec_Identity.thy ===== *)
theory Codec_Identity
  imports Zu_Handle
begin

unbundle bit_operations_syntax

text \<open>
  The two codecs that are one pass over the bytes: \<^verbatim>\<open>src/codec_identity.c\<close> and the satellite
  codec \<^verbatim>\<open>xor5a\<close> of \<^verbatim>\<open>tools/zukomptest/src/codec_xor.c\<close> with its \<^verbatim>\<open>snappy-raw\<close> stub. What they
  share is the locale \<open>bytewise\<close>: the process function moves as many bytes as both windows
  allow, each through one byte function, and reports what stopped it.
\<close>

subsection \<open>codec_identity.c\<close>

text \<open>The address of the static state object is the only value the state pointer takes.\<close>

definition identity_new :: "zu_status \<times> unit option" where
  "identity_new = (ZU_OK, Some ())"

definition identity_encoder_new :: "zu_encoder_opts \<Rightarrow> zu_status \<times> unit option" where
  "identity_encoder_new opts = identity_new"

definition identity_decoder_new :: "zu_decoder_opts \<Rightarrow> zu_status \<times> unit option" where
  "identity_decoder_new opts = identity_new"

definition identity_process :: "unit process_fn" where
  "identity_process s b flush =
     (if src_pos b > src_size b \<or> dst_pos b > dst_size b then Some (ZU_ERR_INVALID_ARGUMENT, s, b)
      else
        (let avail_in = u64_sub (src_size b) (src_pos b);
             avail_out = u64_sub (dst_size b) (dst_pos b);
             n = (if avail_in < avail_out then avail_in else avail_out)
         in if n > 0 \<and> (src b = None \<or> dst b = None) then Some (ZU_ERR_INVALID_ARGUMENT, s, b)
            else
              (let b' = (if n > 0 then put_out (seg (src_mem b) (src_pos b) (src_pos b + n)) (skip_in n b) else b);
                   left = (if n > 0 then u64_sub avail_in n else avail_in)
               in if left > 0 then Some (ZU_NEED_OUTPUT, s, b')
                  else if flush = ZU_FINISH then Some (ZU_STREAM_END, s, b')
                  else Some (ZU_NEED_INPUT, s, b'))))"

definition identity_encoder_reset :: "unit option \<Rightarrow> zu_encoder_opts \<Rightarrow> zu_status \<times> unit option" where
  "identity_encoder_reset s opts = (ZU_OK, s)"

definition identity_decoder_reset :: "unit option \<Rightarrow> zu_decoder_opts \<Rightarrow> zu_status \<times> unit option" where
  "identity_decoder_reset s opts = (ZU_OK, s)"

definition identity_free :: "unit option \<Rightarrow> string list" where
  "identity_free s = []"

definition identity_bound :: "int \<Rightarrow> nat \<Rightarrow> zu_status \<times> nat option" where
  "identity_bound level n = (ZU_OK, Some n)"

definition zu_int_codec_identity :: "unit zu_codec_vtable" where
  "zu_int_codec_identity =
     \<lparr>v_struct_size = sizeof_zu_codec_vtable, v_codec = ZU_CODEC_IDENTITY,
      v_name = Some ''identity'', v_content_encoding = Some ''identity'', v_source = Some ''zukomp'',
      v_level_min = 0, v_level_max = 0, v_level_default = 0,
      v_flags = ZU_CAN_ENCODE OR ZU_CAN_DECODE OR ZU_CAN_FLUSH,
      v_magic = None, v_magic_len = 0, v_magic_offset = 0, v_sniff = None,
      v_encoder_new = Some identity_encoder_new, v_encoder_process = Some identity_process,
      v_encoder_reset = Some identity_encoder_reset, v_encoder_free = Some identity_free,
      v_decoder_new = Some identity_decoder_new, v_decoder_process = Some identity_process,
      v_decoder_reset = Some identity_decoder_reset, v_decoder_free = Some identity_free,
      v_bound = Some identity_bound, v_level_fast = 0, v_level_best = 0\<rparr>"

subsection \<open>codec_xor.c\<close>

definition XOR_KEY :: byte where
  "XOR_KEY = 0x5A"

definition xor5a_new :: "zu_status \<times> unit option" where
  "xor5a_new = (ZU_OK, Some ())"

definition xor5a_encoder_new :: "zu_encoder_opts \<Rightarrow> zu_status \<times> unit option" where
  "xor5a_encoder_new opts = xor5a_new"

definition xor5a_decoder_new :: "zu_decoder_opts \<Rightarrow> zu_status \<times> unit option" where
  "xor5a_decoder_new opts = xor5a_new"

text \<open>The \<^verbatim>\<open>for\<close> loop over \<open>i\<close>, which stores into the output before either cursor moves.\<close>

function xor5a_loop :: "nat \<Rightarrow> nat \<Rightarrow> zu_buffer \<Rightarrow> zu_buffer" where
  "xor5a_loop i n b =
     (if i < n
      then xor5a_loop (Suc i) n
             (b\<lparr>dst := map_option (\<lambda>m. m[dst_pos b + i := src_byte b i XOR XOR_KEY]) (dst b)\<rparr>)
      else b)"
  by pat_completeness auto
termination by (relation "measure (\<lambda>(i, n, b). n - i)") auto

declare xor5a_loop.simps [simp del]

definition xor5a_process :: "unit process_fn" where
  "xor5a_process s b flush =
     (let avail_in = u64_sub (src_size b) (src_pos b);
          avail_out = u64_sub (dst_size b) (dst_pos b);
          n = (if avail_in < avail_out then avail_in else avail_out);
          b1 = xor5a_loop 0 n b;
          b' = b1\<lparr>src_pos := src_pos b1 + n, dst_pos := dst_pos b1 + n\<rparr>
      in if avail_in > n then Some (ZU_NEED_OUTPUT, s, b')
         else if flush = ZU_FINISH then Some (ZU_STREAM_END, s, b')
         else Some (ZU_NEED_INPUT, s, b'))"

definition xor5a_encoder_reset :: "unit option \<Rightarrow> zu_encoder_opts \<Rightarrow> zu_status \<times> unit option" where
  "xor5a_encoder_reset s opts = (ZU_OK, s)"

definition xor5a_decoder_reset :: "unit option \<Rightarrow> zu_decoder_opts \<Rightarrow> zu_status \<times> unit option" where
  "xor5a_decoder_reset s opts = (ZU_OK, s)"

definition xor5a_free :: "unit option \<Rightarrow> string list" where
  "xor5a_free s = []"

definition xor5a_bound :: "int \<Rightarrow> nat \<Rightarrow> zu_status \<times> nat option" where
  "xor5a_bound level n = (ZU_OK, Some n)"

definition xor5a_vtable :: "unit zu_codec_vtable" where
  "xor5a_vtable =
     \<lparr>v_struct_size = sizeof_zu_codec_vtable, v_codec = ZU_CODEC_VENDOR_BASE,
      v_name = Some ''xor5a'', v_content_encoding = None, v_source = Some ''zukomptest'',
      v_level_min = 0, v_level_max = 0, v_level_default = 0,
      v_flags = ZU_CAN_ENCODE OR ZU_CAN_DECODE OR ZU_CAN_FLUSH,
      v_magic = None, v_magic_len = 0, v_magic_offset = 0, v_sniff = None,
      v_encoder_new = Some xor5a_encoder_new, v_encoder_process = Some xor5a_process,
      v_encoder_reset = Some xor5a_encoder_reset, v_encoder_free = Some xor5a_free,
      v_decoder_new = Some xor5a_decoder_new, v_decoder_process = Some xor5a_process,
      v_decoder_reset = Some xor5a_decoder_reset, v_decoder_free = Some xor5a_free,
      v_bound = Some xor5a_bound, v_level_fast = 0, v_level_best = 0\<rparr>"

text \<open>A satellite's implementation of a codec that zukomp declares but does not ship.\<close>

definition snappy_stub_encoder_new :: "zu_encoder_opts \<Rightarrow> zu_status \<times> unit option" where
  "snappy_stub_encoder_new opts = xor5a_encoder_new opts"

definition snappy_stub_decoder_new :: "zu_decoder_opts \<Rightarrow> zu_status \<times> unit option" where
  "snappy_stub_decoder_new opts = xor5a_decoder_new opts"

definition snappy_stub_vtable :: "unit zu_codec_vtable" where
  "snappy_stub_vtable =
     xor5a_vtable\<lparr>v_codec := ZU_CODEC_SNAPPY_RAW, v_name := Some ''snappy-raw'',
       v_encoder_new := Some snappy_stub_encoder_new, v_decoder_new := Some snappy_stub_decoder_new\<rparr>"

subsection \<open>The contract of a bytewise codec\<close>

definition bytewise_status :: "nat \<Rightarrow> nat \<Rightarrow> zu_flush \<Rightarrow> zu_status" where
  "bytewise_status n_in n_out flush =
     (if n_out < n_in then ZU_NEED_OUTPUT else if flush = ZU_FINISH then ZU_STREAM_END else ZU_NEED_INPUT)"

locale bytewise =
  fixes f :: "byte \<Rightarrow> byte" and proc :: "'s process_fn"
  assumes proc_eq: "buf_wf b \<Longrightarrow> proc s b flush =
    (let n = min (avail_in b) (avail_out b)
     in Some (bytewise_status (avail_in b) (avail_out b) flush, s,
              put_out (map f (take n (in_window b))) (skip_in n b)))"
begin

lemma proc_moves:
  assumes wf: "buf_wf b" and p: "proc s b flush = Some (st, s', b')"
  shows "buf_adv b b'" "emitted b b' = map f (consumed b b')" "s' = s"
    "consumed b b' = take (min (avail_in b) (avail_out b)) (in_window b)"
    "st = bytewise_status (avail_in b) (avail_out b) flush"
proof -
  let ?n = "min (avail_in b) (avail_out b)"
  have len: "length (map f (take ?n (in_window b))) \<le> avail_out b" "?n \<le> avail_in b"
    using in_window_length [OF wf] by simp_all
  note m = move_adv [OF wf len(2,1)]
  from p wf have "st = bytewise_status (avail_in b) (avail_out b) flush" "s' = s"
      "b' = put_out (map f (take ?n (in_window b))) (skip_in ?n b)"
    by (auto simp: proc_eq Let_def)
  with m show "buf_adv b b'" "emitted b b' = map f (consumed b b')" "s' = s"
    "consumed b b' = take (min (avail_in b) (avail_out b)) (in_window b)"
    "st = bytewise_status (avail_in b) (avail_out b) flush" by simp_all
qed

lemma proc_returns: "buf_wf b \<Longrightarrow> \<exists>st s' b'. proc s b flush = Some (st, s', b') \<and> buf_adv b b'"
  using proc_moves(1) proc_eq by (simp add: Let_def)

end

lemma identity_bytewise:
  assumes wf: "buf_wf b"
  shows "identity_process s b flush =
    (let n = min (avail_in b) (avail_out b)
     in Some (bytewise_status (avail_in b) (avail_out b) flush, s,
              put_out (map id (take n (in_window b))) (skip_in n b)))"
proof -
  define n where "n = min (avail_in b) (avail_out b)"
  have n: "(if avail_in b < avail_out b then avail_in b else avail_out b) = n" by (simp add: n_def)
  have ok: "\<not> (src_size b < src_pos b \<or> dst_size b < dst_pos b)" using wf by (auto simp: buf_wf_def)
  have null: "\<not> (n > 0 \<and> (src b = None \<or> dst b = None))"
    using wf by (cases "src b"; cases "dst b")
      (auto simp: n_def avail_in_wf avail_out_wf buf_wf_def src_mem_def dst_mem_def)
  have le: "n \<le> avail_in b" by (simp add: n_def)
  have b': "(if n > 0 then put_out (seg (src_mem b) (src_pos b) (src_pos b + n)) (skip_in n b) else b) =
      put_out (take n (in_window b)) (skip_in n b)"
    using skip_in_seg [OF wf le] wf
    by (cases "dst b") (auto simp: put_out_def skip_in_def buf_wf_def dst_mem_def)
  have left: "(if n > 0 then u64_sub (avail_in b) n else avail_in b) > 0 \<longleftrightarrow> avail_out b < avail_in b"
    using le by (auto simp: n_def)
  have "identity_process s b flush =
      (if (if n > 0 then u64_sub (avail_in b) n else avail_in b) > 0
       then Some (ZU_NEED_OUTPUT, s, put_out (take n (in_window b)) (skip_in n b))
       else if flush = ZU_FINISH then Some (ZU_STREAM_END, s, put_out (take n (in_window b)) (skip_in n b))
       else Some (ZU_NEED_INPUT, s, put_out (take n (in_window b)) (skip_in n b)))"
    unfolding identity_process_def Let_def avail_in_def [symmetric] avail_out_def [symmetric] n b'
    using ok null by (simp only: if_False)
  also have "\<dots> = Some (bytewise_status (avail_in b) (avail_out b) flush, s,
      put_out (take n (in_window b)) (skip_in n b))"
    by (simp add: left bytewise_status_def)
  finally show ?thesis by (simp add: n_def Let_def)
qed

interpretation identity: bytewise id identity_process
  by unfold_locales (rule identity_bytewise)

text \<open>The store loop writes the transformed window in one piece.\<close>

lemma write_at_Cons:
  "p < length m \<Longrightarrow> write_at (m[p := x]) (Suc p) ys = write_at m p (x # ys)"
  by (simp add: write_at_def take_Suc_conv_app_nth)

lemma xor5a_loop_eq:
  assumes "i \<le> n" "dst_pos b + n \<le> length (dst_mem b)"
  shows "xor5a_loop i n b =
    b\<lparr>dst := map_option (\<lambda>m. write_at m (dst_pos b + i) (map (\<lambda>k. src_byte b k XOR XOR_KEY) [i..<n])) (dst b)\<rparr>"
  using assms
proof (induction i n b rule: xor5a_loop.induct)
  case (1 i n b)
  let ?b = "b\<lparr>dst := map_option (\<lambda>m. m[dst_pos b + i := src_byte b i XOR XOR_KEY]) (dst b)\<rparr>"
  show ?case
  proof (cases "i < n")
    case True
    have sb: "src_byte ?b = src_byte b" by (auto simp: src_byte_def src_mem_def)
    have len: "dst_pos ?b + n \<le> length (dst_mem ?b)" "Suc i \<le> n"
      using 1(3) True by (auto simp: dst_mem_def split: option.splits)
    from 1(1) [OF True len(2,1)] True 1(3) show ?thesis
      unfolding sb xor5a_loop.simps [of i n b]
      by (cases "dst b") (simp_all add: write_at_Cons upt_conv_Cons dst_mem_def)
  next
    case False
    then have "xor5a_loop i n b = b" by (simp add: xor5a_loop.simps)
    with False 1(2,3) show ?thesis by (cases "dst b") (simp_all add: dst_mem_def)
  qed
qed

lemma map_src_byte_window:
  assumes "buf_wf b" "n \<le> avail_in b"
  shows "map (\<lambda>k. f (src_byte b k)) [0..<n] = map f (take n (in_window b))"
  using assms in_window_length [OF assms(1)] src_byte_window [OF assms(1)]
  by (intro nth_equalityI) simp_all

lemma xor5a_bytewise:
  assumes wf: "buf_wf b"
  shows "xor5a_process s b flush =
    (let n = min (avail_in b) (avail_out b)
     in Some (bytewise_status (avail_in b) (avail_out b) flush, s,
              put_out (map (\<lambda>x. x XOR XOR_KEY) (take n (in_window b))) (skip_in n b)))"
proof -
  define n where "n = min (avail_in b) (avail_out b)"
  have n: "(if avail_in b < avail_out b then avail_in b else avail_out b) = n" by (simp add: n_def)
  have le: "n \<le> avail_in b" "dst_pos b + n \<le> length (dst_mem b)"
    using wf avail_out_wf [OF wf] by (auto simp: n_def buf_wf_def)
  have bytes: "length (take n (in_window b)) = n" using in_window_length [OF wf] le by simp
  have "xor5a_loop 0 n b =
      b\<lparr>dst := map_option (\<lambda>m. write_at m (dst_pos b) (map (\<lambda>x. x XOR XOR_KEY) (take n (in_window b)))) (dst b)\<rparr>"
    using xor5a_loop_eq [of 0 n b] le map_src_byte_window [OF wf le(1), of "\<lambda>x. x XOR XOR_KEY"] by simp
  then have mv: "(let b1 = xor5a_loop 0 n b in b1\<lparr>src_pos := src_pos b1 + n, dst_pos := dst_pos b1 + n\<rparr>) =
      put_out (map (\<lambda>x. x XOR XOR_KEY) (take n (in_window b))) (skip_in n b)"
    using bytes by (simp add: put_out_def skip_in_def Let_def)
  have left: "avail_in b > n \<longleftrightarrow> avail_out b < avail_in b" by (auto simp: n_def)
  have "xor5a_process s b flush = Some (bytewise_status (avail_in b) (avail_out b) flush, s,
      put_out (map (\<lambda>x. x XOR XOR_KEY) (take n (in_window b))) (skip_in n b))"
    using mv unfolding xor5a_process_def Let_def avail_in_def [symmetric] avail_out_def [symmetric] n
    by (simp add: bytewise_status_def left)
  then show ?thesis by (simp add: n_def Let_def)
qed

interpretation xor5a: bytewise "\<lambda>x. x XOR XOR_KEY" xor5a_process
  by unfold_locales (rule xor5a_bytewise)

subsection \<open>The driver's contracts\<close>

context bytewise
begin

lemma decoder_contract: "v_decoder_process v = Some proc \<Longrightarrow> decoder_codec (\<lambda>_. True) v"
  by unfold_locales (simp_all add: proc_returns)

lemma encoder_contract: "v_encoder_process v = Some proc \<Longrightarrow> encoder_codec (\<lambda>_. True) v"
  by unfold_locales (simp_all add: proc_returns)

end

interpretation identity_dec: decoder_codec "\<lambda>_. True" zu_int_codec_identity
  by (rule identity.decoder_contract) (simp add: zu_int_codec_identity_def)

interpretation identity_enc: encoder_codec "\<lambda>_. True" zu_int_codec_identity
  by (rule identity.encoder_contract) (simp add: zu_int_codec_identity_def)

interpretation xor5a_dec: decoder_codec "\<lambda>_. True" xor5a_vtable
  by (rule xor5a.decoder_contract) (simp add: xor5a_vtable_def)

interpretation xor5a_enc: encoder_codec "\<lambda>_. True" xor5a_vtable
  by (rule xor5a.encoder_contract) (simp add: xor5a_vtable_def)

subsection \<open>Bytewise codecs under the driver\<close>

context bytewise
begin

lemma decoder_image:
  assumes vt: "v_decoder_process (dec_vtable d) = Some proc" and wf: "buf_wf b"
    and call: "zu_decoder_process d b flush = Some (st, d', b')"
  shows "emitted b b' = map f (consumed b b')"
proof (cases "decoder_active d flush")
  case False
  with call decoder_process_still [OF wf] have "b' = b" by fastforce
  then show ?thesis by simp
next
  case True
  obtain capped a where w: "decoder_window d b = (capped, a)" by fastforce
  let ?w = "if capped then b\<lparr>dst_size := dst_pos b + a\<rparr> else b"
  have a: "a \<le> avail_out b" by (rule decoder_window_bounds(1) [OF wf w])
  have wf0: "buf_wf ?w" using shrink_wf [OF wf a] wf by simp
  obtain st0 s' b1 where c: "proc (dec_state d) ?w flush = Some (st0, s', b1)"
    using proc_returns [OF wf0] by blast
  note m = proc_moves [OF wf0 c]
  from c vt have "b' = (if capped then b1\<lparr>dst_size := dst_size b\<rparr> else b1)"
    using decoder_process_call [OF wf True w, of st0 s' b1] call by simp
  then show ?thesis
    using m(1,2) shrink_adv(3,4) [OF wf a, of b1] by (cases capped) simp_all
qed

lemma session_image:
  assumes ok: "decoders_ok I r" and s: "decoder_session mem r d i out"
  shows "v_decoder_process (dec_vtable d) = Some proc \<Longrightarrow> out = map f i"
  using s
proof (induction rule: decoder_session.induct)
  case (process d i out b flush st d' b')
  note inv = session_inv [OF ok process.hyps(1)]
  from inv have "decoder_moved (I (dec_vtable d)) (dec_vtable d) d b d' b'"
    using decoder_codec.process_moves process.hyps(2,3) by blast
  then have "dec_vtable d' = dec_vtable d" by (simp add: decoder_moved_def decoder_inv_def)
  with process.prems have vt: "v_decoder_process (dec_vtable d) = Some proc" by simp
  then have "emitted b b' = map f (consumed b b')"
    using process.hyps(2,3) by (rule decoder_image)
  with process.IH vt show ?case by simp
next
  case (reset_failed d i out opts st d')
  then have "dec_vtable d' = dec_vtable d"
    by (auto simp: zu_decoder_reset_def Let_def split: if_splits prod.splits option.splits)
  with reset_failed show ?case by simp
qed simp_all

end

text \<open>The buffer a one-shot call starts from.\<close>

definition one_shot_buffer :: "byte list \<Rightarrow> byte list \<Rightarrow> zu_buffer" where
  "one_shot_buffer s d =
     \<lparr>src = Some s, src_size = length s, src_pos = 0, dst = Some d, dst_size = length d, dst_pos = 0\<rparr>"

lemma one_shot_buffer_simps [simp]:
  "src_mem (one_shot_buffer s d) = s" "dst_mem (one_shot_buffer s d) = d"
  "src_size (one_shot_buffer s d) = length s" "dst_size (one_shot_buffer s d) = length d"
  "src_pos (one_shot_buffer s d) = 0" "dst_pos (one_shot_buffer s d) = 0"
  "dst (one_shot_buffer s d) = Some d"
  by (simp_all add: one_shot_buffer_def src_mem_def dst_mem_def)

lemma one_shot_buffer_wf:
  "length s \<le> SIZE_MAX \<Longrightarrow> length d \<le> SIZE_MAX \<Longrightarrow> buf_wf (one_shot_buffer s d)"
  by (simp add: buf_wf_def)

text \<open>A process function that is bytewise on one state, which it keeps.\<close>

definition bytewise_at :: "(byte \<Rightarrow> byte) \<Rightarrow> 's process_fn \<Rightarrow> 's option \<Rightarrow> bool" where
  "bytewise_at f proc s \<longleftrightarrow> (\<forall>b flush. buf_wf b \<longrightarrow> proc s b flush =
     (let n = min (avail_in b) (avail_out b)
      in Some (bytewise_status (avail_in b) (avail_out b) flush, s, put_out (map f (take n (in_window b))) (skip_in n b))))"

context bytewise
begin

lemma at: "bytewise_at f proc s"
  using proc_eq by (simp add: bytewise_at_def)

end

text \<open>One call on a whole input, with a ceiling \<open>c\<close> or without.\<close>

lemma decoder_whole_call:
  fixes s t :: "byte list" and h :: "'s zu_decoder"
  assumes len: "length s \<le> SIZE_MAX" "length t \<le> SIZE_MAX"
    and vt: "v_decoder_process (dec_vtable h) = Some proc" and at: "bytewise_at f proc (dec_state h)"
    and fresh: "\<not> dec_finished h" "total_in h = 0" "total_out h = 0"
  defines "room \<equiv> (case decoder_ceiling (dec_opts h) of None \<Rightarrow> length t | Some (c, _) \<Rightarrow> min c (length t))"
  defines "k \<equiv> min (length s) room"
  shows "\<exists>h'. zu_decoder_process h (one_shot_buffer s t) ZU_FINISH =
    Some (if length s \<le> room
            then (if has_flag (do_flags (dec_opts h)) ZU_DEC_EXPECTED_SIZE \<and>
                     length s \<noteq> do_expected_size (dec_opts h) then ZU_ERR_INVALID_DATA else ZU_STREAM_END)
          else (case decoder_ceiling (dec_opts h) of
                  Some (c, x) \<Rightarrow> if c < length t then x else ZU_NEED_OUTPUT
                | None \<Rightarrow> ZU_NEED_OUTPUT),
          h', put_out (map f (take k s)) (skip_in k (one_shot_buffer s t)))"
proof -
  let ?b = "one_shot_buffer s t"
  have wf: "buf_wf ?b" using len by (rule one_shot_buffer_wf)
  have act: "decoder_active h ZU_FINISH" using fresh by (simp add: decoder_active_def zu_int_check_flush_def)
  obtain capped a where w: "decoder_window h ?b = (capped, a)" by fastforce
  have a: "a = room" and capped: "capped \<longleftrightarrow> (\<exists>c x. decoder_ceiling (dec_opts h) = Some (c, x) \<and> c < length t)"
    using w fresh by (auto simp: decoder_window_def room_def Let_def split: option.splits if_splits)
  have room: "room \<le> length t" "\<not> capped \<Longrightarrow> room = length t"
    using capped by (auto simp: room_def split: option.splits)
  let ?w = "if capped then ?b\<lparr>dst_size := dst_pos ?b + a\<rparr> else ?b"
  have wf0: "buf_wf ?w" using shrink_wf [OF wf, of a] wf a room by (simp add: avail_out_wf)
  have av: "avail_in ?w = length s" "avail_out ?w = room" "in_window ?w = s"
    using a room by (auto simp: avail_in_def avail_out_def in_window_def seg_full src_mem_def one_shot_buffer_def)
  let ?st = "bytewise_status (length s) room ZU_FINISH"
  have call: "the (v_decoder_process (dec_vtable h)) (dec_state h) ?w ZU_FINISH =
      Some (?st, dec_state h, put_out (map f (take k s)) (skip_in k ?w))"
    unfolding vt option.sel at [unfolded bytewise_at_def, rule_format, OF wf0] av Let_def k_def ..
  let ?e = "put_out (map f (take k s)) (skip_in k ?b)"
  have k: "k \<le> length s" "k \<le> room" "k \<le> UINT64_MAX" using len by (simp_all add: k_def)
  have restored: "(if capped then (put_out (map f (take k s)) (skip_in k ?w))\<lparr>dst_size := dst_size ?b\<rparr>
      else put_out (map f (take k s)) (skip_in k ?w)) = ?e"
    by (simp add: put_out_def skip_in_def one_shot_buffer_def)
  have ret: "zu_decoder_process h ?b ZU_FINISH =
      Some (decoder_verdict (dec_opts h) k k ?e capped room k ?st,
        h\<lparr>dec_state := dec_state h, total_in := k, total_out := k,
          dec_finished := (?st = ZU_STREAM_END \<or> dec_finished h)\<rparr>, ?e)"
    using decoder_process_call [OF wf act w call] restored fresh k a by (cases capped) simp_all
  have ratio: "\<not> ratio_exceeded (dec_opts h) k k"
    using ratio_exceeded_iff [OF k(3) k(3)] by (cases "do_max_ratio (dec_opts h)") auto
  have src: "src_pos ?e < src_size ?e \<longleftrightarrow> room < length s" by (auto simp: k_def)
  have lim: "do_max_output (dec_opts h) \<noteq> 0 \<Longrightarrow> room \<le> do_max_output (dec_opts h)"
    "has_flag (do_flags (dec_opts h)) ZU_DEC_EXPECTED_SIZE \<Longrightarrow> room \<le> do_expected_size (dec_opts h)"
    by (auto simp: room_def decoder_ceiling_def Let_def min_def)
  have "decoder_verdict (dec_opts h) k k ?e capped room k ?st =
      (if length s \<le> room
            then (if has_flag (do_flags (dec_opts h)) ZU_DEC_EXPECTED_SIZE \<and>
                     length s \<noteq> do_expected_size (dec_opts h) then ZU_ERR_INVALID_DATA else ZU_STREAM_END)
          else (case decoder_ceiling (dec_opts h) of
                  Some (c, x) \<Rightarrow> if c < length t then x else ZU_NEED_OUTPUT
                | None \<Rightarrow> ZU_NEED_OUTPUT))"
  proof (cases "length s \<le> room")
    case True
    then have "k = length s" "?st = ZU_STREAM_END" by (simp_all add: k_def bytewise_status_def)
    with True lim ratio src show ?thesis
      unfolding decoder_verdict_def Let_def by auto
  next
    case False
    then have "k = room" "?st = ZU_NEED_OUTPUT" by (simp_all add: k_def bytewise_status_def)
    with False lim ratio capped show ?thesis
      unfolding decoder_verdict_def Let_def by (auto split: option.splits)
  qed
  with ret show ?thesis by simp
qed

subsection \<open>One-shot results, limits included\<close>

text \<open>The room an output buffer of \<open>cap\<close> bytes offers under the limits of the options, and the
  status of a bytewise decode of \<open>n\<close> bytes.\<close>

definition output_room :: "zu_decoder_opts \<Rightarrow> nat \<Rightarrow> nat" where
  "output_room os cap = (case decoder_ceiling os of None \<Rightarrow> cap | Some (c, _) \<Rightarrow> min c cap)"

definition bytewise_result :: "zu_decoder_opts \<Rightarrow> nat \<Rightarrow> nat \<Rightarrow> zu_status" where
  "bytewise_result os n cap =
     (if n \<le> output_room os cap
      then (if has_flag (do_flags os) ZU_DEC_EXPECTED_SIZE \<and> n \<noteq> do_expected_size os
            then ZU_ERR_INVALID_DATA else ZU_OK)
      else (case decoder_ceiling os of
              Some (c, x) \<Rightarrow> if c < cap then x else ZU_ERR_OUTPUT_LIMIT
            | None \<Rightarrow> ZU_ERR_OUTPUT_LIMIT))"

lemma put_out_one_shot:
  "k \<le> length s \<Longrightarrow> k \<le> length t \<Longrightarrow>
    dst (put_out (map f (take k s)) (skip_in k (one_shot_buffer s t))) = Some (map f (take k s) @ drop k t)"
  by (simp add: put_out_def skip_in_def one_shot_buffer_def write_at_def)

lemma one_shot_ret:
  assumes "handle_new mem r opts = (ZU_OK, Some h)"
    and "one_shot_step (h, one_shot_buffer s t) = Some (Ret (st, h', b))"
  shows "zu_int_one_shot mem r opts (Some s) (length s) (Some t) (length t) = Some (st, Some (dst_pos b), dst b)"
  using assms run_loop_Ret [of one_shot_step, OF assms(2)]
  by (simp add: zu_int_one_shot_def one_shot_buffer_def)

lemma decompress_one_at:
  assumes len: "length s \<le> SIZE_MAX" "length t \<le> SIZE_MAX"
    and new: "zu_decoder_new mem r os = (ZU_OK, Some h)"
    and vt: "v_decoder_process (dec_vtable h) = Some proc" and at: "bytewise_at f proc (dec_state h)"
  defines "k \<equiv> min (length s) (output_room (copy_decoder_opts os) (length t))"
  shows "zu_decompress_one mem r os (Some s) (length s) (Some t) (length t) =
    Some (bytewise_result (copy_decoder_opts os) (length s) (length t), Some k,
          Some (map f (take k s) @ drop k t))"
proof -
  note fresh = new_fields [OF new]
  define room where "room = output_room (dec_opts h) (length t)"
  define st where "st = (if length s \<le> room
            then (if has_flag (do_flags (dec_opts h)) ZU_DEC_EXPECTED_SIZE \<and>
                     length s \<noteq> do_expected_size (dec_opts h) then ZU_ERR_INVALID_DATA else ZU_STREAM_END)
          else (case decoder_ceiling (dec_opts h) of
                  Some (c, x) \<Rightarrow> if c < length t then x else ZU_NEED_OUTPUT
                | None \<Rightarrow> ZU_NEED_OUTPUT))"
  let ?e = "put_out (map f (take k s)) (skip_in k (one_shot_buffer s t))"
  have k: "k = min (length s) room" "k \<le> length s" "k \<le> length t"
    using fresh by (auto simp: k_def room_def output_room_def split: option.splits)
  from decoder_whole_call [OF len vt at] fresh
  obtain h' where call: "zu_decoder_process h (one_shot_buffer s t) ZU_FINISH = Some (st, h', ?e)"
    unfolding st_def room_def output_room_def k(1) by auto
  have full: "dst_pos ?e = dst_size ?e" if "st = ZU_NEED_OUTPUT"
    using that k(2) unfolding st_def room_def output_room_def k(1)
    by (auto split: if_splits option.splits simp: decoder_ceiling_def Let_def)
  have over: "x = ZU_ERR_OUTPUT_LIMIT \<or> x = ZU_ERR_INVALID_DATA" if "decoder_ceiling os' = Some (c, x)" for os' c x
    using that by (auto simp: decoder_ceiling_def Let_def split: if_splits)
  have "one_shot_step (Dec h, one_shot_buffer s t) =
      Some (Ret (bytewise_result (dec_opts h) (length s) (length t), Dec h', ?e))"
    using full over
    unfolding one_shot_step_def handle_process_def prod.case handle.case call
    by (auto simp: bytewise_result_def room_def st_def split: if_splits option.splits)
  then have "zu_int_one_shot mem r (DecOpts os) (Some s) (length s) (Some t) (length t) =
      Some (bytewise_result (dec_opts h) (length s) (length t), Some (dst_pos ?e), dst ?e)"
    by (rule one_shot_ret [rotated]) (simp add: handle_new_def new)
  then show ?thesis
    using fresh k put_out_one_shot [OF k(2,3), of f] by (simp add: zu_decompress_one_def)
qed

lemma compress_one_at:
  assumes len: "length s \<le> SIZE_MAX" "length t \<le> SIZE_MAX"
    and new: "zu_encoder_new mem r os = (ZU_OK, Some h)"
    and vt: "v_encoder_process (e_vtable h) = Some proc" and at: "bytewise_at f proc (e_state h)"
  defines "k \<equiv> min (length s) (length t)"
  shows "zu_compress_one mem r os (Some s) (length s) (Some t) (length t) =
    Some (if length s \<le> length t then ZU_OK else ZU_ERR_OUTPUT_LIMIT, Some k,
          Some (map f (take k s) @ drop k t))"
proof -
  let ?b = "one_shot_buffer s t"
  let ?e = "put_out (map f (take k s)) (skip_in k ?b)"
  have wf: "buf_wf ?b" using len by (rule one_shot_buffer_wf)
  have fresh: "\<not> e_finished h" using new
    by (auto simp: zu_encoder_new_def Let_def split: if_splits prod.splits option.splits)
  have av: "avail_in ?b = length s" "avail_out ?b = length t" "in_window ?b = s"
    by (simp_all add: avail_in_def avail_out_def in_window_def seg_full)
  have k: "k \<le> length s" "k \<le> length t" by (simp_all add: k_def)
  obtain h' where call: "zu_encoder_process h ?b ZU_FINISH =
      Some (bytewise_status (length s) (length t) ZU_FINISH, h', ?e)"
    using fresh buf_wf_check [OF wf] vt at [unfolded bytewise_at_def, rule_format, OF wf]
    by (simp add: zu_encoder_process_def zu_int_check_flush_def Let_def av k_def)
  have "one_shot_step (Enc h, ?b) =
      Some (Ret (if length s \<le> length t then ZU_OK else ZU_ERR_OUTPUT_LIMIT, Enc h', ?e))"
    unfolding one_shot_step_def handle_process_def prod.case handle.case call
    by (auto simp: bytewise_status_def k_def)
  then have "zu_int_one_shot mem r (EncOpts os) (Some s) (length s) (Some t) (length t) =
      Some (if length s \<le> length t then ZU_OK else ZU_ERR_OUTPUT_LIMIT, Some (dst_pos ?e), dst ?e)"
    by (rule one_shot_ret [rotated]) (simp add: handle_new_def new)
  then show ?thesis
    using k put_out_one_shot [OF k, of f] by (simp add: zu_compress_one_def k_def)
qed

context bytewise
begin

lemmas decompress_one_eq = decompress_one_at [OF _ _ _ _ at]
lemmas compress_one_eq = compress_one_at [OF _ _ _ _ at]

end

end
