(* ===== verification/Zu_Checksum.thy ===== *)
theory Zu_Checksum
  imports Zu_Abi
begin

text \<open>
  The two checksums of the vendored miniz that the wrappers in \<^verbatim>\<open>codec_deflate.c\<close> and
  \<^verbatim>\<open>zu_gzip.c\<close> rely on (\<^verbatim>\<open>src/vendor/miniz/miniz.c\<close>, \<^verbatim>\<open>mz_adler32\<close> and the table-driven
  \<^verbatim>\<open>mz_crc32\<close>). The optimised loops are proved equal to the definitions of RFC 1950 and
  RFC 1952, and to compose over any split of the data, which is what the streaming codecs need.
\<close>

subsection \<open>mz_adler32\<close>

definition MZ_ADLER32_INIT :: u32 where
  "MZ_ADLER32_INIT = 1"

text \<open>\<^verbatim>\<open>s1 += b, s2 += s1\<close>, at 32 bits.\<close>

definition adler_add :: "byte \<Rightarrow> u32 \<times> u32 \<Rightarrow> u32 \<times> u32" where
  "adler_add b s = (let s1 = fst s + ucast b in (s1, snd s + s1))"

text \<open>The loop unrolled by eight: \<open>i\<close> counts within the block, \<open>p\<close> is what \<^verbatim>\<open>ptr\<close> points at.\<close>

function adler_unrolled :: "nat \<Rightarrow> nat \<Rightarrow> byte list \<Rightarrow> u32 \<times> u32 \<Rightarrow> nat \<times> byte list \<times> u32 \<times> u32" where
  "adler_unrolled i block_len p s =
     (if i + 7 < block_len
      then adler_unrolled (i + 8) block_len (drop 8 p)
             (adler_add (p ! 7) (adler_add (p ! 6) (adler_add (p ! 5) (adler_add (p ! 4)
               (adler_add (p ! 3) (adler_add (p ! 2) (adler_add (p ! 1) (adler_add (p ! 0) s))))))))
      else (i, p, s))"
  by pat_completeness auto
termination by (relation "measure (\<lambda>(i, n, p, s). n - i)") auto

function adler_rest :: "nat \<Rightarrow> nat \<Rightarrow> byte list \<Rightarrow> u32 \<times> u32 \<Rightarrow> byte list \<times> u32 \<times> u32" where
  "adler_rest i block_len p s =
     (if i < block_len then adler_rest (Suc i) block_len (drop 1 p) (adler_add (p ! 0) s) else (p, s))"
  by pat_completeness auto
termination by (relation "measure (\<lambda>(i, n, p, s). n - i)") auto

function adler_blocks :: "nat \<Rightarrow> nat \<Rightarrow> byte list \<Rightarrow> u32 \<times> u32 \<Rightarrow> u32 \<times> u32" where
  "adler_blocks buf_len block_len p s =
     (if buf_len = 0 then s
      else
        (case adler_unrolled 0 block_len p s of
           (i, p1, s1) \<Rightarrow>
             (case adler_rest i block_len p1 s1 of
                (p2, (a, b)) \<Rightarrow>
                  adler_blocks (buf_len - block_len) 5552 p2 (a mod 65521, b mod 65521))))"
  by pat_completeness auto
termination
  by (relation "measures [\<lambda>(n, k, p, s). n, \<lambda>(n, k, p, s). if k = 0 then 1 else 0]") auto

declare adler_unrolled.simps [simp del] adler_rest.simps [simp del] adler_blocks.simps [simp del]

definition mz_adler32 :: "u32 \<Rightarrow> byte list option \<Rightarrow> u32" where
  "mz_adler32 adler ptr =
     (case ptr of
        None \<Rightarrow> MZ_ADLER32_INIT
      | Some p \<Rightarrow>
          (case adler_blocks (length p) (length p mod 5552) p (adler AND 0xFFFF, drop_bit 16 adler) of
             (s1, s2) \<Rightarrow> push_bit 16 s2 + s1))"

subsection \<open>mz_crc32\<close>

definition s_crc_table :: "u32 list" where
  "s_crc_table =
     [0x00000000, 0x77073096, 0xEE0E612C, 0x990951BA, 0x076DC419, 0x706AF48F, 0xE963A535,
      0x9E6495A3, 0x0EDB8832, 0x79DCB8A4, 0xE0D5E91E, 0x97D2D988, 0x09B64C2B, 0x7EB17CBD,
      0xE7B82D07, 0x90BF1D91, 0x1DB71064, 0x6AB020F2, 0xF3B97148, 0x84BE41DE, 0x1ADAD47D,
      0x6DDDE4EB, 0xF4D4B551, 0x83D385C7, 0x136C9856, 0x646BA8C0, 0xFD62F97A, 0x8A65C9EC,
      0x14015C4F, 0x63066CD9, 0xFA0F3D63, 0x8D080DF5, 0x3B6E20C8, 0x4C69105E, 0xD56041E4,
      0xA2677172, 0x3C03E4D1, 0x4B04D447, 0xD20D85FD, 0xA50AB56B, 0x35B5A8FA, 0x42B2986C,
      0xDBBBC9D6, 0xACBCF940, 0x32D86CE3, 0x45DF5C75, 0xDCD60DCF, 0xABD13D59, 0x26D930AC,
      0x51DE003A, 0xC8D75180, 0xBFD06116, 0x21B4F4B5, 0x56B3C423, 0xCFBA9599, 0xB8BDA50F,
      0x2802B89E, 0x5F058808, 0xC60CD9B2, 0xB10BE924, 0x2F6F7C87, 0x58684C11, 0xC1611DAB,
      0xB6662D3D, 0x76DC4190, 0x01DB7106, 0x98D220BC, 0xEFD5102A, 0x71B18589, 0x06B6B51F,
      0x9FBFE4A5, 0xE8B8D433, 0x7807C9A2, 0x0F00F934, 0x9609A88E, 0xE10E9818, 0x7F6A0DBB,
      0x086D3D2D, 0x91646C97, 0xE6635C01, 0x6B6B51F4, 0x1C6C6162, 0x856530D8, 0xF262004E,
      0x6C0695ED, 0x1B01A57B, 0x8208F4C1, 0xF50FC457, 0x65B0D9C6, 0x12B7E950, 0x8BBEB8EA,
      0xFCB9887C, 0x62DD1DDF, 0x15DA2D49, 0x8CD37CF3, 0xFBD44C65, 0x4DB26158, 0x3AB551CE,
      0xA3BC0074, 0xD4BB30E2, 0x4ADFA541, 0x3DD895D7, 0xA4D1C46D, 0xD3D6F4FB, 0x4369E96A,
      0x346ED9FC, 0xAD678846, 0xDA60B8D0, 0x44042D73, 0x33031DE5, 0xAA0A4C5F, 0xDD0D7CC9,
      0x5005713C, 0x270241AA, 0xBE0B1010, 0xC90C2086, 0x5768B525, 0x206F85B3, 0xB966D409,
      0xCE61E49F, 0x5EDEF90E, 0x29D9C998, 0xB0D09822, 0xC7D7A8B4, 0x59B33D17, 0x2EB40D81,
      0xB7BD5C3B, 0xC0BA6CAD, 0xEDB88320, 0x9ABFB3B6, 0x03B6E20C, 0x74B1D29A, 0xEAD54739,
      0x9DD277AF, 0x04DB2615, 0x73DC1683, 0xE3630B12, 0x94643B84, 0x0D6D6A3E, 0x7A6A5AA8,
      0xE40ECF0B, 0x9309FF9D, 0x0A00AE27, 0x7D079EB1, 0xF00F9344, 0x8708A3D2, 0x1E01F268,
      0x6906C2FE, 0xF762575D, 0x806567CB, 0x196C3671, 0x6E6B06E7, 0xFED41B76, 0x89D32BE0,
      0x10DA7A5A, 0x67DD4ACC, 0xF9B9DF6F, 0x8EBEEFF9, 0x17B7BE43, 0x60B08ED5, 0xD6D6A3E8,
      0xA1D1937E, 0x38D8C2C4, 0x4FDFF252, 0xD1BB67F1, 0xA6BC5767, 0x3FB506DD, 0x48B2364B,
      0xD80D2BDA, 0xAF0A1B4C, 0x36034AF6, 0x41047A60, 0xDF60EFC3, 0xA867DF55, 0x316E8EEF,
      0x4669BE79, 0xCB61B38C, 0xBC66831A, 0x256FD2A0, 0x5268E236, 0xCC0C7795, 0xBB0B4703,
      0x220216B9, 0x5505262F, 0xC5BA3BBE, 0xB2BD0B28, 0x2BB45A92, 0x5CB36A04, 0xC2D7FFA7,
      0xB5D0CF31, 0x2CD99E8B, 0x5BDEAE1D, 0x9B64C2B0, 0xEC63F226, 0x756AA39C, 0x026D930A,
      0x9C0906A9, 0xEB0E363F, 0x72076785, 0x05005713, 0x95BF4A82, 0xE2B87A14, 0x7BB12BAE,
      0x0CB61B38, 0x92D28E9B, 0xE5D5BE0D, 0x7CDCEFB7, 0x0BDBDF21, 0x86D3D2D4, 0xF1D4E242,
      0x68DDB3F8, 0x1FDA836E, 0x81BE16CD, 0xF6B9265B, 0x6FB077E1, 0x18B74777, 0x88085AE6,
      0xFF0F6A70, 0x66063BCA, 0x11010B5C, 0x8F659EFF, 0xF862AE69, 0x616BFFD3, 0x166CCF45,
      0xA00AE278, 0xD70DD2EE, 0x4E048354, 0x3903B3C2, 0xA7672661, 0xD06016F7, 0x4969474D,
      0x3E6E77DB, 0xAED16A4A, 0xD9D65ADC, 0x40DF0B66, 0x37D83BF0, 0xA9BCAE53, 0xDEBB9EC5,
      0x47B2CF7F, 0x30B5FFE9, 0xBDBDF21C, 0xCABAC28A, 0x53B39330, 0x24B4A3A6, 0xBAD03605,
      0xCDD70693, 0x54DE5729, 0x23D967BF, 0xB3667A2E, 0xC4614AB8, 0x5D681B02, 0x2A6F2B94,
      0xB40BBE37, 0xC30C8EA1, 0x5A05DF1B, 0x2D02EF8D]"

definition crc_step :: "byte \<Rightarrow> u32 \<Rightarrow> u32" where
  "crc_step b c = drop_bit 8 c XOR s_crc_table ! unat ((c XOR ucast b) AND 0xFF)"

text \<open>Four bytes per turn, then one per turn.\<close>

fun crc_loop :: "byte list \<Rightarrow> u32 \<Rightarrow> u32" where
  "crc_loop (b0 # b1 # b2 # b3 # p) c = crc_loop p (crc_step b3 (crc_step b2 (crc_step b1 (crc_step b0 c))))"
| "crc_loop (b # p) c = crc_loop p (crc_step b c)"
| "crc_loop [] c = c"

definition mz_crc32 :: "u32 \<Rightarrow> byte list \<Rightarrow> u32" where
  "mz_crc32 crc p = NOT (crc_loop p (crc XOR 0xFFFFFFFF))"

subsection \<open>Adler-32 is the checksum of RFC 1950\<close>

text \<open>The two sums over the naturals, without any reduction.\<close>

definition adler_sum :: "byte list \<Rightarrow> nat \<times> nat \<Rightarrow> nat \<times> nat" where
  "adler_sum = fold (\<lambda>b (a, c). (a + unat b, c + (a + unat b)))"

lemma adler_sum_simps [simp]:
  "adler_sum [] s = s" "adler_sum (b # bs) (x, y) = adler_sum bs (x + unat b, y + (x + unat b))"
  by (simp_all add: adler_sum_def)

lemma adler_sum_append: "adler_sum (p @ q) s = adler_sum q (adler_sum p s)"
  by (simp add: adler_sum_def)

lemma unat_byte_le: "unat (b :: byte) \<le> 255"
proof -
  have "unat b < 2 ^ LENGTH(8)" by (rule unsigned_less)
  then show ?thesis by simp
qed

lemma adler_sum_bound:
  "adler_sum bs (x, y) = (u, w) \<Longrightarrow>
    u \<le> x + 255 * length bs \<and> 2 * w \<le> 2 * y + 2 * length bs * x + 255 * (length bs * (length bs + 1))"
proof (induction bs arbitrary: x y)
  case (Cons b bs)
  have b: "unat b \<le> 255" by (rule unat_byte_le)
  let ?n = "length bs"
  have "2 * ?n * (x + unat b) \<le> 2 * ?n * x + 510 * ?n" using b by (simp add: algebra_simps)
  moreover have "255 * (Suc ?n * (Suc ?n + 1)) = 255 * (?n * (?n + 1)) + 510 * ?n + 510"
    "2 * Suc ?n * x = 2 * ?n * x + 2 * x" by (simp_all add: algebra_simps)
  ultimately show ?case using b Cons.IH [of "x + unat b" "y + (x + unat b)"] Cons.prems
    unfolding list.size add_Suc_right adler_sum_simps by simp
qed simp

lemma adler_sum_mod:
  "fst (adler_sum bs (x mod m, y mod m)) mod m = fst (adler_sum bs (x, y)) mod m \<and>
   snd (adler_sum bs (x mod m, y mod m)) mod m = snd (adler_sum bs (x, y)) mod m"
proof -
  have "x mod m = x' mod m \<Longrightarrow> y mod m = y' mod m \<Longrightarrow>
      fst (adler_sum bs (x, y)) mod m = fst (adler_sum bs (x', y')) mod m \<and>
      snd (adler_sum bs (x, y)) mod m = snd (adler_sum bs (x', y')) mod m" for x y x' y'
  proof (induction bs arbitrary: x y x' y')
    case (Cons b bs)
    have a: "(x + unat b) mod m = (x' + unat b) mod m" using Cons.prems(1) by (rule mod_add_cong) simp
    have "(y + (x + unat b)) mod m = (y' + (x' + unat b)) mod m" using Cons.prems(2) a by (rule mod_add_cong)
    from Cons.IH [OF a this] show ?case by simp
  qed simp
  from this [of "x mod m" x "y mod m" y] show ?thesis by simp
qed

text \<open>One block of at most 5552 bytes cannot wrap a 32-bit sum.\<close>

lemma unat_add_u32: "unat (x :: u32) + unat (y :: u32) < 4294967296 \<Longrightarrow> unat (x + y) = unat x + unat y"
  by (subst unat_add_lem [symmetric]) simp

lemma unat_ucast_byte: "unat (ucast (b :: byte) :: u32) = unat b"
  by transfer simp

lemma adler_sum_mono: "x \<le> fst (adler_sum bs (x, y)) \<and> y \<le> snd (adler_sum bs (x, y))"
proof (induction bs arbitrary: x y)
  case (Cons b bs)
  from Cons.IH [of "x + unat b" "y + (x + unat b)"] show ?case by simp
qed simp

lemma adler_block_exact:
  fixes a c :: u32
  assumes "adler_sum bs (unat a, unat c) = (u, w)" "u < 4294967296" "w < 4294967296"
  shows "unat (fst (fold adler_add bs (a, c))) = u \<and> unat (snd (fold adler_add bs (a, c))) = w"
  using assms
proof (induction bs arbitrary: a c)
  case (Cons b bs)
  have rest: "adler_sum bs (unat a + unat b, unat c + (unat a + unat b)) = (u, w)"
    using Cons.prems(1) by simp
  have small: "unat a + unat b < 4294967296" "unat c + (unat a + unat b) < 4294967296"
    using adler_sum_mono [of "unat a + unat b" bs "unat c + (unat a + unat b)"] rest Cons.prems(2,3) by simp_all
  have e1: "unat (a + ucast b) = unat a + unat b"
    using small(1) by (subst unat_add_u32) (simp_all add: unat_ucast_byte)
  have e2: "unat (c + (a + ucast b)) = unat c + (unat a + unat b)"
    using small(2) e1 by (subst unat_add_u32) simp_all
  have "adler_sum bs (unat (a + ucast b), unat (c + (a + ucast b))) = (u, w)"
    using rest e1 e2 by simp
  from Cons.IH [OF this Cons.prems(2,3)] show ?case by (simp add: adler_add_def Let_def)
qed simp

lemma adler_rest_eq:
  assumes "i \<le> n" "n - i \<le> length p"
  shows "adler_rest i n p s = (drop (n - i) p, fold adler_add (take (n - i) p) s)"
  using assms
proof (induction i n p s rule: adler_rest.induct)
  case (1 i n p s)
  show ?case
  proof (cases "i < n")
    case True
    then obtain x q where p: "p = x # q" using 1(3) by (cases p) auto
    with 1(1) [OF True] 1(3) True have "adler_rest (Suc i) n q (adler_add x s) =
        (drop (n - Suc i) q, fold adler_add (take (n - Suc i) q) (adler_add x s))" by simp
    moreover have "n - i = Suc (n - Suc i)" using True by simp
    ultimately show ?thesis using True by (simp add: adler_rest.simps [of i] p)
  next
    case False
    then show ?thesis using 1(2) by (subst adler_rest.simps) simp
  qed
qed

lemma adler_unrolled_eq:
  assumes "i \<le> n" "n - i \<le> length p" "adler_unrolled i n p s = (i', p', s')"
  shows "i \<le> i' \<and> i' \<le> n \<and> p' = drop (i' - i) p \<and> s' = fold adler_add (take (i' - i) p) s"
  using assms
proof (induction i n p s rule: adler_unrolled.induct)
  case (1 i n p s)
  show ?case
  proof (cases "i + 7 < n")
    case True
    have "8 \<le> length p" using True 1(3) by simp
    then have "length p = Suc (Suc (Suc (Suc (Suc (Suc (Suc (Suc (length p - 8))))))))" by simp
    then obtain b0 b1 b2 b3 b4 b5 b6 b7 q where p: "p = b0 # b1 # b2 # b3 # b4 # b5 # b6 # b7 # q"
      by (auto simp: length_Suc_conv)
    let ?s = "adler_add b7 (adler_add b6 (adler_add b5 (adler_add b4 (adler_add b3 (adler_add b2 (adler_add b1 (adler_add b0 s)))))))"
    have eight: "drop 8 p = q" "p ! 0 = b0" "p ! 1 = b1" "p ! 2 = b2" "p ! 3 = b3" "p ! 4 = b4" "p ! 5 = b5"
      "p ! 6 = b6" "p ! 7 = b7" "length p = length q + 8" by (simp_all add: p)
    have "adler_unrolled (i + 8) n q ?s = (i', p', s')"
      using 1(4) True unfolding adler_unrolled.simps [of i] eight by simp
    then have IH: "i + 8 \<le> i'" "i' \<le> n" "p' = drop (i' - (i + 8)) q" "s' = fold adler_add (take (i' - (i + 8)) q) ?s"
      using 1(1) [OF True] True 1(3) unfolding eight by simp_all
    have "i' - i = Suc (Suc (Suc (Suc (Suc (Suc (Suc (Suc (i' - (i + 8)))))))))" using IH(1) by simp
    with IH show ?thesis by (simp add: p)
  qed (use 1(2,4) in \<open>simp add: adler_unrolled.simps [of i]\<close>)
qed

text \<open>One turn of the block loop, and the whole of it.\<close>

lemma adler_block_turn:
  assumes "n \<noteq> 0" "k \<le> length p"
  shows "adler_blocks n k p s =
    (case fold adler_add (take k p) s of (a, b) \<Rightarrow> adler_blocks (n - k) 5552 (drop k p) (a mod 65521, b mod 65521))"
proof -
  obtain i p1 s1 where u: "adler_unrolled 0 k p s = (i, p1, s1)" by (metis surj_pair)
  from adler_unrolled_eq [OF _ _ u] assms
  have i: "i \<le> k" "p1 = drop i p" "s1 = fold adler_add (take i p) s" by simp_all
  have r: "adler_rest i k p1 s1 = (drop (k - i) p1, fold adler_add (take (k - i) p1) s1)"
    using i assms by (intro adler_rest_eq) simp_all
  have "take i p @ take (k - i) (drop i p) = take k p" using i(1) by (metis le_add_diff_inverse take_add)
  then have "fold adler_add (take (k - i) p1) s1 = fold adler_add (take k p) s"
    unfolding i by (metis comp_apply fold_append)
  moreover have "drop (k - i) p1 = drop k p" using i by simp
  ultimately show ?thesis
    using assms u r by (subst adler_blocks.simps) (simp split: prod.splits)
qed

definition adler_reduced :: "nat \<times> nat \<Rightarrow> nat \<times> nat" where
  "adler_reduced = map_prod (\<lambda>x. x mod 65521) (\<lambda>x. x mod 65521)"

lemma adler_sum_reduced: "adler_reduced (adler_sum p (adler_reduced s)) = adler_reduced (adler_sum p s)"
  using adler_sum_mod [of p "fst s" 65521 "snd s"]
  by (cases s) (simp add: adler_reduced_def map_prod_def split_beta)

lemma adler_block_word:
  fixes a c :: u32
  assumes "unat a < 65536" "unat c < 65536" "length bs \<le> 5552" "fold adler_add bs (a, c) = (a', c')"
  shows "(unat (a' mod 65521), unat (c' mod 65521)) = adler_reduced (adler_sum bs (unat a, unat c))"
proof -
  obtain u w where uw: "adler_sum bs (unat a, unat c) = (u, w)" by fastforce
  let ?n = "length bs"
  from adler_sum_bound [OF uw] have b: "u \<le> unat a + 255 * ?n"
    "2 * w \<le> 2 * unat c + 2 * ?n * unat a + 255 * (?n * (?n + 1))" by simp_all
  have "2 * ?n * unat a \<le> 2 * 5552 * 65535" "?n * (?n + 1) \<le> 5552 * 5553"
    using assms by (intro mult_le_mono; simp)+
  with b assms have "u < 4294967296" "w < 4294967296" by simp_all
  from adler_block_exact [OF uw this] assms(4) have "unat a' = u" "unat c' = w" by simp_all
  then show ?thesis by (simp add: uw adler_reduced_def unat_mod)
qed

lemma adler_reduced_word:
  fixes a c :: u32
  assumes "(unat a, unat c) = adler_reduced s"
  shows "unat a < 65521" "unat c < 65521"
  using assms by (cases s, simp add: adler_reduced_def)+

text \<open>The full blocks, which start from reduced sums.\<close>

lemma adler_full_blocks:
  fixes a c :: u32
  assumes "length p mod 5552 = 0" "unat a < 65521" "unat c < 65521"
  shows "map_prod unat unat (adler_blocks (length p) 5552 p (a, c)) =
    adler_reduced (adler_sum p (unat a, unat c))"
  using assms
proof (induction p arbitrary: a c rule: length_induct)
  case (1 p)
  show ?case
  proof (cases "p = []")
    case True
    with 1(3,4) show ?thesis by (simp add: adler_blocks.simps adler_reduced_def)
  next
    case False
    with 1(2) have len: "5552 \<le> length p" by (metis dvd_imp_le length_greater_0_conv mod_eq_0_iff_dvd)
    obtain a' c' where f: "fold adler_add (take 5552 p) (a, c) = (a', c')" by fastforce
    have w: "(unat (a' mod 65521), unat (c' mod 65521)) =
        adler_reduced (adler_sum (take 5552 p) (unat a, unat c))"
      using 1(3,4) by (intro adler_block_word [OF _ _ _ f]) simp_all
    have "length (drop 5552 p) < length p" "length (drop 5552 p) mod 5552 = 0"
      using len 1(2) by (simp_all add: le_mod_geq)
    with 1(1) [rule_format, of "drop 5552 p" "a' mod 65521" "c' mod 65521"] adler_reduced_word [OF w]
    have "map_prod unat unat (adler_blocks (length p - 5552) 5552 (drop 5552 p) (a' mod 65521, c' mod 65521)) =
        adler_reduced (adler_sum (drop 5552 p) (unat (a' mod 65521), unat (c' mod 65521)))" by simp
    also have "\<dots> = adler_reduced (adler_sum p (unat a, unat c))"
      unfolding w adler_sum_reduced by (simp add: adler_sum_append [symmetric])
    finally show ?thesis
      using False len by (simp add: adler_block_turn f)
  qed
qed

text \<open>Adler-32 as RFC 1950 defines it: the two sums modulo 65521.\<close>

definition adler32_spec :: "byte list \<Rightarrow> nat \<times> nat \<Rightarrow> nat" where
  "adler32_spec p s = (case adler_reduced (adler_sum p s) of (a, b) \<Rightarrow> b * 65536 + a)"

lemma unat_join16:
  fixes a b :: u32
  assumes "unat a < 65536" "unat b < 65536"
  shows "unat (push_bit 16 b + a) = unat b * 65536 + unat a"
proof -
  have "unat (push_bit 16 b) = unat b * 65536"
    using assms(2) by (simp add: push_bit_eq_mult unat_word_ariths(2))
  with assms show ?thesis by (subst unat_add_u32) simp_all
qed

lemma nat_and_low16: "(x :: nat) AND 65535 = x mod 65536"
proof -
  have "x AND mask 16 = take_bit 16 x" by (simp only: take_bit_eq_mask)
  then show ?thesis by (simp add: take_bit_eq_mod mask_eq_exp_minus_1)
qed

lemma unat_halves:
  "unat ((x :: u32) AND 0xFFFF) = unat x mod 65536" "unat (drop_bit 16 x) = unat x div 65536"
  by (simp_all add: unsigned_and_eq nat_and_low16 drop_bit_eq_div unat_div)

lemma mz_adler32_eq:
  assumes "p \<noteq> []"
  shows "unat (mz_adler32 adler (Some p)) = adler32_spec p (unat adler mod 65536, unat adler div 65536)"
proof -
  let ?a = "adler AND 0xFFFF" and ?c = "drop_bit 16 adler" and ?k = "length p mod 5552"
  have lt: "unat adler < 2 ^ LENGTH(32)" by (rule unsigned_less)
  then have ac: "unat ?a < 65536" "unat ?c < 65536" by (simp_all add: unat_halves less_mult_imp_div_less)
  obtain a' c' where f: "fold adler_add (take ?k p) (?a, ?c) = (a', c')" by fastforce
  have k: "?k \<le> length p" "length (take ?k p) \<le> 5552" "length (drop ?k p) mod 5552 = 0"
    by (simp_all add: min.coboundedI2 less_imp_le)
  note w = adler_block_word [OF ac k(2) f]
  have "map_prod unat unat (adler_blocks (length p) ?k p (?a, ?c)) =
      adler_reduced (adler_sum (drop ?k p) (unat (a' mod 65521), unat (c' mod 65521)))"
    using assms adler_full_blocks [OF k(3) adler_reduced_word [OF w]] by (simp add: adler_block_turn k f)
  also have "\<dots> = adler_reduced (adler_sum p (unat ?a, unat ?c))"
    unfolding w adler_sum_reduced by (simp add: adler_sum_append [symmetric])
  finally have e: "map_prod unat unat (adler_blocks (length p) ?k p (?a, ?c)) =
      adler_reduced (adler_sum p (unat ?a, unat ?c))" .
  obtain s1 s2 where s: "adler_blocks (length p) ?k p (?a, ?c) = (s1, s2)" by fastforce
  with e have r: "(unat s1, unat s2) = adler_reduced (adler_sum p (unat ?a, unat ?c))" by simp
  from adler_reduced_word [OF this] have "unat (push_bit 16 s2 + s1) = unat s2 * 65536 + unat s1"
    by (intro unat_join16) simp_all
  with s r [symmetric] show ?thesis
    by (simp add: mz_adler32_def adler32_spec_def unat_halves)
qed

text \<open>Feeding the data in two pieces is feeding it at once.\<close>

lemma mz_adler32_Nil: "mz_adler32 adler (Some []) = adler"
proof -
  have lt: "unat adler < 2 ^ LENGTH(32)" by (rule unsigned_less)
  then have "unat (push_bit 16 (drop_bit 16 adler) + (adler AND 0xFFFF)) = unat adler"
    by (subst unat_join16) (simp_all add: unat_halves less_mult_imp_div_less)
  then show ?thesis by (simp add: mz_adler32_def adler_blocks.simps word_unat_eq_iff)
qed

lemma mz_adler32_append:
  "mz_adler32 (mz_adler32 adler (Some p)) (Some q) = mz_adler32 adler (Some (p @ q))"
proof (cases "p = [] \<or> q = []")
  case True
  then show ?thesis by (auto simp: mz_adler32_Nil)
next
  case False
  let ?s = "(unat adler mod 65536, unat adler div 65536)" and ?m = "mz_adler32 adler (Some p)"
  obtain a b where ab: "adler_reduced (adler_sum p ?s) = (a, b)" by fastforce
  then have "a < 65521" "b < 65521"
    by (auto simp: adler_reduced_def map_prod_def split: prod.splits)
  moreover have "unat ?m = b * 65536 + a" using False ab by (simp add: mz_adler32_eq adler32_spec_def)
  ultimately have "(unat ?m mod 65536, unat ?m div 65536) = adler_reduced (adler_sum p ?s)" by (simp add: ab)
  then have "unat (mz_adler32 ?m (Some q)) = unat (mz_adler32 adler (Some (p @ q)))"
    using False by (simp add: mz_adler32_eq adler32_spec_def adler_sum_append adler_sum_reduced)
  then show ?thesis by (simp only: word_unat_eq_iff)
qed

subsection \<open>CRC-32 is the remainder of RFC 1952\<close>

text \<open>One bit of the reflected division by the polynomial \<open>0xEDB88320\<close>, and one byte.\<close>

definition crc_bit :: "u32 \<Rightarrow> u32" where
  "crc_bit c = (if bit c 0 then drop_bit 1 c XOR 0xEDB88320 else drop_bit 1 c)"

definition crc_byte :: "byte \<Rightarrow> u32 \<Rightarrow> u32" where
  "crc_byte b c = (crc_bit ^^ 8) (c XOR ucast b)"

definition crc32_spec :: "byte list \<Rightarrow> u32 \<Rightarrow> u32" where
  "crc32_spec p c = NOT (fold crc_byte p (NOT c))"


definition crc8 :: "u32 \<Rightarrow> u32" where
  "crc8 c = crc_bit (crc_bit (crc_bit (crc_bit (crc_bit (crc_bit (crc_bit (crc_bit c)))))))"


lemma crc_bit_num:
  "crc_bit 0 = 0" "crc_bit 1 = 0xEDB88320"
  "crc_bit (numeral n) = (if bit (numeral n :: u32) 0 then drop_bit 1 (numeral n) XOR 0xEDB88320 else drop_bit 1 (numeral n))"
  by (simp_all add: crc_bit_def)

lemma crc8_eq: "crc8 c = (crc_bit ^^ 8) c"
  by (simp add: crc8_def numeral_eq_Suc)

fun crc_table_ok :: "u32 \<Rightarrow> u32 list \<Rightarrow> bool" where
  "crc_table_ok i [] = True"
| "crc_table_ok i (x # xs) = (x = crc8 i \<and> crc_table_ok (i + 1) xs)"

lemma crc_table_ok_nth: "crc_table_ok i xs \<Longrightarrow> k < length xs \<Longrightarrow> xs ! k = crc8 (i + word_of_nat k)"
  by (induction xs arbitrary: i k) (auto simp: nth_Cons' word_of_nat_eq_0_iff add.assoc split: nat.splits)

lemma s_crc_table_chunk0: "crc_table_ok 0 (take 64 (drop 0 s_crc_table))"
  by (simp add: s_crc_table_def crc8_def crc_bit_num)

lemma s_crc_table_chunk1: "crc_table_ok 64 (take 64 (drop 64 s_crc_table))"
  by (simp add: s_crc_table_def crc8_def crc_bit_num)

lemma s_crc_table_chunk2: "crc_table_ok 128 (take 64 (drop 128 s_crc_table))"
  by (simp add: s_crc_table_def crc8_def crc_bit_num)

lemma s_crc_table_chunk3: "crc_table_ok 192 (take 64 (drop 192 s_crc_table))"
  by (simp add: s_crc_table_def crc8_def crc_bit_num)

lemmas s_crc_table_chunks = s_crc_table_chunk0 s_crc_table_chunk1 s_crc_table_chunk2 s_crc_table_chunk3

lemma crc_table_ok_append:
  "crc_table_ok i (xs @ ys) \<longleftrightarrow> crc_table_ok i xs \<and> crc_table_ok (i + word_of_nat (length xs)) ys"
  by (induction xs arbitrary: i) (simp_all add: add.assoc)

lemma s_crc_table_length: "length s_crc_table = 256"
  by (simp add: s_crc_table_def)

lemma s_crc_table_ok: "crc_table_ok 0 s_crc_table"
proof -
  let ?t = "\<lambda>n. take 64 (drop n s_crc_table)"
  have "s_crc_table = ?t 0 @ ?t 64 @ ?t 128 @ ?t 192"
    using append_take_drop_id [of 64 "drop 64 s_crc_table"] append_take_drop_id [of 64 "drop 128 s_crc_table"]
    by (simp add: s_crc_table_length)
  moreover have "crc_table_ok 0 (?t 0 @ ?t 64 @ ?t 128 @ ?t 192)"
    using s_crc_table_chunks by (simp add: crc_table_ok_append s_crc_table_length)
  ultimately show ?thesis by (rule ssubst)
qed

lemma s_crc_table_nth: "k < 256 \<Longrightarrow> s_crc_table ! k = crc8 (word_of_nat k)"
  using crc_table_ok_nth [OF s_crc_table_ok, of k] by (simp add: s_crc_table_length)

text \<open>The division is linear, so a byte can be split off the register.\<close>

lemma crc_bit_xor: "crc_bit (x XOR y) = crc_bit x XOR crc_bit y"
  by (auto simp: crc_bit_def bit_xor_iff drop_bit_xor xor.assoc xor.left_commute xor.commute intro: bit_eqI)

lemma crc_bits_xor: "(crc_bit ^^ n) (x XOR y) = (crc_bit ^^ n) x XOR (crc_bit ^^ n) y"
  by (induction n) (simp_all add: crc_bit_xor)

lemma crc_bits_high:
  "(\<And>i. i < n \<Longrightarrow> \<not> bit x i) \<Longrightarrow> (crc_bit ^^ n) x = drop_bit n x"
proof (induction n)
  case (Suc n)
  then have "(crc_bit ^^ Suc n) x = crc_bit (drop_bit n x)" by simp
  also have "\<dots> = drop_bit 1 (drop_bit n x)" using Suc.prems [of n] by (simp add: crc_bit_def bit_drop_bit_eq)
  finally show ?case by simp
qed simp

lemma crc_step_eq: "crc_step b c = crc_byte b c"
proof -
  define m :: u32 where "m = mask 8"
  have m: "0xFF = m" by (simp add: m_def mask_eq_exp_minus_1)
  let ?x = "c XOR ucast b" and ?lo = "(c XOR ucast b) AND m" and ?hi = "(c XOR ucast b) AND NOT m"
  have low: "bit m i \<longleftrightarrow> i < 8" for i by (auto simp: m_def bit_mask_iff)
  have split: "?x = ?hi XOR ?lo" by (rule bit_eqI) (auto simp: bit_xor_iff bit_and_iff bit_not_iff)
  have hi: "(crc_bit ^^ 8) ?hi = drop_bit 8 ?hi"
    by (rule crc_bits_high) (simp add: bit_and_iff bit_not_iff low)
  have drop: "drop_bit 8 ?hi = drop_bit 8 c"
    by (rule bit_eqI) (auto simp: bit_drop_bit_eq bit_and_iff bit_not_iff bit_xor_iff low bit_ucast_iff
        dest: bit_imp_le_length)
  have "?lo \<le> m" by (rule word_and_le1)
  then have "unat ?lo < 256" by (simp add: word_le_nat_alt m [symmetric])
  then have "s_crc_table ! unat ?lo = (crc_bit ^^ 8) ?lo" by (simp add: s_crc_table_nth crc8_eq)
  moreover have "(crc_bit ^^ 8) ?x = drop_bit 8 c XOR (crc_bit ^^ 8) ?lo"
    using crc_bits_xor [of 8 ?hi ?lo] by (simp only: split [symmetric] hi drop)
  ultimately show ?thesis by (simp only: crc_step_def crc_byte_def m)
qed

lemma crc_loop_eq: "crc_loop p c = fold crc_byte p c"
  by (induction p c rule: crc_loop.induct) (simp_all add: crc_step_eq)

lemma mz_crc32_eq: "mz_crc32 c p = crc32_spec p c"
proof -
  have "(0xFFFFFFFF :: u32) = - 1" by simp
  then have "c XOR 0xFFFFFFFF = NOT c" by (simp only: bit.xor_one_right)
  then show ?thesis by (simp add: mz_crc32_def crc32_spec_def crc_loop_eq)
qed

lemma mz_crc32_append: "mz_crc32 (mz_crc32 c p) q = mz_crc32 c (p @ q)"
  by (simp add: mz_crc32_eq crc32_spec_def)

lemma mz_crc32_Nil [simp]: "mz_crc32 c [] = c"
  by (simp add: mz_crc32_eq crc32_spec_def)

end
