(* ===== verification/Zu_Guarantees.thy ===== *)
theory Zu_Guarantees
  imports Codec_Identity Zu_Checksum
begin

unbundle bit_operations_syntax

text \<open>
  The guarantees of the core (\<^verbatim>\<open>zu_status.c\<close>, \<^verbatim>\<open>zu_buf.c\<close>, \<^verbatim>\<open>zu_registry.c\<close>, \<^verbatim>\<open>zu_stream.c\<close>)
  and of the two bytewise codecs, stated over the definitions of the earlier theories. A
  guarantee about handles holds over any registry whose codecs keep the cursor discipline;
  its witness runs the model on a registry of the identity codec and the satellite codec
  \<^verbatim>\<open>xor5a\<close>.
\<close>

subsection \<open>A registry with two codecs\<close>
definition mem_ok :: alloc where
  "mem_ok what n = True"

definition demo_reg :: "unit zu_registry" where
  "demo_reg = snd (register_list [zu_int_codec_identity, xor5a_vtable] zu_registry_init)"

lemma bytewise_vtables_ok:
  "vtable_ok zu_int_codec_identity" "vtable_ok xor5a_vtable"
  "vtables_apart zu_int_codec_identity xor5a_vtable"
  by code_simp+

lemma demo_reg_table: "reg_table demo_reg = [zu_int_codec_identity, xor5a_vtable]"
  using bytewise_vtables_ok
  by (simp add: demo_reg_def zu_register_codec_eq zu_registry_init_def ZU_INT_REGISTRY_CAP_def)

lemma demo_reg_wf: "registry_wf demo_reg"
  using bytewise_vtables_ok demo_reg_table
  by (simp add: demo_reg_def zu_register_codec_eq zu_registry_init_def ZU_INT_REGISTRY_CAP_def
      registry_wf_def u64_add_def)

lemma demo_decoders: "decoders_ok (\<lambda>_ _. True) demo_reg"
  by (simp add: decoders_ok_def demo_reg_table identity_dec.decoder_codec_axioms xor5a_dec.decoder_codec_axioms)

lemma demo_encoders: "encoders_ok (\<lambda>_ _. True) demo_reg"
  by (simp add: encoders_ok_def demo_reg_table identity_enc.encoder_codec_axioms xor5a_enc.encoder_codec_axioms)

text \<open>A decoder of \<^verbatim>\<open>xor5a\<close> with every limit set, and a call that runs it to its end.\<close>

definition demo_opts :: zu_decoder_opts where
  "demo_opts = \<lparr>do_struct_size = 32, do_codec = 1024, do_max_output = 4, do_max_ratio = 2,
     do_flags = ZU_DEC_EXPECTED_SIZE OR ZU_DEC_REJECT_TRAILING, do_expected_size = 3\<rparr>"

definition demo_dec :: "unit zu_decoder" where
  "demo_dec = the (snd (zu_decoder_new mem_ok demo_reg demo_opts))"

definition demo_buf :: zu_buffer where
  "demo_buf = one_shot_buffer [1, 2, 3] [0, 0, 0, 0, 0]"

definition demo_after :: "unit zu_decoder" where
  "demo_after = fst (snd (the (zu_decoder_process demo_dec demo_buf ZU_FINISH)))"

definition demo_buf_after :: zu_buffer where
  "demo_buf_after = snd (snd (the (zu_decoder_process demo_dec demo_buf ZU_FINISH)))"

lemma demo_dec_new: "zu_decoder_new mem_ok demo_reg demo_opts = (ZU_OK, Some demo_dec)"
proof -
  have "fst (zu_decoder_new mem_ok demo_reg demo_opts) = ZU_OK" "snd (zu_decoder_new mem_ok demo_reg demo_opts) \<noteq> None"
    by code_simp+
  then show ?thesis unfolding demo_dec_def by (cases "zu_decoder_new mem_ok demo_reg demo_opts") auto
qed

lemma demo_session: "decoder_session mem_ok demo_reg demo_dec [] []"
  by (rule decoder_session.new [OF demo_dec_new])

lemma demo_buf_wf: "buf_wf demo_buf"
  unfolding demo_buf_def by (intro one_shot_buffer_wf) (simp_all add: UINT64_MAX_def)

lemma demo_call: "zu_decoder_process demo_dec demo_buf ZU_FINISH = Some (ZU_STREAM_END, demo_after, demo_buf_after)"
proof -
  have "case zu_decoder_process demo_dec demo_buf ZU_FINISH of Some (st, _) \<Rightarrow> st = ZU_STREAM_END | None \<Rightarrow> False"
    by code_simp
  then show ?thesis unfolding demo_after_def demo_buf_after_def by (auto split: option.splits)
qed

lemma demo_moved: "consumed demo_buf demo_buf_after = [1, 2, 3]" "emitted demo_buf demo_buf_after = [0x5B, 0x58, 0x59]"
  by code_simp+

lemma demo_session_after: "decoder_session mem_ok demo_reg demo_after [1, 2, 3] [0x5B, 0x58, 0x59]"
  using decoder_session.process [OF demo_session demo_buf_wf demo_call] demo_moved by simp

lemma demo_fields:
  "\<not> dec_finished demo_dec" "do_max_output (dec_opts demo_after) = 4" "do_max_output (dec_opts demo_dec) = 4"
  "do_max_ratio (dec_opts demo_dec) = 2" "do_expected_size (dec_opts demo_dec) = 3"
  "has_flag (do_flags (dec_opts demo_dec)) ZU_DEC_EXPECTED_SIZE"
  "has_flag (do_flags (dec_opts demo_dec)) ZU_DEC_REJECT_TRAILING"
  by code_simp+

subsection \<open>Decoder sessions\<close>

text \<open>C1: whatever the codec, the sizes of the buffers and the order of the calls, a decoder that was
  given a \<^verbatim>\<open>max_output\<close> never delivers more than that many bytes.\<close>

theorem session_output_capped:
  assumes "decoders_ok I r" "decoder_session mem r d i out" "do_max_output (dec_opts d) \<noteq> 0"
  shows "length out \<le> do_max_output (dec_opts d)"
  by (rule session_capped(1) [OF assms])

theorem session_output_capped_witness:
  "length [0x5B, 0x58, 0x59 :: byte] \<le> do_max_output (dec_opts demo_after)"
  by (rule session_output_capped [OF demo_decoders demo_session_after]) (simp add: demo_fields)





text \<open>C27: \<^verbatim>\<open>zu_decoder_process\<close> returns for every well-formed buffer and every flush argument; it
  moves the cursors forward within the caller's sizes, leaves the input, the sizes and the
  memory outside the output window as they were, and its counters account for every byte.\<close>

theorem decoder_call_contract:
  assumes "decoders_ok I r" "decoder_session mem r d i out" "buf_wf b"
  shows "\<exists>st d' b'. zu_decoder_process d b flush = Some (st, d', b') \<and> buf_adv b b' \<and> buf_wf b' \<and>
    total_in d' = u64_of (length (i @ consumed b b')) \<and> total_out d' = u64_of (length (out @ emitted b b'))"
proof -
  from session_inv [OF assms(1,2)] obtain st d' b' where c: "zu_decoder_process d b flush = Some (st, d', b')"
    and m: "decoder_moved (I (dec_vtable d)) (dec_vtable d) d b d' b'"
    using decoder_codec.process_moved [OF _ _ assms(3)] by metis
  have "session_counts d' (i @ consumed b b') (out @ emitted b b')"
    using session_inv [OF assms(1) decoder_session.process [OF assms(2,3) c]] by blast
  with c m assms(3) show ?thesis by (auto simp: session_counts_def decoder_moved_def intro: buf_adv_wf)
qed

theorem decoder_call_contract_witness:
  "\<exists>st d' b'. zu_decoder_process demo_after demo_buf_after ZU_RUN = Some (st, d', b') \<and>
    buf_adv demo_buf_after b' \<and> buf_wf b' \<and>
    total_in d' = u64_of (length ([1, 2, 3] @ consumed demo_buf_after b')) \<and>
    total_out d' = u64_of (length ([0x5B, 0x58, 0x59] @ emitted demo_buf_after b'))"
proof (rule decoder_call_contract [OF demo_decoders demo_session_after])
  show "buf_wf demo_buf_after" by code_simp
qed

text \<open>With \<^const>\<open>ZU_DEC_REJECT_TRAILING\<close> a decoder never reports the end of the stream while
  the buffer still holds input, neither on the call that ends the stream nor on any later one.\<close>

theorem trailing_never_accepted:
  assumes "has_flag (do_flags (dec_opts d)) ZU_DEC_REJECT_TRAILING"
    and "zu_decoder_process d b flush = Some (ZU_STREAM_END, d', b')"
  shows "src_size b' \<le> src_pos b'"
proof (cases "dec_finished d")
  case True
  with assms show ?thesis
    by (auto simp: zu_decoder_process_def zu_int_check_buffer_def zu_int_check_flush_def split: if_splits)
next
  case False
  with assms(2) obtain capped a p st0 where
    "ZU_STREAM_END = decoder_verdict (dec_opts d) (total_in d') (total_out d') b' capped a p st0"
    by (auto elim: process_verdict)
  from verdict_stream_end_trailing [OF this [symmetric] assms(1)] show ?thesis .
qed

theorem trailing_never_accepted_witness: "src_size demo_buf_after \<le> src_pos demo_buf_after"
  by (rule trailing_never_accepted [OF _ demo_call]) (simp add: demo_fields)

text \<open>The refusal of a stream whose size is not the announced one is reported once and not
  remembered: the handle is marked finished all the same, so the next call, on a buffer without
  input, answers with the plain end of the stream.\<close>

theorem size_refusal_not_remembered:
  assumes "zu_decoder_process d b flush = Some (ZU_ERR_INVALID_DATA, d', b')" "dec_finished d'"
    and "buf_wf b2" "avail_in b2 = 0" "zu_int_check_flush flush2 = ZU_OK"
  shows "zu_decoder_process d' b2 flush2 = Some (ZU_STREAM_END, d', b2)"
  using assms by (simp add: zu_decoder_process_def buf_wf_check avail_in_wf)

definition demo_short_buf :: zu_buffer where
  "demo_short_buf = one_shot_buffer [1, 2] [0, 0, 0, 0, 0]"

definition demo_short :: "unit zu_decoder" where
  "demo_short = fst (snd (the (zu_decoder_process demo_dec demo_short_buf ZU_FINISH)))"

definition demo_short_after :: zu_buffer where
  "demo_short_after = snd (snd (the (zu_decoder_process demo_dec demo_short_buf ZU_FINISH)))"

theorem size_refusal_not_remembered_witness:
  "zu_decoder_process demo_short (one_shot_buffer [] [0]) ZU_FINISH = Some (ZU_STREAM_END, demo_short, one_shot_buffer [] [0])"
proof (rule size_refusal_not_remembered)
  have "case zu_decoder_process demo_dec demo_short_buf ZU_FINISH of Some (st, _) \<Rightarrow> st = ZU_ERR_INVALID_DATA | None \<Rightarrow> False"
    by code_simp
  then show "zu_decoder_process demo_dec demo_short_buf ZU_FINISH = Some (ZU_ERR_INVALID_DATA, demo_short, demo_short_after)"
    unfolding demo_short_def demo_short_after_def by (auto split: option.splits)
  show "dec_finished demo_short" by code_simp
  show "buf_wf (one_shot_buffer [] [0])" by (rule one_shot_buffer_wf) (simp_all add: UINT64_MAX_def)
qed (simp_all add: avail_in_def zu_int_check_flush_def)

subsection \<open>Reset\<close>

lemma decoder_new_codec: "zu_decoder_new mem r opts = (ZU_OK, Some d) \<Longrightarrow> v_codec (dec_vtable d) = do_codec opts"
  by (auto simp: zu_decoder_new_def zu_int_resolve_def Let_def dest: registry_lookup_Some
      split: if_splits prod.splits option.splits)

lemma demo_decoder_vtable:
  assumes "zu_decoder_new mem demo_reg opts = (ZU_OK, Some d)"
  shows "dec_vtable d = (if do_codec opts = 1 then zu_int_codec_identity else xor5a_vtable)"
proof -
  have "v_codec zu_int_codec_identity = 1" "v_codec xor5a_vtable = 1024"
    by (simp_all add: zu_int_codec_identity_def xor5a_vtable_def zu_codec_ids)
  with decoder_new_codec [OF assms] decoder_new_registered [OF assms] show ?thesis
    by (auto simp: demo_reg_table)
qed

lemma copy_decoder_opts_fields:
  "do_struct_size (copy_decoder_opts os) = 32" "do_codec (copy_decoder_opts os) < 2 ^ 32"
  "do_max_output (copy_decoder_opts os) < 2 ^ 64" "do_max_ratio (copy_decoder_opts os) < 2 ^ 32"
  "do_expected_size (copy_decoder_opts os) < 2 ^ 64"
proof -
  have len: "length (decoder_opts_bytes os) = 32" by (simp add: decoder_opts_bytes_def)
  have b: "of_le_bytes (seg m i j) < 256 ^ n" if "j - i \<le> n" for m i j n
    using of_le_bytes_bound [of "seg m i j"] seg_length_le [of m i j] that
      power_increasing [of "length (seg m i j)" n "256 :: nat"] by linarith
  show "do_struct_size (copy_decoder_opts os) = 32"
    using len by (simp add: copy_decoder_opts_def sizeof_zu_decoder_opts_def decoder_opts_of_def
        copy_opts_bytes seg_def of_le_bytes_le_bytes)
  show "do_codec (copy_decoder_opts os) < 2 ^ 32" "do_max_output (copy_decoder_opts os) < 2 ^ 64"
    "do_max_ratio (copy_decoder_opts os) < 2 ^ 32" "do_expected_size (copy_decoder_opts os) < 2 ^ 64"
    using b [of 8 4 4] b [of 16 8 8] b [of 20 16 4] b [of 32 24 8]
    by (simp_all add: copy_decoder_opts_def decoder_opts_of_def)
qed

lemma copy_decoder_opts_idem: "copy_decoder_opts (copy_decoder_opts os) = copy_decoder_opts os"
  using copy_decoder_opts_eq [of "copy_decoder_opts os"] copy_decoder_opts_fields [of os] by simp

lemma session_opts: "decoder_session mem r d i out \<Longrightarrow> \<exists>os. dec_opts d = copy_decoder_opts os"
proof (induction rule: decoder_session.induct)
  case (process d i out b flush st d' b')
  then show ?case
    by (auto simp: zu_decoder_process_def Let_def split: if_splits option.splits prod.splits)
next
  case (reset d i out opts d')
  then show ?case by (auto simp: zu_decoder_reset_def Let_def split: if_splits option.splits prod.splits)
next
  case (reset_failed d i out opts st d')
  then show ?case by (auto simp: zu_decoder_reset_def Let_def split: if_splits option.splits prod.splits)
qed (auto dest: new_fields)

text \<open>A successful reset gives the handle back its whole budget: the counters and the end of
  the stream are forgotten, and the limits are those of the options given, or unchanged when
  none are given.\<close>

theorem decoder_reset_fresh:
  assumes "decoder_session mem r d i out" "zu_decoder_reset d opts = (ZU_OK, d')"
  shows "total_in d' = 0 \<and> total_out d' = 0 \<and> \<not> dec_finished d' \<and> dec_vtable d' = dec_vtable d \<and>
    dec_opts d' = (case opts of None \<Rightarrow> dec_opts d | Some os \<Rightarrow> copy_decoder_opts os)"
proof -
  from session_opts [OF assms(1)] have "copy_decoder_opts (dec_opts d) = dec_opts d"
    by (auto simp: copy_decoder_opts_idem)
  with assms(2) show ?thesis
    by (auto simp: zu_decoder_reset_def Let_def split: if_splits option.splits prod.splits)
qed

definition demo_reset :: "unit zu_decoder" where
  "demo_reset = snd (zu_decoder_reset demo_after None)"

lemma demo_reset_call: "zu_decoder_reset demo_after None = (ZU_OK, demo_reset)"
proof -
  have "fst (zu_decoder_reset demo_after None) = ZU_OK" by code_simp
  then show ?thesis by (simp add: demo_reset_def prod_eq_iff)
qed

theorem decoder_reset_fresh_witness:
  "total_in demo_reset = 0 \<and> total_out demo_reset = 0 \<and> \<not> dec_finished demo_reset \<and>
    dec_vtable demo_reset = dec_vtable demo_after \<and>
    dec_opts demo_reset = (case None of None \<Rightarrow> dec_opts demo_after | Some os \<Rightarrow> copy_decoder_opts os)"
  by (rule decoder_reset_fresh [OF demo_session_after demo_reset_call])

subsection \<open>Encoders\<close>

definition demo_enc_opts :: zu_encoder_opts where
  "demo_enc_opts = \<lparr>eo_struct_size = 16, eo_codec = 1024, eo_level = 0, eo_flags = 0\<rparr>"

definition demo_enc :: "unit zu_encoder" where
  "demo_enc = the (snd (zu_encoder_new mem_ok demo_reg demo_enc_opts))"

definition demo_enc_after :: "unit zu_encoder" where
  "demo_enc_after = fst (snd (the (zu_encoder_process demo_enc demo_buf ZU_FINISH)))"

definition demo_enc_buf :: zu_buffer where
  "demo_enc_buf = snd (snd (the (zu_encoder_process demo_enc demo_buf ZU_FINISH)))"

lemma demo_enc_new: "zu_encoder_new mem_ok demo_reg demo_enc_opts = (ZU_OK, Some demo_enc)"
proof -
  have "fst (zu_encoder_new mem_ok demo_reg demo_enc_opts) = ZU_OK" "snd (zu_encoder_new mem_ok demo_reg demo_enc_opts) \<noteq> None"
    by code_simp+
  then show ?thesis unfolding demo_enc_def by (cases "zu_encoder_new mem_ok demo_reg demo_enc_opts") auto
qed

lemma demo_enc_call: "zu_encoder_process demo_enc demo_buf ZU_FINISH = Some (ZU_STREAM_END, demo_enc_after, demo_enc_buf)"
proof -
  have "case zu_encoder_process demo_enc demo_buf ZU_FINISH of Some (st, _) \<Rightarrow> st = ZU_STREAM_END | None \<Rightarrow> False"
    by code_simp
  then show ?thesis unfolding demo_enc_after_def demo_enc_buf_def by (auto split: option.splits)
qed

text \<open>once an encoder has reported the end of its stream, no later call moves a byte: offered
  input is refused and an empty buffer is answered with the end of the stream again.\<close>

theorem encoder_end_is_final:
  assumes "zu_encoder_process e b flush = Some (ZU_STREAM_END, e1, b1)" "buf_wf b"
    and "buf_wf b2" "zu_int_check_flush flush2 = ZU_OK"
  shows "zu_encoder_process e1 b2 flush2 =
    Some (if 0 < avail_in b2 then ZU_ERR_INVALID_ARGUMENT else ZU_STREAM_END, e1, b2)"
proof -
  have "e_finished e1"
    using assms(1) by (auto simp: zu_encoder_process_def zu_int_check_buffer_def zu_int_check_flush_def
        split: if_splits option.splits)
  from encoder_finished_process [OF this assms(3,4)] show ?thesis .
qed

theorem encoder_end_is_final_witness:
  "zu_encoder_process demo_enc_after demo_buf ZU_RUN =
    Some (if 0 < avail_in demo_buf then ZU_ERR_INVALID_ARGUMENT else ZU_STREAM_END, demo_enc_after, demo_buf)"
  by (rule encoder_end_is_final [OF demo_enc_call demo_buf_wf demo_buf_wf]) (simp add: zu_int_check_flush_def)

subsection \<open>One-shot calls\<close>


text \<open>The output a one-shot call may write at most: the capacity, or a tighter limit of a decoder.\<close>

definition one_shot_room :: "any_opts \<Rightarrow> nat \<Rightarrow> nat" where
  "one_shot_room opts cap = (case opts of EncOpts os \<Rightarrow> cap | DecOpts os \<Rightarrow> output_room (copy_decoder_opts os) cap)"

lemma process_same_opts: "zu_decoder_process d b flush = Some (st, d', b') \<Longrightarrow> dec_opts d' = dec_opts d \<and> dec_vtable d' = dec_vtable d"
  by (auto simp: zu_decoder_process_def Let_def split: if_splits option.splits prod.splits)

lemma one_shot_step_opts:
  "one_shot_step (Dec d, b) = Some (Ret (st, h', b')) \<Longrightarrow> \<exists>d'. h' = Dec d' \<and> dec_opts d' = dec_opts d"
  "one_shot_step (Dec d, b) = Some (Next (h', b')) \<Longrightarrow> \<exists>d'. h' = Dec d' \<and> dec_opts d' = dec_opts d"
  by (auto simp: one_shot_step_def handle_process_def process_same_opts split: option.splits if_splits)

lemma one_shot_same_opts:
  assumes "run_loop one_shot_step (Dec d, b) = Some (st, h', b')"
  shows "\<exists>d'. h' = Dec d' \<and> dec_opts d' = dec_opts d"
proof -
  let ?I = "\<lambda>(h, b :: zu_buffer). \<exists>d'. h = Dec d' \<and> dec_opts d' = dec_opts d"
  have "case (st, h', b') of (st, h', b') \<Rightarrow> \<exists>d'. h' = Dec d' \<and> dec_opts d' = dec_opts d"
  proof (rule run_loop_inv [OF assms, where I = ?I], goal_cases)
    case 1
    then show ?case by simp
  next
    case (2 s s')
    then show ?case by (cases s; cases s') (auto dest!: one_shot_step_opts(2))
  next
    case (3 s q)
    then show ?case by (cases s; cases q) (auto dest!: one_shot_step_opts(1))
  qed
  then show ?thesis by simp
qed

lemma one_shot_limited:
  assumes ok: "decoders_ok I r" and new: "handle_new mem r (DecOpts os) = (ZU_OK, Some h)" and wf: "buf_wf b"
    and loop: "run_loop one_shot_step (h, b) = Some (st, h', b')" and inv: "one_shot_inv I J mem r b h' b'"
    and c: "decoder_ceiling (copy_decoder_opts os) = Some (c, x)"
  shows "dst_pos b' - dst_pos b \<le> c"
proof -
  from new obtain d where d: "h = Dec d" "zu_decoder_new mem r os = (ZU_OK, Some d)"
    by (cases "zu_decoder_new mem r os") (auto simp: handle_new_def)
  with loop obtain d' where d': "h' = Dec d'" "dec_opts d' = dec_opts d" by (auto dest: one_shot_same_opts)
  then have "decoder_session mem r d' (consumed b b') (emitted b b')" using inv by (simp add: one_shot_inv_def)
  from session_inv [OF ok this] have "within_limits d'" "session_counts d' (consumed b b') (emitted b b')"
    by (simp_all add: decoder_inv_def)
  with c d'(2) new_fields [OF d(2)] have "length (emitted b b') \<le> c"
    by (auto simp: within_limits_def session_counts_def)
  with inv wf show ?thesis by (simp add: emitted_length one_shot_inv_def)
qed

text \<open>C29: a one-shot call on a valid handle returns, whatever the codec does within the
  discipline; it reports at most the capacity as written, and at most a decoder's limit, keeps
  the length of the output memory, and its status is success or an error, never a progress
  status.\<close>

theorem one_shot_contract:
  assumes "decoders_ok I r" "encoders_ok J r" "handle_new mem r opts = (ZU_OK, Some h)"
    and "length s \<le> SIZE_MAX" "length t \<le> SIZE_MAX"
  shows "\<exists>st w t'. zu_int_one_shot mem r opts (Some s) (length s) (Some t) (length t) = Some (st, Some w, Some t') \<and>
    \<not> (is_progress st \<and> st \<noteq> ZU_OK) \<and> w \<le> one_shot_room opts (length t) \<and> length t' = length t"
proof -
  let ?b = "one_shot_buffer s t"
  have wf: "buf_wf ?b" using assms(4,5) by (rule one_shot_buffer_wf)
  obtain st h' b' where loop: "run_loop one_shot_step (h, ?b) = Some (st, h', b')"
    and inv: "one_shot_inv I J mem r ?b h' b'" and st: "\<not> (is_progress st \<and> st \<noteq> ZU_OK)"
    using one_shot_loop [OF handle_new_session [OF assms(1-3) wf]] by auto
  have adv: "buf_adv ?b b'" using inv by (simp add: one_shot_inv_def)
  then obtain t' where t': "dst b' = Some t'" by (auto simp: buf_adv_def)
  with adv have len: "length t' = length t" "dst_pos b' \<le> length t"
    by (simp_all add: buf_adv_def dst_mem_def)
  have ret: "zu_int_one_shot mem r opts (Some s) (length s) (Some t) (length t) = Some (st, Some (dst_pos b'), Some t')"
    using assms(3) loop t' by (simp add: zu_int_one_shot_def one_shot_buffer_def)
  have "dst_pos b' \<le> one_shot_room opts (length t)"
  proof (cases opts)
    case (DecOpts os)
    with one_shot_limited [OF assms(1) _ wf loop inv] assms(3) len(2) show ?thesis
      by (auto simp: one_shot_room_def output_room_def split: option.splits)
  qed (simp add: one_shot_room_def len)
  with ret st len(1) show ?thesis by blast
qed

theorem one_shot_contract_witness:
  "\<exists>st w t'. zu_int_one_shot mem_ok demo_reg (DecOpts demo_opts) (Some [1, 2]) (length [1 :: byte, 2]) (Some [0]) (length [0 :: byte]) =
      Some (st, Some w, Some t') \<and>
    \<not> (is_progress st \<and> st \<noteq> ZU_OK) \<and> w \<le> one_shot_room (DecOpts demo_opts) (length [0 :: byte]) \<and> length t' = length [0 :: byte]"
  by (rule one_shot_contract [OF demo_decoders demo_encoders, where h = "Dec demo_dec"])
    (simp_all add: handle_new_def demo_dec_new UINT64_MAX_def)

subsection \<open>The bytewise codecs\<close>

text \<open>however the input is cut into calls, and whatever buffers and limits are used, an
  \<^verbatim>\<open>xor5a\<close> decoder delivers exactly the image of what it consumed.\<close>

theorem xor5a_session_image:
  assumes "decoders_ok I r" "decoder_session mem r d i out" "dec_vtable d = xor5a_vtable"
  shows "out = map (\<lambda>x. x XOR XOR_KEY) i"
  using xor5a.session_image [OF assms(1,2)] assms(3) by (simp add: xor5a_vtable_def)

theorem xor5a_session_image_witness: "[0x5B, 0x58, 0x59] = map (\<lambda>x. x XOR XOR_KEY) [1, 2, 3]"
proof (rule xor5a_session_image [OF demo_decoders demo_session_after])
  have "dec_vtable demo_after = dec_vtable demo_dec"
    using process_same_opts [OF demo_call] by simp
  then show "dec_vtable demo_after = xor5a_vtable"
    using demo_decoder_vtable [OF demo_dec_new] by (simp add: demo_opts_def)
qed

text \<open>a one-shot decode with the identity codec returns the prefix of its input that fits the
  capacity and the limits, and the status says which of them was in the way.\<close>

theorem identity_decompress_exact:
  assumes "length s \<le> SIZE_MAX" "length t \<le> SIZE_MAX" "zu_decoder_new mem r os = (ZU_OK, Some h)"
    and "dec_vtable h = zu_int_codec_identity"
    and "k = min (length s) (output_room (copy_decoder_opts os) (length t))"
  shows "zu_decompress_one mem r os (Some s) (length s) (Some t) (length t) =
    Some (bytewise_result (copy_decoder_opts os) (length s) (length t), Some k, Some (take k s @ drop k t))"
  using identity.decompress_one_eq [OF assms(1-3)] assms(4,5) by (simp add: zu_int_codec_identity_def)

definition demo_id_opts :: zu_decoder_opts where
  "demo_id_opts = \<lparr>do_struct_size = 24, do_codec = 1, do_max_output = 2, do_max_ratio = 0, do_flags = 0, do_expected_size = 77\<rparr>"

theorem identity_decompress_exact_witness:
  "zu_decompress_one mem_ok demo_reg demo_id_opts (Some [5, 6, 7]) (length [5 :: byte, 6, 7]) (Some [0, 0, 0, 0]) (length [0 :: byte, 0, 0, 0]) =
    Some (bytewise_result (copy_decoder_opts demo_id_opts) (length [5 :: byte, 6, 7]) (length [0 :: byte, 0, 0, 0]), Some 2,
      Some (take 2 [5, 6, 7] @ drop 2 [0, 0, 0, 0]))"
proof -
  let ?d = "the (snd (zu_decoder_new mem_ok demo_reg demo_id_opts))"
  have "fst (zu_decoder_new mem_ok demo_reg demo_id_opts) = ZU_OK" "snd (zu_decoder_new mem_ok demo_reg demo_id_opts) \<noteq> None"
    by code_simp+
  then have new: "zu_decoder_new mem_ok demo_reg demo_id_opts = (ZU_OK, Some ?d)"
    by (cases "zu_decoder_new mem_ok demo_reg demo_id_opts") auto
  show ?thesis
  proof (rule identity_decompress_exact [OF _ _ new])
    show "dec_vtable ?d = zu_int_codec_identity"
      using demo_decoder_vtable [OF new] by (simp add: demo_id_opts_def)
    show "2 = min (length [5 :: byte, 6, 7]) (output_room (copy_decoder_opts demo_id_opts) (length [0 :: byte, 0, 0, 0]))"
      by code_simp
  qed (simp_all add: UINT64_MAX_def)
qed

lemma decoder_ceiling_status: "decoder_ceiling os = Some (c, x) \<Longrightarrow> x \<noteq> ZU_OK"
  by (auto simp: decoder_ceiling_def Let_def split: if_splits)

text \<open>what \<^verbatim>\<open>zu_compress_one\<close> writes with \<^verbatim>\<open>xor5a\<close> is decoded by \<^verbatim>\<open>zu_decompress_one\<close> into the
  original bytes, for every input that the two output buffers and the decoder's limits admit.\<close>

theorem xor5a_round_trip:
  assumes "length s \<le> length t" "length s \<le> length u" "length t \<le> SIZE_MAX" "length u \<le> SIZE_MAX"
    and "zu_encoder_new mem r eo = (ZU_OK, Some e)" "e_vtable e = xor5a_vtable"
    and "zu_decoder_new mem r os = (ZU_OK, Some d)" "dec_vtable d = xor5a_vtable"
    and "bytewise_result (copy_decoder_opts os) (length s) (length u) = ZU_OK"
  shows "\<exists>z. zu_compress_one mem r eo (Some s) (length s) (Some t) (length t) = Some (ZU_OK, Some (length s), Some z) \<and>
    zu_decompress_one mem r os (Some (take (length s) z)) (length s) (Some u) (length u) =
      Some (ZU_OK, Some (length s), Some (s @ drop (length s) u))"
proof -
  let ?y = "map (\<lambda>x. x XOR XOR_KEY) s"
  have c: "zu_compress_one mem r eo (Some s) (length s) (Some t) (length t) =
      Some (ZU_OK, Some (length s), Some (?y @ drop (length s) t))"
    using xor5a.compress_one_eq [OF _ assms(3,5), of s] assms(1,3,6) by (simp add: xor5a_vtable_def)
  have room: "length s \<le> output_room (copy_decoder_opts os) (length u)"
    using assms(9) by (auto simp: bytewise_result_def dest: decoder_ceiling_status split: if_splits option.splits)
  have "(\<lambda>x. x XOR XOR_KEY) \<circ> (\<lambda>x. x XOR XOR_KEY) = id"
    by (simp add: fun_eq_iff xor.assoc)
  then have "zu_decompress_one mem r os (Some ?y) (length ?y) (Some u) (length u) =
      Some (ZU_OK, Some (length s), Some (s @ drop (length s) u))"
    using xor5a.decompress_one_eq [OF _ assms(4,7), of ?y] assms(1-3,8,9) room by (simp add: xor5a_vtable_def)
  with c show ?thesis by simp
qed

theorem xor5a_round_trip_witness:
  "\<exists>z. zu_compress_one mem_ok demo_reg demo_enc_opts (Some [7, 8, 9]) (length [7 :: byte, 8, 9]) (Some [0, 0, 0]) (length [0 :: byte, 0, 0]) =
      Some (ZU_OK, Some (length [7 :: byte, 8, 9]), Some z) \<and>
    zu_decompress_one mem_ok demo_reg demo_opts (Some (take (length [7 :: byte, 8, 9]) z)) (length [7 :: byte, 8, 9])
        (Some [0, 0, 0, 1]) (length [0 :: byte, 0, 0, 1]) =
      Some (ZU_OK, Some (length [7 :: byte, 8, 9]), Some ([7, 8, 9] @ drop (length [7 :: byte, 8, 9]) [0, 0, 0, 1]))"
proof (rule xor5a_round_trip [OF _ _ _ _ demo_enc_new _ demo_dec_new])
  show "e_vtable demo_enc = xor5a_vtable"
  proof -
    have "v_codec (e_vtable demo_enc) = 1024" by code_simp
    moreover have "v_codec zu_int_codec_identity = 1" by (simp add: zu_int_codec_identity_def zu_codec_ids)
    ultimately show ?thesis using encoder_new_registered [OF demo_enc_new] by (auto simp: demo_reg_table)
  qed
  show "dec_vtable demo_dec = xor5a_vtable" using demo_decoder_vtable [OF demo_dec_new] by (simp add: demo_opts_def)
  show "bytewise_result (copy_decoder_opts demo_opts) (length [7 :: byte, 8, 9]) (length [0 :: byte, 0, 0, 1]) = ZU_OK"
    by code_simp
qed (simp_all add: UINT64_MAX_def)

subsection \<open>The registry\<close>

text \<open>C30: \<^verbatim>\<open>zu_register_codec\<close> accepts a vtable exactly when it is acceptable on its own and shares
  no identity, name or content-coding token with a registered one, and refuses a full table;
  acceptance appends it and steps the generation, refusal changes nothing.\<close>

theorem register_codec_exact:
  "zu_register_codec (Some v) r =
     (if vtable_ok v \<and> (\<forall>w \<in> set (reg_table r). vtables_apart w v)
      then if length (reg_table r) < ZU_INT_REGISTRY_CAP
           then (ZU_OK, r\<lparr>reg_table := reg_table r @ [v], reg_gen := u64_add (reg_gen r) 1\<rparr>)
           else (ZU_ERR_MEMORY, r)
      else (ZU_ERR_INVALID_ARGUMENT, r))"
  by (rule zu_register_codec_eq)

theorem register_codec_exact_witness:
  "zu_register_codec (Some xor5a_vtable) demo_reg = (ZU_ERR_INVALID_ARGUMENT, demo_reg)"
  unfolding register_codec_exact by (simp add: demo_reg_table vtables_apart_def)

text \<open>A successful registration is permanent: whatever is registered afterwards, the identity
  still resolves to the same vtable, and every codec resolves as it did before.\<close>

theorem registration_permanent:
  assumes "registry_wf r" "fst (zu_register_codec (Some v) r) = ZU_OK"
  shows "zu_int_registry_lookup (fold (\<lambda>vt s. snd (zu_register_codec vt s)) vts (snd (zu_register_codec (Some v) r))) (v_codec v) = Some v"
  using assms by (rule dir.registered_for_good)

lemma demo_reg_init: "fst (zu_register_codec (Some xor5a_vtable) (zu_registry_init :: unit zu_registry)) = ZU_OK"
  by code_simp

theorem registration_permanent_witness:
  "zu_int_registry_lookup (fold (\<lambda>vt s. snd (zu_register_codec vt s)) [Some zu_int_codec_identity, Some snappy_stub_vtable, None]
      (snd (zu_register_codec (Some xor5a_vtable) zu_registry_init))) (v_codec xor5a_vtable) = Some xor5a_vtable"
  by (rule registration_permanent [OF registry_wf_init demo_reg_init])

text \<open>In a well-formed registry the three ways of naming a registered codec agree: its name, its
  content-coding token in any letter case, and its identity all resolve to it.\<close>

theorem registered_codec_resolves:
  assumes "registry_wf r" "v \<in> set (reg_table r)" "token_clash (v_content_encoding v) (Some t)"
  shows "zu_codec_lookup r (v_name v) = v_codec v \<and> zu_codec_from_content_encoding r (Some t) = v_codec v \<and>
    zu_int_registry_lookup r (v_codec v) = Some v \<and> zu_codec_available r (v_codec v)"
  using registered_name_resolves [OF assms(1,2)] registered_token_resolves [OF assms] registry_lookup_mem [OF assms(1,2)]
  by (simp add: zu_codec_available_def)

theorem registered_codec_resolves_witness:
  "zu_codec_lookup demo_reg (v_name zu_int_codec_identity) = v_codec zu_int_codec_identity \<and>
    zu_codec_from_content_encoding demo_reg (Some ''IdentitY'') = v_codec zu_int_codec_identity \<and>
    zu_int_registry_lookup demo_reg (v_codec zu_int_codec_identity) = Some zu_int_codec_identity \<and>
    zu_codec_available demo_reg (v_codec zu_int_codec_identity)"
proof (rule registered_codec_resolves [OF demo_reg_wf])
  show "zu_int_codec_identity \<in> set (reg_table demo_reg)" by (simp add: demo_reg_table)
  show "token_clash (v_content_encoding zu_int_codec_identity) (Some ''IdentitY'')" by code_simp
qed

subsection \<open>The ABI\<close>

text \<open>options of any struct size from the first release on are read field by field; the field
  appended later receives the bytes the caller's struct has and zeros for the rest, so an old
  caller never sets it.\<close>

theorem decoder_opts_any_size:
  assumes "24 \<le> do_struct_size os" "do_codec os < 2 ^ 32" "do_max_output os < 2 ^ 64" "do_max_ratio os < 2 ^ 32"
  shows "copy_decoder_opts os =
    os\<lparr>do_struct_size := 32, do_expected_size := do_expected_size os mod 256 ^ (min 8 (do_struct_size os - 24))\<rparr>"
  using assms by (rule copy_decoder_opts_eq)

theorem decoder_opts_any_size_witness:
  "copy_decoder_opts demo_id_opts =
    demo_id_opts\<lparr>do_struct_size := 32,
      do_expected_size := do_expected_size demo_id_opts mod 256 ^ (min 8 (do_struct_size demo_id_opts - 24))\<rparr>"
  by (rule decoder_opts_any_size) (simp_all add: demo_id_opts_def)

text \<open>A successful growth covers what is needed, at least doubles the buffer wherever doubling
  fits, never falls below the minimum, and fails exactly when the size is not representable.\<close>

theorem grow_exact:
  assumes "current \<le> SIZE_MAX"
  shows "zu_int_grow current needed =
    (if current + needed \<le> SIZE_MAX
     then (ZU_OK, Some (max ZU_INT_MIN_BUFFER
            (if 2 * current \<le> SIZE_MAX then max (2 * current) (current + needed) else current + needed)))
     else (ZU_ERR_MEMORY, None))"
  using assms by (rule zu_int_grow_cases)

theorem grow_exact_witness:
  "zu_int_grow 5000 10 =
    (if 5000 + 10 \<le> SIZE_MAX
     then (ZU_OK, Some (max ZU_INT_MIN_BUFFER
            (if 2 * 5000 \<le> SIZE_MAX then max (2 * 5000) (5000 + 10) else 5000 + 10)))
     else (ZU_ERR_MEMORY, None))"
  by (rule grow_exact) (simp add: UINT64_MAX_def)


subsection \<open>Checksums\<close>

text \<open>C34: the blocked, deferred-modulo Adler-32 of the code is the checksum of RFC 1950 on every byte
  string, from any starting value: two running sums modulo 65521.\<close>

theorem adler32_refines:
  assumes "p \<noteq> []"
  shows "unat (mz_adler32 adler (Some p)) = adler32_spec p (unat adler mod 65536, unat adler div 65536)"
  using assms by (rule mz_adler32_eq)

theorem adler32_refines_witness:
  "unat (mz_adler32 1 (Some [97, 98, 99])) = adler32_spec [97, 98, 99] (unat (1 :: u32) mod 65536, unat (1 :: u32) div 65536)"
  by (rule adler32_refines) simp

text \<open>C35: the table-driven, four-bytes-a-turn CRC-32 of the code equals the bit-by-bit division of
  RFC 1952 on every byte string, from any starting value.\<close>

theorem crc32_refines: "mz_crc32 c p = crc32_spec p c"
  by (rule mz_crc32_eq)

text \<open>both checksums can be computed piecewise: updating over two chunks is updating over
  their concatenation, so they do not depend on how a stream is cut.\<close>

theorem checksums_incremental:
  "mz_crc32 (mz_crc32 c p) q = mz_crc32 c (p @ q) \<and>
    mz_adler32 (mz_adler32 a (Some p)) (Some q) = mz_adler32 a (Some (p @ q))"
  by (simp add: mz_crc32_append mz_adler32_append)

end
