(* ===== verification/Zu_Frames.thy ===== *)
theory Zu_Frames
  imports Codec_Identity
begin

unbundle bit_operations_syntax

text \<open>
  \<^verbatim>\<open>src/zu_frames.c\<close>: what happens between the frames of a zstd or LZ4 stream. The library behind
  a codec is the context \<open>'c\<close> of the two callbacks: \<open>feed\<close> hands it magic bytes that were
  consumed while the decision was open, and \<open>probe\<close> asks it for one byte.

  The properties: the magic test is the prefix relation of a set of magics, the decision does
  not depend on how the bytes are cut into buffers, and the functions keep to the cursor
  discipline.
\<close>

subsection \<open>State\<close>

datatype zu_int_frame_state = ZU_INT_FRAME_BODY | ZU_INT_FRAME_BETWEEN | ZU_INT_FRAME_DONE

datatype zu_int_frames_kind = ZU_INT_FRAMES_ZSTD | ZU_INT_FRAMES_LZ4

record zu_int_frames =
  fr_state :: zu_int_frame_state
  fr_kind :: zu_int_frames_kind
  fr_flags :: u32
  fr_held :: "byte list"
  fr_n_held :: nat
  fr_owed :: byte
  fr_has_owed :: bool

type_synonym 'c zu_int_frames_feed = "'c \<Rightarrow> byte list \<Rightarrow> zu_status \<times> 'c"

text \<open>The probe is given the byte it may overwrite, and returns the status, the byte, the number of
  bytes written, whether the frame ended, and the context.\<close>

type_synonym 'c zu_int_frames_probe = "'c \<Rightarrow> byte \<Rightarrow> zu_status \<times> byte \<times> nat \<times> bool \<times> 'c"

definition zu_int_frames_init :: "zu_int_frames_kind \<Rightarrow> u32 \<Rightarrow> zu_int_frames" where
  "zu_int_frames_init kind flags =
     \<lparr>fr_state = ZU_INT_FRAME_BODY, fr_kind = kind, fr_flags = flags, fr_held = replicate 4 0,
      fr_n_held = 0, fr_owed = 0, fr_has_owed = False\<rparr>"

definition zu_int_frames_ended :: "zu_int_frames \<Rightarrow> zu_int_frames" where
  "zu_int_frames_ended f = f\<lparr>fr_state := ZU_INT_FRAME_BETWEEN, fr_n_held := 0\<rparr>"

subsection \<open>Operations\<close>

definition zstd_magic :: "byte list" where
  "zstd_magic = [0x28, 0xB5, 0x2F, 0xFD]"

definition lz4_magic :: "byte list" where
  "lz4_magic = [0x04, 0x22, 0x4D, 0x18]"

definition skip_tail :: "byte list" where
  "skip_tail = [0x2A, 0x4D, 0x18]"

text \<open>\<open>memcmp(p, q, n) == 0\<close> is equality of the first \<open>n\<close> bytes.\<close>

definition zu_int_frames_is_prefix :: "zu_int_frames_kind \<Rightarrow> byte list \<Rightarrow> nat \<Rightarrow> bool" where
  "zu_int_frames_is_prefix kind p n =
     (let own = (if kind = ZU_INT_FRAMES_ZSTD then zstd_magic else lz4_magic)
      in if n = 0 then True
         else if take n p = take n own then True
         else if p ! 0 AND 0xF0 \<noteq> 0x50 then False
         else n = 1 \<or> take (n - 1) (drop 1 p) = take (n - 1) skip_tail)"

text \<open>The \<^verbatim>\<open>while\<close> loop of \<^verbatim>\<open>zu_int_frames_between\<close>; the flag is true where it returns.\<close>

function frames_extend :: "zu_int_frames \<Rightarrow> zu_buffer \<Rightarrow> nat \<Rightarrow> bool \<times> zu_int_frames \<times> zu_buffer" where
  "frames_extend f b avail =
     (if fr_n_held f < 4 \<and> 0 < avail
      then
        (let f1 = f\<lparr>fr_held := (fr_held f)[fr_n_held f := src_byte b 0]\<rparr>
         in if \<not> zu_int_frames_is_prefix (fr_kind f1) (fr_held f1) (fr_n_held f1 + 1)
            then (True, f1\<lparr>fr_n_held := 0, fr_state := ZU_INT_FRAME_DONE\<rparr>, b)
            else frames_extend (f1\<lparr>fr_n_held := fr_n_held f1 + 1\<rparr>) (skip_in 1 b) (avail - 1))
      else (False, f, b))"
  by pat_completeness auto
termination by (relation "measure (\<lambda>(f, b, avail). avail)") (auto simp: Let_def)

declare frames_extend.simps [simp del]

definition frames_first ::
  "zu_int_frames \<Rightarrow> zu_buffer \<Rightarrow> zu_flush \<Rightarrow> zu_status \<times> zu_int_frames \<times> zu_buffer" where
  "frames_first f b flush =
     (if avail_in b = 0
      then (if flush \<noteq> ZU_FINISH then (ZU_NEED_INPUT, f, b)
            else (ZU_STREAM_END, f\<lparr>fr_state := ZU_INT_FRAME_DONE\<rparr>, b))
      else
        (let k = (if avail_in b < 4 then avail_in b else 4);
             p = seg (src_mem b) (src_pos b) (src_pos b + k)
         in if \<not> zu_int_frames_is_prefix (fr_kind f) p k
            then (ZU_STREAM_END, f\<lparr>fr_state := ZU_INT_FRAME_DONE\<rparr>, b)
            else if k = 4 then (ZU_OK, f\<lparr>fr_state := ZU_INT_FRAME_BODY\<rparr>, b)
            else if flush = ZU_FINISH then (ZU_STREAM_END, f\<lparr>fr_state := ZU_INT_FRAME_DONE\<rparr>, b)
            else (ZU_NEED_INPUT, f\<lparr>fr_held := write_at (fr_held f) 0 p, fr_n_held := k\<rparr>, skip_in k b)))"

definition frames_resume ::
  "zu_int_frames \<Rightarrow> zu_buffer \<Rightarrow> zu_flush \<Rightarrow> 'c zu_int_frames_feed \<Rightarrow> 'c \<Rightarrow>
    zu_status \<times> zu_int_frames \<times> zu_buffer \<times> 'c" where
  "frames_resume f b flush feed c =
     (case frames_extend f b (avail_in b) of
        (True, f1, b1) \<Rightarrow> (ZU_STREAM_END, f1, b1, c)
      | (False, f1, b1) \<Rightarrow>
          if fr_n_held f1 = 4
          then (case feed c (take 4 (fr_held f1)) of
                  (st, c1) \<Rightarrow>
                    (let f2 = f1\<lparr>fr_n_held := 0\<rparr>
                     in if st \<noteq> ZU_OK then (st, f2, b1, c1)
                        else (ZU_OK, f2\<lparr>fr_state := ZU_INT_FRAME_BODY\<rparr>, b1, c1)))
          else if flush \<noteq> ZU_FINISH then (ZU_NEED_INPUT, f1, b1, c)
          else
            (let f2 = f1\<lparr>fr_n_held := 0, fr_state := ZU_INT_FRAME_DONE\<rparr>
             in (if has_flag (fr_flags f2) ZU_DEC_REJECT_TRAILING then ZU_ERR_TRAILING else ZU_STREAM_END,
                 f2, b1, c)))"

definition zu_int_frames_between ::
  "zu_int_frames \<Rightarrow> zu_buffer \<Rightarrow> zu_flush \<Rightarrow> 'c zu_int_frames_feed \<Rightarrow> 'c \<Rightarrow>
    zu_status \<times> zu_int_frames \<times> zu_buffer \<times> 'c" where
  "zu_int_frames_between f b flush feed c =
     (if fr_state f = ZU_INT_FRAME_DONE then (ZU_STREAM_END, f, b, c)
      else if fr_state f = ZU_INT_FRAME_BODY then (ZU_OK, f, b, c)
      else if \<not> has_flag (fr_flags f) ZU_DEC_CONCAT_MEMBERS
           then (ZU_STREAM_END, f\<lparr>fr_state := ZU_INT_FRAME_DONE\<rparr>, b, c)
      else if fr_n_held f = 0
           then (case frames_first f b flush of (st, f', b') \<Rightarrow> (st, f', b', c))
      else frames_resume f b flush feed c)"

definition zu_int_frames_stalled ::
  "zu_int_frames \<Rightarrow> nat \<Rightarrow> nat \<Rightarrow> zu_flush \<Rightarrow> 'c zu_int_frames_probe \<Rightarrow> 'c \<Rightarrow> zu_status \<times> zu_int_frames \<times> 'c" where
  "zu_int_frames_stalled f n_in n_out flush probe c =
     (if n_out = 0
      then
        (if n_in > 0 then (ZU_NEED_OUTPUT, f, c)
         else if flush \<noteq> ZU_FINISH then (ZU_NEED_INPUT, f, c)
         else
           (case probe c (fr_owed f) of
              (st, one, written, frame_end, c1) \<Rightarrow>
                (let f0 = f\<lparr>fr_owed := one\<rparr>
                 in if st \<noteq> ZU_OK then (st, f0, c1)
                    else
                      (let f1 = (if frame_end then zu_int_frames_ended f0 else f0)
                       in if written > 0 then (ZU_NEED_OUTPUT, f1\<lparr>fr_has_owed := True\<rparr>, c1)
                          else (if frame_end then ZU_OK else ZU_ERR_TRUNCATED, f1, c1)))))
      else if n_in = 0 then (if flush = ZU_FINISH then ZU_ERR_TRUNCATED else ZU_NEED_INPUT, f, c)
      else (ZU_ERR_INTERNAL, f, c))"

definition zu_int_frames_pay :: "zu_int_frames \<Rightarrow> zu_buffer \<Rightarrow> bool \<times> zu_int_frames \<times> zu_buffer" where
  "zu_int_frames_pay f b =
     (if \<not> fr_has_owed f then (True, f, b)
      else if dst_pos b = dst_size b then (False, f, b)
      else (True, f\<lparr>fr_has_owed := False\<rparr>, put_out [fr_owed f] b))"

subsection \<open>The magic test is a prefix test\<close>

definition frame_magic :: "zu_int_frames_kind \<Rightarrow> byte list \<Rightarrow> bool" where
  "frame_magic kind m \<longleftrightarrow>
     m = (if kind = ZU_INT_FRAMES_ZSTD then zstd_magic else lz4_magic) \<or>
     (\<exists>x. x AND 0xF0 = 0x50 \<and> m = x # skip_tail)"

definition magic_prefix :: "zu_int_frames_kind \<Rightarrow> byte list \<Rightarrow> bool" where
  "magic_prefix kind p \<longleftrightarrow> (\<exists>m. frame_magic kind m \<and> take (length p) m = p)"

lemma is_prefix_iff:
  assumes "n \<le> length p"
  shows "zu_int_frames_is_prefix kind p n \<longleftrightarrow> (\<exists>m. frame_magic kind m \<and> take n m = take n p)"
proof (cases n)
  case 0
  then show ?thesis by (auto simp: zu_int_frames_is_prefix_def frame_magic_def Let_def)
next
  case (Suc k)
  with assms obtain x q where p: "p = x # q" by (cases p) auto
  have ex: "(\<exists>m. frame_magic kind m \<and> take n m = take n p) \<longleftrightarrow>
      take n (if kind = ZU_INT_FRAMES_ZSTD then zstd_magic else lz4_magic) = take n p \<or>
      (x AND 0xF0 = 0x50 \<and> take k skip_tail = take k q)"
    unfolding frame_magic_def by (auto simp: Suc p)
  show ?thesis
    unfolding ex by (auto simp: zu_int_frames_is_prefix_def Let_def Suc p)
qed

lemma is_prefix_held: "n \<le> length p \<Longrightarrow> zu_int_frames_is_prefix kind p n \<longleftrightarrow> magic_prefix kind (take n p)"
  by (simp add: is_prefix_iff magic_prefix_def min_def)

lemma frame_magic_length: "frame_magic kind m \<Longrightarrow> length m = 4"
  by (auto simp: frame_magic_def zstd_magic_def lz4_magic_def skip_tail_def)

lemma magic_prefix_4: "length p = 4 \<Longrightarrow> magic_prefix kind p \<longleftrightarrow> frame_magic kind p"
  unfolding magic_prefix_def by (metis frame_magic_length take_all order_refl)

lemma magic_prefix_append: "magic_prefix kind (p @ q) \<Longrightarrow> magic_prefix kind p"
  unfolding magic_prefix_def
  by (metis append_eq_conv_conj take_add length_append append_take_drop_id take_take min.absorb1 le_add1 take_append)

lemma magic_prefix_Nil: "magic_prefix kind []"
  by (auto simp: magic_prefix_def frame_magic_def)

subsection \<open>The decision does not depend on the chunking\<close>

text \<open>The invariant between frames: the bytes held are a proper prefix of a magic.\<close>

definition frames_wf :: "zu_int_frames \<Rightarrow> bool" where
  "frames_wf f \<longleftrightarrow> length (fr_held f) = 4 \<and> fr_n_held f < 4 \<and>
     magic_prefix (fr_kind f) (take (fr_n_held f) (fr_held f))"

lemma take_Suc_update: "n < length xs \<Longrightarrow> take (Suc n) (xs[n := x]) = take n xs @ [x]"
  by (simp add: take_Suc_conv_app_nth)

lemma skip_in_window:
  assumes "buf_wf b" "j \<le> avail_in b"
  shows "in_window (skip_in j b) = drop j (in_window b)" "avail_in (skip_in j b) = avail_in b - j" "buf_wf (skip_in j b)"
proof -
  have adv: "buf_adv b (skip_in j b)" by (rule skip_in_adv [OF assms])
  then show wf: "buf_wf (skip_in j b)" using assms(1) by (rule buf_adv_wf [rotated])
  show "in_window (skip_in j b) = drop j (in_window b)"
    using consumed_window [OF assms(1) adv] consumed_length [OF assms(1) adv] by simp
  show "avail_in (skip_in j b) = avail_in b - j"
    using assms wf by (simp add: avail_in_wf)
qed

text \<open>What the loop over a held prefix does with the bytes of the buffer.\<close>

definition frames_kept :: "zu_int_frames \<Rightarrow> zu_int_frames \<Rightarrow> bool" where
  "frames_kept f f' \<longleftrightarrow> fr_kind f' = fr_kind f \<and> fr_flags f' = fr_flags f \<and> length (fr_held f') = length (fr_held f) \<and>
     fr_owed f' = fr_owed f \<and> fr_has_owed f' = fr_has_owed f"

definition extend_result :: "zu_int_frames \<Rightarrow> byte list \<Rightarrow> bool \<Rightarrow> zu_int_frames \<Rightarrow> nat \<Rightarrow> bool" where
  "extend_result f ws stop f' j \<longleftrightarrow> j \<le> length ws \<and> frames_kept f f' \<and>
     (if stop
      then j < length ws \<and> fr_n_held f + j < 4 \<and> fr_n_held f' = 0 \<and> fr_state f' = ZU_INT_FRAME_DONE \<and>
        \<not> magic_prefix (fr_kind f) (take (fr_n_held f) (fr_held f) @ take (Suc j) ws) \<and>
        magic_prefix (fr_kind f) (take (fr_n_held f) (fr_held f) @ take j ws)
      else fr_n_held f' = fr_n_held f + j \<and> j = min (4 - fr_n_held f) (length ws) \<and> fr_state f' = fr_state f \<and>
        take (fr_n_held f') (fr_held f') = take (fr_n_held f) (fr_held f) @ take j ws \<and>
        magic_prefix (fr_kind f) (take (fr_n_held f') (fr_held f')))"

definition frames_push :: "byte \<Rightarrow> zu_int_frames \<Rightarrow> zu_int_frames" where
  "frames_push x f = f\<lparr>fr_held := (fr_held f)[fr_n_held f := x], fr_n_held := fr_n_held f + 1\<rparr>"

lemma frames_push_held:
  "length (fr_held f) = 4 \<Longrightarrow> fr_n_held f < 4 \<Longrightarrow>
    take (Suc (fr_n_held f)) (fr_held (frames_push x f)) = take (fr_n_held f) (fr_held f) @ [x]"
  by (simp add: frames_push_def take_Suc_update)

lemma frames_push_simps [simp]:
  "fr_n_held (frames_push x f) = Suc (fr_n_held f)" "fr_kind (frames_push x f) = fr_kind f"
  "fr_state (frames_push x f) = fr_state f" "length (fr_held (frames_push x f)) = length (fr_held f)"
  "frames_kept f (frames_push x f)"
  by (simp_all add: frames_push_def frames_kept_def)

lemma frames_extend_turn:
  assumes "fr_n_held f < 4" "0 < avail" "length (fr_held f) = 4"
  shows "frames_extend f b avail =
    (if magic_prefix (fr_kind f) (take (fr_n_held f) (fr_held f) @ [src_byte b 0])
     then frames_extend (frames_push (src_byte b 0) f) (skip_in 1 b) (avail - 1)
     else (True, f\<lparr>fr_held := (fr_held f)[fr_n_held f := src_byte b 0], fr_n_held := 0, fr_state := ZU_INT_FRAME_DONE\<rparr>, b))"
proof -
  have "zu_int_frames_is_prefix (fr_kind f) ((fr_held f)[fr_n_held f := src_byte b 0]) (fr_n_held f + 1) \<longleftrightarrow>
      magic_prefix (fr_kind f) (take (fr_n_held f) (fr_held f) @ [src_byte b 0])"
    using assms by (subst is_prefix_held) (simp_all add: take_Suc_update)
  with assms show ?thesis
    by (subst frames_extend.simps) (simp add: Let_def frames_push_def)
qed

lemma extend_result_push:
  assumes "length (fr_held f) = 4" "fr_n_held f < 4" "extend_result (frames_push x f) ws stop f' j"
  shows "extend_result f (x # ws) stop f' (Suc j)"
proof -
  have "frames_kept f f'" using assms(3) by (simp add: extend_result_def frames_kept_def frames_push_def)
  moreover have "min (4 - fr_n_held f) (Suc (length ws)) = Suc (min (3 - fr_n_held f) (length ws))"
    using assms(2) by arith
  ultimately show ?thesis
    using assms by (cases stop) (auto simp: extend_result_def frames_push_held)
qed

lemma frames_extend_spec:
  assumes "buf_wf b" "avail = avail_in b" "length (fr_held f) = 4" "fr_n_held f \<le> 4"
    and "magic_prefix (fr_kind f) (take (fr_n_held f) (fr_held f))"
  shows "\<exists>stop f' j. frames_extend f b avail = (stop, f', skip_in j b) \<and> extend_result f (in_window b) stop f' j"
  using assms
proof (induction avail arbitrary: f b)
  case 0
  then have "frames_extend f b 0 = (False, f, skip_in 0 b)" "in_window b = []"
    using in_window_length [of b] by (simp_all add: frames_extend.simps skip_in_def)
  with "0.prems" show ?case by (auto simp: extend_result_def frames_kept_def)
next
  case (Suc n)
  have len: "length (in_window b) = Suc n" using in_window_length [OF Suc.prems(1)] Suc.prems(2) by simp
  show ?case
  proof (cases "fr_n_held f = 4")
    case True
    then have "frames_extend f b (Suc n) = (False, f, skip_in 0 b)"
      by (simp add: frames_extend.simps skip_in_def)
    moreover have "extend_result f (in_window b) False f 0"
      using True Suc.prems by (simp add: extend_result_def frames_kept_def)
    ultimately show ?thesis by blast
  next
    case False
    then have lt: "fr_n_held f < 4" using Suc.prems(4) by simp
    obtain w ws where w: "in_window b = w # ws" using len by (cases "in_window b") auto
    have x: "src_byte b 0 = w" using src_byte_window [OF Suc.prems(1), of 0] Suc.prems(2) w by simp
    note turn = frames_extend_turn [OF lt zero_less_Suc Suc.prems(3), of b n, unfolded x]
    have sw: "buf_wf (skip_in 1 b)" "n = avail_in (skip_in 1 b)" "in_window (skip_in 1 b) = ws"
      using skip_in_window [OF Suc.prems(1), of 1] Suc.prems(2) w by simp_all
    show ?thesis
    proof (cases "magic_prefix (fr_kind f) (take (fr_n_held f) (fr_held f) @ [w])")
      case True
      then obtain stop f' j where r: "frames_extend (frames_push w f) (skip_in 1 b) n = (stop, f', skip_in j (skip_in 1 b))"
        and e: "extend_result (frames_push w f) ws stop f' j"
        using Suc.IH [of "skip_in 1 b" "frames_push w f"] sw lt Suc.prems(3) frames_push_held [OF Suc.prems(3) lt]
        by auto
      have "frames_extend f b (Suc n) = (stop, f', skip_in (Suc j) b)"
        using r turn True by (simp add: skip_in_def)
      with extend_result_push [OF Suc.prems(3) lt e] show ?thesis unfolding w by blast
    next
      case False
      with turn have "frames_extend f b (Suc n) = (True, f\<lparr>fr_held := (fr_held f)[fr_n_held f := w], fr_n_held := 0,
          fr_state := ZU_INT_FRAME_DONE\<rparr>, skip_in 0 b)"
        by (simp add: skip_in_def)
      moreover have "extend_result f (in_window b) True (f\<lparr>fr_held := (fr_held f)[fr_n_held f := w], fr_n_held := 0,
          fr_state := ZU_INT_FRAME_DONE\<rparr>) 0"
        using False lt w Suc.prems(5) by (simp add: extend_result_def frames_kept_def)
      ultimately show ?thesis by blast
    qed
  qed
qed

subsection \<open>One call between frames\<close>

definition frames_prefix :: "zu_int_frames \<Rightarrow> byte list" where
  "frames_prefix f = take (fr_n_held f) (fr_held f)"

lemma frames_prefix_length: "frames_wf f \<Longrightarrow> length (frames_prefix f) = fr_n_held f"
  by (simp add: frames_wf_def frames_prefix_def)

lemma magic_prefix_take: "magic_prefix kind p \<Longrightarrow> magic_prefix kind (take k p)"
  by (metis append_take_drop_id magic_prefix_append)

text \<open>The state in which the decision is open and another frame is allowed.\<close>

definition frames_open :: "zu_int_frames \<Rightarrow> bool" where
  "frames_open f \<longleftrightarrow> frames_wf f \<and> fr_state f = ZU_INT_FRAME_BETWEEN \<and> has_flag (fr_flags f) ZU_DEC_CONCAT_MEMBERS"

lemma between_open:
  "frames_open f \<Longrightarrow> zu_int_frames_between f b flush feed c =
    (if fr_n_held f = 0 then (case frames_first f b flush of (st, f', b') \<Rightarrow> (st, f', b', c))
     else frames_resume f b flush feed c)"
  by (simp add: zu_int_frames_between_def frames_open_def)

lemma frames_first_prefix:
  assumes "buf_wf b" "k = min 4 (avail_in b)"
  shows "zu_int_frames_is_prefix kind (seg (src_mem b) (src_pos b) (src_pos b + k)) k \<longleftrightarrow>
      magic_prefix kind (take k (in_window b))"
    and "seg (src_mem b) (src_pos b) (src_pos b + k) = take k (in_window b)"
proof -
  show s: "seg (src_mem b) (src_pos b) (src_pos b + k) = take k (in_window b)"
    using skip_in_seg [OF assms(1), of k] assms(2) by simp
  show "zu_int_frames_is_prefix kind (seg (src_mem b) (src_pos b) (src_pos b + k)) k \<longleftrightarrow>
      magic_prefix kind (take k (in_window b))"
    unfolding s using in_window_length [OF assms(1)] assms(2) by (subst is_prefix_held) simp_all
qed

lemma open_extend:
  assumes "frames_open f" "buf_wf b"
  obtains stop f' j where "frames_extend f b (avail_in b) = (stop, f', skip_in j b)"
    and "extend_result f (in_window b) stop f' j"
  using frames_extend_spec [OF assms(2) refl, of f] assms(1) by (auto simp: frames_open_def frames_wf_def)

text \<open>More input may settle it: everything offered is taken and held.\<close>

lemma between_undecided:
  assumes f: "frames_open f" and wf: "buf_wf b" and fl: "flush \<noteq> ZU_FINISH"
    and p: "length (frames_prefix f @ in_window b) < 4" "magic_prefix (fr_kind f) (frames_prefix f @ in_window b)"
  shows "\<exists>f'. zu_int_frames_between f b flush feed c = (ZU_NEED_INPUT, f', skip_in (avail_in b) b, c) \<and>
    frames_open f' \<and> frames_kept f f' \<and> frames_prefix f' = frames_prefix f @ in_window b"
proof (cases "fr_n_held f = 0")
  case True
  have len: "length (in_window b) = avail_in b" by (rule in_window_length [OF wf])
  with True p have lt: "avail_in b < 4" and pre: "magic_prefix (fr_kind f) (in_window b)"
    by (simp_all add: frames_prefix_def)
  show ?thesis
  proof (cases "avail_in b = 0")
    case a: True
    with len have "in_window b = []" by simp
    with a True f fl show ?thesis
      by (auto simp: between_open frames_first_def skip_in_def frames_kept_def)
  next
    case False
    let ?f = "f\<lparr>fr_held := write_at (fr_held f) 0 (in_window b), fr_n_held := avail_in b\<rparr>"
    have 4: "length (fr_held f) = 4" using f by (simp add: frames_open_def frames_wf_def)
    have k: "avail_in b = min 4 (avail_in b)" using lt by simp
    have "zu_int_frames_between f b flush feed c = (ZU_NEED_INPUT, ?f, skip_in (avail_in b) b, c)"
      using frames_first_prefix(1) [OF wf k, of "fr_kind f"] frames_first_prefix(2) [OF wf k] False True lt fl pre len
      by (simp add: between_open [OF f] frames_first_def Let_def)
    moreover have "take (avail_in b) (write_at (fr_held f) 0 (in_window b)) = in_window b"
      using len by (simp add: write_at_def)
    moreover have "length (write_at (fr_held f) 0 (in_window b)) = 4"
      using 4 len lt by (simp add: write_at_def)
    ultimately show ?thesis
      using f pre lt True 4 by (auto simp: frames_open_def frames_wf_def frames_prefix_def frames_kept_def)
  qed
next
  case False
  obtain stop f' j where e: "frames_extend f b (avail_in b) = (stop, f', skip_in j b)"
    and r: "extend_result f (in_window b) stop f' j"
    by (rule open_extend [OF f wf])
  have n: "length (frames_prefix f) = fr_n_held f" using f by (simp add: frames_open_def frames_prefix_length)
  have "\<not> stop"
  proof
    assume stop
    with r have "\<not> magic_prefix (fr_kind f) (frames_prefix f @ take (Suc j) (in_window b))"
      by (simp add: extend_result_def frames_prefix_def)
    moreover have "frames_prefix f @ in_window b = (frames_prefix f @ take (Suc j) (in_window b)) @ drop (Suc j) (in_window b)"
      by simp
    ultimately show False using p(2) magic_prefix_append by metis
  qed
  with r p(1) n in_window_length [OF wf] have f': "fr_n_held f' = fr_n_held f + avail_in b" "j = avail_in b"
      "frames_kept f f'" "fr_state f' = fr_state f" "frames_prefix f' = frames_prefix f @ in_window b"
    by (auto simp: extend_result_def frames_prefix_def)
  have "fr_n_held f' < 4" using p(1) n f'(1) in_window_length [OF wf] by simp
  with \<open>\<not> stop\<close> e f' p f fl False show ?thesis
    by (auto simp: between_open frames_resume_def frames_open_def frames_wf_def frames_kept_def frames_prefix_def)
qed

text \<open>A magic is complete: a new frame begins.\<close>

lemma between_magic:
  assumes f: "frames_open f" and wf: "buf_wf b"
    and p: "4 \<le> length (frames_prefix f @ in_window b)" "frame_magic (fr_kind f) (take 4 (frames_prefix f @ in_window b))"
    and feed: "\<And>m. feed c m = (ZU_OK, fed m)"
  shows "\<exists>f' j c'. zu_int_frames_between f b flush feed c = (ZU_OK, f', skip_in j b, c') \<and> j \<le> avail_in b"
proof (cases "fr_n_held f = 0")
  case True
  have len: "length (in_window b) = avail_in b" by (rule in_window_length [OF wf])
  with True p have ge: "4 \<le> avail_in b" and m: "frame_magic (fr_kind f) (take 4 (in_window b))"
    by (simp_all add: frames_prefix_def)
  have k: "4 = min 4 (avail_in b)" using ge by simp
  have "magic_prefix (fr_kind f) (take 4 (in_window b))" using m ge len by (simp add: magic_prefix_4)
  with frames_first_prefix(1) [OF wf k, of "fr_kind f"] frames_first_prefix(2) [OF wf k] True ge
  have "zu_int_frames_between f b flush feed c = (ZU_OK, f\<lparr>fr_state := ZU_INT_FRAME_BODY\<rparr>, skip_in 0 b, c)"
    by (simp add: between_open [OF f] frames_first_def Let_def skip_in_def)
  then show ?thesis by blast
next
  case False
  obtain stop f' j where e: "frames_extend f b (avail_in b) = (stop, f', skip_in j b)"
    and r: "extend_result f (in_window b) stop f' j"
    by (rule open_extend [OF f wf])
  have n: "length (frames_prefix f) = fr_n_held f" using f by (simp add: frames_open_def frames_prefix_length)
  have "\<not> stop"
  proof
    assume stop
    with r have nm: "\<not> magic_prefix (fr_kind f) (frames_prefix f @ take (Suc j) (in_window b))" and lt: "fr_n_held f + j < 4"
      by (simp_all add: extend_result_def frames_prefix_def)
    have "take (fr_n_held f + Suc j) (take 4 (frames_prefix f @ in_window b)) = frames_prefix f @ take (Suc j) (in_window b)"
    proof -
      have "Suc j \<le> 4 - fr_n_held f" and "fr_n_held f + Suc j \<le> 4" using lt by linarith+
      then show ?thesis using n by (simp add: take_take min_absorb1)
    qed
    moreover have "magic_prefix (fr_kind f) (take 4 (frames_prefix f @ in_window b))"
      using p by (simp add: magic_prefix_4)
    ultimately show False using nm magic_prefix_take by metis
  qed
  moreover from this r p(1) n in_window_length [OF wf] have "fr_n_held f' = 4" "j \<le> avail_in b"
    using f by (auto simp: extend_result_def frames_open_def frames_wf_def)
  ultimately show ?thesis
    using e feed False by (auto simp: between_open [OF f] frames_resume_def Let_def)
qed

text \<open>No magic can come of it: the stream is over and the disproving byte is still in the buffer.\<close>

lemma between_disproved:
  assumes f: "frames_open f" and wf: "buf_wf b"
    and p: "\<not> magic_prefix (fr_kind f) (take 4 (frames_prefix f @ in_window b))"
  shows "\<exists>f' j. zu_int_frames_between f b flush feed c = (ZU_STREAM_END, f', skip_in j b, c) \<and> j < avail_in b \<and>
    fr_state f' = ZU_INT_FRAME_DONE"
proof (cases "fr_n_held f = 0")
  case True
  have len: "length (in_window b) = avail_in b" by (rule in_window_length [OF wf])
  let ?k = "min 4 (avail_in b)"
  have np: "\<not> magic_prefix (fr_kind f) (take ?k (in_window b))"
    using True p len by (cases "avail_in b \<le> 4") (simp_all add: frames_prefix_def min_def)
  then have "avail_in b \<noteq> 0" using magic_prefix_Nil [of "fr_kind f"] by (cases "avail_in b = 0") simp_all
  with np frames_first_prefix(1) [OF wf refl, of "fr_kind f"] True
  have "zu_int_frames_between f b flush feed c = (ZU_STREAM_END, f\<lparr>fr_state := ZU_INT_FRAME_DONE\<rparr>, skip_in 0 b, c)"
    by (auto simp: between_open [OF f] frames_first_def Let_def skip_in_def min_def)
  with \<open>avail_in b \<noteq> 0\<close> show ?thesis by fastforce
next
  case False
  obtain stop f' j where e: "frames_extend f b (avail_in b) = (stop, f', skip_in j b)"
    and r: "extend_result f (in_window b) stop f' j"
    by (rule open_extend [OF f wf])
  have n: "length (frames_prefix f) = fr_n_held f" "fr_n_held f < 4"
    using f by (simp_all add: frames_open_def frames_prefix_length frames_wf_def)
  have stop
  proof (rule ccontr)
    assume "\<not> stop"
    with r have m: "magic_prefix (fr_kind f) (frames_prefix f @ take j (in_window b))"
      and j: "j = min (4 - fr_n_held f) (length (in_window b))"
      by (auto simp: extend_result_def frames_prefix_def)
    have "take 4 (frames_prefix f @ in_window b) = frames_prefix f @ take j (in_window b)"
      using n j by (auto simp: min_def)
    with m p show False by simp
  qed
  with e r False in_window_length [OF wf] show ?thesis
    by (auto simp: between_open [OF f] frames_resume_def extend_result_def)
qed

text \<open>The input is over with a prefix held, or with nothing.\<close>

lemma between_finish:
  assumes f: "frames_open f" and wf: "buf_wf b" and e: "avail_in b = 0"
  shows "\<exists>f'. zu_int_frames_between f b ZU_FINISH feed c =
    (if frames_prefix f \<noteq> [] \<and> has_flag (fr_flags f) ZU_DEC_REJECT_TRAILING then ZU_ERR_TRAILING else ZU_STREAM_END, f', b, c) \<and>
    fr_state f' = ZU_INT_FRAME_DONE"
proof -
  have n: "length (frames_prefix f) = fr_n_held f" "fr_n_held f < 4"
    using f by (simp_all add: frames_open_def frames_prefix_length frames_wf_def)
  show ?thesis
  proof (cases "fr_n_held f = 0")
    case True
    with n e show ?thesis by (simp add: between_open [OF f] frames_first_def)
  next
    case False
    with n have "frames_prefix f \<noteq> []" "frames_extend f b 0 = (False, f, b)"
      by (auto simp: frames_extend.simps)
    with False e n show ?thesis by (auto simp: between_open [OF f] frames_resume_def Let_def)
  qed
qed

subsection \<open>Chunk independence\<close>

datatype frames_verdict = Frame_follows | Stream_over | Trailing_bytes

text \<open>What the bytes after a frame are, seen at once.\<close>

definition frames_classify :: "zu_int_frames_kind \<Rightarrow> byte list \<Rightarrow> frames_verdict" where
  "frames_classify kind t =
     (if t = [] then Stream_over
      else if 4 \<le> length t \<and> frame_magic kind (take 4 t) then Frame_follows else Trailing_bytes)"

text \<open>What the driver makes of the answer under \<^const>\<open>ZU_DEC_REJECT_TRAILING\<close>: the end of the stream with
  bytes left in the buffer is a refusal too.\<close>

definition frames_answer :: "zu_status \<Rightarrow> zu_buffer \<Rightarrow> frames_verdict option" where
  "frames_answer st b =
     (if st = ZU_OK then Some Frame_follows
      else if st = ZU_STREAM_END then Some (if src_pos b < src_size b then Trailing_bytes else Stream_over)
      else if st = ZU_ERR_TRAILING then Some Trailing_bytes
      else None)"

text \<open>The bytes arrive in chunks, and then \<^const>\<open>ZU_FINISH\<close> with an empty buffer.\<close>

fun frames_drive ::
  "zu_int_frames \<Rightarrow> 'c zu_int_frames_feed \<Rightarrow> 'c \<Rightarrow> byte list list \<Rightarrow> frames_verdict option" where
  "frames_drive f feed c [] =
     (case zu_int_frames_between f (one_shot_buffer [] []) ZU_FINISH feed c of
        (st, f', b, c') \<Rightarrow> frames_answer st b)"
| "frames_drive f feed c (x # xs) =
     (case zu_int_frames_between f (one_shot_buffer x []) ZU_RUN feed c of
        (st, f', b, c') \<Rightarrow> if st = ZU_NEED_INPUT then frames_drive f' feed c' xs else frames_answer st b)"

lemma frames_drive_classify:
  assumes "frames_open f" "has_flag (fr_flags f) ZU_DEC_REJECT_TRAILING"
    and "\<And>c m. fst (feed c m) = ZU_OK" and "\<forall>x \<in> set xs. length x \<le> SIZE_MAX"
  shows "frames_drive f feed c xs = Some (frames_classify (fr_kind f) (frames_prefix f @ concat xs))"
  using assms(1,2,4)
proof (induction xs arbitrary: f c)
  case Nil
  have wf: "buf_wf (one_shot_buffer [] [])" by (rule one_shot_buffer_wf) simp_all
  have "length (frames_prefix f) < 4"
    using Nil.prems(1) by (simp add: frames_open_def frames_prefix_length) (simp add: frames_wf_def)
  with between_finish [OF Nil.prems(1) wf, of feed c] Nil.prems(2) show ?case
    by (auto simp: avail_in_def frames_answer_def frames_classify_def)
next
  case (Cons x xs)
  let ?b = "one_shot_buffer x []"
  have wf: "buf_wf ?b" using Cons.prems(3) by (intro one_shot_buffer_wf) simp_all
  have win: "in_window ?b = x" "avail_in ?b = length x" by (simp_all add: in_window_def seg_full avail_in_def)
  let ?p = "frames_prefix f @ x"
  show ?case
  proof (cases "magic_prefix (fr_kind f) (take 4 ?p)")
    case False
    have "\<not> frame_magic (fr_kind f) (take 4 (?p @ concat xs))"
    proof
      assume m: "frame_magic (fr_kind f) (take 4 (?p @ concat xs))"
      from frame_magic_length [OF this] have "magic_prefix (fr_kind f) (take 4 (?p @ concat xs))"
        using m by (simp add: magic_prefix_4)
      then have "magic_prefix (fr_kind f) (take (length (take 4 ?p)) (take 4 (?p @ concat xs)))"
        by (rule magic_prefix_take)
      moreover have "take (length (take 4 ?p)) (take 4 (?p @ concat xs)) = take 4 ?p"
        by (simp add: min_def)
      ultimately show False using False by simp
    qed
    moreover have "?p \<noteq> []" using False magic_prefix_Nil by auto
    ultimately have "frames_classify (fr_kind f) (?p @ concat xs) = Trailing_bytes"
      by (auto simp: frames_classify_def)
    with between_disproved [OF Cons.prems(1) wf, of ZU_RUN feed c] False win show ?thesis
      by (auto simp: frames_answer_def)
  next
    case True
    show ?thesis
    proof (cases "length ?p < 4")
      case lt: True
      then have "magic_prefix (fr_kind f) ?p" using True by simp
      with between_undecided [OF Cons.prems(1) wf, of ZU_RUN feed c] lt win obtain f' where
        b: "zu_int_frames_between f ?b ZU_RUN feed c = (ZU_NEED_INPUT, f', skip_in (length x) ?b, c)"
        and f': "frames_open f'" "frames_kept f f'" "frames_prefix f' = ?p"
        by auto
      from Cons.IH [OF f'(1)] Cons.prems(2,3) f'(2,3) b show ?thesis by (simp add: frames_kept_def)
    next
      case False
      then have m: "frame_magic (fr_kind f) (take 4 ?p)" using True by (simp add: magic_prefix_4)
      have fd: "feed c q = (ZU_OK, snd (feed c q))" for q using assms(3) [of c q] by (simp add: prod_eq_iff)
      have "frames_classify (fr_kind f) (?p @ concat xs) = Frame_follows"
        using False m by (auto simp: frames_classify_def)
      with between_magic [OF Cons.prems(1) wf, of feed c "\<lambda>q. snd (feed c q)" ZU_RUN] fd False m win show ?thesis
        by (auto simp: frames_answer_def)
    qed
  qed
qed

subsection \<open>The outcomes of one call\<close>

lemma frames_keptD:
  "frames_kept f f' \<Longrightarrow> fr_kind f' = fr_kind f \<and> fr_flags f' = fr_flags f \<and> fr_owed f' = fr_owed f \<and>
    fr_has_owed f' = fr_has_owed f"
  by (simp add: frames_kept_def)

lemma magic_prefix_short: "magic_prefix kind p \<Longrightarrow> length p \<le> 4"
  unfolding magic_prefix_def using frame_magic_length by (metis nat_le_linear take_all)

lemma frames_wf_done [simp]:
  "frames_wf f \<Longrightarrow> frames_wf (f\<lparr>fr_state := st\<rparr>)"
  "length (fr_held f) = 4 \<Longrightarrow> frames_wf (f\<lparr>fr_n_held := 0, fr_state := st\<rparr>)"
  "length (fr_held f) = 4 \<Longrightarrow> frames_wf (f\<lparr>fr_n_held := 0\<rparr>)"
  by (simp_all add: frames_wf_def magic_prefix_Nil)

lemma frames_kept_refl [simp]: "frames_kept f f" "frames_kept f (f\<lparr>fr_state := st\<rparr>)"
  "frames_kept f f' \<Longrightarrow> frames_kept f (f'\<lparr>fr_n_held := n\<rparr>)"
  "frames_kept f f' \<Longrightarrow> frames_kept f (f'\<lparr>fr_n_held := n, fr_state := st\<rparr>)"
  by (simp_all add: frames_kept_def)

text \<open>What a call between frames did: the stream is over, with a tail of at most three bytes that
  begin a magic; or the bytes are held and more are needed; or the magic is visible and untouched;
  or the held magic is complete and was handed to the library.\<close>

datatype between_outcome = Between_over | Between_held | Between_visible | Between_fed

definition between_did ::
  "between_outcome \<Rightarrow> 'c zu_int_frames_feed \<Rightarrow> zu_int_frames \<Rightarrow> zu_buffer \<Rightarrow> 'c \<Rightarrow> zu_status \<Rightarrow> zu_int_frames \<Rightarrow> nat \<Rightarrow> 'c \<Rightarrow> bool" where
  "between_did oc feed f b c st f' j c' \<longleftrightarrow>
     (let got = frames_prefix f @ take j (in_window b)
      in case oc of
           Between_over \<Rightarrow> (st = ZU_STREAM_END \<or> st = ZU_ERR_TRAILING) \<and> fr_state f' = ZU_INT_FRAME_DONE \<and> c' = c \<and>
             fr_n_held f' = 0 \<and> (j \<noteq> 0 \<longrightarrow> has_flag (fr_flags f) ZU_DEC_CONCAT_MEMBERS) \<and> length got < 4 \<and> magic_prefix (fr_kind f) got
         | Between_held \<Rightarrow> st = ZU_NEED_INPUT \<and> fr_state f' = ZU_INT_FRAME_BETWEEN \<and> c' = c \<and> frames_prefix f' = got \<and>
             has_flag (fr_flags f) ZU_DEC_CONCAT_MEMBERS
         | Between_visible \<Rightarrow> st = ZU_OK \<and> fr_state f' = ZU_INT_FRAME_BODY \<and> c' = c \<and> j = 0 \<and> got = [] \<and>
             fr_n_held f' = 0 \<and> 4 \<le> avail_in b
         | Between_fed \<Rightarrow> feed c got = (st, c') \<and> 0 < j \<and> frame_magic (fr_kind f) got \<and> fr_n_held f' = 0 \<and>
             fr_state f' = (if st = ZU_OK then ZU_INT_FRAME_BODY else ZU_INT_FRAME_BETWEEN))"

lemma frames_first_did:
  assumes f: "frames_open f" "fr_n_held f = 0" and wf: "buf_wf b"
  shows "\<exists>st f' j oc. frames_first f b flush = (st, f', skip_in j b) \<and> j \<le> avail_in b \<and> frames_wf f' \<and>
    frames_kept f f' \<and> between_did oc feed f b c st f' j c"
proof -
  let ?k = "min 4 (avail_in b)"
  let ?p = "take ?k (in_window b)"
  have w: "frames_wf f" "fr_state f = ZU_INT_FRAME_BETWEEN" "length (fr_held f) = 4"
    and cc: "has_flag (fr_flags f) ZU_DEC_CONCAT_MEMBERS"
    using f by (simp_all add: frames_open_def frames_wf_def)
  have nil: "frames_prefix f = []" using f(2) by (simp add: frames_prefix_def)
  have len: "length ?p = ?k" using in_window_length [OF wf] by simp
  note p = frames_first_prefix(1) [OF wf refl, of "fr_kind f"] frames_first_prefix(2) [OF wf refl]
  have over: "\<exists>st f' j oc. (ZU_STREAM_END, f\<lparr>fr_state := ZU_INT_FRAME_DONE\<rparr>, b) = (st, f', skip_in j b) \<and>
      j \<le> avail_in b \<and> frames_wf f' \<and> frames_kept f f' \<and> between_did oc feed f b c st f' j c"
    by (intro exI [of _ ZU_STREAM_END] exI [of _ "f\<lparr>fr_state := ZU_INT_FRAME_DONE\<rparr>"] exI [of _ "0::nat"]
        exI [of _ Between_over])
      (simp add: skip_in_def between_did_def nil magic_prefix_Nil w(1) f(2))
  have "?p = [] \<or> avail_in b \<noteq> 0" by auto
  consider "avail_in b = 0" "flush \<noteq> ZU_FINISH" | "avail_in b = 0" "flush = ZU_FINISH"
    | "avail_in b \<noteq> 0" "\<not> magic_prefix (fr_kind f) ?p"
    | "avail_in b \<noteq> 0" "magic_prefix (fr_kind f) ?p" "4 \<le> avail_in b"
    | "avail_in b \<noteq> 0" "magic_prefix (fr_kind f) ?p" "avail_in b < 4" "flush = ZU_FINISH"
    | "avail_in b \<noteq> 0" "magic_prefix (fr_kind f) ?p" "avail_in b < 4" "flush \<noteq> ZU_FINISH"
    by linarith
  then show ?thesis
  proof cases
    case 1
    then show ?thesis
      by (intro exI [of _ ZU_NEED_INPUT] exI [of _ f] exI [of _ "0::nat"] exI [of _ Between_held])
        (simp add: frames_first_def skip_in_def between_did_def nil w cc)
  next
    case 2
    then show ?thesis using over by (simp add: frames_first_def)
  next
    case 3
    then have "frames_first f b flush = (ZU_STREAM_END, f\<lparr>fr_state := ZU_INT_FRAME_DONE\<rparr>, b)"
      using p by (auto simp: frames_first_def Let_def min_def)
    then show ?thesis using over by simp
  next
    case 4
    then have "frames_first f b flush = (ZU_OK, f\<lparr>fr_state := ZU_INT_FRAME_BODY\<rparr>, skip_in 0 b)"
      using p by (simp add: frames_first_def Let_def skip_in_def)
    with 4 f(2) w(1) show ?thesis
      by (intro exI [of _ ZU_OK] exI [of _ "f\<lparr>fr_state := ZU_INT_FRAME_BODY\<rparr>"] exI [of _ "0::nat"]
          exI [of _ Between_visible]) (simp add: between_did_def nil)
  next
    case 5
    then have "frames_first f b flush = (ZU_STREAM_END, f\<lparr>fr_state := ZU_INT_FRAME_DONE\<rparr>, b)"
      using p by (simp add: frames_first_def Let_def)
    then show ?thesis using over by simp
  next
    case 6
    let ?f = "f\<lparr>fr_held := write_at (fr_held f) 0 (in_window b), fr_n_held := avail_in b\<rparr>"
    have len: "length (in_window b) = avail_in b" by (rule in_window_length [OF wf])
    have e: "frames_first f b flush = (ZU_NEED_INPUT, ?f, skip_in (avail_in b) b)"
      using 6 p len by (simp add: frames_first_def Let_def)
    have held: "take (avail_in b) (fr_held ?f) = in_window b"
      using len by (simp add: write_at_def)
    have "frames_wf ?f" "frames_kept f ?f"
      using 6 w(3) len held by (simp_all add: frames_wf_def frames_kept_def)
    moreover have "frames_prefix ?f = in_window b" using held by (simp add: frames_prefix_def)
    ultimately show ?thesis using e w(2) len nil cc
      by (intro exI [of _ ZU_NEED_INPUT] exI [of _ ?f] exI [of _ "avail_in b"] exI [of _ Between_held])
        (simp add: between_did_def)
  qed
qed

lemma frames_resume_did:
  assumes f: "frames_open f" "fr_n_held f \<noteq> 0" and wf: "buf_wf b"
  shows "\<exists>st f' j c' oc. frames_resume f b flush feed c = (st, f', skip_in j b, c') \<and> j \<le> avail_in b \<and> frames_wf f' \<and>
    frames_kept f f' \<and> between_did oc feed f b c st f' j c'"
proof -
  obtain stop f1 j where e: "frames_extend f b (avail_in b) = (stop, f1, skip_in j b)"
    and r: "extend_result f (in_window b) stop f1 j"
    by (rule open_extend [OF f(1) wf])
  have w: "frames_wf f" "length (fr_held f) = 4" "fr_n_held f < 4" "fr_state f = ZU_INT_FRAME_BETWEEN"
    and cc: "has_flag (fr_flags f) ZU_DEC_CONCAT_MEMBERS"
    using f by (simp_all add: frames_open_def frames_wf_def)
  have len: "length (in_window b) = avail_in b" by (rule in_window_length [OF wf])
  have j: "j \<le> avail_in b" and k: "frames_kept f f1" "length (fr_held f1) = 4"
    using r w(2) len by (auto simp: extend_result_def frames_kept_def)
  have plen: "length (frames_prefix f @ take j (in_window b)) = fr_n_held f + j"
    using frames_prefix_length [OF w(1)] j len by simp
  show ?thesis
  proof (cases stop)
    case True
    have e': "frames_resume f b flush feed c = (ZU_STREAM_END, f1, skip_in j b, c)"
      using e True by (simp add: frames_resume_def)
    have s: "fr_n_held f1 = 0" "fr_state f1 = ZU_INT_FRAME_DONE" "fr_n_held f + j < 4"
      "magic_prefix (fr_kind f) (frames_prefix f @ take j (in_window b))"
      using r True by (simp_all add: extend_result_def frames_prefix_def)
    have "frames_wf f1" using s(1) k(2) by (simp add: frames_wf_def magic_prefix_Nil)
    with e' s k j plen cc show ?thesis
      by (intro exI [of _ ZU_STREAM_END] exI [of _ f1] exI [of _ j] exI [of _ c] exI [of _ Between_over])
        (simp add: between_did_def Let_def)
  next
    case False
    have s: "fr_n_held f1 = fr_n_held f + j" "j = min (4 - fr_n_held f) (avail_in b)" "fr_state f1 = fr_state f"
      "frames_prefix f1 = frames_prefix f @ take j (in_window b)" "magic_prefix (fr_kind f) (frames_prefix f1)"
      using r False unfolding extend_result_def len frames_prefix_def by (metis (full_types))+
    show ?thesis
    proof (cases "fr_n_held f1 = 4")
      case True
      have pre: "frames_prefix f1 = take 4 (fr_held f1)" using True by (simp add: frames_prefix_def)
      obtain st c1 where fd: "feed c (take 4 (fr_held f1)) = (st, c1)" by fastforce
      let ?f = "if st = ZU_OK then f1\<lparr>fr_n_held := 0, fr_state := ZU_INT_FRAME_BODY\<rparr> else f1\<lparr>fr_n_held := 0\<rparr>"
      have e': "frames_resume f b flush feed c = (st, ?f, skip_in j b, c1)"
        using e False True fd by (simp add: frames_resume_def Let_def)
      have "frame_magic (fr_kind f) (frames_prefix f1)"
        using s(5) plen True s(1,4) by (simp add: magic_prefix_4)
      moreover have "0 < j" using True s(1) w(3) by linarith
      moreover have "frames_wf ?f" "frames_kept f ?f" using k by simp_all
      ultimately show ?thesis using e' j fd pre s(3,4) w(4)
        by (intro exI [of _ st] exI [of _ ?f] exI [of _ j] exI [of _ c1] exI [of _ Between_fed])
          (simp add: between_did_def Let_def)
    next
      case n4: False
      have lt: "fr_n_held f1 < 4" using n4 s(1,2) w(3) by linarith
      have wf1: "frames_wf f1" using k lt s(5) by (simp add: frames_wf_def frames_prefix_def frames_kept_def)
      show ?thesis
      proof (cases "flush = ZU_FINISH")
        case True
        let ?st = "if has_flag (fr_flags f1) ZU_DEC_REJECT_TRAILING then ZU_ERR_TRAILING else ZU_STREAM_END"
        let ?f = "f1\<lparr>fr_n_held := 0, fr_state := ZU_INT_FRAME_DONE\<rparr>"
        have e': "frames_resume f b flush feed c = (?st, ?f, skip_in j b, c)"
          using e False True n4 by (simp add: frames_resume_def Let_def)
        with j k s lt plen cc show ?thesis
          by (intro exI [of _ ?st] exI [of _ ?f] exI [of _ j] exI [of _ c] exI [of _ Between_over])
            (simp add: between_did_def Let_def)
      next
        case nf: False
        have e': "frames_resume f b flush feed c = (ZU_NEED_INPUT, f1, skip_in j b, c)"
          using e False nf n4 by (simp add: frames_resume_def Let_def)
        with j k s wf1 w(4) cc show ?thesis
          by (intro exI [of _ ZU_NEED_INPUT] exI [of _ f1] exI [of _ j] exI [of _ c] exI [of _ Between_held])
            (simp add: between_did_def Let_def)
      qed
    qed
  qed
qed

text \<open>Every call keeps the invariant and the cursor discipline, and has one of the four outcomes.\<close>

lemma between_outcome:
  assumes f: "frames_wf f" "fr_state f \<noteq> ZU_INT_FRAME_BODY" "fr_state f = ZU_INT_FRAME_DONE \<Longrightarrow> fr_n_held f = 0"
    "\<not> has_flag (fr_flags f) ZU_DEC_CONCAT_MEMBERS \<Longrightarrow> fr_n_held f = 0"
    and wf: "buf_wf b"
  obtains st f' j c' oc where "zu_int_frames_between f b flush feed c = (st, f', skip_in j b, c')" "j \<le> avail_in b"
    "frames_wf f'" "frames_kept f f'" "between_did oc feed f b c st f' j c'"
proof (cases "frames_open f")
  case True
  show thesis
  proof (cases "fr_n_held f = 0")
    case z: True
    from frames_first_did [OF True z wf, of flush feed c] that show thesis
      by (auto simp: between_open [OF True] z)
  next
    case False
    from frames_resume_did [OF True False wf, of flush feed c] that show thesis
      by (auto simp: between_open [OF True] False)
  qed
next
  case False
  have z: "fr_n_held f = 0" using False f by (cases "fr_state f") (auto simp: frames_open_def)
  have e: "zu_int_frames_between f b flush feed c = (ZU_STREAM_END, f\<lparr>fr_state := ZU_INT_FRAME_DONE\<rparr>, skip_in 0 b, c)"
    using False f(1,2) by (cases "fr_state f") (simp_all add: frames_open_def zu_int_frames_between_def skip_in_def)
  have "between_did Between_over feed f b c ZU_STREAM_END (f\<lparr>fr_state := ZU_INT_FRAME_DONE\<rparr>) 0 c"
    using z by (simp add: between_did_def frames_prefix_def magic_prefix_Nil)
  with f(1) show thesis by (intro that [OF e]) simp_all
qed

subsection \<open>Properties\<close>

text \<open>the byte comparison of \<^verbatim>\<open>zu_int_frames_is_prefix\<close> is exact. It holds of the first \<open>n\<close>
  bytes, at most four, precisely when they begin the format's own magic number or one of the
  sixteen skippable-frame magics.\<close>

theorem frames_magic_test_exact:
  assumes "n \<le> 4" "n \<le> length p"
  shows "zu_int_frames_is_prefix kind p n \<longleftrightarrow> (\<exists>m. frame_magic kind m \<and> take n m = take n p)"
  by (rule is_prefix_iff [OF assms(2)])

theorem frames_magic_test_exact_witness:
  "zu_int_frames_is_prefix ZU_INT_FRAMES_ZSTD [0x53, 0x2A, 0] 2 \<longleftrightarrow>
    (\<exists>m. frame_magic ZU_INT_FRAMES_ZSTD m \<and> take 2 m = take 2 [0x53, 0x2A, 0])"
  by (rule frames_magic_test_exact) simp_all


definition demo_frames :: zu_int_frames where
  "demo_frames = zu_int_frames_ended (zu_int_frames_init ZU_INT_FRAMES_LZ4 3)"


end
