(* ===== verification/Zu_Frame_Loop.thy ===== *)
theory Zu_Frame_Loop
  imports Zu_Frames
begin

text \<open>
  The process loop that the zstd and lz4-frame decoders share. Their C functions have the same
  shape and differ in the library behind them, so \<open>framed_turn\<close> states the shape once and the
  locale \<open>framed_decoder\<close> proves what follows from it: under the cursor discipline of the library
  every call returns, and what a decoder delivered at the end of a stream is exactly what the
  library decoded from the bytes consumed, its last call having reported a complete frame. The codec
  theories interpret the locale on their own functions.
\<close>

subsection \<open>Library calls\<close>

text \<open>
  A streaming call is given the input offered and the amount of output room. It returns its
  result code, the number of input bytes it used, the bytes it wrote into the room, how many of
  them it reports as output, and the context.
\<close>

type_synonym 'c frame_call = "'c \<Rightarrow> byte list \<Rightarrow> nat \<Rightarrow> nat \<times> nat \<times> byte list \<times> nat \<times> 'c"

definition write_out :: "byte list \<Rightarrow> zu_buffer \<Rightarrow> zu_buffer" where
  "write_out ws b = b\<lparr>dst := map_option (\<lambda>m. write_at m (dst_pos b) ws) (dst b)\<rparr>"

definition advance :: "nat \<Rightarrow> nat \<Rightarrow> zu_buffer \<Rightarrow> zu_buffer" where
  "advance used n b = b\<lparr>src_pos := src_pos b + used, dst_pos := dst_pos b + n\<rparr>"

lemma advance_pos [simp]:
  "src_pos (advance u n b) = src_pos b + u" "dst_pos (advance u n b) = dst_pos b + n"
  "src_size (advance u n b) = src_size b" "dst_size (advance u n b) = dst_size b"
  "src_mem (advance u n b) = src_mem b" "dst_mem (advance u n b) = dst_mem b"
  by (simp_all add: advance_def src_mem_def dst_mem_def)

lemma write_out_pos [simp]:
  "src_pos (write_out ws b) = src_pos b" "dst_pos (write_out ws b) = dst_pos b"
  "src_size (write_out ws b) = src_size b" "dst_size (write_out ws b) = dst_size b"
  "src_mem (write_out ws b) = src_mem b"
  by (simp_all add: write_out_def src_mem_def)

lemma dst_mem_write_out:
  "buf_wf b \<Longrightarrow> length ws \<le> avail_out b \<Longrightarrow> dst_mem (write_out ws b) = write_at (dst_mem b) (dst_pos b) ws"
  by (cases "dst b") (auto simp: write_out_def dst_mem_def avail_out_wf write_at_def buf_wf_def)

lemma write_out_adv:
  assumes "buf_wf b" "length ws \<le> avail_out b"
  shows "buf_adv b (write_out ws b)"
proof -
  from assms have len: "dst_pos b + length ws \<le> dst_size b" "dst_size b \<le> length (dst_mem b)"
    by (auto simp: avail_out_wf buf_wf_def)
  have fields: "src (write_out ws b) = src b" "(dst (write_out ws b) = None) = (dst b = None)"
    by (simp_all add: write_out_def)
  show ?thesis
    using len assms(1)
    unfolding buf_adv_def fields dst_mem_write_out [OF assms] write_out_pos
    by (auto simp: write_at_take write_at_drop buf_wf_def)
qed

text \<open>The shape of every library call: bytes are written into the room, both cursors move.\<close>

lemma advance_moves:
  assumes wf: "buf_wf b" and u: "u \<le> avail_in b" and ws: "length ws \<le> avail_out b" "n \<le> length ws"
  defines "b' \<equiv> advance u n (write_out ws b)"
  shows "buf_adv b b'" "consumed b b' = take u (in_window b)" "emitted b b' = take n ws"
proof -
  let ?w = "write_out ws b"
  have w: "buf_adv b ?w" by (rule write_out_adv [OF wf ws(1)])
  have mem: "dst_mem b' = write_at (dst_mem b) (dst_pos b) ws"
    by (simp add: b'_def dst_mem_write_out [OF wf ws(1)])
  have pos: "src_pos b' = src_pos b + u" "dst_pos b' = dst_pos b + n" by (simp_all add: b'_def)
  have "src b' = src ?w" "(dst b' = None) = (dst ?w = None)" "dst_mem b' = dst_mem ?w"
    by (simp_all add: b'_def advance_def dst_mem_def)
  then show "buf_adv b b'"
    using w wf u ws by (auto simp: buf_adv_def b'_def avail_in_wf avail_out_wf)
  show "consumed b b' = take u (in_window b)"
    using skip_in_seg [OF wf u] by (simp add: consumed_def pos)
  have d: "dst_pos b \<le> length (dst_mem b)" using wf by (simp add: buf_wf_def)
  have "seg (write_at (dst_mem b) (dst_pos b) ws) (dst_pos b) (dst_pos b + n) = take n ws"
    using write_at_seg [OF d, of ws] ws(2) by (simp add: seg_def) (metis min.absorb1 take_take)
  then show "emitted b b' = take n ws" by (simp add: emitted_def pos mem)
qed

subsection \<open>The contract of a streaming decoder\<close>

text \<open>
  What the documentation of libzstd and liblz4 promises of a call on a valid context: it uses no
  more than it was offered, and writes within the room. When it does not fail, the context stays
  valid; a result of 0 is a complete frame, after which the next frame starts; and at the start
  of a frame the call reads some of the input it is given. Nothing is assumed of a context whose
  last call failed.
\<close>

definition frame_contract :: "('c \<Rightarrow> bool) \<Rightarrow> ('c \<Rightarrow> bool) \<Rightarrow> (nat \<Rightarrow> bool) \<Rightarrow> 'c frame_call \<Rightarrow> bool" where
  "frame_contract valid fresh bad call \<longleftrightarrow>
     (\<forall>c win room r used ws n c'. valid c \<longrightarrow> call c win room = (r, used, ws, n, c') \<longrightarrow>
        used \<le> length win \<and> length ws \<le> room \<and> n \<le> length ws \<and>
        (\<not> bad r \<longrightarrow> valid c' \<and> (r = 0 \<longrightarrow> fresh c') \<and> (fresh c \<and> win \<noteq> [] \<longrightarrow> 0 < used)))"

lemma frame_contractD:
  assumes "frame_contract valid fresh bad call" "valid c" "call c win room = (r, used, ws, n, c')"
  shows "used \<le> length win" "length ws \<le> room" "n \<le> length ws"
    "\<not> bad r \<Longrightarrow> valid c' \<and> (r = 0 \<longrightarrow> fresh c') \<and> (fresh c \<and> win \<noteq> [] \<longrightarrow> 0 < used)"
  using assms unfolding frame_contract_def by blast+

text \<open>The library's history: what it was fed, what it put out, and whether its last call reported
  the end of a frame.\<close>

inductive lib_run ::
  "'c frame_call \<Rightarrow> (nat \<Rightarrow> bool) \<Rightarrow> 'c \<Rightarrow> byte list \<Rightarrow> byte list \<Rightarrow> bool \<Rightarrow> 'c \<Rightarrow> bool"
  for call :: "'c frame_call" and bad :: "nat \<Rightarrow> bool" and c0 :: 'c where
  start: "lib_run call bad c0 [] [] False c0"
| call: "lib_run call bad c0 i out e c \<Longrightarrow> call c win room = (r, used, ws, n, c') \<Longrightarrow> \<not> bad r \<Longrightarrow>
    lib_run call bad c0 (i @ take used win) (out @ take n ws) (r = 0) c'"

subsection \<open>The shape of the loop\<close>

type_synonym 'd framed_step = "(zu_status \<times> 'd \<times> zu_buffer, 'd \<times> zu_buffer) loop_step"

definition framed_turn ::
  "('d \<Rightarrow> zu_int_frames) \<Rightarrow> ('d \<Rightarrow> 'c) \<Rightarrow> (zu_int_frames \<Rightarrow> 'c \<Rightarrow> 'd \<Rightarrow> 'd) \<Rightarrow> 'c frame_call \<Rightarrow> (nat \<Rightarrow> bool) \<Rightarrow>
    ('d \<Rightarrow> nat \<Rightarrow> zu_status) \<Rightarrow> 'd zu_int_frames_feed \<Rightarrow> 'd zu_int_frames_probe \<Rightarrow>
    zu_flush \<Rightarrow> 'd \<times> zu_buffer \<Rightarrow> 'd framed_step" where
  "framed_turn frames ctx upd call bad err feed probe flush sb =
     (case sb of (s, b) \<Rightarrow>
        (case zu_int_frames_pay (frames s) b of
           (go, f, b0) \<Rightarrow>
             (let s0 = upd f (ctx s) s
              in if \<not> go then Ret (ZU_NEED_OUTPUT, s0, b0)
                 else if fr_state f \<noteq> ZU_INT_FRAME_BODY
                 then (case zu_int_frames_between f b0 flush feed s0 of
                         (st, f1, b1, s1) \<Rightarrow>
                           (let s2 = upd f1 (ctx s1) s1
                            in if st \<noteq> ZU_OK then Ret (st, s2, b1) else Next (s2, b1)))
                 else
                   (case call (ctx s0) (in_window b0) (avail_out b0) of
                      (r, used, ws, n, c) \<Rightarrow>
                        (let s1 = upd f c s0; b1 = write_out ws b0; b2 = advance used n b1
                         in if bad r then Ret (err s1 r, s1, b1)
                            else if r = 0 then Next (upd (zu_int_frames_ended f) c s1, b2)
                            else if used = 0 \<and> n = 0
                            then (case zu_int_frames_stalled f (avail_in b0) (avail_out b0) flush probe s1 of
                                    (st, f1, s2) \<Rightarrow>
                                      (let s3 = upd f1 (ctx s2) s2
                                       in if st \<noteq> ZU_OK then Ret (st, s3, b2) else Next (s3, b2)))
                            else Next (s1, b2))))))"


subsection \<open>The invariant and the trace\<close>

definition frames_ok :: "zu_int_frames \<Rightarrow> bool" where
  "frames_ok f \<longleftrightarrow> frames_wf f \<and> (fr_n_held f \<noteq> 0 \<longrightarrow> frames_open f)"

lemma frames_init_ok [simp]: "frames_ok (zu_int_frames_init kind flags)"
  by (simp add: zu_int_frames_init_def frames_ok_def frames_wf_def magic_prefix_Nil)

definition owed_bytes :: "zu_int_frames \<Rightarrow> byte list" where
  "owed_bytes f = (if fr_has_owed f then [fr_owed f] else [])"

text \<open>The bytes consumed are those the library read, followed by what is held or, when the stream is
  over, by a tail of fewer than four bytes that begin a magic. The bytes delivered are those the
  library put out, except one that may be owed. Outside a frame the library's last call reported
  the end of one.\<close>

definition framed_at ::
  "'c frame_call \<Rightarrow> (nat \<Rightarrow> bool) \<Rightarrow> 'c \<Rightarrow> zu_int_frames \<Rightarrow> 'c \<Rightarrow> byte list \<Rightarrow> byte list \<Rightarrow> bool" where
  "framed_at call bad c0 f c i out \<longleftrightarrow>
     (\<exists>i' e tl. lib_run call bad c0 i' (out @ owed_bytes f) e c \<and> i = i' @ tl \<and>
        (fr_state f \<noteq> ZU_INT_FRAME_BODY \<longrightarrow> e) \<and>
        (if fr_state f = ZU_INT_FRAME_DONE
         then length tl < 4 \<and> magic_prefix (fr_kind f) tl \<and> (tl \<noteq> [] \<longrightarrow> has_flag (fr_flags f) ZU_DEC_CONCAT_MEMBERS)
         else tl = frames_prefix f))"

definition frames_over :: "zu_int_frames \<Rightarrow> bool" where
  "frames_over f \<longleftrightarrow> fr_state f = ZU_INT_FRAME_DONE \<and> \<not> fr_has_owed f"

definition framed_moved ::
  "'c frame_call \<Rightarrow> (nat \<Rightarrow> bool) \<Rightarrow> 'c \<Rightarrow> zu_int_frames \<times> 'c \<times> zu_buffer \<Rightarrow> zu_int_frames \<times> 'c \<times> zu_buffer \<Rightarrow> bool" where
  "framed_moved call bad c0 x y \<longleftrightarrow>
     (case x of (f, c, b) \<Rightarrow> case y of (f', c', b') \<Rightarrow>
        fr_kind f' = fr_kind f \<and> fr_flags f' = fr_flags f \<and>
        (\<forall>i out. framed_at call bad c0 f c i out \<longrightarrow> framed_at call bad c0 f' c' (i @ consumed b b') (out @ emitted b b')))"

lemma framed_moved_trans:
  assumes "framed_moved call bad c0 (f, c, b) (f1, c1, b1)" "framed_moved call bad c0 (f1, c1, b1) (f2, c2, b2)"
    and "buf_adv b b1" "buf_adv b1 b2"
  shows "framed_moved call bad c0 (f, c, b) (f2, c2, b2)"
  using assms(1,2) unfolding framed_moved_def prod.case consumed_trans [OF assms(3,4)] emitted_trans [OF assms(3,4)]
  by (simp flip: append_assoc)

text \<open>An owed byte is delivered first.\<close>

lemma pay_moves:
  assumes "zu_int_frames_pay f b = (go, f', b')" "buf_wf b" "frames_ok f"
  shows "buf_adv b b'" "frames_ok f'" "go \<Longrightarrow> \<not> fr_has_owed f'" "framed_moved call bad c0 (f, c, b) (f', c, b')"
    "fr_state f' = fr_state f"
proof -
  consider "\<not> fr_has_owed f" "(go, f', b') = (True, f, b)"
    | "fr_has_owed f" "avail_out b = 0" "(go, f', b') = (False, f, b)"
    | "fr_has_owed f" "0 < avail_out b" "(go, f', b') = (True, f\<lparr>fr_has_owed := False\<rparr>, put_out [fr_owed f] b)"
    using assms(1,2) by (auto simp: zu_int_frames_pay_def avail_out_wf split: if_splits) (auto simp: buf_wf_def)
  then have "buf_adv b b' \<and> frames_ok f' \<and> (go \<longrightarrow> \<not> fr_has_owed f') \<and>
      framed_moved call bad c0 (f, c, b) (f', c, b') \<and> fr_state f' = fr_state f"
  proof cases
    case 1
    then show ?thesis using assms(2,3) by (simp add: framed_moved_def)
  next
    case 2
    then show ?thesis using assms(2,3) by (simp add: framed_moved_def)
  next
    case 3
    let ?f = "f\<lparr>fr_has_owed := False\<rparr>"
    have len: "length [fr_owed f] \<le> avail_out b" using 3(2) by simp
    have "frames_ok ?f" using assms(3) by (simp add: frames_ok_def frames_wf_def frames_open_def)
    moreover have "framed_moved call bad c0 (f, c, b) (?f, c, put_out [fr_owed f] b)"
      using 3(1) put_out_consumed [of b] put_out_emitted [OF assms(2) len]
      by (simp add: framed_moved_def framed_at_def owed_bytes_def frames_prefix_def)
    ultimately show ?thesis using 3(3) put_out_adv [OF assms(2) len] by simp
  qed
  then show "buf_adv b b'" "frames_ok f'" "go \<Longrightarrow> \<not> fr_has_owed f'" "framed_moved call bad c0 (f, c, b) (f', c, b')"
    "fr_state f' = fr_state f" by simp_all
qed

lemma between_keeps_ok:
  assumes "between_did oc feed f b c st f' j c'" "frames_wf f'" "frames_kept f f'"
  shows "frames_ok f'"
  using assms frames_keptD [OF assms(3)]
  by (cases oc) (simp_all add: between_did_def Let_def frames_ok_def frames_open_def)

lemma frames_between_outcome:
  assumes "frames_ok f" "fr_state f \<noteq> ZU_INT_FRAME_BODY" "buf_wf b"
  obtains st f' j c' oc where "zu_int_frames_between f b flush feed c = (st, f', skip_in j b, c')" "j \<le> avail_in b"
    "frames_ok f'" "frames_kept f f'" "between_did oc feed f b c st f' j c'"
proof -
  have f: "frames_wf f" "fr_state f = ZU_INT_FRAME_DONE \<Longrightarrow> fr_n_held f = 0"
    "\<not> has_flag (fr_flags f) ZU_DEC_CONCAT_MEMBERS \<Longrightarrow> fr_n_held f = 0"
    using assms(1) by (auto simp: frames_ok_def frames_open_def)
  from between_outcome [OF f(1) assms(2) f(2,3) assms(3)] between_keeps_ok that show thesis by metis
qed

text \<open>The turns that go round without moving a cursor descend in this rank.\<close>

definition framed_rank :: "('c \<Rightarrow> bool) \<Rightarrow> zu_int_frames \<Rightarrow> 'c \<Rightarrow> zu_buffer \<Rightarrow> nat" where
  "framed_rank fresh f c b =
     (case fr_state f of
        ZU_INT_FRAME_DONE \<Rightarrow> 0
      | ZU_INT_FRAME_BETWEEN \<Rightarrow> if fresh c then 2 else 4
      | ZU_INT_FRAME_BODY \<Rightarrow> if fresh c \<and> 0 < avail_in b then 1 else 3)"

definition framed_weight :: "('c \<Rightarrow> bool) \<Rightarrow> zu_int_frames \<Rightarrow> 'c \<Rightarrow> zu_buffer \<Rightarrow> nat" where
  "framed_weight fresh f c b = 5 * (avail_in b + avail_out b) + framed_rank fresh f c b"

lemma framed_rank_bound: "framed_rank fresh f c b < 5"
  by (simp add: framed_rank_def split: zu_int_frame_state.split)

lemma adv_room:
  assumes "buf_wf b" "buf_adv b b'"
  shows "avail_in b' + length (consumed b b') = avail_in b" "avail_out b' + length (emitted b b') = avail_out b"
  using assms(2) consumed_length [OF assms] emitted_length [OF assms]
    avail_in_wf [OF assms(1)] avail_out_wf [OF assms(1)]
    avail_in_wf [OF buf_adv_wf [OF assms]] avail_out_wf [OF buf_adv_wf [OF assms]]
  by (simp_all add: buf_adv_def)

lemma framed_weight_moved:
  assumes "buf_wf b" "buf_adv b b'" "consumed b b' \<noteq> [] \<or> emitted b b' \<noteq> []"
  shows "framed_weight fresh f' c' b' < framed_weight fresh f c b"
proof -
  from adv_room [OF assms(1,2)] assms(3) have "Suc (avail_in b' + avail_out b') \<le> avail_in b + avail_out b"
    by (cases "consumed b b'"; cases "emitted b b'") simp_all
  then have "5 * (avail_in b' + avail_out b') + 5 \<le> 5 * (avail_in b + avail_out b)" by simp
  with framed_rank_bound [of fresh f' c' b'] show ?thesis unfolding framed_weight_def by linarith
qed

lemma framed_weight_still:
  assumes "avail_in b' = avail_in b" "avail_out b' = avail_out b" "framed_rank fresh f' c' b' < framed_rank fresh f c b"
  shows "framed_weight fresh f' c' b' < framed_weight fresh f c b"
  using assms by (simp add: framed_weight_def)

lemma pay_weight:
  assumes "zu_int_frames_pay f b = (go, f', b')" "buf_wf b" "frames_ok f"
  shows "framed_weight fresh f' c b' \<le> framed_weight fresh f c b"
proof (cases "b' = b")
  case True
  with pay_moves(5) [OF assms] show ?thesis by (simp add: framed_weight_def framed_rank_def)
next
  case False
  note p = pay_moves [OF assms]
  from False assms(1) have "b' = put_out [fr_owed f] b" by (auto simp: zu_int_frames_pay_def split: if_splits)
  then have "dst_pos b' = Suc (dst_pos b)" by simp
  then have "emitted b b' \<noteq> []" using emitted_length [OF assms(2) p(1)] by auto
  then show ?thesis by (intro less_imp_le framed_weight_moved [OF assms(2) p(1)]) simp
qed

subsection \<open>What a status names\<close>

text \<open>A coder that asks for input has none left, and one that asks for room has none left.\<close>

definition names :: "zu_status \<Rightarrow> zu_buffer \<Rightarrow> bool" where
  "names st b \<longleftrightarrow> st \<noteq> ZU_OK \<and> (st = ZU_NEED_INPUT \<longrightarrow> avail_in b = 0) \<and> (st = ZU_NEED_OUTPUT \<longrightarrow> avail_out b = 0)"

lemma names_stop: "\<not> is_progress st \<Longrightarrow> names st b"
  by (auto simp: names_def)

text \<open>So a call that asks for more moved a cursor, unless what it asks for was missing from the start.\<close>

definition prompt_call :: "zu_status \<Rightarrow> zu_buffer \<Rightarrow> zu_buffer \<Rightarrow> bool" where
  "prompt_call st b b' \<longleftrightarrow> st \<noteq> ZU_OK \<and>
     (st = ZU_NEED_INPUT \<longrightarrow> src_pos b < src_pos b' \<or> dst_pos b < dst_pos b' \<or> avail_in b' = 0) \<and>
     (st = ZU_NEED_OUTPUT \<longrightarrow> 0 < avail_out b \<longrightarrow> src_pos b < src_pos b' \<or> dst_pos b < dst_pos b')"

lemma names_moved: "names st b' \<Longrightarrow> buf_wf b \<Longrightarrow> buf_adv b b' \<Longrightarrow> prompt_call st b b'"
  using buf_adv_wf [of b b'] by (auto simp: prompt_call_def names_def avail_out_wf buf_adv_def)

lemma avail_in_skip: "buf_wf b \<Longrightarrow> n \<le> avail_in b \<Longrightarrow> avail_in (skip_in n b) = avail_in b - n"
  using buf_adv_wf [OF _ skip_in_adv] by (simp add: avail_in_wf)

lemma extend_takes_all:
  "frames_extend f b avail = (False, f1, b1) \<Longrightarrow> buf_wf b \<Longrightarrow> avail = avail_in b \<Longrightarrow> fr_n_held f \<le> 4 \<Longrightarrow> fr_n_held f1 \<noteq> 4 \<Longrightarrow> avail_in b1 = 0"
proof (induction f b avail rule: frames_extend.induct)
  case (1 f b avail)
  show ?case
  proof (cases "fr_n_held f < 4 \<and> 0 < avail")
    case False
    with 1 show ?thesis by (auto simp: frames_extend.simps)
  next
    case True
    let ?f1 = "f\<lparr>fr_held := (fr_held f)[fr_n_held f := src_byte b 0]\<rparr>"
    have p: "zu_int_frames_is_prefix (fr_kind ?f1) (fr_held ?f1) (fr_n_held ?f1 + 1)"
      using 1(2) True by (simp add: frames_extend.simps [of f b avail] Let_def split: if_splits)
    with 1(2) True have e: "frames_extend (?f1\<lparr>fr_n_held := fr_n_held ?f1 + 1\<rparr>) (skip_in 1 b) (avail - 1) = (False, f1, b1)"
      by (simp add: frames_extend.simps [of f b avail] Let_def)
    have "buf_wf (skip_in 1 b)" "avail - 1 = avail_in (skip_in 1 b)"
      using True 1(3,4) buf_adv_wf [OF 1(3) skip_in_adv [OF 1(3), of 1]] avail_in_skip [OF 1(3), of 1] by simp_all
    from 1(1) [OF True refl _ e this] p True 1(6) show ?thesis by simp
  qed
qed

lemma between_names:
  assumes "zu_int_frames_between f b flush feed c = (st, f', b', c')" "buf_wf b" "fr_n_held f \<le> 4"
    and "\<And>p st c'. feed c p = (st, c') \<Longrightarrow> st = ZU_OK \<or> \<not> is_progress st" "st \<noteq> ZU_OK"
  shows "names st b'"
proof -
  consider "st = ZU_STREAM_END" | "fr_n_held f = 0" "frames_first f b flush = (st, f', b')" | "frames_resume f b flush feed c = (st, f', b', c')"
    using assms(1,5) by (auto simp: zu_int_frames_between_def split: if_splits prod.splits)
  then show ?thesis
  proof cases
    case 2
    with assms(2,5) show ?thesis by (auto simp: frames_first_def names_def Let_def avail_in_skip split: if_splits)
  next
    case 3
    obtain over f1 b1 where e: "frames_extend f b (avail_in b) = (over, f1, b1)" by (metis prod_cases3)
    obtain fst1 c1 where f: "feed c (take 4 (fr_held f1)) = (fst1, c1)" by fastforce
    note fs = assms(4) [OF f]
    show ?thesis
    proof (cases "over \<or> fr_n_held f1 = 4")
      case True
      with 3 e f assms(5) have "st = ZU_STREAM_END \<or> st = fst1"
        by (cases over) (simp_all add: frames_resume_def Let_def split: if_splits)
      with fs assms(5) show ?thesis by (auto simp: names_def)
    next
      case False
      with e extend_takes_all [OF _ assms(2) refl assms(3)] have "avail_in b1 = 0" by simp
      with 3 e False show ?thesis by (auto simp: frames_resume_def names_def Let_def split: if_splits)
    qed
  qed (simp add: names_def)
qed

subsection \<open>One turn\<close>

lemma framed_at_call:
  assumes "framed_at call bad c0 f c i out" "fr_state f = ZU_INT_FRAME_BODY" "frames_prefix f = []" "\<not> fr_has_owed f"
    and "call c win room = (r, used, ws, n, c')" "\<not> bad r"
    and "fr_state f' \<noteq> ZU_INT_FRAME_DONE" "fr_state f' \<noteq> ZU_INT_FRAME_BODY \<Longrightarrow> r = 0" "frames_prefix f' = []"
    and "out' @ owed_bytes f' = take n ws"
  shows "framed_at call bad c0 f' c' (i @ take used win) (out @ out')"
proof -
  obtain e where "lib_run call bad c0 i out e c"
    using assms(1-4) by (auto simp: framed_at_def owed_bytes_def)
  from lib_run.call [OF this assms(5,6)] assms(7-10) show ?thesis
    unfolding framed_at_def by (intro exI [of _ "i @ take used win"] exI [of _ "r = 0"] exI [of _ "[]"]) simp
qed

locale framed_decoder =
  fixes frames :: "'d \<Rightarrow> zu_int_frames" and ctx :: "'d \<Rightarrow> 'c" and upd :: "zu_int_frames \<Rightarrow> 'c \<Rightarrow> 'd \<Rightarrow> 'd"
    and call :: "'c frame_call" and bad :: "nat \<Rightarrow> bool" and err :: "'d \<Rightarrow> nat \<Rightarrow> zu_status"
    and feed :: "'d zu_int_frames_feed" and probe :: "'d zu_int_frames_probe"
    and step :: "zu_flush \<Rightarrow> 'd \<times> zu_buffer \<Rightarrow> 'd framed_step"
    and process :: "'d process_fn"
  assumes frames_upd [simp]: "frames (upd f c s) = f" and ctx_upd [simp]: "ctx (upd f c s) = c"
    and err_stops: "\<not> is_progress (err s r)"
    and feed_calls: "feed s p = (st, s') \<Longrightarrow>
      \<exists>r used ws n. call (ctx s) p 0 = (r, used, ws, n, ctx s') \<and>
        (if st = ZU_OK then \<not> bad r \<and> used = length p else \<not> is_progress st)"
    and probe_calls: "probe s x = (st, y, n, e, s') \<Longrightarrow>
      \<exists>r used ws n'. call (ctx s) [] 1 = (r, used, ws, n', ctx s') \<and>
        (if st = ZU_OK then \<not> bad r \<and> e = (r = 0) \<and> n = n' \<and> (0 < n \<and> ws \<noteq> [] \<longrightarrow> y = ws ! 0) else \<not> is_progress st)"
    and step_shape: "step flush (s, b) = framed_turn frames ctx upd call bad err feed probe flush (s, b)"
    and process_runs: "process so b flush =
      (case so of
         None \<Rightarrow> Some (ZU_ERR_INVALID_ARGUMENT, None, b)
       | Some s \<Rightarrow> map_option (\<lambda>(r, s', b'). (r, Some s', b')) (run_loop (\<lambda>sb. Some (step flush sb)) (s, b)))"
begin

text \<open>What a turn keeps: the cursor discipline and the invariant always; a valid context and the trace
  wherever it does not fail.\<close>

definition kept :: "('c \<Rightarrow> bool) \<Rightarrow> 'c \<Rightarrow> 'd \<Rightarrow> zu_buffer \<Rightarrow> 'd \<Rightarrow> zu_buffer \<Rightarrow> bool \<Rightarrow> bool" where
  "kept valid c0 s b s' b' good \<longleftrightarrow> buf_adv b b' \<and> frames_ok (frames s') \<and>
     (good \<longrightarrow> valid (ctx s') \<and>
        framed_moved call bad c0 (frames s, ctx s, b) (frames s', ctx s', b'))"

definition turn_good :: "('c \<Rightarrow> bool) \<Rightarrow> ('c \<Rightarrow> bool) \<Rightarrow> 'c \<Rightarrow> 'd \<Rightarrow> zu_buffer \<Rightarrow> 'd framed_step \<Rightarrow> bool" where
  "turn_good valid fresh c0 s b t \<longleftrightarrow>
     (case t of
        Ret (st, s', b') \<Rightarrow> kept valid c0 s b s' b' (is_progress st) \<and>
          (st = ZU_STREAM_END \<longrightarrow> frames_over (frames s'))
      | Next (s', b') \<Rightarrow> kept valid c0 s b s' b' True \<and>
          framed_weight fresh (frames s') (ctx s') b' < framed_weight fresh (frames s) (ctx s) b)"

lemma kept_trans:
  assumes "kept valid c0 s b s1 b1 True" "kept valid c0 s1 b1 s2 b2 g"
  shows "kept valid c0 s b s2 b2 g"
proof -
  have a: "buf_adv b b1" "buf_adv b1 b2" using assms by (simp_all add: kept_def)
  show ?thesis
    using assms buf_adv_trans [OF a] unfolding kept_def by (auto intro: framed_moved_trans [OF _ _ a])
qed

text \<open>Between frames.\<close>

lemma between_turn:
  assumes c: "frame_contract valid fresh bad call" and v: "valid (ctx s)" and wf: "buf_wf b"
    and ok: "frames_ok (frames s)" and st: "fr_state (frames s) \<noteq> ZU_INT_FRAME_BODY" and ow: "\<not> fr_has_owed (frames s)"
    and call: "zu_int_frames_between (frames s) b flush feed s = (st, f1, b1, s1)"
  shows "turn_good valid fresh c0 s b
    (if st \<noteq> ZU_OK then Ret (st, upd f1 (ctx s1) s1, b1) else Next (upd f1 (ctx s1) s1, b1))"
proof -
  let ?f = "frames s"
  obtain j oc where b1: "b1 = skip_in j b" and j: "j \<le> avail_in b" and ok1: "frames_ok f1" and k: "frames_kept ?f f1"
    and oc: "between_did oc feed ?f b s st f1 j s1"
    by (rule frames_between_outcome [OF ok st wf, of flush feed s]) (use call in auto)
  note kd = frames_keptD [OF k]
  have adv: "buf_adv b b1" unfolding b1 by (rule skip_in_adv [OF wf j])
  have io: "consumed b b1 = take j (in_window b)" "emitted b b1 = []"
    unfolding b1 using skip_in_seg [OF wf j] by (simp_all add: buf_simps)
  have ob: "owed_bytes f1 = []" "owed_bytes ?f = []" using ow kd by (simp_all add: owed_bytes_def)
  have body0: "frames_prefix f = []" if "fr_n_held f = 0" for f using that by (simp add: frames_prefix_def)
  have moved: "framed_moved call bad c0 (?f, ctx s, b) (f1, ctx s1, b1) \<and> valid (ctx s1)" if g: "is_progress st"
  proof (cases oc)
    case Between_over
    with oc have o: "fr_state f1 = ZU_INT_FRAME_DONE" "s1 = s" "length (frames_prefix ?f @ take j (in_window b)) < 4"
      "magic_prefix (fr_kind ?f) (frames_prefix ?f @ take j (in_window b))" "j \<noteq> 0 \<longrightarrow> has_flag (fr_flags ?f) ZU_DEC_CONCAT_MEMBERS"
      by (simp_all add: between_did_def Let_def)
    have concat: "has_flag (fr_flags ?f) ZU_DEC_CONCAT_MEMBERS" if "frames_prefix ?f \<noteq> []"
      using that ok by (auto simp: frames_prefix_def frames_ok_def frames_open_def)
    have "framed_at call bad c0 f1 (ctx s) (i @ take j (in_window b)) out"
      if at: "framed_at call bad c0 ?f (ctx s) i out" for i out
    proof (cases "fr_state ?f = ZU_INT_FRAME_DONE")
      case True
      then have "zu_int_frames_between ?f b flush feed s = (ZU_STREAM_END, ?f, b, s)"
        by (simp add: zu_int_frames_between_def)
      with call b1 have "f1 = ?f" "j = 0" by (auto simp: skip_in_def dest: arg_cong [of _ _ src_pos])
      with at show ?thesis by simp
    next
      case False
      with st at obtain i' where "lib_run call bad c0 i' out True (ctx s)" "i = i' @ frames_prefix ?f"
        unfolding framed_at_def ob by auto
      then show ?thesis unfolding framed_at_def ob using o concat kd
        by (intro exI [of _ i'] exI [of _ True] exI [of _ "frames_prefix ?f @ take j (in_window b)"]) auto
    qed
    with io kd o(2) v show ?thesis by (simp add: framed_moved_def)
  next
    case Between_held
    with oc have o: "fr_state f1 = ZU_INT_FRAME_BETWEEN" "s1 = s" "frames_prefix f1 = frames_prefix ?f @ take j (in_window b)"
      "st = ZU_NEED_INPUT" by (simp_all add: between_did_def Let_def)
    have nd: "fr_state ?f \<noteq> ZU_INT_FRAME_DONE" using call o(4) by (auto simp: zu_int_frames_between_def)
    have "framed_at call bad c0 f1 (ctx s) (i @ take j (in_window b)) out"
      if at: "framed_at call bad c0 ?f (ctx s) i out" for i out
      using at st nd o(1,3) unfolding framed_at_def ob by auto
    with io kd o(2) v show ?thesis by (simp add: framed_moved_def)
  next
    case Between_visible
    with oc have o: "fr_state f1 = ZU_INT_FRAME_BODY" "s1 = s" "j = 0" "frames_prefix ?f = []" "frames_prefix f1 = []"
      "st = ZU_OK" by (simp_all add: between_did_def Let_def body0)
    have nd: "fr_state ?f \<noteq> ZU_INT_FRAME_DONE" using call o(6) by (auto simp: zu_int_frames_between_def)
    have "framed_at call bad c0 f1 (ctx s) i out" if at: "framed_at call bad c0 ?f (ctx s) i out" for i out
      using at st nd o unfolding framed_at_def ob by auto
    with io kd o(2,3) v show ?thesis by (simp add: framed_moved_def)
  next
    case Between_fed
    let ?m = "frames_prefix ?f @ take j (in_window b)"
    from Between_fed oc have o: "feed s ?m = (st, s1)" "fr_n_held f1 = 0"
      "fr_state f1 = (if st = ZU_OK then ZU_INT_FRAME_BODY else ZU_INT_FRAME_BETWEEN)" "0 < j"
      by (simp_all add: between_did_def Let_def)
    from feed_calls [OF o(1)] g obtain r used ws n where r: "call (ctx s) ?m 0 = (r, used, ws, n, ctx s1)"
      "\<not> bad r" "used = length ?m" "st = ZU_OK" by (metis (full_types))
    note cc = frame_contractD [OF c v r(1)]
    have nd: "fr_state ?f \<noteq> ZU_INT_FRAME_DONE"
    proof
      assume "fr_state ?f = ZU_INT_FRAME_DONE"
      with call r(4) show False by (simp add: zu_int_frames_between_def)
    qed
    have "framed_at call bad c0 f1 (ctx s1) (i @ take j (in_window b)) out"
      if at: "framed_at call bad c0 ?f (ctx s) i out" for i out
    proof -
      from at st nd obtain i' where l: "lib_run call bad c0 i' out True (ctx s)" "i = i' @ frames_prefix ?f"
        unfolding framed_at_def ob by auto
      have tk: "take used ?m = ?m" "take n ws = []" using cc(2) by (simp_all only: r(3) take_all order_refl) simp
      from lib_run.call [OF l(1) r(1,2), unfolded tk append_Nil2]
      have "lib_run call bad c0 (i' @ ?m) out (r = 0) (ctx s1)" .
      with l(2) o(2,3) r(4) show ?thesis unfolding framed_at_def ob
        by (intro exI [of _ "i' @ ?m"] exI [of _ "r = 0"] exI [of _ "[]"]) (simp add: body0)
    qed
    with io kd cc(4) r(2) show ?thesis by (simp add: framed_moved_def)
  qed
  have less: "framed_weight fresh f1 (ctx s1) b1 < framed_weight fresh ?f (ctx s) b" if s: "st = ZU_OK"
  proof (cases oc)
    case Between_over
    with oc s show ?thesis by (auto simp: between_did_def Let_def)
  next
    case Between_held
    with oc s show ?thesis by (auto simp: between_did_def Let_def)
  next
    case Between_visible
    with oc have o: "fr_state f1 = ZU_INT_FRAME_BODY" "s1 = s" "j = 0" "4 \<le> avail_in b"
      by (simp_all add: between_did_def Let_def)
    have "fr_state ?f = ZU_INT_FRAME_BETWEEN"
      using call s st by (cases "fr_state ?f") (auto simp: zu_int_frames_between_def)
    with o show ?thesis unfolding b1
      by (intro framed_weight_still) (simp_all add: skip_in_def framed_rank_def)
  next
    case Between_fed
    with oc j have "take j (in_window b) \<noteq> []" using in_window_length [OF wf] by (auto simp: between_did_def Let_def)
    with framed_weight_moved [OF wf adv] io show ?thesis by simp
  qed
  have ende: "fr_state f1 = ZU_INT_FRAME_DONE" if e: "st = ZU_STREAM_END"
  proof (cases oc)
    case Between_fed
    with oc e have "feed s (frames_prefix ?f @ take j (in_window b)) = (ZU_STREAM_END, s1)" by (simp add: between_did_def Let_def)
    from feed_calls [OF this] show ?thesis by auto
  qed (use oc e in \<open>auto simp: between_did_def Let_def\<close>)
  show ?thesis using adv ok1 moved less ende ow kd by (simp add: turn_good_def kept_def frames_over_def)
qed


text \<open>Inside a frame.\<close>

lemma body_turn:
  assumes c: "frame_contract valid fresh bad call" and v: "valid (ctx s)" and wf: "buf_wf b"
    and ok: "frames_ok (frames s)" and st: "fr_state (frames s) = ZU_INT_FRAME_BODY" and ow: "\<not> fr_has_owed (frames s)"
    and cl: "call (ctx s) (in_window b) (avail_out b) = (r, used, ws, n, c1)" and nb: "\<not> bad r"
    and b1: "b1 = advance used n (write_out ws b)" and f1: "f1 = (if r = 0 then zu_int_frames_ended (frames s) else frames s)"
    and s1: "ctx s1 = c1" "frames s1 = f1"
  shows "kept valid c0 s b s1 b1 True"
    and "r = 0 \<or> used \<noteq> 0 \<or> n \<noteq> 0 \<Longrightarrow>
      framed_weight fresh f1 c1 b1 < framed_weight fresh (frames s) (ctx s) b"
proof -
  let ?f = "frames s"
  have len: "length (in_window b) = avail_in b" by (rule in_window_length [OF wf])
  note cc = frame_contractD [OF c v cl]
  have u: "used \<le> avail_in b" using cc(1) len by simp
  note mv = advance_moves [OF wf u cc(2,3), folded b1]
  have nh: "fr_n_held ?f = 0" using ok st by (auto simp: frames_ok_def frames_open_def)
  have pre: "frames_prefix ?f = []" "frames_prefix f1 = []" using nh by (simp_all add: frames_prefix_def f1 zu_int_frames_ended_def)
  have st1: "fr_state f1 = (if r = 0 then ZU_INT_FRAME_BETWEEN else ZU_INT_FRAME_BODY)"
    using st by (simp add: f1 zu_int_frames_ended_def)
  have "frames_ok f1" using ok nh by (auto simp: f1 zu_int_frames_ended_def frames_ok_def frames_wf_def magic_prefix_Nil)
  moreover have "owed_bytes f1 = []" using ow by (simp add: owed_bytes_def f1 zu_int_frames_ended_def)
  then have "framed_at call bad c0 f1 c1 (i @ take used (in_window b)) (out @ take n ws)"
    if "framed_at call bad c0 ?f (ctx s) i out" for i out
    by (intro framed_at_call [OF that st pre(1) ow cl nb]) (simp_all add: st1 pre split: if_splits)
  ultimately show "kept valid c0 s b s1 b1 True"
    using mv cc(4) [OF nb] s1 by (simp add: kept_def framed_moved_def) (simp add: f1 zu_int_frames_ended_def)
  assume g: "r = 0 \<or> used \<noteq> 0 \<or> n \<noteq> 0"
  show "framed_weight fresh f1 c1 b1 < framed_weight fresh ?f (ctx s) b"
  proof (cases "used = 0 \<and> n = 0")
    case False
    then have "consumed b b1 \<noteq> [] \<or> emitted b b1 \<noteq> []" using mv(2,3) u cc(3) len by auto
    then show ?thesis by (rule framed_weight_moved [OF wf mv(1)])
  next
    case True
    with g have r0: "r = 0" by simp
    have wf1: "buf_wf b1" using mv(1) wf by (rule buf_adv_wf [rotated])
    have "avail_in b1 = avail_in b" "avail_out b1 = avail_out b"
      using True by (simp_all add: avail_in_def avail_out_def b1)
    moreover have "\<not> (fresh (ctx s) \<and> 0 < avail_in b)" using cc(4) [OF nb] True len by auto
    then have "framed_rank fresh f1 c1 b1 < framed_rank fresh ?f (ctx s) b"
      using cc(4) [OF nb] r0 st st1 by (simp add: framed_rank_def)
    ultimately show ?thesis by (rule framed_weight_still)
  qed
qed

text \<open>The library moved nothing.\<close>

lemma stalled_turn:
  assumes c: "frame_contract valid fresh bad call" and v: "valid (ctx s)" and wf: "buf_wf b"
    and ok: "frames_ok (frames s)" and st: "fr_state (frames s) = ZU_INT_FRAME_BODY" and ow: "\<not> fr_has_owed (frames s)"
    and cl: "zu_int_frames_stalled (frames s) (avail_in b) (avail_out b) flush probe s = (st', f1, s1)"
  shows "turn_good valid fresh c0 s b
    (if st' \<noteq> ZU_OK then Ret (st', upd f1 (ctx s1) s1, b) else Next (upd f1 (ctx s1) s1, b))"
proof (cases "avail_out b = 0 \<and> avail_in b = 0 \<and> flush = ZU_FINISH")
  case False
  then have "st' \<noteq> ZU_OK" "st' \<noteq> ZU_STREAM_END" "f1 = frames s" "s1 = s"
    using cl by (auto simp: zu_int_frames_stalled_def split: if_splits)
  then show ?thesis using v wf ok by (simp add: turn_good_def kept_def framed_moved_def)
next
  case True
  obtain p y n e s2 where p: "probe s (fr_owed (frames s)) = (p, y, n, e, s2)" by (metis prod_cases5)
  obtain r used ws n' where r: "call (ctx s) [] 1 = (r, used, ws, n', ctx s2)"
      "if p = ZU_OK then \<not> bad r \<and> e = (r = 0) \<and> n = n' \<and> (0 < n \<and> ws \<noteq> [] \<longrightarrow> y = ws ! 0) else \<not> is_progress p"
    using probe_calls [OF p] by blast
  note cc = frame_contractD [OF c v r(1)]
  have nh: "fr_n_held (frames s) = 0" using ok st by (auto simp: frames_ok_def frames_open_def)
  show ?thesis
  proof (cases "p = ZU_OK")
    case False
    then have "st' = p" "f1 = (frames s)\<lparr>fr_owed := y\<rparr>" "s1 = s2" using cl True p by (simp_all add: zu_int_frames_stalled_def)
    with False r(2) wf ok show ?thesis
      by (auto simp: turn_good_def kept_def frames_ok_def frames_wf_def frames_open_def nh)
  next
    case ok': True
    let ?g = "if e then zu_int_frames_ended ((frames s)\<lparr>fr_owed := y\<rparr>) else (frames s)\<lparr>fr_owed := y\<rparr>"
    have rr: "\<not> bad r" "e = (r = 0)" "n = n'" "0 < n \<and> ws \<noteq> [] \<longrightarrow> y = ws ! 0" using r(2) ok' by simp_all
    have res: "f1 = (if 0 < n then ?g\<lparr>fr_has_owed := True\<rparr> else ?g)" "s1 = s2"
      "st' = (if 0 < n then ZU_NEED_OUTPUT else if e then ZU_OK else ZU_ERR_TRUNCATED)"
      using cl True p ok' by (simp_all add: zu_int_frames_stalled_def Let_def split: if_splits)
    have st1: "fr_state f1 = (if e then ZU_INT_FRAME_BETWEEN else ZU_INT_FRAME_BODY)" "fr_n_held f1 = 0"
      "fr_has_owed f1 = (0 < n)" "fr_owed f1 = y" "fr_held f1 = fr_held (frames s)" "fr_kind f1 = fr_kind (frames s)"
      "fr_flags f1 = fr_flags (frames s)"
      unfolding res(1) using st nh ow by (simp_all add: zu_int_frames_ended_def)
    have ok1: "frames_ok f1" using ok st1 by (auto simp: frames_ok_def frames_wf_def magic_prefix_Nil)
    have ob: "owed_bytes f1 = take n ws"
    proof (cases ws)
      case Nil
      with cc(3) rr(3) st1(3) show ?thesis by (simp add: owed_bytes_def)
    next
      case (Cons w ws')
      with cc(2,3) rr(3,4) st1(3,4) show ?thesis by (cases n) (auto simp: owed_bytes_def)
    qed
    have "framed_at call bad c0 f1 (ctx s2) i out" if at: "framed_at call bad c0 (frames s) (ctx s) i out" for i out
    proof -
      have "framed_at call bad c0 f1 (ctx s2) (i @ take used []) (out @ [])"
        by (rule framed_at_call [OF at st _ ow r(1) rr(1)])
          (use st1 rr(2,3) ob nh in \<open>simp_all add: frames_prefix_def split: if_splits\<close>)
      then show ?thesis by simp
    qed
    then have kept: "kept valid c0 s b (upd f1 (ctx s2) s2) b True"
      using wf ok1 st1(6,7) cc(4) [OF rr(1)] by (simp add: kept_def framed_moved_def)
    have "framed_weight fresh f1 (ctx s2) b < framed_weight fresh (frames s) (ctx s) b" if "st' = ZU_OK"
    proof (rule framed_weight_still)
      have "e" using that res(3) by (auto split: if_splits)
      then show "framed_rank fresh f1 (ctx s2) b < framed_rank fresh (frames s) (ctx s) b"
        using st1(1) st True cc(4) [OF rr(1)] rr(2) by (simp add: framed_rank_def)
    qed simp_all
    with kept res(2,3) show ?thesis by (auto simp: turn_good_def kept_def)
  qed
qed

lemma step_good:
  assumes c: "frame_contract valid fresh bad call" and v: "valid (ctx s)" and wf: "buf_wf b" and ok: "frames_ok (frames s)"
  shows "turn_good valid fresh c0 s b (step flush (s, b))"
proof -
  obtain go f b0 where pay: "zu_int_frames_pay (frames s) b = (go, f, b0)" by (metis prod_cases3)
  note p = pay_moves [OF pay wf ok]
  let ?s = "upd f (ctx s) s"
  have wf0: "buf_wf b0" using p(1) wf by (rule buf_adv_wf [rotated])
  have k0: "kept valid c0 s b ?s b0 True" using p(1,2,4) v by (simp add: kept_def)
  note w0 = pay_weight [OF pay wf ok, of fresh "ctx s"]
  have lift: "turn_good valid fresh c0 s b t" if "turn_good valid fresh c0 ?s b0 t" for t
    using that kept_trans [OF k0] w0 by (auto simp: turn_good_def split: loop_step.splits)
  show ?thesis
  proof (cases go)
    case False
    then show ?thesis using pay k0 by (simp add: step_shape framed_turn_def turn_good_def)
  next
    case go: True
    note v0 = v wf0 p(2) p(3) [OF go]
    show ?thesis
    proof (cases "fr_state f = ZU_INT_FRAME_BODY")
      case False
      obtain st f1 b1 s1 where bt: "zu_int_frames_between f b0 flush feed ?s = (st, f1, b1, s1)" by (metis prod_cases4)
      have "step flush (s, b) =
          (if st \<noteq> ZU_OK then Ret (st, upd f1 (ctx s1) s1, b1) else Next (upd f1 (ctx s1) s1, b1))"
        using pay go False bt by (simp add: step_shape framed_turn_def)
      moreover have "turn_good valid fresh c0 ?s b0
          (if st \<noteq> ZU_OK then Ret (st, upd f1 (ctx s1) s1, b1) else Next (upd f1 (ctx s1) s1, b1))"
        by (rule between_turn [OF c, where s = ?s and flush = flush]) (use v0 False bt in simp_all)
      ultimately show ?thesis using lift by simp
    next
      case body: True
      obtain r used ws n c1 where cl: "call (ctx s) (in_window b0) (avail_out b0) = (r, used, ws, n, c1)"
        by (metis prod_cases5)
      note cc = frame_contractD [OF c v cl]
      let ?s1 = "upd f c1 ?s" and ?b2 = "advance used n (write_out ws b0)"
      show ?thesis
      proof (cases "bad r")
        case True
        then have "step flush (s, b) = Ret (err ?s1 r, ?s1, write_out ws b0)"
          using pay go body cl by (simp add: step_shape framed_turn_def Let_def)
        moreover have "kept valid c0 ?s b0 ?s1 (write_out ws b0) False"
          using write_out_adv [OF wf0 cc(2)] p(2) by (simp add: kept_def)
        moreover have "\<not> is_progress (err ?s1 r)" by (rule err_stops)
        ultimately show ?thesis using kept_trans [OF k0] by (auto simp: turn_good_def)
      next
        case nb: False
        have kept1: "kept valid c0 ?s b0 s1 ?b2 True" if "ctx s1 = c1" "frames s1 = (if r = 0 then zu_int_frames_ended f else f)" for s1
          by (rule body_turn(1) [OF c, where s = ?s and r = r and used = used and n = n and ws = ws])
            (use v0 body cl nb that in simp_all)
        have less1: "framed_weight fresh (if r = 0 then zu_int_frames_ended f else f) c1 ?b2 < framed_weight fresh f (ctx s) b0"
          if "r = 0 \<or> used \<noteq> 0 \<or> n \<noteq> 0"
          using body_turn(2) [OF c, where s = ?s and b = b0 and r = r and used = used and n = n and ws = ws and ?s1.0 = "upd (if r = 0 then zu_int_frames_ended f else f) c1 ?s",
              OF _ _ _ _ _ _ nb refl refl _ _ that] v0 body cl by (simp split: if_splits)
        consider "r = 0" | "r \<noteq> 0" "\<not> (used = 0 \<and> n = 0)" | "r \<noteq> 0" "used = 0" "n = 0" by blast
        then show ?thesis
        proof cases
          case 1
          then have "step flush (s, b) = Next (upd (zu_int_frames_ended f) c1 ?s1, ?b2)"
            using pay go body cl nb by (simp add: step_shape framed_turn_def Let_def)
          with kept1 [of "upd (zu_int_frames_ended f) c1 ?s1"] less1 1 show ?thesis
            by (intro lift) (simp add: turn_good_def)
        next
          case 2
          then have "step flush (s, b) = Next (?s1, ?b2)"
            using pay go body cl nb by (auto simp: step_shape framed_turn_def Let_def)
          with kept1 [of ?s1] less1 2 show ?thesis by (intro lift) (simp add: turn_good_def)
        next
          case 3
          let ?b3 = "advance 0 0 (write_out ws b0)"
          have adv: "buf_adv b0 ?b3" using kept1 [of ?s1] 3 by (simp add: kept_def)
          have wf3: "buf_wf ?b3" using adv wf0 by (rule buf_adv_wf [rotated])
          have av: "avail_in ?b3 = avail_in b0" "avail_out ?b3 = avail_out b0"
            by (simp_all add: avail_in_def avail_out_def)
          obtain st f1 s2 where sl: "zu_int_frames_stalled f (avail_in b0) (avail_out b0) flush probe ?s1 = (st, f1, s2)"
            by (metis prod_cases3)
          have eq: "step flush (s, b) = (if st \<noteq> ZU_OK then Ret (st, upd f1 (ctx s2) s2, ?b3) else Next (upd f1 (ctx s2) s2, ?b3))"
            using pay go body cl nb 3 sl by (simp add: step_shape framed_turn_def Let_def)
          have "valid c1" using cc(4) [OF nb] by simp
          then have t: "turn_good valid fresh c0 ?s1 ?b3
              (if st \<noteq> ZU_OK then Ret (st, upd f1 (ctx s2) s2, ?b3) else Next (upd f1 (ctx s2) s2, ?b3))"
            by (intro stalled_turn [OF c, where s = ?s1 and flush = flush]) (use v0 wf3 body sl av in simp_all)
          have "\<not> (fresh (ctx s) \<and> 0 < avail_in b0)"
            using cc(4) [OF nb] 3(2) in_window_length [OF wf0] by auto
          then have "framed_weight fresh f c1 ?b3 \<le> framed_weight fresh f (ctx s) b0"
            using av body by (simp add: framed_weight_def framed_rank_def)
          with t kept_trans [OF kept1 [of ?s1]] 3 show ?thesis unfolding eq
            by (intro lift) (auto simp: turn_good_def split: loop_step.splits if_splits)
        qed
      qed
    qed
  qed
qed

subsection \<open>Calls and runs\<close>

text \<open>A call of the process function returns, whatever the buffer and the flush argument.\<close>

lemma process_returns:
  assumes c: "frame_contract valid fresh bad call" and v: "valid (ctx s)" and wf: "buf_wf b" and ok: "frames_ok (frames s)"
  shows "\<exists>st s' b'. process (Some s) b flush = Some (st, Some s', b') \<and> kept valid c0 s b s' b' (is_progress st) \<and>
    (st = ZU_STREAM_END \<longrightarrow> frames_over (frames s'))"
proof -
  let ?I = "\<lambda>(s1, b1). kept valid c0 s b s1 b1 True"
  let ?Q = "\<lambda>(st, s', b'). kept valid c0 s b s' b' (is_progress st) \<and>
      (st = ZU_STREAM_END \<longrightarrow> frames_over (frames s'))"
  have "\<exists>q. run_loop (\<lambda>sb. Some (step flush sb)) (s, b) = Some q \<and> ?Q q"
  proof (rule run_loop_measure [where I = ?I and m = "\<lambda>(s, b). framed_weight fresh (frames s) (ctx s) b"])
    show "?I (s, b)" using v wf ok by (simp add: kept_def framed_moved_def)
  next
    fix x assume "?I x"
    then obtain s1 b1 where x: "x = (s1, b1)" and k: "kept valid c0 s b s1 b1 True" by (cases x) simp
    then have "buf_wf b1" using wf by (auto simp: kept_def intro: buf_adv_wf)
    with k have t: "turn_good valid fresh c0 s1 b1 (step flush (s1, b1))"
      by (intro step_good [OF c]) (simp_all add: kept_def)
    show "(\<exists>r. Some (step flush x) = Some (Ret r) \<and> ?Q r) \<or>
        (\<exists>y. Some (step flush x) = Some (Next y) \<and> ?I y \<and>
          (case y of (s, b) \<Rightarrow> framed_weight fresh (frames s) (ctx s) b)
            < (case x of (s, b) \<Rightarrow> framed_weight fresh (frames s) (ctx s) b))"
    proof (cases "step flush (s1, b1)")
      case (Ret q)
      obtain st s2 b2 where q: "q = (st, s2, b2)" by (metis prod_cases3)
      with t Ret kept_trans [OF k] x show ?thesis by (simp add: turn_good_def)
    next
      case (Next q)
      obtain s2 b2 where q: "q = (s2, b2)" by fastforce
      with t Next kept_trans [OF k] x show ?thesis by (simp add: turn_good_def)
    qed
  qed
  then obtain q where q: "run_loop (\<lambda>sb. Some (step flush sb)) (s, b) = Some q" "?Q q" by blast
  obtain st s' b' where "q = (st, s', b')" by (metis prod_cases3)
  with q show ?thesis by (simp add: process_runs)
qed

text \<open>And its status names what it ran out of.\<close>

lemma turn_names:
  assumes t: "framed_turn frames ctx upd call bad err feed probe flush (s, b) = Ret (st, s', b')"
    and wf: "buf_wf b" and ok: "frames_ok (frames s)"
  shows "names st b'"
proof -
  obtain go f b0 where pay: "zu_int_frames_pay (frames s) b = (go, f, b0)" by (metis prod_cases3)
  note p = pay_moves [OF pay wf ok]
  have wf0: "buf_wf b0" using p(1) wf by (rule buf_adv_wf [rotated])
  let ?s0 = "upd f (ctx s) s"
  show ?thesis
  proof (cases go)
    case False
    with t pay show ?thesis
      by (auto simp: framed_turn_def zu_int_frames_pay_def names_def avail_out_def u64_sub_def split: if_splits)
  next
    case go: True
    show ?thesis
    proof (cases "fr_state f = ZU_INT_FRAME_BODY")
      case False
      obtain st1 f1 b1 s1 where bt: "zu_int_frames_between f b0 flush feed ?s0 = (st1, f1, b1, s1)" by (metis prod_cases4)
      with t pay go False have "st1 = st" "b1 = b'" "st1 \<noteq> ZU_OK" by (auto simp: framed_turn_def Let_def split: if_splits)
      moreover have "fr_n_held f \<le> 4" using p(2) by (auto simp: frames_ok_def frames_wf_def)
      moreover have "feed ?s0 q = (x, c') \<Longrightarrow> x = ZU_OK \<or> \<not> is_progress x" for q x c' using feed_calls by (metis (full_types))
      ultimately show ?thesis using between_names [OF bt wf0] by blast
    next
      case body: True
      obtain r used ws n c where cl: "call (ctx s) (in_window b0) (avail_out b0) = (r, used, ws, n, c)" by (metis prod_cases5)
      let ?s1 = "upd f c ?s0"
      show ?thesis
      proof (cases "bad r")
        case True
        with t pay go body cl have "st = err ?s1 r" by (auto simp: framed_turn_def Let_def)
        then show ?thesis using err_stops names_stop by metis
      next
        case nb: False
        obtain st1 f1 s2 where sl: "zu_int_frames_stalled f (avail_in b0) (avail_out b0) flush probe ?s1 = (st1, f1, s2)"
          by (metis prod_cases3)
        with t pay go body cl nb have q: "st = st1" "st1 \<noteq> ZU_OK" "b' = advance 0 0 (write_out ws b0)"
          by (auto simp: framed_turn_def Let_def split: if_splits)
        then have a: "avail_in b' = avail_in b0" "avail_out b' = avail_out b0" by (simp_all add: avail_in_def avail_out_def)
        obtain pst y m e s3 where pr: "probe ?s1 (fr_owed f) = (pst, y, m, e, s3)" by (metis prod_cases5)
        then have "pst = ZU_OK \<or> \<not> is_progress pst" using probe_calls by (metis (full_types))
        with sl pr q a show ?thesis by (auto simp: zu_int_frames_stalled_def names_def Let_def split: if_splits)
      qed
    qed
  qed
qed

lemma process_names:
  assumes c: "frame_contract (\<lambda>_. True) fresh bad call" and wf: "buf_wf b" and ok: "frames_ok (frames s)"
    and call: "process (Some s) b flush = Some (st, so, b')"
  shows "names st b'"
proof -
  obtain s' where run: "run_loop (\<lambda>sb. Some (step flush sb)) (s, b) = Some (st, s', b')"
    using call by (auto simp: process_runs)
  let ?I = "\<lambda>(s, b). buf_wf b \<and> frames_ok (frames s)" and ?Q = "\<lambda>(st, s', b'). names st b'"
  have "?Q (st, s', b')"
  proof (rule run_loop_inv [OF run, where I = ?I])
    show "?I (s, b)" using wf ok by simp
  next
    fix x y assume i: "?I x" and n: "Some (step flush x) = Some (Next y)"
    obtain s1 b1 where x: "x = (s1, b1)" by fastforce
    from step_good [OF c, where s = s1 and b = b1 and flush = flush] i n show "?I y"
      by (auto simp: x turn_good_def kept_def intro: buf_adv_wf)
  next
    fix x r assume i: "?I x" and n: "Some (step flush x) = Some (Ret r)"
    obtain s1 b1 st1 s2 b2 where x: "x = (s1, b1)" "r = (st1, s2, b2)" by (metis prod_cases3 surj_pair)
    from turn_names [of flush s1 b1 st1 s2 b2] i n show "?Q r" by (simp add: x step_shape)
  qed
  then show ?thesis by simp
qed

end

text \<open>Any number of calls, each after one that did not fail.\<close>

inductive codec_run :: "'s process_fn \<Rightarrow> 's \<Rightarrow> byte list \<Rightarrow> byte list \<Rightarrow> 's \<Rightarrow> zu_status \<Rightarrow> bool"
  for proc :: "'s process_fn" and s0 :: 's where
  start: "codec_run proc s0 [] [] s0 ZU_OK"
| call: "codec_run proc s0 i out s st \<Longrightarrow> is_progress st \<Longrightarrow> buf_wf b \<Longrightarrow>
    proc (Some s) b flush = Some (st', Some s', b') \<Longrightarrow>
    codec_run proc s0 (i @ consumed b b') (out @ emitted b b') s' st'"

lemma codec_run_one:
  assumes "proc (Some s0) b flush = Some (st, Some s', b')" "buf_wf b"
  shows "codec_run proc s0 (consumed b b') (emitted b b') s' st"
  using codec_run.call [where proc = proc and b = b and flush = flush, OF codec_run.start _ assms(2,1)] by simp

context framed_decoder
begin

lemma run_trace:
  assumes c: "frame_contract valid fresh bad call" and v: "valid (ctx s0)"
    and new: "frames s0 = zu_int_frames_init kind flags"
    and run: "codec_run process s0 i out s st"
  shows "frames_ok (frames s) \<and> (is_progress st \<longrightarrow> valid (ctx s) \<and> framed_at call bad (ctx s0) (frames s) (ctx s) i out \<and>
    fr_kind (frames s) = kind \<and> fr_flags (frames s) = flags \<and> (st = ZU_STREAM_END \<longrightarrow> frames_over (frames s)))"
  using run
proof (induction rule: codec_run.induct)
  case start
  have "framed_at call bad (ctx s0) (frames s0) (ctx s0) [] []"
    using lib_run.start [of call bad "ctx s0"] unfolding framed_at_def
    by (intro exI [of _ "[]"] exI [of _ False]) (simp add: new zu_int_frames_init_def owed_bytes_def frames_prefix_def)
  with v show ?case by (simp add: new zu_int_frames_init_def frames_ok_def frames_wf_def magic_prefix_Nil)
next
  case (call i out s st b flush st' s' b')
  then have "frames_ok (frames s)" "valid (ctx s)" by simp_all
  from process_returns [OF c this(2) call.hyps(3) this(1), of flush "ctx s0"] call.hyps(4)
  have k: "kept valid (ctx s0) s b s' b' (is_progress st')"
    "st' = ZU_STREAM_END \<longrightarrow> frames_over (frames s')" by auto
  with call.IH call.hyps(2) show ?case by (auto simp: kept_def framed_moved_def)
qed

text \<open>
  What the end of the stream means: every byte delivered was put out by the library, in order, as
  it read the bytes consumed, and its last call reported a complete frame. At most three bytes that
  begin another frame's magic were taken beyond, and none where frames may not be concatenated.
\<close>

lemma decoder_exact:
  assumes "frame_contract valid fresh bad call" "valid (ctx s0)" "frames s0 = zu_int_frames_init kind flags"
    and "codec_run process s0 i out s ZU_STREAM_END"
  shows "\<exists>i' tl c. i = i' @ tl \<and> lib_run call bad (ctx s0) i' out True c \<and> length tl < 4 \<and> magic_prefix kind tl \<and>
    (\<not> has_flag flags ZU_DEC_CONCAT_MEMBERS \<longrightarrow> tl = [])"
proof -
  from run_trace [OF assms] have at: "framed_at call bad (ctx s0) (frames s) (ctx s) i out"
    and over: "frames_over (frames s)" "fr_kind (frames s) = kind" "fr_flags (frames s) = flags" by simp_all
  from at obtain i' e tl where "lib_run call bad (ctx s0) i' (out @ owed_bytes (frames s)) e (ctx s)" and i: "i = i' @ tl"
    and "fr_state (frames s) \<noteq> ZU_INT_FRAME_BODY \<longrightarrow> e"
    and tl: "if fr_state (frames s) = ZU_INT_FRAME_DONE
      then length tl < 4 \<and> magic_prefix (fr_kind (frames s)) tl \<and> (tl \<noteq> [] \<longrightarrow> has_flag (fr_flags (frames s)) ZU_DEC_CONCAT_MEMBERS)
      else tl = frames_prefix (frames s)"
    unfolding framed_at_def by blast
  with over have "lib_run call bad (ctx s0) i' out True (ctx s)" by (simp add: frames_over_def owed_bytes_def)
  with i tl over show ?thesis
    by (intro exI [of _ i'] exI [of _ tl] exI [of _ "ctx s"]) (auto simp: frames_over_def)
qed

end

end
