(* ===== verification/Zu_Whole.thy ===== *)
theory Zu_Whole
  imports Zu_Frame_Loop
begin

unbundle bit_operations_syntax

text \<open>
  \<^verbatim>\<open>src/zu_whole.c\<close>: the growing output sink and the drive loop behind \<^verbatim>\<open>komp_compress()\<close>,
  \<^verbatim>\<open>komp_decompress()\<close> and the chunk-boundary harness. \<^verbatim>\<open>realloc\<close> is the parameter \<open>re\<close>, which
  maps the old block and the new size to the new block's address, or fails; an external pointer of R
  is the address it owns; and \<open>intr\<close> says at which check the user interrupts. The shared source
  buffer is never written and stands for itself.
\<close>

subsection \<open>The sink\<close>

definition ZU_INT_INTERRUPT_EVERY :: nat where "ZU_INT_INTERRUPT_EVERY = 64"

text \<open>\<open>ob_owner\<close> is \<open>None\<close> before there is an external pointer, else the address it holds;
  \<open>ob_buf\<close> is the block's address and its bytes.\<close>

record zu_int_outbuf =
  ob_owner :: "nat option option"
  ob_buf :: "(nat \<times> byte list) option"
  ob_size :: nat
  ob_used :: nat
  ob_consumed :: nat

type_synonym sink_realloc = "nat option \<Rightarrow> nat \<Rightarrow> nat option"

definition outbuf_zero :: zu_int_outbuf where
  "outbuf_zero = \<lparr>ob_owner = None, ob_buf = None, ob_size = 0, ob_used = 0, ob_consumed = 0\<rparr>"

text \<open>A finalizer yields the addresses it frees, the pointer's new address and the live count.\<close>

definition zu_int_outbuf_finalizer :: "nat option \<Rightarrow> int \<Rightarrow> nat list \<times> nat option \<times> int" where
  "zu_int_outbuf_finalizer p live = (case p of None \<Rightarrow> ([], None, live) | Some a \<Rightarrow> ([a], None, live - 1))"

definition zu_int_outbuf_owner :: "zu_int_outbuf \<Rightarrow> zu_int_outbuf" where
  "zu_int_outbuf_owner ob = ob\<lparr>ob_owner := Some None, ob_buf := None, ob_size := 0, ob_used := 0\<rparr>"

definition zu_int_outbuf_release :: "zu_int_outbuf \<Rightarrow> int \<Rightarrow> nat list \<times> zu_int_outbuf \<times> int" where
  "zu_int_outbuf_release ob live =
     (let ob1 = (if ob_owner ob \<noteq> None then ob\<lparr>ob_owner := Some None\<rparr> else ob)
      in (case ob_buf ob1 of
            None \<Rightarrow> ([], ob1\<lparr>ob_buf := None, ob_size := 0\<rparr>, live)
          | Some (a, m) \<Rightarrow> ([a], ob1\<lparr>ob_buf := None, ob_size := 0\<rparr>, live - 1)))"

definition outbuf_mem :: "zu_int_outbuf \<Rightarrow> byte list" where
  "outbuf_mem ob = (case ob_buf ob of None \<Rightarrow> [] | Some (a, m) \<Rightarrow> m)"

definition zu_int_reserve ::
  "sink_realloc \<Rightarrow> zu_int_outbuf \<Rightarrow> int \<Rightarrow> nat \<Rightarrow> zu_status \<times> zu_int_outbuf \<times> int" where
  "zu_int_reserve re ob live extra =
     (if ob_owner ob = None then (ZU_ERR_INVALID_ARGUMENT, ob, live)
      else
        (case zu_int_add (ob_used ob) extra of
           (st, None) \<Rightarrow> (st, ob, live)
         | (st, Some needed) \<Rightarrow>
             if needed \<le> ob_size ob then (ZU_OK, ob, live)
             else
               (case zu_int_grow (ob_size ob) (needed - ob_size ob) of
                  (st, None) \<Rightarrow> (st, ob, live)
                | (st, Some nxt) \<Rightarrow>
                    (case re (map_option fst (ob_buf ob)) nxt of
                       None \<Rightarrow> (ZU_ERR_MEMORY, ob, live)
                     | Some a \<Rightarrow>
                         (ZU_OK, ob\<lparr>ob_buf := Some (a, resize nxt (outbuf_mem ob)), ob_size := nxt, ob_owner := Some (Some a)\<rparr>,
                          if ob_buf ob = None then live + 1 else live)))))"

subsection \<open>The drive loop\<close>

record zu_int_run_opts =
  ro_src :: "byte list"
  ro_n :: nat
  ro_encode :: bool
  ro_codec :: zu_codec
  ro_level :: int
  ro_max_output :: nat
  ro_max_ratio :: nat
  ro_dec_flags :: u32
  ro_expected_size :: nat
  ro_in_chunk :: nat
  ro_out_chunk :: nat
  ro_flush_every :: nat

definition whole_opts :: "zu_int_run_opts \<Rightarrow> any_opts" where
  "whole_opts r =
     (if ro_encode r
      then EncOpts \<lparr>eo_struct_size = sizeof_zu_encoder_opts, eo_codec = ro_codec r, eo_level = ro_level r, eo_flags = 0\<rparr>
      else DecOpts \<lparr>do_struct_size = sizeof_zu_decoder_opts, do_codec = ro_codec r, do_max_output = ro_max_output r,
                    do_max_ratio = ro_max_ratio r, do_flags = ro_dec_flags r, do_expected_size = ro_expected_size r\<rparr>)"

text \<open>The next input slice, once the previous one is spent; the flush argument; the output window.\<close>

definition whole_refill :: "zu_int_run_opts \<Rightarrow> zu_buffer \<Rightarrow> nat \<Rightarrow> zu_buffer \<times> nat" where
  "whole_refill r b fed =
     (if src_pos b = src_size b \<and> fed < ro_n r
      then
        (let n = ro_n r - fed;
             n' = (if n > ro_in_chunk r then ro_in_chunk r else n)
         in (b\<lparr>src := Some (drop fed (ro_src r)), src_size := n', src_pos := 0\<rparr>, fed + n'))
      else (b, fed))"

definition whole_flush :: "zu_int_run_opts \<Rightarrow> nat \<Rightarrow> nat \<Rightarrow> zu_flush" where
  "whole_flush r fed calls =
     (if fed \<ge> ro_n r then ZU_FINISH
      else if ro_flush_every r > 0 \<and> u64_add calls 1 mod ro_flush_every r = 0 then ZU_FLUSH
      else ZU_RUN)"

definition whole_window :: "zu_int_run_opts \<Rightarrow> zu_int_outbuf \<Rightarrow> zu_buffer \<Rightarrow> zu_buffer" where
  "whole_window r ob b =
     b\<lparr>dst := map_option (\<lambda>(a, m). drop (ob_used ob) m) (ob_buf ob), dst_size := ro_out_chunk r, dst_pos := 0\<rparr>"

text \<open>What the codec wrote through \<^verbatim>\<open>buf.dst\<close> is in the sink, whose \<^verbatim>\<open>used\<close> moves past it.\<close>

definition whole_deliver :: "zu_int_outbuf \<Rightarrow> zu_buffer \<Rightarrow> zu_int_outbuf" where
  "whole_deliver ob b =
     ob\<lparr>ob_buf := map_option (\<lambda>(a, m). (a, take (ob_used ob) m @ dst_mem b)) (ob_buf ob), ob_used := ob_used ob + dst_pos b\<rparr>"

datatype whole_end = Whole_returned zu_status | Whole_interrupted

type_synonym 's whole_state = "'s handle \<times> zu_buffer \<times> nat \<times> nat \<times> zu_int_outbuf \<times> int"

definition whole_after ::
  "(nat \<Rightarrow> bool) \<Rightarrow> zu_int_run_opts \<Rightarrow> zu_status \<Rightarrow> 's whole_state \<Rightarrow> (whole_end \<times> 's whole_state, 's whole_state) loop_step" where
  "whole_after intr r st x =
     (case x of (h, b, fed, calls, ob, live) \<Rightarrow>
        if st = ZU_STREAM_END then Ret (Whole_returned st, x)
        else if st \<noteq> ZU_OK \<and> st \<noteq> ZU_NEED_INPUT \<and> st \<noteq> ZU_NEED_OUTPUT then Ret (Whole_returned st, x)
        else if dst_pos b = 0 \<and> fed \<ge> ro_n r \<and> st = ZU_NEED_INPUT then Ret (Whole_returned ZU_ERR_INTERNAL, x)
        else if calls mod ZU_INT_INTERRUPT_EVERY = 0 \<and> intr calls then Ret (Whole_interrupted, x)
        else Next x)"

definition whole_step ::
  "sink_realloc \<Rightarrow> (nat \<Rightarrow> bool) \<Rightarrow> zu_int_run_opts \<Rightarrow> 's whole_state \<Rightarrow>
    (whole_end \<times> 's whole_state, 's whole_state) loop_step option" where
  "whole_step re intr r x =
     (case x of (h, b, fed, calls, ob, live) \<Rightarrow>
        (case whole_refill r b fed of
           (b1, fed1) \<Rightarrow>
             (case zu_int_reserve re ob live (ro_out_chunk r) of
                (st, ob1, live1) \<Rightarrow>
                  if st \<noteq> ZU_OK then Some (Ret (Whole_returned st, h, b1, fed1, calls, ob1, live1))
                  else
                    (case handle_process h (whole_window r ob1 b1) (whole_flush r fed1 calls) of
                       None \<Rightarrow> None
                     | Some (st, h', b2) \<Rightarrow>
                         Some (whole_after intr r st (h', b2, fed1, u64_add calls 1, whole_deliver ob1 b2, live1))))))"

text \<open>The release calls for a handle, on the normal exit and by the finalizer of its guard.\<close>

definition handle_free :: "'s handle \<Rightarrow> string list" where
  "handle_free h =
     (case h of
        Enc e \<Rightarrow> zu_encoder_free (Some e) @ zu_decoder_free (None :: 's zu_decoder option)
      | Dec d \<Rightarrow> zu_encoder_free (None :: 's zu_encoder option) @ zu_decoder_free (Some d))"

definition zu_int_encoder_finalizer :: "'s zu_encoder option \<Rightarrow> string list \<times> 's zu_encoder option" where
  "zu_int_encoder_finalizer p = (case p of None \<Rightarrow> ([], None) | Some e \<Rightarrow> (zu_encoder_free (Some e), None))"

definition zu_int_decoder_finalizer :: "'s zu_decoder option \<Rightarrow> string list \<times> 's zu_decoder option" where
  "zu_int_decoder_finalizer p = (case p of None \<Rightarrow> ([], None) | Some d \<Rightarrow> (zu_decoder_free (Some d), None))"

definition guard_finalizer :: "'s handle \<Rightarrow> string list" where
  "guard_finalizer h =
     (case h of Enc e \<Rightarrow> fst (zu_int_encoder_finalizer (Some e)) | Dec d \<Rightarrow> fst (zu_int_decoder_finalizer (Some d)))"

text \<open>How the call ends, the release calls for the stream handle, the sink and the live count.\<close>

definition zu_int_run_whole ::
  "alloc \<Rightarrow> sink_realloc \<Rightarrow> (nat \<Rightarrow> bool) \<Rightarrow> 's zu_registry \<Rightarrow> zu_int_run_opts \<Rightarrow> zu_int_outbuf \<Rightarrow> int \<Rightarrow>
    (whole_end \<times> string list \<times> zu_int_outbuf \<times> int) option" where
  "zu_int_run_whole mem re intr reg r ob live =
     (if ro_in_chunk r = 0 \<or> ro_out_chunk r = 0 then Some (Whole_returned ZU_ERR_INVALID_ARGUMENT, [], ob, live)
      else
        (case handle_new mem reg (whole_opts r) of
           (st, None) \<Rightarrow> Some (Whole_returned st, [], ob, live)
         | (st, Some h) \<Rightarrow>
             (case run_loop (whole_step re intr r)
                     (h, \<lparr>src = None, src_size = 0, src_pos = 0, dst = None, dst_size = 0, dst_pos = 0\<rparr>, 0, 0, ob, live) of
                None \<Rightarrow> None
              | Some (Whole_interrupted, h', b, fed, calls, ob', live') \<Rightarrow>
                  Some (Whole_interrupted, guard_finalizer h', ob', live')
              | Some (Whole_returned st, h', b, fed, calls, ob', live') \<Rightarrow>
                  Some (Whole_returned st, handle_free h',
                        ob'\<lparr>ob_consumed := u64_sub fed (u64_sub (src_size b) (src_pos b))\<rparr>, live'))))"

subsection \<open>The sink keeps its block\<close>

text \<open>The external pointer owns exactly the block the sink uses, and the live count, \<open>base\<close> without
  this sink, counts it.\<close>

definition sink_ok :: "int \<Rightarrow> zu_int_outbuf \<Rightarrow> int \<Rightarrow> bool" where
  "sink_ok base ob live \<longleftrightarrow> ob_owner ob = Some (map_option fst (ob_buf ob)) \<and>
     length (outbuf_mem ob) = ob_size ob \<and> ob_used ob \<le> ob_size ob \<and> ob_size ob \<le> SIZE_MAX \<and>
     live = base + (if ob_buf ob = None then 0 else 1)"

definition sink_bytes :: "zu_int_outbuf \<Rightarrow> byte list" where
  "sink_bytes ob = take (ob_used ob) (outbuf_mem ob)"

lemma sink_new: "sink_ok live (zu_int_outbuf_owner ob) live" "sink_bytes (zu_int_outbuf_owner ob) = []"
  by (simp_all add: sink_ok_def zu_int_outbuf_owner_def outbuf_mem_def sink_bytes_def)

text \<open>The sink can grow to a size when it fits a \<^verbatim>\<open>size_t\<close> and \<^verbatim>\<open>realloc\<close> never fails.\<close>

definition roomy :: "sink_realloc \<Rightarrow> nat \<Rightarrow> bool" where
  "roomy re k \<longleftrightarrow> k \<le> SIZE_MAX \<and> (\<forall>p n. re p n \<noteq> None)"

lemma reserve_ok:
  assumes e: "zu_int_reserve re ob live extra = (st, ob', live')" and ok: "sink_ok base ob live"
  shows "sink_ok base ob' live'" "ob_used ob' = ob_used ob" "sink_bytes ob' = sink_bytes ob"
    "st = ZU_OK \<Longrightarrow> ob_used ob' + extra \<le> ob_size ob'" "st = ZU_OK \<or> st = ZU_ERR_MEMORY \<and> \<not> roomy re (ob_used ob + extra)"
proof -
  let ?goal = "sink_ok base ob' live' \<and> ob_used ob' = ob_used ob \<and> sink_bytes ob' = sink_bytes ob \<and>
    (st = ZU_OK \<longrightarrow> ob_used ob' + extra \<le> ob_size ob') \<and> (st = ZU_OK \<or> st = ZU_ERR_MEMORY \<and> \<not> roomy re (ob_used ob + extra))"
  have k: "ob_owner ob \<noteq> None" "ob_used ob \<le> ob_size ob" "ob_size ob \<le> SIZE_MAX" "length (outbuf_mem ob) = ob_size ob"
    using ok by (simp_all add: sink_ok_def)
  then have us: "ob_used ob \<le> SIZE_MAX" by simp
  have still: ?goal if "(st, ob', live') = (s, ob, live)"
    "s = ZU_ERR_MEMORY \<and> \<not> roomy re (ob_used ob + extra) \<or> s = ZU_OK \<and> ob_used ob + extra \<le> ob_size ob" for s
    using that ok by auto
  have ?goal
  proof (cases "ob_used ob + extra \<le> SIZE_MAX")
    case False
    with e k(1) us have "(st, ob', live') = (ZU_ERR_MEMORY, ob, live)" by (simp add: zu_int_reserve_def zu_int_add_cases)
    then show ?thesis by (rule still) (use False in \<open>simp add: roomy_def\<close>)
  next
    case sz: True
    note add = zu_int_add_cases [OF us, of extra, unfolded if_P [OF sz]]
    show ?thesis
    proof (cases "ob_used ob + extra \<le> ob_size ob")
      case True
      with e k(1) add have "(st, ob', live') = (ZU_OK, ob, live)" by (simp add: zu_int_reserve_def)
      then show ?thesis by (rule still) (simp add: True)
    next
      case gr: False
      let ?more = "ob_used ob + extra - ob_size ob"
      have sum: "ob_size ob + ?more = ob_used ob + extra" using gr by simp
      obtain gst nx where g: "zu_int_grow (ob_size ob) ?more = (gst, nx)" by fastforce
      then obtain n where n: "gst = ZU_OK" "nx = Some n"
        using zu_int_grow_cases [OF k(3), of ?more, unfolded sum if_P [OF sz]] by auto
      have bounds: "ob_used ob + extra \<le> n" "n \<le> SIZE_MAX"
        using zu_int_grow_OK [OF k(3) g [unfolded n]] sum by simp_all
      show ?thesis
      proof (cases "re (map_option fst (ob_buf ob)) n")
        case None
        with e k(1) add gr g n have "(st, ob', live') = (ZU_ERR_MEMORY, ob, live)" by (simp add: zu_int_reserve_def)
        then show ?thesis by (rule still) (use None in \<open>auto simp: roomy_def\<close>)
      next
        case (Some a)
        let ?ob = "ob\<lparr>ob_buf := Some (a, resize n (outbuf_mem ob)), ob_size := n, ob_owner := Some (Some a)\<rparr>"
        have q: "st = ZU_OK" "ob' = ?ob" "live' = (if ob_buf ob = None then live + 1 else live)"
          using e k(1) add gr g n Some by (simp_all add: zu_int_reserve_def)
        have len: "ob_size ob \<le> n" using gr bounds by simp
        have mem: "outbuf_mem ?ob = resize n (outbuf_mem ob)" by (simp add: outbuf_mem_def)
        have "length (resize n (outbuf_mem ob)) = n" using len k(4) by (simp add: resize_def)
        moreover have "take (ob_used ob) (resize n (outbuf_mem ob)) = take (ob_used ob) (outbuf_mem ob)"
          using len k(2,4) by (simp add: resize_def min_def)
        moreover have "live' = base + 1" using ok q(3) by (simp add: sink_ok_def)
        ultimately show ?thesis using bounds by (simp add: q(1,2) sink_ok_def sink_bytes_def mem)
      qed
    qed
  qed
  then show "sink_ok base ob' live'" "ob_used ob' = ob_used ob" "sink_bytes ob' = sink_bytes ob"
    "st = ZU_OK \<Longrightarrow> ob_used ob' + extra \<le> ob_size ob'" "st = ZU_OK \<or> st = ZU_ERR_MEMORY \<and> \<not> roomy re (ob_used ob + extra)"
    by simp_all
qed

text \<open>What the codec delivered is appended.\<close>

lemma window_mem: "dst_mem (whole_window r ob b) = drop (ob_used ob) (outbuf_mem ob)"
  by (simp add: whole_window_def dst_mem_def outbuf_mem_def split: option.splits)

lemma window_pos [simp]:
  "src_mem (whole_window r ob b) = src_mem b" "src_pos (whole_window r ob b) = src_pos b"
  "src_size (whole_window r ob b) = src_size b" "src (whole_window r ob b) = src b"
  "dst_pos (whole_window r ob b) = 0" "dst_size (whole_window r ob b) = ro_out_chunk r"
  by (simp_all add: whole_window_def src_mem_def)

lemma deliver_ok:
  assumes ok: "sink_ok base ob live" and room: "ob_used ob + ro_out_chunk r \<le> ob_size ob"
    and adv: "buf_adv (whole_window r ob b) b'"
  shows "sink_ok base (whole_deliver ob b') live"
    "sink_bytes (whole_deliver ob b') = sink_bytes ob @ emitted (whole_window r ob b) b'"
    "ob_used (whole_deliver ob b') = ob_used ob + dst_pos b'"
proof -
  have k: "length (outbuf_mem ob) = ob_size ob" "ob_used ob \<le> ob_size ob" using ok by (simp_all add: sink_ok_def)
  have len: "length (dst_mem b') = ob_size ob - ob_used ob" "dst_pos b' \<le> ro_out_chunk r"
    using adv k by (simp_all add: buf_adv_def window_mem)
  have nn: "ob_buf ob = None \<longrightarrow> ob_size ob = 0" using k by (auto simp: outbuf_mem_def)
  have mem: "outbuf_mem (whole_deliver ob b') = take (ob_used ob) (outbuf_mem ob) @ dst_mem b'"
  proof (cases "ob_buf ob")
    case None
    with nn len show ?thesis by (simp add: whole_deliver_def outbuf_mem_def)
  next
    case (Some p)
    then show ?thesis by (cases p) (simp add: whole_deliver_def outbuf_mem_def)
  qed
  have fields: "ob_owner (whole_deliver ob b') = ob_owner ob" "ob_size (whole_deliver ob b') = ob_size ob"
    "map_option fst (ob_buf (whole_deliver ob b')) = map_option fst (ob_buf ob)"
    "(ob_buf (whole_deliver ob b') = None) = (ob_buf ob = None)"
    by (cases "ob_buf ob"; auto simp: whole_deliver_def)+
  show used: "ob_used (whole_deliver ob b') = ob_used ob + dst_pos b'" by (simp add: whole_deliver_def)
  show "sink_ok base (whole_deliver ob b') live"
    using ok k len room unfolding sink_ok_def fields mem used by simp
  show "sink_bytes (whole_deliver ob b') = sink_bytes ob @ emitted (whole_window r ob b) b'"
    using k len unfolding sink_bytes_def mem used by (simp add: emitted_def seg_def)
qed

subsection \<open>The input slices\<close>

definition whole_opts_ok :: "zu_int_run_opts \<Rightarrow> bool" where
  "whole_opts_ok r \<longleftrightarrow> ro_n r = length (ro_src r) \<and> ro_n r \<le> SIZE_MAX \<and> 0 < ro_in_chunk r \<and> 0 < ro_out_chunk r"

definition feed_at :: "zu_int_run_opts \<Rightarrow> zu_buffer \<Rightarrow> nat \<Rightarrow> bool" where
  "feed_at r b fed \<longleftrightarrow> fed \<le> ro_n r \<and> src_pos b \<le> src_size b \<and> src_size b \<le> fed \<and>
     (ro_n r \<le> ro_in_chunk r \<longrightarrow> fed = 0 \<or> fed = ro_n r) \<and>
     (src b = None \<longrightarrow> src_size b = 0) \<and> (src b \<noteq> None \<longrightarrow> src_mem b = drop (fed - src_size b) (ro_src r))"

text \<open>How much of the input the codec has taken: the value stored in \<^verbatim>\<open>out->consumed\<close>.\<close>

definition taken :: "zu_buffer \<Rightarrow> nat \<Rightarrow> nat" where
  "taken b fed = fed - (src_size b - src_pos b)"

lemma taken_bounds:
  assumes "feed_at r b fed"
  shows "taken b fed \<le> fed" "fed \<le> ro_n r" "taken b fed \<le> ro_n r"
    "u64_sub fed (u64_sub (src_size b) (src_pos b)) = taken b fed"
proof -
  have k: "src_pos b \<le> src_size b" "src_size b \<le> fed" "fed \<le> ro_n r" using assms by (simp_all add: feed_at_def)
  show "taken b fed \<le> fed" "fed \<le> ro_n r" using k by (simp_all add: taken_def)
  then show "taken b fed \<le> ro_n r" by linarith
  have "src_size b - src_pos b \<le> fed" using k by linarith
  then show "u64_sub fed (u64_sub (src_size b) (src_pos b)) = taken b fed" using k(1) by (simp add: taken_def)
qed

lemma refill_ok:
  assumes f: "feed_at r b fed" and e: "whole_refill r b fed = (b', fed')" and ok: "whole_opts_ok r"
  shows "feed_at r b' fed'" "taken b' fed' = taken b fed" "fed \<le> fed'"
    "src_pos b = src_size b \<Longrightarrow> fed < ro_n r \<Longrightarrow> fed < fed'" "ro_n r \<le> ro_in_chunk r \<Longrightarrow> fed' = ro_n r"
    "ro_n r \<le> fed \<Longrightarrow> b' = b"
proof -
  have "feed_at r b' fed' \<and> taken b' fed' = taken b fed \<and> fed \<le> fed' \<and>
      (src_pos b = src_size b \<and> fed < ro_n r \<longrightarrow> fed < fed') \<and> (ro_n r \<le> ro_in_chunk r \<longrightarrow> fed' = ro_n r) \<and>
      (ro_n r \<le> fed \<longrightarrow> b' = b)"
  proof (cases "src_pos b = src_size b \<and> fed < ro_n r")
    case False
    then have "b' = b" "fed' = fed" using e by (auto simp: whole_refill_def split: if_splits)
    moreover have "fed = ro_n r" if "ro_n r \<le> ro_in_chunk r" using f that False by (auto simp: feed_at_def)
    ultimately show ?thesis using f False by simp
  next
    case True
    define n where "n = (if ro_n r - fed > ro_in_chunk r then ro_in_chunk r else ro_n r - fed)"
    have n: "0 < n" "n \<le> ro_n r - fed" using True ok by (simp_all add: n_def whole_opts_ok_def)
    have q: "b' = b\<lparr>src := Some (drop fed (ro_src r)), src_size := n, src_pos := 0\<rparr>" "fed' = fed + n"
      using e True by (simp_all add: whole_refill_def Let_def n_def)
    have "n = ro_n r - fed \<and> fed = 0" if "ro_n r \<le> ro_in_chunk r" using f that True by (auto simp: feed_at_def n_def)
    then show ?thesis using n True f by (auto simp: q feed_at_def taken_def src_mem_def)
  qed
  then show "feed_at r b' fed'" "taken b' fed' = taken b fed" "fed \<le> fed'"
    "src_pos b = src_size b \<Longrightarrow> fed < ro_n r \<Longrightarrow> fed < fed'" "ro_n r \<le> ro_in_chunk r \<Longrightarrow> fed' = ro_n r"
    "ro_n r \<le> fed \<Longrightarrow> b' = b" by simp_all
qed

lemma window_wf:
  assumes f: "feed_at r b fed" and ok: "whole_opts_ok r" and s: "sink_ok base ob live"
    and room: "ob_used ob + ro_out_chunk r \<le> ob_size ob"
  shows "buf_wf (whole_window r ob b)"
proof -
  have k: "src_pos b \<le> src_size b" "src_size b \<le> fed" "fed \<le> ro_n r" using f by (simp_all add: feed_at_def)
  have "length (src_mem b) \<le> SIZE_MAX \<and> src_size b \<le> length (src_mem b)"
  proof (cases "src b")
    case None
    then show ?thesis using f by (simp add: feed_at_def src_mem_def)
  next
    case (Some m)
    then have "length (src_mem b) = ro_n r - (fed - src_size b)" using f ok by (simp add: feed_at_def whole_opts_ok_def)
    then show ?thesis using k ok unfolding whole_opts_ok_def by linarith
  qed
  moreover have "length (outbuf_mem ob) = ob_size ob" "ob_size ob \<le> SIZE_MAX" using s by (simp_all add: sink_ok_def)
  ultimately show ?thesis using k(1) room unfolding buf_wf_def window_mem window_pos by (simp; linarith)
qed

lemma feed_moved:
  assumes f: "feed_at r b fed" and adv: "buf_adv (whole_window r ob b) b'" and ok: "whole_opts_ok r"
  shows "feed_at r b' fed" "taken b fed \<le> taken b' fed" "taken b' fed \<le> ro_n r"
    "take (taken b' fed) (ro_src r) = take (taken b fed) (ro_src r) @ consumed (whole_window r ob b) b'"
    "taken b' fed = taken b fed + (src_pos b' - src_pos b)"
proof -
  have a: "src b' = src b" "src_size b' = src_size b" "src_pos b \<le> src_pos b'" "src_pos b' \<le> src_size b" "src_mem b' = src_mem b"
    using adv by (simp_all add: buf_adv_def src_mem_def)
  show "feed_at r b' fed" using f a by (simp add: feed_at_def)
  have p: "taken b fed = (fed - src_size b) + src_pos b" "taken b' fed = (fed - src_size b) + src_pos b'"
    using f a by (simp_all add: taken_def feed_at_def)
  then show "taken b fed \<le> taken b' fed" "taken b' fed = taken b fed + (src_pos b' - src_pos b)" using a by simp_all
  have "src_size b \<le> fed" "fed \<le> ro_n r" using f by (simp_all add: feed_at_def)
  then show "taken b' fed \<le> ro_n r" using p(2) a(4) by linarith
  show "take (taken b' fed) (ro_src r) = take (taken b fed) (ro_src r) @ consumed (whole_window r ob b) b'"
  proof (cases "src b")
    case None
    with f a p show ?thesis by (simp add: consumed_def feed_at_def)
  next
    case (Some m)
    then have "consumed (whole_window r ob b) b' = take (src_pos b' - src_pos b) (drop (taken b fed) (ro_src r))"
      using f by (simp add: consumed_def seg_def feed_at_def p add.commute)
    then show ?thesis using p a by (simp add: take_add [symmetric])
  qed
qed

subsection \<open>The loop over a trace of the handle\<close>

definition usual_flush :: "zu_int_run_opts \<Rightarrow> zu_flush \<Rightarrow> bool" where
  "usual_flush r fl \<longleftrightarrow> fl = ZU_RUN \<or> fl = ZU_FINISH \<or> fl = ZU_FLUSH \<and> 0 < ro_flush_every r"

lemma usual_flush_simps [simp]: "usual_flush r ZU_RUN" "usual_flush r ZU_FINISH" "usual_flush r ZU_FLUSH = (0 < ro_flush_every r)" "usual_flush r (whole_flush r fed calls)"
  by (simp_all add: usual_flush_def whole_flush_def)

text \<open>Why the loop ended: the status of the last call, a sink that could not grow, a codec that asked
  for more input after the last, or the user.\<close>

definition whole_cause ::
  "sink_realloc \<Rightarrow> (nat \<Rightarrow> bool) \<Rightarrow> zu_int_run_opts \<Rightarrow> whole_end \<Rightarrow> zu_status \<Rightarrow> zu_flush \<Rightarrow> nat \<Rightarrow> bool" where
  "whole_cause re intr r e st0 fl used \<longleftrightarrow>
     (case e of
        Whole_returned st \<Rightarrow> st = st0 \<and> \<not> is_progress st \<or> st = ZU_STREAM_END \<or>
          st = ZU_ERR_MEMORY \<and> \<not> roomy re (used + ro_out_chunk r) \<or>
          st = ZU_ERR_INTERNAL \<and> st0 = ZU_NEED_INPUT \<and> fl = ZU_FINISH
      | Whole_interrupted \<Rightarrow> \<exists>n. intr n)"

fun state_used :: "'s whole_state \<Rightarrow> nat" where
  "state_used (h, b, fed, calls, ob, live) = ob_used ob"

fun whole_fed :: "'s whole_state \<Rightarrow> nat" where
  "whole_fed (h, b, fed, calls, ob, live) = fed"

text \<open>
  What the loop needs of a handle: a call returns, keeps the cursor discipline, and extends the
  trace \<open>tr\<close> of the bytes taken and delivered. The trace also knows the status and the flush argument
  of the last call and how much input that call left; once the input is finished, the loop offers no
  more of it.
\<close>

type_synonym 's handle_trace = "'s handle \<Rightarrow> byte list \<Rightarrow> byte list \<Rightarrow> zu_status \<Rightarrow> zu_flush \<Rightarrow> nat \<Rightarrow> bool"

locale whole_trace =
  fixes hinv :: "'s handle \<Rightarrow> bool" and tr :: "'s handle_trace"
  assumes call_ok: "hinv h \<Longrightarrow> tr h i out st0 fl0 left0 \<Longrightarrow> is_progress st0 \<Longrightarrow>
    (fl0 = ZU_FINISH \<longrightarrow> flush = ZU_FINISH \<and> avail_in b = left0) \<Longrightarrow> buf_wf b \<Longrightarrow>
    \<exists>st h' b'. handle_process h b flush = Some (st, h', b') \<and> hinv h' \<and> buf_adv b b' \<and>
      tr h' (i @ consumed b b') (out @ emitted b b') st flush (avail_in b')"
begin

definition whole_kept :: "int \<Rightarrow> zu_int_run_opts \<Rightarrow> zu_status \<Rightarrow> zu_flush \<Rightarrow> 's whole_state \<Rightarrow> bool" where
  "whole_kept base r st fl x \<longleftrightarrow>
     (case x of (h, b, fed, calls, ob, live) \<Rightarrow>
        hinv h \<and> feed_at r b fed \<and> sink_ok base ob live \<and>
        (\<exists>left. tr h (take (taken b fed) (ro_src r)) (sink_bytes ob) st fl left \<and>
           (fl = ZU_FINISH \<longrightarrow> ro_n r \<le> fed \<and> left = src_size b - src_pos b) \<and> usual_flush r fl))"

text \<open>One turn either fails to reserve memory or makes one call.\<close>

lemma whole_turn:
  assumes ok: "whole_opts_ok r" and k: "whole_kept base r st0 fl0 (h, b, fed, calls, ob, live)" and p: "is_progress st0"
  obtains (memory) x' where "whole_step re intr r (h, b, fed, calls, ob, live) = Some (Ret (Whole_returned ZU_ERR_MEMORY, x'))"
      "whole_kept base r st0 fl0 x'" "\<not> roomy re (ob_used ob + ro_out_chunk r)" "state_used x' = ob_used ob"
    | (call) st h' b1 b2 fed1 ob1 ob2 live1 where
      "whole_step re intr r (h, b, fed, calls, ob, live) =
        Some (whole_after intr r st (h', b2, fed1, u64_add calls 1, ob2, live1))"
      "whole_kept base r st (whole_flush r fed1 calls) (h', b2, fed1, u64_add calls 1, ob2, live1)"
      "ro_n r \<le> ro_in_chunk r \<Longrightarrow> whole_flush r fed1 calls = ZU_FINISH"
      "whole_refill r b fed = (b1, fed1)" "handle_process h (whole_window r ob1 b1) (whole_flush r fed1 calls) = Some (st, h', b2)"
      "buf_wf (whole_window r ob1 b1)" "buf_adv (whole_window r ob1 b1) b2" "ob_used ob2 = ob_used ob + dst_pos b2"
      "taken b2 fed1 = taken b fed + (src_pos b2 - src_pos b1)"
proof -
  obtain left0 where kk: "hinv h" "feed_at r b fed" "sink_ok base ob live"
    "tr h (take (taken b fed) (ro_src r)) (sink_bytes ob) st0 fl0 left0"
    and fin: "fl0 = ZU_FINISH \<longrightarrow> ro_n r \<le> fed \<and> left0 = src_size b - src_pos b" and us: "usual_flush r fl0"
    using k by (auto simp: whole_kept_def)
  obtain b1 fed1 where rf: "whole_refill r b fed = (b1, fed1)" by fastforce
  note f1 = refill_ok [OF kk(2) rf ok]
  obtain s ob1 live1 where rs: "zu_int_reserve re ob live (ro_out_chunk r) = (s, ob1, live1)" by (metis prod_cases3)
  note o1 = reserve_ok [OF rs kk(3)]
  have fin1: "fl0 = ZU_FINISH \<longrightarrow> ro_n r \<le> fed1 \<and> left0 = src_size b1 - src_pos b1" using fin f1(3,6) by auto
  show thesis
  proof (cases "s = ZU_OK")
    case False
    then have s: "s = ZU_ERR_MEMORY" "\<not> roomy re (ob_used ob + ro_out_chunk r)" using o1(5) by simp_all
    have "whole_kept base r st0 fl0 (h, b1, fed1, calls, ob1, live1)"
      using kk f1 o1 fin1 us by (auto simp: whole_kept_def)
    then show thesis using rf rs s o1(2)
      by (intro memory [of "(h, b1, fed1, calls, ob1, live1)"]) (simp_all add: whole_step_def)
  next
    case True
    note wf = window_wf [OF f1(1) ok o1(1) o1(4) [OF True]]
    have ai: "avail_in (whole_window r ob1 b1) = src_size b1 - src_pos b1" using avail_in_wf [OF wf] by simp
    have fl: "fl0 = ZU_FINISH \<longrightarrow> whole_flush r fed1 calls = ZU_FINISH \<and> avail_in (whole_window r ob1 b1) = left0"
      using fin1 ai by (auto simp: whole_flush_def)
    obtain st h' b2 where q: "handle_process h (whole_window r ob1 b1) (whole_flush r fed1 calls) = Some (st, h', b2)"
      "hinv h'" "buf_adv (whole_window r ob1 b1) b2"
      "tr h' (take (taken b fed) (ro_src r) @ consumed (whole_window r ob1 b1) b2)
         (sink_bytes ob @ emitted (whole_window r ob1 b1) b2) st (whole_flush r fed1 calls) (avail_in b2)"
      using call_ok [OF kk(1,4) p fl wf] by blast
    note d = deliver_ok [OF o1(1) o1(4) [OF True] q(3)] and m = feed_moved [OF f1(1) q(3) ok]
    have "whole_step re intr r (h, b, fed, calls, ob, live) =
        Some (whole_after intr r st (h', b2, fed1, u64_add calls 1, whole_deliver ob1 b2, live1))"
      using rf rs True q(1) by (simp add: whole_step_def)
    moreover have "avail_in b2 = src_size b2 - src_pos b2" using avail_in_wf [OF buf_adv_wf [OF wf q(3)]] .
    then have "whole_kept base r st (whole_flush r fed1 calls) (h', b2, fed1, u64_add calls 1, whole_deliver ob1 b2, live1)"
      using q(2,4) m(1,4) d(1,2) f1(2) o1(3) by (auto simp: whole_kept_def whole_flush_def split: if_splits)
    moreover have "ob_used (whole_deliver ob1 b2) = ob_used ob + dst_pos b2" using d(3) o1(2) by simp
    moreover have "taken b2 fed1 = taken b fed + (src_pos b2 - src_pos b1)" using m(5) f1(2) by simp
    moreover have "whole_flush r fed1 calls = ZU_FINISH" if "ro_n r \<le> ro_in_chunk r" using f1(5) that by (simp add: whole_flush_def)
    ultimately show thesis using rf q(1,3) wf by (intro call)
  qed
qed

definition whole_post ::
  "sink_realloc \<Rightarrow> (nat \<Rightarrow> bool) \<Rightarrow> int \<Rightarrow> zu_int_run_opts \<Rightarrow> whole_end \<times> 's whole_state \<Rightarrow> bool" where
  "whole_post re intr base r q \<longleftrightarrow>
     (case q of (e, x) \<Rightarrow>
        \<exists>st0 fl. whole_kept base r st0 fl x \<and>
          (e = Whole_returned ZU_STREAM_END \<longrightarrow> st0 = ZU_STREAM_END \<and> (ro_n r \<le> ro_in_chunk r \<longrightarrow> fl = ZU_FINISH)) \<and>
          (\<forall>st. e = Whole_returned st \<longrightarrow> is_progress st \<longrightarrow> st = ZU_STREAM_END) \<and>
          whole_cause re intr r e st0 fl (state_used x))"

lemma whole_after_post:
  assumes "whole_kept base r st fl x" "ro_n r \<le> ro_in_chunk r \<longrightarrow> fl = ZU_FINISH" "whole_after intr r st x = Ret q"
    and "fl = whole_flush r (whole_fed x) n"
  shows "whole_post re intr base r q"
proof -
  obtain h b fed calls ob live where x: "x = (h, b, fed, calls, ob, live)" by (cases x)
  have last: "fl = ZU_FINISH" if "ro_n r \<le> fed" using assms(4) that by (simp add: x whole_flush_def)
  have q: "q = (fst q, x)" "fst q = Whole_returned ZU_STREAM_END \<longrightarrow> st = ZU_STREAM_END"
    "\<forall>st. fst q = Whole_returned st \<longrightarrow> is_progress st \<longrightarrow> st = ZU_STREAM_END"
    using assms(3) by (cases st; auto simp: x whole_after_def split: if_splits)+
  have c: "whole_cause re intr r (fst q) st fl (state_used x)"
    using assms(3) last by (cases st) (auto simp: x whole_after_def whole_cause_def split: if_splits)
  show ?thesis unfolding whole_post_def
    by (subst q(1)) (use assms(1,2) q(2,3) c in \<open>auto intro!: exI [where x = st] exI [where x = fl]\<close>)
qed

lemma whole_after_next:
  assumes "whole_after intr r st (h, b, fed, calls, ob, live) = Next y"
  shows "y = (h, b, fed, calls, ob, live)" "is_progress st" "st \<noteq> ZU_STREAM_END"
    "\<not> (dst_pos b = 0 \<and> fed \<ge> ro_n r \<and> st = ZU_NEED_INPUT)"
  using assms by (cases st; simp add: whole_after_def split: if_splits)+

text \<open>Wherever the loop returns, it has kept all of it.\<close>

lemma whole_loop_post:
  fixes x :: "'s whole_state"
  assumes ok: "whole_opts_ok r" and k: "whole_kept base r ZU_OK ZU_RUN x" and run: "run_loop (whole_step re intr r) x = Some q"
  shows "whole_post re intr base r q"
  using run
proof (rule run_loop_inv [where I = "\<lambda>x. \<exists>st fl. whole_kept base r st fl x \<and> is_progress st"])
  show "\<exists>st fl. whole_kept base r st fl x \<and> is_progress st"
    using k by (intro exI [where x = ZU_OK] exI [where x = ZU_RUN]) simp
next
  fix x y :: "'s whole_state"
  assume "\<exists>st fl. whole_kept base r st fl x \<and> is_progress st" and e: "whole_step re intr r x = Some (Next y)"
  then obtain st0 fl0 h b fed calls ob live where x: "x = (h, b, fed, calls, ob, live)"
    and k: "whole_kept base r st0 fl0 (h, b, fed, calls, ob, live)" and p: "is_progress st0"
    by (cases x) auto
  show "\<exists>st fl. whole_kept base r st fl y \<and> is_progress st"
  proof (rule whole_turn [OF ok k p, of re intr])
    fix x' assume "whole_step re intr r (h, b, fed, calls, ob, live) = Some (Ret (Whole_returned ZU_ERR_MEMORY, x'))"
    with e x show ?thesis by simp
  next
    fix st h' b2 fed1 ob2 live1
    assume s: "whole_step re intr r (h, b, fed, calls, ob, live) =
        Some (whole_after intr r st (h', b2, fed1, u64_add calls 1, ob2, live1))"
      and k': "whole_kept base r st (whole_flush r fed1 calls) (h', b2, fed1, u64_add calls 1, ob2, live1)"
    from s e x have "whole_after intr r st (h', b2, fed1, u64_add calls 1, ob2, live1) = Next y" by simp
    from whole_after_next [OF this] k' show ?thesis by blast
  qed
next
  fix x :: "'s whole_state" and q
  assume "\<exists>st fl. whole_kept base r st fl x \<and> is_progress st" and e: "whole_step re intr r x = Some (Ret q)"
  then obtain st0 fl0 h b fed calls ob live where x: "x = (h, b, fed, calls, ob, live)"
    and k: "whole_kept base r st0 fl0 (h, b, fed, calls, ob, live)" and p: "is_progress st0"
    by (cases x) auto
  show "whole_post re intr base r q"
  proof (rule whole_turn [OF ok k p, of re intr])
    fix x' assume "whole_step re intr r (h, b, fed, calls, ob, live) = Some (Ret (Whole_returned ZU_ERR_MEMORY, x'))"
      and k': "whole_kept base r st0 fl0 x'" and full: "\<not> roomy re (ob_used ob + ro_out_chunk r)" "state_used x' = ob_used ob"
    then have q: "q = (Whole_returned ZU_ERR_MEMORY, x')" using e x by simp
    show ?thesis unfolding whole_post_def q prod.case
      using k' full by (intro exI [where x = st0] exI [where x = fl0]) (simp add: whole_cause_def)
  next
    fix st h' b2 fed1 ob2 live1
    assume s: "whole_step re intr r (h, b, fed, calls, ob, live) =
        Some (whole_after intr r st (h', b2, fed1, u64_add calls 1, ob2, live1))"
      and k': "whole_kept base r st (whole_flush r fed1 calls) (h', b2, fed1, u64_add calls 1, ob2, live1)"
      and f': "ro_n r \<le> ro_in_chunk r \<Longrightarrow> whole_flush r fed1 calls = ZU_FINISH"
    from s e x have "whole_after intr r st (h', b2, fed1, u64_add calls 1, ob2, live1) = Ret q" by simp
    with f' show ?thesis by (intro whole_after_post [OF k', where n = calls]) simp_all
  qed
qed

text \<open>The whole call. \<open>sink_ok\<close> says that a longjmp at any point leaves the block to its finalizer.\<close>

definition whole_ended ::
  "sink_realloc \<Rightarrow> (nat \<Rightarrow> bool) \<Rightarrow> zu_int_run_opts \<Rightarrow> whole_end \<Rightarrow> 's handle \<Rightarrow> nat \<Rightarrow> byte list \<Rightarrow> bool" where
  "whole_ended re intr r e h n out \<longleftrightarrow> n \<le> ro_n r \<and> hinv h \<and> (\<exists>st fl left. tr h (take n (ro_src r)) out st fl left \<and>
     (fl = ZU_FINISH \<longrightarrow> ro_n r = n + left) \<and> usual_flush r fl \<and> whole_cause re intr r e st fl (length out) \<and>
     (e = Whole_returned ZU_STREAM_END \<longrightarrow> st = ZU_STREAM_END \<and> (ro_n r \<le> ro_in_chunk r \<longrightarrow> fl = ZU_FINISH)) \<and>
     (\<forall>st. e = Whole_returned st \<longrightarrow> is_progress st \<longrightarrow> st = ZU_STREAM_END))"

lemma whole_run:
  assumes ok: "whole_opts_ok r" and s: "sink_ok base ob live" "sink_bytes ob = []"
    and h: "handle_new mem reg (whole_opts r) = (ZU_OK, Some h)" "hinv h" "tr h [] [] ZU_OK ZU_RUN 0"
    and run: "zu_int_run_whole mem re intr reg r ob live = Some (e, frees, ob', live')"
  shows "sink_ok base ob' live' \<and> (\<exists>h' n. frees = handle_free h' \<and> whole_ended re intr r e h' n (sink_bytes ob') \<and>
    (\<forall>st. e = Whole_returned st \<longrightarrow> ob_consumed ob' = n))"
proof -
  let ?x = "(h, \<lparr>src = None, src_size = 0, src_pos = 0, dst = None, dst_size = 0, dst_pos = 0\<rparr>, 0, 0, ob, live)"
  have "ro_in_chunk r \<noteq> 0" "ro_out_chunk r \<noteq> 0" using ok by (simp_all add: whole_opts_ok_def)
  with run h(1) obtain e' h' b fed calls ob1 live1 where l: "run_loop (whole_step re intr r) ?x = Some (e', h', b, fed, calls, ob1, live1)"
    by (auto simp: zu_int_run_whole_def split: option.splits)
  have k: "whole_kept base r ZU_OK ZU_RUN ?x"
    using s h(2,3) by (auto simp: whole_kept_def feed_at_def taken_def src_mem_def)
  obtain st0 fl where p: "whole_kept base r st0 fl (h', b, fed, calls, ob1, live1)"
    "e' = Whole_returned ZU_STREAM_END \<longrightarrow> st0 = ZU_STREAM_END \<and> (ro_n r \<le> ro_in_chunk r \<longrightarrow> fl = ZU_FINISH)"
    "\<forall>st. e' = Whole_returned st \<longrightarrow> is_progress st \<longrightarrow> st = ZU_STREAM_END"
    "whole_cause re intr r e' st0 fl (ob_used ob1)"
    using whole_loop_post [OF ok k l] by (auto simp: whole_post_def)
  obtain left where kk: "hinv h'" "feed_at r b fed" "sink_ok base ob1 live1"
    "tr h' (take (taken b fed) (ro_src r)) (sink_bytes ob1) st0 fl left"
    and fin: "fl = ZU_FINISH \<longrightarrow> ro_n r \<le> fed \<and> left = src_size b - src_pos b" and us: "usual_flush r fl"
    using p(1) by (auto simp: whole_kept_def)
  have len: "length (sink_bytes ob1) = ob_used ob1" using kk(3) by (simp add: sink_bytes_def sink_ok_def)
  note t = taken_bounds [OF kk(2)]
  have "ro_n r = taken b fed + left" if "fl = ZU_FINISH"
  proof -
    have "src_size b \<le> fed" using kk(2) by (simp add: feed_at_def)
    then show ?thesis using fin that t(2) by (simp add: taken_def)
  qed
  then have ended: "whole_ended re intr r e' h' (taken b fed) (sink_bytes ob1)"
    unfolding whole_ended_def len using t(3) kk(1,4) p(2,3,4) us by blast
  show ?thesis
  proof (cases e')
    case Whole_interrupted
    have "e = Whole_interrupted" "frees = guard_finalizer h'" "ob' = ob1" "live' = live1"
      using run h(1) l Whole_interrupted ok by (auto simp: zu_int_run_whole_def whole_opts_ok_def)
    moreover have "guard_finalizer h' = handle_free h'"
      by (cases h') (simp_all add: guard_finalizer_def handle_free_def zu_int_encoder_finalizer_def
          zu_int_decoder_finalizer_def zu_encoder_free_def zu_decoder_free_def)
    ultimately show ?thesis using kk(3) ended Whole_interrupted by blast
  next
    case (Whole_returned st)
    have q: "e = Whole_returned st" "frees = handle_free h'" "ob' = ob1\<lparr>ob_consumed := taken b fed\<rparr>" "live' = live1"
      using run h(1) l Whole_returned ok t(4) by (auto simp: zu_int_run_whole_def whole_opts_ok_def)
    have "sink_ok base ob' live'" "sink_bytes ob' = sink_bytes ob1" "ob_consumed ob' = taken b fed"
      using kk(3) by (simp_all add: q sink_ok_def sink_bytes_def outbuf_mem_def)
    then show ?thesis using ended q(1,2) Whole_returned by auto
  qed
qed

end

text \<open>
  That the loop returns needs more of the codec: given room, a call that asks for more moved a
  cursor or has used up its input. The sink never holds more than a \<^verbatim>\<open>size_t\<close> counts, so not even a codec that
  yields output without end keeps the loop going.
\<close>

locale whole_prompt = whole_trace hinv tr
  for hinv :: "'s handle \<Rightarrow> bool" and tr :: "'s handle_trace" +
  assumes prompt: "hinv h \<Longrightarrow> tr h i out st0 fl0 left0 \<Longrightarrow> is_progress st0 \<Longrightarrow> buf_wf b \<Longrightarrow> 0 < avail_out b \<Longrightarrow>
      handle_process h b flush = Some (st, h', b') \<Longrightarrow> is_progress st \<Longrightarrow> st \<noteq> ZU_STREAM_END \<Longrightarrow>
      src_pos b < src_pos b' \<or> dst_pos b < dst_pos b' \<or> st = ZU_NEED_INPUT \<and> avail_in b' = 0"
begin

definition whole_weight :: "zu_int_run_opts \<Rightarrow> 's whole_state \<Rightarrow> nat" where
  "whole_weight r x =
     (case x of (h, b, fed, calls, ob, live) \<Rightarrow>
        (ro_n r - fed) + (ro_n r - taken b fed) + (SIZE_MAX - ob_used ob))"

lemma kept_used:
  assumes "whole_kept base r st fl (h, b, fed, calls, ob, live)"
  shows "ob_used ob \<le> SIZE_MAX" "taken b fed \<le> ro_n r" "fed \<le> ro_n r"
proof -
  obtain left where k: "feed_at r b fed" "sink_ok base ob live" "hinv h"
    "tr h (take (taken b fed) (ro_src r)) (sink_bytes ob) st fl left"
    using assms by (auto simp: whole_kept_def)
  from taken_bounds [OF k(1)] show "taken b fed \<le> ro_n r" "fed \<le> ro_n r" by simp_all
  show "ob_used ob \<le> SIZE_MAX" using k(2) by (simp add: sink_ok_def)
qed

lemma whole_returns:
  fixes x :: "'s whole_state"
  assumes ok: "whole_opts_ok r" and k: "whole_kept base r ZU_OK ZU_RUN x"
  shows "\<exists>q. run_loop (whole_step re intr r) x = Some q \<and> True"
proof (rule run_loop_measure [where I = "\<lambda>x. \<exists>st fl. whole_kept base r st fl x \<and> is_progress st" and m = "whole_weight r"])
  show "\<exists>st fl. whole_kept base r st fl x \<and> is_progress st"
    using k by (intro exI [where x = ZU_OK] exI [where x = ZU_RUN]) simp
next
  fix x :: "'s whole_state" assume "\<exists>st fl. whole_kept base r st fl x \<and> is_progress st"
  then obtain st0 fl0 h b fed calls ob live where x: "x = (h, b, fed, calls, ob, live)"
    and k: "whole_kept base r st0 fl0 (h, b, fed, calls, ob, live)" and p: "is_progress st0"
    by (cases x) auto
  show "(\<exists>q. whole_step re intr r x = Some (Ret q) \<and> True) \<or>
      (\<exists>y. whole_step re intr r x = Some (Next y) \<and> (\<exists>st fl. whole_kept base r st fl y \<and> is_progress st) \<and>
        whole_weight r y < whole_weight r x)"
  proof (rule whole_turn [OF ok k p, of re intr])
    fix x' assume "whole_step re intr r (h, b, fed, calls, ob, live) = Some (Ret (Whole_returned ZU_ERR_MEMORY, x'))"
    with x show ?thesis by blast
  next
    fix st and h' :: "'s handle" and b1 b2 :: zu_buffer and fed1 :: nat and ob1 ob2 :: zu_int_outbuf and live1 :: int
    let ?y = "(h', b2, fed1, u64_add calls 1, ob2, live1)"
    assume s: "whole_step re intr r (h, b, fed, calls, ob, live) = Some (whole_after intr r st ?y)"
      and k': "whole_kept base r st (whole_flush r fed1 calls) ?y" and rf: "whole_refill r b fed = (b1, fed1)"
      and pr: "handle_process h (whole_window r ob1 b1) (whole_flush r fed1 calls) = Some (st, h', b2)"
      and wf: "buf_wf (whole_window r ob1 b1)" and adv: "buf_adv (whole_window r ob1 b1) b2"
      and u: "ob_used ob2 = ob_used ob + dst_pos b2" and t: "taken b2 fed1 = taken b fed + (src_pos b2 - src_pos b1)"
    obtain left0 where kk: "hinv h" "feed_at r b fed" "tr h (take (taken b fed) (ro_src r)) (sink_bytes ob) st0 fl0 left0"
      using k by (auto simp: whole_kept_def)
    note f1 = refill_ok [OF kk(2) rf ok]
    show ?thesis
    proof (cases "whole_after intr r st ?y")
      case (Ret q)
      with s x have "whole_step re intr r x = Some (Ret q)" by simp
      then show ?thesis by blast
    next
      case (Next y)
      note n = whole_after_next [OF this]
      have room: "0 < avail_out (whole_window r ob1 b1)" using ok avail_out_wf [OF wf] by (simp add: whole_opts_ok_def)
      have bd: "ob_used ob2 \<le> SIZE_MAX" "taken b2 fed1 \<le> ro_n r" "fed1 \<le> ro_n r" by (rule kept_used [OF k'])+
      have mv: "src_pos b1 \<le> src_pos b2" "src_size b2 = src_size b1" using adv by (simp_all add: buf_adv_def)
      have ai: "avail_in b2 = src_size b2 - src_pos b2" using avail_in_wf [OF buf_adv_wf [OF wf adv]] .
      have "src_pos b1 < src_pos b2 \<or> 0 < dst_pos b2 \<or> fed < fed1"
      proof (rule ccontr)
        assume c: "\<not> (src_pos b1 < src_pos b2 \<or> 0 < dst_pos b2 \<or> fed < fed1)"
        with prompt [OF kk(1,3) p wf room pr n(2,3)] have d: "st = ZU_NEED_INPUT" "avail_in b2 = 0" by simp_all
        have "fed1 < ro_n r" using n(4) c d(1) by simp
        moreover have "fed1 = fed" using f1(3) c by simp
        ultimately have "\<not> (src_pos b = src_size b)" using f1(4) by auto
        then have "b1 = b" using rf by (simp add: whole_refill_def)
        moreover have "src_pos b \<le> src_size b" using kk(2) by (simp add: feed_at_def)
        ultimately show False using c mv d(2) ai \<open>\<not> (src_pos b = src_size b)\<close> by simp
      qed
      then have "whole_weight r ?y < whole_weight r x"
        using bd t u f1(3) mv(1) unfolding whole_weight_def x prod.case by linarith
      moreover have "whole_step re intr r x = Some (Next ?y)" using s x Next n(1) by simp
      ultimately show ?thesis using k' n(2) by blast
    qed
  qed
qed

lemma whole_run_returns:
  assumes ok: "whole_opts_ok r" and s: "sink_ok base ob live" "sink_bytes ob = []"
    and h: "handle_new mem reg (whole_opts r) = (ZU_OK, Some h)" "hinv h" "tr h [] [] ZU_OK ZU_RUN 0"
  shows "\<exists>q. zu_int_run_whole mem re intr reg r ob live = Some q"
proof -
  let ?x = "(h, \<lparr>src = None, src_size = 0, src_pos = 0, dst = None, dst_size = 0, dst_pos = 0\<rparr>, 0, 0, ob, live)"
  have "whole_kept base r ZU_OK ZU_RUN ?x"
    using s h(2,3) by (auto simp: whole_kept_def feed_at_def taken_def src_mem_def)
  from whole_returns [OF ok this, of re intr] obtain e h' b fed calls ob1 live1 where
    "run_loop (whole_step re intr r) ?x = Some (e, h', b, fed, calls, ob1, live1)" by auto
  then show ?thesis using h(1) by (cases e) (auto simp: zu_int_run_whole_def)
qed

end

subsection \<open>Decoder sessions\<close>

text \<open>The trace of a decoder as a session of the driver, with what the end of the stream guarantees.\<close>

definition ratio_kept :: "zu_decoder_opts \<Rightarrow> zu_status \<Rightarrow> byte list \<Rightarrow> byte list \<Rightarrow> bool" where
  "ratio_kept os st i out \<longleftrightarrow> (is_progress st \<longrightarrow> do_max_ratio os \<noteq> 0 \<longrightarrow> length i \<le> UINT64_MAX \<longrightarrow> length out \<le> UINT64_MAX \<longrightarrow>
     length out \<le> length i * do_max_ratio os)"

definition session_trace :: "alloc \<Rightarrow> 's zu_registry \<Rightarrow> zu_decoder_opts \<Rightarrow> 's handle_trace" where
  "session_trace mem reg os h i out st fl left \<longleftrightarrow>
     (\<exists>d. h = Dec d \<and> decoder_session mem reg d i out \<and> dec_opts d = os \<and>
        (dec_finished d \<and> is_progress st \<longrightarrow> st = ZU_STREAM_END) \<and> ratio_kept os st i out \<and>
        (st = ZU_STREAM_END \<longrightarrow>
           (has_flag (do_flags os) ZU_DEC_EXPECTED_SIZE \<longrightarrow> length out = do_expected_size os) \<and>
           (has_flag (do_flags os) ZU_DEC_REJECT_TRAILING \<longrightarrow> left = 0)))"

definition session_hinv :: "('s zu_codec_vtable \<Rightarrow> 's option \<Rightarrow> bool) \<Rightarrow> 's zu_registry \<Rightarrow> 's handle \<Rightarrow> bool" where
  "session_hinv I reg h \<longleftrightarrow> decoders_ok I reg"

lemma decoder_finished_process:
  assumes "dec_finished d" "buf_wf b" "zu_decoder_process d b flush = Some (st, d', b')"
  shows "d' = d" "b' = b" "is_progress st \<Longrightarrow> st = ZU_STREAM_END"
    "st = ZU_STREAM_END \<Longrightarrow> has_flag (do_flags (dec_opts d)) ZU_DEC_REJECT_TRAILING \<Longrightarrow> avail_in b = 0"
  using assms by (auto simp: zu_decoder_process_def buf_wf_check zu_int_check_flush_def avail_in_wf split: if_splits)

text \<open>A verdict that is no error is the codec's own status.\<close>

lemma verdict_passes:
  assumes "is_progress (decoder_verdict os tin tout b capped a p st)"
  shows "decoder_verdict os tin tout b capped a p st = st" "\<not> (capped \<and> st = ZU_NEED_OUTPUT \<and> p = a)"
proof -
  have "\<not> is_progress (case decoder_ceiling os of Some (_, x) \<Rightarrow> x | None \<Rightarrow> ZU_ERR_OUTPUT_LIMIT)"
    by (auto simp: decoder_ceiling_def Let_def split: if_splits)
  with assms show "decoder_verdict os tin tout b capped a p st = st" "\<not> (capped \<and> st = ZU_NEED_OUTPUT \<and> p = a)"
    unfolding decoder_verdict_def Let_def by (auto split: if_splits simp del: not_less)
qed

lemma session_call:
  assumes ok: "decoders_ok I reg" and tr: "session_trace mem reg os h i out st0 fl0 left0" and p: "is_progress st0" and wf: "buf_wf b"
  shows "\<exists>st h' b'. handle_process h b flush = Some (st, h', b') \<and> buf_adv b b' \<and>
    session_trace mem reg os h' (i @ consumed b b') (out @ emitted b b') st flush (avail_in b')"
proof -
  obtain d where d: "h = Dec d" "decoder_session mem reg d i out" "dec_opts d = os"
    and st0: "dec_finished d \<and> is_progress st0 \<longrightarrow> st0 = ZU_STREAM_END"
    and ra0: "ratio_kept os st0 i out" and ex0: "st0 = ZU_STREAM_END \<Longrightarrow> has_flag (do_flags os) ZU_DEC_EXPECTED_SIZE \<Longrightarrow> length out = do_expected_size os"
    using tr by (auto simp: session_trace_def)
  note inv = session_inv [OF ok d(2)]
  then have c: "decoder_codec (I (dec_vtable d)) (dec_vtable d)"
    and di: "decoder_inv (I (dec_vtable d)) (dec_vtable d) d" by blast+
  obtain st d' b' where q: "zu_decoder_process d b flush = Some (st, d', b')"
    "decoder_moved (I (dec_vtable d)) (dec_vtable d) d b d' b'"
    by (rule decoder_codec.process_moved [OF c di wf])
  note s = decoder_session.process [OF d(2) wf q(1)]
  have os: "dec_opts d' = os" and adv: "buf_adv b b'" using q(2) d(3) by (simp_all add: decoder_moved_def)
  have fin: "dec_finished d' \<and> is_progress st \<longrightarrow> st = ZU_STREAM_END"
  proof (cases "dec_finished d")
    case True
    with decoder_finished_process [OF True wf q(1)] show ?thesis by blast
  next
    case False
    show ?thesis
    proof (intro impI, elim conjE)
      assume f: "dec_finished d'" and g: "is_progress st"
      obtain capped a p x where "st = decoder_verdict (dec_opts d) (total_in d') (total_out d') b' capped a p x"
        "dec_finished d' = (x = ZU_STREAM_END)" by (rule process_verdict [OF q(1) g False])
      then have "st = decoder_verdict (dec_opts d) (total_in d') (total_out d') b' capped a p ZU_STREAM_END" using f by simp
      with g show "st = ZU_STREAM_END" using verdict_passes(1) by metis
    qed
  qed
  have ex: "length (out @ emitted b b') = do_expected_size os"
    if e: "st = ZU_STREAM_END" "has_flag (do_flags os) ZU_DEC_EXPECTED_SIZE"
  proof (cases "dec_finished d")
    case True
    with decoder_finished_process [OF True wf q(1)] st0 p ex0 e show ?thesis by simp
  next
    case False
    from session_stream_end_expected [OF ok d(2) wf False] e q(1) d(3) show ?thesis by simp
  qed
  have ra: "ratio_kept os st (i @ consumed b b') (out @ emitted b b')"
  proof (cases "dec_finished d")
    case True
    with decoder_finished_process [OF True wf q(1)] ra0 p show ?thesis by (simp add: ratio_kept_def)
  next
    case False
    show ?thesis unfolding ratio_kept_def
      using session_ratio [OF ok d(2) wf False _ q(1)] d(3) by blast
  qed
  have rj: "avail_in b' = 0" if e: "st = ZU_STREAM_END" "has_flag (do_flags os) ZU_DEC_REJECT_TRAILING"
  proof (cases "dec_finished d")
    case True
    with decoder_finished_process [OF True wf q(1)] e d(3) show ?thesis by simp
  next
    case False
    have g: "is_progress st" using e(1) by simp
    obtain capped a p x where "st = decoder_verdict (dec_opts d) (total_in d') (total_out d') b' capped a p x"
      by (rule process_verdict [OF q(1) g False])
    then have "src_size b' \<le> src_pos b'" using verdict_stream_end_trailing e d(3) by metis
    then show ?thesis using avail_in_wf [OF buf_adv_wf [OF wf adv]] by simp
  qed
  from q(1) d(1) s os adv fin ex rj ra show ?thesis by (auto simp: handle_process_def session_trace_def)
qed

interpretation whole_session: whole_trace "session_hinv I reg" "session_trace mem reg os" for I mem reg os
proof
  fix h i out st0 b flush fl0 left0
  assume "session_hinv I reg h" "session_trace mem reg os h i out st0 fl0 left0" "is_progress st0" "buf_wf b"
  then show "\<exists>st h' b'. handle_process h b flush = Some (st, h', b') \<and> session_hinv I reg h' \<and> buf_adv b b' \<and>
      session_trace mem reg os h' (i @ consumed b b') (out @ emitted b b') st flush (avail_in b')"
    using session_call unfolding session_hinv_def by metis
qed

text \<open>The options of the handle that the loop creates.\<close>

lemma whole_dec_opts:
  assumes "\<not> ro_encode r" "ro_codec r < 2 ^ 32" "ro_max_output r \<le> UINT64_MAX" "ro_max_ratio r < 2 ^ 32"
    "ro_expected_size r \<le> UINT64_MAX"
  shows "\<exists>os. whole_opts r = DecOpts os \<and> copy_decoder_opts os = os \<and> do_max_output os = ro_max_output r \<and>
    do_max_ratio os = ro_max_ratio r \<and> do_flags os = ro_dec_flags r \<and> do_expected_size os = ro_expected_size r"
proof -
  define os where "os = \<lparr>do_struct_size = sizeof_zu_decoder_opts, do_codec = ro_codec r, do_max_output = ro_max_output r,
      do_max_ratio = ro_max_ratio r, do_flags = ro_dec_flags r, do_expected_size = ro_expected_size r\<rparr>"
  have "copy_decoder_opts os = os"
    using assms by (subst copy_decoder_opts_eq) (simp_all add: os_def sizeof_zu_decoder_opts_def UINT64_MAX_def)
  then show ?thesis using assms(1) by (intro exI [where x = os]) (simp add: whole_opts_def os_def)
qed

lemma session_trace_new:
  assumes "handle_new mem reg (DecOpts os) = (st, Some h)" "copy_decoder_opts os = os"
  shows "session_trace mem reg os h [] [] ZU_OK ZU_RUN 0"
proof -
  have "st = ZU_OK" using assms(1) by (rule handle_new_status)
  with assms(1) obtain d where d: "h = Dec d" "zu_decoder_new mem reg os = (ZU_OK, Some d)"
    by (cases "zu_decoder_new mem reg os") (auto simp: handle_new_def)
  from decoder_session.new [OF d(2)] new_fields [OF d(2)] assms(2) d(1) show ?thesis
    by (simp add: session_trace_def ratio_kept_def)
qed

subsection \<open>Codecs that never stall\<close>

locale prompt_decoder = decoder_codec inv v for inv :: "'s option \<Rightarrow> bool" and v :: "'s zu_codec_vtable" +
  assumes codec_prompt: "inv s \<Longrightarrow> buf_wf b \<Longrightarrow> the (v_decoder_process v) s b flush = Some (st, s', b') \<Longrightarrow> prompt_call st b b'"
begin

text \<open>Nor does the driver around it, which turns a codec that waits for room it will never get into
  the limit's status.\<close>

lemma driver_prompt:
  assumes i: "decoder_inv inv v d" and wf: "buf_wf b" and room: "0 < avail_out b"
    and call: "zu_decoder_process d b flush = Some (st, d', b')" and p: "is_progress st" "st \<noteq> ZU_STREAM_END"
  shows "src_pos b < src_pos b' \<or> dst_pos b < dst_pos b' \<or> st = ZU_NEED_INPUT \<and> avail_in b' = 0"
proof -
  have act: "decoder_active d flush"
  proof (rule ccontr)
    assume "\<not> decoder_active d flush"
    with call p wf show False
      by (auto simp: decoder_active_def zu_decoder_process_def buf_wf_check zu_int_check_flush_def split: if_splits)
  qed
  obtain capped a where w: "decoder_window d b = (capped, a)" by fastforce
  note W = decoder_window_bounds [OF wf w]
  define b0 where "b0 = (if capped then b\<lparr>dst_size := dst_pos b + a\<rparr> else b)"
  have wf0: "buf_wf b0" using shrink_wf [OF wf W(1)] wf by (simp add: b0_def)
  have vt: "dec_vtable d = v" "inv (dec_state d)" using i by (simp_all add: decoder_inv_def)
  obtain x s' b1 where c: "the (v_decoder_process v) (dec_state d) b0 flush = Some (x, s', b1)" "buf_adv b0 b1"
    using process_ok [OF vt(2) wf0, of flush] by blast
  note pr = codec_prompt [OF vt(2) wf0 c(1), unfolded prompt_call_def]
  define b2 where "b2 = (if capped then b1\<lparr>dst_size := dst_size b\<rparr> else b1)"
  have b': "b' = b2" and sv: "st = decoder_verdict (dec_opts d) (total_in d') (total_out d') b2 capped a (u64_sub (dst_pos b1) (dst_pos b)) x"
    using decoder_process_call [OF wf act w, of x s' b1] c(1) vt(1) call by (simp_all add: b0_def b2_def)
  have same: "src_pos b0 = src_pos b" "dst_pos b0 = dst_pos b" "src_pos b2 = src_pos b1" "dst_pos b2 = dst_pos b1"
    "avail_in b2 = avail_in b1" by (simp_all add: b0_def b2_def avail_in_def)
  have "is_progress (decoder_verdict (dec_opts d) (total_in d') (total_out d') b2 capped a (u64_sub (dst_pos b1) (dst_pos b)) x)"
    using p(1) sv by simp
  note vp = verdict_passes [OF this]
  have sx: "st = x" using vp(1) sv by simp
  have wf1: "buf_wf b1" by (rule buf_adv_wf [OF wf0 c(2)])
  show ?thesis
  proof (cases "x = ZU_NEED_OUTPUT")
    case False
    with pr sx p have "x = ZU_NEED_INPUT" by (cases x) simp_all
    with pr sx b' same show ?thesis by auto
  next
    case True
    show ?thesis
    proof (cases "capped \<and> a = 0")
      case False
      have "0 < avail_out b0"
      proof (cases capped)
        case True
        with False have "0 < a" by simp
        with True wf0 show ?thesis by (simp add: avail_out_wf) (simp add: b0_def)
      next
        case no: False
        with room show ?thesis by (simp add: b0_def)
      qed
      with pr True b' same show ?thesis by auto
    next
      case cap: True
      have "dst_pos b1 = dst_pos b" using c(2) cap by (simp add: buf_adv_def b0_def)
      with vp(2) True cap show ?thesis by simp
    qed
  qed
qed

end


locale prompt_encoder = encoder_codec inv v for inv :: "'s option \<Rightarrow> bool" and v :: "'s zu_codec_vtable" +
  assumes codec_prompt: "inv s \<Longrightarrow> buf_wf b \<Longrightarrow> the (v_encoder_process v) s b flush = Some (st, s', b') \<Longrightarrow> prompt_call st b b'"
begin

lemma driver_prompt:
  assumes i: "encoder_inv inv v e" and wf: "buf_wf b" and room: "0 < avail_out b"
    and call: "zu_encoder_process e b flush = Some (st, e', b')" and p: "is_progress st" "st \<noteq> ZU_STREAM_END"
  shows "src_pos b < src_pos b' \<or> dst_pos b < dst_pos b' \<or> st = ZU_NEED_INPUT \<and> avail_in b' = 0"
proof -
  have vt: "e_vtable e = v" "inv (e_state e)" using i by (simp_all add: encoder_inv_def)
  obtain s' where "the (v_encoder_process v) (e_state e) b flush = Some (st, s', b')"
    using call p wf vt(1)
    by (auto simp: zu_encoder_process_def buf_wf_check zu_int_check_flush_def split: if_splits option.splits)
  from codec_prompt [OF vt(2) wf this] p room show ?thesis by (cases st) (auto simp: prompt_call_def)
qed

end

context bytewise
begin

lemma proc_prompt:
  assumes wf: "buf_wf b" and c: "proc s b flush = Some (st, s', b')"
  shows "prompt_call st b b'"
proof -
  note m = proc_moves [OF wf c]
  have "length (consumed b b') = min (avail_in b) (avail_out b)" using m(4) in_window_length [OF wf] by simp
  then have n: "src_pos b' - src_pos b = min (avail_in b) (avail_out b)"
    "dst_pos b' - dst_pos b = min (avail_in b) (avail_out b)"
    using consumed_length [OF wf m(1)] emitted_length [OF wf m(1)] m(2) by simp_all
  have "avail_in b' = avail_in b - (src_pos b' - src_pos b)"
    using m(1) avail_in_wf [OF wf] avail_in_wf [OF buf_adv_wf [OF wf m(1)]] by (simp add: buf_adv_def)
  with n m(5) show "prompt_call st b b'"
    by (auto simp: prompt_call_def bytewise_status_def split: if_splits)
qed

lemma prompt_coder:
  "v_decoder_process v = Some proc \<Longrightarrow> prompt_decoder (\<lambda>_. True) v"
  "v_encoder_process v = Some proc \<Longrightarrow> prompt_encoder (\<lambda>_. True) v"
  by (simp_all add: prompt_decoder_def prompt_decoder_axioms_def decoder_contract prompt_encoder_def prompt_encoder_axioms_def
      encoder_contract proc_prompt)

end

interpretation identity_prompt: prompt_decoder "\<lambda>_. True" zu_int_codec_identity
  by (rule identity.prompt_coder) (simp add: zu_int_codec_identity_def)

interpretation xor5a_prompt: prompt_decoder "\<lambda>_. True" xor5a_vtable
  by (rule xor5a.prompt_coder) (simp add: xor5a_vtable_def)

interpretation identity_enc_prompt: prompt_encoder "\<lambda>_. True" zu_int_codec_identity
  by (rule identity.prompt_coder) (simp add: zu_int_codec_identity_def)

interpretation xor5a_enc_prompt: prompt_encoder "\<lambda>_. True" xor5a_vtable
  by (rule xor5a.prompt_coder) (simp add: xor5a_vtable_def)

text \<open>A registry of such codecs.\<close>

definition decoders_prompt :: "('s zu_codec_vtable \<Rightarrow> 's option \<Rightarrow> bool) \<Rightarrow> 's zu_registry \<Rightarrow> bool" where
  "decoders_prompt I r \<longleftrightarrow> (\<forall>v \<in> set (reg_table r). has_flag (v_flags v) ZU_CAN_DECODE \<longrightarrow> prompt_decoder (I v) v)"

definition encoders_prompt :: "('s zu_codec_vtable \<Rightarrow> 's option \<Rightarrow> bool) \<Rightarrow> 's zu_registry \<Rightarrow> bool" where
  "encoders_prompt J r \<longleftrightarrow> (\<forall>v \<in> set (reg_table r). has_flag (v_flags v) ZU_CAN_ENCODE \<longrightarrow> prompt_encoder (J v) v)"

lemma decoders_prompt_ok: "decoders_prompt I r \<Longrightarrow> decoders_ok I r"
  by (auto simp: decoders_prompt_def decoders_ok_def intro: prompt_decoder.axioms)

lemma encoders_prompt_ok: "encoders_prompt J r \<Longrightarrow> encoders_ok J r"
  by (auto simp: encoders_prompt_def encoders_ok_def intro: prompt_encoder.axioms)

text \<open>Of a handle on such a codec the loop needs no trace to return.\<close>

definition handle_prompt ::
  "('s zu_codec_vtable \<Rightarrow> 's option \<Rightarrow> bool) \<Rightarrow> ('s zu_codec_vtable \<Rightarrow> 's option \<Rightarrow> bool) \<Rightarrow> 's handle \<Rightarrow> bool" where
  "handle_prompt I J h \<longleftrightarrow> handle_inv I J h \<and>
     (case h of Enc e \<Rightarrow> prompt_encoder (J (e_vtable e)) (e_vtable e) | Dec d \<Rightarrow> prompt_decoder (I (dec_vtable d)) (dec_vtable d))"

lemma handle_new_prompt:
  assumes "decoders_prompt I r" "encoders_prompt J r" "handle_new mem r opts = (ZU_OK, Some h)"
  shows "handle_prompt I J h"
proof -
  have "handle_inv I J h"
    by (rule handle_new_inv [OF decoders_prompt_ok [OF assms(1)] encoders_prompt_ok [OF assms(2)] assms(3)])
  moreover have "case h of Enc e \<Rightarrow> prompt_encoder (J (e_vtable e)) (e_vtable e) | Dec d \<Rightarrow> prompt_decoder (I (dec_vtable d)) (dec_vtable d)"
  proof (cases opts)
    case (EncOpts os)
    with assms(3) obtain e where "zu_encoder_new mem r os = (ZU_OK, Some e)" "h = Enc e"
      by (cases "zu_encoder_new mem r os") (auto simp: handle_new_def)
    with encoder_new_registered assms(2) show ?thesis by (fastforce simp: encoders_prompt_def)
  next
    case (DecOpts os)
    with assms(3) obtain d where "zu_decoder_new mem r os = (ZU_OK, Some d)" "h = Dec d"
      by (cases "zu_decoder_new mem r os") (auto simp: handle_new_def)
    with decoder_new_registered assms(1) show ?thesis by (fastforce simp: decoders_prompt_def)
  qed
  ultimately show ?thesis by (simp add: handle_prompt_def)
qed

lemma handle_process_vtable:
  "handle_process (Enc e) b flush = Some (st, h', b') \<Longrightarrow> \<exists>e'. h' = Enc e' \<and> e_vtable e' = e_vtable e"
  "handle_process (Dec d) b flush = Some (st, h', b') \<Longrightarrow> \<exists>d'. h' = Dec d' \<and> dec_vtable d' = dec_vtable d"
  by (auto simp: handle_process_def zu_encoder_process_def zu_decoder_process_def Let_def
      simp del: not_less split: if_splits prod.splits option.splits)

interpretation whole_prompted: whole_prompt "handle_prompt I J" "\<lambda>h i out st fl left. True" for I J
proof
  fix h b flush assume h: "handle_prompt I J h" and wf: "buf_wf b"
  then have "handle_inv I J h" by (simp add: handle_prompt_def)
  from handle_process_ok [OF this wf] obtain st h' b' where
    p: "handle_process h b flush = Some (st, h', b')" "handle_inv I J h'" "buf_adv b b'" by blast
  moreover have "handle_prompt I J h'"
    using h p(1,2) by (cases h) (auto simp: handle_prompt_def dest!: handle_process_vtable)
  ultimately show "\<exists>st h' b'. handle_process h b flush = Some (st, h', b') \<and> handle_prompt I J h' \<and> buf_adv b b' \<and> True" by simp
next
  fix h b flush st h' b'
  assume h: "handle_prompt I J h" and wf: "buf_wf b" and room: "0 < avail_out b"
    and call: "handle_process h b flush = Some (st, h', b')" and p: "is_progress st" "st \<noteq> ZU_STREAM_END"
  show "src_pos b < src_pos b' \<or> dst_pos b < dst_pos b' \<or> st = ZU_NEED_INPUT \<and> avail_in b' = 0"
  proof (cases h)
    case (Enc e)
    with call obtain e' where "zu_encoder_process e b flush = Some (st, e', b')" by (auto simp: handle_process_def)
    moreover have "prompt_encoder (J (e_vtable e)) (e_vtable e)" "encoder_inv (J (e_vtable e)) (e_vtable e) e"
      using h Enc by (simp_all add: handle_prompt_def handle_inv_def)
    ultimately show ?thesis using prompt_encoder.driver_prompt [OF _ _ wf room _ p] by blast
  next
    case (Dec d)
    with call obtain d' where "zu_decoder_process d b flush = Some (st, d', b')" by (auto simp: handle_process_def)
    moreover have "prompt_decoder (I (dec_vtable d)) (dec_vtable d)" "decoder_inv (I (dec_vtable d)) (dec_vtable d) d"
      using h Dec by (simp_all add: handle_prompt_def handle_inv_def)
    ultimately show ?thesis using prompt_decoder.driver_prompt [OF _ _ wf room _ p] by blast
  qed
qed

lemma session_vtable:
  "decoder_session mem r d i out \<Longrightarrow> dec_vtable d \<in> set (reg_table r) \<and> has_flag (v_flags (dec_vtable d)) ZU_CAN_DECODE"
proof (induction rule: decoder_session.induct)
  case (new opts d)
  then show ?case by (rule decoder_new_registered)
next
  case (process d i out b flush st d' b')
  then have "dec_vtable d' = dec_vtable d"
    by (auto simp: zu_decoder_process_def Let_def simp del: not_less split: if_splits prod.splits option.splits)
  with process.IH show ?case by simp
next
  case (reset d i out opts d')
  then have "dec_vtable d' = dec_vtable d"
    by (auto simp: zu_decoder_reset_def Let_def split: if_splits prod.splits option.splits)
  with reset.IH show ?case by simp
next
  case (reset_failed d i out opts st d')
  then have "dec_vtable d' = dec_vtable d"
    by (auto simp: zu_decoder_reset_def Let_def split: if_splits prod.splits option.splits)
  with reset_failed.IH show ?case by simp
qed

definition capped_trace :: "alloc \<Rightarrow> 's zu_registry \<Rightarrow> zu_decoder_opts \<Rightarrow> 's handle_trace" where
  "capped_trace mem reg os h i out st fl left \<longleftrightarrow>
     session_trace mem reg os h i out st fl left \<and> decoder_ceiling os \<noteq> None"

definition capped_hinv :: "('s zu_codec_vtable \<Rightarrow> 's option \<Rightarrow> bool) \<Rightarrow> 's zu_registry \<Rightarrow> 's handle \<Rightarrow> bool" where
  "capped_hinv I reg h \<longleftrightarrow> decoders_prompt I reg"

interpretation whole_capped: whole_prompt "capped_hinv I reg" "capped_trace mem reg os" for I mem reg os
proof
  fix h i out st0 b flush fl0 left0
  assume a: "capped_hinv I reg h" "capped_trace mem reg os h i out st0 fl0 left0" "is_progress st0" "buf_wf b"
  then have "decoders_ok I reg" "session_trace mem reg os h i out st0 fl0 left0"
    by (simp_all add: capped_hinv_def decoders_prompt_ok capped_trace_def)
  from session_call [OF this a(3,4)] a(1,2)
  show "\<exists>st h' b'. handle_process h b flush = Some (st, h', b') \<and> capped_hinv I reg h' \<and> buf_adv b b' \<and>
      capped_trace mem reg os h' (i @ consumed b b') (out @ emitted b b') st flush (avail_in b')"
    by (simp add: capped_hinv_def capped_trace_def)
next
  fix h i out st0 b flush st h' b' fl0 left0
  assume a: "capped_hinv I reg h" "capped_trace mem reg os h i out st0 fl0 left0" and wf: "buf_wf b" and room: "0 < avail_out b"
    and call: "handle_process h b flush = Some (st, h', b')" and p: "is_progress st" "st \<noteq> ZU_STREAM_END"
  from a obtain d where d: "h = Dec d" "decoder_session mem reg d i out" by (auto simp: capped_trace_def session_trace_def)
  from session_vtable [OF d(2)] a(1) have c: "prompt_decoder (I (dec_vtable d)) (dec_vtable d)"
    by (simp add: capped_hinv_def decoders_prompt_def)
  have di: "decoder_inv (I (dec_vtable d)) (dec_vtable d) d"
    using session_inv [OF decoders_prompt_ok d(2)] a(1) by (simp add: capped_hinv_def)
  from call d(1) obtain d' where "zu_decoder_process d b flush = Some (st, d', b')" by (auto simp: handle_process_def)
  from prompt_decoder.driver_prompt [OF c di wf room this p]
  show "src_pos b < src_pos b' \<or> dst_pos b < dst_pos b' \<or> st = ZU_NEED_INPUT \<and> avail_in b' = 0" .
qed

subsection \<open>Codec calls\<close>

text \<open>
  The trace of a handle as the calls of its codec, for codecs whose state survives a call. \<open>fin\<close> marks
  the states in which the codec has seen the end of its input: of an input of at most \<open>K\<close> bytes nothing is left then.
  For \<open>K = 0\<close> that says nothing.
\<close>

definition input_ended :: "nat \<Rightarrow> zu_flush \<Rightarrow> nat \<Rightarrow> nat \<Rightarrow> bool" where
  "input_ended K fl n left \<longleftrightarrow> K = 0 \<or> fl = ZU_FINISH \<and> (n + left \<le> K \<longrightarrow> left = 0)"

lemma input_ended_call:
  assumes "input_ended K fl0 n (avail_in b)" "fl0 = ZU_FINISH \<longrightarrow> fl = ZU_FINISH" "buf_wf b" "buf_adv b b'"
  shows "input_ended K fl (n + length (consumed b b')) (avail_in b')"
  using assms avail_in_wf [OF assms(3)] avail_in_wf [OF buf_adv_wf [OF assms(3,4)]] consumed_length [OF assms(3,4)]
  by (auto simp: input_ended_def buf_adv_def)

definition codec_trace :: "nat \<Rightarrow> 's zu_codec_vtable \<Rightarrow> ('s \<Rightarrow> bool) \<Rightarrow> 's process_fn \<Rightarrow> 's \<Rightarrow> 's handle_trace" where
  "codec_trace K v fin proc s0 h i out st fl left \<longleftrightarrow>
     (\<exists>s x over.
        (case h of
           Enc e \<Rightarrow> e_vtable e = v \<and> e_state e = Some s \<and> over = e_finished e \<and> proc = the (v_encoder_process v)
         | Dec d \<Rightarrow> dec_vtable d = v \<and> dec_state d = Some s \<and> over = dec_finished d \<and> proc = the (v_decoder_process v)) \<and>
        codec_run proc s0 i out s x \<and> (is_progress st \<longrightarrow> is_progress x) \<and>
        (st = ZU_STREAM_END \<or> over \<longrightarrow> x = ZU_STREAM_END) \<and>
        (is_progress st \<longrightarrow> fin s \<or> x = ZU_STREAM_END \<longrightarrow> input_ended K fl (length i) left))"

text \<open>A process function that sees the end of an input of at most \<open>K\<close> bytes only in \<^const>\<open>ZU_FINISH\<close> calls that take it
  all.\<close>

definition finishes :: "nat \<Rightarrow> ('s option \<Rightarrow> bool) \<Rightarrow> ('s \<Rightarrow> bool) \<Rightarrow> 's process_fn \<Rightarrow> bool" where
  "finishes K I fin proc \<longleftrightarrow>
     (\<forall>s b flush st so b'. I (Some s) \<longrightarrow> buf_wf b \<longrightarrow> proc (Some s) b flush = Some (st, so, b') \<longrightarrow>
        (\<exists>s'. so = Some s' \<and>
           (st = ZU_STREAM_END \<or> fin s' \<longrightarrow> fin s \<or> input_ended K flush (length (consumed b b')) (avail_in b'))))"

lemma finishesI:
  assumes "\<And>s b flush st so b'. I (Some s) \<Longrightarrow> buf_wf b \<Longrightarrow> proc (Some s) b flush = Some (st, so, b') \<Longrightarrow>
    \<exists>s'. so = Some s' \<and> (st = ZU_STREAM_END \<longrightarrow> fin s') \<and>
      (fin s' \<longrightarrow> fin s \<or> input_ended K flush (length (consumed b b')) (avail_in b'))"
  shows "finishes K I fin proc"
  using assms unfolding finishes_def by blast

lemma finishes_0I:
  assumes "\<And>s b flush st so b'. I (Some s) \<Longrightarrow> buf_wf b \<Longrightarrow> proc (Some s) b flush = Some (st, so, b') \<Longrightarrow> \<exists>s'. so = Some s'"
  shows "finishes 0 I fin proc"
  using assms unfolding finishes_def input_ended_def by blast

lemma finishesD:
  assumes "finishes K I fin proc" "I (Some s)" "buf_wf b" "proc (Some s) b flush = Some (st, so, b')"
  shows "\<exists>s'. so = Some s' \<and>
    (st = ZU_STREAM_END \<or> fin s' \<longrightarrow> fin s \<or> input_ended K flush (length (consumed b b')) (avail_in b'))"
  using assms unfolding finishes_def by blast

text \<open>So a call keeps the trace, whether the codec had seen the end before or sees it now.\<close>

lemma finishes_call:
  assumes k: "finishes K I fin proc" "I (Some s)" "buf_wf b0" and c: "proc (Some s) b0 flush = Some (st, so, b1)"
    and io: "consumed b0 b1 = consumed b b'" "avail_in b1 = avail_in b'" and adv: "buf_wf b" "buf_adv b b'"
    and fin: "fin s \<longrightarrow> input_ended K fl0 (length i) (avail_in b)" "fl0 = ZU_FINISH \<longrightarrow> flush = ZU_FINISH"
  shows "\<exists>s'. so = Some s' \<and> (st = ZU_STREAM_END \<or> fin s' \<longrightarrow> input_ended K flush (length (i @ consumed b b')) (avail_in b'))"
proof -
  from finishesD [OF k c] obtain s' where s': "so = Some s'"
    "st = ZU_STREAM_END \<or> fin s' \<longrightarrow> fin s \<or> input_ended K flush (length (consumed b b')) (avail_in b')" unfolding io by blast
  have "input_ended K flush (length (i @ consumed b b')) (avail_in b')" if "st = ZU_STREAM_END \<or> fin s'"
  proof (cases "fin s")
    case True
    with input_ended_call [OF fin(1) [rule_format, OF True] fin(2) adv] show ?thesis by simp
  next
    case False
    with s'(2) that show ?thesis by (auto simp: input_ended_def)
  qed
  with s' show ?thesis by blast
qed

definition codec_hinv ::
  "nat \<Rightarrow> ('s zu_codec_vtable \<Rightarrow> 's option \<Rightarrow> bool) \<Rightarrow> ('s zu_codec_vtable \<Rightarrow> 's option \<Rightarrow> bool) \<Rightarrow> 's zu_codec_vtable \<Rightarrow>
    ('s \<Rightarrow> bool) \<Rightarrow> 's handle \<Rightarrow> bool" where
  "codec_hinv K I J v fin h \<longleftrightarrow> handle_inv I J h \<and>
     (case h of Enc e \<Rightarrow> finishes K (J v) fin (the (v_encoder_process v)) | Dec d \<Rightarrow> finishes K (I v) fin (the (v_decoder_process v)))"

lemma encoder_codec_call:
  assumes run: "codec_run (the (v_encoder_process v)) s0 i out s x" "is_progress x"
    and over: "e_finished e \<longrightarrow> x = ZU_STREAM_END"
    and fin: "fin s \<or> x = ZU_STREAM_END \<longrightarrow> input_ended K fl0 (length i) (avail_in b)" "fl0 = ZU_FINISH \<longrightarrow> flush = ZU_FINISH"
    and e: "e_vtable e = v" "e_state e = Some s" and k: "finishes K J fin (the (v_encoder_process v))" "J (Some s)"
    and wf: "buf_wf b" and adv: "buf_adv b b'" and call: "zu_encoder_process e b flush = Some (st, e', b')"
  shows "codec_trace K v fin (the (v_encoder_process v)) s0 (Enc e') (i @ consumed b b') (out @ emitted b b') st flush (avail_in b')"
proof (cases "e_finished e \<or> flush = ZU_FLUSH \<and> \<not> has_flag (v_flags v) ZU_CAN_FLUSH \<or> zu_int_check_flush flush \<noteq> ZU_OK")
  case True
  with call wf e(1) have "e' = e" "b' = b" "is_progress st \<longrightarrow> st = ZU_STREAM_END \<and> e_finished e"
    by (auto simp: zu_encoder_process_def buf_wf_check zu_int_check_flush_def split: if_splits)
  with run over fin e show ?thesis by (auto simp: codec_trace_def input_ended_def)
next
  case False
  obtain so where c: "the (v_encoder_process v) (Some s) b flush = Some (st, so, b')"
    and e': "e' = e\<lparr>e_state := so, e_finished := (st = ZU_STREAM_END \<or> e_finished e)\<rparr>"
    using call wf e False by (auto simp: zu_encoder_process_def buf_wf_check split: option.splits)
  have f: "fin s \<longrightarrow> input_ended K fl0 (length i) (avail_in b)" using fin(1) by blast
  obtain s' where s': "so = Some s'"
    "st = ZU_STREAM_END \<or> fin s' \<longrightarrow> input_ended K flush (length (i @ consumed b b')) (avail_in b')"
    using finishes_call [OF k wf c refl refl wf adv f fin(2)] by blast
  with codec_run.call [OF run wf c [unfolded s'(1)]] e' e False show ?thesis
    by (auto simp: codec_trace_def)
qed

lemma decoder_codec_call:
  assumes run: "codec_run (the (v_decoder_process v)) s0 i out s x" "is_progress x"
    and over: "dec_finished d \<longrightarrow> x = ZU_STREAM_END"
    and fin: "fin s \<or> x = ZU_STREAM_END \<longrightarrow> input_ended K fl0 (length i) (avail_in b)" "fl0 = ZU_FINISH \<longrightarrow> flush = ZU_FINISH"
    and d: "dec_vtable d = v" "dec_state d = Some s" and k: "finishes K I fin (the (v_decoder_process v))" "I (Some s)"
    and wf: "buf_wf b" and adv: "buf_adv b b'" and call: "zu_decoder_process d b flush = Some (st, d', b')"
  shows "codec_trace K v fin (the (v_decoder_process v)) s0 (Dec d') (i @ consumed b b') (out @ emitted b b') st flush (avail_in b')"
proof (cases "decoder_active d flush")
  case False
  with call wf have "d' = d" "b' = b" "is_progress st \<longrightarrow> st = ZU_STREAM_END \<and> dec_finished d"
    by (auto simp: decoder_active_def zu_decoder_process_def buf_wf_check zu_int_check_flush_def split: if_splits)
  with run over fin d show ?thesis by (auto simp: codec_trace_def input_ended_def)
next
  case True
  obtain capped a where w: "decoder_window d b = (capped, a)" by fastforce
  define b0 where "b0 = (if capped then b\<lparr>dst_size := dst_pos b + a\<rparr> else b)"
  have wf0: "buf_wf b0" using shrink_wf [OF wf decoder_window_bounds(1) [OF wf w]] wf by (simp add: b0_def)
  have nf: "\<not> dec_finished d" using True by (simp add: decoder_active_def)
  obtain y so b1 where c: "the (v_decoder_process v) (Some s) b0 flush = Some (y, so, b1)"
    using call True w wf d by (auto simp: zu_decoder_process_def decoder_active_def buf_wf_check b0_def split: option.splits)
  define b2 where "b2 = (if capped then b1\<lparr>dst_size := dst_size b\<rparr> else b1)"
  have q: "b' = b2" "d' = d\<lparr>dec_state := so, total_in := total_in d', total_out := total_out d',
      dec_finished := (y = ZU_STREAM_END \<or> dec_finished d)\<rparr>"
    "st = decoder_verdict (dec_opts d) (total_in d') (total_out d') b2 capped a (u64_sub (dst_pos b1) (dst_pos b)) y"
    using decoder_process_call [OF wf True w, of y so b1] c d call by (simp_all add: b0_def b2_def)
  have io: "consumed b0 b1 = consumed b b2" "emitted b0 b1 = emitted b b2" "avail_in b1 = avail_in b2"
    by (simp_all add: b0_def b2_def consumed_def emitted_def src_mem_def dst_mem_def avail_in_def)
  have f: "fin s \<longrightarrow> input_ended K fl0 (length i) (avail_in b)" using fin(1) by blast
  obtain s' where s': "so = Some s'"
    "y = ZU_STREAM_END \<or> fin s' \<longrightarrow> input_ended K flush (length (i @ consumed b b2)) (avail_in b2)"
    using finishes_call [OF k wf0 c io(1,3) wf adv [unfolded q(1)] f fin(2)] by blast
  have dd: "dec_vtable d' = v" "dec_state d' = Some s'" "dec_finished d' \<longleftrightarrow> y = ZU_STREAM_END"
    by (subst q(2); simp add: d s' nf)+
  have st: "is_progress st \<longrightarrow> st = y" using verdict_passes(1) q(3) by metis
  with codec_run.call [OF run wf0 c [unfolded s'(1)]] dd s'(2) show ?thesis
    unfolding q(1) io codec_trace_def by auto
qed

interpretation whole_codec: whole_trace "codec_hinv K I J v fin" "codec_trace K v fin proc s0" for K I J v fin proc s0
proof
  fix h i out st0 b flush fl0 left0
  assume a: "codec_hinv K I J v fin h" "codec_trace K v fin proc s0 h i out st0 fl0 left0" and p: "is_progress st0"
    and fl: "fl0 = ZU_FINISH \<longrightarrow> flush = ZU_FINISH \<and> avail_in b = left0" and wf: "buf_wf b"
  then have h: "handle_inv I J h" by (simp add: codec_hinv_def)
  obtain st h' b' where q: "handle_process h b flush = Some (st, h', b')" "handle_inv I J h'" "buf_adv b b'"
    using handle_process_ok [OF h wf] by blast
  have "codec_trace K v fin proc s0 h' (i @ consumed b b') (out @ emitted b b') st flush (avail_in b')"
  proof (cases h)
    case (Enc e)
    then obtain e' where e: "zu_encoder_process e b flush = Some (st, e', b')" "h' = Enc e'"
      using q(1) by (auto simp: handle_process_def)
    from a(2) Enc obtain s x where r: "codec_run (the (v_encoder_process v)) s0 i out s x" "is_progress x"
      "e_finished e \<longrightarrow> x = ZU_STREAM_END" "fin s \<or> x = ZU_STREAM_END \<longrightarrow> input_ended K fl0 (length i) left0"
      "e_vtable e = v" "e_state e = Some s" and pr: "proc = the (v_encoder_process v)"
      using p fl by (auto simp: codec_trace_def)
    have "J v (Some s)" using h Enc r(5,6) by (auto simp: handle_inv_def encoder_inv_def)
    moreover have k: "finishes K (J v) fin (the (v_encoder_process v))" using a(1) Enc by (simp add: codec_hinv_def)
    moreover have f: "fin s \<or> x = ZU_STREAM_END \<longrightarrow> input_ended K fl0 (length i) (avail_in b)" "fl0 = ZU_FINISH \<longrightarrow> flush = ZU_FINISH"
      using r(4) fl by (auto simp: input_ended_def)
    ultimately show ?thesis using encoder_codec_call [OF r(1-3) f r(5,6) k _ wf q(3) e(1)] e(2) pr by simp
  next
    case (Dec d)
    then obtain d' where e: "zu_decoder_process d b flush = Some (st, d', b')" "h' = Dec d'"
      using q(1) by (auto simp: handle_process_def)
    from a(2) Dec obtain s x where r: "codec_run (the (v_decoder_process v)) s0 i out s x" "is_progress x"
      "dec_finished d \<longrightarrow> x = ZU_STREAM_END" "fin s \<or> x = ZU_STREAM_END \<longrightarrow> input_ended K fl0 (length i) left0"
      "dec_vtable d = v" "dec_state d = Some s" and pr: "proc = the (v_decoder_process v)"
      using p fl by (auto simp: codec_trace_def)
    have "I v (Some s)" using h Dec r(5,6) by (auto simp: handle_inv_def decoder_inv_def)
    moreover have k: "finishes K (I v) fin (the (v_decoder_process v))" using a(1) Dec by (simp add: codec_hinv_def)
    moreover have f: "fin s \<or> x = ZU_STREAM_END \<longrightarrow> input_ended K fl0 (length i) (avail_in b)" "fl0 = ZU_FINISH \<longrightarrow> flush = ZU_FINISH"
      using r(4) fl by (auto simp: input_ended_def)
    ultimately show ?thesis using decoder_codec_call [OF r(1-3) f r(5,6) k _ wf q(3) e(1)] e(2) pr by simp
  qed
  moreover have "codec_hinv K I J v fin h'"
    using a(1) q(1,2) by (cases h; cases h') (auto simp: codec_hinv_def handle_process_def)
  ultimately show "\<exists>st h' b'. handle_process h b flush = Some (st, h', b') \<and> codec_hinv K I J v fin h' \<and> buf_adv b b' \<and>
      codec_trace K v fin proc s0 h' (i @ consumed b b') (out @ emitted b b') st flush (avail_in b')"
    using q(1,3) by blast
qed

text \<open>So a loop that ends with the end of the stream was a run of the codec over the input it took, and over all of it where
  the codec finishes.\<close>

lemma codec_whole_end:
  assumes ok: "whole_opts_ok r" and s: "sink_ok base ob live" "sink_bytes ob = []"
    and h: "handle_new mem reg (whole_opts r) = (ZU_OK, Some h)" "codec_hinv K I J v fin h" "codec_trace K v fin proc s0 h [] [] ZU_OK ZU_RUN 0"
    and run: "zu_int_run_whole mem re intr reg r ob live = Some (Whole_returned ZU_STREAM_END, frees, ob', live')"
  shows "\<exists>s n. codec_run proc s0 (take n (ro_src r)) (sink_bytes ob') s ZU_STREAM_END \<and>
    (K \<noteq> 0 \<and> ro_n r \<le> K \<longrightarrow> take n (ro_src r) = ro_src r)"
proof -
  from whole_codec.whole_run [OF ok s h run] obtain h' n where
    w: "whole_codec.whole_ended K I J v fin proc s0 re intr r (Whole_returned ZU_STREAM_END) h' n (sink_bytes ob')" by blast
  then obtain fl left where t: "codec_trace K v fin proc s0 h' (take n (ro_src r)) (sink_bytes ob') ZU_STREAM_END fl left"
    "fl = ZU_FINISH \<longrightarrow> ro_n r = n + left" and n: "n \<le> ro_n r"
    unfolding whole_codec.whole_ended_def by blast
  from t(1) obtain s where c: "codec_run proc s0 (take n (ro_src r)) (sink_bytes ob') s ZU_STREAM_END"
    "input_ended K fl (length (take n (ro_src r))) left"
    by (auto simp: codec_trace_def)
  have "take n (ro_src r) = ro_src r" if "K \<noteq> 0" "ro_n r \<le> K"
    using c(2) t(2) n ok that by (auto simp: input_ended_def whole_opts_ok_def)
  with c(1) show ?thesis by blast
qed

end
