(* ===== verification/Zu_R.thy ===== *)
theory Zu_R
  imports Zu_Whole Complex_Main
begin

text \<open>
  The entry points R calls: \<^verbatim>\<open>src/zukomp_r.c\<close>, with \<^verbatim>\<open>zu_int_result\<close> of \<^verbatim>\<open>src/zukomp_test.c\<close>, and
  the API table of \<^verbatim>\<open>src/zukomp_api.c\<close>. An R object is what the code asks R about it: whether it is
  \<^verbatim>\<open>NULL\<close>, its length, its strings if it is a character vector, its bytes, and the values of
  \<^verbatim>\<open>Rf_asInteger\<close>, \<^verbatim>\<open>Rf_asReal\<close> and \<^verbatim>\<open>Rf_asLogical\<close>. A \<^verbatim>\<open>double\<close> is a rational or one of the three
  special values. \<open>None\<close> in a result vector is \<^verbatim>\<open>NA\<close>.
\<close>

subsection \<open>R objects\<close>

datatype r_real = R_finite rat | R_NaN | R_Inf | R_NegInf

record sexp =
  x_null :: bool
  x_length :: nat
  x_strings :: "string option list option"
  x_raw :: "byte list"
  x_int :: int
  x_real :: r_real
  x_logical :: "bool option"

definition NA_INTEGER :: int where "NA_INTEGER = - (2 ^ 31)"

definition R_NilValue :: sexp where
  "R_NilValue = \<lparr>x_null = True, x_length = 0, x_strings = None, x_raw = [], x_int = NA_INTEGER, x_real = R_NaN, x_logical = None\<rparr>"

text \<open>\<^verbatim>\<open>CHAR(STRING_ELT(x, 0))\<close> of a character vector with an element; \<^verbatim>\<open>NA_STRING\<close> reads as \<^verbatim>\<open>NA\<close>.\<close>

definition r_char0 :: "sexp \<Rightarrow> string" where
  "r_char0 x = (case x_strings x of Some (Some s # _) \<Rightarrow> s | _ \<Rightarrow> ''NA'')"

subsection \<open>Narrowing\<close>

text \<open>The return code, 0 for success, and what is stored through \<^verbatim>\<open>out\<close>.\<close>

definition two53 :: rat where "two53 = 9007199254740992"

definition zu_int_level_from_sexp :: "sexp \<Rightarrow> int \<times> int" where
  "zu_int_level_from_sexp r_level =
     (if x_null r_level \<or> x_length r_level = 0 then (0, ZU_LEVEL_DEFAULT)
      else if x_int r_level = NA_INTEGER then (1, ZU_LEVEL_DEFAULT)
      else (0, x_int r_level))"

definition zu_int_u64_from_real :: "r_real \<Rightarrow> int \<times> nat" where
  "zu_int_u64_from_real v =
     (case v of
        R_finite q \<Rightarrow>
          if q < 0 \<or> q > two53 then (1, 0)
          else (let narrowed = nat \<lfloor>q\<rfloor> in if of_nat narrowed \<noteq> q then (1, 0) else (0, narrowed))
      | _ \<Rightarrow> (1, 0))"

definition zu_int_u32_from_int :: "int \<Rightarrow> int \<times> nat" where
  "zu_int_u32_from_int v = (if v = NA_INTEGER \<or> v < 0 then (1, 0) else (0, nat v))"

definition double_SIZE_MAX :: rat where "double_SIZE_MAX = 18446744073709551616"

definition zu_int_size_from_real :: "r_real \<Rightarrow> int \<times> nat" where
  "zu_int_size_from_real v =
     (case v of
        R_finite q \<Rightarrow>
          if q < 0 \<or> q > two53 then (1, 0)
          else if q > double_SIZE_MAX then (1, 0)
          else (0, nat \<lfloor>q\<rfloor>)
      | _ \<Rightarrow> (1, 0))"

text \<open>The narrowing functions are exact: they accept precisely the values that the C type can carry
  (up to the integers a double is exact on) and store that value.\<close>

lemma u64_from_real_iff:
  "zu_int_u64_from_real v = (0, n) \<longleftrightarrow> v = R_finite (of_nat n) \<and> n \<le> 2 ^ 53"
proof
  assume a: "zu_int_u64_from_real v = (0, n)"
  then obtain q where q: "v = R_finite q" "q \<le> two53" "of_nat n = q"
    by (cases v) (auto simp: zu_int_u64_from_real_def Let_def split: if_splits)
  then have "(of_nat n :: rat) \<le> of_nat (2 ^ 53)" by (simp add: two53_def)
  then have "n \<le> 2 ^ 53" by (rule of_nat_le_iff [THEN iffD1])
  with q show "v = R_finite (of_nat n) \<and> n \<le> 2 ^ 53" by simp
next
  assume a: "v = R_finite (of_nat n) \<and> n \<le> 2 ^ 53"
  then have "(of_nat n :: rat) \<le> of_nat (2 ^ 53)" by (intro of_nat_le_iff [THEN iffD2]) simp
  then have "(of_nat n :: rat) \<le> two53" by (simp add: two53_def)
  with a show "zu_int_u64_from_real v = (0, n)" by (simp add: zu_int_u64_from_real_def)
qed

lemma u64_from_real_cases: "zu_int_u64_from_real v = (1, 0) \<or> (\<exists>n. zu_int_u64_from_real v = (0, n) \<and> n \<le> 2 ^ 53)"
proof (cases "zu_int_u64_from_real v")
  case (Pair c n)
  then have "c = 0 \<or> c = 1 \<and> n = 0" by (auto simp: zu_int_u64_from_real_def Let_def split: r_real.splits if_splits)
  with Pair u64_from_real_iff [of v n] show ?thesis by auto
qed

lemma u32_from_int_iff:
  "zu_int_u32_from_int v = (0, n) \<longleftrightarrow> v = int n"
  by (auto simp: zu_int_u32_from_int_def NA_INTEGER_def)

lemma u32_from_int_cases: "zu_int_u32_from_int v = (1, 0) \<or> (\<exists>n. zu_int_u32_from_int v = (0, n) \<and> v = int n)"
  by (auto simp: zu_int_u32_from_int_def)

lemma size_from_real_bound:
  assumes "zu_int_size_from_real v = (0, n)"
  shows "n \<le> 2 ^ 53"
proof (cases v)
  case (R_finite q)
  with assms have q: "q \<le> two53" "n = nat \<lfloor>q\<rfloor>"
    by (simp_all add: zu_int_size_from_real_def split: if_splits)
  then have "\<lfloor>q\<rfloor> \<le> \<lfloor>two53\<rfloor>" by (intro floor_mono)
  moreover have "\<lfloor>two53\<rfloor> = 2 ^ 53" by (simp add: two53_def)
  ultimately show ?thesis unfolding q(2) by (simp only: nat_le_iff of_nat_power of_nat_numeral)
qed (use assms in \<open>simp_all add: zu_int_size_from_real_def\<close>)

subsection \<open>The registry as R sees it\<close>

definition zu_int_codec_from_sexp :: "'s zu_registry \<Rightarrow> sexp \<Rightarrow> zu_codec" where
  "zu_int_codec_from_sexp reg name =
     (case x_strings name of
        None \<Rightarrow> ZU_CODEC_NONE
      | Some ss \<Rightarrow>
          if x_length name \<noteq> 1 then ZU_CODEC_NONE
          else (case hd ss of None \<Rightarrow> ZU_CODEC_NONE | Some s \<Rightarrow> zu_codec_lookup reg (Some s)))"

definition zukomp_codec_available :: "'s zu_registry \<Rightarrow> sexp \<Rightarrow> bool option" where
  "zukomp_codec_available reg name =
     (let codec = zu_int_codec_from_sexp reg name
      in if codec = ZU_CODEC_NONE then None else Some (zu_codec_available reg codec))"

text \<open>A row of the codec table; \<open>None\<close> is \<^verbatim>\<open>NA\<close>, and an integer column holds \<^const>\<open>NA_INTEGER\<close>.\<close>

record codec_row =
  cr_id :: "string option"
  cr_available :: bool
  cr_can_encode :: "bool option"
  cr_can_decode :: "bool option"
  cr_level_min :: int
  cr_level_max :: int
  cr_level_default :: int
  cr_level_fast :: int
  cr_level_best :: int
  cr_detectable :: "bool option"
  cr_can_flush :: "bool option"
  cr_content_encoding :: "string option"
  cr_source :: "string option"

text \<open>The walk for the \<open>want\<close>-th registered codec that the declared table does not know.\<close>

fun undeclared_at :: "'s zu_codec_vtable list \<Rightarrow> nat \<Rightarrow> nat \<Rightarrow> 's zu_codec_vtable option" where
  "undeclared_at [] want seen = None"
| "undeclared_at (cand # vs) want seen =
     (if zu_int_declared_for (v_codec cand) \<noteq> None then undeclared_at vs want seen
      else if seen = want then Some cand
      else undeclared_at vs want (seen + 1))"

definition codec_table_entry ::
  "'s zu_registry \<Rightarrow> nat \<Rightarrow> zu_int_codec_decl option \<times> 's zu_codec_vtable option" where
  "codec_table_entry reg row =
     (if row < zu_int_declared_count
      then (let decl = zu_int_declared_at row in (decl, zu_int_registry_lookup reg (d_codec (the decl))))
      else (None, undeclared_at (reg_table reg) (row - zu_int_declared_count) 0))"

definition codec_table_row :: "zu_int_codec_decl option \<Rightarrow> 's zu_codec_vtable option \<Rightarrow> codec_row" where
  "codec_table_row decl vt =
     (case vt of
        None \<Rightarrow>
          \<lparr>cr_id = Some (d_name (the decl)), cr_available = False, cr_can_encode = None, cr_can_decode = None,
           cr_level_min = NA_INTEGER, cr_level_max = NA_INTEGER, cr_level_default = NA_INTEGER,
           cr_level_fast = NA_INTEGER, cr_level_best = NA_INTEGER, cr_detectable = None, cr_can_flush = None,
           cr_content_encoding = d_content_encoding (the decl), cr_source = None\<rparr>
      | Some v \<Rightarrow>
          (let has_levels = (\<not> (v_level_min v = 0 \<and> v_level_max v = 0 \<and> v_level_default v = 0))
           in \<lparr>cr_id = v_name v, cr_available = True,
               cr_can_encode = Some (has_flag (v_flags v) ZU_CAN_ENCODE),
               cr_can_decode = Some (has_flag (v_flags v) ZU_CAN_DECODE),
               cr_level_min = (if has_levels then v_level_min v else NA_INTEGER),
               cr_level_max = (if has_levels then v_level_max v else NA_INTEGER),
               cr_level_default = (if has_levels then v_level_default v else NA_INTEGER),
               cr_level_fast = (if has_levels then zu_int_vtable_level_fast v else NA_INTEGER),
               cr_level_best = (if has_levels then zu_int_vtable_level_best v else NA_INTEGER),
               cr_detectable = Some (v_magic v \<noteq> None \<or> v_sniff v \<noteq> None),
               cr_can_flush = Some (has_flag (v_flags v) ZU_CAN_FLUSH),
               cr_content_encoding = v_content_encoding v, cr_source = v_source v\<rparr>))"

definition zukomp_codec_table :: "'s zu_registry \<Rightarrow> codec_row list" where
  "zukomp_codec_table reg =
     (let n_extra = length (filter (\<lambda>v. zu_int_declared_for (v_codec v) = None) (reg_table reg))
      in map (\<lambda>row. case codec_table_entry reg row of (decl, v) \<Rightarrow> codec_table_row decl v)
           [0..<zu_int_declared_count + n_extra])"

definition sizeof_zu_codec_info :: nat where "sizeof_zu_codec_info = 64"

definition codec_info_zero :: zu_codec_info where
  "codec_info_zero =
     \<lparr>i_struct_size = 0, i_codec = 0, i_name = None, i_content_encoding = None, i_source = None, i_level_min = 0,
      i_level_max = 0, i_level_default = 0, i_flags = 0, i_detectable = False, i_level_fast = 0, i_level_best = 0\<rparr>"

definition zukomp_detect :: "'s zu_registry \<Rightarrow> byte list \<Rightarrow> string option" where
  "zukomp_detect reg bytes =
     (case zu_sniff reg (Some bytes) (length bytes) of
        (st, codec) \<Rightarrow>
          if st \<noteq> ZU_OK \<or> codec = None \<or> codec = Some ZU_CODEC_NONE then None
          else
            (case zu_codec_get_info reg (the codec) (Some (codec_info_zero\<lparr>i_struct_size := sizeof_zu_codec_info\<rparr>)) of
               (st, info) \<Rightarrow> if st \<noteq> ZU_OK \<or> i_name (the info) = None then None else i_name (the info)))"

subsection \<open>Whole buffers\<close>

text \<open>What the environment decides: heap memory, \<^verbatim>\<open>realloc\<close>, the user's interrupts, and whether R can
  allocate a vector of a given length.\<close>

record r_env =
  env_mem :: alloc
  env_realloc :: sink_realloc
  env_interrupt :: "nat \<Rightarrow> bool"
  env_vector :: "nat \<Rightarrow> bool"

definition zu_int_result :: "(nat \<Rightarrow> bool) \<Rightarrow> zu_status \<Rightarrow> byte list option \<Rightarrow> nat \<Rightarrow> (zu_status \<times> byte list) option" where
  "zu_int_result vec status bytes n =
     (if vec n then Some (status, if n > 0 then take n (the bytes) else []) else None)"

text \<open>What \<^verbatim>\<open>.Call\<close> does: it returns the pair, or R longjmps out of it.\<close>

datatype r_call = R_pair zu_status "byte list" | R_longjmp

definition r_return :: "(zu_status \<times> byte list) option \<Rightarrow> r_call" where
  "r_return res = (case res of None \<Rightarrow> R_longjmp | Some (st, bytes) \<Rightarrow> R_pair st bytes)"

text \<open>
  The call, the release calls for the stream handle, the sink blocks freed and the live count. After
  a longjmp the external pointer that owns the sink is garbage and its finalizer runs.
\<close>

type_synonym r_outcome = "r_call \<times> string list \<times> nat list \<times> int"

definition sink_return ::
  "(nat \<Rightarrow> bool) \<Rightarrow> whole_end \<times> string list \<times> zu_int_outbuf \<times> int \<Rightarrow> r_outcome" where
  "sink_return vec q =
     (case q of (e, frees, ob, live) \<Rightarrow>
        (let res = (case e of
                      Whole_interrupted \<Rightarrow> None
                    | Whole_returned st \<Rightarrow> zu_int_result vec st (map_option snd (ob_buf ob)) (ob_used ob))
         in if res = None
            then (case zu_int_outbuf_finalizer (the (ob_owner ob)) live of (freed, p, live') \<Rightarrow> (R_longjmp, frees, freed, live'))
            else (case zu_int_outbuf_release ob live of (freed, ob', live') \<Rightarrow> (r_return res, frees, freed, live'))))"

definition komp_opts :: "sexp \<Rightarrow> bool \<Rightarrow> zu_codec \<Rightarrow> int \<Rightarrow> nat \<Rightarrow> nat \<Rightarrow> u32 \<Rightarrow> zu_int_run_opts" where
  "komp_opts r_bytes encode codec level max_output max_ratio dec_flags =
     \<lparr>ro_src = x_raw r_bytes, ro_n = x_length r_bytes, ro_encode = encode, ro_codec = codec, ro_level = level,
      ro_max_output = max_output, ro_max_ratio = max_ratio, ro_dec_flags = dec_flags, ro_expected_size = 0,
      ro_in_chunk = (if encode then if x_length r_bytes > 0 then x_length r_bytes else 1 else 64 * 1024),
      ro_out_chunk = 64 * 1024, ro_flush_every = 0\<rparr>"

definition zu_int_whole ::
  "r_env \<Rightarrow> 's zu_registry \<Rightarrow> sexp \<Rightarrow> bool \<Rightarrow> sexp \<Rightarrow> sexp \<Rightarrow> r_real \<Rightarrow> int \<Rightarrow> u32 \<Rightarrow> int \<Rightarrow> r_outcome option" where
  "zu_int_whole env reg r_bytes encode r_codec r_level max_output max_ratio dec_flags live =
     (let codec = zu_codec_lookup reg (Some (r_char0 r_codec));
          (bad_level, level) = zu_int_level_from_sexp r_level;
          (bad_output, output) = zu_int_u64_from_real max_output;
          (bad_ratio, ratio) = zu_int_u32_from_int max_ratio
      in if bad_level \<noteq> 0 \<or> bad_output \<noteq> 0 \<or> bad_ratio \<noteq> 0
         then Some (r_return (zu_int_result (env_vector env) ZU_ERR_INVALID_ARGUMENT None 0), [], [], live)
         else if codec = ZU_CODEC_NONE
         then Some (r_return (zu_int_result (env_vector env) ZU_ERR_UNSUPPORTED None 0), [], [], live)
         else map_option (sink_return (env_vector env))
                (zu_int_run_whole (env_mem env) (env_realloc env) (env_interrupt env) reg
                   (komp_opts r_bytes encode codec level output ratio dec_flags) (zu_int_outbuf_owner outbuf_zero) live))"

definition zukomp_compress :: "r_env \<Rightarrow> 's zu_registry \<Rightarrow> sexp \<Rightarrow> sexp \<Rightarrow> sexp \<Rightarrow> int \<Rightarrow> r_outcome option" where
  "zukomp_compress env reg bytes codec level live =
     zu_int_whole env reg bytes True codec level (R_finite 0) 0 0 live"

definition zukomp_decompress ::
  "r_env \<Rightarrow> 's zu_registry \<Rightarrow> sexp \<Rightarrow> sexp \<Rightarrow> sexp \<Rightarrow> sexp \<Rightarrow> int \<Rightarrow> r_outcome option" where
  "zukomp_decompress env reg bytes codec max_output max_ratio live =
     zu_int_whole env reg bytes False codec R_NilValue (x_real max_output) (x_int max_ratio)
       (ZU_DEC_REJECT_TRAILING OR ZU_DEC_CONCAT_MEMBERS) live"

subsection \<open>The API table\<close>

text \<open>A function that reads or writes the registry takes it as an argument, and one that allocates
  takes \<open>alloc\<close>.\<close>

record 's zukomp_api_v1 =
  api_abi_version :: nat
  api_struct_size :: nat
  api_codec_lookup :: "'s zu_registry \<Rightarrow> string option \<Rightarrow> zu_codec"
  api_codec_from_content_encoding :: "'s zu_registry \<Rightarrow> string option \<Rightarrow> zu_codec"
  api_codec_available :: "'s zu_registry \<Rightarrow> zu_codec \<Rightarrow> bool"
  api_codec_get_info :: "'s zu_registry \<Rightarrow> zu_codec \<Rightarrow> zu_codec_info option \<Rightarrow> zu_status \<times> zu_codec_info option"
  api_codec_list :: "'s zu_registry \<Rightarrow> nat option \<Rightarrow> zu_status \<times> nat \<times> zu_codec list"
  api_sniff :: "'s zu_registry \<Rightarrow> byte list option \<Rightarrow> nat \<Rightarrow> zu_status \<times> zu_codec option"
  api_encoder_new :: "alloc \<Rightarrow> 's zu_registry \<Rightarrow> zu_encoder_opts \<Rightarrow> zu_status \<times> 's zu_encoder option"
  api_encoder_process :: "'s zu_encoder \<Rightarrow> zu_buffer \<Rightarrow> zu_flush \<Rightarrow> (zu_status \<times> 's zu_encoder \<times> zu_buffer) option"
  api_encoder_reset :: "'s zu_encoder \<Rightarrow> zu_encoder_opts option \<Rightarrow> zu_status \<times> 's zu_encoder"
  api_encoder_free :: "'s zu_encoder option \<Rightarrow> string list"
  api_decoder_new :: "alloc \<Rightarrow> 's zu_registry \<Rightarrow> zu_decoder_opts \<Rightarrow> zu_status \<times> 's zu_decoder option"
  api_decoder_process :: "'s zu_decoder \<Rightarrow> zu_buffer \<Rightarrow> zu_flush \<Rightarrow> (zu_status \<times> 's zu_decoder \<times> zu_buffer) option"
  api_decoder_reset :: "'s zu_decoder \<Rightarrow> zu_decoder_opts option \<Rightarrow> zu_status \<times> 's zu_decoder"
  api_decoder_free :: "'s zu_decoder option \<Rightarrow> string list"
  api_compress_bound :: "'s zu_registry \<Rightarrow> zu_codec \<Rightarrow> int \<Rightarrow> nat \<Rightarrow> zu_status \<times> nat option"
  api_compress_one :: "alloc \<Rightarrow> 's zu_registry \<Rightarrow> zu_encoder_opts \<Rightarrow> byte list option \<Rightarrow> nat \<Rightarrow> byte list option \<Rightarrow> nat \<Rightarrow>
    (zu_status \<times> nat option \<times> byte list option) option"
  api_decompress_one :: "alloc \<Rightarrow> 's zu_registry \<Rightarrow> zu_decoder_opts \<Rightarrow> byte list option \<Rightarrow> nat \<Rightarrow> byte list option \<Rightarrow> nat \<Rightarrow>
    (zu_status \<times> nat option \<times> byte list option) option"
  api_status_string :: "nat \<Rightarrow> string"
  api_abi :: nat
  api_register_codec :: "'s zu_codec_vtable option \<Rightarrow> 's zu_registry \<Rightarrow> zu_status \<times> 's zu_registry"

definition sizeof_zukomp_api_v1 :: nat where "sizeof_zukomp_api_v1 = 168"

definition zu_int_api_v1 :: "'s zukomp_api_v1" where
  "zu_int_api_v1 =
     \<lparr>api_abi_version = ZUKOMP_ABI_VERSION, api_struct_size = sizeof_zukomp_api_v1,
      api_codec_lookup = zu_codec_lookup, api_codec_from_content_encoding = zu_codec_from_content_encoding,
      api_codec_available = zu_codec_available, api_codec_get_info = zu_codec_get_info,
      api_codec_list = zu_codec_list, api_sniff = zu_sniff,
      api_encoder_new = zu_encoder_new, api_encoder_process = zu_encoder_process,
      api_encoder_reset = zu_encoder_reset, api_encoder_free = zu_encoder_free,
      api_decoder_new = zu_decoder_new, api_decoder_process = zu_decoder_process,
      api_decoder_reset = zu_decoder_reset, api_decoder_free = zu_decoder_free,
      api_compress_bound = zu_compress_bound, api_compress_one = zu_compress_one,
      api_decompress_one = zu_decompress_one, api_status_string = zu_status_string,
      api_abi = zu_abi_version, api_register_codec = zu_register_codec\<rparr>"

definition zukomp_get_api :: "nat \<Rightarrow> 's zukomp_api_v1 option" where
  "zukomp_get_api requested = (if requested \<noteq> ZUKOMP_ABI_VERSION then None else Some zu_int_api_v1)"

text \<open>\<^verbatim>\<open>zukomp_get_api_r\<close>: the requested version is an \<^verbatim>\<open>int\<close> of R cast to \<^verbatim>\<open>uint32_t\<close>.\<close>

definition zukomp_get_api_r :: "'s zukomp_api_v1 itself \<Rightarrow> sexp \<Rightarrow> (nat \<times> nat) option" where
  "zukomp_get_api_r ty requested =
     (case (zukomp_get_api (nat (x_int requested mod 2 ^ 32)) :: 's zukomp_api_v1 option) of
        None \<Rightarrow> None
      | Some api \<Rightarrow> Some (api_abi_version api, api_struct_size api))"

text \<open>\<^verbatim>\<open>zukomp_api()\<close> of \<^verbatim>\<open>zukomp-r.h\<close>: the table is resolved once and kept; \<open>resolve\<close> is what
  \<^verbatim>\<open>R_GetCCallable\<close> found.\<close>

definition zukomp_api ::
  "(nat \<Rightarrow> 's zukomp_api_v1 option) option \<Rightarrow> 's zukomp_api_v1 option \<Rightarrow> 's zukomp_api_v1 option" where
  "zukomp_api resolve cached =
     (if cached = None then (case resolve of Some get \<Rightarrow> get ZUKOMP_ABI_VERSION | None \<Rightarrow> None) else cached)"

lemma zukomp_api_stable: "zukomp_api resolve (zukomp_api resolve cached) = zukomp_api resolve cached"
  by (auto simp: zukomp_api_def split: option.splits)

subsection \<open>The codec table\<close>

lemma undeclared_at_filter:
  "undeclared_at vs want seen =
     (let us = filter (\<lambda>v. zu_int_declared_for (v_codec v) = None) vs
      in if seen \<le> want \<and> want - seen < length us then Some (us ! (want - seen)) else None)"
proof (induction vs arbitrary: seen)
  case (Cons v vs)
  show ?case
  proof (cases "zu_int_declared_for (v_codec v)")
    case None
    show ?thesis
    proof (cases "seen < want")
      case True
      then have "(v # us) ! (want - seen) = us ! (want - (seen + 1))" for us :: "'a zu_codec_vtable list"
        by (simp add: Suc_diff_Suc [symmetric])
      with None True show ?thesis by (auto simp: Cons.IH Let_def)
    qed (use None in \<open>auto simp: Cons.IH Let_def\<close>)
  next
    case (Some d)
    with Cons.IH [of seen] show ?thesis by simp
  qed
qed simp

text \<open>The table lists the declared codecs in order and then the registered ones they do not cover.\<close>

lemma codec_table_split:
  "zukomp_codec_table reg =
     map (\<lambda>d. codec_table_row (Some d) (zu_int_registry_lookup reg (d_codec d))) zu_int_declared @
     map (\<lambda>v. codec_table_row None (Some v)) (filter (\<lambda>v. zu_int_declared_for (v_codec v) = None) (reg_table reg))"
proof -
  let ?us = "filter (\<lambda>v. zu_int_declared_for (v_codec v) = None) (reg_table reg)"
  let ?f = "\<lambda>row. case codec_table_entry reg row of (decl, v) \<Rightarrow> codec_table_row decl v"
  have a: "map ?f [0..<zu_int_declared_count] =
      map (\<lambda>d. codec_table_row (Some d) (zu_int_registry_lookup reg (d_codec d))) zu_int_declared"
    by (rule nth_equalityI)
      (auto simp: codec_table_entry_def zu_int_declared_count_def zu_int_declared_at_def Let_def)
  have b: "map ?f [zu_int_declared_count..<zu_int_declared_count + length ?us] = map (\<lambda>v. codec_table_row None (Some v)) ?us"
    by (rule nth_equalityI) (auto simp: codec_table_entry_def undeclared_at_filter Let_def)
  have "[0..<zu_int_declared_count + length ?us] =
      [0..<zu_int_declared_count] @ [zu_int_declared_count..<zu_int_declared_count + length ?us]"
    by (rule upt_add_eq_append) simp
  then show ?thesis unfolding zukomp_codec_table_def Let_def by (simp only: map_append a b)
qed

end
