(* ===== verification/Zu_Test.thy ===== *)
theory Zu_Test
  imports Zu_R
begin

unbundle bit_operations_syntax

text \<open>
  The test entry points of \<^verbatim>\<open>src/zukomp_test.c\<close>. Memory from \<^verbatim>\<open>R_alloc\<close> is a list of zeros, whose
  contents nothing reads before they are written; a failure of \<^verbatim>\<open>R_alloc\<close> longjmps. A result is the pair of
  \<^verbatim>\<open>zu_int_result\<close> and, where the code sets attributes, their values beside it.
\<close>

definition r_alloc :: "nat \<Rightarrow> byte list" where
  "r_alloc n = replicate n 0"

definition r_true :: "sexp \<Rightarrow> bool" where
  "r_true x \<longleftrightarrow> x_logical x = Some True"

definition r_codec :: "'s zu_registry \<Rightarrow> sexp \<Rightarrow> zu_codec" where
  "r_codec reg x = zu_codec_lookup reg (Some (r_char0 x))"

subsection \<open>The stream harness\<close>

definition test_stream_opts ::
  "'s zu_registry \<Rightarrow> sexp \<Rightarrow> sexp \<Rightarrow> sexp \<Rightarrow> sexp \<Rightarrow> sexp \<Rightarrow> sexp \<Rightarrow> sexp \<Rightarrow> sexp \<Rightarrow> sexp \<Rightarrow> sexp \<Rightarrow> sexp \<Rightarrow> sexp \<Rightarrow>
    zu_int_run_opts option" where
  "test_stream_opts reg r_bytes r_cod r_encode r_in_chunk r_out_chunk r_max_output r_max_ratio r_flush_every r_level
      r_reject_trailing r_concat_members r_expected_size =
     (let (c1, level) = zu_int_level_from_sexp r_level;
          (c2, max_output) = zu_int_u64_from_real (x_real r_max_output);
          (c3, max_ratio) = zu_int_u32_from_int (x_int r_max_ratio);
          (c4, in_chunk) = zu_int_size_from_real (x_real r_in_chunk);
          (c5, out_chunk) = zu_int_size_from_real (x_real r_out_chunk);
          (c6, flush_every) = zu_int_u64_from_real (x_real r_flush_every);
          (c7, expected) = (if \<not> x_null r_expected_size then zu_int_u64_from_real (x_real r_expected_size) else (0, 0));
          flags = (if r_true r_reject_trailing then ZU_DEC_REJECT_TRAILING else 0) OR
                  (if r_true r_concat_members then ZU_DEC_CONCAT_MEMBERS else 0) OR
                  (if \<not> x_null r_expected_size then ZU_DEC_EXPECTED_SIZE else 0)
      in if c1 \<noteq> 0 \<or> c2 \<noteq> 0 \<or> c3 \<noteq> 0 \<or> c4 \<noteq> 0 \<or> c5 \<noteq> 0 \<or> c6 \<noteq> 0 then None
         else if c7 \<noteq> 0 then None
         else Some \<lparr>ro_src = x_raw r_bytes, ro_n = x_length r_bytes, ro_encode = r_true r_encode, ro_codec = r_codec reg r_cod,
                    ro_level = level, ro_max_output = max_output, ro_max_ratio = max_ratio, ro_dec_flags = flags,
                    ro_expected_size = expected, ro_in_chunk = in_chunk, ro_out_chunk = out_chunk, ro_flush_every = flush_every\<rparr>)"

text \<open>The outcome and the \<^verbatim>\<open>consumed\<close> attribute.\<close>

definition test_stream_run ::
  "r_env \<Rightarrow> 's zu_registry \<Rightarrow> zu_int_run_opts option \<Rightarrow> int \<Rightarrow> (r_outcome \<times> nat option) option" where
  "test_stream_run env reg opts live =
     (case opts of
        None \<Rightarrow> Some ((r_return (zu_int_result (env_vector env) ZU_ERR_INVALID_ARGUMENT None 0), [], [], live), None)
      | Some r \<Rightarrow>
          if ro_codec r = ZU_CODEC_NONE
          then Some ((r_return (zu_int_result (env_vector env) ZU_ERR_UNSUPPORTED None 0), [], [], live), None)
          else
            (case zu_int_run_whole (env_mem env) (env_realloc env) (env_interrupt env) reg r (zu_int_outbuf_owner outbuf_zero) live of
               None \<Rightarrow> None
             | Some (e, frees, ob, live') \<Rightarrow>
                 Some (sink_return (env_vector env) (e, frees, ob, live'),
                       case e of Whole_interrupted \<Rightarrow> None | Whole_returned st \<Rightarrow> Some (ob_consumed ob))))"

definition zukomp_test_stream ::
  "r_env \<Rightarrow> 's zu_registry \<Rightarrow> sexp \<Rightarrow> sexp \<Rightarrow> sexp \<Rightarrow> sexp \<Rightarrow> sexp \<Rightarrow> sexp \<Rightarrow> sexp \<Rightarrow> sexp \<Rightarrow> sexp \<Rightarrow> sexp \<Rightarrow> sexp \<Rightarrow> sexp \<Rightarrow>
    int \<Rightarrow> (r_outcome \<times> nat option) option" where
  "zukomp_test_stream env reg r_bytes r_cod r_encode r_in_chunk r_out_chunk r_max_output r_max_ratio r_flush_every r_level
      r_reject_trailing r_concat_members r_expected_size live =
     test_stream_run env reg
       (test_stream_opts reg r_bytes r_cod r_encode r_in_chunk r_out_chunk r_max_output r_max_ratio r_flush_every r_level
          r_reject_trailing r_concat_members r_expected_size) live"

subsection \<open>The one-shot calls\<close>

definition dec_opts_zero :: zu_decoder_opts where
  "dec_opts_zero = \<lparr>do_struct_size = sizeof_zu_decoder_opts, do_codec = 0, do_max_output = 0, do_max_ratio = 0, do_flags = 0, do_expected_size = 0\<rparr>"

definition zukomp_test_decompress_one ::
  "r_env \<Rightarrow> 's zu_registry \<Rightarrow> sexp \<Rightarrow> sexp \<Rightarrow> sexp \<Rightarrow> sexp \<Rightarrow> r_call option" where
  "zukomp_test_decompress_one env reg r_bytes r_cod r_cap r_expected_size =
     (let codec = r_codec reg r_cod; (bad_cap, cap) = zu_int_size_from_real (x_real r_cap);
          flags = ZU_DEC_REJECT_TRAILING OR ZU_DEC_CONCAT_MEMBERS;
          opts = dec_opts_zero\<lparr>do_codec := codec, do_flags := flags\<rparr>;
          vec = env_vector env
      in if codec = ZU_CODEC_NONE then Some (r_return (zu_int_result vec ZU_ERR_UNSUPPORTED None 0))
         else if bad_cap \<noteq> 0 then Some (r_return (zu_int_result vec ZU_ERR_INVALID_ARGUMENT None 0))
         else
           (case (if \<not> x_null r_expected_size then zu_int_u64_from_real (x_real r_expected_size) else (0, 0)) of
              (bad, expected) \<Rightarrow>
                if bad \<noteq> 0 then Some (r_return (zu_int_result vec ZU_ERR_INVALID_ARGUMENT None 0))
                else if cap \<noteq> 0 \<and> \<not> vec cap then Some R_longjmp
                else
                  (let opts1 = (if \<not> x_null r_expected_size
                                then opts\<lparr>do_expected_size := expected, do_flags := flags OR ZU_DEC_EXPECTED_SIZE\<rparr> else opts);
                       d = (if cap = 0 then None else Some (r_alloc cap))
                   in (case zu_decompress_one (env_mem env) reg opts1 (Some (x_raw r_bytes)) (x_length r_bytes) d cap of
                         None \<Rightarrow> None
                       | Some (st, written, d') \<Rightarrow>
                           Some (r_return (zu_int_result vec st d' (case written of None \<Rightarrow> 0 | Some w \<Rightarrow> w)))))))"

definition zukomp_test_compress_bound :: "r_env \<Rightarrow> 's zu_registry \<Rightarrow> sexp \<Rightarrow> sexp \<Rightarrow> sexp \<Rightarrow> r_call \<times> nat option" where
  "zukomp_test_compress_bound env reg r_cod r_level r_n =
     (let codec = r_codec reg r_cod; (bad_level, level) = zu_int_level_from_sexp r_level;
          (bad_n, n) = zu_int_size_from_real (x_real r_n); vec = env_vector env
      in if codec = ZU_CODEC_NONE then (r_return (zu_int_result vec ZU_ERR_UNSUPPORTED None 0), None)
         else if bad_level \<noteq> 0 then (r_return (zu_int_result vec ZU_ERR_INVALID_ARGUMENT None 0), None)
         else if bad_n \<noteq> 0 then (r_return (zu_int_result vec ZU_ERR_INVALID_ARGUMENT None 0), None)
         else (case zu_compress_bound reg codec level n of
                 (st, bound) \<Rightarrow> (r_return (zu_int_result vec st None 0), Some (case bound of None \<Rightarrow> 0 | Some b \<Rightarrow> b))))"

definition enc_opts_zero :: zu_encoder_opts where
  "enc_opts_zero = \<lparr>eo_struct_size = sizeof_zu_encoder_opts, eo_codec = 0, eo_level = 0, eo_flags = 0\<rparr>"

text \<open>The capacity: the bound moved by \<^verbatim>\<open>delta\<close>, clamped at zero; the sum wraps like a \<^verbatim>\<open>size_t\<close>.\<close>

definition r_abs :: "r_real \<Rightarrow> r_real" where
  "r_abs v = (case v of R_finite q \<Rightarrow> R_finite (if q < 0 then - q else q) | R_NegInf \<Rightarrow> R_Inf | _ \<Rightarrow> v)"

definition r_negative :: "r_real \<Rightarrow> bool" where
  "r_negative v = (case v of R_finite q \<Rightarrow> q < 0 | R_NegInf \<Rightarrow> True | _ \<Rightarrow> False)"

definition r_positive :: "r_real \<Rightarrow> bool" where
  "r_positive v = (case v of R_finite q \<Rightarrow> 0 < q | R_Inf \<Rightarrow> True | _ \<Rightarrow> False)"

definition test_capacity :: "nat \<Rightarrow> r_real \<Rightarrow> nat \<Rightarrow> nat" where
  "test_capacity bound delta magnitude =
     (if r_negative delta then if magnitude \<ge> bound then 0 else bound - magnitude
      else if r_positive delta then u64_add bound magnitude else bound)"

definition zukomp_test_compress_one ::
  "r_env \<Rightarrow> 's zu_registry \<Rightarrow> sexp \<Rightarrow> sexp \<Rightarrow> sexp \<Rightarrow> sexp \<Rightarrow> (r_call \<times> nat option) option" where
  "zukomp_test_compress_one env reg r_bytes r_cod r_level r_cap_delta =
     (let codec = r_codec reg r_cod; (bad_level, level) = zu_int_level_from_sexp r_level; vec = env_vector env;
          n = x_length r_bytes
      in if codec = ZU_CODEC_NONE then Some (r_return (zu_int_result vec ZU_ERR_UNSUPPORTED None 0), None)
         else if bad_level \<noteq> 0 then Some (r_return (zu_int_result vec ZU_ERR_INVALID_ARGUMENT None 0), None)
         else
           (case zu_compress_bound reg codec level n of
              (st, bnd) \<Rightarrow>
                if st \<noteq> ZU_OK then Some (r_return (zu_int_result vec st None 0), None)
                else
                  (let bound = (case bnd of None \<Rightarrow> 0 | Some b \<Rightarrow> b);
                       (bad, magnitude) = zu_int_size_from_real (r_abs (x_real r_cap_delta));
                       cap = test_capacity bound (x_real r_cap_delta) magnitude
                   in if bad \<noteq> 0 then Some (r_return (zu_int_result vec ZU_ERR_INVALID_ARGUMENT None 0), None)
                      else if cap \<noteq> 0 \<and> \<not> vec cap then Some (R_longjmp, None)
                      else
                        (case zu_compress_one (env_mem env) reg (enc_opts_zero\<lparr>eo_codec := codec, eo_level := level\<rparr>)
                                (Some (x_raw r_bytes)) n (if cap = 0 then None else Some (r_alloc cap)) cap of
                           None \<Rightarrow> None
                         | Some (st, written, d') \<Rightarrow>
                             Some (r_return (zu_int_result vec st d' (case written of None \<Rightarrow> 0 | Some w \<Rightarrow> w)), Some bound)))))"

subsection \<open>Handles used twice\<close>

text \<open>One turn of the encode loop: the status the pass ends with, the encoder and the buffer.\<close>

definition reset_encode_step ::
  "'s zu_encoder \<times> zu_buffer \<Rightarrow> (zu_status \<times> 's zu_encoder \<times> zu_buffer, 's zu_encoder \<times> zu_buffer) loop_step option" where
  "reset_encode_step x =
     (case x of (enc, buf) \<Rightarrow>
        (case zu_encoder_process enc buf ZU_FINISH of
           None \<Rightarrow> None
         | Some (ps, enc', buf') \<Rightarrow>
             Some (if ps = ZU_STREAM_END then Ret (ZU_OK, enc', buf')
                   else if ps \<noteq> ZU_OK \<and> ps \<noteq> ZU_NEED_INPUT \<and> ps \<noteq> ZU_NEED_OUTPUT then Ret (ps, enc', buf')
                   else if dst_pos buf' = dst_pos buf \<and> src_pos buf' = src_pos buf then Ret (ZU_ERR_INTERNAL, enc', buf')
                   else Next (enc', buf'))))"

definition reset_pass_buffer :: "byte list \<Rightarrow> nat \<Rightarrow> byte list \<Rightarrow> nat \<Rightarrow> zu_buffer" where
  "reset_pass_buffer s n d cap = \<lparr>src = Some s, src_size = n, src_pos = 0, dst = Some d, dst_size = cap, dst_pos = 0\<rparr>"

text \<open>The status, the bytes returned with it, and the release calls.\<close>

definition encoder_reset_passes ::
  "'s zu_encoder \<Rightarrow> zu_encoder_opts \<Rightarrow> int \<times> int \<Rightarrow> byte list \<Rightarrow> nat \<Rightarrow> byte list \<Rightarrow> nat \<Rightarrow>
    (zu_status \<times> (byte list \<times> nat) option \<times> string list) option" where
  "encoder_reset_passes enc opts second s n d cap =
     (case run_loop reset_encode_step (enc, reset_pass_buffer s n d cap) of
        None \<Rightarrow> None
      | Some (st, enc1, b1) \<Rightarrow>
          if st \<noteq> ZU_OK then Some (st, Some (dst_mem b1, dst_pos b1), zu_encoder_free (Some enc1))
          else if fst second \<noteq> 0 then Some (ZU_ERR_INVALID_ARGUMENT, None, zu_encoder_free (Some enc1))
          else
            (case zu_encoder_reset enc1 (Some (opts\<lparr>eo_level := snd second\<rparr>)) of
               (st, enc2) \<Rightarrow>
                 if st \<noteq> ZU_OK then Some (st, None, zu_encoder_free (Some enc2))
                 else
                   (case run_loop reset_encode_step (enc2, reset_pass_buffer s n (dst_mem b1) cap) of
                      None \<Rightarrow> None
                    | Some (st, enc3, b3) \<Rightarrow> Some (st, Some (dst_mem b3, dst_pos b3), zu_encoder_free (Some enc3)))))"

definition zukomp_test_encoder_reset ::
  "r_env \<Rightarrow> 's zu_registry \<Rightarrow> sexp \<Rightarrow> sexp \<Rightarrow> sexp \<Rightarrow> sexp \<Rightarrow> (r_call \<times> string list) option" where
  "zukomp_test_encoder_reset env reg r_bytes r_cod r_level1 r_level2 =
     (let codec = r_codec reg r_cod; (bad_level, level) = zu_int_level_from_sexp r_level1; vec = env_vector env;
          s = x_raw r_bytes; n = x_length r_bytes; opts = enc_opts_zero\<lparr>eo_codec := codec, eo_level := level\<rparr>
      in if codec = ZU_CODEC_NONE then Some (r_return (zu_int_result vec ZU_ERR_UNSUPPORTED None 0), [])
         else if bad_level \<noteq> 0 then Some (r_return (zu_int_result vec ZU_ERR_INVALID_ARGUMENT None 0), [])
         else
           (case zu_compress_bound reg codec level n of
              (st, bnd) \<Rightarrow>
                if st \<noteq> ZU_OK then Some (r_return (zu_int_result vec st None 0), [])
                else
                  (let cap = (case bnd of None \<Rightarrow> 0 | Some b \<Rightarrow> b)
                   in (case zu_encoder_new (env_mem env) reg opts of
                         (st, None) \<Rightarrow> Some (r_return (zu_int_result vec st None 0), [])
                       | (st, Some enc) \<Rightarrow>
                           if \<not> vec (if cap = 0 then 1 else cap) then Some (R_longjmp, [])
                           else
                             (case encoder_reset_passes enc opts (zu_int_level_from_sexp r_level2) s n
                                     (r_alloc (if cap = 0 then 1 else cap)) cap of
                                None \<Rightarrow> None
                              | Some (st, Some (d, used), frees) \<Rightarrow> Some (r_return (zu_int_result vec st (Some d) used), frees)
                              | Some (st, None, frees) \<Rightarrow> Some (r_return (zu_int_result vec st None 0), frees))))))"

text \<open>The decoder's loop writes both messages into one sink of a megabyte; the state is the decoder,
  the buffer, the sink and what of it is used.\<close>

definition reset_decode_step ::
  "nat \<Rightarrow> 's zu_decoder \<times> zu_buffer \<times> byte list \<times> nat \<Rightarrow>
    (zu_status \<times> 's zu_decoder \<times> byte list \<times> nat, 's zu_decoder \<times> zu_buffer \<times> byte list \<times> nat) loop_step option" where
  "reset_decode_step cap x =
     (case x of (dec, buf, d, used) \<Rightarrow>
        if used \<ge> cap then Some (Ret (ZU_ERR_INTERNAL, dec, d, used))
        else
          (case zu_decoder_process dec (buf\<lparr>dst := Some (drop used d), dst_size := cap - used, dst_pos := 0\<rparr>) ZU_FINISH of
             None \<Rightarrow> None
           | Some (ps, dec', buf') \<Rightarrow>
               (let d' = take used d @ dst_mem buf'; used' = used + dst_pos buf'
                in Some (if ps = ZU_STREAM_END then Ret (ZU_OK, dec', d', used')
                         else if ps \<noteq> ZU_OK \<and> ps \<noteq> ZU_NEED_INPUT \<and> ps \<noteq> ZU_NEED_OUTPUT then Ret (ps, dec', d', used')
                         else if dst_pos buf' = 0 \<and> ps = ZU_NEED_INPUT then Ret (ZU_ERR_INTERNAL, dec', d', used')
                         else Next (dec', buf', d', used')))))"

definition message_buffer :: "sexp \<Rightarrow> zu_buffer" where
  "message_buffer x = \<lparr>src = Some (x_raw x), src_size = x_length x, src_pos = 0, dst = None, dst_size = 0, dst_pos = 0\<rparr>"

text \<open>The second status, the first status, how much the first message took of the sink, the sink.\<close>

definition decoder_reset_passes ::
  "'s zu_decoder \<Rightarrow> zu_decoder_opts \<Rightarrow> sexp \<Rightarrow> sexp \<Rightarrow> nat \<Rightarrow>
    (zu_status \<times> zu_status \<times> nat \<times> 's zu_decoder \<times> byte list \<times> nat) option" where
  "decoder_reset_passes dec opts r_a r_b cap =
     (case run_loop (reset_decode_step cap) (dec, message_buffer r_a, r_alloc cap, 0) of
        None \<Rightarrow> None
      | Some (first_st, dec1, d1, first_n) \<Rightarrow>
          (case zu_decoder_reset dec1 (Some opts) of
             (st, dec2) \<Rightarrow>
               if st \<noteq> ZU_OK then Some (st, first_st, first_n, dec2, d1, first_n)
               else
                 (case run_loop (reset_decode_step cap) (dec2, message_buffer r_b, d1, first_n) of
                    None \<Rightarrow> None
                  | Some (st, dec3, d3, used) \<Rightarrow> Some (st, first_st, first_n, dec3, d3, used))))"

definition ZU_TEST_SINK :: nat where "ZU_TEST_SINK = 2 ^ 20"

definition zukomp_test_decoder_reset ::
  "r_env \<Rightarrow> 's zu_registry \<Rightarrow> sexp \<Rightarrow> sexp \<Rightarrow> sexp \<Rightarrow> sexp \<Rightarrow> (r_call \<times> (zu_status \<times> nat) option \<times> string list) option" where
  "zukomp_test_decoder_reset env reg r_a r_b r_cod r_max_output =
     (let codec = r_codec reg r_cod; (bad, max_output) = zu_int_u64_from_real (x_real r_max_output); vec = env_vector env;
          opts = dec_opts_zero\<lparr>do_codec := codec, do_flags := ZU_DEC_REJECT_TRAILING OR ZU_DEC_CONCAT_MEMBERS,
                               do_max_output := max_output\<rparr>
      in if codec = ZU_CODEC_NONE then Some (r_return (zu_int_result vec ZU_ERR_UNSUPPORTED None 0), None, [])
         else if bad \<noteq> 0 then Some (r_return (zu_int_result vec ZU_ERR_INVALID_ARGUMENT None 0), None, [])
         else
           (case zu_decoder_new (env_mem env) reg opts of
              (st, None) \<Rightarrow> Some (r_return (zu_int_result vec st None 0), None, [])
            | (st, Some dec) \<Rightarrow>
                if \<not> vec ZU_TEST_SINK then Some (R_longjmp, None, [])
                else
                  (case decoder_reset_passes dec opts r_a r_b ZU_TEST_SINK of
                     None \<Rightarrow> None
                   | Some (st, first_st, first_n, dec', d, used) \<Rightarrow>
                       Some (r_return (zu_int_result vec st (Some d) used), Some (first_st, first_n), zu_decoder_free (Some dec')))))"

definition zukomp_test_decoder_reset_codec ::
  "r_env \<Rightarrow> 's zu_registry \<Rightarrow> sexp \<Rightarrow> sexp \<Rightarrow> r_call \<times> string list" where
  "zukomp_test_decoder_reset_codec env reg r_from r_to =
     (let from = r_codec reg r_from; to = r_codec reg r_to; vec = env_vector env; opts = dec_opts_zero\<lparr>do_codec := from\<rparr>
      in if from = ZU_CODEC_NONE \<or> to = ZU_CODEC_NONE then (r_return (zu_int_result vec ZU_ERR_UNSUPPORTED None 0), [])
         else
           (case zu_decoder_new (env_mem env) reg opts of
              (st, None) \<Rightarrow> (r_return (zu_int_result vec st None 0), [])
            | (st, Some dec) \<Rightarrow>
                (case zu_decoder_reset dec (Some (opts\<lparr>do_codec := to\<rparr>)) of
                   (st, dec') \<Rightarrow> (r_return (zu_int_result vec st None 0), zu_decoder_free (Some dec')))))"

subsection \<open>Probes\<close>

definition zukomp_test_grow :: "r_env \<Rightarrow> sexp \<Rightarrow> r_call" where
  "zukomp_test_grow env r_near_size_max =
     (let current = (if r_true r_near_size_max then SIZE_MAX - 16 else 1024)
      in r_return (zu_int_result (env_vector env) (fst (zu_int_grow current 4096)) None 0))"

definition vtable_zero :: "'s zu_codec_vtable" where
  "vtable_zero =
     \<lparr>v_struct_size = 0, v_codec = 0, v_name = None, v_content_encoding = None, v_source = None, v_level_min = 0,
      v_level_max = 0, v_level_default = 0, v_flags = 0, v_magic = None, v_magic_len = 0, v_magic_offset = 0, v_sniff = None,
      v_encoder_new = None, v_encoder_process = None, v_encoder_reset = None, v_encoder_free = None, v_decoder_new = None,
      v_decoder_process = None, v_decoder_reset = None, v_decoder_free = None, v_bound = None, v_level_fast = 0, v_level_best = 0\<rparr>"

definition zukomp_test_vtable_levels :: "sexp \<Rightarrow> (int \<times> int) option" where
  "zukomp_test_vtable_levels r_case =
     (let v = (vtable_zero :: unit zu_codec_vtable)\<lparr>v_struct_size := sizeof_zu_codec_vtable, v_level_min := 0, v_level_max := 9, v_level_default := 6\<rparr>;
          levels = (\<lambda>v :: unit zu_codec_vtable. Some (zu_int_vtable_level_fast v, zu_int_vtable_level_best v))
      in if x_int r_case = 0 then levels (v\<lparr>v_level_fast := 1, v_level_best := 9\<rparr>)
         else if x_int r_case = 1 then levels (v\<lparr>v_level_fast := 0, v_level_best := 0\<rparr>)
         else if x_int r_case = 2
         then levels (v\<lparr>v_struct_size := ZU_VTABLE_REQUIRED_SIZE, v_level_fast := 12345, v_level_best := 54321\<rparr>)
         else None)"

definition zukomp_test_info_short :: "'s zu_registry \<Rightarrow> sexp \<Rightarrow> sexp \<Rightarrow> zu_status \<times> int \<times> int \<times> int \<times> int" where
  "zukomp_test_info_short reg r_cod r_short =
     (let info = codec_info_zero\<lparr>i_level_fast := -999, i_level_best := -888,
                   i_struct_size := (if r_true r_short then info_required_size else sizeof_zu_codec_info)\<rparr>
      in (case zu_codec_get_info reg (r_codec reg r_cod) (Some info) of
            (st, info') \<Rightarrow>
              (let i = (case info' of None \<Rightarrow> info | Some i \<Rightarrow> i)
               in (st, i_level_min i, i_level_default i, i_level_fast i, i_level_best i))))"

definition zukomp_status_codes :: "(string \<times> nat) list" where
  "zukomp_status_codes =
     zip [''ZU_OK'', ''ZU_NEED_INPUT'', ''ZU_NEED_OUTPUT'', ''ZU_STREAM_END'', ''ZU_ERR_INVALID_ARGUMENT'',
          ''ZU_ERR_UNSUPPORTED'', ''ZU_ERR_INVALID_DATA'', ''ZU_ERR_TRUNCATED'', ''ZU_ERR_CHECKSUM'', ''ZU_ERR_TRAILING'',
          ''ZU_ERR_MEMORY'', ''ZU_ERR_OUTPUT_LIMIT'', ''ZU_ERR_RATIO_LIMIT'', ''ZU_ERR_INTERNAL''] [0..<14]"

end
