(* ===== verification/Zu_Komp.thy ===== *)
theory Zu_Komp
  imports Zu_Test Zu_Guarantees
begin

unbundle bit_operations_syntax

text \<open>
  Compression and decompression from R as a whole: \<^verbatim>\<open>zukomp_compress\<close> and \<^verbatim>\<open>zukomp_decompress\<close> over the drive
  loop of \<open>Zu_Whole\<close>, the growing sink of \<open>Zu_Buf\<close>, the driver and the registry. What a call releases, what it returns
  for the bytewise codecs, what a successful decompression promises for any codec, and that it returns.
\<close>

subsection \<open>Any handle\<close>

text \<open>Of a handle in its invariant the loop needs no trace.\<close>

interpretation whole_any: whole_trace "handle_inv I J" "\<lambda>h i out st fl left. True" for I J
proof
  fix h b flush assume "handle_inv I J h" "buf_wf b"
  from handle_process_ok [OF this]
  show "\<exists>st h' b'. handle_process h b flush = Some (st, h', b') \<and> handle_inv I J h' \<and> buf_adv b b' \<and> True" by simp
qed

lemma run_whole_released:
  assumes ok: "whole_opts_ok r" and reg: "decoders_ok I reg" "encoders_ok J reg" and s: "sink_ok base ob live" "sink_bytes ob = []"
    and run: "zu_int_run_whole mem re intr reg r ob live = Some (e, frees, ob', live')"
  shows "sink_ok base ob' live' \<and> (frees = [] \<and> (\<exists>st. e = Whole_returned st) \<or> (\<exists>h. handle_inv I J h \<and> frees = handle_free h))"
proof (cases "handle_new mem reg (whole_opts r)")
  case (Pair st oh)
  have nz: "ro_in_chunk r \<noteq> 0" "ro_out_chunk r \<noteq> 0" using ok by (simp_all add: whole_opts_ok_def)
  show ?thesis
  proof (cases oh)
    case None
    with run Pair s nz show ?thesis by (auto simp: zu_int_run_whole_def)
  next
    case (Some h)
    with Pair have h: "handle_new mem reg (whole_opts r) = (ZU_OK, Some h)" using handle_new_status by metis
    from whole_any.whole_run [OF ok s h handle_new_inv [OF reg h] _ run] show ?thesis
      by (auto simp: whole_any.whole_ended_def)
  qed
qed

text \<open>What R gets of it: the sink is freed exactly once on every way out, and the live count is back
  where it was.\<close>

lemma sink_return_released:
  assumes "sink_ok base ob live" "sink_return vec (e, frees, ob, live) = (res, frees', freed, live')"
  shows "live' = base" "freed = (case ob_buf ob of None \<Rightarrow> [] | Some (a, m) \<Rightarrow> [a])" "frees' = frees"
    "res = R_pair st bytes \<Longrightarrow> e = Whole_returned st \<and> bytes = sink_bytes ob"
proof -
  note k = assms(1)
  show "live' = base" "freed = (case ob_buf ob of None \<Rightarrow> [] | Some (a, m) \<Rightarrow> [a])" "frees' = frees"
    using assms by (auto simp: sink_return_def Let_def sink_ok_def zu_int_outbuf_finalizer_def zu_int_outbuf_release_def
        split: if_splits option.splits prod.splits)
  have u: "ob_used ob \<le> length (outbuf_mem ob)" using k by (simp add: sink_ok_def)
  show "res = R_pair st bytes \<Longrightarrow> e = Whole_returned st \<and> bytes = sink_bytes ob"
    using assms(2) u
    by (cases e; cases "ob_buf ob")
      (auto simp: sink_return_def Let_def zu_int_result_def r_return_def sink_bytes_def outbuf_mem_def zu_int_outbuf_release_def
        split: if_splits option.splits prod.splits)
qed


text \<open>A raw vector of R, and what is known of the options \<^verbatim>\<open>zu_int_whole\<close> builds for it.\<close>

definition raw_ok :: "sexp \<Rightarrow> bool" where
  "raw_ok x \<longleftrightarrow> x_length x = length (x_raw x) \<and> length (x_raw x) \<le> 2 ^ 52"

lemma komp_opts_ok: "raw_ok x \<Longrightarrow> whole_opts_ok (komp_opts x encode c level mo mr fl)"
  by (auto simp: raw_ok_def whole_opts_ok_def komp_opts_def UINT64_MAX_def)

lemma komp_cases:
  assumes "zu_int_whole env reg x encode r_cod r_level mo mr fl live = Some (res, frees, freed, live')"
  shows "(\<exists>st. res = R_pair st [] \<and> st \<in> {ZU_ERR_INVALID_ARGUMENT, ZU_ERR_UNSUPPORTED} \<or> res = R_longjmp) \<and>
      frees = [] \<and> freed = [] \<and> live' = live \<or>
    (\<exists>level m k e ob l. zu_int_level_from_sexp r_level = (0, level) \<and> mo = R_finite (of_nat m) \<and> m \<le> 2 ^ 53 \<and> mr = int k \<and>
       zu_int_run_whole (env_mem env) (env_realloc env) (env_interrupt env) reg
         (komp_opts x encode (zu_codec_lookup reg (Some (r_char0 r_cod))) level m k fl) (zu_int_outbuf_owner outbuf_zero) live =
         Some (e, frees, ob, l) \<and>
       sink_return (env_vector env) (e, frees, ob, l) = (res, frees, freed, live'))"
proof -
  obtain c1 level where L: "zu_int_level_from_sexp r_level = (c1, level)" by fastforce
  obtain c2 m where M: "zu_int_u64_from_real mo = (c2, m)" by fastforce
  obtain c3 k where K: "zu_int_u32_from_int mr = (c3, k)" by fastforce
  let ?c = "zu_codec_lookup reg (Some (r_char0 r_cod))"
  have early: "\<exists>st'. r_return (zu_int_result v st None 0) = R_pair st' [] \<and> st' = st \<or> r_return (zu_int_result v st None 0) = R_longjmp"
    for v st by (auto simp: r_return_def zu_int_result_def)
  show ?thesis
  proof (cases "c1 \<noteq> 0 \<or> c2 \<noteq> 0 \<or> c3 \<noteq> 0 \<or> ?c = ZU_CODEC_NONE")
    case True
    then have "frees = [] \<and> freed = [] \<and> live' = live \<and>
        (\<exists>st \<in> {ZU_ERR_INVALID_ARGUMENT, ZU_ERR_UNSUPPORTED}. res = r_return (zu_int_result (env_vector env) st None 0))"
      using assms L M K by (auto simp: zu_int_whole_def split: if_splits)
    then show ?thesis by (auto simp: r_return_def zu_int_result_def)
  next
    case False
    then have z: "c1 = 0" "c2 = 0" "c3 = 0" by simp_all
    have n: "mo = R_finite (of_nat m)" "m \<le> 2 ^ 53" "mr = int k" using M K u64_from_real_iff u32_from_int_iff z by auto
    obtain q where q: "zu_int_run_whole (env_mem env) (env_realloc env) (env_interrupt env) reg
        (komp_opts x encode ?c level m k fl) (zu_int_outbuf_owner outbuf_zero) live = Some q"
      "sink_return (env_vector env) q = (res, frees, freed, live')"
      using assms L M K False by (auto simp: zu_int_whole_def)
    obtain e fr ob l where qq: "q = (e, fr, ob, l)" by (metis prod_cases4)
    have "fr = frees" using q(2) unfolding qq
      by (auto simp: sink_return_def Let_def split: if_splits prod.splits)
    then show ?thesis using q n L z unfolding qq by blast
  qed
qed


subsection \<open>Bytewise codecs without limits\<close>

text \<open>The trace of a handle of a bytewise codec: its output is the image of its input, no status is an
  error but for a flush argument that is none of the three, and it ends with the input.\<close>

definition unlimited :: "zu_decoder_opts \<Rightarrow> bool" where
  "unlimited os \<longleftrightarrow> do_max_output os = 0 \<and> do_max_ratio os = 0 \<and> \<not> has_flag (do_flags os) ZU_DEC_EXPECTED_SIZE"

lemma unlimited_window: "unlimited (dec_opts d) \<Longrightarrow> decoder_window d b = (False, avail_out b)"
  by (simp add: unlimited_def decoder_window_def decoder_ceiling_def avail_out_def Let_def)

lemma unlimited_verdict:
  "unlimited os \<Longrightarrow> decoder_verdict os tin tout b False a p st =
    (if st = ZU_STREAM_END \<and> src_pos b < src_size b \<and> has_flag (do_flags os) ZU_DEC_REJECT_TRAILING then ZU_ERR_TRAILING else st)"
  by (simp add: unlimited_def decoder_verdict_def Let_def ratio_exceeded_def)

definition plain_trace :: "(byte \<Rightarrow> byte) \<Rightarrow> 's process_fn \<Rightarrow> 's handle_trace" where
  "plain_trace f proc h i out st fl left \<longleftrightarrow> out = map f i \<and>
     (case h of
        Enc e \<Rightarrow> v_encoder_process (e_vtable e) = Some proc \<and> has_flag (v_flags (e_vtable e)) ZU_CAN_FLUSH \<and>
          (e_finished e \<longleftrightarrow> st = ZU_STREAM_END)
      | Dec d \<Rightarrow> v_decoder_process (dec_vtable d) = Some proc \<and> has_flag (v_flags (dec_vtable d)) ZU_CAN_FLUSH \<and>
          unlimited (dec_opts d) \<and> (dec_finished d \<longleftrightarrow> st = ZU_STREAM_END)) \<and>
     (is_progress st \<or> zu_int_check_flush fl \<noteq> ZU_OK) \<and> (fl = ZU_FINISH \<longrightarrow> st \<noteq> ZU_NEED_INPUT) \<and>
     (st = ZU_STREAM_END \<longrightarrow> fl = ZU_FINISH \<and> left = 0)"

context bytewise
begin

text \<open>A call of either kind of handle that is not finished is one call of the codec.\<close>

lemma plain_call:
  assumes tr: "plain_trace f proc h i out st0 fl0 left0" and p: "is_progress st0" and ns: "st0 \<noteq> ZU_STREAM_END"
    and wf: "buf_wf b" and fl: "zu_int_check_flush flush = ZU_OK"
  obtains h' b' where "handle_process h b flush = Some (bytewise_status (avail_in b) (avail_out b) flush, h', b')"
    "plain_trace f proc h' (i @ consumed b b') (out @ emitted b b') (bytewise_status (avail_in b) (avail_out b) flush) flush (avail_in b')"
    "buf_adv b b'" "length (consumed b b') = min (avail_in b) (avail_out b)"
proof -
  let ?st = "bytewise_status (avail_in b) (avail_out b) flush"
  obtain s' b' where c: "\<And>s. proc s b flush = Some (?st, s, b')"
    using proc_eq [OF wf] by (auto simp: Let_def)
  note m = proc_moves [OF wf c]
  have n: "length (consumed b b') = min (avail_in b) (avail_out b)" using m(4) in_window_length [OF wf] by simp
  have "avail_in b' = avail_in b - (src_pos b' - src_pos b)"
    using m(1) avail_in_wf [OF wf] avail_in_wf [OF buf_adv_wf [OF wf m(1)]] by (simp add: buf_adv_def)
  then have left: "avail_in b' = avail_in b - min (avail_in b) (avail_out b)" using consumed_length [OF wf m(1)] n by simp
  have st: "is_progress ?st" "flush = ZU_FINISH \<longrightarrow> ?st \<noteq> ZU_NEED_INPUT"
    "?st = ZU_STREAM_END \<longrightarrow> flush = ZU_FINISH \<and> avail_in b' = 0"
    using left by (auto simp: bytewise_status_def)
  have out: "out @ emitted b b' = map f (i @ consumed b b')" using tr m(2) by (simp add: plain_trace_def)
  show thesis
  proof (cases h)
    case (Enc e)
    let ?e = "e\<lparr>e_finished := (?st = ZU_STREAM_END)\<rparr>"
    have e: "zu_encoder_process e b flush = Some (?st, ?e, b')"
      using tr Enc ns c [of "e_state e"] wf fl
      by (auto simp: plain_trace_def zu_encoder_process_def buf_wf_check)
    show thesis
    proof (rule that [of "Enc ?e"])
      show "handle_process h b flush = Some (?st, Enc ?e, b')" using Enc e by (simp add: handle_process_def)
      show "plain_trace f proc (Enc ?e) (i @ consumed b b') (out @ emitted b b') ?st flush (avail_in b')"
        using tr Enc out st by (simp add: plain_trace_def)
    qed (rule m(1) n)+
  next
    case (Dec d)
    then have d: "v_decoder_process (dec_vtable d) = Some proc" "has_flag (v_flags (dec_vtable d)) ZU_CAN_FLUSH"
      "unlimited (dec_opts d)" "\<not> dec_finished d" using tr ns by (simp_all add: plain_trace_def)
    have act: "decoder_active d flush" using d fl by (simp add: decoder_active_def)
    have "src_size b' \<le> src_pos b'" if "?st = ZU_STREAM_END"
      using st(3) that avail_in_wf [OF buf_adv_wf [OF wf m(1)]] by simp
    then have v: "decoder_verdict (dec_opts d) tin tout b' False a p' ?st = ?st" for tin tout a p'
      using unlimited_verdict [OF d(3)] by auto
    obtain d' where e: "zu_decoder_process d b flush = Some (?st, d', b')" "dec_opts d' = dec_opts d"
      "dec_vtable d' = dec_vtable d" "dec_finished d' = (?st = ZU_STREAM_END)"
      using c [of "dec_state d"] d wf fl v
      by (auto simp: zu_decoder_process_def buf_wf_check unlimited_window Let_def)
    show thesis
    proof (rule that [of "Dec d'"])
      show "handle_process h b flush = Some (?st, Dec d', b')" using Dec e by (simp add: handle_process_def)
      show "plain_trace f proc (Dec d') (i @ consumed b b') (out @ emitted b b') ?st flush (avail_in b')"
        using d e out st by (simp add: plain_trace_def)
    qed (rule m(1) n)+
  qed
qed

text \<open>A finished handle, and one given no flush mode, stay as they are.\<close>

lemma plain_still:
  assumes tr: "plain_trace f proc h i out st0 fl0 left0" and wf: "buf_wf b"
    and q: "st0 = ZU_STREAM_END \<and> flush = ZU_FINISH \<and> avail_in b = 0 \<or> st0 \<noteq> ZU_STREAM_END \<and> zu_int_check_flush flush \<noteq> ZU_OK"
  shows "\<exists>st. handle_process h b flush = Some (st, h, b) \<and> plain_trace f proc h i out st flush (avail_in b)"
proof (cases h)
  case (Enc e)
  with assms show ?thesis
    by (auto simp: plain_trace_def handle_process_def zu_encoder_process_def buf_wf_check avail_in_wf zu_int_check_flush_def
        split: zu_flush.splits)
next
  case (Dec d)
  with assms show ?thesis
    by (auto simp: plain_trace_def handle_process_def zu_decoder_process_def buf_wf_check avail_in_wf zu_int_check_flush_def
        split: zu_flush.splits)
qed

end

sublocale bytewise \<subseteq> plain: whole_prompt "\<lambda>_. True" "plain_trace f proc"
proof
  fix h i out st0 b flush fl0 left0
  assume tr: "plain_trace f proc h i out st0 fl0 left0" and p: "is_progress st0" and wf: "buf_wf b"
    and fl: "fl0 = ZU_FINISH \<longrightarrow> flush = ZU_FINISH \<and> avail_in b = left0"
  have over: "st0 = ZU_STREAM_END \<Longrightarrow> flush = ZU_FINISH \<and> avail_in b = 0" using tr fl by (auto simp: plain_trace_def)
  show "\<exists>st h' b'. handle_process h b flush = Some (st, h', b') \<and> True \<and> buf_adv b b' \<and>
      plain_trace f proc h' (i @ consumed b b') (out @ emitted b b') st flush (avail_in b')"
  proof (cases "st0 \<noteq> ZU_STREAM_END \<and> zu_int_check_flush flush = ZU_OK")
    case True
    then show ?thesis by (elim conjE, rule_tac plain_call [OF tr p _ wf]) blast+
  next
    case False
    with over have "st0 = ZU_STREAM_END \<and> flush = ZU_FINISH \<and> avail_in b = 0 \<or> st0 \<noteq> ZU_STREAM_END \<and> zu_int_check_flush flush \<noteq> ZU_OK"
      by blast
    from plain_still [OF tr wf this] wf show ?thesis by (auto intro: buf_adv_refl)
  qed
next
  fix h i out st0 b flush st h' b' fl0 left0
  assume tr: "plain_trace f proc h i out st0 fl0 left0" and p: "is_progress st0" and wf: "buf_wf b" and room: "0 < avail_out b"
    and call: "handle_process h b flush = Some (st, h', b')" and st: "is_progress st" "st \<noteq> ZU_STREAM_END"
  show "src_pos b < src_pos b' \<or> dst_pos b < dst_pos b' \<or> st = ZU_NEED_INPUT \<and> avail_in b' = 0"
  proof (cases "st0 \<noteq> ZU_STREAM_END \<and> zu_int_check_flush flush = ZU_OK")
    case True
    then obtain b1 h1 where c: "handle_process h b flush = Some (bytewise_status (avail_in b) (avail_out b) flush, h1, b1)"
      "buf_adv b b1" "length (consumed b b1) = min (avail_in b) (avail_out b)" by (elim conjE) (rule plain_call [OF tr p _ wf])
    then have q: "st = bytewise_status (avail_in b) (avail_out b) flush" "b' = b1" using call by simp_all
    have "src_pos b' - src_pos b = min (avail_in b) (avail_out b)" using consumed_length [OF wf c(2)] c(3) q(2) by simp
    moreover have "avail_in b' = avail_in b - (src_pos b' - src_pos b)"
      using c(2) avail_in_wf [OF wf] avail_in_wf [OF buf_adv_wf [OF wf c(2)]] q(2) by (simp add: buf_adv_def)
    ultimately show ?thesis using room st q(1) by (auto simp: bytewise_status_def split: if_splits)
  next
    case False
    with call st wf tr show ?thesis
      by (cases h) (auto simp: plain_trace_def handle_process_def zu_encoder_process_def zu_decoder_process_def buf_wf_check
          zu_int_check_flush_def split: if_splits zu_flush.splits)
  qed
qed

text \<open>So the loop over such a codec always ends with the image of the whole input.\<close>

lemma roomy_mono: "roomy re k \<Longrightarrow> j \<le> k \<Longrightarrow> roomy re j"
  by (simp add: roomy_def)

context bytewise
begin

lemma plain_whole:
  assumes ok: "whole_opts_ok r" and s: "sink_ok base ob live" "sink_bytes ob = []"
    and h: "handle_new mem reg (whole_opts r) = (ZU_OK, Some h)" "plain_trace f proc h [] [] ZU_OK ZU_RUN 0"
    and env: "roomy re (ro_n r + ro_out_chunk r)" "\<forall>n. \<not> intr n"
  shows "\<exists>(h' :: 's handle) ob' live'. zu_int_run_whole mem re intr reg r ob live = Some (Whole_returned ZU_STREAM_END, handle_free h', ob', live') \<and>
    sink_ok base ob' live' \<and> sink_bytes ob' = map f (ro_src r) \<and> ob_consumed ob' = ro_n r"
proof -
  from plain.whole_run_returns [OF ok s h(1) TrueI h(2), of re intr] obtain e frees ob' live' where
    run: "zu_int_run_whole mem re intr reg r ob live = Some (e, frees, ob', live')" by (metis prod_cases4)
  from plain.whole_run [OF ok s h(1) TrueI h(2) run] obtain h' n where w: "sink_ok base ob' live'" "frees = handle_free h'"
    "plain.whole_ended re intr r e h' n (sink_bytes ob')" "\<forall>st. e = Whole_returned st \<longrightarrow> ob_consumed ob' = n" by blast
  then obtain st fl left where t: "plain_trace f proc h' (take n (ro_src r)) (sink_bytes ob') st fl left" "n \<le> ro_n r"
    and e: "fl = ZU_FINISH \<longrightarrow> ro_n r = n + left" "usual_flush r fl" "whole_cause re intr r e st fl (length (sink_bytes ob'))"
      "e = Whole_returned ZU_STREAM_END \<longrightarrow> st = ZU_STREAM_END"
    unfolding plain.whole_ended_def by blast
  have "length (sink_bytes ob') + ro_out_chunk r \<le> ro_n r + ro_out_chunk r" using t by (simp add: plain_trace_def)
  then have "roomy re (length (sink_bytes ob') + ro_out_chunk r)" using env(1) roomy_mono by blast
  moreover have "zu_int_check_flush fl = ZU_OK" using e(2) by (auto simp: usual_flush_def zu_int_check_flush_def)
  moreover have "is_progress st" "\<not> (st = ZU_NEED_INPUT \<and> fl = ZU_FINISH)" using t(1) calculation(2) by (auto simp: plain_trace_def)
  ultimately have fin: "e = Whole_returned ZU_STREAM_END"
    using e(3) env(2) by (auto simp: whole_cause_def split: whole_end.splits)
  then have "n = ro_n r" using e(1,4) t(1) by (auto simp: plain_trace_def)
  moreover have "ro_n r = length (ro_src r)" using ok by (simp add: whole_opts_ok_def)
  ultimately have "sink_bytes ob' = map f (ro_src r)" "ob_consumed ob' = ro_n r" using t(1) w(4) fin by (simp_all add: plain_trace_def)
  then show ?thesis using run fin w(1,2)
    by (intro exI [where x = h'] exI [where x = ob'] exI [where x = live']) simp
qed

end

subsection \<open>Compression and decompression from R\<close>

definition plain_vtable :: "'s process_fn \<Rightarrow> 's zu_codec_vtable \<Rightarrow> bool" where
  "plain_vtable proc v \<longleftrightarrow> v_codec v < 2 ^ 32 \<and> has_flag (v_flags v) ZU_CAN_ENCODE \<and> has_flag (v_flags v) ZU_CAN_DECODE \<and>
     has_flag (v_flags v) ZU_CAN_FLUSH \<and> v_encoder_process v = Some proc \<and> v_decoder_process v = Some proc \<and>
     (\<forall>os. fst (the (v_encoder_new v) os) = ZU_OK) \<and> (\<forall>os. fst (the (v_decoder_new v) os) = ZU_OK)"

lemma plain_vtables:
  "plain_vtable identity_process zu_int_codec_identity" "plain_vtable xor5a_process xor5a_vtable"
  by (auto simp: plain_vtable_def zu_int_codec_identity_def xor5a_vtable_def zu_flag_bits zu_codec_ids
      identity_encoder_new_def identity_decoder_new_def identity_new_def xor5a_encoder_new_def xor5a_decoder_new_def xor5a_new_def)

lemma plain_handle:
  assumes wf: "registry_wf reg" and v: "v \<in> set (reg_table reg)" "plain_vtable proc v" and c: "ro_codec r = v_codec v"
    and mem: "\<forall>w n. mem w n" and lv: "ro_level r = ZU_LEVEL_DEFAULT"
    and un: "ro_max_output r = 0" "ro_max_ratio r = 0" "ro_expected_size r = 0" "\<not> has_flag (ro_dec_flags r) ZU_DEC_EXPECTED_SIZE"
  shows "\<exists>h. handle_new mem reg (whole_opts r) = (ZU_OK, Some h) \<and> plain_trace f proc h [] [] ZU_OK ZU_RUN 0"
proof -
  have l: "zu_int_registry_lookup reg (ro_codec r) = Some v" using registry_lookup_mem [OF wf v(1)] c by simp
  note p = v(2) [unfolded plain_vtable_def]
  show ?thesis
  proof (cases "ro_encode r")
    case True
    obtain os where os: "whole_opts r = EncOpts os" "eo_struct_size os = 16" "eo_codec os = ro_codec r" "eo_level os = ZU_LEVEL_DEFAULT"
      using True lv by (simp add: whole_opts_def sizeof_zu_encoder_opts_def)
    obtain s where s: "the (v_encoder_new v) (copy_encoder_opts os) = (ZU_OK, s)" using p by (metis prod.collapse)
    have "handle_new mem reg (whole_opts r) =
        (ZU_OK, Some (Enc \<lparr>e_vtable = v, e_state = s, e_opts = copy_encoder_opts os, e_finished = False\<rparr>))"
      using os s l p mem by (simp add: handle_new_def zu_encoder_new_def zu_int_resolve_def zu_int_check_level_def opts_layout)
    then show ?thesis using p by (auto simp: plain_trace_def)
  next
    case False
    obtain os where os: "whole_opts r = DecOpts os" "copy_decoder_opts os = os" "do_max_output os = 0" "do_max_ratio os = 0"
      "do_flags os = ro_dec_flags r"
      using whole_dec_opts [OF False] un p c by auto
    have cs: "do_codec os = ro_codec r" "do_struct_size os = 32"
      using os(1) False by (auto simp: whole_opts_def sizeof_zu_decoder_opts_def)
    obtain s where s: "the (v_decoder_new v) os = (ZU_OK, s)" using p by (metis prod.collapse)
    have "handle_new mem reg (whole_opts r) =
        (ZU_OK, Some (Dec \<lparr>dec_vtable = v, dec_state = s, dec_opts = os, dec_finished = False, total_in = 0, total_out = 0\<rparr>))"
      using os cs s l p mem un by (simp add: handle_new_def zu_decoder_new_def zu_int_check_dec_opts_def zu_int_resolve_def opts_layout)
    then show ?thesis using p os un by (auto simp: plain_trace_def unlimited_def)
  qed
qed

text \<open>An environment in which nothing fails and nobody interrupts.\<close>

definition env_generous :: "r_env \<Rightarrow> bool" where
  "env_generous env \<longleftrightarrow> (\<forall>w n. env_mem env w n) \<and> (\<forall>p n. env_realloc env p n \<noteq> None) \<and> (\<forall>n. \<not> env_interrupt env n) \<and>
     (\<forall>n. env_vector env n)"

lemma sink_return_pair:
  assumes "sink_ok base ob live" "vec (ob_used ob)" "sink_return vec (Whole_returned st, frees, ob, live) = (res, frees', freed, live')"
  shows "res = R_pair st (sink_bytes ob)"
  using assms
  by (cases "ob_buf ob")
    (auto simp: sink_return_def Let_def zu_int_result_def r_return_def sink_bytes_def outbuf_mem_def zu_int_outbuf_release_def sink_ok_def
      split: if_splits)

lemma plain_komp:
  assumes bw: "bytewise f proc" and wf: "registry_wf reg" and v: "v \<in> set (reg_table reg)" "plain_vtable proc v"
    and x: "raw_ok x" and cod: "v_name v = Some (r_char0 r_cod)" and env: "env_generous env"
    and lv: "zu_int_level_from_sexp r_level = (0, ZU_LEVEL_DEFAULT)" and fl: "\<not> has_flag fl ZU_DEC_EXPECTED_SIZE"
  shows "\<exists>frees freed. zu_int_whole env reg x encode r_cod r_level (R_finite 0) 0 fl live =
    Some (R_pair ZU_STREAM_END (map f (x_raw x)), frees, freed, live)"
proof -
  let ?r = "komp_opts x encode (v_codec v) ZU_LEVEL_DEFAULT 0 0 fl"
  have c: "zu_codec_lookup reg (Some (r_char0 r_cod)) = v_codec v" using registered_name_resolves [OF wf v(1)] cod by simp
  have nz: "v_codec v \<noteq> ZU_CODEC_NONE" using wf v(1) by (auto simp: registry_wf_def vtable_ok_def)
  note ok = komp_opts_ok [OF x]
  have e: "\<forall>w n. env_mem env w n" "\<forall>n. \<not> env_interrupt env n" "\<And>n. env_vector env n" "\<forall>p n. env_realloc env p n \<noteq> None"
    using env by (simp_all add: env_generous_def)
  obtain h where h: "handle_new (env_mem env) reg (whole_opts ?r) = (ZU_OK, Some h)" "plain_trace f proc h [] [] ZU_OK ZU_RUN 0"
  proof -
    have "ro_codec ?r = v_codec v" "ro_level ?r = ZU_LEVEL_DEFAULT" "ro_max_output ?r = 0" "ro_max_ratio ?r = 0"
      "ro_expected_size ?r = 0" "\<not> has_flag (ro_dec_flags ?r) ZU_DEC_EXPECTED_SIZE"
      using fl by (simp_all add: komp_opts_def)
    from plain_handle [OF wf v this(1) e(1) this(2-6), where f = f] that show thesis by blast
  qed
  have room: "roomy (env_realloc env) (ro_n ?r + ro_out_chunk ?r)"
    using x e(4) by (simp add: roomy_def komp_opts_def raw_ok_def UINT64_MAX_def)
  obtain h' :: "'a handle" and ob live' where run: "zu_int_run_whole (env_mem env) (env_realloc env) (env_interrupt env) reg ?r
      (zu_int_outbuf_owner outbuf_zero) live = Some (Whole_returned ZU_STREAM_END, handle_free h', ob, live')"
    and s: "sink_ok live ob live'" "sink_bytes ob = map f (ro_src ?r)"
    using bytewise.plain_whole [OF bw ok sink_new h room e(2)] by blast
  obtain res frees freed l where ret: "sink_return (env_vector env) (Whole_returned ZU_STREAM_END, handle_free h', ob, live') = (res, frees, freed, l)"
    by (metis prod_cases4)
  have "res = R_pair ZU_STREAM_END (map f (x_raw x))" using sink_return_pair [OF s(1) e(3) ret] s(2) by (simp add: komp_opts_def)
  moreover have "l = live" using sink_return_released(1) [OF s(1) ret] .
  moreover have "zu_int_u64_from_real (R_finite 0) = (0, 0)" "zu_int_u32_from_int 0 = (0, 0)"
    using u64_from_real_iff [of "R_finite 0" 0] u32_from_int_iff [of 0 0] by simp_all
  ultimately show ?thesis using c nz lv run ret by (simp add: zu_int_whole_def)
qed

definition r_raw :: "byte list \<Rightarrow> sexp" where
  "r_raw bs = R_NilValue\<lparr>x_null := False, x_length := length bs, x_raw := bs\<rparr>"

definition r_string :: "string \<Rightarrow> sexp" where
  "r_string s = R_NilValue\<lparr>x_null := False, x_length := 1, x_strings := Some [Some s]\<rparr>"

definition r_zero :: sexp where
  "r_zero = R_NilValue\<lparr>x_null := False, x_length := 1, x_int := 0, x_real := R_finite 0\<rparr>"

subsection \<open>A demonstration call\<close>

definition demo_env :: r_env where
  "demo_env = \<lparr>env_mem = mem_ok, env_realloc = (\<lambda>p n. Some n), env_interrupt = (\<lambda>n. False), env_vector = (\<lambda>n. True)\<rparr>"

lemma demo_env_generous: "env_generous demo_env"
  by (simp add: env_generous_def demo_env_def mem_ok_def)

lemma demo_raw: "raw_ok (r_raw [1, 2, 3])" "x_raw (r_raw bs) = bs"
  by (simp_all add: raw_ok_def r_raw_def)

lemma demo_string: "r_char0 (r_string s) = s"
  by (simp add: r_char0_def r_string_def)

text \<open>\<^verbatim>\<open>komp_decompress(as.raw(1:3), "identity", 0, 0)\<close>.\<close>

lemma demo_decompress:
  "\<exists>frees freed. zukomp_decompress demo_env demo_reg (r_raw [1, 2, 3]) (r_string ''identity'') r_zero r_zero 0 =
    Some (R_pair ZU_STREAM_END [1, 2, 3], frees, freed, 0)"
proof -
  have v: "zu_int_codec_identity \<in> set (reg_table demo_reg)" "v_name zu_int_codec_identity = Some (r_char0 (r_string ''identity''))"
    by (simp_all add: demo_reg_table demo_string zu_int_codec_identity_def)
  have "zu_int_level_from_sexp R_NilValue = (0, ZU_LEVEL_DEFAULT)" "\<not> has_flag (ZU_DEC_REJECT_TRAILING OR ZU_DEC_CONCAT_MEMBERS) ZU_DEC_EXPECTED_SIZE"
    by (simp_all add: zu_int_level_from_sexp_def R_NilValue_def zu_flag_bits)
  from plain_komp [OF identity.bytewise_axioms demo_reg_wf v(1) plain_vtables(1) demo_raw(1) v(2) demo_env_generous this]
  show ?thesis by (simp add: zukomp_decompress_def r_zero_def demo_raw(2))
qed

lemma call_releases:
  assumes "decoders_ok I reg" "encoders_ok J reg" "raw_ok x"
    and "zu_int_whole env reg x encode r_cod r_level mo mr fl live = Some (res, frees, freed, live')"
  shows "live' = live \<and> length freed \<le> 1 \<and> (frees = [] \<or> (\<exists>h. handle_inv I J h \<and> frees = handle_free h))"
  using komp_cases [OF assms(4)]
proof (elim disjE exE conjE)
  fix level m k e ob l
  assume run: "zu_int_run_whole (env_mem env) (env_realloc env) (env_interrupt env) reg
      (komp_opts x encode (zu_codec_lookup reg (Some (r_char0 r_cod))) level m k fl) (zu_int_outbuf_owner outbuf_zero) live =
      Some (e, frees, ob, l)" and ret: "sink_return (env_vector env) (e, frees, ob, l) = (res, frees, freed, live')"
  from run_whole_released [OF komp_opts_ok [OF assms(3)] assms(1,2) sink_new run]
  have r: "sink_ok live ob l" "frees = [] \<or> (\<exists>h. handle_inv I J h \<and> frees = handle_free h)" by blast+
  from sink_return_released [OF r(1) ret] r(2) show ?thesis by (auto split: option.splits prod.splits)
qed simp_all



text \<open>C15: for the identity and xor5a codecs, komp_compress() of any raw vector returns, and komp_decompress() of what it
  returned returns the original vector, whatever the sizes of the inner buffers, and nothing stays allocated.\<close>

theorem komp_plain_round_trip:
  assumes "registry_wf reg" "v \<in> set (reg_table reg)" "v = zu_int_codec_identity \<or> v = xor5a_vtable"
    and "raw_ok x" "v_name v = Some (r_char0 codec)" "env_generous env"
  shows "\<exists>z frees freed frees' freed'.
    zukomp_compress env reg x codec R_NilValue live = Some (R_pair ZU_STREAM_END z, frees, freed, live) \<and>
    zukomp_decompress env reg (r_raw z) codec r_zero r_zero live = Some (R_pair ZU_STREAM_END (x_raw x), frees', freed', live)"
proof -
  obtain f proc where p: "bytewise f proc" "plain_vtable proc v" "\<And>x. f (f x) = x"
  proof (cases "v = zu_int_codec_identity")
    case True
    with that [of id identity_process] plain_vtables(1) identity.bytewise_axioms show ?thesis by simp
  next
    case False
    with that [of "\<lambda>x. x XOR XOR_KEY" xor5a_process] plain_vtables(2) xor5a.bytewise_axioms assms(3) show ?thesis
      by (simp add: xor.assoc)
  qed
  note K = plain_komp [OF p(1) assms(1,2) p(2) _ assms(5,6)]
  have lv: "zu_int_level_from_sexp R_NilValue = (0, ZU_LEVEL_DEFAULT)" by (simp add: zu_int_level_from_sexp_def R_NilValue_def)
  have z: "raw_ok (r_raw (map f (x_raw x)))" "x_raw (r_raw (map f (x_raw x))) = map f (x_raw x)"
    using assms(4) by (simp_all add: raw_ok_def r_raw_def)
  have r0: "x_real r_zero = R_finite 0" "x_int r_zero = 0" by (simp_all add: r_zero_def)
  have ff: "map f (map f (x_raw x)) = x_raw x" by (simp add: p(3) comp_def)
  have fl: "\<not> has_flag 0 ZU_DEC_EXPECTED_SIZE" "\<not> has_flag (ZU_DEC_REJECT_TRAILING OR ZU_DEC_CONCAT_MEMBERS) ZU_DEC_EXPECTED_SIZE"
    by (simp_all add: zu_flag_bits)
  from K [OF assms(4) lv fl(1)] K [OF z(1) lv fl(2), unfolded z(2) ff] show ?thesis
    unfolding zukomp_compress_def zukomp_decompress_def r0 by blast
qed

theorem komp_plain_round_trip_witness:
  "\<exists>z frees freed frees' freed'.
    zukomp_compress demo_env demo_reg (r_raw [1, 2, 3]) (r_string ''identity'') R_NilValue 0 = Some (R_pair ZU_STREAM_END z, frees, freed, 0) \<and>
    zukomp_decompress demo_env demo_reg (r_raw z) (r_string ''identity'') r_zero r_zero 0 =
      Some (R_pair ZU_STREAM_END (x_raw (r_raw [1, 2, 3])), frees', freed', 0)"
proof (rule komp_plain_round_trip [OF demo_reg_wf _ _ demo_raw(1) _ demo_env_generous])
  show "zu_int_codec_identity \<in> set (reg_table demo_reg)" "zu_int_codec_identity = zu_int_codec_identity \<or> zu_int_codec_identity = xor5a_vtable"
    "v_name zu_int_codec_identity = Some (r_char0 (r_string ''identity''))"
    by (simp_all add: demo_reg_table demo_string zu_int_codec_identity_def)
qed

subsection \<open>Decompression from R\<close>

definition codecs_32 :: "'s zu_registry \<Rightarrow> bool" where
  "codecs_32 reg \<longleftrightarrow> (\<forall>v \<in> set (reg_table reg). v_codec v < 2 ^ 32)"

lemma lookup_32:
  assumes "codecs_32 reg"
  shows "zu_codec_lookup reg n < 2 ^ 32"
proof -
  have "\<forall>d \<in> set zu_int_declared. d_codec d < 2 ^ 32" by (simp add: zu_int_declared_def zu_codec_ids)
  then show ?thesis using assms
    by (auto simp: zu_codec_lookup_def codecs_32_def ZU_CODEC_NONE_def dest!: find_Some_mem split: option.splits)
qed

lemma komp_decoder:
  assumes c: "codecs_32 reg" and b: "m \<le> 2 ^ 53" "k < 2 ^ 32"
    and run: "zu_int_run_whole mem re intr reg (komp_opts x False (zu_codec_lookup reg n) level m k fl) ob live = q"
  obtains os where "whole_opts (komp_opts x False (zu_codec_lookup reg n) level m k fl) = DecOpts os" "copy_decoder_opts os = os"
    "do_max_output os = m" "do_max_ratio os = k" "do_flags os = fl"
proof -
  let ?r = "komp_opts x False (zu_codec_lookup reg n) level m k fl"
  have "\<not> ro_encode ?r" "ro_codec ?r < 2 ^ 32" "ro_max_output ?r \<le> UINT64_MAX" "ro_max_ratio ?r < 2 ^ 32" "ro_expected_size ?r \<le> UINT64_MAX"
    using lookup_32 [OF c, of n] b by (simp_all add: komp_opts_def UINT64_MAX_def)
  from whole_dec_opts [OF this] that show thesis by (auto simp: komp_opts_def)
qed

text \<open>What a successful \<^verbatim>\<open>komp_decompress()\<close> promises: its bytes are what a session of the named decoder
  delivered, under the limits the caller gave.\<close>

definition decompressed :: "alloc \<Rightarrow> 's zu_registry \<Rightarrow> nat \<Rightarrow> nat \<Rightarrow> byte list \<Rightarrow> byte list \<Rightarrow> bool" where
  "decompressed mem reg m k z y \<longleftrightarrow>
     (\<exists>d n. decoder_session mem reg d (take n z) y \<and> n \<le> length z \<and> do_max_output (dec_opts d) = m \<and> do_max_ratio (dec_opts d) = k \<and>
       (m \<noteq> 0 \<longrightarrow> length y \<le> m) \<and> (k \<noteq> 0 \<longrightarrow> length y \<le> UINT64_MAX \<longrightarrow> length y \<le> n * k) \<and>
       (length z \<le> 64 * 1024 \<longrightarrow> n = length z))"

text \<open>A codec that cannot create a decoder says so with an error.\<close>

definition decoder_news_ok :: "'s zu_registry \<Rightarrow> bool" where
  "decoder_news_ok reg \<longleftrightarrow>
     (\<forall>v \<in> set (reg_table reg). \<forall>os. fst (the (v_decoder_new v) os) = ZU_OK \<or> \<not> is_progress (fst (the (v_decoder_new v) os)))"

lemma decoder_new_fails:
  assumes "decoder_news_ok reg" "handle_new mem reg (DecOpts os) = (st, None)"
  shows "\<not> is_progress st"
proof -
  have e: "zu_decoder_new mem reg os = (st, None)"
    using assms(2) by (cases "zu_decoder_new mem reg os") (simp add: handle_new_def)
  show ?thesis
  proof (cases "zu_int_registry_lookup reg (do_codec os)")
    case None
    with e show ?thesis by (auto simp: zu_decoder_new_def zu_int_resolve_def split: if_splits)
  next
    case (Some v)
    then have "v \<in> set (reg_table reg)" by (simp add: registry_lookup_Some)
    with assms(1) have "fst (the (v_decoder_new v) o') = ZU_OK \<or> \<not> is_progress (fst (the (v_decoder_new v) o'))" for o'
      by (simp add: decoder_news_ok_def)
    from this [of "copy_decoder_opts os"] e Some show ?thesis
      by (auto simp: zu_decoder_new_def zu_int_resolve_def Let_def split: if_splits prod.splits)
  qed
qed

lemma decompress_exact:
  assumes "decoders_ok I reg" "decoder_news_ok reg" "codecs_32 reg" "raw_ok x" "x_int r_ratio < 2 ^ 31"
    and "zukomp_decompress env reg x codec r_max r_ratio live = Some (R_pair ZU_STREAM_END y, frees, freed, live')"
  shows "\<exists>m k. x_real r_max = R_finite (of_nat m) \<and> x_int r_ratio = int k \<and> decompressed (env_mem env) reg m k (x_raw x) y"
proof -
  let ?fl = "ZU_DEC_REJECT_TRAILING OR ZU_DEC_CONCAT_MEMBERS" and ?c = "zu_codec_lookup reg (Some (r_char0 codec))"
  from komp_cases [OF assms(6) [unfolded zukomp_decompress_def]] obtain level m k e ob l where
    n: "x_real r_max = R_finite (of_nat m)" "m \<le> 2 ^ 53" "x_int r_ratio = int k"
    and run: "zu_int_run_whole (env_mem env) (env_realloc env) (env_interrupt env) reg (komp_opts x False ?c level m k ?fl)
        (zu_int_outbuf_owner outbuf_zero) live = Some (e, frees, ob, l)"
    and ret: "sink_return (env_vector env) (e, frees, ob, l) = (R_pair ZU_STREAM_END y, frees, freed, live')"
    by auto
  let ?r = "komp_opts x False ?c level m k ?fl"
  have k: "k < 2 ^ 32" using assms(5) n(3) by simp
  obtain os where os: "whole_opts ?r = DecOpts os" "copy_decoder_opts os = os" "do_max_output os = m" "do_max_ratio os = k" "do_flags os = ?fl"
    by (rule komp_decoder [OF assms(3) n(2) k run])
  note ok = komp_opts_ok [OF assms(4), of False ?c level m k ?fl]
  have nz: "ro_in_chunk ?r \<noteq> 0" "ro_out_chunk ?r \<noteq> 0" by (simp_all add: komp_opts_def)
  show ?thesis
  proof (cases "snd (handle_new (env_mem env) reg (whole_opts ?r))")
    case None
    then obtain st where "handle_new (env_mem env) reg (whole_opts ?r) = (st, None)" by (metis prod.collapse)
    then have q: "handle_new (env_mem env) reg (DecOpts os) = (st, None)" "e = Whole_returned st" "ob = zu_int_outbuf_owner outbuf_zero" "l = live"
      using run nz os(1) by (auto simp: zu_int_run_whole_def)
    have "st = ZU_STREAM_END" using sink_return_released(4) [OF _ ret refl, of live] sink_new(1) q(2-4) by simp
    with decoder_new_fails [OF assms(2) q(1)] show ?thesis by simp
  next
    case (Some h)
    then have h: "handle_new (env_mem env) reg (whole_opts ?r) = (ZU_OK, Some h)" using handle_new_status by (metis prod.collapse)
    have hinv: "session_hinv I reg h" using assms(1) by (simp add: session_hinv_def)
    have tr: "session_trace (env_mem env) reg os h [] [] ZU_OK ZU_RUN 0" using session_trace_new [OF h [unfolded os(1)] os(2)] .
    from whole_session.whole_run [OF ok sink_new h hinv tr run] obtain h' n' where
      s: "sink_ok live ob l" and w: "whole_session.whole_ended I reg (env_mem env) os (env_realloc env) (env_interrupt env) ?r e h' n' (sink_bytes ob)"
      by blast
    from sink_return_released(4) [OF s ret refl] have e: "e = Whole_returned ZU_STREAM_END" "y = sink_bytes ob" by simp_all
    from w obtain fl left where t: "n' \<le> ro_n ?r" "session_trace (env_mem env) reg os h' (take n' (ro_src ?r)) y ZU_STREAM_END fl left"
      "fl = ZU_FINISH \<longrightarrow> ro_n ?r = n' + left" "ro_n ?r \<le> ro_in_chunk ?r \<longrightarrow> fl = ZU_FINISH"
      unfolding whole_session.whole_ended_def e by blast
    then obtain d where d: "decoder_session (env_mem env) reg d (take n' (x_raw x)) y" "dec_opts d = os"
      "ratio_kept os ZU_STREAM_END (take n' (x_raw x)) y" "left = 0"
      using os(5) by (auto simp: session_trace_def komp_opts_def zu_flag_bits)
    have len: "n' \<le> length (x_raw x)" "length (x_raw x) \<le> UINT64_MAX" using t(1) assms(4) by (simp_all add: komp_opts_def raw_ok_def UINT64_MAX_def)
    have cap: "m \<noteq> 0 \<longrightarrow> length y \<le> m" using session_capped(1) [OF assms(1) d(1)] d(2) os(3) by simp
    have rat: "k \<noteq> 0 \<longrightarrow> length y \<le> UINT64_MAX \<longrightarrow> length y \<le> n' * k"
      using d(3) os(4) len by (simp add: ratio_kept_def)
    have all: "length (x_raw x) \<le> 64 * 1024 \<longrightarrow> n' = length (x_raw x)"
      using t(3,4) d(4) assms(4) by (simp add: komp_opts_def raw_ok_def)
    from d(1,2) len(1) os(3,4) cap rat all have "decompressed (env_mem env) reg m k (x_raw x) y"
      unfolding decompressed_def by blast
    with n show ?thesis by blast
  qed
qed



lemma call_returns:
  assumes "decoders_prompt I reg" "encoders_prompt J reg" "raw_ok x"
  shows "\<exists>res. zu_int_whole env reg x encode r_cod r_level mo mr fl live = Some res"
proof -
  let ?c = "zu_codec_lookup reg (Some (r_char0 r_cod))" and ?ob = "zu_int_outbuf_owner outbuf_zero"
  have run: "\<exists>q. zu_int_run_whole (env_mem env) (env_realloc env) (env_interrupt env) reg (komp_opts x encode ?c level m k fl) ?ob live = Some q"
    for level m k
  proof -
    let ?r = "komp_opts x encode ?c level m k fl"
    have nz: "ro_in_chunk ?r \<noteq> 0" "ro_out_chunk ?r \<noteq> 0" by (simp_all add: komp_opts_def)
    obtain st oh where n: "handle_new (env_mem env) reg (whole_opts ?r) = (st, oh)" by fastforce
    show ?thesis
    proof (cases oh)
      case None
      with n nz show ?thesis by (simp add: zu_int_run_whole_def)
    next
      case (Some h)
      with n have h: "handle_new (env_mem env) reg (whole_opts ?r) = (ZU_OK, Some h)" using handle_new_status by metis
      from whole_prompted.whole_run_returns [OF komp_opts_ok [OF assms(3)] sink_new h handle_new_prompt [OF assms(1,2) h] TrueI]
      show ?thesis .
    qed
  qed
  then have "zu_int_run_whole (env_mem env) (env_realloc env) (env_interrupt env) reg (komp_opts x encode ?c level m k fl) ?ob live \<noteq> None"
    for level m k by fastforce
  then have "zu_int_whole env reg x encode r_cod r_level mo mr fl live \<noteq> None"
    by (simp add: zu_int_whole_def Let_def del: not_None_eq split: prod.splits)
  then show ?thesis by simp
qed

text \<open>Komp_compress() and komp_decompress() return on every input, with a limit on the output or without, whenever the
  registered codecs are prompt (a call that neither moves a cursor nor fails asks for more of an exhausted window).\<close>

theorem komp_returns:
  assumes "decoders_prompt I reg" "encoders_prompt J reg" "raw_ok x"
  shows "\<exists>res. zu_int_whole env reg x encode r_cod r_level mo mr fl live = Some res"
  by (rule call_returns [OF assms])

theorem komp_returns_witness:
  "\<exists>res. zu_int_whole demo_env demo_reg (r_raw [1, 2, 3]) True (r_string ''xor5a'') R_NilValue (R_finite 0) 0 0 0 = Some res"
proof (rule komp_returns)
  show "decoders_prompt (\<lambda>_ _. True) demo_reg" "encoders_prompt (\<lambda>_ _. True) demo_reg"
    by (simp_all add: decoders_prompt_def encoders_prompt_def demo_reg_table identity_prompt.prompt_decoder_axioms
        xor5a_prompt.prompt_decoder_axioms identity_enc_prompt.prompt_encoder_axioms xor5a_enc_prompt.prompt_encoder_axioms)
qed (simp add: demo_raw)

subsection \<open>What R asks of the registry\<close>

lemma find_by_key: "distinct (map f xs) \<Longrightarrow> d \<in> set xs \<Longrightarrow> find (\<lambda>x. f x = f d) xs = Some d"
  by (induction xs) force+

lemma declared_ids: "distinct (map d_codec zu_int_declared)" "distinct (map d_name zu_int_declared)"
  by code_simp+

lemma declared_ids_set: "list_all (\<lambda>d. d_codec d \<noteq> ZU_CODEC_NONE) zu_int_declared"
  by code_simp

lemma declared_lookup:
  assumes "d \<in> set zu_int_declared"
  shows "zu_codec_lookup reg (Some (d_name d)) = d_codec d"
  using find_by_key [OF declared_ids(2) assms] by (simp add: zu_codec_lookup_def)

lemma table_row_name:
  assumes wf: "registry_wf reg" and r: "row \<in> set (zukomp_codec_table reg)"
  obtains n where "cr_id row = Some n" "zu_codec_lookup reg (Some n) \<noteq> ZU_CODEC_NONE"
    "cr_available row = zu_codec_available reg (zu_codec_lookup reg (Some n))"
proof -
  from r consider (declared) d where "d \<in> set zu_int_declared" "row = codec_table_row (Some d) (zu_int_registry_lookup reg (d_codec d))"
    | (other) v where "v \<in> set (reg_table reg)" "row = codec_table_row None (Some v)"
    unfolding codec_table_split by auto
  then show thesis
  proof cases
    case declared
    note l = declared_lookup [OF declared(1), of reg] and nz = declared_ids_set [unfolded list_all_iff, rule_format, OF declared(1)]
    show thesis
    proof (cases "zu_int_registry_lookup reg (d_codec d)")
      case None
      with declared l nz show thesis by (intro that [of "d_name d"]) (simp_all add: codec_table_row_def zu_codec_available_def)
    next
      case (Some v)
      then have v: "v \<in> set (reg_table reg)" "v_codec v = d_codec d" by (simp_all add: registry_lookup_Some)
      have "zu_int_declared_for (d_codec d) = Some d" using find_by_key [OF declared_ids(1) declared(1)] by (simp add: zu_int_declared_for_def)
      with v wf have "v_name v = Some (d_name d)" by (auto simp: registry_wf_def vtable_ok_def)
      with Some declared l nz show thesis
        by (intro that [of "d_name d"]) (simp_all add: codec_table_row_def zu_codec_available_def Let_def)
    qed
  next
    case other
    with wf obtain n where n: "v_name v = Some n" "v_codec v \<noteq> ZU_CODEC_NONE" by (auto simp: registry_wf_def vtable_ok_def)
    with registered_name_resolves [OF wf other(1)] registry_lookup_mem [OF wf other(1)] other show thesis
      by (intro that [of n]) (simp_all add: codec_table_row_def zu_codec_available_def Let_def)
  qed
qed

text \<open>The name a row has, whether it is in the registry or only declared.\<close>

lemma table_ids:
  assumes wf: "registry_wf reg"
  shows "map cr_id (zukomp_codec_table reg) =
    map (\<lambda>d. Some (d_name d)) zu_int_declared @ map v_name (filter (\<lambda>v. zu_int_declared_for (v_codec v) = None) (reg_table reg))"
proof -
  have "cr_id (codec_table_row (Some d) (zu_int_registry_lookup reg (d_codec d))) = Some (d_name d)" if d: "d \<in> set zu_int_declared" for d
  proof (cases "zu_int_registry_lookup reg (d_codec d)")
    case (Some v)
    then have v: "v \<in> set (reg_table reg)" "v_codec v = d_codec d" by (simp_all add: registry_lookup_Some)
    have "zu_int_declared_for (d_codec d) = Some d" using find_by_key [OF declared_ids(1) d] by (simp add: zu_int_declared_for_def)
    with v wf Some show ?thesis by (auto simp: registry_wf_def vtable_ok_def codec_table_row_def Let_def)
  qed (simp add: codec_table_row_def)
  then show ?thesis unfolding codec_table_split by (simp add: codec_table_row_def Let_def)
qed

text \<open>A registered codec outside the declared table shares no name with it or with another.\<close>

lemma undeclared_names:
  assumes wf: "registry_wf reg"
  shows "distinct (map v_name (filter (\<lambda>v. zu_int_declared_for (v_codec v) = None) (reg_table reg)))"
    "v \<in> set (reg_table reg) \<Longrightarrow> zu_int_declared_for (v_codec v) = None \<Longrightarrow> d \<in> set zu_int_declared \<Longrightarrow> v_name v \<noteq> Some (d_name d)"
    "v \<in> set (reg_table reg) \<Longrightarrow> zu_int_declared_for (v_codec v) = Some d \<Longrightarrow> v_name v = Some (d_name d) \<and> d \<in> set zu_int_declared"
proof -
  have "sorted_wrt vtables_apart (reg_table reg)" using wf by (simp add: registry_wf_def)
  then have "sorted_wrt (\<lambda>v w. v_name v \<noteq> v_name w) (reg_table reg)"
    by (rule sorted_wrt_mono_rel [rotated]) (simp add: vtables_apart_def)
  moreover have "sorted_wrt (\<lambda>v w. v_name v \<noteq> v_name w) vs \<Longrightarrow> distinct (map v_name vs)" for vs :: "'a zu_codec_vtable list"
    by (induction vs) auto
  ultimately have "distinct (map v_name (reg_table reg))" by blast
  then show "distinct (map v_name (filter (\<lambda>v. zu_int_declared_for (v_codec v) = None) (reg_table reg)))"
    by (rule distinct_map_filter)
next
  assume v: "v \<in> set (reg_table reg)" "zu_int_declared_for (v_codec v) = None" "d \<in> set zu_int_declared"
  then have "d_codec d \<noteq> v_codec v" by (auto simp: zu_int_declared_for_def find_None_iff)
  with v wf show "v_name v \<noteq> Some (d_name d)" by (auto simp: registry_wf_def vtable_ok_def)
next
  assume v: "v \<in> set (reg_table reg)" "zu_int_declared_for (v_codec v) = Some d"
  with wf declared_for_mem [OF v(2)] show "v_name v = Some (d_name d) \<and> d \<in> set zu_int_declared"
    by (auto simp: registry_wf_def vtable_ok_def)
qed

text \<open>C17: the codec table of R has one row for every declared codec and every registered one, no name
  twice, and every row says of its name what the registry says: whether the codec it resolves to is available.\<close>

theorem codec_table_exact:
  assumes wf: "registry_wf reg"
  shows "distinct (map cr_id (zukomp_codec_table reg)) \<and>
    set (map cr_id (zukomp_codec_table reg)) = {Some (d_name d) |d. d \<in> set zu_int_declared} \<union> {v_name v |v. v \<in> set (reg_table reg)} \<and>
    list_all (\<lambda>row. zukomp_codec_available reg (r_string (the (cr_id row))) = Some (cr_available row)) (zukomp_codec_table reg)"
proof (intro conjI)
  let ?us = "filter (\<lambda>v. zu_int_declared_for (v_codec v) = None) (reg_table reg)"
  note un = undeclared_names [OF wf]
  have "distinct (map (\<lambda>d. Some (d_name d)) zu_int_declared)"
    using declared_ids(2) by (simp add: distinct_map inj_on_def)
  moreover have "set (map (\<lambda>d. Some (d_name d)) zu_int_declared) \<inter> set (map v_name ?us) = {}" using un(2) by fastforce
  ultimately show "distinct (map cr_id (zukomp_codec_table reg))"
    unfolding table_ids [OF wf] using un(1) by (simp only: distinct_append)
  show "set (map cr_id (zukomp_codec_table reg)) = {Some (d_name d) |d. d \<in> set zu_int_declared} \<union> {v_name v |v. v \<in> set (reg_table reg)}"
  proof (rule set_eqI)
    fix n
    show "n \<in> set (map cr_id (zukomp_codec_table reg)) \<longleftrightarrow>
        n \<in> {Some (d_name d) |d. d \<in> set zu_int_declared} \<union> {v_name v |v. v \<in> set (reg_table reg)}"
      unfolding table_ids [OF wf] using un(3) by (auto simp: image_iff) (metis not_None_eq)
  qed
  show "list_all (\<lambda>row. zukomp_codec_available reg (r_string (the (cr_id row))) = Some (cr_available row)) (zukomp_codec_table reg)"
    unfolding list_all_iff
  proof
    fix row assume "row \<in> set (zukomp_codec_table reg)"
    then obtain n where "cr_id row = Some n" "zu_codec_lookup reg (Some n) \<noteq> ZU_CODEC_NONE"
      "cr_available row = zu_codec_available reg (zu_codec_lookup reg (Some n))" by (rule table_row_name [OF wf])
    then show "zukomp_codec_available reg (r_string (the (cr_id row))) = Some (cr_available row)"
      by (simp add: zukomp_codec_available_def zu_int_codec_from_sexp_def r_string_def)
  qed
qed

theorem codec_table_exact_witness:
  "length (zukomp_codec_table demo_reg) = 11 \<and> distinct (map cr_id (zukomp_codec_table demo_reg))"
  using codec_table_exact [OF demo_reg_wf]
  by (simp add: zukomp_codec_table_def demo_reg_table zu_int_declared_count_def zu_int_declared_def zu_int_declared_for_def
      zu_int_codec_identity_def xor5a_vtable_def zu_codec_ids)

text \<open>The three numbers of a call that the C types cannot hold: a level that is \<^verbatim>\<open>NA\<close>, a limit that is not a whole
  number from 0 to \<open>2 ^ 53\<close>, a missing or negative ratio.\<close>

definition unrepresentable :: "sexp \<Rightarrow> r_real \<Rightarrow> int \<Rightarrow> bool" where
  "unrepresentable level max_output max_ratio \<longleftrightarrow>
     \<not> x_null level \<and> x_length level \<noteq> 0 \<and> x_int level = NA_INTEGER \<or>
     (\<forall>n \<le> 2 ^ 53. max_output \<noteq> R_finite (of_nat n)) \<or> max_ratio < 0"

text \<open>C16: compression and decompression refuse, before anything is allocated, exactly the numbers that the C types
  cannot hold with \<^const>\<open>ZU_ERR_INVALID_ARGUMENT\<close>, and then a codec name nobody knows with \<^const>\<open>ZU_ERR_UNSUPPORTED\<close>;
  nothing is created, freed or counted.\<close>

theorem komp_refuses:
  assumes "unrepresentable level max_output max_ratio \<or> zu_codec_lookup reg (Some (r_char0 codec)) = ZU_CODEC_NONE" "env_vector env 0"
  shows "zu_int_whole env reg x encode codec level max_output max_ratio fl live =
    Some (R_pair (if unrepresentable level max_output max_ratio then ZU_ERR_INVALID_ARGUMENT else ZU_ERR_UNSUPPORTED) [], [], [], live)"
proof -
  obtain c1 lv where L: "zu_int_level_from_sexp level = (c1, lv)" by fastforce
  obtain c2 m where M: "zu_int_u64_from_real max_output = (c2, m)" by fastforce
  obtain c3 k where K: "zu_int_u32_from_int max_ratio = (c3, k)" by fastforce
  have l: "c1 \<noteq> 0 \<longleftrightarrow> \<not> x_null level \<and> x_length level \<noteq> 0 \<and> x_int level = NA_INTEGER"
    using L by (auto simp: zu_int_level_from_sexp_def split: if_splits)
  have m: "c2 \<noteq> 0 \<longleftrightarrow> (\<forall>n \<le> 2 ^ 53. max_output \<noteq> R_finite (of_nat n))"
    using u64_from_real_iff [of max_output] M by (metis prod.inject)
  have k: "c3 \<noteq> 0 \<longleftrightarrow> max_ratio < 0"
    using K by (auto simp: zu_int_u32_from_int_def NA_INTEGER_def split: if_splits)
  have u: "unrepresentable level max_output max_ratio \<longleftrightarrow> c1 \<noteq> 0 \<or> c2 \<noteq> 0 \<or> c3 \<noteq> 0"
    unfolding unrepresentable_def using l m k by blast
  show ?thesis
  proof (cases "c1 \<noteq> 0 \<or> c2 \<noteq> 0 \<or> c3 \<noteq> 0")
    case True
    with u L M K assms(2) show ?thesis by (auto simp: zu_int_whole_def zu_int_result_def r_return_def Let_def)
  next
    case False
    with u L M K assms show ?thesis by (auto simp: zu_int_whole_def zu_int_result_def r_return_def Let_def)
  qed
qed

theorem komp_refuses_witness:
  "zu_int_whole demo_env demo_reg (r_raw [1, 2, 3]) False (r_string ''identity'') R_NilValue (R_finite (- 1)) 0 0 0 =
    Some (R_pair ZU_ERR_INVALID_ARGUMENT [], [], [], 0)"
proof -
  have "R_finite (- 1) \<noteq> R_finite (of_nat n)" for n by (simp add: eq_neg_iff_add_eq_0)
  then have u: "unrepresentable R_NilValue (R_finite (- 1)) 0" by (simp add: unrepresentable_def)
  then show ?thesis
    using komp_refuses [of R_NilValue "R_finite (- 1)" 0 demo_reg "r_string ''identity''" demo_env "r_raw [1, 2, 3]" False 0 0]
    by (simp add: demo_env_def)
qed

end
