(* ===== verification/Zu_Komp_Runs.thy ===== *)
theory Zu_Komp_Runs
  imports Zu_Komp
begin

unbundle bit_operations_syntax

text \<open>
  Compression and decompression from R as a run of the codec: when \<^verbatim>\<open>zukomp_compress\<close> or \<^verbatim>\<open>zukomp_decompress\<close>
  report the end of the stream, a fresh state of the registered codec of that name has taken the bytes of the vector and
  delivered what R gets, in some sequence of calls. The locale \<open>invertible_codec\<close> says what that asks of a codec to
  make compression and decompression a round trip.
\<close>

subsection \<open>A new handle\<close>

lemma encoder_new_call:
  assumes "zu_encoder_new m reg os = (ZU_OK, Some e)" "zu_int_registry_lookup reg (eo_codec os) = Some v"
  shows "the (v_encoder_new v) (copy_encoder_opts os) = (ZU_OK, e_state e)" "e_vtable e = v" "\<not> e_finished e"
  using assms by (auto simp: zu_encoder_new_def zu_int_resolve_def Let_def split: if_splits prod.splits)

lemma decoder_new_call:
  assumes "zu_decoder_new m reg os = (ZU_OK, Some d)" "zu_int_registry_lookup reg (do_codec os) = Some v"
  shows "the (v_decoder_new v) (copy_decoder_opts os) = (ZU_OK, dec_state d)" "dec_vtable d = v" "\<not> dec_finished d"
  using assms by (auto simp: zu_decoder_new_def zu_int_resolve_def Let_def split: if_splits prod.splits)

text \<open>A codec that makes a state when it succeeds; \<open>fin\<close> marks the states that have seen the end of the input, and for
  \<open>K = 0\<close> says nothing.\<close>

definition starts_fresh :: "nat \<Rightarrow> ('o \<Rightarrow> zu_status \<times> 's option) \<Rightarrow> ('s \<Rightarrow> bool) \<Rightarrow> bool" where
  "starts_fresh K nw fin \<longleftrightarrow>
     (\<forall>os st so. nw os = (st, so) \<longrightarrow> st \<noteq> ZU_STREAM_END \<and> (st = ZU_OK \<longrightarrow> (\<exists>s. so = Some s \<and> (K = 0 \<or> \<not> fin s))))"

lemma starts_freshD:
  assumes "starts_fresh K nw fin"
  shows "nw os = (st, so) \<Longrightarrow> st \<noteq> ZU_STREAM_END" "nw os = (ZU_OK, so) \<Longrightarrow> \<exists>s. so = Some s \<and> (K = 0 \<or> \<not> fin s)"
  using assms unfolding starts_fresh_def by blast+

lemma encoder_handle_trace:
  assumes ec: "encoder_codec J v" and st: "starts_fresh K (the (v_encoder_new v)) fin" and k: "finishes K J fin (the (v_encoder_process v))"
    and n: "zu_encoder_new m reg os = (ZU_OK, Some e)" "zu_int_registry_lookup reg (eo_codec os) = Some v"
  shows "\<exists>s0. the (v_encoder_new v) (copy_encoder_opts os) = (ZU_OK, Some s0) \<and> codec_hinv K (\<lambda>_ _. True) (\<lambda>_. J) v fin (Enc e) \<and>
    codec_trace K v fin (the (v_encoder_process v)) s0 (Enc e) [] [] ZU_OK ZU_RUN 0"
proof -
  note nc = encoder_new_call [OF n]
  from starts_freshD(2) [OF st nc(1)] obtain s0 where s0: "e_state e = Some s0" "K = 0 \<or> \<not> fin s0" by blast
  have "encoder_inv J v e" by (rule encoder_codec.new_encoder_inv [OF ec n(1) nc(2)])
  then have "codec_hinv K (\<lambda>_ _. True) (\<lambda>_. J) v fin (Enc e)" using ec nc(2) k by (simp add: codec_hinv_def handle_inv_def)
  moreover have "codec_trace K v fin (the (v_encoder_process v)) s0 (Enc e) [] [] ZU_OK ZU_RUN 0"
    unfolding codec_trace_def using nc(2,3) s0
    by (intro exI [where x = s0] exI [where x = ZU_OK] exI [where x = False]) (auto simp: codec_run.start input_ended_def)
  ultimately show ?thesis using nc(1) s0(1) by auto
qed

lemma decoder_handle_trace:
  assumes dc: "decoder_codec I v" and st: "starts_fresh K (the (v_decoder_new v)) fin" and k: "finishes K I fin (the (v_decoder_process v))"
    and n: "zu_decoder_new m reg os = (ZU_OK, Some d)" "zu_int_registry_lookup reg (do_codec os) = Some v"
  shows "\<exists>s0. the (v_decoder_new v) (copy_decoder_opts os) = (ZU_OK, Some s0) \<and> codec_hinv K (\<lambda>_. I) (\<lambda>_ _. True) v fin (Dec d) \<and>
    codec_trace K v fin (the (v_decoder_process v)) s0 (Dec d) [] [] ZU_OK ZU_RUN 0"
proof -
  note nc = decoder_new_call [OF n]
  from starts_freshD(2) [OF st nc(1)] obtain s0 where s0: "dec_state d = Some s0" "K = 0 \<or> \<not> fin s0" by blast
  have "decoder_inv I v d" by (rule decoder_codec.new_decoder_inv [OF dc n(1) nc(2)])
  then have "codec_hinv K (\<lambda>_. I) (\<lambda>_ _. True) v fin (Dec d)" using dc nc(2) k by (simp add: codec_hinv_def handle_inv_def)
  moreover have "codec_trace K v fin (the (v_decoder_process v)) s0 (Dec d) [] [] ZU_OK ZU_RUN 0"
    unfolding codec_trace_def using nc(2,3) s0
    by (intro exI [where x = s0] exI [where x = ZU_OK] exI [where x = False]) (auto simp: codec_run.start input_ended_def)
  ultimately show ?thesis using nc(1) s0(1) by auto
qed

subsection \<open>A call from R\<close>

text \<open>A call that yields \<^const>\<open>ZU_STREAM_END\<close> came out of the loop with a handle.\<close>

lemma komp_end:
  assumes call: "zu_int_whole env reg x encode r_cod r_level mo mr fl live = Some (R_pair ZU_STREAM_END y, frees, freed, live')"
    and news: "\<And>r st. ro_codec r = zu_codec_lookup reg (Some (r_char0 r_cod)) \<Longrightarrow> ro_encode r = encode \<Longrightarrow>
      handle_new (env_mem env) reg (whole_opts r) = (st, None) \<Longrightarrow> st \<noteq> ZU_STREAM_END"
  obtains r h ob l where "whole_opts_ok r \<or> \<not> raw_ok x" "handle_new (env_mem env) reg (whole_opts r) = (ZU_OK, Some h)"
    "zu_int_run_whole (env_mem env) (env_realloc env) (env_interrupt env) reg r (zu_int_outbuf_owner outbuf_zero) live =
      Some (Whole_returned ZU_STREAM_END, frees, ob, l)" "y = sink_bytes ob \<or> \<not> sink_ok live ob l"
    "ro_src r = x_raw x" "ro_codec r = zu_codec_lookup reg (Some (r_char0 r_cod))" "ro_encode r = encode"
proof -
  let ?c = "zu_codec_lookup reg (Some (r_char0 r_cod))"
  from komp_cases [OF call] obtain level m k e ob l where
    run: "zu_int_run_whole (env_mem env) (env_realloc env) (env_interrupt env) reg (komp_opts x encode ?c level m k fl)
        (zu_int_outbuf_owner outbuf_zero) live = Some (e, frees, ob, l)"
    and ret: "sink_return (env_vector env) (e, frees, ob, l) = (R_pair ZU_STREAM_END y, frees, freed, live')"
    by auto
  let ?r = "komp_opts x encode ?c level m k fl"
  have e: "e = Whole_returned ZU_STREAM_END"
    using ret by (auto simp: sink_return_def r_return_def zu_int_result_def Let_def split: whole_end.splits if_splits option.splits prod.splits)
  have nz: "ro_in_chunk ?r \<noteq> 0" "ro_out_chunk ?r \<noteq> 0" by (simp_all add: komp_opts_def)
  obtain st oh where n: "handle_new (env_mem env) reg (whole_opts ?r) = (st, oh)" by fastforce
  show thesis
  proof (cases oh)
    case None
    with n run nz e have "st = ZU_STREAM_END" by (auto simp: zu_int_run_whole_def)
    moreover have "st \<noteq> ZU_STREAM_END" using n None by (intro news [of ?r]) (simp_all add: komp_opts_def)
    ultimately show thesis by simp
  next
    case (Some h)
    with n have h: "handle_new (env_mem env) reg (whole_opts ?r) = (ZU_OK, Some h)" using handle_new_status by metis
    have "y = sink_bytes ob \<or> \<not> sink_ok live ob l" using sink_return_released(4) [OF _ ret refl] by blast
    then show thesis using komp_opts_ok [of x encode ?c level m k fl] h run e
      by (intro that [of ?r h ob l]) (auto simp: komp_opts_def)
  qed
qed

lemma encoder_new_status:
  assumes "starts_fresh K (the (v_encoder_new v)) fin" "zu_int_registry_lookup reg (eo_codec os) = Some v"
    and "zu_encoder_new m reg os = (st, oh)"
  shows "st \<noteq> ZU_STREAM_END"
proof -
  have "fst (the (v_encoder_new v) (copy_encoder_opts os)) \<noteq> ZU_STREAM_END"
    using starts_freshD(1) [OF assms(1)] by (cases "the (v_encoder_new v) (copy_encoder_opts os)") auto
  with assms(2,3) show ?thesis
    by (auto simp: zu_encoder_new_def zu_int_resolve_def zu_int_check_level_def Let_def split: if_splits prod.splits)
qed

lemma decoder_new_status:
  assumes "starts_fresh K (the (v_decoder_new v)) fin" "zu_int_registry_lookup reg (do_codec os) = Some v"
    and "zu_decoder_new m reg os = (st, oh)"
  shows "st \<noteq> ZU_STREAM_END"
proof -
  have "fst (the (v_decoder_new v) (copy_decoder_opts os)) \<noteq> ZU_STREAM_END"
    using starts_freshD(1) [OF assms(1)] by (cases "the (v_decoder_new v) (copy_decoder_opts os)") auto
  with assms(2,3) show ?thesis
    by (auto simp: zu_decoder_new_def zu_int_resolve_def Let_def split: if_splits prod.splits)
qed

lemma komp_encoder_run:
  assumes ec: "encoder_codec J v" and st: "starts_fresh K (the (v_encoder_new v)) fin" and k: "finishes K J fin (the (v_encoder_process v))"
    and wf: "registry_wf reg" "v \<in> set (reg_table reg)" and cc: "zu_codec_lookup reg (Some (r_char0 r_cod)) = v_codec v" and x: "raw_ok x"
    and call: "zu_int_whole env reg x True r_cod r_level mo mr fl live = Some (R_pair ZU_STREAM_END y, frees, freed, live')"
  shows "\<exists>os s0 s n. the (v_encoder_new v) os = (ZU_OK, Some s0) \<and>
    codec_run (the (v_encoder_process v)) s0 (take n (x_raw x)) y s ZU_STREAM_END \<and>
    (K \<noteq> 0 \<and> length (x_raw x) \<le> K \<longrightarrow> take n (x_raw x) = x_raw x)"
proof -
  have l: "zu_int_registry_lookup reg (v_codec v) = Some v" by (rule registry_lookup_mem [OF wf])
  have os: "\<exists>os. whole_opts r = EncOpts os \<and> eo_codec os = v_codec v"
    if "ro_codec r = zu_codec_lookup reg (Some (r_char0 r_cod))" "ro_encode r" for r
    using that cc by (simp add: whole_opts_def)
  obtain r h ob l' where r: "whole_opts_ok r \<or> \<not> raw_ok x" "handle_new (env_mem env) reg (whole_opts r) = (ZU_OK, Some h)"
    and run: "zu_int_run_whole (env_mem env) (env_realloc env) (env_interrupt env) reg r (zu_int_outbuf_owner outbuf_zero) live =
      Some (Whole_returned ZU_STREAM_END, frees, ob, l')" and y: "y = sink_bytes ob \<or> \<not> sink_ok live ob l'"
    and f: "ro_src r = x_raw x" "ro_codec r = zu_codec_lookup reg (Some (r_char0 r_cod))" "ro_encode r"
  proof (rule komp_end [OF call])
    fix r st0 assume a: "ro_codec r = zu_codec_lookup reg (Some (r_char0 r_cod))" "ro_encode r = True"
      "handle_new (env_mem env) reg (whole_opts r) = (st0, None)"
    then obtain os where o: "whole_opts r = EncOpts os" "eo_codec os = v_codec v" using os by blast
    have "zu_encoder_new (env_mem env) reg os = (st0, None)"
      using a(3) o(1) by (cases "zu_encoder_new (env_mem env) reg os") (simp add: handle_new_def)
    then show "st0 \<noteq> ZU_STREAM_END" by (rule encoder_new_status [OF st l [folded o(2)]])
  qed auto
  have ok: "whole_opts_ok r" using r(1) x by simp
  obtain os where o: "whole_opts r = EncOpts os" "eo_codec os = v_codec v" using os f(2,3) by blast
  with r(2) obtain e where e: "h = Enc e" "zu_encoder_new (env_mem env) reg os = (ZU_OK, Some e)"
    by (cases "zu_encoder_new (env_mem env) reg os") (auto simp: handle_new_def)
  obtain s0 where h: "the (v_encoder_new v) (copy_encoder_opts os) = (ZU_OK, Some s0)" "codec_hinv K (\<lambda>_ _. True) (\<lambda>_. J) v fin (Enc e)"
      "codec_trace K v fin (the (v_encoder_process v)) s0 (Enc e) [] [] ZU_OK ZU_RUN 0"
    using encoder_handle_trace [OF ec st k e(2)] l o(2) by auto
  note rn = r(2) [unfolded e(1)]
  from whole_codec.whole_run [OF ok sink_new rn h(2,3) run] have "sink_ok live ob l'" by blast
  with y have y: "y = sink_bytes ob" by blast
  have "ro_n r = length (x_raw x)" using ok f(1) by (simp add: whole_opts_ok_def)
  with codec_whole_end [OF ok sink_new rn h(2,3) run] f(1) y h(1) show ?thesis by auto
qed

lemma komp_decoder_run:
  assumes dc: "decoder_codec I v" and st: "starts_fresh K (the (v_decoder_new v)) fin" and k: "finishes K I fin (the (v_decoder_process v))"
    and wf: "registry_wf reg" "v \<in> set (reg_table reg)" and cc: "zu_codec_lookup reg (Some (r_char0 r_cod)) = v_codec v" and x: "raw_ok x"
    and call: "zu_int_whole env reg x False r_cod r_level mo mr fl live = Some (R_pair ZU_STREAM_END y, frees, freed, live')"
  shows "\<exists>os s0 s n. the (v_decoder_new v) os = (ZU_OK, Some s0) \<and>
    codec_run (the (v_decoder_process v)) s0 (take n (x_raw x)) y s ZU_STREAM_END \<and>
    (K \<noteq> 0 \<and> length (x_raw x) \<le> K \<longrightarrow> take n (x_raw x) = x_raw x)"
proof -
  have l: "zu_int_registry_lookup reg (v_codec v) = Some v" by (rule registry_lookup_mem [OF wf])
  have os: "\<exists>os. whole_opts r = DecOpts os \<and> do_codec os = v_codec v"
    if "ro_codec r = zu_codec_lookup reg (Some (r_char0 r_cod))" "\<not> ro_encode r" for r
    using that cc by (simp add: whole_opts_def)
  obtain r h ob l' where r: "whole_opts_ok r \<or> \<not> raw_ok x" "handle_new (env_mem env) reg (whole_opts r) = (ZU_OK, Some h)"
    and run: "zu_int_run_whole (env_mem env) (env_realloc env) (env_interrupt env) reg r (zu_int_outbuf_owner outbuf_zero) live =
      Some (Whole_returned ZU_STREAM_END, frees, ob, l')" and y: "y = sink_bytes ob \<or> \<not> sink_ok live ob l'"
    and f: "ro_src r = x_raw x" "ro_codec r = zu_codec_lookup reg (Some (r_char0 r_cod))" "\<not> ro_encode r"
  proof (rule komp_end [OF call])
    fix r st0 assume a: "ro_codec r = zu_codec_lookup reg (Some (r_char0 r_cod))" "ro_encode r = False"
      "handle_new (env_mem env) reg (whole_opts r) = (st0, None)"
    then obtain os where o: "whole_opts r = DecOpts os" "do_codec os = v_codec v" using os by blast
    have "zu_decoder_new (env_mem env) reg os = (st0, None)"
      using a(3) o(1) by (cases "zu_decoder_new (env_mem env) reg os") (simp add: handle_new_def)
    then show "st0 \<noteq> ZU_STREAM_END" by (rule decoder_new_status [OF st l [folded o(2)]])
  qed auto
  have ok: "whole_opts_ok r" using r(1) x by simp
  obtain os where o: "whole_opts r = DecOpts os" "do_codec os = v_codec v" using os f(2,3) by blast
  with r(2) obtain d where d: "h = Dec d" "zu_decoder_new (env_mem env) reg os = (ZU_OK, Some d)"
    by (cases "zu_decoder_new (env_mem env) reg os") (auto simp: handle_new_def)
  obtain s0 where h: "the (v_decoder_new v) (copy_decoder_opts os) = (ZU_OK, Some s0)" "codec_hinv K (\<lambda>_. I) (\<lambda>_ _. True) v fin (Dec d)"
      "codec_trace K v fin (the (v_decoder_process v)) s0 (Dec d) [] [] ZU_OK ZU_RUN 0"
    using decoder_handle_trace [OF dc st k d(2)] l o(2) by auto
  note rn = r(2) [unfolded d(1)]
  from whole_codec.whole_run [OF ok sink_new rn h(2,3) run] have "sink_ok live ob l'" by blast
  with y have y: "y = sink_bytes ob" by blast
  have "ro_n r = length (x_raw x)" using ok f(1) by (simp add: whole_opts_ok_def)
  with codec_whole_end [OF ok sink_new rn h(2,3) run] f(1) y h(1) show ?thesis by auto
qed

text \<open>Only a registered codec gets that far.\<close>

lemma compress_registered:
  assumes call: "zu_int_whole env reg x True r_cod r_level mo mr fl live = Some (R_pair ZU_STREAM_END y, frees, freed, live')"
  shows "\<exists>v \<in> set (reg_table reg). zu_codec_lookup reg (Some (r_char0 r_cod)) = v_codec v"
proof (cases "zu_int_registry_lookup reg (zu_codec_lookup reg (Some (r_char0 r_cod)))")
  case None
  have refused: "zu_encoder_new m reg os = (st, oh) \<Longrightarrow> st \<noteq> ZU_STREAM_END \<and> oh = None"
    if "eo_codec os = zu_codec_lookup reg (Some (r_char0 r_cod))" for m os st oh
    using None that by (auto simp: zu_encoder_new_def zu_int_resolve_def split: if_splits)
  have os: "whole_opts r = EncOpts os \<Longrightarrow> eo_codec os = ro_codec r" for r os
    by (auto simp: whole_opts_def Let_def split: if_splits)
  show ?thesis
  proof (rule komp_end [OF call])
    fix r st assume r: "ro_codec r = zu_codec_lookup reg (Some (r_char0 r_cod))" "ro_encode r = True"
      and n: "handle_new (env_mem env) reg (whole_opts r) = (st, None)"
    then obtain os where o: "whole_opts r = EncOpts os" by (simp add: whole_opts_def)
    with n obtain oh where "zu_encoder_new (env_mem env) reg os = (st, oh)"
      by (cases "zu_encoder_new (env_mem env) reg os") (simp add: handle_new_def)
    with refused os [OF o] r(1) show "st \<noteq> ZU_STREAM_END" by metis
  next
    fix r h ob l assume r: "ro_codec r = zu_codec_lookup reg (Some (r_char0 r_cod))" "ro_encode r = True"
      and n: "handle_new (env_mem env) reg (whole_opts r) = (ZU_OK, Some h)"
    then obtain os where o: "whole_opts r = EncOpts os" by (simp add: whole_opts_def)
    with n obtain e where "zu_encoder_new (env_mem env) reg os = (ZU_OK, Some e)"
      by (cases "zu_encoder_new (env_mem env) reg os") (auto simp: handle_new_def)
    with refused os [OF o] r(1) show ?thesis by fastforce
  qed
qed (metis registry_lookup_Some)

subsection \<open>Codecs that invert themselves\<close>

text \<open>What makes compression and decompression from R a round trip, for any codec: what a fresh encoder wrote for \<open>x\<close> up to the
  end of its stream is a string \<open>z\<close> with \<open>F z x\<close>, and a fresh decoder on \<open>z\<close> delivers \<open>x\<close>. The encoder takes inputs of at
  most \<open>K\<close> bytes to their end. The decoder may stop before the end of its input; for \<open>L \<noteq> 0\<close> it does not.\<close>

locale invertible_codec = dec: decoder_codec I v + enc: encoder_codec J v
  for I J :: "'s option \<Rightarrow> bool" and v :: "'s zu_codec_vtable" +
  fixes K L :: nat and efin dfin :: "'s \<Rightarrow> bool" and F :: "byte list \<Rightarrow> byte list \<Rightarrow> bool"
  assumes capacity: "0 < K" "L = 0 \<or> 2 ^ 52 \<le> L"
    and encoder_starts: "starts_fresh K (the (v_encoder_new v)) efin"
    and encoder_finishes: "finishes K J efin (the (v_encoder_process v))"
    and decoder_starts: "starts_fresh L (the (v_decoder_new v)) dfin"
    and decoder_finishes: "finishes L I dfin (the (v_decoder_process v))"
    and encodes: "\<lbrakk>the (v_encoder_new v) eo = (ZU_OK, Some s0); codec_run (the (v_encoder_process v)) s0 x z s ZU_STREAM_END\<rbrakk> \<Longrightarrow> F z x"
    and decodes: "\<lbrakk>F z x; the (v_decoder_new v) ro = (ZU_OK, Some s0); codec_run (the (v_decoder_process v)) s0 c y s ZU_STREAM_END;
      c @ rest = z; L \<noteq> 0 \<longrightarrow> rest = []\<rbrakk> \<Longrightarrow> y = x"
begin

lemma compresses:
  assumes wf: "registry_wf reg" "v \<in> set (reg_table reg)" and cc: "zu_codec_lookup reg (Some (r_char0 codec)) = v_codec v"
    and x: "raw_ok x" "length (x_raw x) \<le> K"
    and call: "zukomp_compress env reg x codec level live = Some (R_pair ZU_STREAM_END z, frees, freed, live1)"
  shows "F z (x_raw x)"
proof -
  from komp_encoder_run [OF enc.encoder_codec_axioms encoder_starts encoder_finishes wf cc x(1) call [unfolded zukomp_compress_def]]
  obtain os s0 s where e: "the (v_encoder_new v) os = (ZU_OK, Some s0)"
    "codec_run (the (v_encoder_process v)) s0 (x_raw x) z s ZU_STREAM_END" using capacity(1) x(2) by auto
  then show ?thesis by (rule encodes)
qed

lemma round_trip:
  assumes wf: "registry_wf reg" "v \<in> set (reg_table reg)" and cc: "zu_codec_lookup reg (Some (r_char0 codec)) = v_codec v"
    and x: "raw_ok x" "length (x_raw x) \<le> K"
    and c: "zukomp_compress env reg x codec level live = Some (R_pair ZU_STREAM_END z, frees, freed, live1)"
    and z: "raw_ok (r_raw z)"
    and d: "zukomp_decompress env' reg (r_raw z) codec r_max r_ratio live' = Some (R_pair ZU_STREAM_END y, frees', freed', live2)"
  shows "F z (x_raw x) \<and> y = x_raw x"
proof -
  have f: "F z (x_raw x)" by (rule compresses [OF wf cc x c])
  have rz: "x_raw (r_raw z) = z" by (simp add: r_raw_def)
  from komp_decoder_run [OF dec.decoder_codec_axioms decoder_starts decoder_finishes wf cc z d [unfolded zukomp_decompress_def]]
  obtain os s0 s n where e: "the (v_decoder_new v) os = (ZU_OK, Some s0)"
    "codec_run (the (v_decoder_process v)) s0 (take n z) y s ZU_STREAM_END" "L \<noteq> 0 \<and> length z \<le> L \<longrightarrow> take n z = z"
    unfolding rz by blast
  have "length z \<le> 2 ^ 52" using z by (simp add: raw_ok_def rz)
  with capacity(2) e(3) have "L \<noteq> 0 \<longrightarrow> drop n z = []" by (metis append_take_drop_id le_trans self_append_conv)
  from decodes [OF f e(1,2) append_take_drop_id this] f show ?thesis by simp
qed

end

text \<open>The codecs that are one pass over the bytes, when the pass undoes itself.\<close>

context bytewise
begin

lemma run_image: "codec_run proc s0 i out s st \<Longrightarrow> out = map f i"
  by (induction rule: codec_run.induct) (auto dest: proc_moves(2))

lemma proc_finishes: "finishes K I (\<lambda>_. False) proc"
  unfolding finishes_def input_ended_def
proof (intro allI impI)
  fix s b flush st so b' assume wf: "buf_wf b" and c: "proc (Some s) b flush = Some (st, so, b')"
  note m = proc_moves [OF wf c]
  have "length (consumed b b') = min (avail_in b) (avail_out b)" using m(4) in_window_length [OF wf] by simp
  moreover have "avail_in b' + length (consumed b b') = avail_in b" using adv_room(1) [OF wf m(1)] .
  ultimately show "\<exists>s'. so = Some s' \<and> (st = ZU_STREAM_END \<or> False \<longrightarrow>
      False \<or> K = 0 \<or> flush = ZU_FINISH \<and> (length (consumed b b') + avail_in b' \<le> K \<longrightarrow> avail_in b' = 0))"
    using m(3,5) by (auto simp: bytewise_status_def split: if_splits)
qed

lemma inverts:
  assumes v: "v_encoder_process v = Some proc" "v_decoder_process v = Some proc" and f: "\<And>x. f (f x) = x"
    and new: "\<And>os. \<exists>s. the (v_encoder_new v) os = (ZU_OK, Some s)" "\<And>os. \<exists>s. the (v_decoder_new v) os = (ZU_OK, Some s)"
  shows "invertible_codec (\<lambda>_. True) (\<lambda>_. True) v (2 ^ 52) (2 ^ 52) (\<lambda>_. False) (\<lambda>_. False) (\<lambda>z x. z = map f x)"
proof -
  have st: "starts_fresh K nw (\<lambda>_. False)" if "\<And>os. \<exists>s. nw os = (ZU_OK, Some s)" for K and nw :: "'o \<Rightarrow> zu_status \<times> 's option"
    unfolding starts_fresh_def
  proof (intro allI impI)
    fix os st so assume "nw os = (st, so)"
    with that [of os] show "st \<noteq> ZU_STREAM_END \<and> (st = ZU_OK \<longrightarrow> (\<exists>s. so = Some s \<and> (K = 0 \<or> \<not> False)))" by auto
  qed
  have undo: "y = x" if "z = map f x" "y = map f c" "c @ rest = z" "rest = []" for x y z c rest :: "byte list"
    using that f by (simp add: comp_def)
  show ?thesis
  proof (intro invertible_codec.intro decoder_contract encoder_contract v invertible_codec_axioms.intro; (unfold v option.sel)?)
    fix z x os s0 c y s rest
    assume z: "z = map f x" and r: "codec_run proc s0 c y s ZU_STREAM_END" and c: "c @ rest = z" "2 ^ 52 \<noteq> (0 :: nat) \<longrightarrow> rest = []"
    show "y = x" using undo [OF z run_image [OF r] c(1)] c(2) by simp
  qed (simp_all add: st new proc_finishes run_image)
qed

end

interpretation identity_inv: invertible_codec "\<lambda>_. True" "\<lambda>_. True" zu_int_codec_identity "2 ^ 52" "2 ^ 52" "\<lambda>_. False" "\<lambda>_. False"
  "\<lambda>z x. z = map id x"
  by (rule identity.inverts)
    (simp_all add: zu_int_codec_identity_def identity_encoder_new_def identity_decoder_new_def identity_new_def)

interpretation xor5a_inv: invertible_codec "\<lambda>_. True" "\<lambda>_. True" xor5a_vtable "2 ^ 52" "2 ^ 52" "\<lambda>_. False" "\<lambda>_. False"
  "\<lambda>z x. z = map (\<lambda>b. b XOR XOR_KEY) x"
  by (rule xor5a.inverts)
    (simp_all add: xor5a_vtable_def xor5a_encoder_new_def xor5a_decoder_new_def xor5a_new_def xor.assoc)

subsection \<open>A run of one call\<close>

text \<open>The first window of the loop over an input of one slice, and the loop when its first call ends the stream.\<close>

definition first_window :: "zu_int_run_opts \<Rightarrow> nat \<Rightarrow> byte list \<Rightarrow> zu_buffer" where
  "first_window r n m = \<lparr>src = Some (ro_src r), src_size = n, src_pos = 0, dst = Some m, dst_size = ro_out_chunk r, dst_pos = 0\<rparr>"

lemma one_call_run:
  assumes new: "handle_new mem reg (whole_opts r) = (ZU_OK, Some h)"
    and re: "\<And>p n. re p n \<noteq> None" and chunk: "4096 \<le> ro_out_chunk r" "ro_out_chunk r \<le> 2 ^ 32"
    and sz: "0 < ro_n r" "ro_n r \<le> ro_in_chunk r"
    and call: "handle_process h (first_window r (ro_n r) (resize (ro_out_chunk r) [])) ZU_FINISH = Some (ZU_STREAM_END, h', b')"
  shows "\<exists>frees ob live'. zu_int_run_whole mem re intr reg r (zu_int_outbuf_owner outbuf_zero) live =
      Some (Whole_returned ZU_STREAM_END, frees, ob, live') \<and> sink_bytes ob = take (dst_pos b') (dst_mem b') \<and> ob_used ob = dst_pos b'"
proof -
  let ?m = "resize (ro_out_chunk r) ([] :: byte list)" and ?k = "ro_out_chunk r"
  let ?x = "(h, \<lparr>src = None, src_size = 0, src_pos = 0, dst = None, dst_size = 0, dst_pos = 0\<rparr>, 0, 0, zu_int_outbuf_owner outbuf_zero, live)"
  obtain a where a: "re None ?k = Some a" using re [of None ?k] by auto
  let ?ob = "\<lparr>ob_owner = Some (Some a), ob_buf = Some (a, ?m), ob_size = ?k, ob_used = 0, ob_consumed = 0\<rparr>"
  have g: "zu_int_grow 0 ?k = (ZU_OK, Some ?k)"
    using chunk by (auto simp: zu_int_grow_def zu_int_add_def zu_int_mul_def ZU_INT_MIN_BUFFER_def UINT64_MAX_def)
  have rs: "zu_int_reserve re (zu_int_outbuf_owner outbuf_zero) live ?k = (ZU_OK, ?ob, live + 1)"
    using a g chunk by (simp add: zu_int_reserve_def zu_int_outbuf_owner_def outbuf_zero_def outbuf_mem_def zu_int_add_def UINT64_MAX_def)
  have w: "whole_refill r \<lparr>src = None, src_size = 0, src_pos = 0, dst = None, dst_size = 0, dst_pos = 0\<rparr> 0 =
      (\<lparr>src = Some (ro_src r), src_size = ro_n r, src_pos = 0, dst = None, dst_size = 0, dst_pos = 0\<rparr>, ro_n r)"
    using sz by (simp add: whole_refill_def Let_def)
  have "whole_step re intr r ?x =
      Some (Ret (Whole_returned ZU_STREAM_END, h', b', ro_n r, u64_add 0 1, whole_deliver ?ob b', live + 1))"
    using w rs call by (simp add: whole_step_def whole_window_def whole_flush_def first_window_def whole_after_def)
  then have "run_loop (whole_step re intr r) ?x =
      Some (Whole_returned ZU_STREAM_END, h', b', ro_n r, u64_add 0 1, whole_deliver ?ob b', live + 1)"
    by (subst run_loop.simps) simp
  then show ?thesis using new sz chunk by (auto simp: zu_int_run_whole_def sink_bytes_def outbuf_mem_def whole_deliver_def)
qed

text \<open>A run of the loop as R sees it.\<close>

lemma komp_returned:
  assumes c: "zu_codec_lookup reg (Some (r_char0 codec)) = c" "c \<noteq> ZU_CODEC_NONE"
    and num: "zu_int_level_from_sexp level = (0, lv)"
    and run: "zu_int_run_whole mem_ok (\<lambda>p n. Some n) (\<lambda>n. False) reg (komp_opts x encode c lv 0 0 fl) (zu_int_outbuf_owner outbuf_zero) 0 =
      Some (Whole_returned ZU_STREAM_END, frees, ob, live')" and y: "sink_bytes ob = y" "ob_used ob = length y"
  shows "\<exists>frees freed live1. zu_int_whole demo_env reg x encode codec level (R_finite 0) 0 fl 0 = Some (R_pair ZU_STREAM_END y, frees, freed, live1)"
proof -
  have n: "zu_int_u64_from_real (R_finite 0) = (0, 0)" "zu_int_u32_from_int 0 = (0, 0)"
    using u64_from_real_iff [of "R_finite 0" 0] u32_from_int_iff [of 0 0] by simp_all
  have "\<exists>frees' freed live1. sink_return (env_vector demo_env) (Whole_returned ZU_STREAM_END, frees, ob, live') =
      (R_pair ZU_STREAM_END y, frees', freed, live1)"
    using y by (cases "ob_buf ob") (auto simp: sink_return_def zu_int_result_def r_return_def demo_env_def sink_bytes_def outbuf_mem_def
        zu_int_outbuf_release_def Let_def)
  with c num n run show ?thesis by (auto simp: zu_int_whole_def demo_env_def)
qed

lemma fresh_sink_length: "length (resize 65536 ([] :: byte list)) = 65536"
  by (simp add: resize_def)


subsection \<open>One codec, one call\<close>

text \<open>For demonstrations: a registry of one codec, and a call from R that its first call of the codec completes, on
  an environment that refuses nothing.\<close>

definition only_reg :: "'s zu_codec_vtable \<Rightarrow> 's zu_registry" where
  "only_reg v = snd (zu_register_codec (Some v) zu_registry_init)"

definition demo_opts_of :: "'s zu_codec_vtable \<Rightarrow> byte list \<Rightarrow> bool \<Rightarrow> zu_int_run_opts" where
  "demo_opts_of v xs encode = komp_opts (r_raw xs) encode (v_codec v) ZU_LEVEL_DEFAULT 0 0
     (if encode then 0 else ZU_DEC_REJECT_TRAILING OR ZU_DEC_CONCAT_MEMBERS)"

definition one_call_ends :: "'s zu_registry \<Rightarrow> 's zu_codec_vtable \<Rightarrow> bool \<Rightarrow> byte list \<Rightarrow> byte list \<Rightarrow> byte list \<Rightarrow> bool" where
  "one_call_ends reg v encode xs y m \<longleftrightarrow>
     (case handle_new mem_ok reg (whole_opts (demo_opts_of v xs encode)) of
        (st, Some h) \<Rightarrow> st = ZU_OK \<and>
          (case handle_process h (first_window (demo_opts_of v xs encode) (length xs) m) ZU_FINISH of
             Some (st, h', b) \<Rightarrow> st = ZU_STREAM_END \<and> dst_pos b = length y \<and> dst b = Some (y @ drop (length y) m)
           | None \<Rightarrow> False)
      | (st, None) \<Rightarrow> False)"

lemma only_reg_table: "vtable_ok v \<Longrightarrow> reg_table (only_reg v) = [v]"
  by (simp add: only_reg_def zu_register_codec_eq zu_registry_init_def ZU_INT_REGISTRY_CAP_def)

lemma only_reg_wf: "registry_wf (only_reg v)"
  using registry_wf_register [OF registry_wf_init, of "Some v" _ "only_reg v"] by (metis only_reg_def prod.collapse)

lemma one_call_ends_only:
  assumes v: "vtable_ok v" and reg: "registry_wf reg" "v \<in> set (reg_table reg)"
  shows "one_call_ends (only_reg v) v encode xs y m = one_call_ends reg v encode xs y m"
proof -
  have l: "zu_int_registry_lookup (only_reg v) (v_codec v) = Some v" "zu_int_registry_lookup reg (v_codec v) = Some v"
    using registry_lookup_mem [OF only_reg_wf, of v] registry_lookup_mem [OF reg] v by (simp_all add: only_reg_table)
  have "handle_new mem_ok (only_reg v) (whole_opts (demo_opts_of v xs encode)) = handle_new mem_ok reg (whole_opts (demo_opts_of v xs encode))"
    by (simp add: handle_new_def whole_opts_def demo_opts_of_def komp_opts_def zu_encoder_new_def zu_decoder_new_def zu_int_resolve_def l)
  then show ?thesis by (simp add: one_call_ends_def)
qed

lemma komp_one_call:
  assumes reg: "registry_wf reg" "v \<in> set (reg_table reg)" and v: "v_name v = Some n" "v_codec v \<noteq> ZU_CODEC_NONE"
    and xs: "xs \<noteq> []" "length xs \<le> 65536" and call: "\<And>m. one_call_ends reg v encode xs y m"
  shows "\<exists>frees freed live1. zu_int_whole demo_env reg (r_raw xs) encode (r_string n) R_NilValue (R_finite 0) 0
      (if encode then 0 else ZU_DEC_REJECT_TRAILING OR ZU_DEC_CONCAT_MEMBERS) 0 =
    Some (R_pair ZU_STREAM_END y, frees, freed, live1)"
proof -
  let ?m = "resize 65536 ([] :: byte list)" and ?r = "demo_opts_of v xs encode"
  have sz: "ro_out_chunk ?r = 65536" "ro_n ?r = length xs" "length xs \<le> ro_in_chunk ?r"
    using xs by (simp_all add: demo_opts_of_def komp_opts_def r_raw_def)
  obtain h h' b' where new: "handle_new mem_ok reg (whole_opts ?r) = (ZU_OK, Some h)"
    and b: "handle_process h (first_window ?r (length xs) ?m) ZU_FINISH = Some (ZU_STREAM_END, h', b')"
      "dst_pos b' = length y" "take (length y) (dst_mem b') = y"
    using call [of ?m] by (auto simp: one_call_ends_def dst_mem_def split: option.splits prod.splits)
  obtain frees ob live' where run: "zu_int_run_whole mem_ok (\<lambda>p n. Some n) (\<lambda>n. False) reg ?r (zu_int_outbuf_owner outbuf_zero) 0 =
      Some (Whole_returned ZU_STREAM_END, frees, ob, live')" "sink_bytes ob = y" "ob_used ob = length y"
    using one_call_run [OF new, where re = "\<lambda>p n. Some n" and intr = "\<lambda>n. False" and live = 0, unfolded sz(1,2), OF _ _ _ _ sz(3) b(1)]
      b(2,3) xs(1) by auto
  have lv: "zu_int_level_from_sexp R_NilValue = (0, ZU_LEVEL_DEFAULT)" by (simp add: zu_int_level_from_sexp_def R_NilValue_def)
  have c: "zu_codec_lookup reg (Some (r_char0 (r_string n))) = v_codec v"
    using registered_name_resolves [OF reg] v(1) by (simp add: demo_string)
  show ?thesis by (rule komp_returned [OF c v(2) lv run(1) [unfolded demo_opts_of_def] run(2,3)])
qed

lemma komp_demo:
  assumes reg: "registry_wf reg" "v \<in> set (reg_table reg)" and v: "v_name v = Some n" "v_codec v \<noteq> ZU_CODEC_NONE"
    and xs: "xs \<noteq> []" "length xs \<le> 65536" "zs \<noteq> []" "length zs \<le> 65536"
    and call: "\<And>m. one_call_ends reg v True xs zs m" "\<And>m. one_call_ends reg v False zs xs m"
  obtains f1 d1 l1 f2 d2 l2 where
    "zukomp_compress demo_env reg (r_raw xs) (r_string n) R_NilValue 0 = Some (R_pair ZU_STREAM_END zs, f1, d1, l1)"
    "zukomp_decompress demo_env reg (r_raw zs) (r_string n) r_zero r_zero 0 = Some (R_pair ZU_STREAM_END xs, f2, d2, l2)"
proof -
  have z: "x_real r_zero = R_finite 0" "x_int r_zero = 0" by (simp_all add: r_zero_def)
  from komp_one_call [OF reg v xs(1,2) call(1)] komp_one_call [OF reg v xs(3,4) call(2)]
  show thesis by (auto simp: zukomp_compress_def zukomp_decompress_def z intro: that)
qed

end
