(* ===== verification/Zu_Gzip.thy ===== *)
theory Zu_Gzip
  imports Zu_Checksum
begin

unbundle bit_operations_syntax

text \<open>
  The gzip header of RFC 1952 (\<^verbatim>\<open>src/zu_gzip.c\<close>): the fixed header the encoder writes and the
  parser that takes one byte at a time. The parser is proved against \<open>gzip_header_spec\<close>, a
  declarative reading of the format on a whole byte string: the streaming automaton accepts
  exactly at the byte where the specification says the header ends.
\<close>

subsection \<open>zu_gzip.c\<close>

definition GZ_FTEXT :: byte where "GZ_FTEXT = 0x01"
definition GZ_FHCRC :: byte where "GZ_FHCRC = 0x02"
definition GZ_FEXTRA :: byte where "GZ_FEXTRA = 0x04"
definition GZ_FNAME :: byte where "GZ_FNAME = 0x08"
definition GZ_FCOMMENT :: byte where "GZ_FCOMMENT = 0x10"
definition GZ_RESERVED :: byte where "GZ_RESERVED = 0xE0"

lemmas gz_flag_bits = GZ_FTEXT_def GZ_FHCRC_def GZ_FEXTRA_def GZ_FNAME_def GZ_FCOMMENT_def GZ_RESERVED_def

definition ZU_INT_GZIP_HEADER_LEN :: nat where "ZU_INT_GZIP_HEADER_LEN = 10"
definition ZU_INT_GZIP_MAX_FIELD :: nat where "ZU_INT_GZIP_MAX_FIELD = 65535"

datatype zu_int_gzip_state =
  ZU_INT_GZ_FIXED | ZU_INT_GZ_EXTRA_LEN | ZU_INT_GZ_EXTRA | ZU_INT_GZ_NAME |
  ZU_INT_GZ_COMMENT | ZU_INT_GZ_HCRC | ZU_INT_GZ_DONE

record zu_int_gzip_header =
  gz_state :: zu_int_gzip_state
  gz_fixed :: "byte list"
  gz_fixed_pos :: nat
  gz_flg :: byte
  gz_xlen :: "16 word"
  gz_xlen_pos :: nat
  gz_xpos :: nat
  gz_field_len :: nat
  gz_hcrc :: "byte list"
  gz_hcrc_pos :: nat
  gz_crc :: u32

definition zu_int_gzip_write_header :: "byte list" where
  "zu_int_gzip_write_header = [0x1F, 0x8B, 8, 0, 0, 0, 0, 0, 0, 255]"

definition zu_int_gzip_header_init :: zu_int_gzip_header where
  "zu_int_gzip_header_init =
     \<lparr>gz_state = ZU_INT_GZ_FIXED, gz_fixed = replicate ZU_INT_GZIP_HEADER_LEN 0, gz_fixed_pos = 0,
      gz_flg = 0, gz_xlen = 0, gz_xlen_pos = 0, gz_xpos = 0, gz_field_len = 0,
      gz_hcrc = [0, 0], gz_hcrc_pos = 0, gz_crc = mz_crc32 0 []\<rparr>"

text \<open>\<^verbatim>\<open>byte & flag\<close> as a condition, and the four nested conditional expressions that choose the
  next field, from the last one outwards.\<close>

definition gz_has :: "byte \<Rightarrow> byte \<Rightarrow> bool" where
  "gz_has flg b \<longleftrightarrow> flg AND b \<noteq> 0"

definition gz_after_comment :: "byte \<Rightarrow> zu_int_gzip_state" where
  "gz_after_comment flg = (if gz_has flg GZ_FHCRC then ZU_INT_GZ_HCRC else ZU_INT_GZ_DONE)"

definition gz_after_name :: "byte \<Rightarrow> zu_int_gzip_state" where
  "gz_after_name flg = (if gz_has flg GZ_FCOMMENT then ZU_INT_GZ_COMMENT else gz_after_comment flg)"

definition gz_after_extra :: "byte \<Rightarrow> zu_int_gzip_state" where
  "gz_after_extra flg = (if gz_has flg GZ_FNAME then ZU_INT_GZ_NAME else gz_after_name flg)"

definition gz_after_fixed :: "byte \<Rightarrow> zu_int_gzip_state" where
  "gz_after_fixed flg = (if gz_has flg GZ_FEXTRA then ZU_INT_GZ_EXTRA_LEN else gz_after_extra flg)"

text \<open>The tail of the function: \<^verbatim>\<open>*done\<close> is set when the state reached the end.\<close>

definition gz_leave :: "zu_int_gzip_header \<Rightarrow> zu_status \<times> zu_int_gzip_header \<times> bool" where
  "gz_leave h = (ZU_OK, h, gz_state h = ZU_INT_GZ_DONE)"

definition zu_int_gzip_header_feed ::
  "zu_int_gzip_header \<Rightarrow> byte \<Rightarrow> zu_status \<times> zu_int_gzip_header \<times> bool" where
  "zu_int_gzip_header_feed h0 byte =
     (let h = (if gz_state h0 \<noteq> ZU_INT_GZ_HCRC then h0\<lparr>gz_crc := mz_crc32 (gz_crc h0) [byte]\<rparr> else h0)
      in case gz_state h of
        ZU_INT_GZ_FIXED \<Rightarrow>
          (let h1 = h\<lparr>gz_fixed := (gz_fixed h)[gz_fixed_pos h := byte], gz_fixed_pos := gz_fixed_pos h + 1\<rparr>
           in if gz_fixed_pos h1 = 1 \<and> byte \<noteq> 0x1F then (ZU_ERR_INVALID_DATA, h1, False)
              else if gz_fixed_pos h1 = 2 \<and> byte \<noteq> 0x8B then (ZU_ERR_INVALID_DATA, h1, False)
              else if gz_fixed_pos h1 = 3 \<and> byte \<noteq> 8 then (ZU_ERR_INVALID_DATA, h1, False)
              else if gz_fixed_pos h1 = 4 \<and> gz_has byte GZ_RESERVED then (ZU_ERR_INVALID_DATA, h1, False)
              else
                (let h2 = (if gz_fixed_pos h1 = 4 then h1\<lparr>gz_flg := byte\<rparr> else h1)
                 in if gz_fixed_pos h2 < ZU_INT_GZIP_HEADER_LEN then (ZU_OK, h2, False)
                    else gz_leave (h2\<lparr>gz_state := gz_after_fixed (gz_flg h2)\<rparr>)))
      | ZU_INT_GZ_EXTRA_LEN \<Rightarrow>
          (let h1 = h\<lparr>gz_xlen := gz_xlen h OR push_bit (8 * gz_xlen_pos h) (ucast byte),
                      gz_xlen_pos := gz_xlen_pos h + 1\<rparr>
           in if gz_xlen_pos h1 < 2 then (ZU_OK, h1, False)
              else gz_leave (h1\<lparr>gz_state := (if gz_xlen h1 > 0 then ZU_INT_GZ_EXTRA else gz_after_extra (gz_flg h1))\<rparr>))
      | ZU_INT_GZ_EXTRA \<Rightarrow>
          (let h1 = h\<lparr>gz_xpos := gz_xpos h + 1\<rparr>
           in if gz_xpos h1 < unat (gz_xlen h1) then (ZU_OK, h1, False)
              else gz_leave (h1\<lparr>gz_state := gz_after_extra (gz_flg h1)\<rparr>))
      | ZU_INT_GZ_NAME \<Rightarrow>
          (if byte \<noteq> 0
           then (let h1 = h\<lparr>gz_field_len := gz_field_len h + 1\<rparr>
                 in if gz_field_len h1 > ZU_INT_GZIP_MAX_FIELD then (ZU_ERR_INVALID_DATA, h1, False)
                    else (ZU_OK, h1, False))
           else gz_leave (h\<lparr>gz_field_len := 0, gz_state := gz_after_name (gz_flg h)\<rparr>))
      | ZU_INT_GZ_COMMENT \<Rightarrow>
          (if byte \<noteq> 0
           then (let h1 = h\<lparr>gz_field_len := gz_field_len h + 1\<rparr>
                 in if gz_field_len h1 > ZU_INT_GZIP_MAX_FIELD then (ZU_ERR_INVALID_DATA, h1, False)
                    else (ZU_OK, h1, False))
           else gz_leave (h\<lparr>gz_field_len := 0, gz_state := gz_after_comment (gz_flg h)\<rparr>))
      | ZU_INT_GZ_HCRC \<Rightarrow>
          (let h1 = h\<lparr>gz_hcrc := (gz_hcrc h)[gz_hcrc_pos h := byte], gz_hcrc_pos := gz_hcrc_pos h + 1\<rparr>
           in if gz_hcrc_pos h1 < 2 then (ZU_OK, h1, False)
              else if (ucast (gz_hcrc h1 ! 0) OR push_bit 8 (ucast (gz_hcrc h1 ! 1)) :: 16 word)
                        \<noteq> ucast (gz_crc h1 AND 0xFFFF)
                   then (ZU_ERR_CHECKSUM, h1, False)
              else gz_leave (h1\<lparr>gz_state := ZU_INT_GZ_DONE\<rparr>))
      | ZU_INT_GZ_DONE \<Rightarrow> (ZU_ERR_INTERNAL, h, False))"

text \<open>Feeding a byte string: the status and the bytes left once the header is complete, an
  error, or that the string ended inside the header.\<close>

datatype header_run = Header_done "byte list" | Header_error zu_status | Header_more zu_int_gzip_header

fun gzip_feed_all :: "zu_int_gzip_header \<Rightarrow> byte list \<Rightarrow> header_run" where
  "gzip_feed_all h [] = Header_more h"
| "gzip_feed_all h (b # bs) =
     (case zu_int_gzip_header_feed h b of
        (st, h', done) \<Rightarrow>
          if st \<noteq> ZU_OK then Header_error st
          else if done then Header_done bs
          else gzip_feed_all h' bs)"

subsection \<open>The header of RFC 1952, on a whole byte string\<close>

datatype header_outcome = Done "byte list" | Err zu_status | More

primrec outcome :: "header_run \<Rightarrow> header_outcome" where
  "outcome (Header_done r) = Done r"
| "outcome (Header_error st) = Err st"
| "outcome (Header_more h) = More"

text \<open>Each field takes the bytes before it, which the header checksum covers, and the bytes from
  its own first one on.\<close>

definition spec_hcrc :: "byte \<Rightarrow> byte list \<Rightarrow> byte list \<Rightarrow> header_outcome" where
  "spec_hcrc flg pre bs =
     (if \<not> gz_has flg GZ_FHCRC then Done bs
      else case bs of
        a # b # r \<Rightarrow> if of_le_bytes [a, b] = unat (mz_crc32 0 pre) mod 65536 then Done r else Err ZU_ERR_CHECKSUM
      | _ \<Rightarrow> More)"

definition spec_string ::
  "(byte list \<Rightarrow> byte list \<Rightarrow> header_outcome) \<Rightarrow> nat \<Rightarrow> byte list \<Rightarrow> byte list \<Rightarrow> header_outcome" where
  "spec_string k seen pre bs =
     (let s = takeWhile (\<lambda>b. b \<noteq> 0) bs
      in if ZU_INT_GZIP_MAX_FIELD < seen + length s then Err ZU_ERR_INVALID_DATA
         else if length s = length bs then More
         else k (pre @ s @ [0]) (drop (Suc (length s)) bs))"

definition spec_comment :: "byte \<Rightarrow> byte list \<Rightarrow> byte list \<Rightarrow> header_outcome" where
  "spec_comment flg pre bs =
     (if gz_has flg GZ_FCOMMENT then spec_string (spec_hcrc flg) 0 pre bs else spec_hcrc flg pre bs)"

definition spec_name :: "byte \<Rightarrow> byte list \<Rightarrow> byte list \<Rightarrow> header_outcome" where
  "spec_name flg pre bs =
     (if gz_has flg GZ_FNAME then spec_string (spec_comment flg) 0 pre bs else spec_comment flg pre bs)"

definition spec_extra :: "byte \<Rightarrow> byte list \<Rightarrow> byte list \<Rightarrow> header_outcome" where
  "spec_extra flg pre bs =
     (if \<not> gz_has flg GZ_FEXTRA then spec_name flg pre bs
      else case bs of
        a # b # r \<Rightarrow>
          (let n = of_le_bytes [a, b]
           in if length r < n then More else spec_name flg (pre @ [a, b] @ take n r) (drop n r))
      | _ \<Rightarrow> More)"

definition gzip_header_spec :: "byte list \<Rightarrow> header_outcome" where
  "gzip_header_spec bs =
     (if 0 < length bs \<and> bs ! 0 \<noteq> 0x1F \<or> 1 < length bs \<and> bs ! 1 \<noteq> 0x8B \<or>
         2 < length bs \<and> bs ! 2 \<noteq> 8 \<or> 3 < length bs \<and> gz_has (bs ! 3) GZ_RESERVED
      then Err ZU_ERR_INVALID_DATA
      else if length bs < 10 then More
      else spec_extra (bs ! 3) (take 10 bs) (drop 10 bs))"

subsection \<open>The automaton computes the specification\<close>

text \<open>What follows once a field is complete.\<close>

definition gz_continue :: "zu_int_gzip_header \<Rightarrow> byte list \<Rightarrow> header_outcome" where
  "gz_continue h bs = (if gz_state h = ZU_INT_GZ_DONE then Done bs else outcome (gzip_feed_all h bs))"

text \<open>The automaton stands before the field that comes after the bytes \<open>pre\<close>.\<close>

definition gz_ready :: "zu_int_gzip_header \<Rightarrow> byte \<Rightarrow> byte list \<Rightarrow> bool" where
  "gz_ready h flg pre \<longleftrightarrow> gz_flg h = flg \<and> gz_crc h = mz_crc32 0 pre \<and> gz_field_len h = 0 \<and>
     gz_hcrc_pos h = 0 \<and> length (gz_hcrc h) = 2"

lemma feed_leave:
  "zu_int_gzip_header_feed h b = gz_leave h' \<Longrightarrow> outcome (gzip_feed_all h (b # bs)) = gz_continue h' bs"
  by (simp add: gz_leave_def gz_continue_def)

lemma le16_unat:
  fixes a b :: byte
  shows "unat (ucast a OR push_bit 8 (ucast b) :: 16 word) = of_le_bytes [a, b]"
proof -
  have a: "unat a < 256" "unat b < 256" using unat_byte_le [of a] unat_byte_le [of b] by simp_all
  have ua: "unat (ucast a :: 16 word) = unat a" "unat (ucast b :: 16 word) = unat b" by (transfer, simp)+
  have ub: "unat (push_bit 8 (ucast b) :: 16 word) = unat b * 256"
    using a(2) ua(2) by (simp add: push_bit_eq_mult unat_word_ariths(2))
  have "(ucast a AND push_bit 8 (ucast b) :: 16 word) = 0"
    by (rule bit_eqI) (auto simp: bit_and_iff bit_push_bit_iff bit_ucast_iff dest: bit_imp_le_length)
  then have "(ucast a OR push_bit 8 (ucast b) :: 16 word) = ucast a + push_bit 8 (ucast b)"
    by (simp add: disjunctive_add_eq_or)
  moreover have "unat (ucast a + push_bit 8 (ucast b) :: 16 word) = unat a + unat b * 256"
    using a ua ub by (simp add: unat_word_ariths(1))
  ultimately show ?thesis by simp
qed

lemma le16_word:
  fixes a b :: byte and c :: u32
  shows "(ucast a OR push_bit 8 (ucast b) :: 16 word) = ucast (c AND 0xFFFF) \<longleftrightarrow>
    of_le_bytes [a, b] = unat c mod 65536"
proof -
  have "unat (ucast (c AND 0xFFFF) :: 16 word) = unat c mod 65536"
    by (simp add: unsigned_ucast_eq unsigned_and_eq nat_and_low16 take_bit_eq_mod)
  then show ?thesis unfolding word_unat_eq_iff le16_unat by simp
qed

lemma continue_hcrc:
  assumes "gz_ready h flg pre" "gz_state h = gz_after_comment flg"
  shows "gz_continue h bs = spec_hcrc flg pre bs"
proof (cases "gz_has flg GZ_FHCRC")
  case True
  with assms have st: "gz_state h = ZU_INT_GZ_HCRC" by (simp add: gz_after_comment_def)
  show ?thesis
  proof (cases bs)
    case Nil
    with st True show ?thesis by (simp add: gz_continue_def spec_hcrc_def)
  next
    case (Cons a cs)
    with st assms True show ?thesis
      by (cases cs) (auto simp: gz_continue_def spec_hcrc_def gz_ready_def zu_int_gzip_header_feed_def Let_def
        gz_leave_def le16_word length_Suc_conv numeral_2_eq_2)
  qed
next
  case False
  with assms show ?thesis by (simp add: gz_continue_def spec_hcrc_def gz_after_comment_def)
qed

text \<open>A zero-terminated field, from any point inside it, in either of the two states.\<close>

lemma feed_string:
  assumes st: "gz_state h = S" "S = ZU_INT_GZ_NAME \<and> nx = gz_after_name flg \<or>
      S = ZU_INT_GZ_COMMENT \<and> nx = gz_after_comment flg"
    and rd: "gz_ready (h\<lparr>gz_field_len := 0\<rparr>) flg pre" and seen: "gz_field_len h \<le> ZU_INT_GZIP_MAX_FIELD"
    and k: "\<And>h' pre' bs'. gz_ready h' flg pre' \<Longrightarrow> gz_state h' = nx \<Longrightarrow> gz_continue h' bs' = k pre' bs'"
  shows "outcome (gzip_feed_all h bs) = spec_string k (gz_field_len h) pre bs"
  using st(1) rd seen
proof (induction bs arbitrary: h pre)
  case Nil
  then show ?case by (simp add: spec_string_def)
next
  case (Cons b bs)
  let ?h = "h\<lparr>gz_crc := mz_crc32 (gz_crc h) [b]\<rparr>"
  show ?case
  proof (cases "b = 0")
    case True
    let ?n = "?h\<lparr>gz_field_len := 0, gz_state := nx\<rparr>"
    have "zu_int_gzip_header_feed h b = gz_leave ?n"
      using st(2) Cons.prems True by (auto simp: zu_int_gzip_header_feed_def gz_ready_def)
    then have "outcome (gzip_feed_all h (b # bs)) = gz_continue ?n bs" by (rule feed_leave)
    also have "\<dots> = k (pre @ [0]) bs"
      using Cons.prems True by (intro k) (auto simp: gz_ready_def mz_crc32_append)
    finally show ?thesis using True Cons.prems(3) by (simp add: spec_string_def)
  next
    case False
    let ?n = "?h\<lparr>gz_field_len := gz_field_len h + 1\<rparr>"
    have f: "zu_int_gzip_header_feed h b =
        (if gz_field_len h + 1 > ZU_INT_GZIP_MAX_FIELD then (ZU_ERR_INVALID_DATA, ?n, False) else (ZU_OK, ?n, False))"
      using st(2) Cons.prems(1) False by (auto simp: zu_int_gzip_header_feed_def Let_def)
    show ?thesis
    proof (cases "gz_field_len h + 1 > ZU_INT_GZIP_MAX_FIELD")
      case True
      with f False show ?thesis by (simp add: spec_string_def)
    next
      case small: False
      have "outcome (gzip_feed_all ?n bs) = spec_string k (gz_field_len ?n) (pre @ [b]) bs"
        using Cons.prems small by (intro Cons.IH) (auto simp: gz_ready_def mz_crc32_append)
      with f False small show ?thesis by (simp add: spec_string_def Let_def)
    qed
  qed
qed

lemma continue_comment:
  assumes "gz_ready h flg pre" "gz_state h = gz_after_name flg"
  shows "gz_continue h bs = spec_comment flg pre bs"
proof (cases "gz_has flg GZ_FCOMMENT")
  case True
  with assms have st: "gz_state h = ZU_INT_GZ_COMMENT" by (simp add: gz_after_name_def)
  have "outcome (gzip_feed_all h bs) = spec_string (spec_hcrc flg) (gz_field_len h) pre bs"
    using assms(1) by (intro feed_string [OF st]) (auto intro: continue_hcrc simp: gz_ready_def)
  with st True assms(1) show ?thesis by (simp add: gz_continue_def spec_comment_def gz_ready_def)
qed (use assms continue_hcrc in \<open>simp add: spec_comment_def gz_after_name_def\<close>)

lemma continue_name:
  assumes "gz_ready h flg pre" "gz_state h = gz_after_extra flg"
  shows "gz_continue h bs = spec_name flg pre bs"
proof (cases "gz_has flg GZ_FNAME")
  case True
  with assms have st: "gz_state h = ZU_INT_GZ_NAME" by (simp add: gz_after_extra_def)
  have "outcome (gzip_feed_all h bs) = spec_string (spec_comment flg) (gz_field_len h) pre bs"
    using assms(1) by (intro feed_string [OF st]) (auto intro: continue_comment simp: gz_ready_def)
  with st True assms(1) show ?thesis by (simp add: gz_continue_def spec_name_def gz_ready_def)
qed (use assms continue_comment in \<open>simp add: spec_name_def gz_after_extra_def\<close>)

text \<open>The bytes of the extra field are counted, not read.\<close>

lemma feed_extra_bytes:
  assumes "gz_state h = ZU_INT_GZ_EXTRA" "gz_ready h flg pre" "gz_xpos h < unat (gz_xlen h)"
  defines "n \<equiv> unat (gz_xlen h) - gz_xpos h"
  shows "outcome (gzip_feed_all h bs) =
    (if length bs < n then More else spec_name flg (pre @ take n bs) (drop n bs))"
  using assms(1-3) unfolding n_def
proof (induction bs arbitrary: h pre)
  case (Cons b bs)
  let ?h = "h\<lparr>gz_crc := mz_crc32 (gz_crc h) [b], gz_xpos := gz_xpos h + 1\<rparr>"
  have rd: "gz_ready ?h flg (pre @ [b])" using Cons.prems(2) by (simp add: gz_ready_def mz_crc32_append)
  have n: "unat (gz_xlen h) - gz_xpos h = Suc (unat (gz_xlen h) - Suc (gz_xpos h))" using Cons.prems(3) by simp
  show ?case
  proof (cases "Suc (gz_xpos h) < unat (gz_xlen h)")
    case True
    then have f: "zu_int_gzip_header_feed h b = (ZU_OK, ?h, False)"
      using Cons.prems by (simp add: zu_int_gzip_header_feed_def Let_def)
    have "outcome (gzip_feed_all ?h bs) = (if length bs < unat (gz_xlen ?h) - gz_xpos ?h then More
        else spec_name flg ((pre @ [b]) @ take (unat (gz_xlen ?h) - gz_xpos ?h) bs)
               (drop (unat (gz_xlen ?h) - gz_xpos ?h) bs))"
      using True Cons.prems(1) rd by (intro Cons.IH) simp_all
    with f n show ?thesis by simp
  next
    case False
    then have "zu_int_gzip_header_feed h b = gz_leave (?h\<lparr>gz_state := gz_after_extra flg\<rparr>)"
      using Cons.prems by (simp add: zu_int_gzip_header_feed_def Let_def gz_ready_def)
    then have "outcome (gzip_feed_all h (b # bs)) = gz_continue (?h\<lparr>gz_state := gz_after_extra flg\<rparr>) bs"
      by (rule feed_leave)
    also have "\<dots> = spec_name flg (pre @ [b]) bs" using rd by (intro continue_name) (simp_all add: gz_ready_def)
    finally show ?thesis using False Cons.prems(3) by (simp add: n)
  qed
qed simp

lemma continue_extra:
  assumes rd: "gz_ready h flg pre" and st: "gz_state h = gz_after_fixed flg"
    and z: "gz_xlen h = 0" "gz_xlen_pos h = 0" "gz_xpos h = 0"
  shows "gz_continue h bs = spec_extra flg pre bs"
proof (cases "gz_has flg GZ_FEXTRA")
  case True
  with st have s: "gz_state h = ZU_INT_GZ_EXTRA_LEN" by (simp add: gz_after_fixed_def)
  show ?thesis
  proof (cases bs)
    case Nil
    with s True show ?thesis by (simp add: gz_continue_def spec_extra_def)
  next
    case (Cons a cs)
    let ?h = "h\<lparr>gz_crc := mz_crc32 (gz_crc h) [a], gz_xlen := ucast a, gz_xlen_pos := 1\<rparr>"
    have fa: "zu_int_gzip_header_feed h a = (ZU_OK, ?h, False)"
      using s z by (simp add: zu_int_gzip_header_feed_def)
    show ?thesis
    proof (cases cs)
      case Nil
      with Cons s True fa show ?thesis by (simp add: gz_continue_def spec_extra_def)
    next
      case (Cons b r)
      let ?n = "ucast a OR push_bit 8 (ucast b) :: 16 word"
      let ?g = "?h\<lparr>gz_crc := mz_crc32 (gz_crc ?h) [b], gz_xlen := ?n, gz_xlen_pos := Suc (Suc 0)\<rparr>"
      let ?k = "?g\<lparr>gz_state := (if ?n > 0 then ZU_INT_GZ_EXTRA else gz_after_extra flg)\<rparr>"
      have fb: "zu_int_gzip_header_feed ?h b = gz_leave ?k"
        using s rd by (simp add: zu_int_gzip_header_feed_def gz_ready_def)
      have rdk: "gz_ready ?k flg (pre @ [a, b])"
        using rd mz_crc32_append [of 0 pre "[a, b]"] mz_crc32_append [of "gz_crc h" "[a]" "[b]"]
        by (simp add: gz_ready_def)
      have "gz_continue h bs = gz_continue ?k r"
        using s fa feed_leave [OF fb] \<open>bs = a # cs\<close> Cons by (simp add: gz_continue_def)
      also have "\<dots> = (if length r < unat ?n then More else spec_name flg ((pre @ [a, b]) @ take (unat ?n) r) (drop (unat ?n) r))"
      proof (cases "?n > 0")
        case True
        then have pos: "0 < unat ?n" by (simp add: word_less_nat_alt)
        with True have "gz_continue ?k r = outcome (gzip_feed_all ?k r)" by (simp add: gz_continue_def)
        with feed_extra_bytes [of ?k flg "pre @ [a, b]" r] True pos rdk z show ?thesis by simp
      next
        case False
        then have "?n = 0" "unat ?n = 0" by (simp_all add: word_gt_0)
        with continue_name [OF rdk, of r] show ?thesis by simp
      qed
      finally show ?thesis
        unfolding le16_unat using True \<open>bs = a # cs\<close> Cons by (simp add: spec_extra_def Let_def)
    qed
  qed
qed (use assms continue_name in \<open>simp add: spec_extra_def gz_after_fixed_def\<close>)

text \<open>The ten fixed bytes.\<close>

definition gz_bad :: "nat \<Rightarrow> byte \<Rightarrow> bool" where
  "gz_bad i b \<longleftrightarrow> i = 0 \<and> b \<noteq> 0x1F \<or> i = 1 \<and> b \<noteq> 0x8B \<or> i = 2 \<and> b \<noteq> 8 \<or> i = 3 \<and> gz_has b GZ_RESERVED"

lemma gzip_header_spec_bad:
  "gzip_header_spec bs =
    (if \<exists>i < length bs. gz_bad i (bs ! i) then Err ZU_ERR_INVALID_DATA
     else if length bs < 10 then More else spec_extra (bs ! 3) (take 10 bs) (drop 10 bs))"
proof -
  have "(0 < length bs \<and> bs ! 0 \<noteq> 0x1F \<or> 1 < length bs \<and> bs ! 1 \<noteq> 0x8B \<or>
         2 < length bs \<and> bs ! 2 \<noteq> 8 \<or> 3 < length bs \<and> gz_has (bs ! 3) GZ_RESERVED) \<longleftrightarrow>
      (\<exists>i < length bs. gz_bad i (bs ! i))" by (auto simp: gz_bad_def)
  then show ?thesis by (simp only: gzip_header_spec_def)
qed

definition gz_in_fixed :: "zu_int_gzip_header \<Rightarrow> byte list \<Rightarrow> bool" where
  "gz_in_fixed h pre \<longleftrightarrow> gz_state h = ZU_INT_GZ_FIXED \<and> gz_fixed_pos h = length pre \<and> length pre < 10 \<and>
     gz_ready h (if 3 < length pre then pre ! 3 else 0) pre \<and>
     gz_xlen h = 0 \<and> gz_xlen_pos h = 0 \<and> gz_xpos h = 0 \<and> (\<forall>i < length pre. \<not> gz_bad i (pre ! i))"

lemma feed_fixed:
  "gz_in_fixed h pre \<Longrightarrow> outcome (gzip_feed_all h bs) = gzip_header_spec (pre @ bs)"
proof (induction bs arbitrary: h pre)
  case Nil
  then show ?case by (auto simp: gzip_header_spec_bad gz_in_fixed_def)
next
  case (Cons b bs)
  let ?f = "if Suc (length pre) > 3 then (pre @ [b]) ! 3 else 0"
  let ?h = "h\<lparr>gz_crc := mz_crc32 (gz_crc h) [b], gz_fixed := (gz_fixed h)[gz_fixed_pos h := b],
              gz_fixed_pos := Suc (length pre)\<rparr>"
  let ?n = "if length pre = 3 then ?h\<lparr>gz_flg := b\<rparr> else ?h"
  have rd: "gz_ready ?n ?f (pre @ [b])"
    using Cons.prems mz_crc32_append [of 0 pre "[b]"]
    by (auto simp: gz_in_fixed_def gz_ready_def nth_append less_Suc_eq)
  show ?case
  proof (cases "gz_bad (length pre) b")
    case True
    have ex: "\<exists>i < length (pre @ b # bs). gz_bad i ((pre @ b # bs) ! i)"
      using True by (intro exI [of _ "length pre"]) simp
    have "outcome (gzip_feed_all h (b # bs)) = Err ZU_ERR_INVALID_DATA"
      using True Cons.prems
      by (auto simp: gz_in_fixed_def gz_bad_def zu_int_gzip_header_feed_def Let_def)
    then show ?thesis using ex by (simp only: gzip_header_spec_bad if_True)
  next
    case good: False
    have ok: "\<forall>i < length (pre @ [b]). \<not> gz_bad i ((pre @ [b]) ! i)"
      using Cons.prems good by (auto simp: gz_in_fixed_def nth_append less_Suc_eq)
    show ?thesis
    proof (cases "Suc (length pre) < 10")
      case True
      have "zu_int_gzip_header_feed h b = (ZU_OK, ?n, False)"
        using True good Cons.prems
        by (auto simp: gz_in_fixed_def gz_bad_def zu_int_gzip_header_feed_def Let_def ZU_INT_GZIP_HEADER_LEN_def)
      moreover have "gz_in_fixed ?n (pre @ [b])"
        using True ok rd Cons.prems by (simp add: gz_in_fixed_def)
      ultimately show ?thesis using Cons.IH [of ?n "pre @ [b]"] by simp
    next
      case False
      with Cons.prems have l: "length pre = 9" by (simp add: gz_in_fixed_def)
      let ?g = "?n\<lparr>gz_state := gz_after_fixed ?f\<rparr>"
      have "zu_int_gzip_header_feed h b = gz_leave ?g"
        using l good Cons.prems
        by (auto simp: gz_in_fixed_def gz_ready_def gz_bad_def zu_int_gzip_header_feed_def Let_def
            ZU_INT_GZIP_HEADER_LEN_def nth_append)
      then have "outcome (gzip_feed_all h (b # bs)) = gz_continue ?g bs" by (rule feed_leave)
      also have "\<dots> = spec_extra ?f (pre @ [b]) bs"
        using rd Cons.prems l by (intro continue_extra) (auto simp: gz_ready_def gz_in_fixed_def)
      also have "\<dots> = gzip_header_spec (pre @ b # bs)"
      proof -
        have "\<not> (\<exists>i < length (pre @ b # bs). gz_bad i ((pre @ b # bs) ! i))"
        proof
          assume "\<exists>i < length (pre @ b # bs). gz_bad i ((pre @ b # bs) ! i)"
          then obtain i where i: "gz_bad i ((pre @ b # bs) ! i)" by blast
          then have "i < 4" by (auto simp: gz_bad_def)
          with i ok [rule_format, of i] l show False by (simp add: nth_append)
        qed
        then have "gzip_header_spec (pre @ b # bs) = (if length (pre @ b # bs) < 10 then More
            else spec_extra ((pre @ b # bs) ! 3) (take 10 (pre @ b # bs)) (drop 10 (pre @ b # bs)))"
          by (simp only: gzip_header_spec_bad if_False)
        then show ?thesis using l by (simp add: nth_append)
      qed
      finally show ?thesis .
    qed
  qed
qed

lemma gzip_feed_all_spec: "outcome (gzip_feed_all zu_int_gzip_header_init bs) = gzip_header_spec bs"
proof -
  have "gz_in_fixed zu_int_gzip_header_init []"
    by (simp add: gz_in_fixed_def gz_ready_def zu_int_gzip_header_init_def)
  from feed_fixed [OF this] show ?thesis by simp
qed

subsection \<open>Every header is decided within a bounded number of bytes\<close>

lemma spec_hcrc_more: "spec_hcrc flg pre bs = More \<Longrightarrow> length bs < 2"
  by (auto simp: spec_hcrc_def split: if_splits list.splits)

lemma spec_string_more:
  assumes "spec_string k 0 pre bs = More" "\<And>p r. k p r = More \<Longrightarrow> length r < m"
  shows "length bs < 65536 + m"
proof -
  let ?s = "takeWhile (\<lambda>b. b \<noteq> 0) bs"
  from assms(1) have s: "length ?s \<le> 65535" and
    c: "length ?s = length bs \<or> k (pre @ ?s @ [0]) (drop (Suc (length ?s)) bs) = More"
    by (auto simp: spec_string_def Let_def ZU_INT_GZIP_MAX_FIELD_def split: if_splits)
  from c show ?thesis
  proof
    assume "k (pre @ ?s @ [0]) (drop (Suc (length ?s)) bs) = More"
    from assms(2) [OF this] s show ?thesis by simp
  qed (use s in simp)
qed

lemma spec_comment_more: "spec_comment flg pre bs = More \<Longrightarrow> length bs < 65538"
  using spec_string_more [of "spec_hcrc flg" pre bs 2] spec_hcrc_more [of flg]
  by (fastforce simp: spec_comment_def split: if_splits)

lemma spec_name_more: "spec_name flg pre bs = More \<Longrightarrow> length bs < 131074"
  using spec_string_more [of "spec_comment flg" pre bs 65538] spec_comment_more [of flg]
  by (fastforce simp: spec_name_def split: if_splits)

lemma spec_extra_more:
  assumes "spec_extra flg pre bs = More"
  shows "length bs < 196611"
proof (cases "gz_has flg GZ_FEXTRA")
  case True
  show ?thesis
  proof (cases "\<exists>a b r. bs = a # b # r")
    case two: True
    then obtain a b r where bs: "bs = a # b # r" by blast
    have n: "of_le_bytes [a, b] < 65536" using of_le_bytes_bound [of "[a, b]"] by simp
    from assms True bs have "length r < of_le_bytes [a, b] \<or> length (drop (of_le_bytes [a, b]) r) < 131074"
      by (auto simp: spec_extra_def Let_def dest: spec_name_more split: if_splits)
    with n bs show ?thesis by auto
  next
    case False
    then show ?thesis by (cases bs; cases "tl bs") auto
  qed
next
  case False
  with assms spec_name_more show ?thesis by (force simp: spec_extra_def)
qed

lemma gzip_header_spec_more: "gzip_header_spec bs = More \<Longrightarrow> length bs < 196621"
  using spec_extra_more [of "bs ! 3" "take 10 bs" "drop 10 bs"]
  by (auto simp: gzip_header_spec_def split: if_splits)

lemma gzip_written_header_done:
  "gzip_feed_all zu_int_gzip_header_init (zu_int_gzip_write_header @ payload) = Header_done payload"
proof -
  have "outcome (gzip_feed_all zu_int_gzip_header_init (zu_int_gzip_write_header @ payload)) = Done payload"
    unfolding gzip_feed_all_spec
    by (simp add: gzip_header_spec_def zu_int_gzip_write_header_def spec_extra_def
        spec_name_def spec_comment_def spec_hcrc_def gz_has_def gz_flag_bits)
  then show ?thesis
    by (cases "gzip_feed_all zu_int_gzip_header_init (zu_int_gzip_write_header @ payload)") simp_all
qed

subsection \<open>Properties\<close>


text \<open>the parser cannot be kept busy: whatever 196621 bytes arrive, it has accepted or rejected
  the header by then, in spite of two unbounded string fields.\<close>

theorem gzip_header_bounded:
  assumes "196621 \<le> length bs"
  shows "outcome (gzip_feed_all zu_int_gzip_header_init bs) \<noteq> More"
  using assms gzip_header_spec_more [of bs] by (auto simp: gzip_feed_all_spec)

theorem gzip_header_bounded_witness:
  "outcome (gzip_feed_all zu_int_gzip_header_init (replicate 196621 0x1F)) \<noteq> More"
  by (rule gzip_header_bounded) simp

text \<open>The header the encoder writes is accepted by the parser, which stops right behind it.\<close>

theorem gzip_header_written_accepted:
  "gzip_feed_all zu_int_gzip_header_init (zu_int_gzip_write_header @ payload) = Header_done payload"
  by (rule gzip_written_header_done)

text \<open>C37: a failed header checksum leaves the parser where a further byte is stored one element
  past the two-byte array \<^verbatim>\<open>hcrc\<close>: nothing in \<^verbatim>\<open>zu_int_gzip_header_feed\<close> remembers the error, so a
  caller that calls the decoder again after \<^const>\<open>ZU_ERR_CHECKSUM\<close> makes it write out of bounds.\<close>

theorem gzip_hcrc_error_not_sticky:
  assumes "gz_state h = ZU_INT_GZ_HCRC" "gz_hcrc_pos h = 1" "length (gz_hcrc h) = 2"
    and "zu_int_gzip_header_feed h b = (ZU_ERR_CHECKSUM, h', d)"
  shows "gz_state h' = ZU_INT_GZ_HCRC \<and> gz_hcrc_pos h' = length (gz_hcrc h') \<and>
    (\<exists>st h2 d2. zu_int_gzip_header_feed h' b2 = (st, h2, d2) \<and> gz_hcrc_pos h2 = gz_hcrc_pos h' + 1)"
  using assms by (auto simp: zu_int_gzip_header_feed_def Let_def gz_leave_def split: if_splits)

definition hcrc_demo :: zu_int_gzip_header where
  "hcrc_demo = zu_int_gzip_header_init\<lparr>gz_state := ZU_INT_GZ_HCRC, gz_hcrc := [7, 0], gz_hcrc_pos := 1\<rparr>"

theorem gzip_hcrc_error_not_sticky_witness:
  "gz_state (hcrc_demo\<lparr>gz_hcrc := [7, 9], gz_hcrc_pos := 2\<rparr>) = ZU_INT_GZ_HCRC \<and>
   gz_hcrc_pos (hcrc_demo\<lparr>gz_hcrc := [7, 9], gz_hcrc_pos := 2\<rparr>) = length (gz_hcrc (hcrc_demo\<lparr>gz_hcrc := [7, 9], gz_hcrc_pos := 2\<rparr>)) \<and>
    (\<exists>st h2 d2. zu_int_gzip_header_feed (hcrc_demo\<lparr>gz_hcrc := [7, 9], gz_hcrc_pos := 2\<rparr>) 5 = (st, h2, d2) \<and>
      gz_hcrc_pos h2 = gz_hcrc_pos (hcrc_demo\<lparr>gz_hcrc := [7, 9], gz_hcrc_pos := 2\<rparr>) + 1)"
proof (rule gzip_hcrc_error_not_sticky [where h = hcrc_demo and b = 9])
  show "zu_int_gzip_header_feed hcrc_demo 9 = (ZU_ERR_CHECKSUM, hcrc_demo\<lparr>gz_hcrc := [7, 9], gz_hcrc_pos := 2\<rparr>, False)"
    by code_simp
qed (simp_all add: hcrc_demo_def)

end
