(* ===== verification/Codec_Deflate.thy ===== *)
theory Codec_Deflate
  imports Codec_Identity Zu_Gzip
begin

unbundle bit_operations_syntax

text \<open>
  \<^verbatim>\<open>src/codec_deflate.c\<close>: the DEFLATE family. One engine and three wrappers, \<^verbatim>\<open>deflate-raw\<close>,
  \<^verbatim>\<open>zlib\<close> and \<^verbatim>\<open>gzip\<close>. The process function is one loop whose body is the composition of the
  step functions below, one for each state of the wrapper.

  miniz's streaming coder is the parameter \<open>eng\<close>, a record of its entry points; \<open>mz_contract\<close>
  is what the loop relies on. An \<^verbatim>\<open>mz_stream\<close> is a value of type \<open>'m\<close>, or \<open>None\<close> where the code
  has zeroed it. A call is given the input and the amount of output room that the code puts
  into the stream's fields, and returns its code, the number of input bytes it used, and the
  bytes it produced.
\<close>

subsection \<open>The engine\<close>

definition MZ_OK :: int where "MZ_OK = 0"
definition MZ_STREAM_END :: int where "MZ_STREAM_END = 1"
definition MZ_NEED_DICT :: int where "MZ_NEED_DICT = 2"
definition MZ_STREAM_ERROR :: int where "MZ_STREAM_ERROR = - 2"
definition MZ_DATA_ERROR :: int where "MZ_DATA_ERROR = - 3"
definition MZ_MEM_ERROR :: int where "MZ_MEM_ERROR = - 4"
definition MZ_BUF_ERROR :: int where "MZ_BUF_ERROR = - 5"
definition MZ_PARAM_ERROR :: int where "MZ_PARAM_ERROR = - 10000"

definition MZ_NO_FLUSH :: int where "MZ_NO_FLUSH = 0"
definition MZ_SYNC_FLUSH :: int where "MZ_SYNC_FLUSH = 2"
definition MZ_FINISH :: int where "MZ_FINISH = 4"

definition MZ_DEFAULT_LEVEL :: int where "MZ_DEFAULT_LEVEL = 6"

lemmas mz_codes =
  MZ_OK_def MZ_STREAM_END_def MZ_NEED_DICT_def MZ_STREAM_ERROR_def MZ_DATA_ERROR_def
  MZ_MEM_ERROR_def MZ_BUF_ERROR_def MZ_PARAM_ERROR_def

lemmas mz_flushes = MZ_NO_FLUSH_def MZ_SYNC_FLUSH_def MZ_FINISH_def

record 'm mz_engine =
  mz_deflateInit2 :: "int \<Rightarrow> int \<times> 'm option"
  mz_inflateInit2 :: "int \<times> 'm option"
  mz_deflate :: "'m option \<Rightarrow> byte list \<Rightarrow> nat \<Rightarrow> int \<Rightarrow> int \<times> nat \<times> byte list \<times> 'm option"
  mz_inflate :: "'m option \<Rightarrow> byte list \<Rightarrow> nat \<Rightarrow> int \<Rightarrow> int \<times> nat \<times> byte list \<times> 'm option"
  mz_deflateReset :: "'m option \<Rightarrow> int \<times> 'm option"
  mz_inflateReset :: "'m option \<Rightarrow> int \<times> 'm option"

subsection \<open>State\<close>

datatype wrap_kind = WRAP_NONE | WRAP_ZLIB | WRAP_GZIP

datatype wrap_state = ST_HEADER | ST_BODY | ST_TRAILER | ST_MEMBER_END | ST_DONE

record 'm deflate_state =
  ds_mz :: "'m option"
  ds_mz_live :: bool
  ds_mz_called :: bool
  ds_encoder :: bool
  ds_wrap :: wrap_kind
  ds_state :: wrap_state
  ds_level :: int
  ds_hdr :: "byte list"
  ds_hdr_len :: nat
  ds_hdr_pos :: nat
  ds_tail :: "byte list"
  ds_tail_len :: nat
  ds_tail_pos :: nat
  ds_checksum :: u32
  ds_uncompressed :: nat
  ds_gz :: zu_int_gzip_header
  ds_dec_flags :: u32
  ds_probe_magic :: bool

subsection \<open>Status mapping\<close>

definition zu_int_from_mz :: "int \<Rightarrow> zu_status" where
  "zu_int_from_mz mz =
     (if mz = MZ_OK then ZU_OK
      else if mz = MZ_STREAM_END then ZU_STREAM_END
      else if mz = MZ_BUF_ERROR then ZU_OK
      else if mz = MZ_DATA_ERROR then ZU_ERR_INVALID_DATA
      else if mz = MZ_MEM_ERROR then ZU_ERR_MEMORY
      else if mz = MZ_PARAM_ERROR then ZU_ERR_INVALID_ARGUMENT
      else if mz = MZ_STREAM_ERROR then ZU_ERR_INVALID_DATA
      else if mz = MZ_NEED_DICT then ZU_ERR_UNSUPPORTED
      else ZU_ERR_INTERNAL)"

definition zu_int_to_mz_flush :: "zu_flush \<Rightarrow> int" where
  "zu_int_to_mz_flush f =
     (case f of ZU_FLUSH \<Rightarrow> MZ_SYNC_FLUSH | ZU_FINISH \<Rightarrow> MZ_FINISH | _ \<Rightarrow> MZ_NO_FLUSH)"

subsection \<open>The zlib wrapper\<close>

definition zu_int_zlib_header :: "int \<Rightarrow> byte list" where
  "zu_int_zlib_header level =
     (let cmf = (0x78 :: byte);
          flevel = (if level \<le> 1 then 0 else if level \<le> 5 then 1 else if level = 6 then 2 else 3 :: byte);
          flg = push_bit 6 flevel;
          check = (push_bit 8 (ucast cmf) OR ucast flg :: 16 word);
          rem = (ucast (check mod 31) :: byte);
          flg' = (if rem \<noteq> 0 then flg + (31 - rem) else flg)
      in [cmf, flg'])"

definition zu_int_zlib_check_header :: "byte \<Rightarrow> byte \<Rightarrow> zu_status" where
  "zu_int_zlib_check_header cmf flg =
     (if cmf AND 0x0F \<noteq> 8 then ZU_ERR_INVALID_DATA
      else if drop_bit 4 cmf AND 0x0F > 7 then ZU_ERR_INVALID_DATA
      else if (push_bit 8 (ucast cmf) OR ucast flg :: 16 word) mod 31 \<noteq> 0 then ZU_ERR_INVALID_DATA
      else if flg AND 0x20 \<noteq> 0 then ZU_ERR_UNSUPPORTED
      else ZU_OK)"

definition zu_int_checksum_init :: "wrap_kind \<Rightarrow> u32" where
  "zu_int_checksum_init w = (if w = WRAP_GZIP then mz_crc32 0 [] else mz_adler32 0 None)"

definition zu_int_checksum_update :: "wrap_kind \<Rightarrow> u32 \<Rightarrow> byte list \<Rightarrow> u32" where
  "zu_int_checksum_update w v p =
     (if p = [] then v else if w = WRAP_GZIP then mz_crc32 v p else mz_adler32 v (Some p))"

subsection \<open>Life cycle\<close>

text \<open>The wrapper part of \<^verbatim>\<open>zu_int_deflate_new\<close>, its second \<^verbatim>\<open>switch\<close>.\<close>

definition deflate_new_wrap :: "'m deflate_state \<Rightarrow> 'm deflate_state" where
  "deflate_new_wrap s =
     (case ds_wrap s of
        WRAP_ZLIB \<Rightarrow>
          (let s1 = s\<lparr>ds_state := ST_HEADER, ds_hdr_len := 2, ds_tail_len := 4\<rparr>
           in if ds_encoder s then s1\<lparr>ds_hdr := write_at (ds_hdr s) 0 (zu_int_zlib_header (ds_level s))\<rparr> else s1)
      | WRAP_GZIP \<Rightarrow>
          (let s1 = s\<lparr>ds_state := ST_HEADER, ds_hdr_len := ZU_INT_GZIP_HEADER_LEN, ds_tail_len := 8\<rparr>
           in if ds_encoder s then s1\<lparr>ds_hdr := zu_int_gzip_write_header\<rparr>
              else s1\<lparr>ds_gz := zu_int_gzip_header_init\<rparr>)
      | WRAP_NONE \<Rightarrow> s\<lparr>ds_state := ST_BODY, ds_tail_len := 0\<rparr>)"

text \<open>A state as \<^verbatim>\<open>calloc\<close> leaves it, with the fields set before the engine is initialised.\<close>

definition gz_zero :: zu_int_gzip_header where
  "gz_zero = zu_int_gzip_header_init\<lparr>gz_crc := 0\<rparr>"

definition deflate_blank :: "wrap_kind \<Rightarrow> bool \<Rightarrow> int \<Rightarrow> u32 \<Rightarrow> 'm deflate_state" where
  "deflate_blank wrap encoder level dec_flags =
     \<lparr>ds_mz = None, ds_mz_live = False, ds_mz_called = False, ds_encoder = encoder, ds_wrap = wrap,
      ds_state = ST_HEADER, ds_level = (if level = ZU_LEVEL_DEFAULT then MZ_DEFAULT_LEVEL else level),
      ds_hdr = replicate ZU_INT_GZIP_HEADER_LEN 0, ds_hdr_len = 0, ds_hdr_pos = 0,
      ds_tail = replicate 8 0, ds_tail_len = 0, ds_tail_pos = 0,
      ds_checksum = zu_int_checksum_init wrap, ds_uncompressed = 0, ds_gz = gz_zero,
      ds_dec_flags = dec_flags, ds_probe_magic = False\<rparr>"

definition zu_int_deflate_new ::
  "alloc \<Rightarrow> 'm mz_engine \<Rightarrow> wrap_kind \<Rightarrow> bool \<Rightarrow> int \<Rightarrow> u32 \<Rightarrow> zu_status \<times> 'm deflate_state option" where
  "zu_int_deflate_new mem eng wrap encoder level dec_flags =
     (if \<not> mem ''deflate_state'' 1 then (ZU_ERR_MEMORY, None)
      else
        (let s = deflate_blank wrap encoder level dec_flags
         in case (if encoder then mz_deflateInit2 eng (ds_level s) else mz_inflateInit2 eng) of
              (mz, m) \<Rightarrow>
                if mz \<noteq> MZ_OK then (zu_int_from_mz mz, None)
                else (ZU_OK, Some (deflate_new_wrap (s\<lparr>ds_mz := m, ds_mz_live := True\<rparr>)))))"

definition deflate_raw_encoder_new ::
  "alloc \<Rightarrow> 'm mz_engine \<Rightarrow> zu_encoder_opts \<Rightarrow> zu_status \<times> 'm deflate_state option" where
  "deflate_raw_encoder_new mem eng os = zu_int_deflate_new mem eng WRAP_NONE True (eo_level os) 0"

definition deflate_raw_decoder_new ::
  "alloc \<Rightarrow> 'm mz_engine \<Rightarrow> zu_decoder_opts \<Rightarrow> zu_status \<times> 'm deflate_state option" where
  "deflate_raw_decoder_new mem eng os = zu_int_deflate_new mem eng WRAP_NONE False ZU_LEVEL_DEFAULT (do_flags os)"

definition zlib_encoder_new ::
  "alloc \<Rightarrow> 'm mz_engine \<Rightarrow> zu_encoder_opts \<Rightarrow> zu_status \<times> 'm deflate_state option" where
  "zlib_encoder_new mem eng os = zu_int_deflate_new mem eng WRAP_ZLIB True (eo_level os) 0"

definition zlib_decoder_new ::
  "alloc \<Rightarrow> 'm mz_engine \<Rightarrow> zu_decoder_opts \<Rightarrow> zu_status \<times> 'm deflate_state option" where
  "zlib_decoder_new mem eng os = zu_int_deflate_new mem eng WRAP_ZLIB False ZU_LEVEL_DEFAULT (do_flags os)"

definition gzip_encoder_new ::
  "alloc \<Rightarrow> 'm mz_engine \<Rightarrow> zu_encoder_opts \<Rightarrow> zu_status \<times> 'm deflate_state option" where
  "gzip_encoder_new mem eng os = zu_int_deflate_new mem eng WRAP_GZIP True (eo_level os) 0"

definition gzip_decoder_new ::
  "alloc \<Rightarrow> 'm mz_engine \<Rightarrow> zu_decoder_opts \<Rightarrow> zu_status \<times> 'm deflate_state option" where
  "gzip_decoder_new mem eng os = zu_int_deflate_new mem eng WRAP_GZIP False ZU_LEVEL_DEFAULT (do_flags os)"

definition deflate_free :: "'m deflate_state option \<Rightarrow> string list" where
  "deflate_free st =
     (case st of
        None \<Rightarrow> []
      | Some s \<Rightarrow> (if ds_mz_live s then [if ds_encoder s then ''mz_deflateEnd'' else ''mz_inflateEnd''] else []) @
                  [''free''])"

text \<open>The tail of \<^verbatim>\<open>zu_int_deflate_reset\<close>, after the engine has been reset.\<close>

definition deflate_rewind :: "'m deflate_state \<Rightarrow> 'm deflate_state" where
  "deflate_rewind s0 =
     (let s = s0\<lparr>ds_mz_called := False, ds_checksum := zu_int_checksum_init (ds_wrap s0), ds_uncompressed := 0,
                 ds_hdr_pos := 0, ds_tail_pos := 0, ds_probe_magic := False\<rparr>
      in case ds_wrap s of
           WRAP_ZLIB \<Rightarrow>
             (if ds_encoder s
              then s\<lparr>ds_state := ST_HEADER, ds_hdr := write_at (ds_hdr s) 0 (zu_int_zlib_header (ds_level s))\<rparr>
              else s\<lparr>ds_state := ST_HEADER\<rparr>)
         | WRAP_GZIP \<Rightarrow>
             (if ds_encoder s then s\<lparr>ds_state := ST_HEADER, ds_hdr := zu_int_gzip_write_header\<rparr>
              else s\<lparr>ds_state := ST_HEADER, ds_gz := zu_int_gzip_header_init\<rparr>)
         | WRAP_NONE \<Rightarrow> s\<lparr>ds_state := ST_BODY\<rparr>)"

definition zu_int_deflate_reset ::
  "'m mz_engine \<Rightarrow> 'm deflate_state \<Rightarrow> int \<Rightarrow> zu_status \<times> 'm deflate_state" where
  "zu_int_deflate_reset eng s level =
     (let want = (if ds_encoder s \<and> level \<noteq> ZU_LEVEL_DEFAULT then level else ds_level s)
      in if ds_encoder s \<and> want \<noteq> ds_level s
         then (case mz_deflateInit2 eng want of
                 (mz, m) \<Rightarrow>
                   (let s1 = s\<lparr>ds_mz := m, ds_mz_live := False\<rparr>
                    in if mz \<noteq> MZ_OK then (zu_int_from_mz mz, s1)
                       else (ZU_OK, deflate_rewind (s1\<lparr>ds_mz_live := True, ds_level := want\<rparr>))))
         else (case (if ds_encoder s then mz_deflateReset eng (ds_mz s) else mz_inflateReset eng (ds_mz s)) of
                 (mz, m) \<Rightarrow>
                   if mz \<noteq> MZ_OK then (zu_int_from_mz mz, s\<lparr>ds_mz := m\<rparr>)
                   else (ZU_OK, deflate_rewind (s\<lparr>ds_mz := m\<rparr>))))"

definition deflate_encoder_reset ::
  "'m mz_engine \<Rightarrow> 'm deflate_state option \<Rightarrow> zu_encoder_opts \<Rightarrow> zu_status \<times> 'm deflate_state option" where
  "deflate_encoder_reset eng st os =
     (case st of
        None \<Rightarrow> (ZU_ERR_INVALID_ARGUMENT, None)
      | Some s \<Rightarrow> map_prod id Some (zu_int_deflate_reset eng s (eo_level os)))"

definition deflate_decoder_reset ::
  "'m mz_engine \<Rightarrow> 'm deflate_state option \<Rightarrow> zu_decoder_opts \<Rightarrow> zu_status \<times> 'm deflate_state option" where
  "deflate_decoder_reset eng st os =
     (case st of
        None \<Rightarrow> (ZU_ERR_INVALID_ARGUMENT, None)
      | Some s \<Rightarrow> map_prod id Some
          (zu_int_deflate_reset eng (s\<lparr>ds_dec_flags := do_flags os\<rparr>) ZU_LEVEL_DEFAULT))"

subsection \<open>One turn of the process loop\<close>

type_synonym 'm deflate_turn = "(zu_status \<times> 'm deflate_state \<times> zu_buffer, 'm deflate_state \<times> zu_buffer) loop_step"

text \<open>\<^verbatim>\<open>ST_HEADER\<close>.\<close>

definition deflate_header_step ::
  "'m deflate_state \<Rightarrow> zu_buffer \<Rightarrow> zu_flush \<Rightarrow> 'm deflate_turn" where
  "deflate_header_step s b flush =
     (if ds_encoder s
      then (if ds_hdr_pos s < ds_hdr_len s
            then (if avail_out b = 0 then Ret (ZU_NEED_OUTPUT, s, b)
                  else Next (s\<lparr>ds_hdr_pos := ds_hdr_pos s + 1\<rparr>, put_out [ds_hdr s ! ds_hdr_pos s] b))
            else Next (s\<lparr>ds_state := ST_BODY\<rparr>, b))
      else if ds_wrap s = WRAP_GZIP
      then (if avail_in b = 0 then Ret (if flush = ZU_FINISH then ZU_ERR_TRUNCATED else ZU_NEED_INPUT, s, b)
            else (case zu_int_gzip_header_feed (ds_gz s) (src_byte b 0) of
                    (hs, gz, done) \<Rightarrow>
                      (let s1 = s\<lparr>ds_gz := gz\<rparr>; b1 = skip_in 1 b
                       in if hs \<noteq> ZU_OK then Ret (hs, s1, b1)
                          else if \<not> done then Next (s1, b1)
                          else Next (s1\<lparr>ds_state := ST_BODY\<rparr>, b1))))
      else if ds_hdr_pos s < ds_hdr_len s
      then (if avail_in b = 0 then Ret (if flush = ZU_FINISH then ZU_ERR_TRUNCATED else ZU_NEED_INPUT, s, b)
            else Next (s\<lparr>ds_hdr := (ds_hdr s)[ds_hdr_pos s := src_byte b 0], ds_hdr_pos := ds_hdr_pos s + 1\<rparr>,
                       skip_in 1 b))
      else (let hs = zu_int_zlib_check_header (ds_hdr s ! 0) (ds_hdr s ! 1)
            in if hs \<noteq> ZU_OK then Ret (hs, s, b) else Next (s\<lparr>ds_state := ST_BODY\<rparr>, b)))"

text \<open>The trailer bytes of a finished encoder.\<close>

definition deflate_trailer :: "wrap_kind \<Rightarrow> u32 \<Rightarrow> nat \<Rightarrow> byte list" where
  "deflate_trailer w c n =
     (if w = WRAP_ZLIB
      then [ucast (drop_bit 24 c), ucast (drop_bit 16 c), ucast (drop_bit 8 c), ucast c]
      else (let isize = word_of_nat n :: u32
            in [ucast c, ucast (drop_bit 8 c), ucast (drop_bit 16 c), ucast (drop_bit 24 c),
                ucast isize, ucast (drop_bit 8 isize), ucast (drop_bit 16 isize), ucast (drop_bit 24 isize)]))"

text \<open>\<^verbatim>\<open>ST_BODY\<close>: the call of the engine, with both windows cut to 31 bits, and the accounting of
  what it moved.\<close>

definition MZ_WINDOW :: nat where
  "MZ_WINDOW = 0x7FFFFFFF"

definition deflate_mz_flush :: "'m deflate_state \<Rightarrow> zu_flush \<Rightarrow> int" where
  "deflate_mz_flush s flush =
     (if \<not> ds_encoder s \<and> \<not> ds_mz_called s \<and> zu_int_to_mz_flush flush = MZ_FINISH
      then MZ_SYNC_FLUSH else zu_int_to_mz_flush flush)"

definition deflate_mz_call ::
  "'m mz_engine \<Rightarrow> 'm deflate_state \<Rightarrow> zu_buffer \<Rightarrow> zu_flush \<Rightarrow> int \<times> nat \<times> nat \<times> 'm deflate_state \<times> zu_buffer" where
  "deflate_mz_call eng s b flush =
     (let win = take (if avail_in b > MZ_WINDOW then MZ_WINDOW else avail_in b) (in_window b);
          room = (if avail_out b > MZ_WINDOW then MZ_WINDOW else avail_out b)
      in case (if ds_encoder s then mz_deflate eng (ds_mz s) win room (deflate_mz_flush s flush)
               else mz_inflate eng (ds_mz s) win room (deflate_mz_flush s flush)) of
           (mz, used, out, m) \<Rightarrow>
             (let data = (if ds_encoder s then take used win else out);
                  s1 = s\<lparr>ds_mz := m, ds_mz_called := True\<rparr>;
                  s2 = (if ds_wrap s \<noteq> WRAP_NONE
                        then s1\<lparr>ds_checksum := zu_int_checksum_update (ds_wrap s) (ds_checksum s) data,
                                ds_uncompressed := u64_add (ds_uncompressed s) (length data)\<rparr>
                        else s1)
              in (mz, used, length out, s2, put_out out (skip_in used b))))"

definition deflate_body_step ::
  "'m mz_engine \<Rightarrow> 'm deflate_state \<Rightarrow> zu_buffer \<Rightarrow> zu_flush \<Rightarrow> 'm deflate_turn" where
  "deflate_body_step eng s b flush =
     (if avail_out b = 0 \<and> ds_encoder s then Ret (ZU_NEED_OUTPUT, s, b)
      else case deflate_mz_call eng s b flush of
        (mz, used, produced, s1, b1) \<Rightarrow>
          if mz = MZ_STREAM_END
          then (if ds_wrap s \<noteq> WRAP_NONE
                then Next (s1\<lparr>ds_tail := (if ds_encoder s
                                           then write_at (ds_tail s1) 0
                                                  (deflate_trailer (ds_wrap s) (ds_checksum s1) (ds_uncompressed s1))
                                           else ds_tail s1),
                              ds_tail_pos := 0, ds_state := ST_TRAILER\<rparr>, b1)
                else Ret (ZU_STREAM_END, s1\<lparr>ds_state := ST_DONE\<rparr>, b1))
          else if mz \<noteq> MZ_OK \<and> mz \<noteq> MZ_BUF_ERROR then Ret (zu_int_from_mz mz, s1, b1)
          else if used = 0 \<and> produced = 0
          then (if avail_out b = 0 then Ret (ZU_NEED_OUTPUT, s1, b1)
                else if src_pos b1 = src_size b1
                then (if flush \<noteq> ZU_FINISH then Ret (ZU_NEED_INPUT, s1, b1)
                      else Ret (if ds_encoder s then ZU_ERR_INTERNAL else ZU_ERR_INVALID_DATA, s1, b1))
                else Ret (ZU_NEED_OUTPUT, s1, b1))
          else Next (s1, b1))"

text \<open>\<^verbatim>\<open>ST_MEMBER_END\<close>: is there another gzip member?\<close>

definition deflate_concat :: "'m deflate_state \<Rightarrow> bool" where
  "deflate_concat s \<longleftrightarrow>
     ds_wrap s = WRAP_GZIP \<and> has_flag (ds_dec_flags s) ZU_DEC_CONCAT_MEMBERS \<and> \<not> ds_encoder s"

definition deflate_no_member ::
  "'m deflate_state \<Rightarrow> zu_buffer \<Rightarrow> zu_flush \<Rightarrow> 'm deflate_turn" where
  "deflate_no_member s b flush =
     (if avail_in b = 0 \<and> \<not> ds_encoder s \<and> deflate_concat s \<and> flush \<noteq> ZU_FINISH
      then Ret (ZU_NEED_INPUT, s, b)
      else
        (let s1 = s\<lparr>ds_state := ST_DONE\<rparr>
         in if ds_probe_magic s1
            then (let s2 = s1\<lparr>ds_probe_magic := False\<rparr>
                  in if has_flag (ds_dec_flags s2) ZU_DEC_REJECT_TRAILING then Ret (ZU_ERR_TRAILING, s2, b)
                     else Ret (ZU_STREAM_END, s2, b))
            else Ret (ZU_STREAM_END, s1, b)))"

definition deflate_first_probe ::
  "'m mz_engine \<Rightarrow> 'm deflate_state \<Rightarrow> zu_buffer \<Rightarrow> zu_flush \<Rightarrow> 'm deflate_turn" where
  "deflate_first_probe eng s b flush =
     (if src_byte b 0 \<noteq> 0x1F then Ret (ZU_STREAM_END, s\<lparr>ds_state := ST_DONE\<rparr>, b)
      else if avail_in b \<ge> 2
      then (if src_byte b 1 \<noteq> 0x8B then Ret (ZU_STREAM_END, s\<lparr>ds_state := ST_DONE\<rparr>, b)
            else (case zu_int_deflate_reset eng s ZU_LEVEL_DEFAULT of
                    (rs, s1) \<Rightarrow> if rs \<noteq> ZU_OK then Ret (rs, s1, b) else Next (s1, b)))
      else if flush = ZU_FINISH then Ret (ZU_STREAM_END, s\<lparr>ds_state := ST_DONE\<rparr>, b)
      else Ret (ZU_NEED_INPUT, s\<lparr>ds_probe_magic := True\<rparr>, skip_in 1 b))"

definition deflate_second_probe ::
  "'m mz_engine \<Rightarrow> 'm deflate_state \<Rightarrow> zu_buffer \<Rightarrow> 'm deflate_turn" where
  "deflate_second_probe eng s b =
     (if src_byte b 0 \<noteq> 0x8B
      then Ret (ZU_STREAM_END, s\<lparr>ds_probe_magic := False, ds_state := ST_DONE\<rparr>, b)
      else (case zu_int_deflate_reset eng s ZU_LEVEL_DEFAULT of
              (rs, s1) \<Rightarrow>
                if rs \<noteq> ZU_OK then Ret (rs, s1, b)
                else (case zu_int_gzip_header_feed (ds_gz s1) 0x1F of
                        (hs, gz, hdone) \<Rightarrow>
                          (let s2 = s1\<lparr>ds_probe_magic := False, ds_gz := gz\<rparr>
                           in if hs \<noteq> ZU_OK then Ret (hs, s2, b) else Next (s2, b)))))"

definition deflate_member_end_step ::
  "'m mz_engine \<Rightarrow> 'm deflate_state \<Rightarrow> zu_buffer \<Rightarrow> zu_flush \<Rightarrow> 'm deflate_turn" where
  "deflate_member_end_step eng s b flush =
     (if \<not> deflate_concat s \<or> avail_in b = 0 then deflate_no_member s b flush
      else if \<not> ds_probe_magic s then deflate_first_probe eng s b flush
      else deflate_second_probe eng s b)"

text \<open>\<^verbatim>\<open>ST_TRAILER\<close>.\<close>

definition be32 :: "byte list \<Rightarrow> nat \<Rightarrow> u32" where
  "be32 t i = push_bit 24 (ucast (t ! i)) OR push_bit 16 (ucast (t ! (i + 1))) OR
              push_bit 8 (ucast (t ! (i + 2))) OR ucast (t ! (i + 3))"

definition le32 :: "byte list \<Rightarrow> nat \<Rightarrow> u32" where
  "le32 t i = ucast (t ! i) OR push_bit 8 (ucast (t ! (i + 1))) OR
              push_bit 16 (ucast (t ! (i + 2))) OR push_bit 24 (ucast (t ! (i + 3)))"

definition deflate_trailer_step ::
  "'m deflate_state \<Rightarrow> zu_buffer \<Rightarrow> zu_flush \<Rightarrow> 'm deflate_turn" where
  "deflate_trailer_step s b flush =
     (if ds_encoder s
      then (if ds_tail_pos s < ds_tail_len s
            then (if avail_out b = 0 then Ret (ZU_NEED_OUTPUT, s, b)
                  else Next (s\<lparr>ds_tail_pos := ds_tail_pos s + 1\<rparr>, put_out [ds_tail s ! ds_tail_pos s] b))
            else Ret (ZU_STREAM_END, s\<lparr>ds_state := ST_DONE\<rparr>, b))
      else if ds_tail_pos s < ds_tail_len s
      then (if avail_in b = 0 then Ret (if flush = ZU_FINISH then ZU_ERR_TRUNCATED else ZU_NEED_INPUT, s, b)
            else Next (s\<lparr>ds_tail := (ds_tail s)[ds_tail_pos s := src_byte b 0], ds_tail_pos := ds_tail_pos s + 1\<rparr>,
                       skip_in 1 b))
      else if ds_wrap s = WRAP_ZLIB
      then (if be32 (ds_tail s) 0 \<noteq> ds_checksum s then Ret (ZU_ERR_CHECKSUM, s, b)
            else Next (s\<lparr>ds_state := ST_MEMBER_END\<rparr>, b))
      else (if le32 (ds_tail s) 0 \<noteq> ds_checksum s then Ret (ZU_ERR_CHECKSUM, s, b)
            else if le32 (ds_tail s) 4 \<noteq> word_of_nat (ds_uncompressed s) then Ret (ZU_ERR_CHECKSUM, s, b)
            else Next (s\<lparr>ds_state := ST_MEMBER_END\<rparr>, b)))"

definition deflate_step ::
  "'m mz_engine \<Rightarrow> zu_flush \<Rightarrow> 'm deflate_state \<times> zu_buffer \<Rightarrow> 'm deflate_turn" where
  "deflate_step eng flush sb =
     (case sb of (s, b) \<Rightarrow>
        case ds_state s of
          ST_DONE \<Rightarrow> Ret (ZU_STREAM_END, s, b)
        | ST_HEADER \<Rightarrow> deflate_header_step s b flush
        | ST_BODY \<Rightarrow> deflate_body_step eng s b flush
        | ST_MEMBER_END \<Rightarrow> deflate_member_end_step eng s b flush
        | ST_TRAILER \<Rightarrow> deflate_trailer_step s b flush)"

definition deflate_process :: "'m mz_engine \<Rightarrow> 'm deflate_state process_fn" where
  "deflate_process eng st b flush =
     (case st of
        None \<Rightarrow> Some (ZU_ERR_INVALID_ARGUMENT, None, b)
      | Some s \<Rightarrow> map_option (\<lambda>(r, s', b'). (r, Some s', b'))
                    (run_loop (\<lambda>sb. Some (deflate_step eng flush sb)) (s, b)))"

subsection \<open>Bounds, sniffing and the vtables\<close>

definition zu_int_deflate_bound :: "nat \<Rightarrow> nat \<Rightarrow> zu_status \<times> nat option" where
  "zu_int_deflate_bound n wrapper =
     (case zu_int_add n (n div 64) of
        (st, None) \<Rightarrow> (st, None)
      | (st, Some t) \<Rightarrow> zu_int_add t (64 + wrapper))"

definition deflate_raw_bound :: "int \<Rightarrow> nat \<Rightarrow> zu_status \<times> nat option" where
  "deflate_raw_bound level n = zu_int_deflate_bound n 0"

definition zlib_bound :: "int \<Rightarrow> nat \<Rightarrow> zu_status \<times> nat option" where
  "zlib_bound level n = zu_int_deflate_bound n 6"

definition gzip_bound :: "int \<Rightarrow> nat \<Rightarrow> zu_status \<times> nat option" where
  "gzip_bound level n = zu_int_deflate_bound n (ZU_INT_GZIP_HEADER_LEN + 8)"

definition zlib_sniff :: "byte list \<Rightarrow> nat \<Rightarrow> bool" where
  "zlib_sniff buf n \<longleftrightarrow>
     \<not> n < 2 \<and>
     (let st = zu_int_zlib_check_header (buf ! 0) (buf ! 1) in st = ZU_OK \<or> st = ZU_ERR_UNSUPPORTED)"

definition zu_int_gzip_magic :: "byte list" where
  "zu_int_gzip_magic = [0x1F, 0x8B]"

definition zu_int_codec_deflate_raw :: "alloc \<Rightarrow> 'm mz_engine \<Rightarrow> 'm deflate_state zu_codec_vtable" where
  "zu_int_codec_deflate_raw mem eng =
     \<lparr>v_struct_size = sizeof_zu_codec_vtable, v_codec = ZU_CODEC_DEFLATE_RAW,
      v_name = Some ''deflate-raw'', v_content_encoding = None, v_source = Some ''zukomp'',
      v_level_min = 0, v_level_max = 9, v_level_default = MZ_DEFAULT_LEVEL,
      v_flags = ZU_CAN_ENCODE OR ZU_CAN_DECODE OR ZU_CAN_FLUSH,
      v_magic = None, v_magic_len = 0, v_magic_offset = 0, v_sniff = None,
      v_encoder_new = Some (deflate_raw_encoder_new mem eng), v_encoder_process = Some (deflate_process eng),
      v_encoder_reset = Some (deflate_encoder_reset eng), v_encoder_free = Some deflate_free,
      v_decoder_new = Some (deflate_raw_decoder_new mem eng), v_decoder_process = Some (deflate_process eng),
      v_decoder_reset = Some (deflate_decoder_reset eng), v_decoder_free = Some deflate_free,
      v_bound = Some deflate_raw_bound, v_level_fast = 1, v_level_best = 9\<rparr>"

definition zu_int_codec_zlib :: "alloc \<Rightarrow> 'm mz_engine \<Rightarrow> 'm deflate_state zu_codec_vtable" where
  "zu_int_codec_zlib mem eng =
     \<lparr>v_struct_size = sizeof_zu_codec_vtable, v_codec = ZU_CODEC_ZLIB,
      v_name = Some ''zlib'', v_content_encoding = Some ''deflate'', v_source = Some ''zukomp'',
      v_level_min = 0, v_level_max = 9, v_level_default = MZ_DEFAULT_LEVEL,
      v_flags = ZU_CAN_ENCODE OR ZU_CAN_DECODE OR ZU_CAN_FLUSH,
      v_magic = None, v_magic_len = 0, v_magic_offset = 0, v_sniff = Some zlib_sniff,
      v_encoder_new = Some (zlib_encoder_new mem eng), v_encoder_process = Some (deflate_process eng),
      v_encoder_reset = Some (deflate_encoder_reset eng), v_encoder_free = Some deflate_free,
      v_decoder_new = Some (zlib_decoder_new mem eng), v_decoder_process = Some (deflate_process eng),
      v_decoder_reset = Some (deflate_decoder_reset eng), v_decoder_free = Some deflate_free,
      v_bound = Some zlib_bound, v_level_fast = 1, v_level_best = 9\<rparr>"

definition zu_int_codec_gzip :: "alloc \<Rightarrow> 'm mz_engine \<Rightarrow> 'm deflate_state zu_codec_vtable" where
  "zu_int_codec_gzip mem eng =
     \<lparr>v_struct_size = sizeof_zu_codec_vtable, v_codec = ZU_CODEC_GZIP,
      v_name = Some ''gzip'', v_content_encoding = Some ''gzip'', v_source = Some ''zukomp'',
      v_level_min = 0, v_level_max = 9, v_level_default = MZ_DEFAULT_LEVEL,
      v_flags = ZU_CAN_ENCODE OR ZU_CAN_DECODE OR ZU_CAN_FLUSH,
      v_magic = Some zu_int_gzip_magic, v_magic_len = 2, v_magic_offset = 0, v_sniff = None,
      v_encoder_new = Some (gzip_encoder_new mem eng), v_encoder_process = Some (deflate_process eng),
      v_encoder_reset = Some (deflate_encoder_reset eng), v_encoder_free = Some deflate_free,
      v_decoder_new = Some (gzip_decoder_new mem eng), v_decoder_process = Some (deflate_process eng),
      v_decoder_reset = Some (deflate_decoder_reset eng), v_decoder_free = Some deflate_free,
      v_bound = Some gzip_bound, v_level_fast = 1, v_level_best = 9\<rparr>"

end
