(* ===== verification/Codec_Deflate_Loop.thy ===== *)
theory Codec_Deflate_Loop
  imports Codec_Deflate
begin

unbundle bit_operations_syntax

text \<open>
  The process loop of \<^verbatim>\<open>codec_deflate.c\<close> returns on every call: under the cursor discipline of
  miniz each turn either moves a cursor or leaves its state towards a lower rank. The three
  codecs therefore keep the contract of the driver, in both directions.
\<close>

subsection \<open>What the loop relies on\<close>

text \<open>The documented cursor discipline of \<^verbatim>\<open>mz_deflate\<close> and \<^verbatim>\<open>mz_inflate\<close>: a call uses no more
  input than it was offered and produces no more output than there is room for; and
  \<^verbatim>\<open>mz_inflateReset\<close> returns \<^verbatim>\<open>MZ_OK\<close> or \<^verbatim>\<open>MZ_STREAM_ERROR\<close>.\<close>

definition mz_contract :: "'m mz_engine \<Rightarrow> bool" where
  "mz_contract eng \<longleftrightarrow>
     (\<forall>m win room fl mz used out m'.
        (mz_deflate eng m win room fl = (mz, used, out, m') \<or> mz_inflate eng m win room fl = (mz, used, out, m')) \<longrightarrow>
        used \<le> length win \<and> length out \<le> room) \<and>
     (\<forall>m. fst (mz_inflateReset eng m) = MZ_OK \<or> fst (mz_inflateReset eng m) = MZ_STREAM_ERROR)"

text \<open>Well-formed states: every index the code uses is inside its array, and a headerless codec is
  never in a wrapper state.\<close>

definition deflate_wf :: "'m deflate_state \<Rightarrow> bool" where
  "deflate_wf s \<longleftrightarrow>
     length (ds_hdr s) = 10 \<and> ds_hdr_pos s \<le> ds_hdr_len s \<and> ds_hdr_len s \<le> 10 \<and>
     length (ds_tail s) = 8 \<and> ds_tail_pos s \<le> ds_tail_len s \<and> ds_tail_len s \<le> 8 \<and>
     (ds_wrap s = WRAP_NONE \<longrightarrow> ds_state s = ST_BODY \<or> ds_state s = ST_DONE) \<and>
     (ds_wrap s = WRAP_ZLIB \<longrightarrow> ds_hdr_len s = 2 \<and> ds_tail_len s = 4) \<and>
     (ds_wrap s = WRAP_GZIP \<longrightarrow> ds_hdr_len s = 10 \<and> ds_tail_len s = 8)"

lemma zlib_header_length [simp]: "length (zu_int_zlib_header l) = 2"
  by (simp add: zu_int_zlib_header_def Let_def)

lemma gzip_write_header_length [simp]: "length zu_int_gzip_write_header = 10"
  by (simp add: zu_int_gzip_write_header_def)

lemma deflate_new_wf:
  "zu_int_deflate_new mem eng wrap enc level fl = (ZU_OK, Some s) \<Longrightarrow>
    deflate_wf s \<and> ds_encoder s = enc \<and> ds_wrap s = wrap"
  by (auto simp: zu_int_deflate_new_def deflate_blank_def deflate_new_wrap_def deflate_wf_def Let_def
      ZU_INT_GZIP_HEADER_LEN_def split: if_splits prod.splits wrap_kind.splits)

lemma deflate_rewind_wf:
  "deflate_wf s \<Longrightarrow> deflate_wf (deflate_rewind s) \<and> ds_encoder (deflate_rewind s) = ds_encoder s \<and>
    ds_wrap (deflate_rewind s) = ds_wrap s \<and>
    (ds_wrap s = WRAP_GZIP \<longrightarrow> ds_state (deflate_rewind s) = ST_HEADER)"
  by (cases "ds_wrap s") (simp_all add: deflate_rewind_def deflate_wf_def Let_def)

lemma deflate_wf_engine:
  "deflate_wf (s\<lparr>ds_mz := m\<rparr>) = deflate_wf s" "deflate_wf (s\<lparr>ds_mz_live := l\<rparr>) = deflate_wf s"
  "deflate_wf (s\<lparr>ds_level := k\<rparr>) = deflate_wf s" "deflate_wf (s\<lparr>ds_dec_flags := fl\<rparr>) = deflate_wf s"
  "deflate_wf (s\<lparr>ds_mz_called := l\<rparr>) = deflate_wf s" "deflate_wf (s\<lparr>ds_checksum := c\<rparr>) = deflate_wf s"
  "deflate_wf (s\<lparr>ds_uncompressed := n\<rparr>) = deflate_wf s" "deflate_wf (s\<lparr>ds_gz := g\<rparr>) = deflate_wf s"
  "deflate_wf (s\<lparr>ds_probe_magic := l\<rparr>) = deflate_wf s"
  by (simp_all add: deflate_wf_def)

lemma deflate_reset_cases:
  assumes "zu_int_deflate_reset eng s level = (st, s')"
  obtains m l k where "st = ZU_OK" "s' = deflate_rewind (s\<lparr>ds_mz := m, ds_mz_live := l, ds_level := k\<rparr>)"
  | m l mz where "st = zu_int_from_mz mz" "mz \<noteq> MZ_OK" "s' = s\<lparr>ds_mz := m, ds_mz_live := l\<rparr>"
      "\<not> ds_encoder s \<Longrightarrow> mz = fst (mz_inflateReset eng (ds_mz s))"
proof (cases "ds_encoder s \<and> (if ds_encoder s \<and> level \<noteq> ZU_LEVEL_DEFAULT then level else ds_level s) \<noteq> ds_level s")
  case True
  then obtain want where w: "want = level" "ds_encoder s" "level \<noteq> ZU_LEVEL_DEFAULT" "level \<noteq> ds_level s" by (auto split: if_splits)
  obtain mz m where i: "mz_deflateInit2 eng level = (mz, m)" by fastforce
  show thesis
  proof (cases "mz = MZ_OK")
    case True
    with w i assms have "st = ZU_OK" "s' = deflate_rewind (s\<lparr>ds_mz := m, ds_mz_live := True, ds_level := level\<rparr>)"
      by (simp_all add: zu_int_deflate_reset_def Let_def)
    then show thesis by (rule that(1))
  next
    case False
    with w i assms have "st = zu_int_from_mz mz" "s' = s\<lparr>ds_mz := m, ds_mz_live := False\<rparr>"
      by (simp_all add: zu_int_deflate_reset_def Let_def)
    with w False show thesis by (intro that(2)) simp_all
  qed
next
  case False
  let ?r = "if ds_encoder s then mz_deflateReset eng (ds_mz s) else mz_inflateReset eng (ds_mz s)"
  obtain mz m where i: "?r = (mz, m)" by fastforce
  have e: "zu_int_deflate_reset eng s level =
      (if mz \<noteq> MZ_OK then (zu_int_from_mz mz, s\<lparr>ds_mz := m\<rparr>) else (ZU_OK, deflate_rewind (s\<lparr>ds_mz := m\<rparr>)))"
    unfolding zu_int_deflate_reset_def Let_def if_not_P [OF False] i by simp
  show thesis
  proof (cases "mz = MZ_OK")
    case True
    with e assms have "st = ZU_OK" "s' = deflate_rewind (s\<lparr>ds_mz := m, ds_mz_live := ds_mz_live s, ds_level := ds_level s\<rparr>)"
      by simp_all
    then show thesis by (rule that(1))
  next
    case False
    with e assms have "st = zu_int_from_mz mz" "s' = s\<lparr>ds_mz := m, ds_mz_live := ds_mz_live s\<rparr>" by simp_all
    moreover have "\<not> ds_encoder s \<Longrightarrow> mz = fst (mz_inflateReset eng (ds_mz s))" using i by simp
    ultimately show thesis using False by (intro that(2) [where m = m and l = "ds_mz_live s" and mz = mz])
  qed
qed

lemma deflate_reset_wf:
  assumes "deflate_wf s" "zu_int_deflate_reset eng s level = (st, s')"
  shows "deflate_wf s' \<and> ds_encoder s' = ds_encoder s \<and> ds_wrap s' = ds_wrap s"
  using assms(2)
proof (cases rule: deflate_reset_cases)
  case (1 m l k)
  with assms(1) deflate_rewind_wf [of "s\<lparr>ds_mz := m, ds_mz_live := l, ds_level := k\<rparr>"]
  show ?thesis by (simp add: deflate_wf_engine)
next
  case (2 m l)
  with assms(1) show ?thesis by (simp add: deflate_wf_engine)
qed

text \<open>A decoder's reset that reports success has rewound a gzip stream to its header.\<close>

lemma deflate_reset_header:
  assumes "mz_contract eng" "deflate_wf s" "\<not> ds_encoder s" "ds_wrap s = WRAP_GZIP"
    and "zu_int_deflate_reset eng s level = (ZU_OK, s')"
  shows "ds_state s' = ST_HEADER"
  using assms(5)
proof (cases rule: deflate_reset_cases)
  case (1 m l k)
  with assms(2,4) deflate_rewind_wf [of "s\<lparr>ds_mz := m, ds_mz_live := l, ds_level := k\<rparr>"]
  show ?thesis by (simp add: deflate_wf_engine)
next
  case (2 m l mz)
  with assms(1,3) have "mz = MZ_STREAM_ERROR" by (auto simp: mz_contract_def)
  with 2(1) show ?thesis by (simp add: zu_int_from_mz_def mz_codes)
qed

subsection \<open>Every turn makes progress\<close>

text \<open>The order of the wrapper states: a state is left towards a lower rank unless a cursor moves.
  A gzip decoder may go round, but only over a header, which consumes input.\<close>

fun deflate_rank :: "bool \<Rightarrow> wrap_state \<Rightarrow> nat" where
  "deflate_rank cyc ST_HEADER = (if cyc then 0 else 4)"
| "deflate_rank cyc ST_BODY = 3"
| "deflate_rank cyc ST_TRAILER = 2"
| "deflate_rank cyc ST_MEMBER_END = 1"
| "deflate_rank cyc ST_DONE = 0"

definition deflate_weight :: "'m deflate_state \<times> zu_buffer \<Rightarrow> nat" where
  "deflate_weight sb = (case sb of (s, b) \<Rightarrow>
     5 * (avail_in b + avail_out b) + deflate_rank (ds_wrap s = WRAP_GZIP \<and> \<not> ds_encoder s) (ds_state s))"

definition deflate_kept :: "'m deflate_state \<Rightarrow> zu_buffer \<Rightarrow> 'm deflate_state \<Rightarrow> zu_buffer \<Rightarrow> bool" where
  "deflate_kept s b s' b' \<longleftrightarrow>
     deflate_wf s' \<and> ds_encoder s' = ds_encoder s \<and> ds_wrap s' = ds_wrap s \<and> buf_adv b b'"

definition deflate_turn_ok :: "'m deflate_state \<Rightarrow> zu_buffer \<Rightarrow> 'm deflate_turn \<Rightarrow> bool" where
  "deflate_turn_ok s b t \<longleftrightarrow>
     (case t of
        Ret (st, s', b') \<Rightarrow> deflate_kept s b s' b'
      | Next (s', b') \<Rightarrow> deflate_kept s b s' b' \<and> deflate_weight (s', b') < deflate_weight (s, b))"

text \<open>A move of a cursor outweighs any change of state.\<close>

lemma deflate_rank_le: "deflate_rank c st \<le> 4"
  by (cases st) simp_all

lemma avail_skip: "buf_wf b \<Longrightarrow> n \<le> avail_in b \<Longrightarrow>
    avail_in (skip_in n b) = avail_in b - n \<and> avail_out (skip_in n b) = avail_out b"
  using skip_in_adv [of b n] buf_adv_wf [of b "skip_in n b"]
  by (simp add: avail_in_wf avail_out_wf)

lemma avail_put: "buf_wf b \<Longrightarrow> length bs \<le> avail_out b \<Longrightarrow>
    avail_in (put_out bs b) = avail_in b \<and> avail_out (put_out bs b) = avail_out b - length bs"
  using put_out_adv [of b bs] buf_adv_wf [of b "put_out bs b"]
  by (simp add: avail_in_wf avail_out_wf)

lemma deflate_weight_moved:
  "avail_in b' + avail_out b' < avail_in b + avail_out b \<Longrightarrow> deflate_weight (s', b') < deflate_weight (s, b)"
  using deflate_rank_le [of "ds_wrap s' = WRAP_GZIP \<and> \<not> ds_encoder s'" "ds_state s'"]
  by (simp add: deflate_weight_def)

lemma deflate_weight_state:
  "ds_encoder s' = ds_encoder s \<Longrightarrow> ds_wrap s' = ds_wrap s \<Longrightarrow>
    deflate_rank (ds_wrap s = WRAP_GZIP \<and> \<not> ds_encoder s) (ds_state s') <
    deflate_rank (ds_wrap s = WRAP_GZIP \<and> \<not> ds_encoder s) (ds_state s) \<Longrightarrow>
    deflate_weight (s', b) < deflate_weight (s, b)"
  by (simp add: deflate_weight_def)

lemma turn_ret:
  "deflate_wf s' \<Longrightarrow> ds_encoder s' = ds_encoder s \<Longrightarrow> ds_wrap s' = ds_wrap s \<Longrightarrow> buf_adv b b' \<Longrightarrow>
    deflate_turn_ok s b (Ret (st, s', b'))"
  by (simp add: deflate_turn_ok_def deflate_kept_def)

lemma turn_moved:
  "deflate_wf s' \<Longrightarrow> ds_encoder s' = ds_encoder s \<Longrightarrow> ds_wrap s' = ds_wrap s \<Longrightarrow> buf_adv b b' \<Longrightarrow>
    avail_in b' + avail_out b' < avail_in b + avail_out b \<Longrightarrow> deflate_turn_ok s b (Next (s', b'))"
  by (simp add: deflate_turn_ok_def deflate_kept_def deflate_weight_moved)

lemma turn_took:
  assumes "deflate_wf s'" "ds_encoder s' = ds_encoder s" "ds_wrap s' = ds_wrap s" "buf_wf b" "avail_in b \<noteq> 0"
  shows "deflate_turn_ok s b (Next (s', skip_in (Suc 0) b))"
  using assms avail_skip [OF assms(4), of 1] by (intro turn_moved skip_in_adv) simp_all

lemma turn_gave:
  assumes "deflate_wf s'" "ds_encoder s' = ds_encoder s" "ds_wrap s' = ds_wrap s" "buf_wf b" "avail_out b \<noteq> 0"
  shows "deflate_turn_ok s b (Next (s', put_out [x] b))"
  using assms avail_put [OF assms(4), of "[x]"] by (intro turn_moved put_out_adv) simp_all

lemma turn_state:
  assumes "deflate_wf s'" "ds_encoder s' = ds_encoder s" "ds_wrap s' = ds_wrap s" "buf_wf b"
    and "deflate_rank (ds_wrap s = WRAP_GZIP \<and> \<not> ds_encoder s) (ds_state s') <
      deflate_rank (ds_wrap s = WRAP_GZIP \<and> \<not> ds_encoder s) (ds_state s)"
  shows "deflate_turn_ok s b (Next (s', b))"
  using assms by (simp add: deflate_turn_ok_def deflate_kept_def deflate_weight_state)

lemma skip_one_adv: "buf_wf b \<Longrightarrow> avail_in b \<noteq> 0 \<Longrightarrow> buf_adv b (skip_in (Suc 0) b)"
  by (intro skip_in_adv) simp_all

lemmas turn_intros = turn_took turn_gave turn_state turn_ret skip_one_adv buf_adv_refl

lemma header_step_ok:
  assumes wf: "deflate_wf s" "buf_wf b" and st: "ds_state s = ST_HEADER"
  shows "deflate_turn_ok s b (deflate_header_step s b flush)"
proof -
  have nw: "ds_wrap s \<noteq> WRAP_NONE" using wf(1) st by (auto simp: deflate_wf_def)
  have body: "deflate_wf (s\<lparr>ds_gz := g, ds_state := ST_BODY\<rparr>)" "deflate_wf (s\<lparr>ds_state := ST_BODY\<rparr>)" for g
    using wf(1) by (simp_all add: deflate_wf_def)
  have pos: "ds_hdr_pos s < ds_hdr_len s \<Longrightarrow> deflate_wf (s\<lparr>ds_hdr_pos := Suc (ds_hdr_pos s)\<rparr>)"
    "ds_hdr_pos s < ds_hdr_len s \<Longrightarrow> deflate_wf (s\<lparr>ds_hdr := (ds_hdr s)[ds_hdr_pos s := x], ds_hdr_pos := Suc (ds_hdr_pos s)\<rparr>)" for x
    using wf(1) by (simp_all add: deflate_wf_def)
  consider "ds_encoder s" | "\<not> ds_encoder s" "ds_wrap s = WRAP_GZIP" | "\<not> ds_encoder s" "ds_wrap s = WRAP_ZLIB"
    using nw by (cases "ds_wrap s") auto
  then show ?thesis
  proof cases
    case 1
    then show ?thesis
      using wf st body pos unfolding deflate_header_step_def by (auto intro!: turn_intros)
  next
    case 2
    then show ?thesis
      using wf st body unfolding deflate_header_step_def
      by (auto simp: Let_def deflate_wf_engine intro!: turn_intros split: prod.splits)
  next
    case 3
    then show ?thesis
      using wf st body pos unfolding deflate_header_step_def by (auto simp: Let_def intro!: turn_intros)
  qed
qed

lemma mz_contractD:
  "mz_contract eng \<Longrightarrow> mz_deflate eng m win room fl = (mz, used, out, m') \<or> mz_inflate eng m win room fl = (mz, used, out, m') \<Longrightarrow>
    used \<le> length win \<and> length out \<le> room"
  unfolding mz_contract_def by blast

lemma deflate_mz_call_moves:
  assumes "mz_contract eng" "deflate_wf s" "buf_wf b" "deflate_mz_call eng s b flush = (mz, used, produced, s', b')"
  shows "deflate_wf s'" "ds_encoder s' = ds_encoder s" "ds_wrap s' = ds_wrap s" "ds_state s' = ds_state s"
    "buf_adv b b'" "used \<noteq> 0 \<or> produced \<noteq> 0 \<Longrightarrow> avail_in b' + avail_out b' < avail_in b + avail_out b"
proof -
  let ?win = "take (if avail_in b > MZ_WINDOW then MZ_WINDOW else avail_in b) (in_window b)"
  let ?room = "if avail_out b > MZ_WINDOW then MZ_WINDOW else avail_out b"
  obtain mz' u out m where call: "(if ds_encoder s then mz_deflate eng (ds_mz s) ?win ?room (deflate_mz_flush s flush)
      else mz_inflate eng (ds_mz s) ?win ?room (deflate_mz_flush s flush)) = (mz', u, out, m)"
    by (metis prod_cases4)
  then have "mz_deflate eng (ds_mz s) ?win ?room (deflate_mz_flush s flush) = (mz', u, out, m) \<or>
      mz_inflate eng (ds_mz s) ?win ?room (deflate_mz_flush s flush) = (mz', u, out, m)"
    by (cases "ds_encoder s") (simp_all only: if_True if_False simp_thms)
  from mz_contractD [OF assms(1) this] have c: "u \<le> length ?win" "length out \<le> ?room" by simp_all
  have le: "u \<le> avail_in b" "length out \<le> avail_out b"
    using c in_window_length [OF assms(3)] by (auto split: if_splits)
  have e: "b' = put_out out (skip_in u b) \<and> used = u \<and> produced = length out \<and>
    s' = (if ds_wrap s \<noteq> WRAP_NONE
      then s\<lparr>ds_mz := m, ds_mz_called := True,
             ds_checksum := zu_int_checksum_update (ds_wrap s) (ds_checksum s) (if ds_encoder s then take u ?win else out),
             ds_uncompressed := u64_add (ds_uncompressed s) (length (if ds_encoder s then take u ?win else out))\<rparr>
      else s\<lparr>ds_mz := m, ds_mz_called := True\<rparr>)"
    using assms(4) unfolding deflate_mz_call_def Let_def call prod.case prod.inject
    by (elim conjE) (intro conjI; rule sym; assumption)
  then have b': "b' = put_out out (skip_in u b)" "used = u" "produced = length out" by simp_all
  define c where "c = (if ds_wrap s \<noteq> WRAP_NONE
      then zu_int_checksum_update (ds_wrap s) (ds_checksum s) (if ds_encoder s then take u ?win else out) else ds_checksum s)"
  define n where "n = (if ds_wrap s \<noteq> WRAP_NONE
      then u64_add (ds_uncompressed s) (length (if ds_encoder s then take u ?win else out)) else ds_uncompressed s)"
  have s': "s' = s\<lparr>ds_mz := m, ds_mz_called := True, ds_checksum := c, ds_uncompressed := n\<rparr>"
    using e by (cases "ds_wrap s = WRAP_NONE") (simp_all add: c_def n_def)
  show "deflate_wf s'" "ds_encoder s' = ds_encoder s" "ds_wrap s' = ds_wrap s" "ds_state s' = ds_state s"
    using assms(2) by (simp_all add: s' deflate_wf_engine)
  show adv: "buf_adv b b'" unfolding b' by (rule move_adv(1) [OF assms(3) le])
  show "avail_in b' + avail_out b' < avail_in b + avail_out b" if "used \<noteq> 0 \<or> produced \<noteq> 0"
  proof -
    note sk = avail_skip [OF assms(3) le(1)]
    have "buf_wf (skip_in u b)" using skip_in_adv [OF assms(3) le(1)] assms(3) by (rule buf_adv_wf [rotated])
    then have "avail_in b' = avail_in b - u" "avail_out b' = avail_out b - length out"
      using avail_put [of "skip_in u b" out] sk le b' by simp_all
    with that le b' show ?thesis by linarith
  qed
qed

lemma body_step_ok:
  assumes c: "mz_contract eng" and wf: "deflate_wf s" "buf_wf b" and st: "ds_state s = ST_BODY"
  shows "deflate_turn_ok s b (deflate_body_step eng s b flush)"
proof (cases "avail_out b = 0 \<and> ds_encoder s")
  case True
  with wf show ?thesis by (auto simp: deflate_body_step_def intro!: turn_intros)
next
  case False
  obtain mz used produced s1 b1 where call: "deflate_mz_call eng s b flush = (mz, used, produced, s1, b1)"
    by (metis prod_cases5)
  note m = deflate_mz_call_moves [OF c wf call]
  have wf1: "buf_wf b1" by (rule buf_adv_wf [OF wf(2) m(5)])
  have tr: "deflate_wf (s1\<lparr>ds_tail := (if ds_encoder s then write_at (ds_tail s1) 0
      (deflate_trailer (ds_wrap s) (ds_checksum s1) (ds_uncompressed s1)) else ds_tail s1),
      ds_tail_pos := 0, ds_state := ST_TRAILER\<rparr>)" if "ds_wrap s \<noteq> WRAP_NONE"
    using m(1,3) that by (auto simp: deflate_wf_def deflate_trailer_def Let_def)
  have fin: "deflate_wf (s1\<lparr>ds_state := ST_DONE\<rparr>)" using m(1) by (simp add: deflate_wf_def)
  have weight: "deflate_weight (s2, b1) < deflate_weight (s, b)"
    if "ds_encoder s2 = ds_encoder s" "ds_wrap s2 = ds_wrap s" "ds_state s2 = ST_TRAILER" for s2
  proof (cases "used = 0 \<and> produced = 0")
    case True
    have "avail_in b1 \<le> avail_in b" "avail_out b1 \<le> avail_out b"
      using m(5) wf(2) wf1 by (auto simp: avail_in_wf avail_out_wf buf_adv_def)
    with that st show ?thesis by (simp add: deflate_weight_def)
  next
    case False
    then show ?thesis using m(6) by (auto intro: deflate_weight_moved)
  qed
  show ?thesis
  proof (cases "mz = MZ_STREAM_END")
    case True
    then show ?thesis
      using False call tr fin m
      by (auto simp: deflate_body_step_def deflate_turn_ok_def deflate_kept_def intro!: weight)
  next
    case mz: False
    then show ?thesis
      using False call m
      by (auto simp: deflate_body_step_def intro!: turn_ret turn_moved)
  qed
qed

lemma trailer_step_ok:
  assumes wf: "deflate_wf s" "buf_wf b" and st: "ds_state s = ST_TRAILER"
  shows "deflate_turn_ok s b (deflate_trailer_step s b flush)"
proof -
  have nw: "ds_wrap s \<noteq> WRAP_NONE" using wf(1) st by (auto simp: deflate_wf_def)
  have w: "deflate_wf (s\<lparr>ds_state := ST_DONE\<rparr>)" "deflate_wf (s\<lparr>ds_state := ST_MEMBER_END\<rparr>)"
    using wf(1) nw by (simp_all add: deflate_wf_def)
  have pos: "ds_tail_pos s < ds_tail_len s \<Longrightarrow> deflate_wf (s\<lparr>ds_tail_pos := Suc (ds_tail_pos s)\<rparr>)"
    "ds_tail_pos s < ds_tail_len s \<Longrightarrow> deflate_wf (s\<lparr>ds_tail := (ds_tail s)[ds_tail_pos s := x], ds_tail_pos := Suc (ds_tail_pos s)\<rparr>)" for x
    using wf(1) by (simp_all add: deflate_wf_def)
  show ?thesis
  proof (cases "ds_encoder s")
    case True
    with wf st w pos show ?thesis unfolding deflate_trailer_step_def by (auto intro!: turn_intros)
  next
    case False
    show ?thesis
    proof (cases "ds_tail_pos s < ds_tail_len s")
      case True
      with False wf pos show ?thesis unfolding deflate_trailer_step_def by (auto intro!: turn_intros)
    next
      case end1: False
      have nx: "deflate_turn_ok s b (Next (s\<lparr>ds_state := ST_MEMBER_END\<rparr>, b))"
        "deflate_turn_ok s b (Ret (st', s, b))" for st'
        using wf w st by (auto intro!: turn_intros)
      with False end1 show ?thesis unfolding deflate_trailer_step_def by simp
    qed
  qed
qed

lemma member_end_step_ok:
  assumes c: "mz_contract eng" and wf: "deflate_wf s" "buf_wf b" and st: "ds_state s = ST_MEMBER_END"
  shows "deflate_turn_ok s b (deflate_member_end_step eng s b flush)"
proof -
  have w: "deflate_wf (s\<lparr>ds_state := ST_DONE\<rparr>)" "deflate_wf (s\<lparr>ds_state := ST_DONE, ds_probe_magic := x\<rparr>)"
    "deflate_wf (s\<lparr>ds_probe_magic := x, ds_state := ST_DONE\<rparr>)" "deflate_wf (s\<lparr>ds_probe_magic := x\<rparr>)" for x
    using wf(1) by (simp_all add: deflate_wf_def)
  have rs: "deflate_wf s1" "ds_encoder s1 = ds_encoder s" "ds_wrap s1 = ds_wrap s"
    if "zu_int_deflate_reset eng s l = (r, s1)" for l r s1
    using deflate_reset_wf [OF wf(1) that] by simp_all
  have hd: "ds_state s1 = ST_HEADER" if "zu_int_deflate_reset eng s l = (ZU_OK, s1)" "deflate_concat s" for l s1
    using deflate_reset_header [OF c wf(1) _ _ that(1)] that(2) by (simp add: deflate_concat_def)
  consider "\<not> deflate_concat s \<or> avail_in b = 0" | "deflate_concat s" "avail_in b \<noteq> 0" "\<not> ds_probe_magic s"
    | "deflate_concat s" "avail_in b \<noteq> 0" "ds_probe_magic s" by blast
  then show ?thesis
  proof cases
    case 1
    then show ?thesis
      using wf w by (auto simp: deflate_member_end_step_def deflate_no_member_def Let_def intro!: turn_intros)
  next
    case 2
    obtain r s1 where res: "zu_int_deflate_reset eng s ZU_LEVEL_DEFAULT = (r, s1)" by fastforce
    from 2 show ?thesis
      using wf w rs [OF res] hd st res
      by (auto simp: deflate_member_end_step_def deflate_first_probe_def deflate_concat_def intro!: turn_intros)
  next
    case 3
    obtain r s1 where res: "zu_int_deflate_reset eng s ZU_LEVEL_DEFAULT = (r, s1)" by fastforce
    obtain hs gz dn where fd: "zu_int_gzip_header_feed (ds_gz s1) 0x1F = (hs, gz, dn)" by (metis prod_cases3)
    from 3 show ?thesis
      using wf w rs [OF res] hd st res fd
      by (auto simp: deflate_member_end_step_def deflate_second_probe_def deflate_concat_def deflate_wf_engine Let_def
          intro!: turn_intros)
  qed
qed

lemma deflate_step_ok:
  assumes "mz_contract eng" "deflate_wf s" "buf_wf b"
  shows "deflate_turn_ok s b (deflate_step eng flush (s, b))"
  using assms header_step_ok body_step_ok member_end_step_ok trailer_step_ok
  by (cases "ds_state s") (auto simp: deflate_step_def intro!: turn_intros)

subsection \<open>The process function\<close>

text \<open>Any property of the state and the buffer that every turn keeps holds of what the loop
  returns; and the loop returns.\<close>

lemma deflate_loop:
  assumes c: "mz_contract eng" and wf: "deflate_wf s" "buf_wf b" and p: "P s b"
    and nxt: "\<And>s1 b1 s2 b2. deflate_wf s1 \<Longrightarrow> buf_wf b1 \<Longrightarrow> P s1 b1 \<Longrightarrow>
      deflate_step eng flush (s1, b1) = Next (s2, b2) \<Longrightarrow> P s2 b2"
    and ret: "\<And>s1 b1 st s2 b2. deflate_wf s1 \<Longrightarrow> buf_wf b1 \<Longrightarrow> P s1 b1 \<Longrightarrow>
      deflate_step eng flush (s1, b1) = Ret (st, s2, b2) \<Longrightarrow> Q st s2 b2"
  shows "\<exists>st s' b'. deflate_process eng (Some s) b flush = Some (st, Some s', b') \<and>
    deflate_kept s b s' b' \<and> Q st s' b'"
proof -
  have "\<exists>q. run_loop (\<lambda>sb. Some (deflate_step eng flush sb)) (s, b) = Some q \<and>
      (case q of (st, s', b') \<Rightarrow> deflate_kept s b s' b' \<and> Q st s' b')"
  proof (rule run_loop_measure [where I = "\<lambda>(s1, b1). deflate_kept s b s1 b1 \<and> buf_wf b1 \<and> P s1 b1"
        and m = deflate_weight], goal_cases)
    case 1
    from wf p show ?case by (simp add: deflate_kept_def)
  next
    case (2 sb)
    obtain s1 b1 where sb: "sb = (s1, b1)" by fastforce
    with 2 have k: "deflate_kept s b s1 b1" "buf_wf b1" "P s1 b1" by simp_all
    then have wf1: "deflate_wf s1" by (simp add: deflate_kept_def)
    note t = deflate_step_ok [OF c wf1 k(2), of flush]
    show ?case
    proof (cases "deflate_step eng flush (s1, b1)")
      case (Ret q)
      obtain st s2 b2 where q: "q = (st, s2, b2)" by (metis prod_cases3)
      with t Ret have "deflate_kept s1 b1 s2 b2" by (simp add: deflate_turn_ok_def)
      with k(1) have "deflate_kept s b s2 b2" by (auto simp: deflate_kept_def intro: buf_adv_trans)
      with ret [OF wf1 k(2,3)] Ret q sb show ?thesis by simp
    next
      case (Next q)
      obtain s2 b2 where q: "q = (s2, b2)" by fastforce
      with t Next have m: "deflate_kept s1 b1 s2 b2" "deflate_weight (s2, b2) < deflate_weight (s1, b1)"
        by (simp_all add: deflate_turn_ok_def)
      with k(1) have "deflate_kept s b s2 b2" by (auto simp: deflate_kept_def intro: buf_adv_trans)
      moreover have "buf_wf b2" using m(1) k(2) by (auto simp: deflate_kept_def intro: buf_adv_wf)
      ultimately show ?thesis using nxt [OF wf1 k(2,3)] Next q sb m(2) by simp
    qed
  qed
  then show ?thesis by (auto simp: deflate_process_def)
qed

definition deflate_inv :: "'m deflate_state option \<Rightarrow> bool" where
  "deflate_inv st \<longleftrightarrow> (\<forall>s. st = Some s \<longrightarrow> deflate_wf s)"

lemma deflate_process_ok:
  assumes "mz_contract eng" "deflate_inv st" "buf_wf b"
  shows "\<exists>r st' b'. deflate_process eng st b flush = Some (r, st', b') \<and> deflate_inv st' \<and> buf_adv b b'"
proof (cases st)
  case None
  with assms show ?thesis by (simp add: deflate_process_def)
next
  case (Some s)
  with assms(2) have "deflate_wf s" by (simp add: deflate_inv_def)
  from deflate_loop [OF assms(1) this assms(3), of "\<lambda>_ _. True" flush "\<lambda>_ _ _. True"] Some
  show ?thesis by (auto simp: deflate_kept_def deflate_inv_def)
qed

lemma deflate_new_inv:
  "zu_int_deflate_new mem eng wrap enc level fl = (st, r) \<Longrightarrow> deflate_inv r"
proof -
  assume a: "zu_int_deflate_new mem eng wrap enc level fl = (st, r)"
  have "st = ZU_OK" if "r = Some s" for s
    using a that by (auto simp: zu_int_deflate_new_def Let_def split: if_splits prod.splits)
  with a show ?thesis by (auto simp: deflate_inv_def dest!: deflate_new_wf)
qed

lemma deflate_encoder_reset_inv:
  "deflate_inv s \<Longrightarrow> deflate_encoder_reset eng s os = (st, s') \<Longrightarrow> deflate_inv s'"
  by (cases s) (auto simp: deflate_inv_def deflate_encoder_reset_def map_prod_def
      dest: deflate_reset_wf split: prod.splits)

lemma deflate_decoder_reset_inv:
  assumes "deflate_inv s" "deflate_decoder_reset eng s os = (st, s')"
  shows "deflate_inv s'"
proof (cases s)
  case (Some t)
  with assms(1) have "deflate_wf (t\<lparr>ds_dec_flags := do_flags os\<rparr>)"
    by (simp add: deflate_inv_def deflate_wf_engine)
  with assms(2) Some show ?thesis
    by (auto simp: deflate_inv_def deflate_decoder_reset_def map_prod_def dest: deflate_reset_wf split: prod.splits)
qed (use assms in \<open>simp add: deflate_decoder_reset_def deflate_inv_def\<close>)

lemma deflate_decoder_codec:
  fixes eng :: "'m mz_engine"
  assumes "mz_contract eng"
    and "v \<in> {zu_int_codec_deflate_raw mem eng, zu_int_codec_zlib mem eng, zu_int_codec_gzip mem eng}"
  shows "decoder_codec deflate_inv v"
proof
  fix os s assume "the (v_decoder_new v) os = (ZU_OK, s)"
  with assms(2) obtain wrap where "zu_int_deflate_new mem eng wrap False ZU_LEVEL_DEFAULT (do_flags os) = (ZU_OK, s)"
    by (auto simp: zu_int_codec_deflate_raw_def zu_int_codec_zlib_def zu_int_codec_gzip_def
        deflate_raw_decoder_new_def zlib_decoder_new_def gzip_decoder_new_def)
  then show "deflate_inv s" by (rule deflate_new_inv)
next
  fix s :: "'m deflate_state option" and b flush assume "deflate_inv s" "buf_wf b"
  with assms show "\<exists>st s' b'. the (v_decoder_process v) s b flush = Some (st, s', b') \<and> deflate_inv s' \<and> buf_adv b b'"
    using deflate_process_ok [of eng s b flush]
    by (auto simp: zu_int_codec_deflate_raw_def zu_int_codec_zlib_def zu_int_codec_gzip_def)
next
  fix f s os st s'
  assume "v_decoder_reset v = Some f" "deflate_inv s" "f s os = (st, s')"
  with assms(2) show "deflate_inv s'"
    by (auto simp: zu_int_codec_deflate_raw_def zu_int_codec_zlib_def zu_int_codec_gzip_def
        intro: deflate_decoder_reset_inv)
qed

lemma deflate_encoder_codec:
  fixes eng :: "'m mz_engine"
  assumes "mz_contract eng"
    and "v \<in> {zu_int_codec_deflate_raw mem eng, zu_int_codec_zlib mem eng, zu_int_codec_gzip mem eng}"
  shows "encoder_codec deflate_inv v"
proof
  fix os s assume "the (v_encoder_new v) os = (ZU_OK, s)"
  with assms(2) obtain wrap where "zu_int_deflate_new mem eng wrap True (eo_level os) 0 = (ZU_OK, s)"
    by (auto simp: zu_int_codec_deflate_raw_def zu_int_codec_zlib_def zu_int_codec_gzip_def
        deflate_raw_encoder_new_def zlib_encoder_new_def gzip_encoder_new_def)
  then show "deflate_inv s" by (rule deflate_new_inv)
next
  fix s :: "'m deflate_state option" and b flush assume "deflate_inv s" "buf_wf b"
  with assms show "\<exists>st s' b'. the (v_encoder_process v) s b flush = Some (st, s', b') \<and> deflate_inv s' \<and> buf_adv b b'"
    using deflate_process_ok [of eng s b flush]
    by (auto simp: zu_int_codec_deflate_raw_def zu_int_codec_zlib_def zu_int_codec_gzip_def)
next
  fix f s os st s'
  assume "v_encoder_reset v = Some f" "deflate_inv s" "f s os = (st, s')"
  with assms(2) show "deflate_inv s'"
    by (auto simp: zu_int_codec_deflate_raw_def zu_int_codec_zlib_def zu_int_codec_gzip_def
        intro: deflate_encoder_reset_inv)
qed

end
