(* ===== verification/Codec_Deflate_Integrity.thy ===== *)
theory Codec_Deflate_Integrity
  imports Codec_Deflate_Loop
begin

unbundle bit_operations_syntax

text \<open>
  What a completed stream says about its bytes. A member is a header, a body and the trailer
  that belongs to the data: an encoder that reports \<^const>\<open>ZU_STREAM_END\<close> has written exactly one,
  over everything it consumed; a decoder that reports it has read a sequence of them, and what
  it delivered is the data whose checksums it verified. Both hold over any split of the input
  and the output into calls.
\<close>

subsection \<open>Members\<close>

definition header_ok :: "wrap_kind \<Rightarrow> byte list \<Rightarrow> bool" where
  "header_ok w h =
     (case w of
        WRAP_NONE \<Rightarrow> h = []
      | WRAP_ZLIB \<Rightarrow> length h = 2 \<and> zu_int_zlib_check_header (h ! 0) (h ! 1) = ZU_OK
      | WRAP_GZIP \<Rightarrow> gzip_feed_all zu_int_gzip_header_init h = Header_done [])"

definition checksum_of :: "wrap_kind \<Rightarrow> byte list \<Rightarrow> u32" where
  "checksum_of w data = zu_int_checksum_update w (zu_int_checksum_init w) data"

definition member_ok :: "wrap_kind \<Rightarrow> byte list \<Rightarrow> byte list \<Rightarrow> bool" where
  "member_ok w m data \<longleftrightarrow>
     (\<exists>h body. header_ok w h \<and> m = h @ body @ deflate_trailer w (checksum_of w data) (length data))"

text \<open>The same with a relation \<open>F\<close> between a body and its data, for any wrapper; a bare body has no trailer.\<close>

definition trailer_of :: "wrap_kind \<Rightarrow> byte list \<Rightarrow> byte list" where
  "trailer_of w data = (if w = WRAP_NONE then [] else deflate_trailer w (checksum_of w data) (length data))"

definition member_of :: "(byte list \<Rightarrow> byte list \<Rightarrow> bool) \<Rightarrow> wrap_kind \<Rightarrow> byte list \<Rightarrow> byte list \<Rightarrow> bool" where
  "member_of F w m data \<longleftrightarrow> (\<exists>h body. header_ok w h \<and> F body data \<and> m = h @ body @ trailer_of w data)"

lemma member_of_ok: "member_of F w m data \<Longrightarrow> w \<noteq> WRAP_NONE \<Longrightarrow> member_ok w m data"
  by (auto simp: member_of_def member_ok_def trailer_of_def)

lemma checksum_update_append:
  "zu_int_checksum_update w (zu_int_checksum_update w v p) q = zu_int_checksum_update w v (p @ q)"
  by (simp add: zu_int_checksum_update_def mz_crc32_append mz_adler32_append)

lemma checksum_of_Nil [simp]: "checksum_of w [] = zu_int_checksum_init w"
  by (simp add: checksum_of_def zu_int_checksum_update_def)

lemma checksum_of_append: "zu_int_checksum_update w (checksum_of w p) q = checksum_of w (p @ q)"
  by (simp add: checksum_of_def checksum_update_append)

text \<open>The trailer as the decoder reads it back.\<close>

lemma word_of_u64_of: "(word_of_nat (u64_of n) :: u32) = word_of_nat n"
proof -
  have "unat (word_of_nat (u64_of n) :: u32) = unat (word_of_nat n :: u32)"
    by (simp add: u64_of_def unsigned_of_nat take_bit_eq_mod mod_mod_cancel)
  then show ?thesis by (simp only: word_unat_eq_iff)
qed

lemma u32_bytes:
  fixes c :: u32 and a b d e :: byte
  shows "(push_bit 24 (ucast a) OR push_bit 16 (ucast b) OR push_bit 8 (ucast d) OR ucast e = c) \<longleftrightarrow>
    [a, b, d, e] = [ucast (drop_bit 24 c), ucast (drop_bit 16 c), ucast (drop_bit 8 c), ucast c]"
proof -
  define w :: u32 where "w = (push_bit 24 (ucast a) OR push_bit 16 (ucast b) OR push_bit 8 (ucast d) OR ucast e)"
  have bit: "bit w n \<longleftrightarrow>
      n < 32 \<and> (if n < 8 then bit e n else if n < 16 then bit d (n - 8) else if n < 24 then bit b (n - 16)
        else bit a (n - 24))" for n
    by (auto simp: w_def bit_or_iff bit_push_bit_iff bit_ucast_iff not_le dest: bit_imp_le_length)
  have "w = c \<longleftrightarrow> [a, b, d, e] = [ucast (drop_bit 24 c), ucast (drop_bit 16 c), ucast (drop_bit 8 c), ucast c]"
  proof
    assume c: "w = c"
    show "[a, b, d, e] = [ucast (drop_bit 24 c), ucast (drop_bit 16 c), ucast (drop_bit 8 c), ucast c]"
      unfolding c [symmetric] list.inject
      by (intro conjI bit_eqI) (auto simp: bit_ucast_iff bit_drop_bit_eq bit)
  next
    assume "[a, b, d, e] = [ucast (drop_bit 24 c), ucast (drop_bit 16 c), ucast (drop_bit 8 c), ucast c]"
    then have e: "a = ucast (drop_bit 24 c)" "b = ucast (drop_bit 16 c)" "d = ucast (drop_bit 8 c)" "e = ucast c" by simp_all
    show "w = c"
    proof (rule bit_eqI)
      fix n assume "possible_bit TYPE(u32) n"
      then have "n < 32" by simp
      then show "bit w n = bit c n"
        unfolding bit e by (auto simp: bit_ucast_iff bit_drop_bit_eq not_less)
    qed
  qed
  then show ?thesis by (simp only: w_def)
qed

lemma be32_eq: "length t = 4 \<Longrightarrow> be32 t 0 = c \<longleftrightarrow>
    t = [ucast (drop_bit 24 c), ucast (drop_bit 16 c), ucast (drop_bit 8 c), ucast c]"
  using u32_bytes [of "t ! 0" "t ! 1" "t ! 2" "t ! 3" c]
  by (auto simp: be32_def numeral_eq_Suc length_Suc_conv)

lemma le32_eq: "le32 [a, b, d, e] 0 = c \<longleftrightarrow>
    [a, b, d, e] = [ucast c, ucast (drop_bit 8 c), ucast (drop_bit 16 c), ucast (drop_bit 24 c)]"
proof -
  have "le32 [a, b, d, e] 0 = push_bit 24 (ucast e) OR push_bit 16 (ucast d) OR push_bit 8 (ucast b) OR ucast a"
    by (simp add: le32_def or.commute or.left_commute)
  then show ?thesis using u32_bytes [of e d b a c] by auto
qed

text \<open>The comparison of the trailer bytes, in both formats.\<close>

lemma zlib_trailer_check:
  "length t = 8 \<Longrightarrow> be32 t 0 = c \<longleftrightarrow> take 4 t = deflate_trailer WRAP_ZLIB c n"
  using be32_eq [of "take 4 t" c] by (simp add: be32_def deflate_trailer_def)

lemma gzip_trailer_check:
  assumes "length t = 8"
  shows "le32 t 0 = c \<and> le32 t 4 = word_of_nat n \<longleftrightarrow> t = deflate_trailer WRAP_GZIP c n"
proof -
  obtain a0 a1 a2 a3 a4 a5 a6 a7 where t: "t = [a0, a1, a2, a3, a4, a5, a6, a7]"
    using assms by (auto simp: numeral_eq_Suc length_Suc_conv)
  have "le32 t 0 = le32 [a0, a1, a2, a3] 0" "le32 t 4 = le32 [a4, a5, a6, a7] 0" by (simp_all add: t le32_def)
  then show ?thesis by (auto simp: le32_eq deflate_trailer_def Let_def t)
qed

subsection \<open>What one engine call records\<close>

text \<open>What the engine knows of the stream in progress: \<open>D m data body\<close> and \<open>I m body data\<close> relate its state to the
  bytes it has read and written since it was initialised, and a stream it has ended is in \<open>F\<close>.\<close>

definition mz_deflates ::
  "'m mz_engine \<Rightarrow> ('m option \<Rightarrow> byte list \<Rightarrow> byte list \<Rightarrow> bool) \<Rightarrow> (byte list \<Rightarrow> byte list \<Rightarrow> bool) \<Rightarrow> bool" where
  "mz_deflates eng D F \<longleftrightarrow>
     (\<forall>level m. mz_deflateInit2 eng level = (MZ_OK, m) \<longrightarrow> D m [] []) \<and>
     (\<forall>m data body win room fl mz used out m'. D m data body \<longrightarrow> mz_deflate eng m win room fl = (mz, used, out, m') \<longrightarrow>
        (mz = MZ_STREAM_END \<longrightarrow> F (body @ out) (data @ take used win)) \<and>
        (mz = MZ_OK \<or> mz = MZ_BUF_ERROR \<longrightarrow> D m' (data @ take used win) (body @ out)))"

definition mz_inflates ::
  "'m mz_engine \<Rightarrow> ('m option \<Rightarrow> byte list \<Rightarrow> byte list \<Rightarrow> bool) \<Rightarrow> (byte list \<Rightarrow> byte list \<Rightarrow> bool) \<Rightarrow> bool" where
  "mz_inflates eng I F \<longleftrightarrow>
     (\<forall>m. mz_inflateInit2 eng = (MZ_OK, m) \<longrightarrow> I m [] []) \<and>
     (\<forall>m m'. mz_inflateReset eng m = (MZ_OK, m') \<longrightarrow> I m' [] []) \<and>
     (\<forall>m body data win room fl mz used out m'. I m body data \<longrightarrow> mz_inflate eng m win room fl = (mz, used, out, m') \<longrightarrow>
        (mz = MZ_STREAM_END \<longrightarrow> F (body @ take used win) (data @ out)) \<and>
        (mz = MZ_OK \<or> mz = MZ_BUF_ERROR \<longrightarrow> I m' (body @ take used win) (data @ out)))"

lemma mz_any_stream: "mz_deflates eng (\<lambda>_ _ _. True) (\<lambda>_ _. True)" "mz_inflates eng (\<lambda>_ _ _. True) (\<lambda>_ _. True)"
  by (simp_all add: mz_deflates_def mz_inflates_def)

lemma mz_deflatesD:
  assumes "mz_deflates eng D F" "D m data body" "mz_deflate eng m win room fl = (mz, used, out, m')"
  shows "mz = MZ_STREAM_END \<Longrightarrow> F (body @ out) (data @ take used win)"
    "mz = MZ_OK \<or> mz = MZ_BUF_ERROR \<Longrightarrow> D m' (data @ take used win) (body @ out)"
  using assms unfolding mz_deflates_def by blast+

lemma mz_inflatesD:
  assumes "mz_inflates eng I F" "I m body data" "mz_inflate eng m win room fl = (mz, used, out, m')"
  shows "mz = MZ_STREAM_END \<Longrightarrow> F (body @ take used win) (data @ out)"
    "mz = MZ_OK \<or> mz = MZ_BUF_ERROR \<Longrightarrow> I m' (body @ take used win) (data @ out)"
  using assms unfolding mz_inflates_def by blast+

text \<open>The accounts after a call that moved \<open>data\<close>.\<close>

definition mz_counted :: "'m deflate_state \<Rightarrow> 'm option \<Rightarrow> byte list \<Rightarrow> 'm deflate_state" where
  "mz_counted s m data =
     (let s1 = s\<lparr>ds_mz := m, ds_mz_called := True\<rparr>
      in if ds_wrap s \<noteq> WRAP_NONE
         then s1\<lparr>ds_checksum := zu_int_checksum_update (ds_wrap s) (ds_checksum s) data,
                 ds_uncompressed := u64_add (ds_uncompressed s) (length data)\<rparr>
         else s1)"

lemma mz_counted_fields [simp]:
  "ds_encoder (mz_counted s m x) = ds_encoder s" "ds_wrap (mz_counted s m x) = ds_wrap s"
  "ds_state (mz_counted s m x) = ds_state s" "ds_hdr (mz_counted s m x) = ds_hdr s" "ds_hdr_len (mz_counted s m x) = ds_hdr_len s"
  "ds_tail (mz_counted s m x) = ds_tail s" "ds_tail_len (mz_counted s m x) = ds_tail_len s" "ds_mz (mz_counted s m x) = m"
  "ds_probe_magic (mz_counted s m x) = ds_probe_magic s" "ds_dec_flags (mz_counted s m x) = ds_dec_flags s"
  by (simp_all add: mz_counted_def Let_def)

lemma mz_counted_sums:
  "ds_wrap s = w \<Longrightarrow> w \<noteq> WRAP_NONE \<Longrightarrow> ds_checksum s = checksum_of w p \<Longrightarrow> ds_uncompressed s = u64_of (length p) \<Longrightarrow>
    ds_checksum (mz_counted s m x) = checksum_of w (p @ x) \<and> ds_uncompressed (mz_counted s m x) = u64_of (length (p @ x))"
  by (simp add: mz_counted_def Let_def checksum_of_append)

lemma deflate_mz_call_data:
  assumes c: "mz_contract eng" and wf: "buf_wf b"
    and call: "deflate_mz_call eng s b flush = (mz, used, produced, s', b')"
  obtains m win room fl where
    "(if ds_encoder s then mz_deflate eng (ds_mz s) win room fl else mz_inflate eng (ds_mz s) win room fl) = (mz, used, emitted b b', m)"
    "win = take MZ_WINDOW (in_window b)" "consumed b b' = take used win"
    "s' = mz_counted s m (if ds_encoder s then consumed b b' else emitted b b')"
proof -
  let ?win = "take (if avail_in b > MZ_WINDOW then MZ_WINDOW else avail_in b) (in_window b)"
  let ?room = "if avail_out b > MZ_WINDOW then MZ_WINDOW else avail_out b"
  have win: "?win = take MZ_WINDOW (in_window b)" using in_window_length [OF wf] by simp
  obtain mz' u out m where r: "(if ds_encoder s then mz_deflate eng (ds_mz s) ?win ?room (deflate_mz_flush s flush)
      else mz_inflate eng (ds_mz s) ?win ?room (deflate_mz_flush s flush)) = (mz', u, out, m)"
    by (metis prod_cases4)
  then have "mz_deflate eng (ds_mz s) ?win ?room (deflate_mz_flush s flush) = (mz', u, out, m) \<or>
      mz_inflate eng (ds_mz s) ?win ?room (deflate_mz_flush s flush) = (mz', u, out, m)"
    by (cases "ds_encoder s") (simp_all only: if_True if_False simp_thms)
  from mz_contractD [OF c this] have le: "u \<le> length ?win" "length out \<le> ?room" by simp_all
  then have le': "u \<le> avail_in b" "length out \<le> avail_out b" "take u ?win = take u (in_window b)"
    using in_window_length [OF wf] by (auto simp: min_def split: if_splits)
  note mv = move_adv(2,3) [OF wf le'(1,2)]
  have e: "mz = mz' \<and> used = u \<and> b' = put_out out (skip_in u b) \<and>
      s' = mz_counted s m (if ds_encoder s then take u ?win else out)"
    using call unfolding mz_counted_def deflate_mz_call_def Let_def r prod.case prod.inject by (elim conjE) simp
  then have "emitted b b' = out" "consumed b b' = take u ?win" using mv le'(3) by simp_all
  with e r win show thesis
    by (intro that [of ?win ?room "deflate_mz_flush s flush" m]) (simp_all only: win)
qed

lemma deflate_mz_call_enc:
  assumes c: "mz_contract eng" and wf: "buf_wf b" and e: "ds_encoder s"
    and call: "deflate_mz_call eng s b flush = (mz, used, produced, s', b')"
  obtains m room fl where "mz_deflate eng (ds_mz s) (take MZ_WINDOW (in_window b)) room fl = (mz, used, emitted b b', m)"
    "consumed b b' = take used (take MZ_WINDOW (in_window b))" "s' = mz_counted s m (consumed b b')"
proof (rule deflate_mz_call_data [OF c wf call])
  fix m win room fl
  assume a: "(if ds_encoder s then mz_deflate eng (ds_mz s) win room fl else mz_inflate eng (ds_mz s) win room fl) = (mz, used, emitted b b', m)"
    "win = take MZ_WINDOW (in_window b)" "consumed b b' = take used win" "s' = mz_counted s m (if ds_encoder s then consumed b b' else emitted b b')"
  show thesis by (rule that [of room fl m]) (use a e in \<open>simp_all only: if_True if_False simp_thms\<close>)
qed

lemma deflate_mz_call_dec:
  assumes c: "mz_contract eng" and wf: "buf_wf b" and e: "\<not> ds_encoder s"
    and call: "deflate_mz_call eng s b flush = (mz, used, produced, s', b')"
  obtains m room fl where "mz_inflate eng (ds_mz s) (take MZ_WINDOW (in_window b)) room fl = (mz, used, emitted b b', m)"
    "consumed b b' = take used (take MZ_WINDOW (in_window b))" "s' = mz_counted s m (emitted b b')"
proof (rule deflate_mz_call_data [OF c wf call])
  fix m win room fl
  assume a: "(if ds_encoder s then mz_deflate eng (ds_mz s) win room fl else mz_inflate eng (ds_mz s) win room fl) = (mz, used, emitted b b', m)"
    "win = take MZ_WINDOW (in_window b)" "consumed b b' = take used win" "s' = mz_counted s m (if ds_encoder s then consumed b b' else emitted b b')"
  show thesis by (rule that [of room fl m]) (use a e in \<open>simp_all only: if_True if_False simp_thms\<close>)
qed

subsection \<open>Encoders\<close>

definition enc_trace ::
  "('m option \<Rightarrow> byte list \<Rightarrow> byte list \<Rightarrow> bool) \<Rightarrow> (byte list \<Rightarrow> byte list \<Rightarrow> bool) \<Rightarrow> wrap_kind \<Rightarrow> byte list \<Rightarrow>
    'm deflate_state \<Rightarrow> byte list \<Rightarrow> byte list \<Rightarrow> bool" where
  "enc_trace D F w h s i out \<longleftrightarrow>
     ds_encoder s \<and> ds_wrap s = w \<and> take (ds_hdr_len s) (ds_hdr s) = h \<and>
     (case ds_state s of
        ST_HEADER \<Rightarrow> out = take (ds_hdr_pos s) h \<and> i = [] \<and> ds_checksum s = zu_int_checksum_init w \<and> ds_uncompressed s = 0 \<and>
          D (ds_mz s) [] []
      | ST_BODY \<Rightarrow> (\<exists>body. out = h @ body \<and> D (ds_mz s) i body) \<and>
          (w \<noteq> WRAP_NONE \<longrightarrow> ds_checksum s = checksum_of w i \<and> ds_uncompressed s = u64_of (length i))
      | ST_TRAILER \<Rightarrow>
          take (ds_tail_len s) (ds_tail s) = trailer_of w i \<and>
          (\<exists>body. out = h @ body @ take (ds_tail_pos s) (ds_tail s) \<and> F body i)
      | ST_DONE \<Rightarrow> (\<exists>body. out = h @ body @ trailer_of w i \<and> F body i)
      | ST_MEMBER_END \<Rightarrow> False)"

lemma deflate_trailer_length: "w \<noteq> WRAP_NONE \<Longrightarrow> length (deflate_trailer w c n) = (if w = WRAP_ZLIB then 4 else 8)"
  by (simp add: deflate_trailer_def Let_def)

lemma deflate_trailer_u64: "deflate_trailer w c (u64_of n) = deflate_trailer w c n"
  by (simp add: deflate_trailer_def word_of_u64_of)

lemma took_bytes: "buf_wf b \<Longrightarrow> avail_in b \<noteq> 0 \<Longrightarrow>
    consumed b (skip_in (Suc 0) b) = [src_byte b 0] \<and> emitted b (skip_in (Suc 0) b) = []"
  using src_byte_window [of b 0] in_window_length [of b] skip_in_seg [of b 1]
  by (cases "in_window b") (auto simp: buf_simps)

lemma gave_bytes: "buf_wf b \<Longrightarrow> avail_out b \<noteq> 0 \<Longrightarrow>
    consumed b (put_out [x] b) = [] \<and> emitted b (put_out [x] b) = [x]"
  by (simp add: buf_simps)

lemma enc_trace_header:
  assumes "enc_trace D F w h s i out" "deflate_wf s" "buf_wf b" "ds_state s = ST_HEADER"
  shows "case deflate_header_step s b flush of
      Next (s', b') \<Rightarrow> enc_trace D F w h s' (i @ consumed b b') (out @ emitted b b')
    | Ret (st, s', b') \<Rightarrow> enc_trace D F w h s' (i @ consumed b b') (out @ emitted b b') \<and> st \<noteq> ZU_STREAM_END"
proof -
  have e: "ds_encoder s" "h = take (ds_hdr_len s) (ds_hdr s)" using assms(1) by (simp_all add: enc_trace_def)
  have "take (Suc (ds_hdr_pos s)) h = take (ds_hdr_pos s) h @ [ds_hdr s ! ds_hdr_pos s]" if "ds_hdr_pos s < ds_hdr_len s"
    using that assms(2) e(2) by (simp add: deflate_wf_def take_Suc_conv_app_nth min_def)
  moreover have "take (ds_hdr_pos s) h = h" if "\<not> ds_hdr_pos s < ds_hdr_len s"
    using that assms(2) e(2) by (simp add: deflate_wf_def)
  ultimately show ?thesis
    using assms e(1) gave_bytes [OF assms(3)]
    by (auto simp: deflate_header_step_def enc_trace_def deflate_wf_def)
qed

lemma enc_trace_trailer:
  assumes "enc_trace D F w h s i out" "deflate_wf s" "buf_wf b" "ds_state s = ST_TRAILER"
  shows "case deflate_trailer_step s b flush of
      Next (s', b') \<Rightarrow> enc_trace D F w h s' (i @ consumed b b') (out @ emitted b b')
    | Ret (st, s', b') \<Rightarrow> enc_trace D F w h s' (i @ consumed b b') (out @ emitted b b') \<and>
        (st = ZU_STREAM_END \<longrightarrow> ds_state s' = ST_DONE)"
proof -
  have e: "ds_encoder s" "take (ds_tail_len s) (ds_tail s) = trailer_of w i"
    using assms(1,4) by (simp_all add: enc_trace_def)
  have "take (Suc (ds_tail_pos s)) (ds_tail s) = take (ds_tail_pos s) (ds_tail s) @ [ds_tail s ! ds_tail_pos s]"
    if "ds_tail_pos s < ds_tail_len s"
    using that assms(2) by (simp add: deflate_wf_def take_Suc_conv_app_nth)
  moreover have "take (ds_tail_pos s) (ds_tail s) = trailer_of w i"
    if "\<not> ds_tail_pos s < ds_tail_len s"
    using that assms(2) e(2) by (simp add: deflate_wf_def)
  ultimately show ?thesis
    using assms(1,3,4) e(1) gave_bytes [OF assms(3)]
    by (auto simp: deflate_trailer_step_def enc_trace_def)
qed

lemma from_mz_not_end: "mz \<noteq> MZ_STREAM_END \<Longrightarrow> zu_int_from_mz mz \<noteq> ZU_STREAM_END"
  by (simp add: zu_int_from_mz_def)

lemma enc_trace_body:
  assumes c: "mz_contract eng" and d: "mz_deflates eng D F" and t: "enc_trace D F w h s i out" and wf: "deflate_wf s" "buf_wf b"
    and st: "ds_state s = ST_BODY"
  shows "case deflate_body_step eng s b flush of
      Next (s', b') \<Rightarrow> enc_trace D F w h s' (i @ consumed b b') (out @ emitted b b')
    | Ret (st, s', b') \<Rightarrow> is_progress st \<longrightarrow> enc_trace D F w h s' (i @ consumed b b') (out @ emitted b b') \<and>
        (st = ZU_STREAM_END \<longrightarrow> ds_state s' = ST_DONE)"
proof (cases "avail_out b = 0")
  case True
  with t wf st show ?thesis by (simp add: deflate_body_step_def enc_trace_def)
next
  case False
  obtain mz used produced s1 b1 where call: "deflate_mz_call eng s b flush = (mz, used, produced, s1, b1)"
    by (metis prod_cases5)
  have w: "ds_wrap s = w" "ds_encoder s" using t by (auto simp: enc_trace_def)
  obtain m room fl where mv: "mz_deflate eng (ds_mz s) (take MZ_WINDOW (in_window b)) room fl = (mz, used, emitted b b1, m)"
    "consumed b b1 = take used (take MZ_WINDOW (in_window b))" and s1: "s1 = mz_counted s m (consumed b b1)"
    by (rule deflate_mz_call_enc [OF c wf(2) w(2) call])
  let ?i = "i @ consumed b b1" and ?o = "out @ emitted b b1"
  from t st obtain body where bd: "out = h @ body" "D (ds_mz s) i body"
    and h: "take (ds_hdr_len s) (ds_hdr s) = h" by (auto simp: enc_trace_def)
  note eng = mz_deflatesD [OF d bd(2) mv(1), folded mv(2)]
  have f: "ds_encoder s1" "ds_wrap s1 = w" "ds_state s1 = ST_BODY" "take (ds_hdr_len s1) (ds_hdr s1) = h" "ds_mz s1 = m"
    "ds_tail s1 = ds_tail s" "ds_tail_len s1 = ds_tail_len s"
    using w st h by (simp_all add: s1)
  have sums: "w \<noteq> WRAP_NONE \<Longrightarrow> ds_checksum s1 = checksum_of w ?i \<and> ds_uncompressed s1 = u64_of (length ?i)"
    using t st mz_counted_sums [OF w(1)] by (simp add: s1 enc_trace_def)
  have go: "enc_trace D F w h s1 ?i ?o" if "mz = MZ_OK \<or> mz = MZ_BUF_ERROR"
    using eng(2) [OF that] f sums bd(1) by (simp add: enc_trace_def)
  show ?thesis
  proof (cases "mz = MZ_STREAM_END")
    case end': True
    then have F: "F (body @ emitted b b1) ?i" by (rule eng(1))
    show ?thesis
    proof (cases "w = WRAP_NONE")
      case True
      then have "enc_trace D F w h (s1\<lparr>ds_state := ST_DONE\<rparr>) ?i ?o" using f F bd(1) by (simp add: enc_trace_def trailer_of_def)
      then show ?thesis using True end' call w False by (simp add: deflate_body_step_def)
    next
      case wrapped: False
      let ?t = "deflate_trailer w (ds_checksum s1) (ds_uncompressed s1)"
      have tr: "?t = trailer_of w ?i" using sums [OF wrapped] wrapped by (simp add: trailer_of_def deflate_trailer_u64)
      have "ds_tail_len s = length ?t" "length (ds_tail s) = 8"
        using wf(1) w wrapped by (cases w; simp add: deflate_wf_def deflate_trailer_length)+
      then have "take (ds_tail_len s) (write_at (ds_tail s) 0 ?t) = ?t" by (simp add: write_at_def)
      then have "enc_trace D F w h (s1\<lparr>ds_tail := write_at (ds_tail s1) 0 ?t, ds_tail_pos := 0, ds_state := ST_TRAILER\<rparr>) ?i ?o"
        using f F bd(1) unfolding tr by (simp add: enc_trace_def)
      then show ?thesis using wrapped end' call w False by (simp add: deflate_body_step_def)
    qed
  next
    case False
    show ?thesis
    proof (cases "mz = MZ_OK \<or> mz = MZ_BUF_ERROR")
      case True
      with go False call w \<open>avail_out b \<noteq> 0\<close> show ?thesis by (auto simp: deflate_body_step_def)
    next
      case bad: False
      then have "\<not> is_progress (zu_int_from_mz mz)" using False by (simp add: zu_int_from_mz_def)
      with bad False call w \<open>avail_out b \<noteq> 0\<close> show ?thesis by (auto simp: deflate_body_step_def)
    qed
  qed
qed

lemma enc_trace_step:
  assumes "mz_contract eng" "mz_deflates eng D F" "enc_trace D F w h s i out" "deflate_wf s" "buf_wf b"
  shows "case deflate_step eng flush (s, b) of
      Next (s', b') \<Rightarrow> enc_trace D F w h s' (i @ consumed b b') (out @ emitted b b')
    | Ret (st, s', b') \<Rightarrow> is_progress st \<longrightarrow> enc_trace D F w h s' (i @ consumed b b') (out @ emitted b b') \<and>
        (st = ZU_STREAM_END \<longrightarrow> ds_state s' = ST_DONE)"
proof (cases "ds_state s")
  case ST_HEADER
  with enc_trace_header [OF assms(3-5), of flush] show ?thesis
    by (auto simp: deflate_step_def split: loop_step.splits)
next
  case ST_BODY
  with enc_trace_body [OF assms(1-5), of flush] show ?thesis
    by (auto simp: deflate_step_def split: loop_step.splits)
next
  case ST_TRAILER
  with enc_trace_trailer [OF assms(3-5), of flush] show ?thesis
    by (auto simp: deflate_step_def split: loop_step.splits)
next
  case ST_MEMBER_END
  with assms(3) show ?thesis by (simp add: enc_trace_def)
next
  case ST_DONE
  with assms(3) show ?thesis by (simp add: deflate_step_def)
qed

text \<open>Whole calls, and runs of calls: the lists are everything consumed and everything emitted.\<close>

inductive deflate_run ::
  "'m mz_engine \<Rightarrow> 'm deflate_state \<Rightarrow> byte list \<Rightarrow> byte list \<Rightarrow> 'm deflate_state \<Rightarrow> zu_status \<Rightarrow> bool"
  for eng :: "'m mz_engine" and s0 :: "'m deflate_state" where
  start: "deflate_run eng s0 [] [] s0 ZU_OK"
| call: "deflate_run eng s0 i out s st \<Longrightarrow> is_progress st \<Longrightarrow> buf_wf b \<Longrightarrow>
    deflate_process eng (Some s) b flush = Some (st', Some s', b') \<Longrightarrow>
    deflate_run eng s0 (i @ consumed b b') (out @ emitted b b') s' st'"

text \<open>A relation between the state and the bytes that every turn keeps, as long as the status is no
  error, is kept by whole calls and by runs.\<close>

definition trace_kept :: "'m mz_engine \<Rightarrow> ('m deflate_state \<Rightarrow> byte list \<Rightarrow> byte list \<Rightarrow> bool) \<Rightarrow> bool" where
  "trace_kept eng Tr \<longleftrightarrow>
     (\<forall>s b i out flush. Tr s i out \<longrightarrow> deflate_wf s \<longrightarrow> buf_wf b \<longrightarrow>
        (case deflate_step eng flush (s, b) of
           Next (s', b') \<Rightarrow> Tr s' (i @ consumed b b') (out @ emitted b b')
         | Ret (st, s', b') \<Rightarrow> is_progress st \<longrightarrow> Tr s' (i @ consumed b b') (out @ emitted b b') \<and>
             (st = ZU_STREAM_END \<longrightarrow> ds_state s' = ST_DONE)))"

lemma trace_kept_process:
  assumes c: "mz_contract eng" and k: "trace_kept eng Tr" and t: "Tr s i out" and wf: "deflate_wf s" "buf_wf b"
    and call: "deflate_process eng (Some s) b flush = Some (st, Some s', b')"
  shows "deflate_wf s' \<and> (is_progress st \<longrightarrow> Tr s' (i @ consumed b b') (out @ emitted b b') \<and>
    (st = ZU_STREAM_END \<longrightarrow> ds_state s' = ST_DONE))"
proof -
  let ?P = "\<lambda>s1 b1. buf_adv b b1 \<and> Tr s1 (i @ consumed b b1) (out @ emitted b b1)"
  let ?Q = "\<lambda>st s2 b2. is_progress st \<longrightarrow> Tr s2 (i @ consumed b b2) (out @ emitted b b2) \<and>
      (st = ZU_STREAM_END \<longrightarrow> ds_state s2 = ST_DONE)"
  have sum: "Tr s2 (i @ consumed b b2) (out @ emitted b b2)"
    if "buf_adv b b1" "buf_adv b1 b2"
      "Tr s2 ((i @ consumed b b1) @ consumed b1 b2) ((out @ emitted b b1) @ emitted b1 b2)" for s2 b1 b2
    using that(3) by (simp add: consumed_trans [OF that(1,2)] emitted_trans [OF that(1,2)])
  have step: "case deflate_step eng flush (s1, b1) of
      Next (s2, b2) \<Rightarrow> Tr s2 ((i @ consumed b b1) @ consumed b1 b2) ((out @ emitted b b1) @ emitted b1 b2)
    | Ret (st, s2, b2) \<Rightarrow> is_progress st \<longrightarrow>
        Tr s2 ((i @ consumed b b1) @ consumed b1 b2) ((out @ emitted b b1) @ emitted b1 b2) \<and>
        (st = ZU_STREAM_END \<longrightarrow> ds_state s2 = ST_DONE)"
    if "deflate_wf s1" "buf_wf b1" "?P s1 b1" for s1 b1
    using k that unfolding trace_kept_def by blast
  have "\<exists>st s' b'. deflate_process eng (Some s) b flush = Some (st, Some s', b') \<and> deflate_kept s b s' b' \<and> ?Q st s' b'"
  proof (rule deflate_loop [OF c wf, where P = ?P])
    show "?P s b" using t wf by simp
  next
    fix s1 b1 s2 b2
    assume a: "deflate_wf s1" "buf_wf b1" "?P s1 b1" "deflate_step eng flush (s1, b1) = Next (s2, b2)"
    have adv: "buf_adv b1 b2" using deflate_step_ok [OF c a(1,2), of flush] a(4)
      by (simp add: deflate_turn_ok_def deflate_kept_def)
    with step [OF a(1-3)] a(3,4) sum show "?P s2 b2" by (auto intro: buf_adv_trans)
  next
    fix s1 b1 st s2 b2
    assume a: "deflate_wf s1" "buf_wf b1" "?P s1 b1" "deflate_step eng flush (s1, b1) = Ret (st, s2, b2)"
    have adv: "buf_adv b1 b2" using deflate_step_ok [OF c a(1,2), of flush] a(4)
      by (simp add: deflate_turn_ok_def deflate_kept_def)
    with step [OF a(1-3)] a(3,4) sum show "?Q st s2 b2" by auto
  qed
  with call show ?thesis by (auto simp: deflate_kept_def)
qed

lemma trace_kept_run:
  assumes c: "mz_contract eng" and k: "trace_kept eng Tr" and t: "Tr s0 [] []" and wf: "deflate_wf s0"
    and run: "deflate_run eng s0 i out s st"
  shows "deflate_wf s \<and> (is_progress st \<longrightarrow> Tr s i out \<and> (st = ZU_STREAM_END \<longrightarrow> ds_state s = ST_DONE))"
  using run
proof (induction rule: deflate_run.induct)
  case start
  from t wf show ?case by simp
next
  case (call i out s st b flush st' s' b')
  then have "deflate_wf s" "Tr s i out" by simp_all
  with trace_kept_process [OF c k _ _ call.hyps(3,4)] show ?case by simp
qed

lemma enc_trace_kept: "mz_contract eng \<Longrightarrow> mz_deflates eng D F \<Longrightarrow> trace_kept eng (enc_trace D F w h)"
  using enc_trace_step [of eng D F w h] by (fastforce simp: trace_kept_def split: loop_step.splits)

text \<open>The header a new encoder is about to write.\<close>

definition written_header :: "wrap_kind \<Rightarrow> int \<Rightarrow> byte list" where
  "written_header w level = (case w of
     WRAP_ZLIB \<Rightarrow> zu_int_zlib_header level | WRAP_GZIP \<Rightarrow> zu_int_gzip_write_header | WRAP_NONE \<Rightarrow> [])"

lemma enc_trace_new:
  assumes "zu_int_deflate_new mem eng w True level fl = (ZU_OK, Some s)" "mz_deflates eng D F"
  shows "enc_trace D F w (written_header w (ds_level s)) s [] []"
proof -
  obtain m where "mz_deflateInit2 eng (ds_level s) = (MZ_OK, m)" "ds_mz s = m"
    using assms(1) by (cases w) (auto simp: zu_int_deflate_new_def deflate_blank_def deflate_new_wrap_def Let_def split: if_splits prod.splits)
  then have "D (ds_mz s) [] []" using assms(2) by (auto simp: mz_deflates_def)
  then show ?thesis using assms(1)
    by (cases w) (auto simp: zu_int_deflate_new_def deflate_blank_def deflate_new_wrap_def enc_trace_def Let_def
        written_header_def write_at_def ZU_INT_GZIP_HEADER_LEN_def split: if_splits prod.splits)
qed

text \<open>Every header the zlib encoder can write passes the decoder's check.\<close>

lemma zlib_header_ok: "header_ok WRAP_ZLIB (zu_int_zlib_header level)"
proof -
  consider "level \<le> 1" | "1 < level" "level \<le> 5" | "level = 6" | "6 < level" by linarith
  then show ?thesis
    by cases (simp_all add: header_ok_def zu_int_zlib_header_def zu_int_zlib_check_header_def Let_def)
qed

lemma gzip_header_ok: "header_ok WRAP_GZIP zu_int_gzip_write_header"
  using gzip_written_header_done [of "[]"] by (simp add: header_ok_def)

lemma written_header_ok: "header_ok w (written_header w level)"
  by (cases w) (simp_all add: written_header_def zlib_header_ok gzip_header_ok header_ok_def [of WRAP_NONE])

lemma encoder_member:
  assumes c: "mz_contract eng" and d: "mz_deflates eng D F"
    and new: "zu_int_deflate_new mem eng w True level fl = (ZU_OK, Some s0)"
    and run: "deflate_run eng s0 i out s ZU_STREAM_END"
  shows "member_of F w out i"
proof -
  have "deflate_wf s0" using deflate_new_wf [OF new] by simp
  from trace_kept_run [where Tr = "enc_trace D F w (written_header w (ds_level s0))",
      OF c enc_trace_kept [OF c d] enc_trace_new [OF new d] this run]
  have "enc_trace D F w (written_header w (ds_level s0)) s i out" "ds_state s = ST_DONE" by simp_all
  then obtain body where "out = written_header w (ds_level s0) @ body @ trailer_of w i" "F body i"
    by (auto simp: enc_trace_def)
  with written_header_ok [of w "ds_level s0"] show ?thesis unfolding member_of_def by blast
qed

subsection \<open>Decoders\<close>

lemma gzip_feed_all_append:
  "gzip_feed_all h (xs @ ys) =
    (case gzip_feed_all h xs of
       Header_more g \<Rightarrow> gzip_feed_all g ys | Header_done r \<Rightarrow> Header_done (r @ ys) | Header_error e \<Rightarrow> Header_error e)"
  by (induction xs arbitrary: h) (auto split: prod.splits)

text \<open>The pieces of the member in progress: the input since its first byte and the data so far.\<close>

definition dec_at ::
  "('m option \<Rightarrow> byte list \<Rightarrow> byte list \<Rightarrow> bool) \<Rightarrow> (byte list \<Rightarrow> byte list \<Rightarrow> bool) \<Rightarrow> wrap_kind \<Rightarrow>
    'm deflate_state \<Rightarrow> byte list \<Rightarrow> byte list \<Rightarrow> bool" where
  "dec_at I F w s ci co \<longleftrightarrow>
     (case ds_state s of
        ST_HEADER \<Rightarrow> w \<noteq> WRAP_NONE \<and> co = [] \<and> ds_checksum s = zu_int_checksum_init w \<and> ds_uncompressed s = 0 \<and> \<not> ds_probe_magic s \<and>
          I (ds_mz s) [] [] \<and>
          (if w = WRAP_GZIP then gzip_feed_all zu_int_gzip_header_init ci = Header_more (ds_gz s)
           else ci = take (ds_hdr_pos s) (ds_hdr s))
      | ST_BODY \<Rightarrow> (w \<noteq> WRAP_NONE \<longrightarrow> ds_checksum s = checksum_of w co \<and> ds_uncompressed s = u64_of (length co)) \<and>
          \<not> ds_probe_magic s \<and> (\<exists>h body. header_ok w h \<and> ci = h @ body \<and> I (ds_mz s) body co)
      | ST_TRAILER \<Rightarrow> w \<noteq> WRAP_NONE \<and> ds_checksum s = checksum_of w co \<and> ds_uncompressed s = u64_of (length co) \<and> \<not> ds_probe_magic s \<and>
          (\<exists>h body. header_ok w h \<and> ci = h @ body @ take (ds_tail_pos s) (ds_tail s) \<and> F body co)
      | ST_MEMBER_END \<Rightarrow> co = [] \<and> ci = (if ds_probe_magic s then [0x1F] else [])
      | ST_DONE \<Rightarrow> co = [] \<and> (ci = [] \<or> ci = [0x1F] \<and> deflate_concat s))"

definition between_members :: "'m deflate_state \<Rightarrow> bool" where
  "between_members s \<longleftrightarrow> ds_state s = ST_MEMBER_END \<or> ds_state s = ST_DONE"

definition dec_trace ::
  "('m option \<Rightarrow> byte list \<Rightarrow> byte list \<Rightarrow> bool) \<Rightarrow> (byte list \<Rightarrow> byte list \<Rightarrow> bool) \<Rightarrow> wrap_kind \<Rightarrow>
    'm deflate_state \<Rightarrow> byte list \<Rightarrow> byte list \<Rightarrow> bool" where
  "dec_trace I F w s i out \<longleftrightarrow>
     \<not> ds_encoder s \<and> ds_wrap s = w \<and>
     (\<exists>ms ci co. i = concat (map fst ms) @ ci \<and> out = concat (map snd ms) @ co \<and>
        (\<forall>(m, d) \<in> set ms. member_of F w m d) \<and> dec_at I F w s ci co \<and>
        (between_members s \<longrightarrow> ms \<noteq> []) \<and>
        (\<not> deflate_concat s \<longrightarrow> length ms = (if between_members s then 1 else 0) \<and> (ds_state s = ST_MEMBER_END \<longrightarrow> ci = [])))"

lemma dec_traceI:
  "\<not> ds_encoder s \<Longrightarrow> ds_wrap s = w \<Longrightarrow> i = concat (map fst ms) @ ci \<Longrightarrow>
    out = concat (map snd ms) @ co \<Longrightarrow> (\<forall>(m, d) \<in> set ms. member_of F w m d) \<Longrightarrow> dec_at I F w s ci co \<Longrightarrow>
    (between_members s \<longrightarrow> ms \<noteq> []) \<Longrightarrow>
    (\<not> deflate_concat s \<longrightarrow> length ms = (if between_members s then 1 else 0) \<and> (ds_state s = ST_MEMBER_END \<longrightarrow> ci = [])) \<Longrightarrow>
    dec_trace I F w s i out"
  unfolding dec_trace_def by blast

lemma dec_traceE:
  assumes "dec_trace I F w s i out"
  obtains ms ci co where "\<not> ds_encoder s" "ds_wrap s = w" "i = concat (map fst ms) @ ci"
    "out = concat (map snd ms) @ co" "\<forall>(m, d) \<in> set ms. member_of F w m d" "dec_at I F w s ci co"
    "between_members s \<longrightarrow> ms \<noteq> []"
    "\<not> deflate_concat s \<longrightarrow> length ms = (if between_members s then 1 else 0) \<and> (ds_state s = ST_MEMBER_END \<longrightarrow> ci = [])"
  using assms unfolding dec_trace_def by blast

text \<open>A move inside a member.\<close>

lemma dec_trace_moved:
  assumes t: "dec_trace I F w s i out" and f: "ds_encoder s' = ds_encoder s" "ds_wrap s' = ds_wrap s"
    "deflate_concat s' = deflate_concat s" "\<not> between_members s" "\<not> between_members s'"
    and at: "\<And>ci co. dec_at I F w s ci co \<Longrightarrow> dec_at I F w s' (ci @ x) (co @ y)"
  shows "dec_trace I F w s' (i @ x) (out @ y)"
  using t
proof (rule dec_traceE)
  fix ms ci co
  assume a: "\<not> ds_encoder s" "ds_wrap s = w" "i = concat (map fst ms) @ ci"
    "out = concat (map snd ms) @ co" "\<forall>(m, d) \<in> set ms. member_of F w m d" "dec_at I F w s ci co"
    "\<not> deflate_concat s \<longrightarrow> length ms = (if between_members s then 1 else 0) \<and> (ds_state s = ST_MEMBER_END \<longrightarrow> ci = [])"
  have nm: "ds_state s' \<noteq> ST_MEMBER_END" using f(5) by (auto simp: between_members_def)
  show ?thesis
    by (rule dec_traceI [where ms = ms, OF _ _ _ _ a(5) at [OF a(6)]]) (use a f nm in auto)
qed

lemma dec_trace_header:
  assumes t: "dec_trace I F w s i out" and wf: "deflate_wf s" "buf_wf b" and st: "ds_state s = ST_HEADER"
  shows "case deflate_header_step s b flush of
      Next (s', b') \<Rightarrow> dec_trace I F w s' (i @ consumed b b') (out @ emitted b b')
    | Ret (st, s', b') \<Rightarrow> is_progress st \<longrightarrow> dec_trace I F w s' (i @ consumed b b') (out @ emitted b b') \<and> st \<noteq> ZU_STREAM_END"
proof -
  have enc: "\<not> ds_encoder s" "ds_wrap s = w" "w \<noteq> WRAP_NONE" using t st by (auto simp: dec_trace_def dec_at_def)
  have nb: "\<not> between_members s" using st by (simp add: between_members_def)
  show ?thesis
  proof (cases "w = WRAP_GZIP")
    case True
    show ?thesis
    proof (cases "avail_in b = 0")
      case empty: True
      with True enc t wf show ?thesis by (simp add: deflate_header_step_def)
    next
      case False
      obtain hs gz dn where fd: "zu_int_gzip_header_feed (ds_gz s) (src_byte b 0) = (hs, gz, dn)" by (metis prod_cases3)
      have hs: "is_progress hs \<Longrightarrow> hs = ZU_OK"
        using fd by (auto simp: zu_int_gzip_header_feed_def gz_leave_def Let_def
            split: zu_int_gzip_state.splits if_splits)
      let ?s = "if dn then s\<lparr>ds_gz := gz, ds_state := ST_BODY\<rparr> else s\<lparr>ds_gz := gz\<rparr>"
      have "dec_trace I F w ?s (i @ [src_byte b 0]) (out @ [])" if "hs = ZU_OK"
      proof (rule dec_trace_moved [OF t])
        fix ci co assume at: "dec_at I F w s ci co"
        then have g: "gzip_feed_all zu_int_gzip_header_init (ci @ [src_byte b 0]) =
            (if dn then Header_done [] else Header_more gz)"
          using True st fd that by (simp add: dec_at_def gzip_feed_all_append)
        show "dec_at I F w ?s (ci @ [src_byte b 0]) (co @ [])"
        proof (cases dn)
          case d: True
          then have "header_ok w (ci @ [src_byte b 0])" using g True by (simp add: header_ok_def)
          then show ?thesis using at True st d by (auto simp: dec_at_def intro: exI [of _ "[]"])
        next
          case False
          then show ?thesis using at True st g by (simp add: dec_at_def)
        qed
      qed (use st in \<open>auto simp: between_members_def deflate_concat_def\<close>)
      then show ?thesis
        using True False enc fd hs took_bytes [OF wf(2) False]
        by (auto simp: deflate_header_step_def Let_def)
    qed
  next
    case False
    with enc have w: "w = WRAP_ZLIB" by (cases w) auto
    have len: "length (ds_hdr s) = 10" "ds_hdr_pos s \<le> ds_hdr_len s" "ds_hdr_len s = 2"
      using wf(1) enc w by (simp_all add: deflate_wf_def)
    show ?thesis
    proof (cases "ds_hdr_pos s < ds_hdr_len s")
      case less: True
      show ?thesis
      proof (cases "avail_in b = 0")
        case True
        with less w enc t wf show ?thesis by (simp add: deflate_header_step_def)
      next
        case False
        let ?s = "s\<lparr>ds_hdr := (ds_hdr s)[ds_hdr_pos s := src_byte b 0], ds_hdr_pos := Suc (ds_hdr_pos s)\<rparr>"
        have tk: "take (Suc (ds_hdr_pos s)) ((ds_hdr s)[ds_hdr_pos s := src_byte b 0]) =
            take (ds_hdr_pos s) (ds_hdr s) @ [src_byte b 0]"
          using less len by (simp add: take_Suc_conv_app_nth)
        have "dec_trace I F w ?s (i @ [src_byte b 0]) (out @ [])"
          by (rule dec_trace_moved [OF t])
            (use st w tk in \<open>auto simp: between_members_def deflate_concat_def dec_at_def\<close>)
        then show ?thesis
          using less False w enc took_bytes [OF wf(2) False] by (simp add: deflate_header_step_def)
      qed
    next
      case False
      let ?c = "zu_int_zlib_check_header (ds_hdr s ! 0) (ds_hdr s ! 1)"
      have pr: "is_progress ?c \<Longrightarrow> ?c = ZU_OK" by (auto simp: zu_int_zlib_check_header_def split: if_splits)
      have "dec_trace I F w (s\<lparr>ds_state := ST_BODY\<rparr>) (i @ []) (out @ [])" if "?c = ZU_OK"
      proof (rule dec_trace_moved [OF t])
        fix ci co assume at: "dec_at I F w s ci co"
        then have "ci = take 2 (ds_hdr s)" using st w len False by (simp add: dec_at_def)
        then have "header_ok w ci" using that w len by (simp add: header_ok_def)
        then show "dec_at I F w (s\<lparr>ds_state := ST_BODY\<rparr>) (ci @ []) (co @ [])"
          using at st w by (auto simp: dec_at_def intro: exI [of _ "[]"])
      qed (use st in \<open>auto simp: between_members_def deflate_concat_def\<close>)
      with False w enc pr show ?thesis by (auto simp: deflate_header_step_def Let_def)
    qed
  qed
qed

lemma dec_trace_body:
  assumes c: "mz_contract eng" and d: "mz_inflates eng I F" and t: "dec_trace I F w s i out" and wf: "deflate_wf s" "buf_wf b"
    and st: "ds_state s = ST_BODY"
  shows "case deflate_body_step eng s b flush of
      Next (s', b') \<Rightarrow> dec_trace I F w s' (i @ consumed b b') (out @ emitted b b')
    | Ret (st, s', b') \<Rightarrow> is_progress st \<longrightarrow> dec_trace I F w s' (i @ consumed b b') (out @ emitted b b') \<and>
        (st = ZU_STREAM_END \<longrightarrow> ds_state s' = ST_DONE)"
proof -
  obtain mz used produced s1 b1 where call: "deflate_mz_call eng s b flush = (mz, used, produced, s1, b1)"
    by (metis prod_cases5)
  have w: "ds_wrap s = w" "\<not> ds_encoder s" using t by (auto simp: dec_trace_def)
  obtain m room fl where mv: "mz_inflate eng (ds_mz s) (take MZ_WINDOW (in_window b)) room fl = (mz, used, emitted b b1, m)"
    "consumed b b1 = take used (take MZ_WINDOW (in_window b))" and s1: "s1 = mz_counted s m (emitted b b1)"
    by (rule deflate_mz_call_dec [OF c wf(2) w(2) call])
  let ?i = "i @ consumed b b1" and ?o = "out @ emitted b b1"
  have nb: "\<not> between_members s" using st by (simp add: between_members_def)
  have eng: "mz = MZ_STREAM_END \<longrightarrow> F (body @ consumed b b1) (co @ emitted b b1)"
    "mz = MZ_OK \<or> mz = MZ_BUF_ERROR \<longrightarrow> I m (body @ consumed b b1) (co @ emitted b b1)" if "I (ds_mz s) body co" for body co
    using mz_inflatesD [OF d that mv(1), folded mv(2)] by blast+
  note sums = mz_counted_sums [OF w(1), of _ m]
  have go: "dec_trace I F w s1 ?i ?o" if "mz = MZ_OK \<or> mz = MZ_BUF_ERROR"
    by (rule dec_trace_moved [OF t])
      (use st w nb that eng(2) sums in \<open>auto simp: s1 between_members_def deflate_concat_def dec_at_def\<close>)
  show ?thesis
  proof (cases "mz = MZ_STREAM_END")
    case True
    show ?thesis
    proof (cases "w = WRAP_NONE")
      case none: True
      from t obtain ms ci co where a: "i = concat (map fst ms) @ ci" "out = concat (map snd ms) @ co"
        "\<forall>(m, d) \<in> set ms. member_of F w m d" "dec_at I F w s ci co"
        "\<not> deflate_concat s \<longrightarrow> length ms = (if between_members s then 1 else 0) \<and> (ds_state s = ST_MEMBER_END \<longrightarrow> ci = [])"
        by (rule dec_traceE)
      have nc: "\<not> deflate_concat s" using none w by (simp add: deflate_concat_def)
      then have ms: "ms = []" using a(5) nb by simp
      obtain body where b: "ci = body" "I (ds_mz s) body co"
        using a(4) st none by (auto simp: dec_at_def header_ok_def)
      have "member_of F w (body @ consumed b b1) (co @ emitted b b1)"
        using eng(1) [OF b(2)] True none unfolding member_of_def
        by (intro exI [of _ "[]"] exI [of _ "body @ consumed b b1"]) (simp add: header_ok_def trailer_of_def)
      then have "dec_trace I F w (s1\<lparr>ds_state := ST_DONE\<rparr>) ?i ?o"
        by (intro dec_traceI [where ms = "[(body @ consumed b b1, co @ emitted b b1)]" and ci = "[]" and co = "[]"])
          (use a(1,2) b(1) ms w nc in \<open>simp_all add: s1 dec_at_def between_members_def deflate_concat_def\<close>)
      then show ?thesis using True none call w by (simp add: deflate_body_step_def)
    next
      case False
      have "dec_trace I F w (s1\<lparr>ds_tail := ds_tail s1, ds_tail_pos := 0, ds_state := ST_TRAILER\<rparr>) ?i ?o"
        by (rule dec_trace_moved [OF t])
          (use st w nb True False eng(1) sums in \<open>auto simp: s1 between_members_def deflate_concat_def dec_at_def\<close>)
      then show ?thesis using True False call w by (simp add: deflate_body_step_def)
    qed
  next
    case False
    show ?thesis
    proof (cases "mz = MZ_OK \<or> mz = MZ_BUF_ERROR")
      case True
      with go False call w show ?thesis by (auto simp: deflate_body_step_def)
    next
      case bad: False
      then have "\<not> is_progress (zu_int_from_mz mz)" using False by (simp add: zu_int_from_mz_def)
      with bad False call w show ?thesis by (auto simp: deflate_body_step_def)
    qed
  qed
qed

lemma dec_trace_trailer:
  assumes t: "dec_trace I F w s i out" and wf: "deflate_wf s" "buf_wf b" and st: "ds_state s = ST_TRAILER"
  shows "case deflate_trailer_step s b flush of
      Next (s', b') \<Rightarrow> dec_trace I F w s' (i @ consumed b b') (out @ emitted b b')
    | Ret (st, s', b') \<Rightarrow> is_progress st \<longrightarrow> dec_trace I F w s' (i @ consumed b b') (out @ emitted b b') \<and> st \<noteq> ZU_STREAM_END"
proof -
  have enc: "\<not> ds_encoder s" "ds_wrap s = w" "w \<noteq> WRAP_NONE" using t st by (auto simp: dec_trace_def dec_at_def)
  have len: "length (ds_tail s) = 8" "ds_tail_pos s \<le> ds_tail_len s" "ds_tail_len s \<le> 8"
    using wf(1) by (simp_all add: deflate_wf_def)
  show ?thesis
  proof (cases "ds_tail_pos s < ds_tail_len s")
    case less: True
    show ?thesis
    proof (cases "avail_in b = 0")
      case True
      with less enc t wf show ?thesis by (simp add: deflate_trailer_step_def)
    next
      case False
      let ?s = "s\<lparr>ds_tail := (ds_tail s)[ds_tail_pos s := src_byte b 0], ds_tail_pos := Suc (ds_tail_pos s)\<rparr>"
      have tk: "take (Suc (ds_tail_pos s)) ((ds_tail s)[ds_tail_pos s := src_byte b 0]) =
          take (ds_tail_pos s) (ds_tail s) @ [src_byte b 0]"
        using less len by (simp add: take_Suc_conv_app_nth)
      have "dec_trace I F w ?s (i @ [src_byte b 0]) (out @ [])"
        by (rule dec_trace_moved [OF t])
          (use st tk in \<open>auto simp: between_members_def deflate_concat_def dec_at_def\<close>)
      then show ?thesis
        using less False enc took_bytes [OF wf(2) False] by (simp add: deflate_trailer_step_def)
    qed
  next
    case False
    with len have pos: "ds_tail_pos s = ds_tail_len s" by simp
    let ?s = "s\<lparr>ds_state := ST_MEMBER_END\<rparr>"
    define good where "good \<longleftrightarrow> take (ds_tail_len s) (ds_tail s) = deflate_trailer w (ds_checksum s) (ds_uncompressed s)"
    have step: "deflate_trailer_step s b flush = (if good then Next (?s, b) else Ret (ZU_ERR_CHECKSUM, s, b))"
    proof (cases w)
      case WRAP_ZLIB
      then have "ds_tail_len s = 4" using wf(1) enc by (simp add: deflate_wf_def)
      with WRAP_ZLIB False enc zlib_trailer_check [OF len(1)] show ?thesis
        by (simp add: deflate_trailer_step_def good_def)
    next
      case WRAP_GZIP
      then have "ds_tail_len s = 8" using wf(1) enc by (simp add: deflate_wf_def)
      with WRAP_GZIP False enc len gzip_trailer_check [OF len(1), of "ds_checksum s" "ds_uncompressed s"] show ?thesis
        by (auto simp: deflate_trailer_step_def good_def)
    qed (use enc in simp)
    have "dec_trace I F w ?s i out" if good
      using t
    proof (rule dec_traceE)
      fix ms ci co
      assume a: "\<not> ds_encoder s" "ds_wrap s = w" "i = concat (map fst ms) @ ci"
        "out = concat (map snd ms) @ co" "\<forall>(m, d) \<in> set ms. member_of F w m d" "dec_at I F w s ci co"
        "\<not> deflate_concat s \<longrightarrow> length ms = (if between_members s then 1 else 0) \<and> (ds_state s = ST_MEMBER_END \<longrightarrow> ci = [])"
      from a(6) st have at: "ds_checksum s = checksum_of w co" "ds_uncompressed s = u64_of (length co)" "\<not> ds_probe_magic s"
        "\<exists>h body. header_ok w h \<and> ci = h @ body @ take (ds_tail_pos s) (ds_tail s) \<and> F body co" by (simp_all add: dec_at_def)
      have "take (ds_tail_pos s) (ds_tail s) = trailer_of w co"
        using that pos at(1,2) enc(3) by (simp add: good_def deflate_trailer_u64 trailer_of_def)
      with at(4) have "member_of F w ci co" by (auto simp: member_of_def)
      with a(5) have m: "\<forall>(m, d) \<in> set (ms @ [(ci, co)]). member_of F w m d" by auto
      have "dec_at I F w ?s [] []" using at(3) by (simp add: dec_at_def)
      from dec_traceI [where ms = "ms @ [(ci, co)]", OF _ _ _ _ m this] show ?thesis
        using a st by (simp add: between_members_def deflate_concat_def)
    qed
    with step show ?thesis by simp
  qed
qed

text \<open>A gzip reset that reports success leaves a fresh header parser and fresh accounts.\<close>

lemma deflate_reset_fresh:
  assumes "mz_contract eng" "\<not> ds_encoder s" "ds_wrap s = WRAP_GZIP"
    and "zu_int_deflate_reset eng s level = (ZU_OK, s')"
  shows "mz_inflates eng I F \<Longrightarrow> I (ds_mz s') [] []" "ds_state s' = ST_HEADER" "ds_checksum s' = zu_int_checksum_init WRAP_GZIP" "ds_uncompressed s' = 0"
    "\<not> ds_probe_magic s'" "ds_gz s' = zu_int_gzip_header_init" "ds_encoder s' = ds_encoder s" "ds_wrap s' = ds_wrap s"
    "ds_dec_flags s' = ds_dec_flags s"
proof -
  obtain mz m where rs: "mz_inflateReset eng (ds_mz s) = (mz, m)" by fastforce
  with assms(2) have e: "zu_int_deflate_reset eng s level =
      (if mz \<noteq> MZ_OK then (zu_int_from_mz mz, s\<lparr>ds_mz := m\<rparr>) else (ZU_OK, deflate_rewind (s\<lparr>ds_mz := m\<rparr>)))"
    by (simp add: zu_int_deflate_reset_def Let_def)
  have "mz = MZ_OK \<or> mz = MZ_STREAM_ERROR" using assms(1) rs unfolding mz_contract_def by (metis fst_conv)
  with e assms(4) have s': "mz = MZ_OK" "s' = deflate_rewind (s\<lparr>ds_mz := m\<rparr>)"
    by (auto simp: zu_int_from_mz_def mz_codes split: if_splits)
  then have m: "ds_mz s' = m" using assms(3) by (simp add: deflate_rewind_def Let_def)
  show "mz_inflates eng I F \<Longrightarrow> I (ds_mz s') [] []" using rs s'(1) unfolding m mz_inflates_def by blast
  show "ds_state s' = ST_HEADER" "ds_checksum s' = zu_int_checksum_init WRAP_GZIP" "ds_uncompressed s' = 0"
    "\<not> ds_probe_magic s'" "ds_gz s' = zu_int_gzip_header_init" "ds_encoder s' = ds_encoder s" "ds_wrap s' = ds_wrap s"
    "ds_dec_flags s' = ds_dec_flags s"
    using assms(2,3) by (simp_all add: s'(2) deflate_rewind_def Let_def)
qed

lemma from_mz_progress: "mz \<noteq> MZ_STREAM_END \<Longrightarrow> is_progress (zu_int_from_mz mz) \<Longrightarrow> zu_int_from_mz mz = ZU_OK"
  by (simp add: zu_int_from_mz_def split: if_splits)

lemma deflate_reset_progress:
  assumes "mz_contract eng" "\<not> ds_encoder s" "zu_int_deflate_reset eng s level = (st, s')" "is_progress st"
  shows "st = ZU_OK"
  using assms(3)
proof (cases rule: deflate_reset_cases)
  case (2 m l mz)
  with assms(1,2) have "mz = MZ_STREAM_ERROR" by (auto simp: mz_contract_def)
  with 2(1) assms(4) show ?thesis by (simp add: zu_int_from_mz_def mz_codes)
qed

lemma dec_trace_member_end:
  assumes c: "mz_contract eng" and d: "mz_inflates eng I F" and t: "dec_trace I F w s i out" and wf: "deflate_wf s" "buf_wf b"
    and st: "ds_state s = ST_MEMBER_END"
  shows "case deflate_member_end_step eng s b flush of
      Next (s', b') \<Rightarrow> dec_trace I F w s' (i @ consumed b b') (out @ emitted b b')
    | Ret (st, s', b') \<Rightarrow> is_progress st \<longrightarrow> dec_trace I F w s' (i @ consumed b b') (out @ emitted b b') \<and>
        (st = ZU_STREAM_END \<longrightarrow> ds_state s' = ST_DONE)"
  using t
proof (rule dec_traceE)
  fix ms ci co
  assume a: "\<not> ds_encoder s" "ds_wrap s = w" "i = concat (map fst ms) @ ci"
    "out = concat (map snd ms) @ co" "\<forall>(m, d) \<in> set ms. member_of F w m d" "dec_at I F w s ci co"
    "between_members s \<longrightarrow> ms \<noteq> []"
    "\<not> deflate_concat s \<longrightarrow> length ms = (if between_members s then 1 else 0) \<and> (ds_state s = ST_MEMBER_END \<longrightarrow> ci = [])"
  have cc: "co = []" "ci = (if ds_probe_magic s then [0x1F] else [])" using a(6) st by (simp_all add: dec_at_def)
  have bm: "between_members s" "ms \<noteq> []" using st a(7) by (simp_all add: between_members_def)
  have fin: "dec_trace I F w s' i out" if "s' = s\<lparr>ds_state := ST_DONE\<rparr> \<or> s' = s\<lparr>ds_state := ST_DONE, ds_probe_magic := False\<rparr> \<or>
      s' = s\<lparr>ds_probe_magic := False, ds_state := ST_DONE\<rparr>" for s'
    by (rule dec_traceI [where ms = ms and ci = ci and co = co])
      (use that a cc bm st in \<open>auto simp: dec_at_def between_members_def deflate_concat_def\<close>)
  have begin1: "dec_trace I F w s' (i @ x) out"
    if "zu_int_deflate_reset eng s l = (ZU_OK, s1)" "deflate_concat s" "s' = s1\<lparr>ds_probe_magic := False, ds_gz := gz\<rparr> \<or> s' = s1 \<and> gz = ds_gz s1"
      "gzip_feed_all zu_int_gzip_header_init (ci @ x) = Header_more gz" for s' s1 l x gz
  proof -
    have g: "ds_wrap s = WRAP_GZIP" using that(2) by (simp add: deflate_concat_def)
    note f = deflate_reset_fresh [OF c a(1) g that(1)]
    have "dec_at I F w s' (ci @ x) []" using that(3,4) f(2-) f(1) [OF d] a(2) g by (auto simp: dec_at_def)
    from dec_traceI [where ms = ms, OF _ _ _ _ a(5) this] show ?thesis
      using that(2,3) f(2-) a cc by (auto simp: between_members_def deflate_concat_def)
  qed
  consider "\<not> deflate_concat s \<or> avail_in b = 0" | "deflate_concat s" "avail_in b \<noteq> 0" "\<not> ds_probe_magic s"
    | "deflate_concat s" "avail_in b \<noteq> 0" "ds_probe_magic s" by blast
  then show ?thesis
  proof cases
    case 1
    then show ?thesis
      using fin t by (auto simp: deflate_member_end_step_def deflate_no_member_def Let_def)
  next
    case 2
    obtain r s1 where res: "zu_int_deflate_reset eng s ZU_LEVEL_DEFAULT = (r, s1)" by fastforce
    have "dec_trace I F w s1 (i @ []) out" if "r = ZU_OK"
    proof (rule begin1)
      show "zu_int_deflate_reset eng s ZU_LEVEL_DEFAULT = (ZU_OK, s1)" using res that by simp
      show "deflate_concat s" by fact
      show "s1 = s1\<lparr>ds_probe_magic := False, ds_gz := ds_gz s1\<rparr> \<or> s1 = s1 \<and> ds_gz s1 = ds_gz s1" by simp
      have "ds_gz s1 = zu_int_gzip_header_init"
        using 2 deflate_reset_fresh(6) [OF c a(1)] res that by (auto simp: deflate_concat_def)
      then show "gzip_feed_all zu_int_gzip_header_init (ci @ []) = Header_more (ds_gz s1)"
        using cc 2 by simp
    qed
    moreover have "dec_trace I F w (s\<lparr>ds_probe_magic := True\<rparr>) (i @ [0x1F]) out"
      by (rule dec_traceI [where ms = ms and ci = "[0x1F]" and co = "[]"])
        (use a cc bm st 2 in \<open>auto simp: dec_at_def between_members_def deflate_concat_def\<close>)
    ultimately show ?thesis
      using fin 2 res deflate_reset_progress [OF c a(1) res] took_bytes [OF wf(2) 2(2)]
      by (auto simp: deflate_member_end_step_def deflate_first_probe_def)
  next
    case 3
    obtain r s1 where res: "zu_int_deflate_reset eng s ZU_LEVEL_DEFAULT = (r, s1)" by fastforce
    obtain hs gz dn where fd: "zu_int_gzip_header_feed (ds_gz s1) 0x1F = (hs, gz, dn)" by (metis prod_cases3)
    have hs: "hs = ZU_OK \<and> \<not> dn" if "r = ZU_OK"
    proof -
      have "ds_gz s1 = zu_int_gzip_header_init"
        using 3 deflate_reset_fresh(6) [OF c a(1)] res that by (auto simp: deflate_concat_def)
      with fd show ?thesis
        by (auto simp: zu_int_gzip_header_feed_def zu_int_gzip_header_init_def ZU_INT_GZIP_HEADER_LEN_def Let_def)
    qed
    have "dec_trace I F w (s1\<lparr>ds_probe_magic := False, ds_gz := gz\<rparr>) (i @ []) out" if "r = ZU_OK"
    proof (rule begin1)
      show "zu_int_deflate_reset eng s ZU_LEVEL_DEFAULT = (ZU_OK, s1)" using res that by simp
      show "deflate_concat s" by fact
      show "s1\<lparr>ds_probe_magic := False, ds_gz := gz\<rparr> = s1\<lparr>ds_probe_magic := False, ds_gz := gz\<rparr> \<or>
          s1\<lparr>ds_probe_magic := False, ds_gz := gz\<rparr> = s1 \<and> gz = ds_gz s1" by simp
      have "ds_gz s1 = zu_int_gzip_header_init"
        using 3 deflate_reset_fresh(6) [OF c a(1)] res that by (auto simp: deflate_concat_def)
      then show "gzip_feed_all zu_int_gzip_header_init (ci @ []) = Header_more gz"
        using cc 3 fd hs that by simp
    qed
    then show ?thesis
      using fin 3 res fd hs deflate_reset_progress [OF c a(1) res]
      by (auto simp: deflate_member_end_step_def deflate_second_probe_def Let_def)
  qed
qed

lemma dec_trace_step:
  assumes "mz_contract eng" "mz_inflates eng I F" "dec_trace I F w s i out" "deflate_wf s" "buf_wf b"
  shows "case deflate_step eng flush (s, b) of
      Next (s', b') \<Rightarrow> dec_trace I F w s' (i @ consumed b b') (out @ emitted b b')
    | Ret (st, s', b') \<Rightarrow> is_progress st \<longrightarrow> dec_trace I F w s' (i @ consumed b b') (out @ emitted b b') \<and>
        (st = ZU_STREAM_END \<longrightarrow> ds_state s' = ST_DONE)"
proof (cases "ds_state s")
  case ST_HEADER
  with dec_trace_header [OF assms(3-5), of flush] show ?thesis
    by (auto simp: deflate_step_def split: loop_step.splits)
next
  case ST_BODY
  with dec_trace_body [OF assms(1-5), of flush] show ?thesis
    by (auto simp: deflate_step_def split: loop_step.splits)
next
  case ST_TRAILER
  with dec_trace_trailer [OF assms(3-5), of flush] show ?thesis
    by (auto simp: deflate_step_def split: loop_step.splits)
next
  case ST_MEMBER_END
  with dec_trace_member_end [OF assms(1-5), of flush] show ?thesis
    by (auto simp: deflate_step_def split: loop_step.splits)
next
  case ST_DONE
  with assms(3) show ?thesis by (simp add: deflate_step_def)
qed

lemma dec_trace_kept: "mz_contract eng \<Longrightarrow> mz_inflates eng I F \<Longrightarrow> trace_kept eng (dec_trace I F w)"
  using dec_trace_step [of eng I F w] by (fastforce simp: trace_kept_def split: loop_step.splits)

lemma dec_trace_new:
  assumes "zu_int_deflate_new mem eng w False level fl = (ZU_OK, Some s)" "mz_inflates eng I F"
  shows "dec_trace I F w s [] []"
proof -
  obtain m where "mz_inflateInit2 eng = (MZ_OK, m)" "ds_mz s = m"
    using assms(1) by (cases w) (auto simp: zu_int_deflate_new_def deflate_blank_def deflate_new_wrap_def Let_def split: if_splits prod.splits)
  then have "I (ds_mz s) [] []" using assms(2) by (auto simp: mz_inflates_def)
  then have "dec_at I F w s [] [] \<and> \<not> ds_encoder s \<and> ds_wrap s = w \<and> \<not> between_members s"
    using assms(1) by (cases w) (auto simp: zu_int_deflate_new_def deflate_blank_def deflate_new_wrap_def dec_at_def header_ok_def
        between_members_def Let_def split: if_splits prod.splits)
  then show ?thesis
    by (intro dec_traceI [where ms = "[]" and ci = "[]" and co = "[]"]) (auto simp: between_members_def)
qed

text \<open>What a completed decode has read: members, and after them at most the one byte \<open>0x1F\<close> that a
  gzip decoder had to take while it looked for the next member.\<close>

definition members_read :: "wrap_kind \<Rightarrow> bool \<Rightarrow> byte list \<Rightarrow> byte list \<Rightarrow> bool" where
  "members_read w concat_members i out \<longleftrightarrow>
     (\<exists>ms tl. ms \<noteq> [] \<and> (\<forall>(m, d) \<in> set ms. member_ok w m d) \<and>
        i = concat (map fst ms) @ tl \<and> out = concat (map snd ms) \<and>
        (if concat_members then tl = [] \<or> tl = [0x1F] else length ms = 1 \<and> tl = []))"

definition members_of :: "(byte list \<Rightarrow> byte list \<Rightarrow> bool) \<Rightarrow> wrap_kind \<Rightarrow> bool \<Rightarrow> byte list \<Rightarrow> byte list \<Rightarrow> bool" where
  "members_of F w concat_members i out \<longleftrightarrow>
     (\<exists>ms tl. ms \<noteq> [] \<and> (\<forall>(m, d) \<in> set ms. member_of F w m d) \<and>
        i = concat (map fst ms) @ tl \<and> out = concat (map snd ms) \<and>
        (if concat_members then tl = [] \<or> tl = [0x1F] else length ms = 1 \<and> tl = []))"

lemma members_of_read:
  assumes "members_of F w cc i out" "w \<noteq> WRAP_NONE"
  shows "members_read w cc i out"
proof -
  from assms(1) obtain ms tl where m: "ms \<noteq> []" "\<forall>(m, d) \<in> set ms. member_of F w m d" "i = concat (map fst ms) @ tl"
    "out = concat (map snd ms)" "if cc then tl = [] \<or> tl = [0x1F] else length ms = 1 \<and> tl = []"
    unfolding members_of_def by blast
  moreover from m(2) assms(2) have "\<forall>(m, d) \<in> set ms. member_ok w m d" by (auto intro: member_of_ok)
  ultimately show ?thesis unfolding members_read_def by blast
qed

lemma decoder_members:
  assumes t: "dec_trace I F w s i out" and d: "ds_state s = ST_DONE"
  shows "members_of F w (deflate_concat s) i out"
proof -
  from t obtain ms ci co where a: "i = concat (map fst ms) @ ci"
    "out = concat (map snd ms) @ co" "\<forall>(m, d) \<in> set ms. member_of F w m d" "dec_at I F w s ci co"
    "between_members s \<longrightarrow> ms \<noteq> []"
    "\<not> deflate_concat s \<longrightarrow> length ms = (if between_members s then 1 else 0) \<and> (ds_state s = ST_MEMBER_END \<longrightarrow> ci = [])"
    by (rule dec_traceE)
  from a(4) d have "co = []" "ci = [] \<or> ci = [0x1F] \<and> deflate_concat s" by (auto simp: dec_at_def)
  moreover have "between_members s" using d by (simp add: between_members_def)
  ultimately show ?thesis
    using a(1-3,5,6) unfolding members_of_def by (intro exI [of _ ms] exI [of _ ci]) auto
qed

text \<open>The decoder's policy does not change along a run.\<close>

lemma deflate_reset_flags: "zu_int_deflate_reset eng s level = (st, s') \<Longrightarrow> ds_dec_flags s' = ds_dec_flags s"
  by (erule deflate_reset_cases) (simp_all add: deflate_rewind_def Let_def split: wrap_kind.splits)

lemma deflate_mz_call_flags:
  "deflate_mz_call eng s b flush = (mz, used, produced, s', b') \<Longrightarrow> ds_dec_flags s' = ds_dec_flags s"
  unfolding deflate_mz_call_def Let_def by (auto split: prod.splits if_splits)

lemma deflate_step_flags:
  "case deflate_step eng flush (s, b) of
     Next (s', b') \<Rightarrow> ds_dec_flags s' = ds_dec_flags s | Ret (st, s', b') \<Rightarrow> ds_dec_flags s' = ds_dec_flags s"
proof (cases "ds_state s")
  case ST_HEADER
  then show ?thesis by (auto simp: deflate_step_def deflate_header_step_def Let_def split: prod.splits)
next
  case ST_BODY
  then show ?thesis
    by (auto simp: deflate_step_def deflate_body_step_def dest: deflate_mz_call_flags split: prod.splits)
next
  case ST_TRAILER
  then show ?thesis by (auto simp: deflate_step_def deflate_trailer_step_def)
next
  case ST_MEMBER_END
  then show ?thesis
    by (auto simp: deflate_step_def deflate_member_end_step_def deflate_no_member_def deflate_first_probe_def
        deflate_second_probe_def Let_def dest: deflate_reset_flags split: prod.splits)
next
  case ST_DONE
  then show ?thesis by (simp add: deflate_step_def)
qed

lemma dec_flags_kept:
  fixes eng :: "'m mz_engine"
  assumes c: "mz_contract eng" and d: "mz_inflates eng I F"
  shows "trace_kept eng (\<lambda>s i out. dec_trace I F w s i out \<and> ds_dec_flags s = fl)"
proof -
  show ?thesis
    unfolding trace_kept_def
  proof (intro allI impI)
    fix s :: "'m deflate_state" and b i out flush
    assume a: "dec_trace I F w s i out \<and> ds_dec_flags s = fl" "deflate_wf s" "buf_wf b"
    from dec_trace_step [OF c d conjunct1 [OF a(1)] a(2,3), of flush] a(1) deflate_step_flags [where eng = eng and flush = flush and s = s and b = b]
    show "case deflate_step eng flush (s, b) of
       Next (s', b') \<Rightarrow> dec_trace I F w s' (i @ consumed b b') (out @ emitted b b') \<and> ds_dec_flags s' = fl
     | Ret (st, s', b') \<Rightarrow> is_progress st \<longrightarrow>
         (dec_trace I F w s' (i @ consumed b b') (out @ emitted b b') \<and> ds_dec_flags s' = fl) \<and>
         (st = ZU_STREAM_END \<longrightarrow> ds_state s' = ST_DONE)"
      by (cases "deflate_step eng flush (s, b)") auto
  qed
qed

lemma deflate_new_flags:
  "zu_int_deflate_new mem eng w enc level fl = (ZU_OK, Some s) \<Longrightarrow> ds_dec_flags s = fl"
  by (auto simp: zu_int_deflate_new_def deflate_blank_def deflate_new_wrap_def Let_def
        split: if_splits prod.splits wrap_kind.splits)

lemma decoder_members_flags:
  assumes c: "mz_contract eng" and d: "mz_inflates eng I F"
    and new: "zu_int_deflate_new mem eng w False level fl = (ZU_OK, Some s0)"
    and run: "deflate_run eng s0 i out s ZU_STREAM_END"
  shows "members_of F w (w = WRAP_GZIP \<and> has_flag fl ZU_DEC_CONCAT_MEMBERS) i out"
proof -
  have wf: "deflate_wf s0" using deflate_new_wf [OF new] by simp
  have t0: "dec_trace I F w s0 [] [] \<and> ds_dec_flags s0 = fl"
    using dec_trace_new [OF new d] deflate_new_flags [OF new] by simp
  from trace_kept_run [where Tr = "\<lambda>s i out. dec_trace I F w s i out \<and> ds_dec_flags s = fl",
      OF c dec_flags_kept [OF c d] t0 wf run]
  have t: "ds_dec_flags s = fl" "dec_trace I F w s i out" "ds_state s = ST_DONE" by simp_all
  then have "deflate_concat s = (w = WRAP_GZIP \<and> has_flag fl ZU_DEC_CONCAT_MEMBERS)"
    by (auto simp: deflate_concat_def dec_trace_def)
  with decoder_members [OF t(2,3)] show ?thesis by simp
qed

subsection \<open>A small engine\<close>

text \<open>A format to instantiate the parameter with: the data without zero bytes, ended by a zero byte.\<close>

definition zero_deflate :: "unit option \<Rightarrow> byte list \<Rightarrow> nat \<Rightarrow> int \<Rightarrow> int \<times> nat \<times> byte list \<times> unit option" where
  "zero_deflate m win room fl =
     (let n = min (length win) room
      in if fl = MZ_FINISH \<and> length win < room then (MZ_STREAM_END, length win, win @ [0], m)
         else (MZ_OK, n, take n win, m))"

definition zero_inflate :: "unit option \<Rightarrow> byte list \<Rightarrow> nat \<Rightarrow> int \<Rightarrow> int \<times> nat \<times> byte list \<times> unit option" where
  "zero_inflate m win room fl =
     (let d = takeWhile (\<lambda>b. b \<noteq> 0) (take room win); n = length d
      in if n < length win \<and> win ! n = 0 then (MZ_STREAM_END, n + 1, d, m)
         else if win = [] then (MZ_BUF_ERROR, 0, [], m)
         else (MZ_OK, n, d, m))"

definition zero_engine :: "unit mz_engine" where
  "zero_engine =
     \<lparr>mz_deflateInit2 = (\<lambda>level. (MZ_OK, Some ())), mz_inflateInit2 = (MZ_OK, Some ()),
      mz_deflate = zero_deflate, mz_inflate = zero_inflate,
      mz_deflateReset = (\<lambda>m. (MZ_OK, m)), mz_inflateReset = (\<lambda>m. (MZ_OK, m))\<rparr>"

lemma zero_inflate_bounds:
  "zero_inflate m win room fl = (mz, used, out, m') \<Longrightarrow> used \<le> length win \<and> length out \<le> room"
proof -
  have "length (takeWhile (\<lambda>b. b \<noteq> 0) (take room win)) \<le> min (length win) room"
    using length_takeWhile_le [of "\<lambda>b. b \<noteq> 0" "take room win"] by simp
  moreover assume "zero_inflate m win room fl = (mz, used, out, m')"
  ultimately show ?thesis
    unfolding zero_inflate_def Let_def by (simp split: if_splits) auto
qed

lemma zero_deflate_bounds:
  "zero_deflate m win room fl = (mz, used, out, m') \<Longrightarrow> used \<le> length win \<and> length out \<le> room"
  by (auto simp: zero_deflate_def Let_def split: if_splits)

lemma zero_engine_contract: "mz_contract zero_engine"
  unfolding mz_contract_def zero_engine_def mz_engine.select_convs
  by (auto dest: zero_inflate_bounds zero_deflate_bounds)

subsection \<open>Properties\<close>


definition zero_zlib_encoder :: "unit deflate_state" where
  "zero_zlib_encoder = the (snd (zu_int_deflate_new (\<lambda>_ _. True) zero_engine WRAP_ZLIB True 6 0))"

definition zero_zlib_decoder :: "unit deflate_state" where
  "zero_zlib_decoder = the (snd (zu_int_deflate_new (\<lambda>_ _. True) zero_engine WRAP_ZLIB False ZU_LEVEL_DEFAULT 2))"

definition zero_gzip_decoder :: "unit deflate_state" where
  "zero_gzip_decoder = the (snd (zu_int_deflate_new (\<lambda>_ _. True) zero_engine WRAP_GZIP False ZU_LEVEL_DEFAULT 2))"

lemma zero_coders:
  "zu_int_deflate_new (\<lambda>_ _. True) zero_engine WRAP_ZLIB True 6 0 = (ZU_OK, Some zero_zlib_encoder)"
  "zu_int_deflate_new (\<lambda>_ _. True) zero_engine WRAP_GZIP False ZU_LEVEL_DEFAULT 2 = (ZU_OK, Some zero_gzip_decoder)"
  "zu_int_deflate_new (\<lambda>_ _. True) zero_engine WRAP_ZLIB False ZU_LEVEL_DEFAULT 2 = (ZU_OK, Some zero_zlib_decoder)"
  by (simp_all add: zero_zlib_decoder_def zero_zlib_encoder_def zero_gzip_decoder_def zu_int_deflate_new_def zero_engine_def Let_def)


text \<open>C3: an encoder of the zlib or gzip codec that reports the end of the stream, after any number
  of calls with any buffers and flush arguments, has written exactly one member: a header that the
  decoder's own check accepts, a body, and the trailer with the checksum and the size of
  everything it consumed.\<close>

theorem deflate_encoder_writes_member:
  assumes "mz_contract eng" "w \<noteq> WRAP_NONE"
    and "zu_int_deflate_new mem eng w True level fl = (ZU_OK, Some s0)"
    and "deflate_run eng s0 i out s ZU_STREAM_END"
  shows "member_ok w out i"
  by (rule member_of_ok [OF encoder_member [OF assms(1) mz_any_stream(1) assms(3,4)] assms(2)])

definition zlib_demo_out :: "byte list" where
  "zlib_demo_out = [120, 156, 1, 2, 3, 0, 0, 13, 0, 7]"

definition zlib_demo_buffer :: zu_buffer where
  "zlib_demo_buffer = one_shot_buffer [1, 2, 3] (replicate 10 0)"

lemma zlib_demo_call:
  "case deflate_process zero_engine (Some zero_zlib_encoder) zlib_demo_buffer ZU_FINISH of
     Some (st, Some s', b') \<Rightarrow> st = ZU_STREAM_END \<and> consumed zlib_demo_buffer b' = [1, 2, 3] \<and>
       emitted zlib_demo_buffer b' = zlib_demo_out
   | _ \<Rightarrow> False"
  by code_simp

lemma zlib_demo_run: "\<exists>s. deflate_run zero_engine zero_zlib_encoder [1, 2, 3] zlib_demo_out s ZU_STREAM_END"
proof -
  have wf: "buf_wf zlib_demo_buffer"
    unfolding zlib_demo_buffer_def by (intro one_shot_buffer_wf) (simp_all add: UINT64_MAX_def)
  from zlib_demo_call obtain s' b' where
    "deflate_process zero_engine (Some zero_zlib_encoder) zlib_demo_buffer ZU_FINISH = Some (ZU_STREAM_END, Some s', b')"
    and io: "consumed zlib_demo_buffer b' = [1, 2, 3]" "emitted zlib_demo_buffer b' = zlib_demo_out"
    by (auto split: option.splits)
  from deflate_run.call [OF deflate_run.start _ wf this(1)] io show ?thesis by auto
qed

theorem deflate_encoder_writes_member_witness: "member_ok WRAP_ZLIB zlib_demo_out [1, 2, 3]"
  using zlib_demo_run deflate_encoder_writes_member [OF zero_engine_contract _ zero_coders(1)] by auto

text \<open>C2: a zlib or gzip decoder that reports the end of the stream, after any number of calls with
  any buffers, has read well-formed members whose trailers carry the checksum and the size of
  precisely the data it delivered: one member, or several where the caller allowed concatenated
  gzip members. No byte was delivered that a verified trailer does not cover, and nothing but at
  most one probed byte \<open>0x1F\<close> was taken beyond the last member.\<close>

theorem deflate_decoder_verified:
  assumes "mz_contract eng" "w \<noteq> WRAP_NONE"
    and "zu_int_deflate_new mem eng w False level fl = (ZU_OK, Some s0)"
    and "deflate_run eng s0 i out s ZU_STREAM_END"
  shows "members_read w (w = WRAP_GZIP \<and> has_flag fl ZU_DEC_CONCAT_MEMBERS) i out"
  by (rule members_of_read [OF decoder_members_flags [OF assms(1) mz_any_stream(2) assms(3,4)] assms(2)])

definition unzlib_demo_buffer :: zu_buffer where
  "unzlib_demo_buffer = one_shot_buffer zlib_demo_out (replicate 5 0)"

lemma unzlib_demo_call:
  "case deflate_process zero_engine (Some zero_zlib_decoder) unzlib_demo_buffer ZU_FINISH of
     Some (st, Some s', b') \<Rightarrow> st = ZU_STREAM_END \<and> consumed unzlib_demo_buffer b' = zlib_demo_out \<and>
       emitted unzlib_demo_buffer b' = [1, 2, 3]
   | _ \<Rightarrow> False"
  by code_simp

lemma unzlib_demo_run: "\<exists>s. deflate_run zero_engine zero_zlib_decoder zlib_demo_out [1, 2, 3] s ZU_STREAM_END"
proof -
  have wf: "buf_wf unzlib_demo_buffer"
    unfolding unzlib_demo_buffer_def by (intro one_shot_buffer_wf) (simp_all add: UINT64_MAX_def zlib_demo_out_def)
  from unzlib_demo_call obtain s' b' where
    "deflate_process zero_engine (Some zero_zlib_decoder) unzlib_demo_buffer ZU_FINISH = Some (ZU_STREAM_END, Some s', b')"
    and io: "consumed unzlib_demo_buffer b' = zlib_demo_out" "emitted unzlib_demo_buffer b' = [1, 2, 3]"
    by (auto split: option.splits)
  from deflate_run.call [OF deflate_run.start _ wf this(1)] io show ?thesis by auto
qed

theorem deflate_decoder_verified_witness:
  "members_read WRAP_ZLIB (WRAP_ZLIB = WRAP_GZIP \<and> has_flag 2 ZU_DEC_CONCAT_MEMBERS) zlib_demo_out [1, 2, 3]"
  using unzlib_demo_run deflate_decoder_verified [OF zero_engine_contract _ zero_coders(3)] by auto

text \<open>The bound of the DEFLATE family covers the worst case of the format, input emitted as
  stored blocks of at most 65535 bytes with five bytes of overhead each, plus the wrapper; where
  the sum would not fit in a \<^verbatim>\<open>size_t\<close> it is refused instead of wrapped.\<close>

theorem deflate_bound_sufficient:
  assumes "n \<le> SIZE_MAX" "wrapper \<le> 18"
  shows "(\<exists>out. zu_int_deflate_bound n wrapper = (ZU_OK, Some out) \<and> out \<le> SIZE_MAX \<and>
            n + 5 * (n div 65535 + 1) + wrapper \<le> out) \<or>
         zu_int_deflate_bound n wrapper = (ZU_ERR_MEMORY, None) \<and> SIZE_MAX < n + n div 64 + 64 + wrapper"
proof (cases "n + n div 64 + 64 + wrapper \<le> SIZE_MAX")
  case True
  then have "zu_int_deflate_bound n wrapper = (ZU_OK, Some (n + n div 64 + (64 + wrapper)))"
    using assms by (simp add: zu_int_deflate_bound_def zu_int_add_cases)
  moreover have "5 * (n div 65535 + 1) \<le> n div 64 + 64"
  proof -
    have "5 * (n div 65535) * 64 \<le> n div 65535 * 65535" by simp
    also have "\<dots> \<le> n" by (rule div_times_less_eq_dividend)
    finally have "5 * (n div 65535) * 64 div 64 \<le> n div 64" by (rule div_le_mono)
    then show ?thesis by simp
  qed
  ultimately show ?thesis using True by (intro disjI1 exI [of _ "n + n div 64 + (64 + wrapper)"]) simp
next
  case False
  then have "zu_int_deflate_bound n wrapper = (ZU_ERR_MEMORY, None)"
    using assms by (cases "n + n div 64 \<le> SIZE_MAX") (simp_all add: zu_int_deflate_bound_def zu_int_add_cases)
  with False show ?thesis by simp
qed

theorem deflate_bound_sufficient_witness:
  "(\<exists>out. zu_int_deflate_bound 100 18 = (ZU_OK, Some out) \<and> out \<le> SIZE_MAX \<and>
            100 + 5 * (100 div 65535 + 1) + 18 \<le> out) \<or>
         zu_int_deflate_bound 100 18 = (ZU_ERR_MEMORY, None) \<and> SIZE_MAX < 100 + 100 div 64 + 64 + (18 :: nat)"
  by (rule deflate_bound_sufficient) (simp_all add: UINT64_MAX_def)

end
