(* ===== verification/Codec_Lz4.thy ===== *)
theory Codec_Lz4
  imports Zu_Frame_Loop Zu_Handle
begin

unbundle bit_operations_syntax

text \<open>
  \<^verbatim>\<open>src/codec_lz4.c\<close>: the codecs lz4-frame and lz4-block over liblz4, which is the parameter
  \<open>eng\<close>, a record of its entry points. A library call that writes returns the bytes it wrote next
  to its result. The staging buffer and the gathered input are byte lists of the lengths
  \<open>l_stage_cap\<close> and \<open>l_in_cap\<close>; what \<^verbatim>\<open>malloc\<close> leaves in them is never read and is zero here.
\<close>

subsection \<open>The library\<close>

definition LZ4F_ERROR_parameter_invalid :: int where "LZ4F_ERROR_parameter_invalid = 4"
definition LZ4F_ERROR_compressionLevel_invalid :: int where "LZ4F_ERROR_compressionLevel_invalid = 5"
definition LZ4F_ERROR_blockChecksum_invalid :: int where "LZ4F_ERROR_blockChecksum_invalid = 7"
definition LZ4F_ERROR_allocation_failed :: int where "LZ4F_ERROR_allocation_failed = 9"
definition LZ4F_ERROR_srcSize_tooLarge :: int where "LZ4F_ERROR_srcSize_tooLarge = 10"
definition LZ4F_ERROR_frameHeader_incomplete :: int where "LZ4F_ERROR_frameHeader_incomplete = 12"
definition LZ4F_ERROR_headerChecksum_invalid :: int where "LZ4F_ERROR_headerChecksum_invalid = 17"
definition LZ4F_ERROR_contentChecksum_invalid :: int where "LZ4F_ERROR_contentChecksum_invalid = 18"

definition LZ4F_HEADER_SIZE_MAX :: nat where "LZ4F_HEADER_SIZE_MAX = 19"
definition LZ4_MAX_INPUT_SIZE :: nat where "LZ4_MAX_INPUT_SIZE = 0x7E000000"
definition LZ4HC_CLEVEL_MIN :: int where "LZ4HC_CLEVEL_MIN = 2"
definition LZ4HC_CLEVEL_MAX :: int where "LZ4HC_CLEVEL_MAX = 12"
definition INT_MAX :: nat where "INT_MAX = 2147483647"

text \<open>The macro \<^verbatim>\<open>LZ4_COMPRESSBOUND\<close> on a size that fits an \<^verbatim>\<open>int\<close>.\<close>

definition LZ4_compressBound :: "nat \<Rightarrow> int" where
  "LZ4_compressBound n = (if n > LZ4_MAX_INPUT_SIZE then 0 else int (n + n div 255 + 16))"

record LZ4F_preferences =
  p_compressionLevel :: int
  p_contentChecksum :: bool
  p_contentSize :: nat

type_synonym 'e lz4f_write = "nat \<times> byte list \<times> 'e option"

record ('e, 'd) lz4_engine =
  LZ4F_isError :: "nat \<Rightarrow> bool"
  LZ4F_getErrorCode :: "nat \<Rightarrow> int"
  LZ4F_createCompressionContext :: "nat \<times> 'e option"
  LZ4F_createDecompressionContext :: "nat \<times> 'd option"
  LZ4F_resetDecompressionContext :: "'d option \<Rightarrow> 'd option"
  LZ4F_compressBound :: "nat \<Rightarrow> LZ4F_preferences \<Rightarrow> nat"
  LZ4F_compressFrameBound :: "nat \<Rightarrow> LZ4F_preferences \<Rightarrow> nat"
  LZ4F_compressBegin :: "'e option \<Rightarrow> nat \<Rightarrow> LZ4F_preferences \<Rightarrow> 'e lz4f_write"
  LZ4F_compressUpdate :: "'e option \<Rightarrow> nat \<Rightarrow> byte list \<Rightarrow> 'e lz4f_write"
  LZ4F_flush :: "'e option \<Rightarrow> nat \<Rightarrow> 'e lz4f_write"
  LZ4F_compressEnd :: "'e option \<Rightarrow> nat \<Rightarrow> 'e lz4f_write"
  LZ4F_decompress :: "'d option frame_call"
  LZ4_compress_HC :: "byte list \<Rightarrow> nat \<Rightarrow> int \<Rightarrow> int \<times> byte list"
  LZ4_compress_fast :: "byte list \<Rightarrow> nat \<Rightarrow> int \<Rightarrow> int \<times> byte list"
  LZ4_decompress_safe :: "byte list \<Rightarrow> nat \<Rightarrow> int \<times> byte list"
  LZ4_decompress_safe_partial :: "byte list \<Rightarrow> nat \<Rightarrow> nat \<Rightarrow> int \<times> byte list"

subsection \<open>State\<close>

definition ZU_INT_LZ4F_CHUNK :: nat where "ZU_INT_LZ4F_CHUNK = 64 * 1024"
definition ZU_INT_LZ4_LEVEL_MIN :: int where "ZU_INT_LZ4_LEVEL_MIN = - 65536"
definition ZU_INT_LZ4_LEVEL_MAX :: int where "ZU_INT_LZ4_LEVEL_MAX = LZ4HC_CLEVEL_MAX"
definition ZU_INT_LZ4_LEVEL_DEFAULT :: int where "ZU_INT_LZ4_LEVEL_DEFAULT = 1"

record ('e, 'd) lz4_state =
  l_encoder :: bool
  l_level :: int
  l_cctx :: "'e option"
  l_dctx :: "'d option"
  l_prefs :: LZ4F_preferences
  l_started :: bool
  l_ended :: bool
  l_frames :: zu_int_frames
  l_stage :: "byte list"
  l_stage_cap :: nat
  l_stage_len :: nat
  l_stage_pos :: nat
  l_in :: "byte list"
  l_in_cap :: nat
  l_in_len :: nat
  l_done :: bool
  l_max_output :: nat
  l_has_expected :: bool
  l_expected :: nat

definition prefs_zero :: LZ4F_preferences where
  "prefs_zero = \<lparr>p_compressionLevel = 0, p_contentChecksum = False, p_contentSize = 0\<rparr>"

definition lz4_blank :: "('e, 'd) lz4_state" where
  "lz4_blank =
     \<lparr>l_encoder = False, l_level = 0, l_cctx = None, l_dctx = None, l_prefs = prefs_zero,
      l_started = False, l_ended = False, l_frames = zu_int_frames_init ZU_INT_FRAMES_ZSTD 0,
      l_stage = [], l_stage_cap = 0, l_stage_len = 0, l_stage_pos = 0,
      l_in = [], l_in_cap = 0, l_in_len = 0, l_done = False,
      l_max_output = 0, l_has_expected = False, l_expected = 0\<rparr>"

definition lz4_free :: "('e, 'd) lz4_state option \<Rightarrow> string list" where
  "lz4_free st =
     (case st of
        None \<Rightarrow> []
      | Some s \<Rightarrow> (if l_cctx s \<noteq> None then [''LZ4F_freeCompressionContext''] else []) @
                  (if l_dctx s \<noteq> None then [''LZ4F_freeDecompressionContext''] else []) @
                  [''free stage'', ''free in'', ''free''])"

definition zu_int_lz4_level :: "int \<Rightarrow> int" where
  "zu_int_lz4_level level = (if level = ZU_LEVEL_DEFAULT then ZU_INT_LZ4_LEVEL_DEFAULT else level)"

text \<open>The flag is true once the stage is empty.\<close>

definition zu_int_lz4_drain ::
  "('e, 'd) lz4_state \<Rightarrow> zu_buffer \<Rightarrow> bool \<times> ('e, 'd) lz4_state \<times> zu_buffer" where
  "zu_int_lz4_drain s b =
     (let pending = u64_sub (l_stage_len s) (l_stage_pos s);
          room = avail_out b;
          n = (if pending < room then pending else room);
          s1 = (if n > 0 then s\<lparr>l_stage_pos := l_stage_pos s + n\<rparr> else s);
          b1 = (if n > 0 then put_out (seg (l_stage s) (l_stage_pos s) (l_stage_pos s + n)) b else b)
      in if l_stage_pos s1 = l_stage_len s1
         then (True, s1\<lparr>l_stage_pos := 0, l_stage_len := 0\<rparr>, b1)
         else (False, s1, b1))"

subsection \<open>lz4-frame: encoder\<close>

definition zu_int_lz4f_error :: "('e, 'd) lz4_engine \<Rightarrow> ('e, 'd) lz4_state \<Rightarrow> nat \<Rightarrow> zu_status" where
  "zu_int_lz4f_error eng s r =
     (let c = LZ4F_getErrorCode eng r
      in if c = LZ4F_ERROR_allocation_failed then ZU_ERR_MEMORY
         else if c = LZ4F_ERROR_blockChecksum_invalid \<or> c = LZ4F_ERROR_headerChecksum_invalid \<or>
                 c = LZ4F_ERROR_contentChecksum_invalid then ZU_ERR_CHECKSUM
         else if c = LZ4F_ERROR_frameHeader_incomplete then ZU_ERR_TRUNCATED
         else if c = LZ4F_ERROR_srcSize_tooLarge \<or> c = LZ4F_ERROR_parameter_invalid \<or>
                 c = LZ4F_ERROR_compressionLevel_invalid
              then (if l_encoder s then ZU_ERR_INVALID_ARGUMENT else ZU_ERR_INVALID_DATA)
         else (if l_encoder s then ZU_ERR_INTERNAL else ZU_ERR_INVALID_DATA))"

definition zu_int_lz4f_prefs :: "('e, 'd) lz4_state \<Rightarrow> ('e, 'd) lz4_state" where
  "zu_int_lz4f_prefs s =
     s\<lparr>l_prefs := prefs_zero\<lparr>p_compressionLevel := zu_int_lz4_level (l_level s), p_contentChecksum := True\<rparr>\<rparr>"

definition lz4f_encoder_new ::
  "alloc \<Rightarrow> ('e, 'd) lz4_engine \<Rightarrow> zu_encoder_opts \<Rightarrow> zu_status \<times> ('e, 'd) lz4_state option" where
  "lz4f_encoder_new mem eng os =
     (if \<not> mem ''lz4_state'' 1 then (ZU_ERR_MEMORY, None)
      else
        (let s = zu_int_lz4f_prefs (lz4_blank\<lparr>l_encoder := True, l_level := eo_level os\<rparr>)
         in case LZ4F_createCompressionContext eng of
              (r, c) \<Rightarrow>
                if LZ4F_isError eng r then (ZU_ERR_MEMORY, None)
                else
                  (let s1 = s\<lparr>l_cctx := c\<rparr>;
                       cap = LZ4F_compressBound eng ZU_INT_LZ4F_CHUNK (l_prefs s1);
                       cap' = (if cap < LZ4F_HEADER_SIZE_MAX then LZ4F_HEADER_SIZE_MAX else cap)
                   in if \<not> mem ''lz4 stage'' cap' then (ZU_ERR_MEMORY, None)
                      else (ZU_OK, Some (s1\<lparr>l_stage := replicate cap' 0, l_stage_cap := cap'\<rparr>)))))"

definition lz4f_encoder_reset ::
  "('e, 'd) lz4_state option \<Rightarrow> zu_encoder_opts \<Rightarrow> zu_status \<times> ('e, 'd) lz4_state option" where
  "lz4f_encoder_reset st os =
     (case st of
        None \<Rightarrow> (ZU_ERR_INVALID_ARGUMENT, None)
      | Some s \<Rightarrow>
          if l_cctx s = None then (ZU_ERR_INVALID_ARGUMENT, Some s)
          else
            (let s1 = (if eo_level os \<noteq> ZU_LEVEL_DEFAULT then s\<lparr>l_level := eo_level os\<rparr> else s)
             in (ZU_OK, Some ((zu_int_lz4f_prefs s1)\<lparr>l_started := False, l_ended := False, l_done := False,
                                                    l_stage_len := 0, l_stage_pos := 0\<rparr>))))"

text \<open>The chain of \<^verbatim>\<open>if\<close>s that produces the next staged bytes: the result of the library, the bytes
  it wrote, and the new state, buffer and \<^verbatim>\<open>flushed\<close>; \<open>None\<close> where the encoder needs input.\<close>

definition lz4f_produce ::
  "('e, 'd) lz4_engine \<Rightarrow> zu_flush \<Rightarrow> ('e, 'd) lz4_state \<Rightarrow> zu_buffer \<Rightarrow> bool \<Rightarrow>
    (nat \<times> byte list \<times> ('e, 'd) lz4_state \<times> zu_buffer \<times> bool) option" where
  "lz4f_produce eng flush s b flushed =
     (if \<not> l_started s
      then
        (let s1 = (if flush = ZU_FINISH then s\<lparr>l_prefs := (l_prefs s)\<lparr>p_contentSize := avail_in b\<rparr>\<rparr> else s)
         in case LZ4F_compressBegin eng (l_cctx s1) (l_stage_cap s1) (l_prefs s1) of
              (r, ws, c) \<Rightarrow> Some (r, ws, s1\<lparr>l_cctx := c, l_started := True\<rparr>, b, flushed))
      else if avail_in b > 0
      then
        (let n = (if avail_in b < ZU_INT_LZ4F_CHUNK then avail_in b else ZU_INT_LZ4F_CHUNK)
         in case LZ4F_compressUpdate eng (l_cctx s) (l_stage_cap s) (take n (in_window b)) of
              (r, ws, c) \<Rightarrow>
                Some (r, ws, s\<lparr>l_cctx := c\<rparr>, if LZ4F_isError eng r then b else skip_in n b, flushed))
      else if flush = ZU_FINISH
      then
        (case LZ4F_compressEnd eng (l_cctx s) (l_stage_cap s) of
           (r, ws, c) \<Rightarrow>
             Some (r, ws, if LZ4F_isError eng r then s\<lparr>l_cctx := c\<rparr> else s\<lparr>l_cctx := c, l_ended := True\<rparr>, b, flushed))
      else if flush = ZU_FLUSH \<and> \<not> flushed
      then
        (case LZ4F_flush eng (l_cctx s) (l_stage_cap s) of
           (r, ws, c) \<Rightarrow> Some (r, ws, s\<lparr>l_cctx := c\<rparr>, b, True))
      else None)"

type_synonym ('e, 'd) lz4f_turn =
  "(zu_status \<times> ('e, 'd) lz4_state \<times> zu_buffer, ('e, 'd) lz4_state \<times> zu_buffer \<times> bool) loop_step"

definition lz4f_encoder_step ::
  "('e, 'd) lz4_engine \<Rightarrow> zu_flush \<Rightarrow> ('e, 'd) lz4_state \<times> zu_buffer \<times> bool \<Rightarrow> ('e, 'd) lz4f_turn" where
  "lz4f_encoder_step eng flush x =
     (case x of (s, b, flushed) \<Rightarrow>
        (case zu_int_lz4_drain s b of
           (drained, s1, b1) \<Rightarrow>
             if \<not> drained then Ret (ZU_NEED_OUTPUT, s1, b1)
             else if l_done s1 then Ret (ZU_STREAM_END, s1, b1)
             else if l_ended s1 then Ret (ZU_STREAM_END, s1\<lparr>l_done := True\<rparr>, b1)
             else
               (case lz4f_produce eng flush s1 b1 flushed of
                  None \<Rightarrow> Ret (ZU_NEED_INPUT, s1, b1)
                | Some (r, ws, s2, b2, flushed') \<Rightarrow>
                    (let s3 = s2\<lparr>l_stage := write_at (l_stage s2) 0 ws\<rparr>
                     in if LZ4F_isError eng r then Ret (zu_int_lz4f_error eng s3 r, s3, b2)
                        else Next (s3\<lparr>l_stage_len := r, l_stage_pos := 0\<rparr>, b2, flushed')))))"

definition lz4f_encoder_process :: "('e, 'd) lz4_engine \<Rightarrow> ('e, 'd) lz4_state process_fn" where
  "lz4f_encoder_process eng st b flush =
     (case st of
        None \<Rightarrow> Some (ZU_ERR_INVALID_ARGUMENT, None, b)
      | Some s \<Rightarrow> map_option (\<lambda>(r, s', b'). (r, Some s', b'))
                    (run_loop (\<lambda>x. Some (lz4f_encoder_step eng flush x)) (s, b, False)))"

subsection \<open>lz4-frame: decoder\<close>

definition lz4f_decoder_new ::
  "alloc \<Rightarrow> ('e, 'd) lz4_engine \<Rightarrow> zu_decoder_opts \<Rightarrow> zu_status \<times> ('e, 'd) lz4_state option" where
  "lz4f_decoder_new mem eng os =
     (if \<not> mem ''lz4_state'' 1 then (ZU_ERR_MEMORY, None)
      else
        (case LZ4F_createDecompressionContext eng of
           (r, c) \<Rightarrow>
             if LZ4F_isError eng r then (ZU_ERR_MEMORY, None)
             else (ZU_OK, Some (lz4_blank\<lparr>l_dctx := c, l_frames := zu_int_frames_init ZU_INT_FRAMES_LZ4 (do_flags os)\<rparr>))))"

definition lz4f_decoder_reset ::
  "('e, 'd) lz4_engine \<Rightarrow> ('e, 'd) lz4_state option \<Rightarrow> zu_decoder_opts \<Rightarrow> zu_status \<times> ('e, 'd) lz4_state option" where
  "lz4f_decoder_reset eng st os =
     (case st of
        None \<Rightarrow> (ZU_ERR_INVALID_ARGUMENT, None)
      | Some s \<Rightarrow>
          if l_dctx s = None then (ZU_ERR_INVALID_ARGUMENT, Some s)
          else (ZU_OK, Some (s\<lparr>l_dctx := LZ4F_resetDecompressionContext eng (l_dctx s),
                               l_frames := zu_int_frames_init ZU_INT_FRAMES_LZ4 (do_flags os)\<rparr>)))"

definition lz4f_feed_held :: "('e, 'd) lz4_engine \<Rightarrow> ('e, 'd) lz4_state zu_int_frames_feed" where
  "lz4f_feed_held eng s p =
     (case LZ4F_decompress eng (l_dctx s) p 0 of
        (r, ssize, ws, dsize, c) \<Rightarrow>
          (let s1 = s\<lparr>l_dctx := c\<rparr>
           in if LZ4F_isError eng r then (zu_int_lz4f_error eng s1 r, s1)
              else (if ssize = length p \<and> dsize = 0 then ZU_OK else ZU_ERR_INTERNAL, s1)))"

definition lz4f_probe :: "('e, 'd) lz4_engine \<Rightarrow> ('e, 'd) lz4_state zu_int_frames_probe" where
  "lz4f_probe eng s one =
     (case LZ4F_decompress eng (l_dctx s) [] 1 of
        (r, ssize, ws, dsize, c) \<Rightarrow>
          (let s1 = s\<lparr>l_dctx := c\<rparr>; one' = (case ws of [] \<Rightarrow> one | w # _ \<Rightarrow> w)
           in if LZ4F_isError eng r then (zu_int_lz4f_error eng s1 r, one', 0, False, s1)
              else (ZU_OK, one', dsize, r = 0, s1)))"

definition lz4f_decoder_step ::
  "('e, 'd) lz4_engine \<Rightarrow> zu_flush \<Rightarrow> ('e, 'd) lz4_state \<times> zu_buffer \<Rightarrow> ('e, 'd) lz4_state framed_step" where
  "lz4f_decoder_step eng flush sb =
     (case sb of (s, b) \<Rightarrow>
        (case zu_int_frames_pay (l_frames s) b of
           (go, f, b0) \<Rightarrow>
             (let s0 = s\<lparr>l_frames := f\<rparr>
              in if \<not> go then Ret (ZU_NEED_OUTPUT, s0, b0)
                 else if fr_state f \<noteq> ZU_INT_FRAME_BODY
                 then (case zu_int_frames_between f b0 flush (lz4f_feed_held eng) s0 of
                         (fs, f1, b1, s1) \<Rightarrow>
                           (let s2 = s1\<lparr>l_frames := f1\<rparr>
                            in if fs \<noteq> ZU_OK then Ret (fs, s2, b1) else Next (s2, b1)))
                 else
                   (case LZ4F_decompress eng (l_dctx s0) (in_window b0) (avail_out b0) of
                      (r, ssize, ws, dsize, c) \<Rightarrow>
                        (let s1 = s0\<lparr>l_dctx := c\<rparr>; b1 = write_out ws b0
                         in if LZ4F_isError eng r then Ret (zu_int_lz4f_error eng s1 r, s1, b1)
                            else
                              (let b2 = advance ssize dsize b1
                               in if r = 0 then Next (s1\<lparr>l_frames := zu_int_frames_ended f\<rparr>, b2)
                                  else if ssize = 0 \<and> dsize = 0
                                  then (case zu_int_frames_stalled f (avail_in b0) (avail_out b0) flush (lz4f_probe eng) s1 of
                                          (ss, f1, s2) \<Rightarrow>
                                            (let s3 = s2\<lparr>l_frames := f1\<rparr>
                                             in if ss \<noteq> ZU_OK then Ret (ss, s3, b2) else Next (s3, b2)))
                                  else Next (s1, b2)))))))"

definition lz4f_decoder_process :: "('e, 'd) lz4_engine \<Rightarrow> ('e, 'd) lz4_state process_fn" where
  "lz4f_decoder_process eng st b flush =
     (case st of
        None \<Rightarrow> Some (ZU_ERR_INVALID_ARGUMENT, None, b)
      | Some s \<Rightarrow> map_option (\<lambda>(r, s', b'). (r, Some s', b'))
                    (run_loop (\<lambda>sb. Some (lz4f_decoder_step eng flush sb)) (s, b)))"

definition lz4f_bound :: "('e, 'd) lz4_engine \<Rightarrow> int \<Rightarrow> nat \<Rightarrow> zu_status \<times> nat option" where
  "lz4f_bound eng level n =
     (let prefs = \<lparr>p_compressionLevel = zu_int_lz4_level level, p_contentChecksum = True, p_contentSize = n\<rparr>;
          b = LZ4F_compressFrameBound eng n prefs
      in if LZ4F_isError eng b then (ZU_ERR_INVALID_ARGUMENT, None) else (ZU_OK, Some b))"

subsection \<open>lz4-block: life cycle\<close>

definition lz4b_new ::
  "alloc \<Rightarrow> bool \<Rightarrow> int \<Rightarrow> zu_decoder_opts option \<Rightarrow> zu_status \<times> ('e, 'd) lz4_state option" where
  "lz4b_new mem encoder level d =
     (if \<not> mem ''lz4_state'' 1 then (ZU_ERR_MEMORY, None)
      else
        (let s = lz4_blank\<lparr>l_encoder := encoder, l_level := level\<rparr>
         in (ZU_OK, Some (case d of
               None \<Rightarrow> s
             | Some os \<Rightarrow> s\<lparr>l_max_output := do_max_output os,
                             l_has_expected := has_flag (do_flags os) ZU_DEC_EXPECTED_SIZE,
                             l_expected := do_expected_size os\<rparr>))))"

definition lz4b_encoder_new :: "alloc \<Rightarrow> zu_encoder_opts \<Rightarrow> zu_status \<times> ('e, 'd) lz4_state option" where
  "lz4b_encoder_new mem os = lz4b_new mem True (eo_level os) None"

definition lz4b_decoder_new :: "alloc \<Rightarrow> zu_decoder_opts \<Rightarrow> zu_status \<times> ('e, 'd) lz4_state option" where
  "lz4b_decoder_new mem os = lz4b_new mem False ZU_LEVEL_DEFAULT (Some os)"

definition zu_int_lz4b_clear :: "('e, 'd) lz4_state \<Rightarrow> ('e, 'd) lz4_state" where
  "zu_int_lz4b_clear s = s\<lparr>l_in_len := 0, l_stage_len := 0, l_stage_pos := 0, l_done := False\<rparr>"

definition lz4b_encoder_reset ::
  "('e, 'd) lz4_state option \<Rightarrow> zu_encoder_opts \<Rightarrow> zu_status \<times> ('e, 'd) lz4_state option" where
  "lz4b_encoder_reset st os =
     (case st of
        None \<Rightarrow> (ZU_ERR_INVALID_ARGUMENT, None)
      | Some s \<Rightarrow> (ZU_OK, Some (zu_int_lz4b_clear
          (if eo_level os \<noteq> ZU_LEVEL_DEFAULT then s\<lparr>l_level := eo_level os\<rparr> else s))))"

definition lz4b_decoder_reset ::
  "('e, 'd) lz4_state option \<Rightarrow> zu_decoder_opts \<Rightarrow> zu_status \<times> ('e, 'd) lz4_state option" where
  "lz4b_decoder_reset st os =
     (case st of
        None \<Rightarrow> (ZU_ERR_INVALID_ARGUMENT, None)
      | Some s \<Rightarrow> (ZU_OK, Some (zu_int_lz4b_clear
          (s\<lparr>l_max_output := do_max_output os, l_has_expected := has_flag (do_flags os) ZU_DEC_EXPECTED_SIZE,
             l_expected := do_expected_size os\<rparr>))))"

subsection \<open>lz4-block: gathering and staging\<close>

definition lz4b_append :: "('e, 'd) lz4_state \<Rightarrow> zu_buffer \<Rightarrow> zu_status \<times> ('e, 'd) lz4_state \<times> zu_buffer" where
  "lz4b_append s b =
     (ZU_OK, s\<lparr>l_in := write_at (l_in s) (l_in_len s) (in_window b), l_in_len := l_in_len s + avail_in b\<rparr>,
      skip_in (avail_in b) b)"

definition zu_int_lz4b_gather ::
  "alloc \<Rightarrow> ('e, 'd) lz4_state \<Rightarrow> zu_buffer \<Rightarrow> zu_status \<times> ('e, 'd) lz4_state \<times> zu_buffer" where
  "zu_int_lz4b_gather mem s b =
     (if avail_in b = 0 then (ZU_OK, s, b)
      else
        (case zu_int_add (l_in_len s) (avail_in b) of
           (st, None) \<Rightarrow> (st, s, b)
         | (st, Some need) \<Rightarrow>
             if need > LZ4_MAX_INPUT_SIZE
             then (if l_encoder s then ZU_ERR_INVALID_ARGUMENT else ZU_ERR_INVALID_DATA, s, b)
             else if need > l_in_cap s
             then
               (case zu_int_grow (l_in_cap s) (need - l_in_cap s) of
                  (st, None) \<Rightarrow> (st, s, b)
                | (st, Some nxt) \<Rightarrow>
                    if \<not> mem ''lz4 input'' nxt then (ZU_ERR_MEMORY, s, b)
                    else lz4b_append (s\<lparr>l_in := resize nxt (l_in s), l_in_cap := nxt\<rparr>) b)
             else lz4b_append s b))"

text \<open>The input the library is given: \<^verbatim>\<open>s->in\<close> and \<^verbatim>\<open>s->in_len\<close>.\<close>

definition lz4b_gathered :: "('e, 'd) lz4_state \<Rightarrow> byte list" where
  "lz4b_gathered s = take (l_in_len s) (l_in s)"

definition zu_int_lz4b_compress ::
  "('e, 'd) lz4_engine \<Rightarrow> ('e, 'd) lz4_state \<Rightarrow> byte list \<Rightarrow> nat \<Rightarrow> int \<times> byte list" where
  "zu_int_lz4b_compress eng s data cap =
     (let lv = zu_int_lz4_level (l_level s)
      in if lv \<ge> LZ4HC_CLEVEL_MIN then LZ4_compress_HC eng data cap lv
         else (let accel = (if lv < 0 then - lv + 1 else 1) in LZ4_compress_fast eng data cap accel))"

definition zu_int_lz4b_stage :: "alloc \<Rightarrow> ('e, 'd) lz4_state \<Rightarrow> nat \<Rightarrow> zu_status \<times> ('e, 'd) lz4_state" where
  "zu_int_lz4b_stage mem s n =
     (if n > l_stage_cap s
      then (if \<not> mem ''lz4 stage'' (if n = 0 then 1 else n) then (ZU_ERR_MEMORY, s)
            else (ZU_OK, s\<lparr>l_stage := resize n (l_stage s), l_stage_cap := n\<rparr>))
      else (ZU_OK, s))"

text \<open>The end of both process functions: the result is staged, the gathered input freed, and as much
  as fits delivered.\<close>

definition lz4b_finish :: "('e, 'd) lz4_state \<Rightarrow> zu_buffer \<Rightarrow> zu_status \<times> ('e, 'd) lz4_state \<times> zu_buffer" where
  "lz4b_finish s b =
     (case zu_int_lz4_drain
             (s\<lparr>l_stage_pos := 0, l_done := True, l_in := [], l_in_cap := 0, l_in_len := 0\<rparr>) b of
        (drained, s1, b1) \<Rightarrow> (if drained then ZU_STREAM_END else ZU_NEED_OUTPUT, s1, b1))"

definition lz4b_done :: "('e, 'd) lz4_state \<Rightarrow> zu_buffer \<Rightarrow> zu_status \<times> ('e, 'd) lz4_state \<times> zu_buffer" where
  "lz4b_done s b =
     (case zu_int_lz4_drain s b of
        (drained, s1, b1) \<Rightarrow> (if drained then ZU_STREAM_END else ZU_NEED_OUTPUT, s1, b1))"

definition lz4b_collect ::
  "alloc \<Rightarrow> ('e, 'd) lz4_state \<Rightarrow> zu_buffer \<Rightarrow> zu_status \<times> ('e, 'd) lz4_state \<times> zu_buffer" where
  "lz4b_collect mem s b =
     (case zu_int_lz4b_gather mem s b of
        (gs, s1, b1) \<Rightarrow> (if gs \<noteq> ZU_OK then gs else ZU_NEED_INPUT, s1, b1))"

subsection \<open>lz4-block: encoder\<close>

definition lz4b_encode_direct ::
  "('e, 'd) lz4_engine \<Rightarrow> ('e, 'd) lz4_state \<Rightarrow> zu_buffer \<Rightarrow> nat \<Rightarrow> zu_status \<times> ('e, 'd) lz4_state \<times> zu_buffer" where
  "lz4b_encode_direct eng s b bound =
     (case zu_int_lz4b_compress eng s (in_window b) bound of
        (w, ws) \<Rightarrow>
          (let b1 = write_out ws b
           in if w \<le> 0 then (ZU_ERR_INTERNAL, s, b1)
              else (ZU_STREAM_END, s\<lparr>l_done := True\<rparr>, advance (avail_in b) (nat w) b1)))"

definition lz4b_encode_staged ::
  "alloc \<Rightarrow> ('e, 'd) lz4_engine \<Rightarrow> ('e, 'd) lz4_state \<Rightarrow> zu_buffer \<Rightarrow> zu_status \<times> ('e, 'd) lz4_state \<times> zu_buffer" where
  "lz4b_encode_staged mem eng s b =
     (case zu_int_lz4b_gather mem s b of
        (gs, s1, b1) \<Rightarrow>
          if gs \<noteq> ZU_OK then (gs, s1, b1)
          else
            (let bound = LZ4_compressBound (l_in_len s1)
             in if bound \<le> 0 then (ZU_ERR_INVALID_ARGUMENT, s1, b1)
                else
                  (case zu_int_lz4b_stage mem s1 (nat bound) of
                     (gs, s2) \<Rightarrow>
                       if gs \<noteq> ZU_OK then (gs, s2, b1)
                       else
                         (case zu_int_lz4b_compress eng s2 (lz4b_gathered s2) (nat bound) of
                            (w, ws) \<Rightarrow>
                              (let s3 = s2\<lparr>l_stage := write_at (l_stage s2) 0 ws\<rparr>
                               in if w \<le> 0 then (ZU_ERR_INTERNAL, s3, b1)
                                  else lz4b_finish (s3\<lparr>l_stage_len := nat w\<rparr>) b1)))))"

definition lz4b_encode ::
  "alloc \<Rightarrow> ('e, 'd) lz4_engine \<Rightarrow> ('e, 'd) lz4_state \<Rightarrow> zu_buffer \<Rightarrow> zu_flush \<Rightarrow> zu_status \<times> ('e, 'd) lz4_state \<times> zu_buffer" where
  "lz4b_encode mem eng s b flush =
     (if l_done s then lz4b_done s b
      else if flush \<noteq> ZU_FINISH then lz4b_collect mem s b
      else if l_in_len s = 0 \<and> avail_in b \<le> LZ4_MAX_INPUT_SIZE \<and> LZ4_compressBound (avail_in b) > 0 \<and>
              avail_out b \<ge> nat (LZ4_compressBound (avail_in b))
      then lz4b_encode_direct eng s b (nat (LZ4_compressBound (avail_in b)))
      else lz4b_encode_staged mem eng s b)"

definition lz4b_encoder_process :: "alloc \<Rightarrow> ('e, 'd) lz4_engine \<Rightarrow> ('e, 'd) lz4_state process_fn" where
  "lz4b_encoder_process mem eng st b flush =
     (case st of
        None \<Rightarrow> Some (ZU_ERR_INVALID_ARGUMENT, None, b)
      | Some s \<Rightarrow> (case lz4b_encode mem eng s b flush of (r, s', b') \<Rightarrow> Some (r, Some s', b')))"

subsection \<open>lz4-block: decoder\<close>

text \<open>The search for the size of the block: the ceiling and whether \<^verbatim>\<open>max_output\<close> set it, the first
  capacity, and one turn of the loop.\<close>

definition lz4b_ceiling :: "('e, 'd) lz4_state \<Rightarrow> nat \<times> bool" where
  "lz4b_ceiling s =
     (let most = (case zu_int_mul (l_in_len s) 255 of
                    (st, None) \<Rightarrow> INT_MAX
                  | (st, Some a) \<Rightarrow>
                      (case zu_int_add a 64 of
                         (st, None) \<Rightarrow> INT_MAX
                       | (st, Some c) \<Rightarrow> if c > INT_MAX then INT_MAX else c))
      in if l_max_output s \<noteq> 0 \<and> l_max_output s < most then (l_max_output s, True) else (most, False))"

definition lz4b_first_cap :: "nat \<Rightarrow> nat \<Rightarrow> nat" where
  "lz4b_first_cap n ceiling =
     (let cap = n * 4; cap1 = (if cap < 4096 then 4096 else cap) in if cap1 > ceiling then ceiling else cap1)"

text \<open>The bytes a call of the library leaves in the stage; with no capacity it is given another address.\<close>

definition lz4b_stage_write :: "nat \<Rightarrow> byte list \<Rightarrow> ('e, 'd) lz4_state \<Rightarrow> ('e, 'd) lz4_state" where
  "lz4b_stage_write cap ws s = (if cap = 0 then s else s\<lparr>l_stage := write_at (l_stage s) 0 ws\<rparr>)"

definition lz4b_search_step ::
  "alloc \<Rightarrow> ('e, 'd) lz4_engine \<Rightarrow> nat \<Rightarrow> bool \<Rightarrow> ('e, 'd) lz4_state \<times> nat \<Rightarrow>
    (zu_status \<times> nat \<times> ('e, 'd) lz4_state, ('e, 'd) lz4_state \<times> nat) loop_step" where
  "lz4b_search_step mem eng ceiling limited x =
     (case x of (s, cap) \<Rightarrow>
        (case zu_int_lz4b_stage mem s cap of
           (st, s1) \<Rightarrow>
             if st \<noteq> ZU_OK then Ret (st, 0, s1)
             else
               (case LZ4_decompress_safe eng (lz4b_gathered s1) cap of
                  (r, ws) \<Rightarrow>
                    (let s2 = lz4b_stage_write cap ws s1
                     in if r \<ge> 0 then Ret (ZU_OK, nat r, s2)
                        else
                          (case LZ4_decompress_safe_partial eng (lz4b_gathered s2) cap cap of
                             (p, ws') \<Rightarrow>
                               (let s3 = lz4b_stage_write cap ws' s2
                                in if p < 0 \<or> nat p < cap then Ret (ZU_ERR_INVALID_DATA, 0, s3)
                                   else if cap \<ge> ceiling
                                   then Ret (if limited then ZU_ERR_OUTPUT_LIMIT else ZU_ERR_INVALID_DATA, 0, s3)
                                   else Next (s3, if cap > ceiling div 4 then ceiling else cap * 4)))))))"

definition zu_int_lz4b_search ::
  "alloc \<Rightarrow> ('e, 'd) lz4_engine \<Rightarrow> ('e, 'd) lz4_state \<Rightarrow> (zu_status \<times> nat \<times> ('e, 'd) lz4_state) option" where
  "zu_int_lz4b_search mem eng s =
     (case lz4b_ceiling s of
        (ceiling, limited) \<Rightarrow>
          run_loop (\<lambda>x. Some (lz4b_search_step mem eng ceiling limited x)) (s, lz4b_first_cap (l_in_len s) ceiling))"

definition lz4b_decode_direct ::
  "('e, 'd) lz4_engine \<Rightarrow> ('e, 'd) lz4_state \<Rightarrow> zu_buffer \<Rightarrow> nat \<Rightarrow> zu_status \<times> ('e, 'd) lz4_state \<times> zu_buffer" where
  "lz4b_decode_direct eng s b want =
     (if avail_in b = 0 \<or> avail_in b > LZ4_MAX_INPUT_SIZE then (ZU_ERR_INVALID_DATA, s, b)
      else
        (case LZ4_decompress_safe eng (in_window b) want of
           (r, ws) \<Rightarrow>
             (let b1 = write_out ws b
              in if r < 0 \<or> nat r \<noteq> want then (ZU_ERR_INVALID_DATA, s, b1)
                 else (ZU_STREAM_END, s\<lparr>l_done := True\<rparr>, advance (avail_in b) want b1))))"

definition lz4b_decode_expected ::
  "alloc \<Rightarrow> ('e, 'd) lz4_engine \<Rightarrow> ('e, 'd) lz4_state \<Rightarrow> zu_buffer \<Rightarrow> zu_status \<times> ('e, 'd) lz4_state \<times> zu_buffer" where
  "lz4b_decode_expected mem eng s b =
     (if l_max_output s \<noteq> 0 \<and> l_expected s > l_max_output s then (ZU_ERR_OUTPUT_LIMIT, s, b)
      else if l_expected s > INT_MAX then (ZU_ERR_INVALID_DATA, s, b)
      else
        (let want = l_expected s
         in if l_in_len s = 0 \<and> avail_out b \<ge> want then lz4b_decode_direct eng s b want
            else
              (case zu_int_lz4b_gather mem s b of
                 (gs, s1, b1) \<Rightarrow>
                   if gs \<noteq> ZU_OK then (gs, s1, b1)
                   else if l_in_len s1 = 0 then (ZU_ERR_INVALID_DATA, s1, b1)
                   else
                     (case zu_int_lz4b_stage mem s1 want of
                        (gs, s2) \<Rightarrow>
                          if gs \<noteq> ZU_OK then (gs, s2, b1)
                          else
                            (case LZ4_decompress_safe eng (lz4b_gathered s2) want of
                               (r, ws) \<Rightarrow>
                                 (let s3 = lz4b_stage_write want ws s2
                                  in if r < 0 \<or> nat r \<noteq> want then (ZU_ERR_INVALID_DATA, s3, b1)
                                     else lz4b_finish (s3\<lparr>l_stage_len := want\<rparr>) b1))))))"

definition lz4b_decode_search ::
  "alloc \<Rightarrow> ('e, 'd) lz4_engine \<Rightarrow> ('e, 'd) lz4_state \<Rightarrow> zu_buffer \<Rightarrow>
    (zu_status \<times> ('e, 'd) lz4_state \<times> zu_buffer) option" where
  "lz4b_decode_search mem eng s b =
     (case zu_int_lz4b_gather mem s b of
        (gs, s1, b1) \<Rightarrow>
          if gs \<noteq> ZU_OK then Some (gs, s1, b1)
          else if l_in_len s1 = 0 then Some (ZU_ERR_INVALID_DATA, s1, b1)
          else map_option (\<lambda>(gs, got, s2). if gs \<noteq> ZU_OK then (gs, s2, b1) else lz4b_finish (s2\<lparr>l_stage_len := got\<rparr>) b1)
                 (zu_int_lz4b_search mem eng s1))"

definition lz4b_decode ::
  "alloc \<Rightarrow> ('e, 'd) lz4_engine \<Rightarrow> ('e, 'd) lz4_state \<Rightarrow> zu_buffer \<Rightarrow> zu_flush \<Rightarrow>
    (zu_status \<times> ('e, 'd) lz4_state \<times> zu_buffer) option" where
  "lz4b_decode mem eng s b flush =
     (if l_done s then Some (lz4b_done s b)
      else if flush \<noteq> ZU_FINISH then Some (lz4b_collect mem s b)
      else if l_has_expected s then Some (lz4b_decode_expected mem eng s b)
      else lz4b_decode_search mem eng s b)"

definition lz4b_decoder_process :: "alloc \<Rightarrow> ('e, 'd) lz4_engine \<Rightarrow> ('e, 'd) lz4_state process_fn" where
  "lz4b_decoder_process mem eng st b flush =
     (case st of
        None \<Rightarrow> Some (ZU_ERR_INVALID_ARGUMENT, None, b)
      | Some s \<Rightarrow> map_option (\<lambda>(r, s', b'). (r, Some s', b')) (lz4b_decode mem eng s b flush))"

definition lz4b_bound :: "int \<Rightarrow> nat \<Rightarrow> zu_status \<times> nat option" where
  "lz4b_bound level n =
     (if n > LZ4_MAX_INPUT_SIZE then (ZU_ERR_INVALID_ARGUMENT, None)
      else
        (let b = LZ4_compressBound n
         in if b \<le> 0 then (ZU_ERR_INVALID_ARGUMENT, None) else (ZU_OK, Some (nat b))))"

subsection \<open>Vtables\<close>

definition zu_int_lz4f_magic :: "byte list" where
  "zu_int_lz4f_magic = [0x04, 0x22, 0x4D, 0x18]"

definition zu_int_codec_lz4_frame :: "alloc \<Rightarrow> ('e, 'd) lz4_engine \<Rightarrow> ('e, 'd) lz4_state zu_codec_vtable" where
  "zu_int_codec_lz4_frame mem eng =
     \<lparr>v_struct_size = sizeof_zu_codec_vtable, v_codec = ZU_CODEC_LZ4_FRAME,
      v_name = Some ''lz4-frame'', v_content_encoding = None, v_source = Some ''zukomp'',
      v_level_min = ZU_INT_LZ4_LEVEL_MIN, v_level_max = ZU_INT_LZ4_LEVEL_MAX, v_level_default = ZU_INT_LZ4_LEVEL_DEFAULT,
      v_flags = ZU_CAN_ENCODE OR ZU_CAN_DECODE OR ZU_CAN_FLUSH,
      v_magic = Some zu_int_lz4f_magic, v_magic_len = 4, v_magic_offset = 0, v_sniff = None,
      v_encoder_new = Some (lz4f_encoder_new mem eng), v_encoder_process = Some (lz4f_encoder_process eng),
      v_encoder_reset = Some lz4f_encoder_reset, v_encoder_free = Some lz4_free,
      v_decoder_new = Some (lz4f_decoder_new mem eng), v_decoder_process = Some (lz4f_decoder_process eng),
      v_decoder_reset = Some (lz4f_decoder_reset eng), v_decoder_free = Some lz4_free,
      v_bound = Some (lz4f_bound eng), v_level_fast = 1, v_level_best = LZ4HC_CLEVEL_MAX\<rparr>"

definition zu_int_codec_lz4_block :: "alloc \<Rightarrow> ('e, 'd) lz4_engine \<Rightarrow> ('e, 'd) lz4_state zu_codec_vtable" where
  "zu_int_codec_lz4_block mem eng =
     \<lparr>v_struct_size = sizeof_zu_codec_vtable, v_codec = ZU_CODEC_LZ4_BLOCK,
      v_name = Some ''lz4-block'', v_content_encoding = None, v_source = Some ''zukomp'',
      v_level_min = ZU_INT_LZ4_LEVEL_MIN, v_level_max = ZU_INT_LZ4_LEVEL_MAX, v_level_default = ZU_INT_LZ4_LEVEL_DEFAULT,
      v_flags = ZU_CAN_ENCODE OR ZU_CAN_DECODE,
      v_magic = None, v_magic_len = 0, v_magic_offset = 0, v_sniff = None,
      v_encoder_new = Some (lz4b_encoder_new mem), v_encoder_process = Some (lz4b_encoder_process mem eng),
      v_encoder_reset = Some lz4b_encoder_reset, v_encoder_free = Some lz4_free,
      v_decoder_new = Some (lz4b_decoder_new mem), v_decoder_process = Some (lz4b_decoder_process mem eng),
      v_decoder_reset = Some lz4b_decoder_reset, v_decoder_free = Some lz4_free,
      v_bound = Some lz4b_bound, v_level_fast = 1, v_level_best = LZ4HC_CLEVEL_MAX\<rparr>"

end
