(* ===== verification/Codec_Lz4_Frame.thy ===== *)
theory Codec_Lz4_Frame
  imports Codec_Lz4
begin

unbundle bit_operations_syntax

text \<open>
  The lz4-frame codec of \<^verbatim>\<open>src/codec_lz4.c\<close>. Its decoder is the shared loop of \<open>Zu_Frame_Loop\<close>;
  its encoder writes into a staging buffer that is drained into the caller's window, and what it
  delivered at the end is one frame: the output of one \<^verbatim>\<open>LZ4F_compressBegin\<close>, updates and flushes
  over exactly the bytes consumed, and one \<^verbatim>\<open>LZ4F_compressEnd\<close>.
\<close>

subsection \<open>The decoder is an instance of the shared loop\<close>

definition lz4_upd :: "zu_int_frames \<Rightarrow> 'd option \<Rightarrow> ('e, 'd) lz4_state \<Rightarrow> ('e, 'd) lz4_state" where
  "lz4_upd f c s = s\<lparr>l_dctx := c, l_frames := f\<rparr>"

lemma lz4f_error_stops: "\<not> is_progress (zu_int_lz4f_error eng s r)"
  by (simp add: zu_int_lz4f_error_def Let_def)

lemma lz4f_feed_calls:
  assumes "lz4f_feed_held eng s p = (st, s')"
  shows "\<exists>r used ws n. LZ4F_decompress eng (l_dctx s) p 0 = (r, used, ws, n, l_dctx s') \<and>
    (if st = ZU_OK then \<not> LZ4F_isError eng r \<and> used = length p else \<not> is_progress st)"
proof -
  obtain r used ws n c where "LZ4F_decompress eng (l_dctx s) p 0 = (r, used, ws, n, c)" by (metis prod_cases5)
  moreover have "zu_int_lz4f_error eng s' r \<noteq> ZU_OK" using lz4f_error_stops [of eng s' r] by auto
  ultimately show ?thesis
    using assms lz4f_error_stops [of eng s' r] by (auto simp: lz4f_feed_held_def Let_def split: if_splits)
qed

lemma lz4f_probe_calls:
  assumes "lz4f_probe eng s x = (st, y, n, e, s')"
  shows "\<exists>r used ws n'. LZ4F_decompress eng (l_dctx s) [] 1 = (r, used, ws, n', l_dctx s') \<and>
    (if st = ZU_OK then \<not> LZ4F_isError eng r \<and> e = (r = 0) \<and> n = n' \<and> (0 < n \<and> ws \<noteq> [] \<longrightarrow> y = ws ! 0)
     else \<not> is_progress st)"
proof -
  obtain r used ws n' c where "LZ4F_decompress eng (l_dctx s) [] 1 = (r, used, ws, n', c)" by (metis prod_cases5)
  moreover have "zu_int_lz4f_error eng s' r \<noteq> ZU_OK" using lz4f_error_stops [of eng s' r] by auto
  ultimately show ?thesis
    using assms lz4f_error_stops [of eng s' r]
    by (auto simp: lz4f_probe_def Let_def split: if_splits list.splits)
qed

lemma lz4_upd_order: "s\<lparr>l_frames := f, l_dctx := c\<rparr> = s\<lparr>l_dctx := c, l_frames := f\<rparr>"
  by simp

lemma lz4f_step_shape:
  "lz4f_decoder_step eng flush (s, b) =
    framed_turn l_frames l_dctx lz4_upd (LZ4F_decompress eng) (LZ4F_isError eng) (zu_int_lz4f_error eng)
      (lz4f_feed_held eng) (lz4f_probe eng) flush (s, b)"
  unfolding lz4f_decoder_step_def framed_turn_def lz4_upd_def Let_def
  by (simp add: lz4_upd_order cong: if_cong split del: if_split)

interpretation lz4f: framed_decoder l_frames l_dctx lz4_upd "LZ4F_decompress eng" "LZ4F_isError eng"
  "zu_int_lz4f_error eng" "lz4f_feed_held eng" "lz4f_probe eng" "lz4f_decoder_step eng" "lz4f_decoder_process eng"
  for eng :: "('e, 'd) lz4_engine"
proof unfold_locales
  fix f c and s :: "('e, 'd) lz4_state"
  show "l_frames (lz4_upd f c s) = f" "l_dctx (lz4_upd f c s) = c" by (simp_all add: lz4_upd_def)
next
  fix so :: "('e, 'd) lz4_state option" and b flush
  show "lz4f_decoder_process eng so b flush =
    (case so of None \<Rightarrow> Some (ZU_ERR_INVALID_ARGUMENT, None, b)
     | Some s \<Rightarrow> map_option (\<lambda>(r, s', b'). (r, Some s', b')) (run_loop (\<lambda>sb. Some (lz4f_decoder_step eng flush sb)) (s, b)))"
    by (simp add: lz4f_decoder_process_def)
qed (fact lz4f_error_stops lz4f_feed_calls lz4f_probe_calls lz4f_step_shape)+

lemma lz4f_decoder_new_frames:
  "lz4f_decoder_new mem eng os = (ZU_OK, Some s) \<Longrightarrow> l_frames s = zu_int_frames_init ZU_INT_FRAMES_LZ4 (do_flags os)"
  by (auto simp: lz4f_decoder_new_def split: if_splits prod.splits)

definition lz4f_inv :: "('e, 'd) lz4_state option \<Rightarrow> bool" where
  "lz4f_inv st \<longleftrightarrow> (\<forall>s. st = Some s \<longrightarrow> frames_ok (l_frames s))"

lemma lz4f_decoder_codec:
  fixes eng :: "('e, 'd) lz4_engine"
  assumes c: "frame_contract (\<lambda>_. True) fresh (LZ4F_isError eng) (LZ4F_decompress eng)"
  shows "decoder_codec lz4f_inv (zu_int_codec_lz4_frame mem eng)"
proof
  fix os s assume "the (v_decoder_new (zu_int_codec_lz4_frame mem eng)) os = (ZU_OK, s)"
  then show "lz4f_inv s"
    by (cases s) (auto simp: lz4f_inv_def zu_int_codec_lz4_frame_def dest: lz4f_decoder_new_frames)
next
  fix so :: "('e, 'd) lz4_state option" and b flush assume i: "lz4f_inv so" "buf_wf b"
  show "\<exists>st s' b'. the (v_decoder_process (zu_int_codec_lz4_frame mem eng)) so b flush = Some (st, s', b') \<and>
    lz4f_inv s' \<and> buf_adv b b'"
  proof (cases so)
    case None
    with i show ?thesis by (simp add: zu_int_codec_lz4_frame_def lz4f_decoder_process_def)
  next
    case (Some s)
    with i lz4f.process_returns [OF c _ i(2), of s flush "l_dctx s"] show ?thesis
      by (auto simp: zu_int_codec_lz4_frame_def lz4f_inv_def lz4f.kept_def)
  qed
next
  fix f :: "('e, 'd) lz4_state option \<Rightarrow> zu_decoder_opts \<Rightarrow> zu_status \<times> ('e, 'd) lz4_state option" and so os st s'
  assume "v_decoder_reset (zu_int_codec_lz4_frame mem eng) = Some f" "lz4f_inv so" "f so os = (st, s')"
  then show "lz4f_inv s'"
    by (cases so) (auto simp: zu_int_codec_lz4_frame_def lz4f_inv_def lz4f_decoder_reset_def split: if_splits)
qed

subsection \<open>Draining the stage\<close>

definition stage_ok :: "('e, 'd) lz4_state \<Rightarrow> bool" where
  "stage_ok s \<longleftrightarrow> length (l_stage s) = l_stage_cap s \<and> l_stage_pos s \<le> l_stage_len s \<and> l_stage_len s \<le> l_stage_cap s"

definition pending :: "('e, 'd) lz4_state \<Rightarrow> byte list" where
  "pending s = seg (l_stage s) (l_stage_pos s) (l_stage_len s)"

lemma pending_Nil: "stage_ok s \<Longrightarrow> pending s = [] \<longleftrightarrow> l_stage_pos s = l_stage_len s"
  by (auto simp: pending_def stage_ok_def seg_def)

text \<open>Draining delivers a prefix of what is pending and stops only at a full window.\<close>

lemma drain_ok:
  assumes "zu_int_lz4_drain s b = (dr, s', b')" "stage_ok s" "buf_wf b"
  obtains p l where "s' = s\<lparr>l_stage_pos := p, l_stage_len := l\<rparr>" "stage_ok s'" "buf_adv b b'" "consumed b b' = []"
    "emitted b b' @ pending s' = pending s" "dr \<longleftrightarrow> pending s' = []" "\<not> dr \<Longrightarrow> avail_out b' = 0"
    "avail_in b' = avail_in b"
proof -
  let ?n = "min (l_stage_len s - l_stage_pos s) (avail_out b)"
  let ?ws = "seg (l_stage s) (l_stage_pos s) (l_stage_pos s + ?n)"
  let ?s = "s\<lparr>l_stage_pos := l_stage_pos s + ?n\<rparr>"
  have st: "length (l_stage s) = l_stage_cap s" "l_stage_pos s \<le> l_stage_len s" "l_stage_len s \<le> l_stage_cap s"
    using assms(2) by (simp_all add: stage_ok_def)
  have len: "length ?ws = ?n" using st by simp
  have mv: "buf_adv b (put_out ?ws b)" "consumed b (put_out ?ws b) = []" "emitted b (put_out ?ws b) = ?ws"
    using put_out_adv [OF assms(3), of ?ws] put_out_emitted [OF assms(3), of ?ws] put_out_consumed [of b ?ws] len by simp_all
  have b0: "put_out [] b = b"
    using assms(3) by (cases "dst b") (simp_all add: put_out_def buf_wf_def dst_mem_def)
  have e: "zu_int_lz4_drain s b =
      (if l_stage_pos ?s = l_stage_len s then (True, s\<lparr>l_stage_pos := 0, l_stage_len := 0\<rparr>, put_out ?ws b)
       else (False, ?s, put_out ?ws b))"
  proof (cases "?n = 0")
    case True
    then have "?ws = []" by simp
    with True b0 st(2) show ?thesis by (auto simp: zu_int_lz4_drain_def Let_def min_def split: if_splits)
  next
    case False
    with st(2) show ?thesis by (auto simp: zu_int_lz4_drain_def Let_def min_def split: if_splits)
  qed
  have split: "?ws @ seg (l_stage s) (l_stage_pos s + ?n) (l_stage_len s) = pending s"
    unfolding pending_def using st(2) by (intro seg_append) simp_all
  have ai: "avail_in (put_out ?ws b) = avail_in b" by (simp add: avail_in_def)
  show thesis
  proof (cases "l_stage_pos s + ?n = l_stage_len s")
    case True
    with e assms(1) have r: "dr" "s' = s\<lparr>l_stage_pos := 0, l_stage_len := 0\<rparr>" "b' = put_out ?ws b" by simp_all
    have "pending s' = []" "stage_ok s'" using st by (simp_all add: r(2) pending_def stage_ok_def)
    with r mv split ai True show thesis by (intro that [of 0 0]) simp_all
  next
    case False
    with e assms(1) have r: "\<not> dr" "s' = s\<lparr>l_stage_pos := l_stage_pos s + ?n, l_stage_len := l_stage_len s\<rparr>"
      "b' = put_out ?ws b" by simp_all
    have n: "?n = avail_out b" "l_stage_pos s + ?n < l_stage_len s" using False st(2) by auto
    have ok: "stage_ok s'" using st n(2) by (simp add: r(2) stage_ok_def)
    have pe: "pending s' = seg (l_stage s) (l_stage_pos s + ?n) (l_stage_len s)" by (simp add: r(2) pending_def)
    have "pending s' \<noteq> []" using pending_Nil [OF ok] n(2) by (simp add: r(2))
    moreover have "avail_out b' = 0" using adv_room(2) [OF assms(3) mv(1)] mv(3) len n(1) by (simp add: r(3))
    ultimately show thesis using r(1) ok mv split ai pe
      by (intro that [OF r(2)]) (simp_all add: r(3))
  qed
qed


subsection \<open>The encoder\<close>

text \<open>What liblz4 is asked to do, and what its documentation promises of a call on a valid context:
  it writes within the capacity, and when it does not fail the result is the number of bytes
  written.\<close>

datatype lz4f_op = Lz4f_begin LZ4F_preferences | Lz4f_update "byte list" | Lz4f_flush | Lz4f_end

fun lz4f_call :: "('e, 'd) lz4_engine \<Rightarrow> lz4f_op \<Rightarrow> 'e option \<Rightarrow> nat \<Rightarrow> 'e lz4f_write" where
  "lz4f_call eng (Lz4f_begin p) c cap = LZ4F_compressBegin eng c cap p"
| "lz4f_call eng (Lz4f_update xs) c cap = LZ4F_compressUpdate eng c cap xs"
| "lz4f_call eng Lz4f_flush c cap = LZ4F_flush eng c cap"
| "lz4f_call eng Lz4f_end c cap = LZ4F_compressEnd eng c cap"

fun lz4f_input :: "lz4f_op \<Rightarrow> byte list" where
  "lz4f_input (Lz4f_update xs) = xs"
| "lz4f_input _ = []"

fun lz4f_inner :: "lz4f_op \<Rightarrow> bool" where
  "lz4f_inner (Lz4f_update xs) = True"
| "lz4f_inner Lz4f_flush = True"
| "lz4f_inner _ = False"

definition lz4f_enc_contract :: "('e option \<Rightarrow> bool) \<Rightarrow> ('e, 'd) lz4_engine \<Rightarrow> bool" where
  "lz4f_enc_contract valid eng \<longleftrightarrow>
     (\<forall>op c cap r ws c'. valid c \<longrightarrow> lz4f_call eng op c cap = (r, ws, c') \<longrightarrow>
        length ws \<le> cap \<and> (\<not> LZ4F_isError eng r \<longrightarrow> r \<le> length ws \<and> valid c'))"

lemma lz4f_enc_contractD:
  assumes "lz4f_enc_contract valid eng" "valid c" "lz4f_call eng op c cap = (r, ws, c')"
  shows "length ws \<le> cap" "\<not> LZ4F_isError eng r \<Longrightarrow> r \<le> length ws \<and> valid c'"
  using assms unfolding lz4f_enc_contract_def by blast+

text \<open>The library's history: its operations in order, what they were given and what they wrote.\<close>

inductive lz4f_written ::
  "('e, 'd) lz4_engine \<Rightarrow> 'e option \<Rightarrow> lz4f_op list \<Rightarrow> byte list \<Rightarrow> byte list \<Rightarrow> 'e option \<Rightarrow> bool"
  for eng :: "('e, 'd) lz4_engine" and c0 :: "'e option" where
  start: "lz4f_written eng c0 [] [] [] c0"
| call: "lz4f_written eng c0 ops i out c \<Longrightarrow> lz4f_call eng op c cap = (r, ws, c') \<Longrightarrow> \<not> LZ4F_isError eng r \<Longrightarrow>
    lz4f_written eng c0 (ops @ [op]) (i @ lz4f_input op) (out @ take r ws) c'"

text \<open>The operations of one frame.\<close>

definition lz4f_one_frame :: "lz4f_op list \<Rightarrow> bool" where
  "lz4f_one_frame ops \<longleftrightarrow> (\<exists>p mid. ops = Lz4f_begin p # mid @ [Lz4f_end] \<and> (\<forall>op \<in> set mid. lz4f_inner op))"

definition lz4f_phase :: "('e, 'd) lz4_state \<Rightarrow> lz4f_op list \<Rightarrow> bool" where
  "lz4f_phase s ops \<longleftrightarrow>
     (if \<not> l_started s then ops = [] \<and> \<not> l_ended s
      else if l_ended s then lz4f_one_frame ops
      else \<exists>p mid. ops = Lz4f_begin p # mid \<and> (\<forall>op \<in> set mid. lz4f_inner op)) \<and>
     (l_done s \<longrightarrow> l_ended s \<and> pending s = [])"

definition lz4f_enc_at :: "('e, 'd) lz4_engine \<Rightarrow> 'e option \<Rightarrow> ('e, 'd) lz4_state \<Rightarrow> byte list \<Rightarrow> byte list \<Rightarrow> bool" where
  "lz4f_enc_at eng c0 s i out \<longleftrightarrow>
     (\<exists>ops. lz4f_written eng c0 ops i (out @ pending s) (l_cctx s) \<and> lz4f_phase s ops)"

definition lz4f_kept ::
  "('e, 'd) lz4_engine \<Rightarrow> ('e option \<Rightarrow> bool) \<Rightarrow> 'e option \<Rightarrow> ('e, 'd) lz4_state \<Rightarrow> zu_buffer \<Rightarrow>
    ('e, 'd) lz4_state \<Rightarrow> zu_buffer \<Rightarrow> bool \<Rightarrow> bool" where
  "lz4f_kept eng valid c0 s b s' b' good \<longleftrightarrow> buf_adv b b' \<and> stage_ok s' \<and>
     (good \<longrightarrow> valid (l_cctx s') \<and>
        (\<forall>i out. lz4f_enc_at eng c0 s i out \<longrightarrow> lz4f_enc_at eng c0 s' (i @ consumed b b') (out @ emitted b b')))"

lemma lz4f_kept_trans:
  assumes "lz4f_kept eng valid c0 s b s1 b1 True" "lz4f_kept eng valid c0 s1 b1 s2 b2 g"
  shows "lz4f_kept eng valid c0 s b s2 b2 g"
proof -
  have a: "buf_adv b b1" "buf_adv b1 b2" using assms by (simp_all add: lz4f_kept_def)
  show ?thesis
    using assms buf_adv_trans [OF a]
    unfolding lz4f_kept_def consumed_trans [OF a] emitted_trans [OF a] by (simp flip: append_assoc)
qed

lemma drain_kept:
  assumes "zu_int_lz4_drain s b = (dr, s', b')" "stage_ok s" "buf_wf b" "valid (l_cctx s)"
  shows "lz4f_kept eng valid c0 s b s' b' True"
proof -
  obtain p l where d: "s' = s\<lparr>l_stage_pos := p, l_stage_len := l\<rparr>" "stage_ok s'" "buf_adv b b'" "consumed b b' = []"
    "emitted b b' @ pending s' = pending s"
    using drain_ok [OF assms(1-3)] by metis
  have same: "l_started s' = l_started s" "l_ended s' = l_ended s" "l_done s' = l_done s" "l_cctx s' = l_cctx s"
    by (simp_all add: d(1))
  have ph: "lz4f_phase s' ops" if "lz4f_phase s ops" for ops
    using that d(5) by (auto simp: lz4f_phase_def same)
  have "lz4f_enc_at eng c0 s' (i @ []) (out @ emitted b b')" if at: "lz4f_enc_at eng c0 s i out" for i out
    using at ph unfolding lz4f_enc_at_def same d(5) [symmetric] append_Nil2 append_assoc by blast
  then show ?thesis using d(2,3,4) assms(4) by (simp add: lz4f_kept_def same)
qed

text \<open>One production: an operation of the library, and the step in the life of the frame it is.\<close>

definition produced ::
  "('e, 'd) lz4_engine \<Rightarrow> ('e, 'd) lz4_state \<Rightarrow> zu_buffer \<Rightarrow> bool \<Rightarrow> nat \<Rightarrow> byte list \<Rightarrow> ('e, 'd) lz4_state \<Rightarrow> zu_buffer \<Rightarrow> bool \<Rightarrow> bool" where
  "produced eng s b fl r ws s' b' fl' \<longleftrightarrow>
     (\<exists>op c'. lz4f_call eng op (l_cctx s) (l_stage_cap s) = (r, ws, c') \<and>
        l_cctx s' = c' \<and> l_stage s' = l_stage s \<and> l_stage_cap s' = l_stage_cap s \<and> l_done s' = l_done s \<and>
        l_stage_pos s' = l_stage_pos s \<and> l_stage_len s' = l_stage_len s \<and>
        buf_adv b b' \<and> emitted b b' = [] \<and>
        (\<not> LZ4F_isError eng r \<longrightarrow> consumed b b' = lz4f_input op \<and>
           (\<forall>ops. lz4f_phase s ops \<longrightarrow> lz4f_phase s' (ops @ [op])) \<and>
           avail_in b' + of_bool (\<not> l_started s') + of_bool (\<not> l_ended s') + of_bool (\<not> fl')
             < avail_in b + of_bool (\<not> l_started s) + of_bool (\<not> l_ended s) + (of_bool (\<not> fl) :: nat)))"

lemma lz4f_one_frame_snoc:
  "ops = Lz4f_begin p # mid \<Longrightarrow> \<forall>op \<in> set mid. lz4f_inner op \<Longrightarrow> lz4f_one_frame (ops @ [Lz4f_end])"
  by (simp add: lz4f_one_frame_def)

lemma lz4f_phase_inner:
  assumes "lz4f_phase s ops" "l_started s" "\<not> l_ended s" "lz4f_inner op"
    and "l_started s' = l_started s" "l_ended s' = l_ended s" "\<not> l_done s'"
  shows "lz4f_phase s' (ops @ [op])"
  using assms by (auto simp: lz4f_phase_def)

lemma produce_ok:
  assumes p: "lz4f_produce eng flush s b fl = Some (r, ws, s', b', fl')" and wf: "buf_wf b" and nd: "\<not> l_done s" "\<not> l_ended s"
  shows "produced eng s b fl r ws s' b' fl'"
proof -
  have adv0: "buf_adv b b" using wf by simp
  consider (head) "\<not> l_started s" | (update) "l_started s" "0 < avail_in b"
    | (finish) "l_started s" "avail_in b = 0" "flush = ZU_FINISH"
    | (flush) "l_started s" "avail_in b = 0" "flush = ZU_FLUSH" "\<not> fl"
    using p by (cases "l_started s"; cases "avail_in b = 0"; cases "flush = ZU_FINISH"; cases "flush = ZU_FLUSH \<and> \<not> fl")
      (auto simp: lz4f_produce_def)
  then show ?thesis
  proof cases
    case head
    let ?s = "if flush = ZU_FINISH then s\<lparr>l_prefs := (l_prefs s)\<lparr>p_contentSize := avail_in b\<rparr>\<rparr> else s"
    obtain r1 w1 c1 where e: "LZ4F_compressBegin eng (l_cctx s) (l_stage_cap s) (l_prefs ?s) = (r1, w1, c1)"
      by (metis prod_cases3)
    have fields: "l_cctx ?s = l_cctx s" "l_stage_cap ?s = l_stage_cap s" "l_stage ?s = l_stage s" "l_done ?s = l_done s"
      "l_stage_pos ?s = l_stage_pos s" "l_stage_len ?s = l_stage_len s" "l_ended ?s = l_ended s" "l_started ?s = l_started s"
      by simp_all
    have "(r, ws, s', b', fl') = (r1, w1, ?s\<lparr>l_cctx := c1, l_started := True\<rparr>, b, fl)"
      using p head e by (simp add: lz4f_produce_def Let_def fields)
    moreover have "lz4f_phase (?s\<lparr>l_cctx := c1, l_started := True\<rparr>) (ops @ [Lz4f_begin (l_prefs ?s)])" if "lz4f_phase s ops" for ops
      using that head nd by (simp add: lz4f_phase_def fields)
    ultimately show ?thesis using head e nd adv0
      by (intro produced_def [THEN iffD2] exI [of _ "Lz4f_begin (l_prefs ?s)"] exI [of _ c1]) (simp add: fields)
  next
    case update
    define n where "n = (if avail_in b < ZU_INT_LZ4F_CHUNK then avail_in b else ZU_INT_LZ4F_CHUNK)"
    obtain r1 w1 c1 where e: "LZ4F_compressUpdate eng (l_cctx s) (l_stage_cap s) (take n (in_window b)) = (r1, w1, c1)"
      by (metis prod_cases3)
    have eq: "(r, ws, s', b', fl') = (r1, w1, s\<lparr>l_cctx := c1\<rparr>, if LZ4F_isError eng r1 then b else skip_in n b, fl)"
      using p update e by (auto simp add: lz4f_produce_def Let_def n_def [symmetric])
    have n: "0 < n" "n \<le> avail_in b" using update(2) by (simp_all add: n_def ZU_INT_LZ4F_CHUNK_def)
    note sk = skip_in_adv [OF wf n(2)]
    have io: "consumed b (skip_in n b) = take n (in_window b)" "emitted b (skip_in n b) = []"
      using skip_in_seg [OF wf n(2)] by (simp_all only: skip_in_consumed skip_in_emitted)
    have room: "avail_in (skip_in n b) < avail_in b"
      using adv_room(1) [OF wf sk] io(1) n in_window_length [OF wf] by simp
    have ph: "lz4f_phase (s\<lparr>l_cctx := c1\<rparr>) (ops @ [Lz4f_update (take n (in_window b))])" if "lz4f_phase s ops" for ops
      by (rule lz4f_phase_inner [OF that update(1) nd(2)]) (simp_all add: nd)
    show ?thesis
    proof (cases "LZ4F_isError eng r1")
      case True
      with eq e adv0 show ?thesis
        by (intro produced_def [THEN iffD2] exI [of _ "Lz4f_update (take n (in_window b))"] exI [of _ c1]) simp
    next
      case False
      with eq e sk io room ph show ?thesis
        by (intro produced_def [THEN iffD2] exI [of _ "Lz4f_update (take n (in_window b))"] exI [of _ c1])
          (simp del: skip_in_pos)
    qed
  next
    case finish
    obtain r1 w1 c1 where e: "LZ4F_compressEnd eng (l_cctx s) (l_stage_cap s) = (r1, w1, c1)" by (metis prod_cases3)
    have eq: "(r, ws, s', b', fl') =
        (r1, w1, if LZ4F_isError eng r1 then s\<lparr>l_cctx := c1\<rparr> else s\<lparr>l_cctx := c1, l_ended := True\<rparr>, b, fl)"
      using p finish e by (auto simp add: lz4f_produce_def)
    have ph: "lz4f_phase (s\<lparr>l_cctx := c1, l_ended := True\<rparr>) (ops @ [Lz4f_end])" if "lz4f_phase s ops" for ops
      using that finish(1) nd by (auto simp: lz4f_phase_def intro: lz4f_one_frame_snoc)
    from eq e adv0 ph nd show ?thesis
      by (intro produced_def [THEN iffD2] exI [of _ Lz4f_end] exI [of _ c1]) (auto split: if_splits)
  next
    case flush
    obtain r1 w1 c1 where e: "LZ4F_flush eng (l_cctx s) (l_stage_cap s) = (r1, w1, c1)" by (metis prod_cases3)
    have eq: "(r, ws, s', b', fl') = (r1, w1, s\<lparr>l_cctx := c1\<rparr>, b, True)"
      using p flush e by (simp add: lz4f_produce_def)
    have ph: "lz4f_phase (s\<lparr>l_cctx := c1\<rparr>) (ops @ [Lz4f_flush])" if "lz4f_phase s ops" for ops
      by (rule lz4f_phase_inner [OF that flush(1) nd(2)]) (simp_all add: nd)
    from eq e adv0 ph flush(4) show ?thesis
      by (intro produced_def [THEN iffD2] exI [of _ Lz4f_flush] exI [of _ c1]) simp
  qed
qed

definition lz4f_weight :: "('e, 'd) lz4_state \<times> zu_buffer \<times> bool \<Rightarrow> nat" where
  "lz4f_weight x =
     (case x of (s, b, fl) \<Rightarrow> avail_in b + of_bool (\<not> l_started s) + of_bool (\<not> l_ended s) + of_bool (\<not> fl))"

lemma lz4f_turn:
  assumes c: "lz4f_enc_contract valid eng" and v: "valid (l_cctx s)" and wf: "buf_wf b" and ok: "stage_ok s"
  shows "case lz4f_encoder_step eng flush (s, b, fl) of
      Ret (st, s', b') \<Rightarrow> lz4f_kept eng valid c0 s b s' b' (is_progress st) \<and>
        (st = ZU_STREAM_END \<longrightarrow> l_done s' \<and> pending s' = []) \<and>
        names st b' \<and> (st = ZU_NEED_INPUT \<longrightarrow> pending s' = [])
    | Next (s', b', fl') \<Rightarrow> lz4f_kept eng valid c0 s b s' b' True \<and>
        lz4f_weight (s', b', fl') < lz4f_weight (s, b, fl)"
proof -
  obtain dr s1 b1 where d: "zu_int_lz4_drain s b = (dr, s1, b1)" by (metis prod_cases3)
  obtain p l where dk: "s1 = s\<lparr>l_stage_pos := p, l_stage_len := l\<rparr>" "stage_ok s1" "buf_adv b b1"
    "dr \<longleftrightarrow> pending s1 = []" "\<not> dr \<Longrightarrow> avail_out b1 = 0" "avail_in b1 = avail_in b"
    using drain_ok [OF d ok wf] by metis
  have k: "lz4f_kept eng valid c0 s b s1 b1 True" by (rule drain_kept [where valid = valid, OF d ok wf v])
  have wf1: "buf_wf b1" using dk(3) wf by (rule buf_adv_wf [rotated])
  have cc: "l_cctx s1 = l_cctx s" "l_stage_cap s1 = l_stage_cap s" by (simp_all add: dk(1))
  consider (full) "\<not> dr" | (over) "dr" "l_done s1" | (ended) "dr" "\<not> l_done s1" "l_ended s1"
    | (more) "dr" "\<not> l_done s1" "\<not> l_ended s1" by blast
  then show ?thesis
  proof cases
    case full
    with d k dk(5) show ?thesis by (simp add: lz4f_encoder_step_def names_def)
  next
    case over
    with d k dk(4) show ?thesis by (simp add: lz4f_encoder_step_def names_def)
  next
    case ended
    have "lz4f_kept eng valid c0 s1 b1 (s1\<lparr>l_done := True\<rparr>) b1 True"
      using dk(2,4) ended v wf1 by (auto simp: lz4f_kept_def lz4f_enc_at_def lz4f_phase_def stage_ok_def pending_def cc)
    from lz4f_kept_trans [OF k this] d ended dk(4) show ?thesis
      by (simp add: lz4f_encoder_step_def pending_def names_def)
  next
    case more
    show ?thesis
    proof (cases "lz4f_produce eng flush s1 b1 fl")
      case None
      then have "avail_in b1 = 0" by (auto simp: lz4f_produce_def Let_def split: if_splits prod.splits)
      with None d k dk(4) more show ?thesis by (simp add: lz4f_encoder_step_def names_def)
    next
      case (Some q)
      obtain r ws s2 b2 fl2 where q: "q = (r, ws, s2, b2, fl2)" by (metis prod_cases5)
      from produce_ok [OF Some [unfolded q] wf1 more(2,3)] obtain op c2 where o:
        "lz4f_call eng op (l_cctx s1) (l_stage_cap s1) = (r, ws, c2)" "l_cctx s2 = c2" "l_stage s2 = l_stage s1"
        "l_stage_cap s2 = l_stage_cap s1" "l_done s2 = l_done s1" "l_stage_pos s2 = l_stage_pos s1"
        "l_stage_len s2 = l_stage_len s1" "buf_adv b1 b2" "emitted b1 b2 = []"
        "\<not> LZ4F_isError eng r \<longrightarrow> consumed b1 b2 = lz4f_input op \<and>
           (\<forall>ops. lz4f_phase s1 ops \<longrightarrow> lz4f_phase s2 (ops @ [op])) \<and>
           avail_in b2 + of_bool (\<not> l_started s2) + of_bool (\<not> l_ended s2) + of_bool (\<not> fl2)
             < avail_in b1 + of_bool (\<not> l_started s1) + of_bool (\<not> l_ended s1) + (of_bool (\<not> fl) :: nat)"
        unfolding produced_def by blast
      have v1: "valid (l_cctx s1)" using v by (simp add: cc)
      note ec = lz4f_enc_contractD [OF c v1 o(1)]
      have so1: "length (l_stage s1) = l_stage_cap s1" using dk(2) by (simp add: stage_ok_def)
      let ?m = "write_at (l_stage s2) 0 ws"
      let ?s = "s2\<lparr>l_stage := ?m\<rparr>"
      have m: "length ?m = l_stage_cap s2" using ec(1) so1 o(3,4) by simp
      show ?thesis
      proof (cases "LZ4F_isError eng r")
        case True
        have "stage_ok ?s" using dk(2) m o(4,6,7) by (simp add: stage_ok_def)
        then have "lz4f_kept eng valid c0 s1 b1 ?s b2 False" using o(8) by (simp add: lz4f_kept_def)
        from lz4f_kept_trans [OF k this] lz4f_error_stops [of eng ?s r] d more Some q True show ?thesis
          by (auto simp: lz4f_encoder_step_def Let_def names_stop)
      next
        case False
        let ?s' = "?s\<lparr>l_stage_len := r, l_stage_pos := 0\<rparr>"
        note ec2 = ec(2) [OF False] and o2 = o(10) [rule_format, OF False]
        have pe: "pending ?s' = take r ws" using ec2 by (simp add: pending_def seg_def write_at_def)
        have "stage_ok ?s'" using m ec(1) ec2 o(4) by (simp add: stage_ok_def)
        moreover have "lz4f_enc_at eng c0 ?s' (i @ lz4f_input op) out" if at: "lz4f_enc_at eng c0 s1 i out" for i out
        proof -
          from at more dk(4) obtain ops where w: "lz4f_written eng c0 ops i out (l_cctx s1)" and ph: "lz4f_phase s1 ops"
            by (auto simp: lz4f_enc_at_def)
          from lz4f_written.call [OF w o(1) False]
          have "lz4f_written eng c0 (ops @ [op]) (i @ lz4f_input op) (out @ pending ?s') (l_cctx ?s')"
            by (simp only: pe) (simp add: o(2))
          moreover have "lz4f_phase ?s' (ops @ [op])"
            using o2 ph o(5) more(2) by (simp add: lz4f_phase_def)
          ultimately show ?thesis unfolding lz4f_enc_at_def by blast
        qed
        ultimately have "lz4f_kept eng valid c0 s1 b1 ?s' b2 True"
          using o(2,8,9) o2 ec2 by (simp add: lz4f_kept_def)
        moreover have "lz4f_weight (?s', b2, fl2) < lz4f_weight (s, b, fl)"
          using o2 dk(6) by (simp add: lz4f_weight_def dk(1))
        ultimately show ?thesis using lz4f_kept_trans [OF k] d more Some q False
          by (simp add: lz4f_encoder_step_def Let_def)
      qed
    qed
  qed
qed

lemma lz4f_encoder_returns:
  fixes s :: "('a, 'b) lz4_state"
  assumes c: "lz4f_enc_contract valid eng" and v: "valid (l_cctx s)" and wf: "buf_wf b" and ok: "stage_ok s"
  shows "\<exists>st s' b'. lz4f_encoder_process eng (Some s) b flush = Some (st, Some s', b') \<and>
    lz4f_kept eng valid c0 s b s' b' (is_progress st) \<and> (st = ZU_STREAM_END \<longrightarrow> l_done s' \<and> pending s' = []) \<and>
    names st b' \<and> (st = ZU_NEED_INPUT \<longrightarrow> pending s' = [])"
proof -
  let ?I = "\<lambda>(s1, b1, fl). lz4f_kept eng valid c0 s b s1 b1 True"
  let ?Q = "\<lambda>(st, s', b'). lz4f_kept eng valid c0 s b s' b' (is_progress st) \<and>
      (st = ZU_STREAM_END \<longrightarrow> l_done s' \<and> pending s' = []) \<and>
      names st b' \<and> (st = ZU_NEED_INPUT \<longrightarrow> pending s' = [])"
  have "\<exists>q. run_loop (\<lambda>x. Some (lz4f_encoder_step eng flush x)) (s, b, False) = Some q \<and> ?Q q"
  proof (rule run_loop_measure [where I = ?I and m = lz4f_weight])
    show "?I (s, b, False)" using v wf ok by (simp add: lz4f_kept_def)
  next
    fix x :: "('a, 'b) lz4_state \<times> zu_buffer \<times> bool" assume "?I x"
    then obtain s1 b1 fl where x: "x = (s1, b1, fl)" and k: "lz4f_kept eng valid c0 s b s1 b1 True"
      by (cases x) simp
    have wf1: "buf_wf b1" and v1: "valid (l_cctx s1)" "stage_ok s1"
      using k wf by (auto simp: lz4f_kept_def intro: buf_adv_wf)
    note t = lz4f_turn [where valid = valid, OF c v1(1) wf1 v1(2), of c0 fl flush] and tr = lz4f_kept_trans [OF k]
    show "(\<exists>r. Some (lz4f_encoder_step eng flush x) = Some (Ret r) \<and> ?Q r) \<or>
        (\<exists>y. Some (lz4f_encoder_step eng flush x) = Some (Next y) \<and> ?I y \<and> lz4f_weight y < lz4f_weight x)"
    proof (cases "lz4f_encoder_step eng flush (s1, b1, fl)")
      case (Ret q)
      obtain st s2 b2 where "q = (st, s2, b2)" by (metis prod_cases3)
      with t Ret tr x show ?thesis by simp
    next
      case (Next q)
      obtain s2 b2 fl2 where "q = (s2, b2, fl2)" by (metis prod_cases3)
      with t Next tr x show ?thesis by simp
    qed
  qed
  then obtain q where q: "run_loop (\<lambda>x. Some (lz4f_encoder_step eng flush x)) (s, b, False) = Some q" "?Q q" by blast
  obtain st s' b' where "q = (st, s', b')" by (metis prod_cases3)
  with q show ?thesis by (simp add: lz4f_encoder_process_def)
qed

lemma lz4f_encoder_new_ok:
  "lz4f_encoder_new mem eng os = (ZU_OK, Some s) \<Longrightarrow>
    stage_ok s \<and> pending s = [] \<and> \<not> l_started s \<and> \<not> l_ended s \<and> \<not> l_done s"
  by (auto simp: lz4f_encoder_new_def zu_int_lz4f_prefs_def lz4_blank_def stage_ok_def pending_def Let_def
      split: if_splits prod.splits)

lemma lz4f_encoder_trace:
  assumes c: "lz4f_enc_contract valid eng" and v: "valid (l_cctx s0)"
    and new: "lz4f_encoder_new mem eng os = (ZU_OK, Some s0)"
    and run: "codec_run (lz4f_encoder_process eng) s0 i out s st"
  shows "stage_ok s \<and> (is_progress st \<longrightarrow> valid (l_cctx s) \<and> lz4f_enc_at eng (l_cctx s0) s i out \<and>
    (st = ZU_STREAM_END \<longrightarrow> l_done s \<and> pending s = []))"
  using run
proof (induction rule: codec_run.induct)
  case start
  with v lz4f_encoder_new_ok [OF new] lz4f_written.start [of eng "l_cctx s0"] show ?case
    by (auto simp: lz4f_enc_at_def lz4f_phase_def)
next
  case (call i out s st b flush st' s' b')
  then have "valid (l_cctx s)" "stage_ok s" by simp_all
  from lz4f_encoder_returns [where valid = valid, OF c this(1) call.hyps(3) this(2), of flush "l_cctx s0"] call.hyps(2,4) call.IH
  show ?case by (auto simp: lz4f_kept_def)
qed

lemma lz4f_encoder_codec:
  fixes eng :: "('e, 'd) lz4_engine"
  assumes c: "lz4f_enc_contract (\<lambda>_. True) eng"
  shows "encoder_codec (\<lambda>st. \<forall>s. st = Some s \<longrightarrow> stage_ok s) (zu_int_codec_lz4_frame mem eng)"
proof
  fix os so assume "the (v_encoder_new (zu_int_codec_lz4_frame mem eng)) os = (ZU_OK, so)"
  then show "\<forall>s. so = Some s \<longrightarrow> stage_ok s"
    using lz4f_encoder_new_ok [of mem eng os] by (auto simp: zu_int_codec_lz4_frame_def)
next
  fix so :: "('e, 'd) lz4_state option" and b flush assume i: "\<forall>s. so = Some s \<longrightarrow> stage_ok s" "buf_wf b"
  show "\<exists>st s' b'. the (v_encoder_process (zu_int_codec_lz4_frame mem eng)) so b flush = Some (st, s', b') \<and>
    (\<forall>s. s' = Some s \<longrightarrow> stage_ok s) \<and> buf_adv b b'"
  proof (cases so)
    case None
    with i show ?thesis by (simp add: zu_int_codec_lz4_frame_def lz4f_encoder_process_def)
  next
    case (Some s)
    with i(1) have "stage_ok s" by simp
    from lz4f_encoder_returns [OF c TrueI i(2) this, of flush "l_cctx s"] Some show ?thesis
      by (auto simp: zu_int_codec_lz4_frame_def lz4f_kept_def)
  qed
next
  fix f :: "('e, 'd) lz4_state option \<Rightarrow> zu_encoder_opts \<Rightarrow> zu_status \<times> ('e, 'd) lz4_state option" and so os st s'
  assume "v_encoder_reset (zu_int_codec_lz4_frame mem eng) = Some f" "\<forall>s. so = Some s \<longrightarrow> stage_ok s" "f so os = (st, s')"
  then show "\<forall>s. s' = Some s \<longrightarrow> stage_ok s"
    by (cases so) (auto simp: zu_int_codec_lz4_frame_def lz4f_encoder_reset_def zu_int_lz4f_prefs_def stage_ok_def Let_def
        split: if_splits)
qed

subsection \<open>An instance of the library\<close>

text \<open>Frames of the form magic, nonzero bytes, zero, as in the theory of the zstd codec, but decoded one
  byte a call.\<close>

definition mini_decompress :: "nat option frame_call" where
  "mini_decompress c win room =
     (let k = (case c of None \<Rightarrow> 0 | Some k \<Rightarrow> k)
      in case win of
           [] \<Rightarrow> (1, 0, [], 0, Some k)
         | x # _ \<Rightarrow>
             if k < 4 then (1, 1, [], 0, Some (k + 1))
             else if x = 0 then (0, 1, [], 0, Some 0)
             else if room = 0 then (1, 0, [], 0, Some k)
             else (1, 1, [x], 1, Some k))"

definition mini_fresh :: "nat option \<Rightarrow> bool" where
  "mini_fresh c \<longleftrightarrow> c = Some 0"

lemma mini_contract: "frame_contract (\<lambda>_. True) mini_fresh (\<lambda>r. 1 < r) mini_decompress"
  unfolding frame_contract_def
  by (auto simp: mini_decompress_def mini_fresh_def Let_def split: if_splits list.splits option.splits)

text \<open>The encoder writes the magic, copies its input and ends with a zero byte, within the capacity.\<close>

definition mini_write :: "nat \<Rightarrow> byte list \<Rightarrow> unit option \<Rightarrow> unit lz4f_write" where
  "mini_write cap bs c = (if length bs \<le> cap then (length bs, bs, c) else (2 ^ 32, [], c))"

definition mini_lz4 :: "(unit, nat) lz4_engine" where
  "mini_lz4 =
     \<lparr>LZ4F_isError = (\<lambda>r. r \<ge> 2 ^ 32), LZ4F_getErrorCode = (\<lambda>r. 11), LZ4F_createCompressionContext = (0, Some ()),
      LZ4F_createDecompressionContext = (0, Some 0), LZ4F_resetDecompressionContext = (\<lambda>c. Some 0),
      LZ4F_compressBound = (\<lambda>n p. 8), LZ4F_compressFrameBound = (\<lambda>n p. n + 8),
      LZ4F_compressBegin = (\<lambda>c cap p. mini_write cap [0x04, 0x22, 0x4D, 0x18] c),
      LZ4F_compressUpdate = (\<lambda>c cap xs. mini_write cap xs c),
      LZ4F_flush = (\<lambda>c cap. mini_write cap [] c), LZ4F_compressEnd = (\<lambda>c cap. mini_write cap [0] c),
      LZ4F_decompress = mini_decompress,
      LZ4_compress_HC = (\<lambda>xs cap lv. (int (length xs) + 1, 0x10 # xs)),
      LZ4_compress_fast = (\<lambda>xs cap a. (int (length xs) + 1, 0x10 # xs)),
      LZ4_decompress_safe = (\<lambda>xs cap. if xs \<noteq> [] \<and> length (tl xs) \<le> cap then (int (length (tl xs)), tl xs) else (- 1, [])),
      LZ4_decompress_safe_partial = (\<lambda>xs t cap. if xs = [] then (- 1, []) else (int (min t (length (tl xs))), []))\<rparr>"

lemma mini_contracts:
  "frame_contract (\<lambda>_. True) mini_fresh (LZ4F_isError mini_lz4) (LZ4F_decompress mini_lz4)"
  "lz4f_enc_contract (\<lambda>_. True) mini_lz4"
proof -
  have "r \<le> 1" if "mini_decompress c win room = (r, u, ws, n, c')" for c win room r u ws n c'
    using that by (auto simp: mini_decompress_def Let_def split: if_splits list.splits)
  with mini_contract show "frame_contract (\<lambda>_. True) mini_fresh (LZ4F_isError mini_lz4) (LZ4F_decompress mini_lz4)"
    unfolding frame_contract_def mini_lz4_def lz4_engine.select_convs by (metis not_le)
  show "lz4f_enc_contract (\<lambda>_. True) mini_lz4"
    unfolding lz4f_enc_contract_def
  proof (intro allI impI)
    fix op c cap r ws c' assume "lz4f_call mini_lz4 op c cap = (r, ws, c')"
    then show "length ws \<le> cap \<and> (\<not> LZ4F_isError mini_lz4 r \<longrightarrow> r \<le> length ws \<and> True)"
      by (cases op) (auto simp: mini_lz4_def mini_write_def split: if_splits)
  qed
qed

definition mini_dec_opts :: zu_decoder_opts where
  "mini_dec_opts = \<lparr>do_struct_size = 32, do_codec = ZU_CODEC_LZ4_FRAME, do_max_output = 0, do_max_ratio = 0, do_flags = 3,
     do_expected_size = 0\<rparr>"

definition mini_enc_opts :: zu_encoder_opts where
  "mini_enc_opts = \<lparr>eo_struct_size = 16, eo_codec = ZU_CODEC_LZ4_FRAME, eo_level = ZU_LEVEL_DEFAULT, eo_flags = 0\<rparr>"

definition mini_decoder :: "(unit, nat) lz4_state" where
  "mini_decoder = the (snd (lz4f_decoder_new (\<lambda>_ _. True) mini_lz4 mini_dec_opts))"

definition mini_encoder :: "(unit, nat) lz4_state" where
  "mini_encoder = the (snd (lz4f_encoder_new (\<lambda>_ _. True) mini_lz4 mini_enc_opts))"

lemma mini_coders:
  "lz4f_decoder_new (\<lambda>_ _. True) mini_lz4 mini_dec_opts = (ZU_OK, Some mini_decoder)"
  "lz4f_encoder_new (\<lambda>_ _. True) mini_lz4 mini_enc_opts = (ZU_OK, Some mini_encoder)"
  by (simp_all add: mini_decoder_def mini_encoder_def lz4f_decoder_new_def lz4f_encoder_new_def mini_lz4_def Let_def)

subsection \<open>Properties\<close>

text \<open>C22: an lz4-frame encoder that reports the end of the stream, after any number of calls with any
  buffers and flush arguments, has delivered one frame: what liblz4 wrote for one begin, updates and
  flushes over exactly the bytes consumed, and one end, every staged byte included and in order.\<close>

theorem lz4f_encoder_exact:
  assumes "lz4f_enc_contract valid eng" "valid (l_cctx s0)"
    and "lz4f_encoder_new mem eng os = (ZU_OK, Some s0)"
    and "codec_run (lz4f_encoder_process eng) s0 i out s ZU_STREAM_END"
  shows "\<exists>ops c. lz4f_written eng (l_cctx s0) ops i out c \<and> lz4f_one_frame ops"
proof -
  have "lz4f_enc_at eng (l_cctx s0) s i out" "l_done s" "pending s = []"
    using lz4f_encoder_trace [where valid = valid, OF assms] by simp_all
  then show ?thesis by (auto simp: lz4f_enc_at_def lz4f_phase_def split: if_splits)
qed

definition mini_plain :: zu_buffer where
  "mini_plain = one_shot_buffer [1, 2, 3] (replicate 9 0)"

lemma mini_encoder_call:
  "case lz4f_encoder_process mini_lz4 (Some mini_encoder) mini_plain ZU_FINISH of
     Some (st, Some s', b') \<Rightarrow> st = ZU_STREAM_END \<and> consumed mini_plain b' = [1, 2, 3] \<and>
       emitted mini_plain b' = [0x04, 0x22, 0x4D, 0x18, 1, 2, 3, 0]
   | _ \<Rightarrow> False"
  by code_simp

theorem lz4f_encoder_exact_witness:
  "\<exists>ops c. lz4f_written mini_lz4 (l_cctx mini_encoder) ops [1, 2, 3] [0x04, 0x22, 0x4D, 0x18, 1, 2, 3, 0] c \<and>
    lz4f_one_frame ops"
proof -
  have wf: "buf_wf mini_plain"
    unfolding mini_plain_def by (intro one_shot_buffer_wf) (simp_all add: UINT64_MAX_def)
  from mini_encoder_call obtain s' b' where
    "lz4f_encoder_process mini_lz4 (Some mini_encoder) mini_plain ZU_FINISH = Some (ZU_STREAM_END, Some s', b')"
    and io: "consumed mini_plain b' = [1, 2, 3]" "emitted mini_plain b' = [0x04, 0x22, 0x4D, 0x18, 1, 2, 3, 0]"
    by (auto split: option.splits)
  from codec_run_one [where proc = "lz4f_encoder_process mini_lz4", OF this(1) wf] io
  have "codec_run (lz4f_encoder_process mini_lz4) mini_encoder [1, 2, 3] [0x04, 0x22, 0x4D, 0x18, 1, 2, 3, 0] s' ZU_STREAM_END"
    by simp
  from lz4f_encoder_exact [OF mini_contracts(2) TrueI mini_coders(2) this] show ?thesis .
qed

text \<open>The same exactness for the lz4-frame decoder: at the end of the stream the bytes delivered are
  those liblz4 put out while reading exactly the bytes consumed, its last call reported a complete
  frame, and at most three bytes that begin another frame's magic were taken beyond.\<close>

theorem lz4f_decoder_exact:
  assumes "frame_contract valid fresh (LZ4F_isError eng) (LZ4F_decompress eng)"
    and "lz4f_decoder_new mem eng os = (ZU_OK, Some s0)" "valid (l_dctx s0)"
    and "codec_run (lz4f_decoder_process eng) s0 i out s ZU_STREAM_END"
  shows "\<exists>i' tl c. i = i' @ tl \<and> lib_run (LZ4F_decompress eng) (LZ4F_isError eng) (l_dctx s0) i' out True c \<and>
    length tl < 4 \<and> magic_prefix ZU_INT_FRAMES_LZ4 tl \<and> (\<not> has_flag (do_flags os) ZU_DEC_CONCAT_MEMBERS \<longrightarrow> tl = [])"
  by (rule lz4f.decoder_exact [OF assms(1,3) lz4f_decoder_new_frames [OF assms(2)] assms(4)])

definition mini_frame :: "byte list" where
  "mini_frame = [0x04, 0x22, 0x4D, 0x18, 7, 0]"

definition mini_framed :: zu_buffer where
  "mini_framed = one_shot_buffer mini_frame [0]"

lemma mini_decoder_call:
  "case lz4f_decoder_process mini_lz4 (Some mini_decoder) mini_framed ZU_FINISH of
     Some (st, Some s', b') \<Rightarrow> st = ZU_STREAM_END \<and> consumed mini_framed b' = mini_frame \<and> emitted mini_framed b' = [7]
   | _ \<Rightarrow> False"
  by code_simp

theorem lz4f_decoder_exact_witness:
  "\<exists>i' tl c. mini_frame = i' @ tl \<and>
    lib_run (LZ4F_decompress mini_lz4) (LZ4F_isError mini_lz4) (l_dctx mini_decoder) i' [7] True c"
proof -
  have wf: "buf_wf mini_framed"
    unfolding mini_framed_def by (intro one_shot_buffer_wf) (simp_all add: UINT64_MAX_def mini_frame_def)
  from mini_decoder_call obtain s' b' where
    "lz4f_decoder_process mini_lz4 (Some mini_decoder) mini_framed ZU_FINISH = Some (ZU_STREAM_END, Some s', b')"
    and io: "consumed mini_framed b' = mini_frame" "emitted mini_framed b' = [7]"
    by (auto split: option.splits)
  from codec_run_one [where proc = "lz4f_decoder_process mini_lz4", OF this(1) wf] io
  have "codec_run (lz4f_decoder_process mini_lz4) mini_decoder mini_frame [7] s' ZU_STREAM_END" by simp
  from lz4f_decoder_exact [OF mini_contracts(1) mini_coders(1) TrueI this] show ?thesis by blast
qed

end
