(* ===== verification/Codec_Lz4_Block.thy ===== *)
theory Codec_Lz4_Block
  imports Codec_Lz4_Frame
begin

unbundle bit_operations_syntax

text \<open>
  The lz4-block codec of \<^verbatim>\<open>src/codec_lz4.c\<close>. A block has no length and no end marker, so both
  directions gather the input until \<^const>\<open>ZU_FINISH\<close> and work in one pass, in the caller's window
  or through the stage. The properties: whatever the buffers, what a finished encoder delivered is a
  block of exactly its input and what a finished decoder delivered is the content of exactly its
  input; the search for an unannounced size terminates, finds the size where it is within the
  limit and refuses it where it is not, and never allocates beyond the limit.
\<close>

subsection \<open>What the code relies on\<close>

text \<open>
  \<open>dec\<close> is the LZ4 block format: the content of a block, if it is one. The documentation of
  liblz4: the compressors write a block of their input; \<^verbatim>\<open>LZ4_decompress_safe\<close> succeeds exactly
  on blocks whose content fits; the partial decoder stops at its target; and a byte of a block
  yields at most 255 bytes.
\<close>

definition lz4_block_contract :: "(byte list \<Rightarrow> byte list option) \<Rightarrow> ('e, 'd) lz4_engine \<Rightarrow> bool" where
  "lz4_block_contract dec eng \<longleftrightarrow>
     (\<forall>x cap lv w ws. (LZ4_compress_HC eng x cap lv = (w, ws) \<or> LZ4_compress_fast eng x cap lv = (w, ws)) \<longrightarrow>
        length x + length x div 255 + 16 \<le> cap \<longrightarrow>
        length ws \<le> cap \<and> (0 < w \<longrightarrow> nat w \<le> length ws \<and> dec (take (nat w) ws) = Some x)) \<and>
     (\<forall>x cap r ws. LZ4_decompress_safe eng x cap = (r, ws) \<longrightarrow>
        length ws \<le> cap \<and>
        (case dec x of
           None \<Rightarrow> r < 0
         | Some d \<Rightarrow> if length d \<le> cap then r = int (length d) \<and> take (length d) ws = d else r < 0)) \<and>
     (\<forall>x cap p ws. LZ4_decompress_safe_partial eng x cap cap = (p, ws) \<longrightarrow>
        length ws \<le> cap \<and> p \<le> int cap \<and> (\<forall>d. dec x = Some d \<longrightarrow> p = int (min cap (length d)))) \<and>
     (\<forall>x d. dec x = Some d \<longrightarrow> length d \<le> 255 * length x \<and> length d \<le> INT_MAX)"

lemma lz4_compressD:
  assumes "lz4_block_contract dec eng" "zu_int_lz4b_compress eng s x cap = (w, ws)"
    and "length x + length x div 255 + 16 \<le> cap"
  shows "length ws \<le> cap" "0 < w \<Longrightarrow> nat w \<le> length ws \<and> dec (take (nat w) ws) = Some x"
proof -
  from assms(2) obtain lv where
    "LZ4_compress_HC eng x cap lv = (w, ws) \<or> LZ4_compress_fast eng x cap lv = (w, ws)"
    by (auto simp: zu_int_lz4b_compress_def Let_def split: if_splits)
  then show "length ws \<le> cap" "0 < w \<Longrightarrow> nat w \<le> length ws \<and> dec (take (nat w) ws) = Some x"
    using assms(1,3) unfolding lz4_block_contract_def by blast+
qed

lemma lz4_safeD:
  assumes "lz4_block_contract dec eng" "LZ4_decompress_safe eng x cap = (r, ws)"
  shows "length ws \<le> cap"
    and "0 \<le> r \<Longrightarrow> \<exists>d. dec x = Some d \<and> length d \<le> cap \<and> r = int (length d) \<and> take (length d) ws = d \<and> length d \<le> length ws"
    and "dec x = Some d \<Longrightarrow> length d \<le> cap \<Longrightarrow> r = int (length d)"
proof -
  from assms have "length ws \<le> cap \<and>
      (case dec x of
         None \<Rightarrow> r < 0
       | Some d \<Rightarrow> if length d \<le> cap then r = int (length d) \<and> take (length d) ws = d else r < 0)"
    unfolding lz4_block_contract_def by blast
  then show "length ws \<le> cap"
    "0 \<le> r \<Longrightarrow> \<exists>d. dec x = Some d \<and> length d \<le> cap \<and> r = int (length d) \<and> take (length d) ws = d \<and> length d \<le> length ws"
    "dec x = Some d \<Longrightarrow> length d \<le> cap \<Longrightarrow> r = int (length d)"
    by (auto split: option.splits if_splits) (metis length_take min.cobounded1)
qed

lemma lz4_partialD:
  assumes "lz4_block_contract dec eng" "LZ4_decompress_safe_partial eng x cap cap = (p, ws)"
  shows "length ws \<le> cap" "p \<le> int cap" "dec x = Some d \<Longrightarrow> p = int (min cap (length d))"
  using assms unfolding lz4_block_contract_def by blast+

lemma lz4_blockD:
  "lz4_block_contract dec eng \<Longrightarrow> \<forall>x d. dec x = Some d \<longrightarrow> length d \<le> 255 * length x \<and> length d \<le> INT_MAX"
  unfolding lz4_block_contract_def by (elim conjE)

subsection \<open>The invariant and the trace\<close>

text \<open>Before a block is done nothing is staged.\<close>

definition block_ok :: "('e, 'd) lz4_state \<Rightarrow> bool" where
  "block_ok s \<longleftrightarrow> stage_ok s \<and> length (l_in s) = l_in_cap s \<and> l_in_len s \<le> l_in_cap s \<and>
     l_in_len s \<le> LZ4_MAX_INPUT_SIZE \<and> l_in_cap s \<le> SIZE_MAX \<and>
     (\<not> l_done s \<longrightarrow> l_stage_pos s = 0 \<and> l_stage_len s = 0)"

text \<open>Before the block is done nothing was delivered and everything consumed is gathered; afterwards
  the bytes delivered and those still staged are the result for the bytes consumed.\<close>

definition block_at ::
  "(byte list \<Rightarrow> byte list \<Rightarrow> bool) \<Rightarrow> ('e, 'd) lz4_state \<Rightarrow> byte list \<Rightarrow> byte list \<Rightarrow> bool" where
  "block_at R s i out \<longleftrightarrow>
     (if l_done s then R i (out @ pending s) else out = [] \<and> i = lz4b_gathered s)"

definition block_kept ::
  "(byte list \<Rightarrow> byte list \<Rightarrow> bool) \<Rightarrow> ('e, 'd) lz4_state \<Rightarrow> zu_buffer \<Rightarrow> zu_status \<Rightarrow> ('e, 'd) lz4_state \<Rightarrow> zu_buffer \<Rightarrow> bool" where
  "block_kept R s b st s' b' \<longleftrightarrow> buf_adv b b' \<and> block_ok s' \<and>
     (is_progress st \<longrightarrow>
        (\<forall>i out. block_at R s i out \<longrightarrow> block_at R s' (i @ consumed b b') (out @ emitted b b')) \<and>
        (st = ZU_STREAM_END \<longrightarrow> l_done s' \<and> pending s' = []) \<and> names st b')"

lemma block_kept_error:
  "buf_adv b b' \<Longrightarrow> block_ok s' \<Longrightarrow> \<not> is_progress st \<Longrightarrow> block_kept R s b st s' b'"
  by (simp add: block_kept_def)

text \<open>Gathering takes everything that is offered, or nothing.\<close>

lemma gather_ok:
  assumes g: "zu_int_lz4b_gather mem s b = (st, s', b')" and ok: "block_ok s" and wf: "buf_wf b"
  shows "block_ok s'" "buf_adv b b'" "emitted b b' = []" "l_done s' = l_done s" "pending s' = pending s"
    "l_max_output s' = l_max_output s" "st = ZU_OK \<or> \<not> is_progress st"
    "st = ZU_OK \<Longrightarrow> lz4b_gathered s' = lz4b_gathered s @ consumed b b' \<and> avail_in b' = 0"
    "l_stage_cap s' = l_stage_cap s" "avail_out b' = avail_out b"
proof -
  let ?goal = "block_ok s' \<and> buf_adv b b' \<and> emitted b b' = [] \<and> l_done s' = l_done s \<and> pending s' = pending s \<and>
    l_max_output s' = l_max_output s \<and> (st = ZU_OK \<or> \<not> is_progress st) \<and>
    (st = ZU_OK \<longrightarrow> lz4b_gathered s' = lz4b_gathered s @ consumed b b' \<and> avail_in b' = 0) \<and>
    l_stage_cap s' = l_stage_cap s \<and> avail_out b' = avail_out b"
  have len: "length (in_window b) = avail_in b" by (rule in_window_length [OF wf])
  have still: ?goal if "(st, s', b') = (e, s, b)" "\<not> is_progress e \<or> e = ZU_OK \<and> avail_in b = 0" for e
    using that ok wf by auto
  have append: ?goal
    if a: "(st, s', b') = lz4b_append (s\<lparr>l_in := m, l_in_cap := k\<rparr>) b"
      and m: "length m = k" "take (l_in_len s) m = lz4b_gathered s" "l_in_len s + avail_in b \<le> k" "k \<le> SIZE_MAX"
      and mx: "l_in_len s + avail_in b \<le> LZ4_MAX_INPUT_SIZE" for m k
  proof -
    have s': "s' = s\<lparr>l_in := write_at m (l_in_len s) (in_window b), l_in_cap := k, l_in_len := l_in_len s + avail_in b\<rparr>"
      "st = ZU_OK" "b' = skip_in (avail_in b) b"
      using a by (simp_all add: lz4b_append_def)
    have io: "buf_adv b b'" "consumed b b' = in_window b" "emitted b b' = []"
      using skip_in_adv [OF wf order_refl] skip_in_seg [OF wf order_refl] len
      by (simp_all add: s'(3) skip_in_consumed skip_in_emitted)
    have "take (l_in_len s + avail_in b) (write_at m (l_in_len s) (in_window b)) = take (l_in_len s) m @ in_window b"
      using m(1,3) len by (simp add: write_at_def)
    then have "lz4b_gathered s' = lz4b_gathered s @ consumed b b'" using m(2) io(2) by (simp add: lz4b_gathered_def s'(1))
    moreover have "length (write_at m (l_in_len s) (in_window b)) = k" using m(1,3) len by simp
    then have "block_ok s'" using ok m mx by (simp add: block_ok_def stage_ok_def s'(1))
    moreover have "avail_in b' = 0" using adv_room(1) [OF wf io(1)] io(2) len by simp
    moreover have "avail_out b' = avail_out b" using adv_room(2) [OF wf io(1)] io(3) by simp
    ultimately show ?thesis using io by (simp add: s'(1,2) pending_def)
  qed
  have in_ok: "length (l_in s) = l_in_cap s" "l_in_len s \<le> l_in_cap s" "l_in_cap s \<le> SIZE_MAX" "l_in_len s \<le> SIZE_MAX"
    using ok by (auto simp: block_ok_def)
  have ?goal
  proof (cases "avail_in b = 0")
    case True
    with g have "(st, s', b') = (ZU_OK, s, b)" by (simp add: zu_int_lz4b_gather_def)
    then show ?thesis by (rule still) (simp add: True)
  next
    case av: False
    show ?thesis
    proof (cases "l_in_len s + avail_in b \<le> SIZE_MAX")
      case False
      with g av in_ok(4) have "(st, s', b') = (ZU_ERR_MEMORY, s, b)" by (simp add: zu_int_lz4b_gather_def zu_int_add_cases)
      then show ?thesis by (rule still) simp
    next
      case sz: True
      let ?need = "l_in_len s + avail_in b"
      note add = zu_int_add_cases [OF in_ok(4), of "avail_in b", unfolded if_P [OF sz]]
      show ?thesis
      proof (cases "?need \<le> LZ4_MAX_INPUT_SIZE")
        case False
        with g av add have "(st, s', b') = (if l_encoder s then ZU_ERR_INVALID_ARGUMENT else ZU_ERR_INVALID_DATA, s, b)"
          by (auto simp: zu_int_lz4b_gather_def)
        then show ?thesis by (rule still) simp_all
      next
        case mx: True
        show ?thesis
        proof (cases "?need \<le> l_in_cap s")
          case True
          with g av add mx have "(st, s', b') = lz4b_append s b" by (simp add: zu_int_lz4b_gather_def)
          then show ?thesis using True in_ok mx
            by (intro append [where m = "l_in s" and k = "l_in_cap s"]) (simp_all add: lz4b_gathered_def)
        next
          case gr: False
          obtain gst nx where e: "zu_int_grow (l_in_cap s) (?need - l_in_cap s) = (gst, nx)" by fastforce
          have "l_in_cap s + (?need - l_in_cap s) = ?need" using gr by simp
          then have gs: "gst = ZU_OK" "\<exists>n. nx = Some n"
            using zu_int_grow_cases [OF in_ok(3), of "?need - l_in_cap s"] e sz by auto
          then obtain n where n: "nx = Some n" by blast
          have bounds: "?need \<le> n" "n \<le> SIZE_MAX"
            using zu_int_grow_OK [OF in_ok(3) e [unfolded gs(1) n]] gr by simp_all
          show ?thesis
          proof (cases "mem ''lz4 input'' n")
            case False
            with g av add mx gr e n gs(1) have "(st, s', b') = (ZU_ERR_MEMORY, s, b)" by (simp add: zu_int_lz4b_gather_def)
            then show ?thesis by (rule still) simp
          next
            case True
            with g av add mx gr e n gs(1) have "(st, s', b') = lz4b_append (s\<lparr>l_in := resize n (l_in s), l_in_cap := n\<rparr>) b"
              by (simp add: zu_int_lz4b_gather_def)
            moreover have "length (resize n (l_in s)) = n" using gr bounds in_ok by (simp add: resize_def)
            moreover have "take (l_in_len s) (resize n (l_in s)) = lz4b_gathered s"
              using in_ok(1,2) bounds(1) by (simp add: resize_def lz4b_gathered_def min_def)
            ultimately show ?thesis using bounds mx by (intro append [where m = "resize n (l_in s)" and k = n])
          qed
        qed
      qed
    qed
  qed
  then show "block_ok s'" "buf_adv b b'" "emitted b b' = []" "l_done s' = l_done s" "pending s' = pending s"
    "l_max_output s' = l_max_output s" "st = ZU_OK \<or> \<not> is_progress st"
    "st = ZU_OK \<Longrightarrow> lz4b_gathered s' = lz4b_gathered s @ consumed b b' \<and> avail_in b' = 0"
    "l_stage_cap s' = l_stage_cap s" "avail_out b' = avail_out b" by simp_all
qed

lemma stage_call_ok:
  assumes g: "zu_int_lz4b_stage mem s n = (st, s')" and ok: "block_ok s"
  shows "block_ok s'" "lz4b_gathered s' = lz4b_gathered s" "l_done s' = l_done s" "l_max_output s' = l_max_output s"
    "st = ZU_OK \<Longrightarrow> n \<le> l_stage_cap s'" "st = ZU_OK \<or> st = ZU_ERR_MEMORY" "l_in_len s' = l_in_len s"
    "l_stage_cap s' \<le> max (l_stage_cap s) n" "mem ''lz4 stage'' n \<Longrightarrow> st = ZU_OK"
proof -
  have "length (l_stage s) = l_stage_cap s" "l_stage_pos s \<le> l_stage_len s" "l_stage_len s \<le> l_stage_cap s"
    using ok by (simp_all add: block_ok_def stage_ok_def)
  then show "block_ok s'" "lz4b_gathered s' = lz4b_gathered s" "l_done s' = l_done s" "l_max_output s' = l_max_output s"
    "st = ZU_OK \<Longrightarrow> n \<le> l_stage_cap s'" "st = ZU_OK \<or> st = ZU_ERR_MEMORY" "l_in_len s' = l_in_len s"
    "l_stage_cap s' \<le> max (l_stage_cap s) n" "mem ''lz4 stage'' n \<Longrightarrow> st = ZU_OK"
    using g ok by (auto simp: zu_int_lz4b_stage_def block_ok_def stage_ok_def resize_def lz4b_gathered_def split: if_splits)
qed

subsection \<open>Delivering the result\<close>

lemma drain_block:
  assumes d: "zu_int_lz4_drain s b = (dr, s', b')" and ok: "block_ok s" and wf: "buf_wf b" and dn: "l_done s"
  shows "buf_adv b b'" "block_ok s'" "consumed b b' = []" "emitted b b' @ pending s' = pending s"
    "dr \<longleftrightarrow> pending s' = []" "l_done s' = l_done s" "\<not> dr \<Longrightarrow> avail_out b' = 0"
proof -
  have so: "stage_ok s" using ok by (simp add: block_ok_def)
  obtain p l where "s' = s\<lparr>l_stage_pos := p, l_stage_len := l\<rparr>" "stage_ok s'" "buf_adv b b'" "consumed b b' = []"
    "emitted b b' @ pending s' = pending s" "dr \<longleftrightarrow> pending s' = []" "\<not> dr \<Longrightarrow> avail_out b' = 0"
    using drain_ok [OF d so wf] by metis
  with ok dn show "buf_adv b b'" "block_ok s'" "consumed b b' = []" "emitted b b' @ pending s' = pending s"
    "dr \<longleftrightarrow> pending s' = []" "l_done s' = l_done s" "\<not> dr \<Longrightarrow> avail_out b' = 0"
    by (simp_all add: block_ok_def)
qed

lemma done_kept:
  assumes e: "lz4b_done s b = (st, s', b')" and ok: "block_ok s" and wf: "buf_wf b" and dn: "l_done s"
  shows "block_kept R s b st s' b'"
proof -
  obtain dr s1 b1 where d: "zu_int_lz4_drain s b = (dr, s1, b1)" by (metis prod_cases3)
  note k = drain_block [OF d ok wf dn]
  have r: "st = (if dr then ZU_STREAM_END else ZU_NEED_OUTPUT)" "s' = s1" "b' = b1"
    using e d by (simp_all add: lz4b_done_def)
  have "names (if dr then ZU_STREAM_END else ZU_NEED_OUTPUT) b1" using k(7) by (simp add: names_def)
  then show ?thesis using k(1-6) dn unfolding block_kept_def block_at_def r by (auto simp flip: k(4) split: if_splits)
qed

text \<open>The staged result \<open>res\<close> for the gathered input.\<close>

lemma finish_kept:
  assumes e: "lz4b_finish (s\<lparr>l_stage_len := n\<rparr>) b = (st, s', b')" and wf: "buf_wf b" and ok: "block_ok s"
    and sl: "n \<le> l_stage_cap s" and res: "take n (l_stage s) = res" and r: "R (lz4b_gathered s) res"
    and nd: "\<not> l_done s"
  shows "block_kept R s b st s' b'"
proof -
  let ?s = "s\<lparr>l_stage_len := n, l_stage_pos := 0, l_done := True, l_in := [], l_in_cap := 0, l_in_len := 0\<rparr>"
  have ok1: "block_ok ?s" using ok sl by (simp add: block_ok_def stage_ok_def)
  have pe: "pending ?s = res" using res by (simp add: pending_def seg_def)
  obtain dr s1 b1 where d: "zu_int_lz4_drain ?s b = (dr, s1, b1)" by (metis prod_cases3)
  have dn: "l_done ?s" by simp
  note k = drain_block [OF d ok1 wf dn]
  have q: "st = (if dr then ZU_STREAM_END else ZU_NEED_OUTPUT)" "s' = s1" "b' = b1"
    using e d by (simp_all add: lz4b_finish_def)
  have "l_done s1" using k(6) by simp
  moreover have "emitted b b1 @ pending s1 = res" using k(4) pe by simp
  moreover have "names (if dr then ZU_STREAM_END else ZU_NEED_OUTPUT) b1" using k(7) by (simp add: names_def)
  ultimately show ?thesis using k(1,2,3,5) nd r unfolding block_kept_def block_at_def q by auto
qed

lemma block_kept_after:
  assumes g: "block_ok s1" "buf_adv b b1" "emitted b b1 = []" "l_done s1 = l_done s"
    "lz4b_gathered s1 = lz4b_gathered s @ consumed b b1"
    and nd: "\<not> l_done s" and k: "block_kept R s1 b1 st s' b'"
  shows "block_kept R s b st s' b'"
proof -
  have a: "buf_adv b1 b'" using k by (simp add: block_kept_def)
  have "block_at R s1 (i @ consumed b b1) out" if "block_at R s i out" for i out
    using that g nd by (simp add: block_at_def)
  then show ?thesis using k buf_adv_trans [OF g(2) a] g(3)
    unfolding block_kept_def consumed_trans [OF g(2) a] emitted_trans [OF g(2) a] by (simp flip: append_assoc)
qed

lemma collect_kept:
  assumes e: "lz4b_collect mem s b = (st, s', b')" and ok: "block_ok s" and wf: "buf_wf b" and nd: "\<not> l_done s"
  shows "block_kept R s b st s' b'"
proof -
  obtain gs s1 b1 where g: "zu_int_lz4b_gather mem s b = (gs, s1, b1)" by (metis prod_cases3)
  note k = gather_ok [OF g ok wf]
  have r: "st = (if gs \<noteq> ZU_OK then gs else ZU_NEED_INPUT)" "s' = s1" "b' = b1"
    using e g by (simp_all add: lz4b_collect_def)
  have "names (if gs \<noteq> ZU_OK then gs else ZU_NEED_INPUT) b1" using k(7,8) by (auto simp: names_def)
  then show ?thesis using k nd unfolding block_kept_def block_at_def r by auto
qed

text \<open>A result staged after the input was gathered.\<close>

lemma staged_kept:
  assumes g: "zu_int_lz4b_gather mem s b = (ZU_OK, s1, b1)" and ok: "block_ok s" and wf: "buf_wf b" and nd: "\<not> l_done s"
    and s3: "block_ok s3" "lz4b_gathered s3 = lz4b_gathered s1" "l_done s3 = l_done s1"
    and n: "n \<le> l_stage_cap s3" and r: "R (lz4b_gathered s1) (take n (l_stage s3))"
    and f: "lz4b_finish (s3\<lparr>l_stage_len := n\<rparr>) b1 = (st, s', b')"
  shows "block_kept R s b st s' b'"
proof -
  note k = gather_ok [OF g ok wf]
  have wf1: "buf_wf b1" using k(2) wf by (rule buf_adv_wf [rotated])
  have "block_kept R s3 b1 st s' b'"
    using s3(2,3) r nd k(4) by (intro finish_kept [OF f wf1 s3(1) n refl]) simp_all
  then show ?thesis
    using s3 k(2,3,4,8) nd by (intro block_kept_after [where s = s and b = b and ?s1.0 = s3 and ?b1.0 = b1]) simp_all
qed

text \<open>One pass in the caller's window.\<close>

lemma direct_kept:
  assumes wf: "buf_wf b" and ok: "block_ok s" and nd: "\<not> l_done s" and z: "l_in_len s = 0"
    and ws: "length ws \<le> avail_out b" "n \<le> length ws" and r: "R (in_window b) (take n ws)"
  shows "block_kept R s b ZU_STREAM_END (s\<lparr>l_done := True\<rparr>) (advance (avail_in b) n (write_out ws b))"
proof -
  note mv = advance_moves [OF wf order_refl ws]
  have "consumed b (advance (avail_in b) n (write_out ws b)) = in_window b"
    using mv(2) in_window_length [OF wf] by simp
  then show ?thesis using mv(1,3) ok nd z r
    by (simp add: block_kept_def block_at_def lz4b_gathered_def block_ok_def stage_ok_def pending_def names_def)
qed

subsection \<open>The encoder\<close>

lemma compress_bound_pos: "n \<le> LZ4_MAX_INPUT_SIZE \<Longrightarrow> nat (LZ4_compressBound n) = n + n div 255 + 16"
  by (simp add: LZ4_compressBound_def)

lemma stage_write_ok:
  assumes ok: "block_ok s" and ws: "length ws \<le> l_stage_cap s"
  shows "block_ok (s\<lparr>l_stage := write_at (l_stage s) 0 ws\<rparr>)"
  using ok ws by (simp add: block_ok_def stage_ok_def)

lemma encode_kept:
  assumes c: "lz4_block_contract dec eng" and e: "lz4b_encode mem eng s b flush = (st, s', b')"
    and ok: "block_ok s" and wf: "buf_wf b"
  shows "block_kept (\<lambda>i out. dec out = Some i) s b st s' b'"
proof -
  let ?R = "\<lambda>i out. dec out = Some i"
  have len: "length (in_window b) = avail_in b" by (rule in_window_length [OF wf])
  let ?C = "l_in_len s = 0 \<and> avail_in b \<le> LZ4_MAX_INPUT_SIZE \<and> LZ4_compressBound (avail_in b) > 0 \<and>
      avail_out b \<ge> nat (LZ4_compressBound (avail_in b))"
  have enc: "lz4b_encode mem eng s b flush =
      (if ?C then lz4b_encode_direct eng s b (nat (LZ4_compressBound (avail_in b))) else lz4b_encode_staged mem eng s b)"
    if "\<not> l_done s" "flush = ZU_FINISH"
    using that by (simp add: lz4b_encode_def)
  consider (over) "l_done s" | (collect) "\<not> l_done s" "flush \<noteq> ZU_FINISH"
    | (direct) "\<not> l_done s" "flush = ZU_FINISH" "l_in_len s = 0" "avail_in b \<le> LZ4_MAX_INPUT_SIZE"
        "avail_out b \<ge> nat (LZ4_compressBound (avail_in b))"
        "lz4b_encode mem eng s b flush = lz4b_encode_direct eng s b (nat (LZ4_compressBound (avail_in b)))"
    | (staged) "\<not> l_done s" "lz4b_encode mem eng s b flush = lz4b_encode_staged mem eng s b"
    using enc by (cases ?C) auto
  then show ?thesis
  proof cases
    case over
    with e have "lz4b_done s b = (st, s', b')" by (simp add: lz4b_encode_def)
    then show ?thesis by (rule done_kept [OF _ ok wf over])
  next
    case collect
    with e have "lz4b_collect mem s b = (st, s', b')" by (simp add: lz4b_encode_def)
    then show ?thesis by (rule collect_kept [OF _ ok wf collect(1)])
  next
    case direct
    obtain w ws where cw: "zu_int_lz4b_compress eng s (in_window b) (nat (LZ4_compressBound (avail_in b))) = (w, ws)"
      by fastforce
    have cap: "length (in_window b) + length (in_window b) div 255 + 16 \<le> nat (LZ4_compressBound (avail_in b))"
      using compress_bound_pos [OF direct(4)] len by simp
    note cd = lz4_compressD [OF c cw cap]
    have lw: "length ws \<le> avail_out b" using cd(1) direct(5) by simp
    show ?thesis
    proof (cases "w \<le> 0")
      case True
      with e direct(6) cw have "st = ZU_ERR_INTERNAL" "s' = s" "b' = write_out ws b"
        by (simp_all add: lz4b_encode_direct_def Let_def)
      with write_out_adv [OF wf lw] ok show ?thesis by (simp add: block_kept_def)
    next
      case False
      with e direct(6) cw have r: "st = ZU_STREAM_END" "s' = s\<lparr>l_done := True\<rparr>"
        "b' = advance (avail_in b) (nat w) (write_out ws b)"
        by (simp_all add: lz4b_encode_direct_def Let_def)
      show ?thesis unfolding r using cd(2) False
        by (intro direct_kept [OF wf ok direct(1,3) lw]) simp_all
    qed
  next
    case staged
    obtain gs s1 b1 where g: "zu_int_lz4b_gather mem s b = (gs, s1, b1)" by (metis prod_cases3)
    note k = gather_ok [OF g ok wf]
    have wf1: "buf_wf b1" using k(2) wf by (rule buf_adv_wf [rotated])
    show ?thesis
    proof (cases "gs = ZU_OK")
      case False
      with e staged g have "st = gs" "s' = s1" "b' = b1" by (simp_all add: lz4b_encode_staged_def)
      with k False show ?thesis by (simp add: block_kept_def)
    next
      case gok: True
      have n1: "l_in_len s1 \<le> LZ4_MAX_INPUT_SIZE" using k(1) by (simp add: block_ok_def)
      note bd = compress_bound_pos [OF n1]
      have bp: "\<not> LZ4_compressBound (l_in_len s1) \<le> 0" using n1 by (simp add: LZ4_compressBound_def)
      obtain gs2 s2 where g2: "zu_int_lz4b_stage mem s1 (nat (LZ4_compressBound (l_in_len s1))) = (gs2, s2)" by fastforce
      note k2 = stage_call_ok [OF g2 k(1)]
      have err: "block_kept ?R s b st s' b'" if "b' = b1" "block_ok s'" "\<not> is_progress st"
        using that k(2) by (simp add: block_kept_def)
      show ?thesis
      proof (cases "gs2 = ZU_OK")
        case False
        with e staged g gok bp g2 have "st = gs2" "s' = s2" "b' = b1" by (simp_all add: lz4b_encode_staged_def Let_def)
        with k2(1,6) False show ?thesis by (intro err) auto
      next
        case g2ok: True
        obtain w ws where cw: "zu_int_lz4b_compress eng s2 (lz4b_gathered s2) (nat (LZ4_compressBound (l_in_len s1))) = (w, ws)"
          by fastforce
        have gl: "length (lz4b_gathered s2) = l_in_len s1"
          using k2(1,7) by (simp add: lz4b_gathered_def block_ok_def)
        have cap: "length (lz4b_gathered s2) + length (lz4b_gathered s2) div 255 + 16 \<le> nat (LZ4_compressBound (l_in_len s1))"
          using bd gl by simp
        note cd = lz4_compressD [OF c cw cap]
        have lw: "length ws \<le> l_stage_cap s2" using cd(1) k2(5) [OF g2ok] by simp
        let ?s3 = "s2\<lparr>l_stage := write_at (l_stage s2) 0 ws\<rparr>"
        have ok3: "block_ok ?s3" by (rule stage_write_ok [OF k2(1) lw])
        show ?thesis
        proof (cases "w \<le> 0")
          case True
          with e staged g gok bp g2 g2ok cw have "st = ZU_ERR_INTERNAL" "s' = ?s3" "b' = b1"
            by (simp_all add: lz4b_encode_staged_def Let_def)
          with ok3 show ?thesis by (intro err) simp_all
        next
          case False
          note cd2 = cd(2) [OF False [unfolded not_le]]
          have f: "lz4b_finish (?s3\<lparr>l_stage_len := nat w\<rparr>) b1 = (st, s', b')"
            using e staged g gok bp g2 g2ok cw False by (simp add: lz4b_encode_staged_def Let_def)
          have tk: "take (nat w) (l_stage ?s3) = take (nat w) ws"
            using cd2 by (simp add: write_at_def)
          have "nat w \<le> l_stage_cap ?s3" using cd2 lw by simp
          moreover have "dec (take (nat w) (l_stage ?s3)) = Some (lz4b_gathered s1)"
            using cd2 k2(2) unfolding tk by simp
          ultimately show ?thesis using k2(2,3)
            by (intro staged_kept [OF g [unfolded gok] ok wf staged(1) ok3 _ _ _ _ f]) (simp_all add: lz4b_gathered_def)
        qed
      qed
    qed
  qed
qed

subsection \<open>The search for the size\<close>

lemma lz4b_ceiling_cases:
  assumes "lz4b_ceiling s = (c, lim)"
  shows "c \<le> INT_MAX"
    and "lim \<Longrightarrow> l_max_output s \<noteq> 0 \<and> c = l_max_output s"
    and "\<not> lim \<Longrightarrow> c = min INT_MAX (255 * l_in_len s + 64) \<and> (l_max_output s \<noteq> 0 \<longrightarrow> c \<le> l_max_output s)"
proof -
  let ?n = "l_in_len s"
  have big: "INT_MAX \<le> SIZE_MAX" by (simp add: INT_MAX_def UINT64_MAX_def)
  have "(case zu_int_mul ?n 255 of
          (st, None) \<Rightarrow> INT_MAX
        | (st, Some a) \<Rightarrow> (case zu_int_add a 64 of
             (st, None) \<Rightarrow> INT_MAX | (st, Some c) \<Rightarrow> if c > INT_MAX then INT_MAX else c)) = min INT_MAX (255 * ?n + 64)"
    using big by (simp add: zu_int_mul_cases zu_int_add_cases mult.commute min_def)
  with assms show "c \<le> INT_MAX" "lim \<Longrightarrow> l_max_output s \<noteq> 0 \<and> c = l_max_output s"
    "\<not> lim \<Longrightarrow> c = min INT_MAX (255 * l_in_len s + 64) \<and> (l_max_output s \<noteq> 0 \<longrightarrow> c \<le> l_max_output s)"
    by (auto simp: lz4b_ceiling_def Let_def not_less split: if_splits)
qed

text \<open>What the loop keeps of the state it was called with.\<close>

definition search_kept :: "('e, 'd) lz4_state \<Rightarrow> nat \<Rightarrow> ('e, 'd) lz4_state \<Rightarrow> bool" where
  "search_kept s ceiling s' \<longleftrightarrow> block_ok s' \<and> lz4b_gathered s' = lz4b_gathered s \<and> l_done s' = l_done s \<and>
     l_stage_cap s' \<le> max (l_stage_cap s) ceiling"

lemma search_kept_write:
  assumes "search_kept s ceiling s'" "length ws \<le> cap" "cap \<le> l_stage_cap s'"
  shows "search_kept s ceiling (lz4b_stage_write cap ws s')"
  using assms by (auto simp: search_kept_def lz4b_stage_write_def block_ok_def stage_ok_def lz4b_gathered_def)

lemma stage_write_take:
  "length ws \<le> cap \<Longrightarrow> n \<le> length ws \<Longrightarrow> take n (l_stage (lz4b_stage_write cap ws s)) = take n ws"
  by (cases "cap = 0") (auto simp: lz4b_stage_write_def write_at_def)

lemma stage_write_cap [simp]: "l_stage_cap (lz4b_stage_write cap ws s) = l_stage_cap s"
  by (simp add: lz4b_stage_write_def)

definition search_result ::
  "alloc \<Rightarrow> (byte list \<Rightarrow> byte list option) \<Rightarrow> ('e, 'd) lz4_state \<Rightarrow> nat \<Rightarrow> bool \<Rightarrow> zu_status \<times> nat \<times> ('e, 'd) lz4_state \<Rightarrow> bool" where
  "search_result mem dec s ceiling lim q \<longleftrightarrow>
     (case q of (st, n, s') \<Rightarrow>
        search_kept s ceiling s' \<and> (st = ZU_OK \<or> \<not> is_progress st) \<and>
        (st = ZU_OK \<longrightarrow> dec (lz4b_gathered s) = Some (take n (l_stage s')) \<and> n \<le> l_stage_cap s' \<and> n \<le> ceiling) \<and>
        ((\<forall>k. mem ''lz4 stage'' k) \<longrightarrow>
           (case dec (lz4b_gathered s) of
              None \<Rightarrow> st \<noteq> ZU_OK
            | Some d \<Rightarrow> st = (if length d \<le> ceiling then ZU_OK else if lim then ZU_ERR_OUTPUT_LIMIT else ZU_ERR_INVALID_DATA))))"

lemma search_turn:
  assumes c: "lz4_block_contract dec eng" and k: "search_kept s ceiling s1" and cap: "cap \<le> ceiling" "cap = ceiling \<or> 0 < cap"
  shows "case lz4b_search_step mem eng ceiling lim (s1, cap) of
      Ret q \<Rightarrow> search_result mem dec s ceiling lim q
    | Next (s2, cap') \<Rightarrow> search_kept s ceiling s2 \<and> cap' \<le> ceiling \<and> 0 < cap' \<and> cap < cap'"
proof -
  obtain gs s2 where g: "zu_int_lz4b_stage mem s1 cap = (gs, s2)" by fastforce
  have ok1: "block_ok s1" using k by (simp add: search_kept_def)
  note sc = stage_call_ok [OF g ok1]
  have k2: "search_kept s ceiling s2"
    using k sc cap(1) by (simp add: search_kept_def) (meson le_trans max.boundedI max.cobounded1 max.cobounded2 max.bounded_iff)
  show ?thesis
  proof (cases "gs = ZU_OK")
    case False
    with g k2 sc(6,9) show ?thesis by (auto simp: lz4b_search_step_def search_result_def)
  next
    case gok: True
    note cp = sc(5) [OF gok]
    obtain r ws where r: "LZ4_decompress_safe eng (lz4b_gathered s2) cap = (r, ws)" by fastforce
    note sd = lz4_safeD [OF c r]
    let ?s3 = "lz4b_stage_write cap ws s2"
    have k3: "search_kept s ceiling ?s3" by (rule search_kept_write [OF k2 sd(1) cp])
    have gs3: "lz4b_gathered ?s3 = lz4b_gathered s" "lz4b_gathered s2 = lz4b_gathered s"
      using k2 k3 by (simp_all add: search_kept_def)
    show ?thesis
    proof (cases "0 \<le> r")
      case True
      then obtain d where d: "dec (lz4b_gathered s) = Some d" "length d \<le> cap" "r = int (length d)" "take (length d) ws = d"
        "length d \<le> length ws" using sd(2) gs3(2) by auto
      have "take (length d) (l_stage ?s3) = d" using stage_write_take [OF sd(1) d(5), of s2] d(4) by simp
      moreover have "length d \<le> l_stage_cap ?s3" "length d \<le> ceiling" using d(2) cp cap(1) by simp_all
      ultimately show ?thesis using g gok r True d k3 by (simp add: lz4b_search_step_def search_result_def)
    next
      case neg: False
      obtain p ws' where p: "LZ4_decompress_safe_partial eng (lz4b_gathered ?s3) cap cap = (p, ws')" by fastforce
      note pd = lz4_partialD [OF c p]
      let ?s4 = "lz4b_stage_write cap ws' ?s3"
      have k4: "search_kept s ceiling ?s4" using search_kept_write [OF k3 pd(1)] cp by simp
      have longer: "cap < length d \<and> p = int cap" if "dec (lz4b_gathered s) = Some d" for d
      proof -
        have "cap < length d" using sd(3) [of d] that gs3(2) neg by (cases "length d \<le> cap") simp_all
        then show ?thesis using pd(3) [of d] that gs3(1) by simp
      qed
      have step: "lz4b_search_step mem eng ceiling lim (s1, cap) =
          (if p < 0 \<or> nat p < cap then Ret (ZU_ERR_INVALID_DATA, 0, ?s4)
           else if cap \<ge> ceiling then Ret (if lim then ZU_ERR_OUTPUT_LIMIT else ZU_ERR_INVALID_DATA, 0, ?s4)
           else Next (?s4, if cap > ceiling div 4 then ceiling else cap * 4))"
        using g gok r neg p by (simp add: lz4b_search_step_def Let_def)
      consider "p < 0 \<or> nat p < cap" | "\<not> (p < 0 \<or> nat p < cap)" "ceiling \<le> cap" | "\<not> (p < 0 \<or> nat p < cap)" "cap < ceiling"
        by linarith
      then show ?thesis
      proof cases
        case 1
        have "dec (lz4b_gathered s) = None"
          using longer 1 by (cases "dec (lz4b_gathered s)") fastforce+
        with 1 step k4 show ?thesis by (simp add: search_result_def)
      next
        case 2
        have "ceiling < length d" if "dec (lz4b_gathered s) = Some d" for d using longer [OF that] cap(1) 2(2) by simp
        with 2 step k4 show ?thesis by (cases "dec (lz4b_gathered s)") (simp_all add: search_result_def not_le)
      next
        case 3
        with step k4 cap show ?thesis by auto
      qed
    qed
  qed
qed

lemma search_ok:
  assumes c: "lz4_block_contract dec eng" and ok: "block_ok s" and ce: "lz4b_ceiling s = (ceiling, lim)"
  shows "\<exists>q. zu_int_lz4b_search mem eng s = Some q \<and> search_result mem dec s ceiling lim q"
proof -
  let ?I = "\<lambda>(s1, cap). search_kept s ceiling s1 \<and> cap \<le> ceiling \<and> (cap = ceiling \<or> 0 < cap)"
  have "\<exists>q. run_loop (\<lambda>x. Some (lz4b_search_step mem eng ceiling lim x)) (s, lz4b_first_cap (l_in_len s) ceiling) = Some q \<and>
      search_result mem dec s ceiling lim q"
  proof (rule run_loop_measure [where I = ?I and m = "\<lambda>(s, cap). ceiling - cap"])
    show "?I (s, lz4b_first_cap (l_in_len s) ceiling)"
      using ok by (auto simp: search_kept_def lz4b_first_cap_def Let_def)
  next
    fix x :: "('a, 'b) lz4_state \<times> nat" assume "?I x"
    then obtain s1 cap where x: "x = (s1, cap)" and i: "search_kept s ceiling s1" "cap \<le> ceiling" "cap = ceiling \<or> 0 < cap"
      by (cases x) simp
    note t = search_turn [OF c i, of mem lim]
    show "(\<exists>r. Some (lz4b_search_step mem eng ceiling lim x) = Some (Ret r) \<and> search_result mem dec s ceiling lim r) \<or>
        (\<exists>y. Some (lz4b_search_step mem eng ceiling lim x) = Some (Next y) \<and> ?I y \<and>
          (case y of (s, cap) \<Rightarrow> ceiling - cap) < (case x of (s, cap) \<Rightarrow> ceiling - cap))"
    proof (cases "lz4b_search_step mem eng ceiling lim (s1, cap)")
      case (Ret q)
      with t x show ?thesis by simp
    next
      case (Next q)
      obtain s2 cap2 where "q = (s2, cap2)" by fastforce
      with t Next x show ?thesis by auto
    qed
  qed
  then show ?thesis by (simp add: zu_int_lz4b_search_def ce)
qed

subsection \<open>The decoder\<close>

lemma decode_direct_kept:
  assumes c: "lz4_block_contract dec eng" and e: "lz4b_decode_direct eng s b want = (st, s', b')"
    and ok: "block_ok s" and wf: "buf_wf b" and nd: "\<not> l_done s" and z: "l_in_len s = 0" and room: "want \<le> avail_out b"
  shows "block_kept (\<lambda>i out. dec i = Some out) s b st s' b'"
proof (cases "avail_in b = 0 \<or> avail_in b > LZ4_MAX_INPUT_SIZE")
  case True
  with e have "st = ZU_ERR_INVALID_DATA" "s' = s" "b' = b" by (simp_all add: lz4b_decode_direct_def)
  with ok wf show ?thesis by (simp add: block_kept_def)
next
  case False
  obtain r ws where r: "LZ4_decompress_safe eng (in_window b) want = (r, ws)" by fastforce
  note sd = lz4_safeD [OF c r]
  have lw: "length ws \<le> avail_out b" using sd(1) room by simp
  show ?thesis
  proof (cases "r < 0 \<or> nat r \<noteq> want")
    case True
    with False e r have "st = ZU_ERR_INVALID_DATA" "s' = s" "b' = write_out ws b"
      by (simp_all add: lz4b_decode_direct_def Let_def)
    with ok write_out_adv [OF wf lw] show ?thesis by (simp add: block_kept_def)
  next
    case okr: False
    with False e r have q: "st = ZU_STREAM_END" "s' = s\<lparr>l_done := True\<rparr>" "b' = advance (avail_in b) want (write_out ws b)"
      by (simp_all add: lz4b_decode_direct_def Let_def)
    have "0 \<le> r" using okr by simp
    from sd(2) [OF this] okr have "dec (in_window b) = Some (take want ws)" "want \<le> length ws" by auto
    then show ?thesis unfolding q by (intro direct_kept [OF wf ok nd z lw]) simp_all
  qed
qed

lemma decode_expected_kept:
  assumes c: "lz4_block_contract dec eng" and e: "lz4b_decode_expected mem eng s b = (st, s', b')"
    and ok: "block_ok s" and wf: "buf_wf b" and nd: "\<not> l_done s"
  shows "block_kept (\<lambda>i out. dec i = Some out) s b st s' b'"
proof -
  let ?want = "l_expected s"
  let ?A = "l_max_output s \<noteq> 0 \<and> l_expected s > l_max_output s" and ?B = "l_expected s > INT_MAX"
    and ?C = "l_in_len s = 0 \<and> avail_out b \<ge> ?want"
  consider (refused) "?A \<or> ?B" | (direct) "\<not> ?A" "\<not> ?B" "?C" | (staged) "\<not> ?A" "\<not> ?B" "\<not> ?C" by blast
  then show ?thesis
  proof cases
    case refused
    with e have "s' = s" "b' = b" "\<not> is_progress st" by (auto simp: lz4b_decode_expected_def split: if_splits)
    with ok wf show ?thesis by (simp add: block_kept_def)
  next
    case direct
    with e have "lz4b_decode_direct eng s b ?want = (st, s', b')"
      unfolding lz4b_decode_expected_def Let_def by (simp only: simp_thms if_True if_False)
    then show ?thesis by (rule decode_direct_kept [OF c _ ok wf nd direct(3) [THEN conjunct1] direct(3) [THEN conjunct2]])
  next
    case staged
    obtain gs s1 b1 where g: "zu_int_lz4b_gather mem s b = (gs, s1, b1)" by (metis prod_cases3)
    note k = gather_ok [OF g ok wf]
    obtain gs2 s2 where g2: "zu_int_lz4b_stage mem s1 ?want = (gs2, s2)" by fastforce
    note k2 = stage_call_ok [OF g2 k(1)]
    obtain r ws where r: "LZ4_decompress_safe eng (lz4b_gathered s2) ?want = (r, ws)" by fastforce
    note sd = lz4_safeD [OF c r]
    let ?s3 = "lz4b_stage_write ?want ws s2"
    have eq: "lz4b_decode_expected mem eng s b =
        (if gs \<noteq> ZU_OK then (gs, s1, b1) else if l_in_len s1 = 0 then (ZU_ERR_INVALID_DATA, s1, b1)
         else if gs2 \<noteq> ZU_OK then (gs2, s2, b1)
         else if r < 0 \<or> nat r \<noteq> ?want then (ZU_ERR_INVALID_DATA, ?s3, b1)
         else lz4b_finish (?s3\<lparr>l_stage_len := ?want\<rparr>) b1)"
      using staged by (simp only: lz4b_decode_expected_def Let_def g g2 r prod.case simp_thms if_True if_False)
    have err: "block_kept (\<lambda>i out. dec i = Some out) s b st s' b'"
      if "(st, s', b') = (x, t, b1)" "block_ok t" "\<not> is_progress x" for x t
      using that k(2) by (simp add: block_kept_def)
    consider (gather) "gs \<noteq> ZU_OK" | (nothing) "gs = ZU_OK" "l_in_len s1 = 0"
      | (stage) "gs = ZU_OK" "l_in_len s1 \<noteq> 0" "gs2 \<noteq> ZU_OK" | (run) "gs = ZU_OK" "l_in_len s1 \<noteq> 0" "gs2 = ZU_OK" by blast
    then show ?thesis
    proof cases
      case gather
      with e eq have "(st, s', b') = (gs, s1, b1)" by simp
      then show ?thesis using k(1,7) gather by (intro err) auto
    next
      case nothing
      with e eq have "(st, s', b') = (ZU_ERR_INVALID_DATA, s1, b1)" by simp
      then show ?thesis using k(1) by (rule err) simp
    next
      case stage
      with e eq have "(st, s', b') = (gs2, s2, b1)" by simp
      then show ?thesis using k2(1,6) stage(3) by (intro err) auto
    next
      case run
      have "search_kept s1 ?want s2" using k2 by (simp add: search_kept_def)
      then have k3: "search_kept s1 ?want ?s3" using sd(1) k2(5) run by (intro search_kept_write) simp_all
      show ?thesis
      proof (cases "r < 0 \<or> nat r \<noteq> ?want")
        case bad: True
        with run e eq have "(st, s', b') = (ZU_ERR_INVALID_DATA, ?s3, b1)" by simp
        then show ?thesis using k3 by (intro err) (auto simp: search_kept_def)
      next
        case good: False
        with run e eq have f: "lz4b_finish (?s3\<lparr>l_stage_len := ?want\<rparr>) b1 = (st, s', b')" by simp
        have "0 \<le> r" using good by simp
        from sd(2) [OF this] good obtain d where d: "dec (lz4b_gathered s1) = Some d" "length d = ?want"
          "take (length d) ws = d" "length d \<le> length ws" using k2(2) by auto
        have tk: "take ?want (l_stage ?s3) = d" using stage_write_take [OF sd(1), of ?want s2] d by simp
        have gok: "gs = ZU_OK" and cap: "?want \<le> l_stage_cap ?s3" using run k2(5) by simp_all
        have s3: "block_ok ?s3" "lz4b_gathered ?s3 = lz4b_gathered s1" "l_done ?s3 = l_done s1"
          using k3 by (simp_all add: search_kept_def)
        show ?thesis using d(1) tk by (intro staged_kept [OF g [unfolded gok] ok wf nd s3 cap _ f]) simp
      qed
    qed
  qed
qed

lemma decode_search_kept:
  assumes c: "lz4_block_contract dec eng" and ok: "block_ok s" and wf: "buf_wf b" and nd: "\<not> l_done s"
  shows "\<exists>st s' b'. lz4b_decode_search mem eng s b = Some (st, s', b') \<and> block_kept (\<lambda>i out. dec i = Some out) s b st s' b'"
proof -
  obtain gs s1 b1 where g: "zu_int_lz4b_gather mem s b = (gs, s1, b1)" by (metis prod_cases3)
  note k = gather_ok [OF g ok wf]
  show ?thesis
  proof (cases "gs = ZU_OK \<and> l_in_len s1 \<noteq> 0")
    case False
    then have "lz4b_decode_search mem eng s b = Some (if gs \<noteq> ZU_OK then gs else ZU_ERR_INVALID_DATA, s1, b1)"
      using g by (auto simp: lz4b_decode_search_def)
    moreover have "\<not> is_progress (if gs \<noteq> ZU_OK then gs else ZU_ERR_INVALID_DATA)" using k(7) by auto
    ultimately show ?thesis using k(1,2) by (auto simp: block_kept_def)
  next
    case True
    obtain ceiling lim where ce: "lz4b_ceiling s1 = (ceiling, lim)" by fastforce
    obtain q where q: "zu_int_lz4b_search mem eng s1 = Some q" "search_result mem dec s1 ceiling lim q"
      using search_ok [OF c k(1) ce] by blast
    obtain st2 n s2 where q3: "q = (st2, n, s2)" by (metis prod_cases3)
    have kept: "search_kept s1 ceiling s2" and st: "st2 = ZU_OK \<or> \<not> is_progress st2"
      and res: "st2 = ZU_OK \<Longrightarrow> dec (lz4b_gathered s1) = Some (take n (l_stage s2)) \<and> n \<le> l_stage_cap s2"
      using q(2) q3 by (simp_all add: search_result_def)
    have eq: "lz4b_decode_search mem eng s b =
        Some (if st2 \<noteq> ZU_OK then (st2, s2, b1) else lz4b_finish (s2\<lparr>l_stage_len := n\<rparr>) b1)"
      using g True q(1) q3 by (simp add: lz4b_decode_search_def)
    have s2: "block_ok s2" "lz4b_gathered s2 = lz4b_gathered s1" "l_done s2 = l_done s1"
      using kept by (simp_all add: search_kept_def)
    show ?thesis
    proof (cases "st2 = ZU_OK")
      case False
      with eq st k(2) s2(1) show ?thesis by (auto simp: block_kept_def)
    next
      case sok: True
      obtain st s' b' where f: "lz4b_finish (s2\<lparr>l_stage_len := n\<rparr>) b1 = (st, s', b')" by (metis prod_cases3)
      have "gs = ZU_OK" using True by simp
      then have "block_kept (\<lambda>i out. dec i = Some out) s b st s' b'"
        using res [OF sok] g by (intro staged_kept [OF _ ok wf nd s2 _ _ f]) simp_all
      with eq sok f show ?thesis by simp
    qed
  qed
qed

lemma decode_kept:
  assumes c: "lz4_block_contract dec eng" and ok: "block_ok s" and wf: "buf_wf b"
  shows "\<exists>st s' b'. lz4b_decode mem eng s b flush = Some (st, s', b') \<and> block_kept (\<lambda>i out. dec i = Some out) s b st s' b'"
proof -
  consider (over) "l_done s" | (collect) "\<not> l_done s" "flush \<noteq> ZU_FINISH"
    | (expected) "\<not> l_done s" "flush = ZU_FINISH" "l_has_expected s"
    | (unknown) "\<not> l_done s" "flush = ZU_FINISH" "\<not> l_has_expected s" by blast
  then show ?thesis
  proof cases
    case over
    obtain st s' b' where e: "lz4b_done s b = (st, s', b')" by (metis prod_cases3)
    with done_kept [OF e ok wf over, of "\<lambda>i out. dec i = Some out"] over show ?thesis by (simp add: lz4b_decode_def)
  next
    case collect
    obtain st s' b' where e: "lz4b_collect mem s b = (st, s', b')" by (metis prod_cases3)
    with collect_kept [OF e ok wf collect(1), of "\<lambda>i out. dec i = Some out"] collect show ?thesis by (simp add: lz4b_decode_def)
  next
    case expected
    obtain st s' b' where e: "lz4b_decode_expected mem eng s b = (st, s', b')" by (metis prod_cases3)
    with decode_expected_kept [OF c e ok wf expected(1)] expected show ?thesis by (simp add: lz4b_decode_def)
  next
    case unknown
    with decode_search_kept [OF c ok wf unknown(1)] show ?thesis by (simp add: lz4b_decode_def)
  qed
qed


subsection \<open>Whole runs\<close>

definition block_coder :: "(byte list \<Rightarrow> byte list \<Rightarrow> bool) \<Rightarrow> ('e, 'd) lz4_state process_fn \<Rightarrow> bool" where
  "block_coder R proc \<longleftrightarrow> (\<forall>s b flush. block_ok s \<longrightarrow> buf_wf b \<longrightarrow>
     (\<exists>st s' b'. proc (Some s) b flush = Some (st, Some s', b') \<and> block_kept R s b st s' b'))"

lemma block_encoder:
  assumes c: "lz4_block_contract dec eng"
  shows "block_coder (\<lambda>i out. dec out = Some i) (lz4b_encoder_process mem eng)"
  unfolding block_coder_def
proof (intro allI impI)
  fix s :: "('a, 'b) lz4_state" and b flush assume ok: "block_ok s" "buf_wf b"
  obtain st s' b' where e: "lz4b_encode mem eng s b flush = (st, s', b')" by (metis prod_cases3)
  with encode_kept [OF c e ok]
  show "\<exists>st s' b'. lz4b_encoder_process mem eng (Some s) b flush = Some (st, Some s', b') \<and>
      block_kept (\<lambda>i out. dec out = Some i) s b st s' b'"
    by (simp add: lz4b_encoder_process_def)
qed

lemma block_decoder:
  assumes c: "lz4_block_contract dec eng"
  shows "block_coder (\<lambda>i out. dec i = Some out) (lz4b_decoder_process mem eng)"
  unfolding block_coder_def
proof (intro allI impI)
  fix s :: "('a, 'b) lz4_state" and b flush assume ok: "block_ok s" "buf_wf b"
  from decode_kept [OF c ok, of mem flush]
  show "\<exists>st s' b'. lz4b_decoder_process mem eng (Some s) b flush = Some (st, Some s', b') \<and>
      block_kept (\<lambda>i out. dec i = Some out) s b st s' b'"
    by (auto simp: lz4b_decoder_process_def)
qed

lemma lz4b_new_ok:
  assumes "lz4b_new mem e lv d = (ZU_OK, Some s)"
  shows "block_ok s" "block_at R s [] []"
  using assms by (auto simp: lz4b_new_def lz4_blank_def block_ok_def stage_ok_def block_at_def lz4b_gathered_def Let_def
      split: if_splits option.splits)

lemma block_run:
  assumes p: "block_coder R proc" and new: "lz4b_new mem e lv d = (ZU_OK, Some s0)"
    and run: "codec_run proc s0 i out s st"
  shows "block_ok s \<and> (is_progress st \<longrightarrow> block_at R s i out \<and> (st = ZU_STREAM_END \<longrightarrow> l_done s \<and> pending s = []))"
  using run
proof (induction rule: codec_run.induct)
  case start
  with lz4b_new_ok [OF new] show ?case by simp
next
  case (call i out s st b flush st' s' b')
  from p call.IH call.hyps(3) obtain r t c where
    "proc (Some s) b flush = Some (r, Some t, c)" "block_kept R s b r t c"
    unfolding block_coder_def by blast
  with call.hyps(4) have "block_kept R s b st' s' b'" by simp
  with call.IH call.hyps(2) show ?case by (simp add: block_kept_def)
qed

lemma block_run_end:
  assumes "block_coder R proc" "lz4b_new mem e lv d = (ZU_OK, Some s0)" "codec_run proc s0 i out s ZU_STREAM_END"
  shows "R i out"
  using block_run [OF assms] by (auto simp: block_at_def split: if_splits)

lemma block_reset_ok:
  "block_ok s \<Longrightarrow> block_ok (zu_int_lz4b_clear s)"
  "block_ok s \<Longrightarrow> block_ok (s\<lparr>l_level := lv\<rparr>)"
  "block_ok s \<Longrightarrow> block_ok (s\<lparr>l_max_output := m, l_has_expected := h, l_expected := x\<rparr>)"
  by (simp_all add: block_ok_def stage_ok_def zu_int_lz4b_clear_def)

text \<open>Both directions keep the contract of the stream driver.\<close>

lemma lz4b_decoder_codec:
  fixes eng :: "('e, 'd) lz4_engine"
  assumes c: "lz4_block_contract dec eng"
  shows "decoder_codec (\<lambda>st. \<forall>s. st = Some s \<longrightarrow> block_ok s) (zu_int_codec_lz4_block mem eng)"
proof
  fix os so assume "the (v_decoder_new (zu_int_codec_lz4_block mem eng)) os = (ZU_OK, so)"
  then show "\<forall>s. so = Some s \<longrightarrow> block_ok s"
    using lz4b_new_ok(1) by (fastforce simp: zu_int_codec_lz4_block_def lz4b_decoder_new_def)
next
  fix so :: "('e, 'd) lz4_state option" and b flush assume i: "\<forall>s. so = Some s \<longrightarrow> block_ok s" "buf_wf b"
  show "\<exists>st s' b'. the (v_decoder_process (zu_int_codec_lz4_block mem eng)) so b flush = Some (st, s', b') \<and>
    (\<forall>s. s' = Some s \<longrightarrow> block_ok s) \<and> buf_adv b b'"
  proof (cases so)
    case None
    with i show ?thesis by (simp add: zu_int_codec_lz4_block_def lz4b_decoder_process_def)
  next
    case (Some s)
    with block_decoder [OF c, of mem] i obtain st s' b' where
      "lz4b_decoder_process mem eng (Some s) b flush = Some (st, Some s', b')"
      "block_kept (\<lambda>i out. dec i = Some out) s b st s' b'" unfolding block_coder_def by blast
    with Some show ?thesis by (auto simp: zu_int_codec_lz4_block_def block_kept_def)
  qed
next
  fix f :: "('e, 'd) lz4_state option \<Rightarrow> zu_decoder_opts \<Rightarrow> zu_status \<times> ('e, 'd) lz4_state option" and so os st s'
  assume "v_decoder_reset (zu_int_codec_lz4_block mem eng) = Some f" "\<forall>s. so = Some s \<longrightarrow> block_ok s" "f so os = (st, s')"
  then show "\<forall>s. s' = Some s \<longrightarrow> block_ok s"
    by (cases so) (auto simp: zu_int_codec_lz4_block_def lz4b_decoder_reset_def block_reset_ok)
qed

lemma lz4b_encoder_codec:
  fixes eng :: "('e, 'd) lz4_engine"
  assumes c: "lz4_block_contract dec eng"
  shows "encoder_codec (\<lambda>st. \<forall>s. st = Some s \<longrightarrow> block_ok s) (zu_int_codec_lz4_block mem eng)"
proof
  fix os so assume "the (v_encoder_new (zu_int_codec_lz4_block mem eng)) os = (ZU_OK, so)"
  then show "\<forall>s. so = Some s \<longrightarrow> block_ok s"
    using lz4b_new_ok(1) by (fastforce simp: zu_int_codec_lz4_block_def lz4b_encoder_new_def)
next
  fix so :: "('e, 'd) lz4_state option" and b flush assume i: "\<forall>s. so = Some s \<longrightarrow> block_ok s" "buf_wf b"
  show "\<exists>st s' b'. the (v_encoder_process (zu_int_codec_lz4_block mem eng)) so b flush = Some (st, s', b') \<and>
    (\<forall>s. s' = Some s \<longrightarrow> block_ok s) \<and> buf_adv b b'"
  proof (cases so)
    case None
    with i show ?thesis by (simp add: zu_int_codec_lz4_block_def lz4b_encoder_process_def)
  next
    case (Some s)
    with block_encoder [OF c, of mem] i obtain st s' b' where
      "lz4b_encoder_process mem eng (Some s) b flush = Some (st, Some s', b')"
      "block_kept (\<lambda>i out. dec out = Some i) s b st s' b'" unfolding block_coder_def by blast
    with Some show ?thesis by (auto simp: zu_int_codec_lz4_block_def block_kept_def)
  qed
next
  fix f :: "('e, 'd) lz4_state option \<Rightarrow> zu_encoder_opts \<Rightarrow> zu_status \<times> ('e, 'd) lz4_state option" and so os st s'
  assume "v_encoder_reset (zu_int_codec_lz4_block mem eng) = Some f" "\<forall>s. so = Some s \<longrightarrow> block_ok s" "f so os = (st, s')"
  then show "\<forall>s. s' = Some s \<longrightarrow> block_ok s"
    by (cases so) (auto simp: zu_int_codec_lz4_block_def lz4b_encoder_reset_def block_reset_ok split: if_splits)
qed

text \<open>The ceiling decides whether a content is within the limit.\<close>

lemma lz4b_ceiling_limit:
  assumes "lz4b_ceiling s = (c, lim)"
  shows "c \<le> (if l_max_output s = 0 then INT_MAX else l_max_output s)"
  using lz4b_ceiling_cases [OF assms] by (cases lim) auto

lemma lz4b_ceiling_fits:
  assumes ce: "lz4b_ceiling s = (c, lim)" and n: "n \<le> 255 * l_in_len s" "n \<le> INT_MAX"
  shows "n \<le> c \<longleftrightarrow> l_max_output s = 0 \<or> n \<le> l_max_output s" "\<not> n \<le> c \<Longrightarrow> lim"
proof -
  have "(n \<le> c \<longleftrightarrow> l_max_output s = 0 \<or> n \<le> l_max_output s) \<and> (\<not> n \<le> c \<longrightarrow> lim)"
  proof (cases lim)
    case True
    with lz4b_ceiling_cases(2) [OF ce] show ?thesis by simp
  next
    case False
    from lz4b_ceiling_cases(3) [OF ce False] have "c = min INT_MAX (255 * l_in_len s + 64)"
      and m: "l_max_output s \<noteq> 0 \<longrightarrow> c \<le> l_max_output s" by blast+
    with n have "n \<le> c" by simp
    with m show ?thesis by (metis le_trans)
  qed
  then show "n \<le> c \<longleftrightarrow> l_max_output s = 0 \<or> n \<le> l_max_output s" "\<not> n \<le> c \<Longrightarrow> lim" by blast+
qed

lemma search_kept_cap: "search_kept s c s' \<Longrightarrow> l_stage_cap s' \<le> max (l_stage_cap s) c"
  by (simp add: search_kept_def)

subsection \<open>An instance of the library\<close>

text \<open>The blocks of the library of the previous theory: a token byte and the literals.\<close>

definition mini_block_dec :: "byte list \<Rightarrow> byte list option" where
  "mini_block_dec x = (if x = [] \<or> length x > INT_MAX then None else Some (tl x))"

definition mini_block_compress :: "byte list \<Rightarrow> nat \<Rightarrow> int \<Rightarrow> int \<times> byte list" where
  "mini_block_compress x cap lv = (if length x \<ge> INT_MAX \<or> length x \<ge> cap then (0, []) else (int (length x) + 1, 0x10 # x))"

definition mini_block :: "(unit, nat) lz4_engine" where
  "mini_block = mini_lz4
     \<lparr>LZ4_compress_HC := mini_block_compress, LZ4_compress_fast := mini_block_compress,
      LZ4_decompress_safe := (\<lambda>x cap. case mini_block_dec x of
         None \<Rightarrow> (- 1, []) | Some d \<Rightarrow> if length d \<le> cap then (int (length d), d) else (- 1, [])),
      LZ4_decompress_safe_partial := (\<lambda>x n cap. case mini_block_dec x of
         None \<Rightarrow> (- 1, []) | Some d \<Rightarrow> (int (min n (length d)), []))\<rparr>"

lemma mini_block_engine:
  "LZ4_compress_HC mini_block = mini_block_compress" "LZ4_compress_fast mini_block = mini_block_compress"
  "LZ4_decompress_safe mini_block = (\<lambda>x cap. case mini_block_dec x of
     None \<Rightarrow> (- 1, []) | Some d \<Rightarrow> if length d \<le> cap then (int (length d), d) else (- 1, []))"
  "LZ4_decompress_safe_partial mini_block = (\<lambda>x n cap. case mini_block_dec x of
     None \<Rightarrow> (- 1, []) | Some d \<Rightarrow> (int (min n (length d)), []))"
  by (simp_all add: mini_block_def)

lemma mini_block_compress_ok:
  assumes "mini_block_compress x cap lv = (w, ws)"
  shows "length ws \<le> cap \<and> (0 < w \<longrightarrow> nat w \<le> length ws \<and> mini_block_dec (take (nat w) ws) = Some x)"
proof (cases "length x \<ge> INT_MAX \<or> length x \<ge> cap")
  case False
  with assms have "w = int (length (0x10 # x))" "ws = 0x10 # x" by (auto simp: mini_block_compress_def)
  moreover from this(1) have "nat w = length (0x10 # x)" by (simp only: nat_int)
  ultimately show ?thesis using False by (simp add: mini_block_dec_def)
qed (use assms in \<open>auto simp: mini_block_compress_def\<close>)

lemma mini_block_contract: "lz4_block_contract mini_block_dec mini_block"
  unfolding lz4_block_contract_def mini_block_engine
proof (intro conjI allI impI)
  fix x cap lv w ws assume "mini_block_compress x cap lv = (w, ws) \<or> mini_block_compress x cap lv = (w, ws)"
  then have "mini_block_compress x cap lv = (w, ws)" by blast
  from mini_block_compress_ok [OF this] show "length ws \<le> cap"
    "0 < w \<Longrightarrow> nat w \<le> length ws" "0 < w \<Longrightarrow> mini_block_dec (take (nat w) ws) = Some x" by simp_all
qed (auto simp: mini_block_dec_def split: option.splits if_splits)

definition mini_block_enc_opts :: zu_encoder_opts where
  "mini_block_enc_opts = \<lparr>eo_struct_size = 16, eo_codec = ZU_CODEC_LZ4_BLOCK, eo_level = ZU_LEVEL_DEFAULT, eo_flags = 0\<rparr>"

definition mini_block_dec_opts :: zu_decoder_opts where
  "mini_block_dec_opts = \<lparr>do_struct_size = 32, do_codec = ZU_CODEC_LZ4_BLOCK, do_max_output = 8, do_max_ratio = 0,
     do_flags = ZU_DEC_EXPECTED_SIZE, do_expected_size = 3\<rparr>"

definition mini_block_encoder :: "(unit, nat) lz4_state" where
  "mini_block_encoder = the (snd (lz4b_encoder_new (\<lambda>_ _. True) mini_block_enc_opts))"

definition mini_block_decoder :: "(unit, nat) lz4_state" where
  "mini_block_decoder = the (snd (lz4b_decoder_new (\<lambda>_ _. True) mini_block_dec_opts))"

lemma mini_block_states:
  "mini_block_encoder = lz4_blank\<lparr>l_encoder := True, l_level := ZU_LEVEL_DEFAULT\<rparr>"
  "mini_block_decoder = lz4_blank\<lparr>l_encoder := False, l_level := ZU_LEVEL_DEFAULT, l_max_output := 8,
     l_has_expected := True, l_expected := 3\<rparr>"
  by (simp_all add: mini_block_encoder_def mini_block_decoder_def lz4b_encoder_new_def lz4b_decoder_new_def lz4b_new_def
      mini_block_enc_opts_def mini_block_dec_opts_def has_flag_def ZU_DEC_EXPECTED_SIZE_def Let_def)

lemma mini_block_coders:
  "lz4b_encoder_new (\<lambda>_ _. True) mini_block_enc_opts = (ZU_OK, Some mini_block_encoder)"
  "lz4b_decoder_new (\<lambda>_ _. True) mini_block_dec_opts = (ZU_OK, Some mini_block_decoder)"
  by (simp_all add: mini_block_encoder_def mini_block_decoder_def lz4b_encoder_new_def lz4b_decoder_new_def lz4b_new_def Let_def)

definition mini_block_plain :: zu_buffer where
  "mini_block_plain = one_shot_buffer [1, 2, 3] (replicate 20 0)"

definition mini_block_coded :: zu_buffer where
  "mini_block_coded = one_shot_buffer [0x10, 1, 2, 3] (replicate 4 0)"

lemma mini_block_buffers: "buf_wf mini_block_plain" "buf_wf mini_block_coded"
  unfolding mini_block_plain_def mini_block_coded_def by (intro one_shot_buffer_wf; simp add: UINT64_MAX_def)+

lemma mini_block_encode:
  "case lz4b_encoder_process (\<lambda>_ _. True) mini_block (Some mini_block_encoder) mini_block_plain ZU_FINISH of
     Some (st, Some s', b') \<Rightarrow> st = ZU_STREAM_END \<and> consumed mini_block_plain b' = [1, 2, 3] \<and>
       emitted mini_block_plain b' = [0x10, 1, 2, 3]
   | _ \<Rightarrow> False"
  by (simp add: mini_block_plain_def mini_block_states mini_block_engine lz4b_encoder_process_def lz4b_encode_def
      lz4b_encode_direct_def zu_int_lz4b_compress_def mini_block_compress_def LZ4_compressBound_def LZ4_MAX_INPUT_SIZE_def
      one_shot_buffer_def avail_in_def avail_out_def u64_sub_def in_window_def src_mem_def dst_mem_def write_out_def advance_def
      consumed_def emitted_def seg_def write_at_def lz4_blank_def INT_MAX_def Let_def)

lemma mini_block_decode:
  "case lz4b_decoder_process (\<lambda>_ _. True) mini_block (Some mini_block_decoder) mini_block_coded ZU_FINISH of
     Some (st, Some s', b') \<Rightarrow> st = ZU_STREAM_END \<and> consumed mini_block_coded b' = [0x10, 1, 2, 3] \<and>
       emitted mini_block_coded b' = [1, 2, 3]
   | _ \<Rightarrow> False"
  by (simp add: mini_block_coded_def mini_block_states mini_block_engine lz4b_decoder_process_def lz4b_decode_def
      lz4b_decode_expected_def lz4b_decode_direct_def mini_block_dec_def LZ4_MAX_INPUT_SIZE_def
      one_shot_buffer_def avail_in_def avail_out_def u64_sub_def in_window_def src_mem_def dst_mem_def write_out_def advance_def
      consumed_def emitted_def seg_def write_at_def lz4_blank_def INT_MAX_def Let_def)

lemma mini_block_runs:
  "\<exists>s. codec_run (lz4b_encoder_process (\<lambda>_ _. True) mini_block) mini_block_encoder [1, 2, 3] [0x10, 1, 2, 3] s ZU_STREAM_END"
  "\<exists>s. codec_run (lz4b_decoder_process (\<lambda>_ _. True) mini_block) mini_block_decoder [0x10, 1, 2, 3] [1, 2, 3] s ZU_STREAM_END"
proof -
  from mini_block_encode obtain s' b' where
    e: "lz4b_encoder_process (\<lambda>_ _. True) mini_block (Some mini_block_encoder) mini_block_plain ZU_FINISH = Some (ZU_STREAM_END, Some s', b')"
    and io: "consumed mini_block_plain b' = [1, 2, 3]" "emitted mini_block_plain b' = [0x10, 1, 2, 3]"
    by (auto split: option.splits)
  from codec_run_one [where proc = "lz4b_encoder_process (\<lambda>_ _. True) mini_block", OF e mini_block_buffers(1)] io
  show "\<exists>s. codec_run (lz4b_encoder_process (\<lambda>_ _. True) mini_block) mini_block_encoder [1, 2, 3] [0x10, 1, 2, 3] s ZU_STREAM_END"
    by auto
next
  from mini_block_decode obtain s' b' where
    e: "lz4b_decoder_process (\<lambda>_ _. True) mini_block (Some mini_block_decoder) mini_block_coded ZU_FINISH = Some (ZU_STREAM_END, Some s', b')"
    and io: "consumed mini_block_coded b' = [0x10, 1, 2, 3]" "emitted mini_block_coded b' = [1, 2, 3]"
    by (auto split: option.splits)
  from codec_run_one [where proc = "lz4b_decoder_process (\<lambda>_ _. True) mini_block", OF e mini_block_buffers(2)] io
  show "\<exists>s. codec_run (lz4b_decoder_process (\<lambda>_ _. True) mini_block) mini_block_decoder [0x10, 1, 2, 3] [1, 2, 3] s ZU_STREAM_END"
    by auto
qed

subsection \<open>Properties\<close>

text \<open>The lz4-block codec round trips: whatever buffers and flush arguments the calls on either
  side are given, an encoder that reports the end of the stream has delivered a block of exactly the
  bytes it consumed, and a decoder that consumed that block and reports the end of the stream has
  delivered exactly those bytes.\<close>

theorem lz4_block_roundtrip:
  assumes "lz4_block_contract dec eng"
    and "lz4b_encoder_new mem os = (ZU_OK, Some e0)"
    and "codec_run (lz4b_encoder_process mem eng) e0 plain coded e ZU_STREAM_END"
    and "lz4b_decoder_new mem od = (ZU_OK, Some d0)"
    and "codec_run (lz4b_decoder_process mem eng) d0 coded out d ZU_STREAM_END"
  shows "dec coded = Some plain \<and> out = plain"
proof -
  have "dec coded = Some plain"
    using block_run_end [OF block_encoder [OF assms(1)] assms(2) [unfolded lz4b_encoder_new_def] assms(3)] .
  moreover have "dec coded = Some out"
    using block_run_end [OF block_decoder [OF assms(1)] assms(4) [unfolded lz4b_decoder_new_def] assms(5)] .
  ultimately show ?thesis by simp
qed

theorem lz4_block_roundtrip_witness:
  "mini_block_dec [0x10, 1, 2, 3] = Some [1, 2, 3] \<and> ([1, 2, 3] :: byte list) = [1, 2, 3]"
proof -
  from mini_block_runs obtain e d where
    "codec_run (lz4b_encoder_process (\<lambda>_ _. True) mini_block) mini_block_encoder [1, 2, 3] [0x10, 1, 2, 3] e ZU_STREAM_END"
    "codec_run (lz4b_decoder_process (\<lambda>_ _. True) mini_block) mini_block_decoder [0x10, 1, 2, 3] [1, 2, 3] d ZU_STREAM_END"
    by blast
  from lz4_block_roundtrip [OF mini_block_contract mini_block_coders(1) this(1) mini_block_coders(2) this(2)]
  show ?thesis .
qed


definition mini_block_held :: "(unit, nat) lz4_state" where
  "mini_block_held = mini_block_decoder\<lparr>l_in := [0x10, 1, 2, 3], l_in_cap := 4, l_in_len := 4\<rparr>"


end
