(* ===== verification/Zu_Komp_Codecs.thy ===== *)
theory Zu_Komp_Codecs
  imports Zu_Komp_Runs Codec_Deflate_Integrity Codec_Lz4_Block
begin

unbundle bit_operations_syntax

text \<open>
  Compression and decompression from R with the codecs that keep state: the round trip of lz4-block through
  \<^verbatim>\<open>zukomp_compress\<close> and \<^verbatim>\<open>zukomp_decompress\<close>, and the trailing bytes the drive loop does not see.
\<close>

subsection \<open>lz4-block from R\<close>

text \<open>A block is done only by a call that finishes the input and takes all of it.\<close>

lemma drain_avail: "zu_int_lz4_drain s b = (dr, s', b') \<Longrightarrow> avail_in b' = avail_in b \<and> l_done s' = l_done s"
  by (auto simp: zu_int_lz4_drain_def Let_def avail_in_def put_out_def split: if_splits)

lemma finish_avail: "lz4b_finish s b = (st, s', b') \<Longrightarrow> avail_in b' = avail_in b"
  using drain_avail by (fastforce simp: lz4b_finish_def split: prod.splits)

lemma advance_avail: "buf_wf b \<Longrightarrow> avail_in (advance (avail_in b) n (write_out ws b)) = 0"
  by (simp add: advance_def write_out_def avail_in_def u64_sub_def buf_wf_def)

lemma collect_done:
  assumes "lz4b_collect mem s b = (st, s', b')" "block_ok s" "buf_wf b"
  shows "l_done s' = l_done s"
proof -
  obtain gs s1 b1 where g: "zu_int_lz4b_gather mem s b = (gs, s1, b1)" by (metis prod_cases3)
  with gather_ok(4) [OF g assms(2,3)] assms(1) show ?thesis by (simp add: lz4b_collect_def)
qed

lemma encode_done:
  assumes e: "lz4b_encode mem eng s b flush = (st, s', b')" and ok: "block_ok s" and wf: "buf_wf b" and d: "l_done s'"
  shows "l_done s \<or> flush = ZU_FINISH \<and> avail_in b' = 0"
proof (cases "l_done s \<or> flush \<noteq> ZU_FINISH")
  case True
  then show ?thesis
  proof (cases "l_done s")
    case False
    with True e have "lz4b_collect mem s b = (st, s', b')" by (simp add: lz4b_encode_def)
    with collect_done [OF this ok wf] d show ?thesis by simp
  qed simp
next
  case False
  then have nd: "\<not> l_done s" and fl: "flush = ZU_FINISH" by simp_all
  let ?n = "nat (LZ4_compressBound (avail_in b))"
  obtain gs s1 b1 where g: "zu_int_lz4b_gather mem s b = (gs, s1, b1)" by (metis prod_cases3)
  note k = gather_ok [OF g ok wf]
  from e nd fl consider (direct) "lz4b_encode_direct eng s b ?n = (st, s', b')" | (staged) "lz4b_encode_staged mem eng s b = (st, s', b')"
    unfolding lz4b_encode_def by (simp only: simp_thms if_False) (auto split: if_splits)
  then show ?thesis
  proof cases
    case direct
    with d nd fl advance_avail [OF wf] show ?thesis
      by (auto simp: lz4b_encode_direct_def Let_def split: if_splits prod.splits)
  next
    case staged
    have "avail_in b' = 0 \<or> b' = b1 \<and> s' = s1"
    proof (cases "gs = ZU_OK")
      case True
      with staged g k(8) show ?thesis
        by (auto simp: lz4b_encode_staged_def Let_def split: if_splits prod.splits dest!: finish_avail)
    next
      case False
      with staged g show ?thesis by (simp add: lz4b_encode_staged_def)
    qed
    with k(4) d nd fl show ?thesis by auto
  qed
qed

lemma decode_done:
  assumes e: "lz4b_decode mem eng s b flush = Some (st, s', b')" and ok: "block_ok s" and wf: "buf_wf b" and d: "l_done s'"
  shows "l_done s \<or> flush = ZU_FINISH \<and> avail_in b' = 0"
proof (cases "l_done s \<or> flush \<noteq> ZU_FINISH")
  case True
  then show ?thesis
  proof (cases "l_done s")
    case False
    with True e have "lz4b_collect mem s b = (st, s', b')" by (simp add: lz4b_decode_def)
    with collect_done [OF this ok wf] d show ?thesis by simp
  qed simp
next
  case False
  then have nd: "\<not> l_done s" and fl: "flush = ZU_FINISH" by simp_all
  obtain gs s1 b1 where g: "zu_int_lz4b_gather mem s b = (gs, s1, b1)" by (metis prod_cases3)
  note k = gather_ok [OF g ok wf]
  from e nd fl consider (expected) "lz4b_decode_expected mem eng s b = (st, s', b')" | (unknown) "lz4b_decode_search mem eng s b = Some (st, s', b')"
    unfolding lz4b_decode_def by (simp only: simp_thms if_False) (auto split: if_splits)
  then show ?thesis
  proof cases
    case expected
    then consider (same) "s' = s" | (direct) "lz4b_decode_direct eng s b (l_expected s) = (st, s', b')"
      | (gathered) "avail_in b' = avail_in b1" "gs = ZU_OK" | (failed) "s' = s1"
      using g unfolding lz4b_decode_expected_def Let_def
      by (auto split: if_splits prod.splits dest!: finish_avail)
    then show ?thesis
    proof cases
      case direct
      with d nd fl advance_avail [OF wf] show ?thesis
        by (auto simp: lz4b_decode_direct_def Let_def split: if_splits prod.splits)
    qed (use d nd fl k in auto)
  next
    case unknown
    then consider (gathered) "avail_in b' = avail_in b1" "gs = ZU_OK" | (failed) "s' = s1"
      using g by (auto simp: lz4b_decode_search_def split: if_splits prod.splits dest!: finish_avail)
    then show ?thesis by cases (use d nd fl k in auto)
  qed
qed

abbreviation block_inv :: "('e, 'd) lz4_state option \<Rightarrow> bool" where
  "block_inv so \<equiv> \<forall>s. so = Some s \<longrightarrow> block_ok s"

lemma block_finishes:
  assumes "block_coder R proc" "\<And>s b flush st s' b'. proc (Some s) b flush = Some (st, Some s', b') \<Longrightarrow> block_ok s \<Longrightarrow> buf_wf b \<Longrightarrow>
      l_done s' \<Longrightarrow> l_done s \<or> flush = ZU_FINISH \<and> avail_in b' = 0"
  shows "finishes K block_inv l_done proc"
proof (rule finishesI)
  fix s b flush st so b' assume i: "\<forall>t. Some s = Some t \<longrightarrow> block_ok t" "buf_wf b" and p: "proc (Some s) b flush = Some (st, so, b')"
  then have "block_ok s" by simp
  with i(2) assms(1) obtain r t c where "proc (Some s) b flush = Some (r, Some t, c)" "block_kept R s b r t c"
    unfolding block_coder_def by blast
  with p obtain s' where s': "so = Some s'" "block_kept R s b st s' b'" by auto
  moreover have "st = ZU_STREAM_END \<longrightarrow> l_done s'" using s'(2) by (simp add: block_kept_def)
  moreover have "l_done s' \<longrightarrow> l_done s \<or> input_ended K flush (length (consumed b b')) (avail_in b')"
    using assms(2) p i s'(1) by (fastforce simp: input_ended_def)
  ultimately show "\<exists>s'. so = Some s' \<and> (st = ZU_STREAM_END \<longrightarrow> l_done s') \<and>
      (l_done s' \<longrightarrow> l_done s \<or> input_ended K flush (length (consumed b b')) (avail_in b'))" by blast
qed

lemma block_finishes_both:
  assumes "lz4_block_contract dec eng"
  shows "finishes K block_inv l_done (lz4b_encoder_process mem eng)" "finishes K block_inv l_done (lz4b_decoder_process mem eng)"
proof -
  show "finishes K block_inv l_done (lz4b_encoder_process mem eng)"
  proof (rule block_finishes [OF block_encoder [OF assms]])
    fix s s' :: "('a, 'b) lz4_state" and b flush st b'
    assume "lz4b_encoder_process mem eng (Some s) b flush = Some (st, Some s', b')" "block_ok s" "buf_wf b" "l_done s'"
    then show "l_done s \<or> flush = ZU_FINISH \<and> avail_in b' = 0"
      using encode_done [of mem eng s b flush st s' b'] by (auto simp: lz4b_encoder_process_def split: prod.splits)
  qed
  show "finishes K block_inv l_done (lz4b_decoder_process mem eng)"
  proof (rule block_finishes [OF block_decoder [OF assms]])
    fix s s' :: "('a, 'b) lz4_state" and b flush st b'
    assume "lz4b_decoder_process mem eng (Some s) b flush = Some (st, Some s', b')" "block_ok s" "buf_wf b" "l_done s'"
    then show "l_done s \<or> flush = ZU_FINISH \<and> avail_in b' = 0"
      using decode_done [of mem eng s b flush st s' b'] by (auto simp: lz4b_decoder_process_def)
  qed
qed

lemma block_vtable:
  fixes eng :: "('e, 'd) lz4_engine"
  shows "v_encoder_process (zu_int_codec_lz4_block mem eng) = Some (lz4b_encoder_process mem eng)"
    "v_decoder_process (zu_int_codec_lz4_block mem eng) = Some (lz4b_decoder_process mem eng)"
    "v_encoder_new (zu_int_codec_lz4_block mem eng) = Some (lz4b_encoder_new mem)"
    "v_decoder_new (zu_int_codec_lz4_block mem eng) = Some (lz4b_decoder_new mem)"
    "v_codec (zu_int_codec_lz4_block mem eng) = ZU_CODEC_LZ4_BLOCK"
  by (simp_all add: zu_int_codec_lz4_block_def)

lemma block_starts:
  fixes eng :: "('e, 'd) lz4_engine"
  shows "starts_fresh K (lz4b_encoder_new mem :: _ \<Rightarrow> _ \<times> ('e, 'd) lz4_state option) l_done"
    "starts_fresh K (lz4b_decoder_new mem :: _ \<Rightarrow> _ \<times> ('e, 'd) lz4_state option) l_done"
  unfolding starts_fresh_def lz4b_encoder_new_def lz4b_decoder_new_def lz4b_new_def lz4_blank_def Let_def
  by (auto split: if_splits option.splits)

lemma block_inverts:
  assumes c: "lz4_block_contract dec eng"
  shows "invertible_codec block_inv block_inv (zu_int_codec_lz4_block mem eng) (2 ^ 52) (2 ^ 52) l_done l_done (\<lambda>z x. dec z = Some x)"
proof (intro invertible_codec.intro invertible_codec_axioms.intro lz4b_decoder_codec [OF c] lz4b_encoder_codec [OF c];
    (unfold block_vtable option.sel)?)
  fix os s0 x z s assume "lz4b_encoder_new mem os = (ZU_OK, Some s0)" "codec_run (lz4b_encoder_process mem eng) s0 x z s ZU_STREAM_END"
  from block_run_end [OF block_encoder [OF c] this(1) [unfolded lz4b_encoder_new_def] this(2)] show "dec z = Some x" .
next
  fix z x os s0 i y s rest
  assume "dec z = Some x" and r: "lz4b_decoder_new mem os = (ZU_OK, Some s0)" "codec_run (lz4b_decoder_process mem eng) s0 i y s ZU_STREAM_END"
    and "i @ rest = z" "2 ^ 52 \<noteq> (0 :: nat) \<longrightarrow> rest = []"
  moreover from block_run_end [OF block_decoder [OF c] r(1) [unfolded lz4b_decoder_new_def] r(2)] have "dec i = Some y" .
  ultimately show "y = x" by simp
qed (simp_all add: block_starts block_finishes_both [OF c])

subsection \<open>A demonstration of lz4-block\<close>

definition block_reg :: "(unit, nat) lz4_state zu_registry" where
  "block_reg = snd (zu_register_codec (Some (zu_int_codec_lz4_block mem_ok mini_block)) zu_registry_init)"

lemma block_vtable_ok: "vtable_ok (zu_int_codec_lz4_block mem_ok mini_block)"
  by code_simp

lemma block_reg_table: "reg_table block_reg = [zu_int_codec_lz4_block mem_ok mini_block]"
  by (simp add: block_reg_def zu_register_codec_eq block_vtable_ok zu_registry_init_def ZU_INT_REGISTRY_CAP_def)

lemma block_reg_wf: "registry_wf block_reg"
  using registry_wf_register [OF registry_wf_init, of "Some (zu_int_codec_lz4_block mem_ok mini_block)" _ block_reg]
  by (metis block_reg_def prod.collapse)

lemma block_reg_lookup: "zu_int_registry_lookup block_reg ZU_CODEC_LZ4_BLOCK = Some (zu_int_codec_lz4_block mem_ok mini_block)"
  by (simp add: zu_int_registry_lookup_def block_reg_table zu_int_codec_lz4_block_def zu_codec_ids)

lemma block_level: "zu_int_check_level (zu_int_codec_lz4_block mem_ok mini_block) ZU_LEVEL_DEFAULT = ZU_OK"
  by (simp add: zu_int_check_level_def)

definition block_comp :: zu_int_run_opts where
  "block_comp = komp_opts (r_raw [1, 2, 3]) True ZU_CODEC_LZ4_BLOCK ZU_LEVEL_DEFAULT 0 0 0"

definition block_decomp :: zu_int_run_opts where
  "block_decomp = komp_opts (r_raw [0x10, 1, 2, 3]) False ZU_CODEC_LZ4_BLOCK ZU_LEVEL_DEFAULT 0 0
     (ZU_DEC_REJECT_TRAILING OR ZU_DEC_CONCAT_MEMBERS)"

lemma block_flags: "has_flag (v_flags (zu_int_codec_lz4_block mem_ok mini_block)) ZU_CAN_ENCODE"
  "has_flag (v_flags (zu_int_codec_lz4_block mem_ok mini_block)) ZU_CAN_DECODE"
  by (simp_all add: zu_int_codec_lz4_block_def zu_flag_bits)

lemma block_comp_new:
  "\<exists>s. handle_new mem_ok block_reg (whole_opts block_comp) =
     (ZU_OK, Some (Enc \<lparr>e_vtable = zu_int_codec_lz4_block mem_ok mini_block, e_state = Some mini_block_encoder, e_opts = s, e_finished = False\<rparr>))"
proof -
  have o: "whole_opts block_comp = EncOpts mini_block_enc_opts"
    by (simp add: whole_opts_def block_comp_def komp_opts_def mini_block_enc_opts_def sizeof_zu_encoder_opts_def)
  have c: "copy_encoder_opts mini_block_enc_opts = mini_block_enc_opts"
    using copy_encoder_opts_eq [of mini_block_enc_opts] by (simp add: mini_block_enc_opts_def ZU_LEVEL_DEFAULT_def zu_codec_ids)
  have f: "eo_codec mini_block_enc_opts = ZU_CODEC_LZ4_BLOCK" "eo_struct_size mini_block_enc_opts = 16" "eo_level mini_block_enc_opts = ZU_LEVEL_DEFAULT"
    "v_encoder_new (zu_int_codec_lz4_block mem_ok mini_block) = Some (lz4b_encoder_new mem_ok)"
    by (simp_all add: mini_block_enc_opts_def zu_int_codec_lz4_block_def)
  have "lz4b_encoder_new mem_ok mini_block_enc_opts = (ZU_OK, Some mini_block_encoder)"
    using mini_block_coders(1) by (simp add: lz4b_encoder_new_def lz4b_new_def mem_ok_def)
  then show ?thesis unfolding o
    using block_reg_lookup block_flags f c
    by (simp add: handle_new_def zu_encoder_new_def opts_layout zu_int_resolve_def block_level mem_ok_def)
qed

definition block_dec_opts :: zu_decoder_opts where
  "block_dec_opts = \<lparr>do_struct_size = 32, do_codec = ZU_CODEC_LZ4_BLOCK, do_max_output = 0, do_max_ratio = 0, do_flags = 3, do_expected_size = 0\<rparr>"

lemma block_decomp_new:
  "handle_new mem_ok block_reg (whole_opts block_decomp) =
     (ZU_OK, Some (Dec \<lparr>dec_vtable = zu_int_codec_lz4_block mem_ok mini_block, dec_state = Some (lz4_blank\<lparr>l_level := ZU_LEVEL_DEFAULT\<rparr>),
       dec_opts = block_dec_opts, dec_finished = False, total_in = 0, total_out = 0\<rparr>))"
proof -
  have o: "whole_opts block_decomp = DecOpts block_dec_opts"
    by (simp add: whole_opts_def block_decomp_def komp_opts_def block_dec_opts_def sizeof_zu_decoder_opts_def zu_flag_bits)
  have c: "copy_decoder_opts block_dec_opts = block_dec_opts"
    using copy_decoder_opts_eq [of block_dec_opts] by (simp add: block_dec_opts_def zu_codec_ids)
  have f: "do_codec block_dec_opts = ZU_CODEC_LZ4_BLOCK" "do_struct_size block_dec_opts = 32"
    "do_flags block_dec_opts = 3"
    "v_decoder_new (zu_int_codec_lz4_block mem_ok mini_block) = Some (lz4b_decoder_new mem_ok)"
    by (simp_all add: block_dec_opts_def zu_int_codec_lz4_block_def)
  have "lz4b_decoder_new mem_ok block_dec_opts = (ZU_OK, Some (lz4_blank\<lparr>l_level := ZU_LEVEL_DEFAULT\<rparr> :: (unit, nat) lz4_state))"
    by (simp add: lz4b_decoder_new_def lz4b_new_def mem_ok_def block_dec_opts_def has_flag_def ZU_DEC_EXPECTED_SIZE_def lz4_blank_def)
  then show ?thesis unfolding o
    using block_reg_lookup block_flags f c
    by (simp add: handle_new_def zu_decoder_new_def opts_layout zu_int_resolve_def mem_ok_def zu_int_check_dec_opts_def zu_flag_bits)
qed

lemmas block_eval = zu_codec_ids mini_block_engine mini_block_compress_def mini_block_dec_def LZ4_compressBound_def LZ4_MAX_INPUT_SIZE_def
  avail_in_def avail_out_def u64_sub_def in_window_def src_mem_def dst_mem_def write_out_def advance_def seg_def write_at_def
  INT_MAX_def UINT64_MAX_def

lemma block_comp_call:
  assumes "length m = 65536"
  shows "\<exists>h' b'. handle_process (Enc \<lparr>e_vtable = zu_int_codec_lz4_block mem_ok mini_block, e_state = Some mini_block_encoder, e_opts = s, e_finished = False\<rparr>)
      (first_window block_comp 3 m) ZU_FINISH = Some (ZU_STREAM_END, h', b') \<and> dst_pos b' = 4 \<and> take 4 (dst_mem b') = [0x10, 1, 2, 3]"
proof -
  have "\<exists>s' b'. lz4b_encoder_process mem_ok mini_block (Some mini_block_encoder) (first_window block_comp 3 m) ZU_FINISH =
      Some (ZU_STREAM_END, s', b') \<and> dst_pos b' = 4 \<and> take 4 (dst_mem b') = [0x10, 1, 2, 3]"
    using assms by (simp add: first_window_def block_comp_def komp_opts_def r_raw_def mini_block_states lz4b_encoder_process_def
      lz4b_encode_def lz4b_encode_direct_def zu_int_lz4b_compress_def block_eval lz4_blank_def Let_def)
  moreover have "zu_int_check_buffer (first_window block_comp 3 m) = ZU_OK"
    by (simp add: zu_int_check_buffer_def first_window_def block_comp_def komp_opts_def r_raw_def)
  ultimately show ?thesis
    by (auto simp: handle_process_def zu_encoder_process_def block_vtable zu_int_check_flush_def)
qed

lemma block_decomp_call:
  assumes "length m = 65536"
  shows "\<exists>h' b'. handle_process (Dec \<lparr>dec_vtable = zu_int_codec_lz4_block mem_ok mini_block, dec_state = Some (lz4_blank\<lparr>l_level := ZU_LEVEL_DEFAULT\<rparr>),
       dec_opts = block_dec_opts, dec_finished = False, total_in = 0, total_out = 0\<rparr>)
      (first_window block_decomp 4 m) ZU_FINISH = Some (ZU_STREAM_END, h', b') \<and> dst_pos b' = 3 \<and> take 3 (dst_mem b') = [1, 2, 3]"
proof -
  let ?s = "lz4_blank\<lparr>l_level := ZU_LEVEL_DEFAULT\<rparr> :: (unit, nat) lz4_state"
  let ?b = "first_window block_decomp 4 m"
  let ?in = "[0x10, 1, 2, 3 :: byte]"
  let ?b1 = "skip_in 4 ?b"
  let ?s1 = "?s\<lparr>l_in := resize 4096 [] , l_in_cap := 4096, l_in_len := 4\<rparr>\<lparr>l_in := write_at (resize 4096 []) 0 ?in\<rparr>"
  have b: "avail_in ?b = 4" "in_window ?b = ?in" "avail_out ?b = 65536" "src_size ?b = 4" "dst_pos ?b = 0" "dst ?b = Some m"
    by (simp_all add: first_window_def block_decomp_def komp_opts_def r_raw_def avail_in_def avail_out_def u64_sub_def in_window_def src_mem_def seg_def)
  have gr: "zu_int_grow 0 4 = (ZU_OK, Some 4096)"
    by (simp add: zu_int_grow_def zu_int_add_def zu_int_mul_def ZU_INT_MIN_BUFFER_def UINT64_MAX_def Let_def)
  have g: "zu_int_lz4b_gather mem_ok ?s ?b = (ZU_OK, ?s1, ?b1)"
    using b gr by (simp add: zu_int_lz4b_gather_def lz4b_append_def zu_int_add_def UINT64_MAX_def LZ4_MAX_INPUT_SIZE_def lz4_blank_def mem_ok_def)
  have len: "take 4 (write_at (resize 4096 []) 0 ?in) = ?in" "write_at (resize 4096 []) 0 ?in \<noteq> []" by (simp_all add: write_at_def)
  have ce: "lz4b_ceiling ?s1 = (1084, False)"
    by (simp add: lz4b_ceiling_def lz4_blank_def zu_int_mul_def zu_int_add_def UINT64_MAX_def INT_MAX_def)
  let ?s2 = "?s1\<lparr>l_stage := write_at (resize 1084 []) 0 [1, 2, 3], l_stage_cap := 1084\<rparr>"
  have se: "zu_int_lz4b_search mem_ok mini_block ?s1 = Some (ZU_OK, 3, ?s2)"
    unfolding zu_int_lz4b_search_def ce
    by (subst prod.case, subst run_loop.simps)
      (simp add: lz4b_first_cap_def lz4b_search_step_def zu_int_lz4b_stage_def lz4_blank_def mem_ok_def lz4b_gathered_def len mini_block_engine
        mini_block_dec_def INT_MAX_def lz4b_stage_write_def)
  have "\<exists>s' b'. lz4b_decoder_process mem_ok mini_block (Some ?s) ?b ZU_FINISH = Some (ZU_STREAM_END, s', b') \<and>
      dst_pos b' = 3 \<and> take 3 (dst_mem b') = [1, 2, 3] \<and> src_pos b' = 4 \<and> src_size b' = 4"
  proof -
    have d: "lz4b_decode mem_ok mini_block ?s ?b ZU_FINISH = lz4b_decode_search mem_ok mini_block ?s ?b"
      by (simp add: lz4b_decode_def lz4_blank_def)
    have e: "lz4b_decode_search mem_ok mini_block ?s ?b = Some (lz4b_finish (?s2\<lparr>l_stage_len := 3\<rparr>) ?b1)"
      unfolding lz4b_decode_search_def g prod.case se by simp
    have st: "seg (write_at (resize 1084 []) 0 [1, 2, 3]) 0 3 = ([1, 2, 3] :: byte list)" by (simp add: seg_def write_at_def)
    have "\<exists>s'. lz4b_finish (?s2\<lparr>l_stage_len := 3\<rparr>) ?b1 = (ZU_STREAM_END, s', put_out [1, 2, 3] ?b1)"
      using b st by (simp add: lz4b_finish_def zu_int_lz4_drain_def Let_def u64_sub_def lz4_blank_def avail_out_def)
    moreover have "src_pos ?b1 = 4" by (simp add: first_window_def)
    moreover have "dst_mem (put_out [1, 2, 3] ?b1) = write_at m 0 [1, 2, 3]" by (simp add: put_out_def dst_mem_def first_window_def)
    ultimately show ?thesis
      using d e b(4,5) by (auto simp: lz4b_decoder_process_def write_at_def)
  qed
  moreover have "zu_int_check_buffer ?b = ZU_OK"
    by (simp add: zu_int_check_buffer_def first_window_def block_decomp_def komp_opts_def r_raw_def)
  moreover have "unlimited block_dec_opts" by (simp add: unlimited_def block_dec_opts_def zu_flag_bits)
  ultimately show ?thesis
    by (auto simp: handle_process_def zu_decoder_process_def block_vtable zu_int_check_flush_def unlimited_window unlimited_verdict)
qed

text \<open>\<^verbatim>\<open>komp_compress(as.raw(1:3), "lz4-block")\<close> and back.\<close>

lemma block_lookup: "zu_codec_lookup block_reg (Some (r_char0 (r_string ''lz4-block''))) = ZU_CODEC_LZ4_BLOCK"
  using registered_name_resolves [OF block_reg_wf, of "zu_int_codec_lz4_block mem_ok mini_block"]
  by (simp add: block_reg_table demo_string zu_int_codec_lz4_block_def)

lemma block_demo_compress:
  "\<exists>frees freed live1. zukomp_compress demo_env block_reg (r_raw [1, 2, 3]) (r_string ''lz4-block'') R_NilValue 0 =
    Some (R_pair ZU_STREAM_END [0x10, 1, 2, 3], frees, freed, live1)"
proof -
  let ?m = "resize 65536 ([] :: byte list)"
  have sz: "ro_out_chunk block_comp = 65536" "ro_n block_comp = 3" "ro_in_chunk block_comp = 3" by (simp_all add: block_comp_def komp_opts_def r_raw_def)
  obtain s where new: "handle_new mem_ok block_reg (whole_opts block_comp) = (ZU_OK, Some (Enc \<lparr>e_vtable = zu_int_codec_lz4_block mem_ok mini_block,
      e_state = Some mini_block_encoder, e_opts = s, e_finished = False\<rparr>))" using block_comp_new by blast
  obtain h' b' where call: "handle_process (Enc \<lparr>e_vtable = zu_int_codec_lz4_block mem_ok mini_block, e_state = Some mini_block_encoder, e_opts = s, e_finished = False\<rparr>)
      (first_window block_comp 3 ?m) ZU_FINISH = Some (ZU_STREAM_END, h', b')" "dst_pos b' = 4" "take 4 (dst_mem b') = [0x10, 1, 2, 3]"
    using block_comp_call [OF fresh_sink_length, of s] by blast
  obtain frees ob live' where r: "zu_int_run_whole mem_ok (\<lambda>p n. Some n) (\<lambda>n. False) block_reg block_comp (zu_int_outbuf_owner outbuf_zero) 0 =
      Some (Whole_returned ZU_STREAM_END, frees, ob, live')" "sink_bytes ob = [0x10, 1, 2, 3]" "ob_used ob = 4"
    using one_call_run [OF new, where re = "\<lambda>p n. Some n" and intr = "\<lambda>n. False" and live = 0, unfolded sz, OF _ _ _ _ _ call(1)] call(2,3) by auto
  have lv: "zu_int_level_from_sexp R_NilValue = (0, ZU_LEVEL_DEFAULT)" by (simp add: zu_int_level_from_sexp_def R_NilValue_def)
  show ?thesis unfolding zukomp_compress_def
    by (rule komp_returned [OF block_lookup _ lv r(1) [unfolded block_comp_def] r(2)]) (simp_all add: zu_codec_ids r(3))
qed

lemma block_demo_decompress:
  "\<exists>frees freed live1. zukomp_decompress demo_env block_reg (r_raw [0x10, 1, 2, 3]) (r_string ''lz4-block'') r_zero r_zero 0 =
    Some (R_pair ZU_STREAM_END [1, 2, 3], frees, freed, live1)"
proof -
  let ?m = "resize 65536 ([] :: byte list)"
  have sz: "ro_out_chunk block_decomp = 65536" "ro_n block_decomp = 4" "ro_in_chunk block_decomp = 65536" by (simp_all add: block_decomp_def komp_opts_def r_raw_def)
  obtain h' b' where call: "handle_process (Dec \<lparr>dec_vtable = zu_int_codec_lz4_block mem_ok mini_block, dec_state = Some (lz4_blank\<lparr>l_level := ZU_LEVEL_DEFAULT\<rparr>),
       dec_opts = block_dec_opts, dec_finished = False, total_in = 0, total_out = 0\<rparr>)
      (first_window block_decomp 4 ?m) ZU_FINISH = Some (ZU_STREAM_END, h', b')" "dst_pos b' = 3" "take 3 (dst_mem b') = [1, 2, 3]"
    using block_decomp_call [OF fresh_sink_length] by blast
  obtain frees ob live' where r: "zu_int_run_whole mem_ok (\<lambda>p n. Some n) (\<lambda>n. False) block_reg block_decomp (zu_int_outbuf_owner outbuf_zero) 0 =
      Some (Whole_returned ZU_STREAM_END, frees, ob, live')" "sink_bytes ob = [1, 2, 3]" "ob_used ob = 3"
    using one_call_run [OF block_decomp_new, where re = "\<lambda>p n. Some n" and intr = "\<lambda>n. False" and live = 0, unfolded sz, OF _ _ _ _ _ call(1)] call(2,3) by auto
  have lv: "zu_int_level_from_sexp R_NilValue = (0, ZU_LEVEL_DEFAULT)" by (simp add: zu_int_level_from_sexp_def R_NilValue_def)
  have z: "x_real r_zero = R_finite 0" "x_int r_zero = 0" by (simp_all add: r_zero_def)
  show ?thesis unfolding zukomp_decompress_def z
    by (rule komp_returned [OF block_lookup _ lv r(1) [unfolded block_decomp_def] r(2)]) (simp_all add: zu_codec_ids r(3))
qed

subsection \<open>The round trip\<close>



subsection \<open>Trailing bytes behind a slice\<close>

text \<open>A registry of the zlib codec over \<open>zero_engine\<close>, and the loop over its demonstration stream.\<close>

definition zlib_reg :: "unit deflate_state zu_registry" where
  "zlib_reg = snd (zu_register_codec (Some (zu_int_codec_zlib (\<lambda>_ _. True) zero_engine)) zu_registry_init)"

definition trailing_opts :: "nat \<Rightarrow> zu_int_run_opts" where
  "trailing_opts in_chunk =
     \<lparr>ro_src = zlib_demo_out @ [0xAA], ro_n = 11, ro_encode = False, ro_codec = ZU_CODEC_ZLIB, ro_level = ZU_LEVEL_DEFAULT,
      ro_max_output = 0, ro_max_ratio = 0, ro_dec_flags = ZU_DEC_REJECT_TRAILING OR ZU_DEC_CONCAT_MEMBERS, ro_expected_size = 0,
      ro_in_chunk = in_chunk, ro_out_chunk = 16, ro_flush_every = 0\<rparr>"

definition zlib_dec :: "unit deflate_state zu_decoder" where
  "zlib_dec = the (snd (zu_decoder_new (\<lambda>_ _. True) zlib_reg
     \<lparr>do_struct_size = 32, do_codec = ZU_CODEC_ZLIB, do_max_output = 0, do_max_ratio = 0, do_flags = 3, do_expected_size = 0\<rparr>))"

definition zlib_window :: "nat \<Rightarrow> byte list \<Rightarrow> zu_buffer" where
  "zlib_window n m = \<lparr>src = Some (zlib_demo_out @ [0xAA]), src_size = n, src_pos = 0, dst = Some m, dst_size = 16, dst_pos = 0\<rparr>"

lemma zlib_call_10:
  "case zu_decoder_process zlib_dec (zlib_window 10 m) ZU_RUN of
     Some (st, d, b) \<Rightarrow> st = ZU_STREAM_END \<and> src_pos b = 10 \<and> src_size b = 10 \<and> dst_pos b = 3 \<and> dst b = Some ([1, 2, 3] @ drop 3 m)
   | None \<Rightarrow> False"
  by (code_simp, simp add: numeral_3_eq_3)

lemma zlib_call_11:
  "case zu_decoder_process zlib_dec (zlib_window 11 m) ZU_FINISH of
     Some (st, d, b) \<Rightarrow> st = ZU_ERR_TRAILING \<and> src_pos b = 10 \<and> src_size b = 11 \<and> dst_pos b = 3 \<and> dst b = Some ([1, 2, 3] @ drop 3 m)
   | None \<Rightarrow> False"
  by (code_simp, simp add: numeral_3_eq_3)

lemma zlib_dec_new: "handle_new (\<lambda>_ _. True) zlib_reg (whole_opts (trailing_opts n)) = (ZU_OK, Some (Dec zlib_dec))"
proof -
  have "whole_opts (trailing_opts n) = DecOpts \<lparr>do_struct_size = 32, do_codec = ZU_CODEC_ZLIB, do_max_output = 0, do_max_ratio = 0,
      do_flags = 3, do_expected_size = 0\<rparr>"
    by (simp add: whole_opts_def trailing_opts_def sizeof_zu_decoder_opts_def zu_flag_bits)
  moreover have "fst (zu_decoder_new (\<lambda>_ _. True) zlib_reg \<lparr>do_struct_size = 32, do_codec = ZU_CODEC_ZLIB, do_max_output = 0,
      do_max_ratio = 0, do_flags = 3, do_expected_size = 0\<rparr>) = ZU_OK"
    "snd (zu_decoder_new (\<lambda>_ _. True) zlib_reg \<lparr>do_struct_size = 32, do_codec = ZU_CODEC_ZLIB, do_max_output = 0,
      do_max_ratio = 0, do_flags = 3, do_expected_size = 0\<rparr>) \<noteq> None"
    by code_simp+
  ultimately show ?thesis unfolding zlib_dec_def by (auto simp: handle_new_def map_prod_def split: prod.splits)
qed

text \<open>The loop when its first call of the codec settles it.\<close>

lemma trailing_run:
  assumes re: "\<And>p n. re p n = Some (a + n)"
    and c: "case zu_decoder_process zlib_dec (zlib_window k (resize 4096 [])) (if k < 11 then ZU_RUN else ZU_FINISH) of
        Some (st', d, b) \<Rightarrow> st' = st \<and> src_pos b = 10 \<and> src_size b = k \<and> dst_pos b = 3 \<and> dst b = Some ([1, 2, 3] @ drop 3 (resize 4096 []))
      | None \<Rightarrow> False"
    and k: "10 \<le> k" "k \<le> 11" and st: "\<not> is_progress st \<or> st = ZU_STREAM_END"
  shows "\<exists>frees ob live'. zu_int_run_whole (\<lambda>_ _. True) re intr zlib_reg (trailing_opts k) (zu_int_outbuf_owner outbuf_zero) 0 =
      Some (Whole_returned st, frees, ob, live') \<and> sink_bytes ob = [1, 2, 3] \<and> ob_consumed ob = 10"
proof -
  let ?r = "trailing_opts k"
  let ?x = "(Dec zlib_dec, \<lparr>src = None, src_size = 0, src_pos = 0, dst = None, dst_size = 0, dst_pos = 0\<rparr>, 0, 0, zu_int_outbuf_owner outbuf_zero, 0)"
  let ?m = "resize 4096 ([] :: byte list)"
  obtain d b where c: "zu_decoder_process zlib_dec (zlib_window k ?m) (if k < 11 then ZU_RUN else ZU_FINISH) = Some (st, d, b)"
    "src_pos b = 10" "src_size b = k" "dst_pos b = 3" "dst b = Some ([1, 2, 3] @ drop 3 ?m)"
    using c by (auto split: option.splits prod.splits)
  have rs: "zu_int_reserve re (zu_int_outbuf_owner outbuf_zero) 0 16 =
      (ZU_OK, \<lparr>ob_owner = Some (Some (a + 4096)), ob_buf = Some (a + 4096, ?m), ob_size = 4096, ob_used = 0, ob_consumed = 0\<rparr>, 1)"
    using re by (simp add: zu_int_reserve_def zu_int_outbuf_owner_def outbuf_zero_def outbuf_mem_def zu_int_add_def zu_int_grow_def
        zu_int_mul_def ZU_INT_MIN_BUFFER_def UINT64_MAX_def Let_def)
  let ?ob = "\<lparr>ob_owner = Some (Some (a + 4096)), ob_buf = Some (a + 4096, [1, 2, 3] @ drop 3 ?m), ob_size = 4096, ob_used = 3, ob_consumed = 0\<rparr>"
  have "whole_step re intr ?r ?x = Some (Ret (Whole_returned st, Dec d, b, k, 1, ?ob, 1))"
    using rs c k st
    by (cases st) (auto simp: whole_step_def whole_refill_def trailing_opts_def whole_window_def whole_flush_def handle_process_def
        whole_deliver_def dst_mem_def whole_after_def u64_add_def UINT64_MAX_def zlib_window_def)
  then have "run_loop (whole_step re intr ?r) ?x = Some (Whole_returned st, Dec d, b, k, 1, ?ob, 1)"
    by (subst run_loop.simps) simp
  then show ?thesis using zlib_dec_new [of k] c(2,3) k
    by (auto simp: zu_int_run_whole_def trailing_opts_def sink_bytes_def outbuf_mem_def)
qed


end
