(* ===== verification/Codec_Zstd.thy ===== *)
theory Codec_Zstd
  imports Zu_Frame_Loop Zu_Handle
begin

unbundle bit_operations_syntax

text \<open>
  \<^verbatim>\<open>src/codec_zstd.c\<close>: zstd over the streaming API of libzstd. The library is the parameter
  \<open>eng\<close>, a record of its entry points; contexts are values of the types \<open>'e\<close> and \<open>'d\<close>, or \<open>None\<close>
  for a null pointer. The decoder's loop is an interpretation of \<open>framed_decoder\<close>; for the encoder
  the corresponding results are proved here.
\<close>

subsection \<open>The library\<close>

definition ZSTD_error_prefix_unknown :: int where "ZSTD_error_prefix_unknown = 10"
definition ZSTD_error_version_unsupported :: int where "ZSTD_error_version_unsupported = 12"
definition ZSTD_error_frameParameter_unsupported :: int where "ZSTD_error_frameParameter_unsupported = 14"
definition ZSTD_error_frameParameter_windowTooLarge :: int where "ZSTD_error_frameParameter_windowTooLarge = 16"
definition ZSTD_error_checksum_wrong :: int where "ZSTD_error_checksum_wrong = 22"
definition ZSTD_error_dictionary_wrong :: int where "ZSTD_error_dictionary_wrong = 32"
definition ZSTD_error_parameter_unsupported :: int where "ZSTD_error_parameter_unsupported = 40"
definition ZSTD_error_parameter_outOfBound :: int where "ZSTD_error_parameter_outOfBound = 42"
definition ZSTD_error_memory_allocation :: int where "ZSTD_error_memory_allocation = 64"

definition ZSTD_CLEVEL_DEFAULT :: int where "ZSTD_CLEVEL_DEFAULT = 3"

datatype ZSTD_EndDirective = ZSTD_e_continue | ZSTD_e_flush | ZSTD_e_end

datatype ZSTD_parameter = ZSTD_c_compressionLevel | ZSTD_c_checksumFlag | ZSTD_d_windowLogMax

record ('e, 'd) zstd_engine =
  ZSTD_isError :: "nat \<Rightarrow> bool"
  ZSTD_getErrorCode :: "nat \<Rightarrow> int"
  ZSTD_createCCtx :: "'e option"
  ZSTD_createDCtx :: "'d option"
  ZSTD_CCtx_setParameter :: "'e option \<Rightarrow> ZSTD_parameter \<Rightarrow> int \<Rightarrow> nat \<times> 'e option"
  ZSTD_DCtx_setParameter :: "'d option \<Rightarrow> ZSTD_parameter \<Rightarrow> int \<Rightarrow> nat \<times> 'd option"
  ZSTD_CCtx_reset :: "'e option \<Rightarrow> nat \<times> 'e option"
  ZSTD_DCtx_reset :: "'d option \<Rightarrow> nat \<times> 'd option"
  ZSTD_compressStream2 :: "ZSTD_EndDirective \<Rightarrow> 'e option frame_call"
  ZSTD_decompressStream :: "'d option frame_call"
  ZSTD_compressBound :: "nat \<Rightarrow> nat"

subsection \<open>State\<close>

definition ZU_INT_ZSTD_WINDOWLOG_DEFAULT :: int where "ZU_INT_ZSTD_WINDOWLOG_DEFAULT = 27"
definition ZU_INT_ZSTD_WINDOWLOG_FLOOR :: int where "ZU_INT_ZSTD_WINDOWLOG_FLOOR = 23"

record ('e, 'd) zstd_state =
  zs_encoder :: bool
  zs_cctx :: "'e option"
  zs_dctx :: "'d option"
  zs_level :: int
  zs_max_output :: nat
  zs_frames :: zu_int_frames
  zs_done :: bool

definition zstd_blank :: "('e, 'd) zstd_state" where
  "zstd_blank =
     \<lparr>zs_encoder = False, zs_cctx = None, zs_dctx = None, zs_level = 0, zs_max_output = 0,
      zs_frames = zu_int_frames_init ZU_INT_FRAMES_ZSTD 0, zs_done = False\<rparr>"

subsection \<open>Status mapping, window and level\<close>

definition zu_int_zstd_error :: "('e, 'd) zstd_engine \<Rightarrow> ('e, 'd) zstd_state \<Rightarrow> nat \<Rightarrow> zu_status" where
  "zu_int_zstd_error eng s r =
     (let c = ZSTD_getErrorCode eng r
      in if c = ZSTD_error_checksum_wrong then ZU_ERR_CHECKSUM
         else if c = ZSTD_error_memory_allocation then ZU_ERR_MEMORY
         else if c = ZSTD_error_frameParameter_windowTooLarge
              then (if zs_max_output s \<noteq> 0 then ZU_ERR_OUTPUT_LIMIT else ZU_ERR_UNSUPPORTED)
         else if c = ZSTD_error_dictionary_wrong \<or> c = ZSTD_error_frameParameter_unsupported \<or>
                 c = ZSTD_error_version_unsupported then ZU_ERR_UNSUPPORTED
         else if c = ZSTD_error_parameter_unsupported \<or> c = ZSTD_error_parameter_outOfBound
              then ZU_ERR_INVALID_ARGUMENT
         else if zs_encoder s then ZU_ERR_INTERNAL else ZU_ERR_INVALID_DATA)"

function ceil_log2_loop :: "nat \<Rightarrow> nat \<Rightarrow> nat" where
  "ceil_log2_loop n b = (if b < 63 \<and> 2 ^ b < n then ceil_log2_loop n (b + 1) else b)"
  by pat_completeness auto
termination by (relation "measure (\<lambda>(n, b). 63 - b)") auto

declare ceil_log2_loop.simps [simp del]

definition zu_int_ceil_log2 :: "nat \<Rightarrow> nat" where
  "zu_int_ceil_log2 n = ceil_log2_loop n 0"

text \<open>The value that \<^verbatim>\<open>zu_int_zstd_window\<close> computes, and the call that sets it.\<close>

definition zstd_window_log :: "nat \<Rightarrow> int" where
  "zstd_window_log max_output =
     (let wlog = ZU_INT_ZSTD_WINDOWLOG_DEFAULT
      in if max_output \<noteq> 0
         then (let want = int (zu_int_ceil_log2 max_output);
                   want' = (if want < ZU_INT_ZSTD_WINDOWLOG_FLOOR then ZU_INT_ZSTD_WINDOWLOG_FLOOR else want)
               in if want' < wlog then want' else wlog)
         else wlog)"

definition zu_int_zstd_window ::
  "('e, 'd) zstd_engine \<Rightarrow> ('e, 'd) zstd_state \<Rightarrow> zu_status \<times> ('e, 'd) zstd_state" where
  "zu_int_zstd_window eng s =
     (case ZSTD_DCtx_setParameter eng (zs_dctx s) ZSTD_d_windowLogMax (zstd_window_log (zs_max_output s)) of
        (r, c) \<Rightarrow> (if ZSTD_isError eng r then ZU_ERR_INTERNAL else ZU_OK, s\<lparr>zs_dctx := c\<rparr>))"

definition zu_int_zstd_level ::
  "('e, 'd) zstd_engine \<Rightarrow> ('e, 'd) zstd_state \<Rightarrow> int \<Rightarrow> zu_status \<times> ('e, 'd) zstd_state" where
  "zu_int_zstd_level eng s level =
     (let lv = (if level = ZU_LEVEL_DEFAULT then ZSTD_CLEVEL_DEFAULT else level)
      in case ZSTD_CCtx_setParameter eng (zs_cctx s) ZSTD_c_compressionLevel lv of
           (r, c) \<Rightarrow>
             (let s1 = s\<lparr>zs_cctx := c\<rparr>
              in if ZSTD_isError eng r then (ZU_ERR_INVALID_ARGUMENT, s1) else (ZU_OK, s1\<lparr>zs_level := lv\<rparr>)))"

subsection \<open>Life cycle\<close>

definition zstd_encoder_new ::
  "alloc \<Rightarrow> ('e, 'd) zstd_engine \<Rightarrow> zu_encoder_opts \<Rightarrow> zu_status \<times> ('e, 'd) zstd_state option" where
  "zstd_encoder_new mem eng os =
     (if \<not> mem ''zstd_state'' 1 then (ZU_ERR_MEMORY, None)
      else
        (let s = zstd_blank\<lparr>zs_encoder := True, zs_cctx := ZSTD_createCCtx eng\<rparr>
         in if zs_cctx s = None then (ZU_ERR_MEMORY, None)
            else
              (case zu_int_zstd_level eng s (eo_level os) of
                 (st, s1) \<Rightarrow>
                   if st \<noteq> ZU_OK then (st, None)
                   else (case ZSTD_CCtx_setParameter eng (zs_cctx s1) ZSTD_c_checksumFlag 1 of
                           (r, c) \<Rightarrow>
                             if ZSTD_isError eng r then (ZU_ERR_INTERNAL, None)
                             else (ZU_OK, Some (s1\<lparr>zs_cctx := c\<rparr>))))))"

definition zstd_decoder_new ::
  "alloc \<Rightarrow> ('e, 'd) zstd_engine \<Rightarrow> zu_decoder_opts \<Rightarrow> zu_status \<times> ('e, 'd) zstd_state option" where
  "zstd_decoder_new mem eng os =
     (if \<not> mem ''zstd_state'' 1 then (ZU_ERR_MEMORY, None)
      else
        (let s = zstd_blank\<lparr>zs_dctx := ZSTD_createDCtx eng\<rparr>
         in if zs_dctx s = None then (ZU_ERR_MEMORY, None)
            else
              (let s1 = s\<lparr>zs_max_output := do_max_output os,
                          zs_frames := zu_int_frames_init ZU_INT_FRAMES_ZSTD (do_flags os)\<rparr>
               in case zu_int_zstd_window eng s1 of
                    (st, s2) \<Rightarrow> if st \<noteq> ZU_OK then (st, None) else (ZU_OK, Some s2))))"

definition zstd_free :: "('e, 'd) zstd_state option \<Rightarrow> string list" where
  "zstd_free st =
     (case st of None \<Rightarrow> [] | Some s \<Rightarrow> [''ZSTD_freeCCtx'', ''ZSTD_freeDCtx'', ''free''])"

definition zstd_encoder_reset ::
  "('e, 'd) zstd_engine \<Rightarrow> ('e, 'd) zstd_state option \<Rightarrow> zu_encoder_opts \<Rightarrow> zu_status \<times> ('e, 'd) zstd_state option" where
  "zstd_encoder_reset eng st os =
     (case st of
        None \<Rightarrow> (ZU_ERR_INVALID_ARGUMENT, None)
      | Some s \<Rightarrow>
          if zs_cctx s = None then (ZU_ERR_INVALID_ARGUMENT, Some s)
          else
            (case ZSTD_CCtx_reset eng (zs_cctx s) of
               (r, c) \<Rightarrow>
                 (let s1 = s\<lparr>zs_cctx := c\<rparr>
                  in if ZSTD_isError eng r then (ZU_ERR_INTERNAL, Some s1)
                     else if eo_level os \<noteq> ZU_LEVEL_DEFAULT \<and> eo_level os \<noteq> zs_level s1
                     then (case zu_int_zstd_level eng s1 (eo_level os) of
                             (rs, s2) \<Rightarrow> if rs \<noteq> ZU_OK then (rs, Some s2) else (ZU_OK, Some (s2\<lparr>zs_done := False\<rparr>)))
                     else (ZU_OK, Some (s1\<lparr>zs_done := False\<rparr>)))))"

definition zstd_decoder_reset ::
  "('e, 'd) zstd_engine \<Rightarrow> ('e, 'd) zstd_state option \<Rightarrow> zu_decoder_opts \<Rightarrow> zu_status \<times> ('e, 'd) zstd_state option" where
  "zstd_decoder_reset eng st os =
     (case st of
        None \<Rightarrow> (ZU_ERR_INVALID_ARGUMENT, None)
      | Some s \<Rightarrow>
          if zs_dctx s = None then (ZU_ERR_INVALID_ARGUMENT, Some s)
          else
            (case ZSTD_DCtx_reset eng (zs_dctx s) of
               (r, c) \<Rightarrow>
                 (let s1 = s\<lparr>zs_dctx := c\<rparr>
                  in if ZSTD_isError eng r then (ZU_ERR_INTERNAL, Some s1)
                     else map_prod id Some
                       (zu_int_zstd_window eng
                         (s1\<lparr>zs_max_output := do_max_output os,
                            zs_frames := zu_int_frames_init ZU_INT_FRAMES_ZSTD (do_flags os)\<rparr>)))))"

subsection \<open>The encoder\<close>

definition zstd_op :: "zu_flush \<Rightarrow> ZSTD_EndDirective" where
  "zstd_op flush =
     (if flush = ZU_FINISH then ZSTD_e_end else if flush = ZU_FLUSH then ZSTD_e_flush else ZSTD_e_continue)"

definition zstd_encoder_step ::
  "('e, 'd) zstd_engine \<Rightarrow> ZSTD_EndDirective \<Rightarrow> ('e, 'd) zstd_state \<times> zu_buffer \<Rightarrow> ('e, 'd) zstd_state framed_step" where
  "zstd_encoder_step eng op sb =
     (case sb of (s, b) \<Rightarrow>
        (case ZSTD_compressStream2 eng op (zs_cctx s) (in_window b) (avail_out b) of
           (r, used, ws, n, c) \<Rightarrow>
             (let s1 = s\<lparr>zs_cctx := c\<rparr>; b1 = write_out ws b
              in if ZSTD_isError eng r then Ret (zu_int_zstd_error eng s1 r, s1, b1)
                 else
                   (let b2 = advance used n b1; spent = (src_pos b2 = src_size b2)
                    in if op = ZSTD_e_end \<and> r = 0 then Ret (ZU_STREAM_END, s1\<lparr>zs_done := True\<rparr>, b2)
                       else if spent \<and> (op = ZSTD_e_continue \<or> r = 0) then Ret (ZU_NEED_INPUT, s1, b2)
                       else if used = 0 \<and> n = 0
                       then Ret (if avail_out b = 0 then ZU_NEED_OUTPUT else ZU_ERR_INTERNAL, s1, b2)
                       else Next (s1, b2)))))"

definition zstd_encoder_process :: "('e, 'd) zstd_engine \<Rightarrow> ('e, 'd) zstd_state process_fn" where
  "zstd_encoder_process eng st b flush =
     (case st of
        None \<Rightarrow> Some (ZU_ERR_INVALID_ARGUMENT, None, b)
      | Some s \<Rightarrow>
          if zs_done s then Some (ZU_STREAM_END, Some s, b)
          else map_option (\<lambda>(r, s', b'). (r, Some s', b'))
                 (run_loop (\<lambda>sb. Some (zstd_encoder_step eng (zstd_op flush) sb)) (s, b)))"

subsection \<open>The decoder\<close>

definition zstd_feed_held :: "('e, 'd) zstd_engine \<Rightarrow> ('e, 'd) zstd_state zu_int_frames_feed" where
  "zstd_feed_held eng s p =
     (case ZSTD_decompressStream eng (zs_dctx s) p 0 of
        (r, used, ws, n, c) \<Rightarrow>
          (let s1 = s\<lparr>zs_dctx := c\<rparr>
           in if ZSTD_isError eng r then (zu_int_zstd_error eng s1 r, s1)
              else (if used = length p then ZU_OK else ZU_ERR_INTERNAL, s1)))"

text \<open>On an error \<^verbatim>\<open>*written\<close> and \<^verbatim>\<open>*frame_end\<close> keep the zeroes of the caller.\<close>

definition zstd_probe :: "('e, 'd) zstd_engine \<Rightarrow> ('e, 'd) zstd_state zu_int_frames_probe" where
  "zstd_probe eng s one =
     (case ZSTD_decompressStream eng (zs_dctx s) [] 1 of
        (r, used, ws, n, c) \<Rightarrow>
          (let s1 = s\<lparr>zs_dctx := c\<rparr>; one' = (case ws of [] \<Rightarrow> one | w # _ \<Rightarrow> w)
           in if ZSTD_isError eng r then (zu_int_zstd_error eng s1 r, one', 0, False, s1)
              else (ZU_OK, one', n, r = 0, s1)))"

definition zstd_decoder_step ::
  "('e, 'd) zstd_engine \<Rightarrow> zu_flush \<Rightarrow> ('e, 'd) zstd_state \<times> zu_buffer \<Rightarrow> ('e, 'd) zstd_state framed_step" where
  "zstd_decoder_step eng flush sb =
     (case sb of (s, b) \<Rightarrow>
        (case zu_int_frames_pay (zs_frames s) b of
           (go, f, b0) \<Rightarrow>
             (let s0 = s\<lparr>zs_frames := f\<rparr>
              in if \<not> go then Ret (ZU_NEED_OUTPUT, s0, b0)
                 else if fr_state f \<noteq> ZU_INT_FRAME_BODY
                 then (case zu_int_frames_between f b0 flush (zstd_feed_held eng) s0 of
                         (fs, f1, b1, s1) \<Rightarrow>
                           (let s2 = s1\<lparr>zs_frames := f1\<rparr>
                            in if fs \<noteq> ZU_OK then Ret (fs, s2, b1) else Next (s2, b1)))
                 else
                   (case ZSTD_decompressStream eng (zs_dctx s0) (in_window b0) (avail_out b0) of
                      (r, used, ws, n, c) \<Rightarrow>
                        (let s1 = s0\<lparr>zs_dctx := c\<rparr>; b1 = write_out ws b0
                         in if ZSTD_isError eng r then Ret (zu_int_zstd_error eng s1 r, s1, b1)
                            else
                              (let b2 = advance used n b1
                               in if r = 0 then Next (s1\<lparr>zs_frames := zu_int_frames_ended f\<rparr>, b2)
                                  else if used = 0 \<and> n = 0
                                  then (case zu_int_frames_stalled f (avail_in b0) (avail_out b0) flush (zstd_probe eng) s1 of
                                          (ss, f1, s2) \<Rightarrow>
                                            (let s3 = s2\<lparr>zs_frames := f1\<rparr>
                                             in if ss \<noteq> ZU_OK then Ret (ss, s3, b2) else Next (s3, b2)))
                                  else Next (s1, b2)))))))"

definition zstd_decoder_process :: "('e, 'd) zstd_engine \<Rightarrow> ('e, 'd) zstd_state process_fn" where
  "zstd_decoder_process eng st b flush =
     (case st of
        None \<Rightarrow> Some (ZU_ERR_INVALID_ARGUMENT, None, b)
      | Some s \<Rightarrow> map_option (\<lambda>(r, s', b'). (r, Some s', b'))
                    (run_loop (\<lambda>sb. Some (zstd_decoder_step eng flush sb)) (s, b)))"

subsection \<open>Bound and vtable\<close>

definition zstd_bound :: "('e, 'd) zstd_engine \<Rightarrow> int \<Rightarrow> nat \<Rightarrow> zu_status \<times> nat option" where
  "zstd_bound eng level n =
     (let b = ZSTD_compressBound eng n
      in if ZSTD_isError eng b \<or> b = 0 then (ZU_ERR_INVALID_ARGUMENT, None) else (ZU_OK, Some b))"

definition zu_int_zstd_magic :: "byte list" where
  "zu_int_zstd_magic = [0x28, 0xB5, 0x2F, 0xFD]"

definition zu_int_codec_zstd :: "alloc \<Rightarrow> ('e, 'd) zstd_engine \<Rightarrow> ('e, 'd) zstd_state zu_codec_vtable" where
  "zu_int_codec_zstd mem eng =
     \<lparr>v_struct_size = sizeof_zu_codec_vtable, v_codec = ZU_CODEC_ZSTD,
      v_name = Some ''zstd'', v_content_encoding = Some ''zstd'', v_source = Some ''zukomp'',
      v_level_min = - 131072, v_level_max = 22, v_level_default = ZSTD_CLEVEL_DEFAULT,
      v_flags = ZU_CAN_ENCODE OR ZU_CAN_DECODE OR ZU_CAN_FLUSH,
      v_magic = Some zu_int_zstd_magic, v_magic_len = 4, v_magic_offset = 0, v_sniff = None,
      v_encoder_new = Some (zstd_encoder_new mem eng), v_encoder_process = Some (zstd_encoder_process eng),
      v_encoder_reset = Some (zstd_encoder_reset eng), v_encoder_free = Some zstd_free,
      v_decoder_new = Some (zstd_decoder_new mem eng), v_decoder_process = Some (zstd_decoder_process eng),
      v_decoder_reset = Some (zstd_decoder_reset eng), v_decoder_free = Some zstd_free,
      v_bound = Some (zstd_bound eng), v_level_fast = 1, v_level_best = 19\<rparr>"

subsection \<open>The decoder is an instance of the shared loop\<close>

definition zstd_upd :: "zu_int_frames \<Rightarrow> 'd option \<Rightarrow> ('e, 'd) zstd_state \<Rightarrow> ('e, 'd) zstd_state" where
  "zstd_upd f c s = s\<lparr>zs_frames := f, zs_dctx := c\<rparr>"

lemma zstd_error_stops: "\<not> is_progress (zu_int_zstd_error eng s r)"
  by (simp add: zu_int_zstd_error_def Let_def)

lemma zstd_feed_calls:
  assumes "zstd_feed_held eng s p = (st, s')"
  shows "\<exists>r used ws n. ZSTD_decompressStream eng (zs_dctx s) p 0 = (r, used, ws, n, zs_dctx s') \<and>
    (if st = ZU_OK then \<not> ZSTD_isError eng r \<and> used = length p else \<not> is_progress st)"
proof -
  obtain r used ws n c where "ZSTD_decompressStream eng (zs_dctx s) p 0 = (r, used, ws, n, c)" by (metis prod_cases5)
  moreover have "zu_int_zstd_error eng s' r \<noteq> ZU_OK" using zstd_error_stops [of eng s' r] by auto
  ultimately show ?thesis
    using assms zstd_error_stops [of eng s' r] by (auto simp: zstd_feed_held_def Let_def split: if_splits)
qed

lemma zstd_probe_calls:
  assumes "zstd_probe eng s x = (st, y, n, e, s')"
  shows "\<exists>r used ws n'. ZSTD_decompressStream eng (zs_dctx s) [] 1 = (r, used, ws, n', zs_dctx s') \<and>
    (if st = ZU_OK then \<not> ZSTD_isError eng r \<and> e = (r = 0) \<and> n = n' \<and> (0 < n \<and> ws \<noteq> [] \<longrightarrow> y = ws ! 0)
     else \<not> is_progress st)"
proof -
  obtain r used ws n' c where "ZSTD_decompressStream eng (zs_dctx s) [] 1 = (r, used, ws, n', c)" by (metis prod_cases5)
  moreover have "zu_int_zstd_error eng s' r \<noteq> ZU_OK" using zstd_error_stops [of eng s' r] by auto
  ultimately show ?thesis
    using assms zstd_error_stops [of eng s' r]
    by (auto simp: zstd_probe_def Let_def split: if_splits list.splits)
qed

lemma zstd_upd_order: "s\<lparr>zs_frames := f, zs_dctx := c\<rparr> = s\<lparr>zs_dctx := c, zs_frames := f\<rparr>"
  by simp

lemma zstd_step_shape:
  "zstd_decoder_step eng flush (s, b) =
    framed_turn zs_frames zs_dctx zstd_upd (ZSTD_decompressStream eng) (ZSTD_isError eng) (zu_int_zstd_error eng)
      (zstd_feed_held eng) (zstd_probe eng) flush (s, b)"
  unfolding zstd_decoder_step_def framed_turn_def zstd_upd_def Let_def
  by (simp add: zstd_upd_order cong: if_cong split del: if_split)

interpretation zstd: framed_decoder zs_frames zs_dctx zstd_upd "ZSTD_decompressStream eng" "ZSTD_isError eng"
  "zu_int_zstd_error eng" "zstd_feed_held eng" "zstd_probe eng" "zstd_decoder_step eng" "zstd_decoder_process eng"
  for eng :: "('e, 'd) zstd_engine"
proof unfold_locales
  fix f c and s :: "('e, 'd) zstd_state"
  show "zs_frames (zstd_upd f c s) = f" "zs_dctx (zstd_upd f c s) = c" by (simp_all add: zstd_upd_def)
next
  fix so :: "('e, 'd) zstd_state option" and b flush
  show "zstd_decoder_process eng so b flush =
    (case so of None \<Rightarrow> Some (ZU_ERR_INVALID_ARGUMENT, None, b)
     | Some s \<Rightarrow> map_option (\<lambda>(r, s', b'). (r, Some s', b')) (run_loop (\<lambda>sb. Some (zstd_decoder_step eng flush sb)) (s, b)))"
    by (simp add: zstd_decoder_process_def)
qed (fact zstd_error_stops zstd_feed_calls zstd_probe_calls zstd_step_shape)+

subsection \<open>The encoder\<close>

text \<open>What the documentation of \<^verbatim>\<open>ZSTD_compressStream2\<close> promises on a valid context.\<close>

definition zstd_enc_contract :: "('e option \<Rightarrow> bool) \<Rightarrow> ('e, 'd) zstd_engine \<Rightarrow> bool" where
  "zstd_enc_contract valid eng \<longleftrightarrow>
     (\<forall>op c win room r used ws n c'. valid c \<longrightarrow> ZSTD_compressStream2 eng op c win room = (r, used, ws, n, c') \<longrightarrow>
        used \<le> length win \<and> length ws \<le> room \<and> n \<le> length ws \<and> (\<not> ZSTD_isError eng r \<longrightarrow> valid c'))"

lemma zstd_enc_contractD:
  assumes "zstd_enc_contract valid eng" "valid c" "ZSTD_compressStream2 eng op c win room = (r, used, ws, n, c')"
  shows "used \<le> length win" "length ws \<le> room" "n \<le> length ws" "\<not> ZSTD_isError eng r \<Longrightarrow> valid c'"
  using assms unfolding zstd_enc_contract_def by blast+

text \<open>The library's history up to the end of one frame: what it was given, what it wrote, and whether its
  last call ended the frame.\<close>

inductive zstd_written ::
  "('e, 'd) zstd_engine \<Rightarrow> 'e option \<Rightarrow> byte list \<Rightarrow> byte list \<Rightarrow> bool \<Rightarrow> 'e option \<Rightarrow> bool"
  for eng :: "('e, 'd) zstd_engine" and c0 :: "'e option" where
  start: "zstd_written eng c0 [] [] False c0"
| call: "zstd_written eng c0 i out False c \<Longrightarrow> ZSTD_compressStream2 eng op c win room = (r, used, ws, n, c') \<Longrightarrow>
    \<not> ZSTD_isError eng r \<Longrightarrow>
    zstd_written eng c0 (i @ take used win) (out @ take n ws) (op = ZSTD_e_end \<and> r = 0) c'"

definition zstd_enc_at :: "('e, 'd) zstd_engine \<Rightarrow> 'e option \<Rightarrow> ('e, 'd) zstd_state \<Rightarrow> byte list \<Rightarrow> byte list \<Rightarrow> bool" where
  "zstd_enc_at eng c0 s i out \<longleftrightarrow> zstd_written eng c0 i out (zs_done s) (zs_cctx s)"

definition zstd_enc_kept ::
  "('e, 'd) zstd_engine \<Rightarrow> ('e option \<Rightarrow> bool) \<Rightarrow> 'e option \<Rightarrow> ('e, 'd) zstd_state \<Rightarrow> zu_buffer \<Rightarrow>
    ('e, 'd) zstd_state \<Rightarrow> zu_buffer \<Rightarrow> bool \<Rightarrow> bool" where
  "zstd_enc_kept eng valid c0 s b s' b' good \<longleftrightarrow> buf_adv b b' \<and>
     (good \<longrightarrow> valid (zs_cctx s') \<and>
        (\<forall>i out. zstd_enc_at eng c0 s i out \<longrightarrow> zstd_enc_at eng c0 s' (i @ consumed b b') (out @ emitted b b')))"

lemma zstd_enc_kept_trans:
  assumes "zstd_enc_kept eng valid c0 s b s1 b1 True" "zstd_enc_kept eng valid c0 s1 b1 s2 b2 g"
  shows "zstd_enc_kept eng valid c0 s b s2 b2 g"
proof -
  have a: "buf_adv b b1" "buf_adv b1 b2" using assms by (simp_all add: zstd_enc_kept_def)
  show ?thesis
    using assms buf_adv_trans [OF a]
    unfolding zstd_enc_kept_def consumed_trans [OF a] emitted_trans [OF a] by (simp flip: append_assoc)
qed

lemma zstd_enc_turn:
  assumes c: "zstd_enc_contract valid eng" and v: "valid (zs_cctx s)" and wf: "buf_wf b" and nd: "\<not> zs_done s"
  shows "case zstd_encoder_step eng op (s, b) of
      Ret (st, s', b') \<Rightarrow> zstd_enc_kept eng valid c0 s b s' b' (is_progress st) \<and> (st = ZU_STREAM_END \<longrightarrow> zs_done s') \<and>
        names st b'
    | Next (s', b') \<Rightarrow> zstd_enc_kept eng valid c0 s b s' b' True \<and> \<not> zs_done s' \<and>
        avail_in b' + avail_out b' < avail_in b + avail_out b"
proof -
  obtain r used ws n k where cl: "ZSTD_compressStream2 eng op (zs_cctx s) (in_window b) (avail_out b) = (r, used, ws, n, k)"
    by (metis prod_cases5)
  note cc = zstd_enc_contractD [OF c v cl]
  have len: "length (in_window b) = avail_in b" by (rule in_window_length [OF wf])
  have u: "used \<le> avail_in b" using cc(1) len by simp
  let ?b = "advance used n (write_out ws b)" and ?s = "s\<lparr>zs_cctx := k\<rparr>"
  note mv = advance_moves [OF wf u cc(2,3)]
  have wf1: "buf_wf ?b" using mv(1) wf by (rule buf_adv_wf [rotated])
  show ?thesis
  proof (cases "ZSTD_isError eng r")
    case True
    then have "zstd_encoder_step eng op (s, b) = Ret (zu_int_zstd_error eng ?s r, ?s, write_out ws b)"
      using cl by (simp add: zstd_encoder_step_def Let_def)
    with write_out_adv [OF wf cc(2)] zstd_error_stops [of eng ?s r] show ?thesis
      by (auto simp: zstd_enc_kept_def names_stop)
  next
    case nb: False
    have kept: "zstd_enc_kept eng valid c0 s b s' ?b True"
      if "zs_cctx s' = k" "zs_done s' \<longleftrightarrow> op = ZSTD_e_end \<and> r = 0" for s'
      using mv cc(4) [OF nb] that nd zstd_written.call [OF _ cl nb, of c0]
      unfolding zstd_enc_kept_def zstd_enc_at_def by simp
    have rooms: "avail_in ?b = avail_in b - used" "avail_out ?b = avail_out b - n"
      using adv_room [OF wf mv(1)] mv(2,3) u cc(3) len by simp_all
    have step: "zstd_encoder_step eng op (s, b) =
        (if op = ZSTD_e_end \<and> r = 0 then Ret (ZU_STREAM_END, ?s\<lparr>zs_done := True\<rparr>, ?b)
         else if src_pos ?b = src_size ?b \<and> (op = ZSTD_e_continue \<or> r = 0) then Ret (ZU_NEED_INPUT, ?s, ?b)
         else if used = 0 \<and> n = 0 then Ret (if avail_out b = 0 then ZU_NEED_OUTPUT else ZU_ERR_INTERNAL, ?s, ?b)
         else Next (?s, ?b))"
      using cl nb by (simp add: zstd_encoder_step_def Let_def)
    have spent: "avail_in ?b = 0" if "src_pos ?b = src_size ?b" using that avail_in_wf [OF wf1] by simp
    have k: "zstd_enc_kept eng valid c0 s b ?s ?b True" if "\<not> (op = ZSTD_e_end \<and> r = 0)" by (rule kept) (use nd that in simp_all)
    have kd: "zstd_enc_kept eng valid c0 s b (?s\<lparr>zs_done := True\<rparr>) ?b True" if "op = ZSTD_e_end \<and> r = 0"
      by (rule kept) (use that in simp_all)
    have ki: "zstd_enc_kept eng valid c0 s b ?s ?b False" if "\<not> (op = ZSTD_e_end \<and> r = 0)"
      using k [OF that] by (simp add: zstd_enc_kept_def)
    consider "op = ZSTD_e_end \<and> r = 0" | "\<not> (op = ZSTD_e_end \<and> r = 0)" "src_pos ?b = src_size ?b \<and> (op = ZSTD_e_continue \<or> r = 0)"
      | "\<not> (op = ZSTD_e_end \<and> r = 0)" "\<not> (src_pos ?b = src_size ?b \<and> (op = ZSTD_e_continue \<or> r = 0))" "used = 0 \<and> n = 0"
      | "\<not> (op = ZSTD_e_end \<and> r = 0)" "\<not> (src_pos ?b = src_size ?b \<and> (op = ZSTD_e_continue \<or> r = 0))" "\<not> (used = 0 \<and> n = 0)"
      by blast
    then show ?thesis
    proof cases
      case 1
      with step kd show ?thesis by (simp add: names_def)
    next
      case 2
      with step k [OF 2(1)] spent show ?thesis by (simp add: names_def)
    next
      case 3
      with step k [OF 3(1)] ki [OF 3(1)] rooms show ?thesis by (auto simp: names_def)
    next
      case 4
      have "n \<le> avail_out b" using cc(2,3) by simp
      with 4 u rooms have "avail_in ?b + avail_out ?b < avail_in b + avail_out b" by auto
      moreover have "zstd_encoder_step eng op (s, b) = Next (?s, ?b)"
        unfolding step if_not_P [OF 4(1)] if_not_P [OF 4(2)] if_not_P [OF 4(3)] by (rule refl)
      ultimately show ?thesis using k [OF 4(1)] nd by simp
    qed
  qed
qed

lemma zstd_encoder_returns:
  assumes c: "zstd_enc_contract valid eng" and v: "valid (zs_cctx s)" and wf: "buf_wf b"
  shows "\<exists>st s' b'. zstd_encoder_process eng (Some s) b flush = Some (st, Some s', b') \<and>
    zstd_enc_kept eng valid c0 s b s' b' (is_progress st) \<and> (st = ZU_STREAM_END \<longrightarrow> zs_done s') \<and>
    names st b'"
proof (cases "zs_done s")
  case True
  with v wf show ?thesis by (simp add: zstd_encoder_process_def zstd_enc_kept_def names_def)
next
  case nd: False
  let ?I = "\<lambda>(s1, b1). zstd_enc_kept eng valid c0 s b s1 b1 True \<and> \<not> zs_done s1"
  let ?Q = "\<lambda>(st, s', b'). zstd_enc_kept eng valid c0 s b s' b' (is_progress st) \<and> (st = ZU_STREAM_END \<longrightarrow> zs_done s') \<and>
      names st b'"
  have "\<exists>q. run_loop (\<lambda>sb. Some (zstd_encoder_step eng (zstd_op flush) sb)) (s, b) = Some q \<and> ?Q q"
  proof (rule run_loop_measure [where I = ?I and m = "\<lambda>(s, b). avail_in b + avail_out b"])
    show "?I (s, b)" using v wf nd by (simp add: zstd_enc_kept_def)
  next
    fix x assume "?I x"
    then obtain s1 b1 where x: "x = (s1, b1)" and k: "zstd_enc_kept eng valid c0 s b s1 b1 True" "\<not> zs_done s1"
      by (cases x) simp
    have wf1: "buf_wf b1" and v1: "valid (zs_cctx s1)" using k wf by (auto simp: zstd_enc_kept_def intro: buf_adv_wf)
    note t = zstd_enc_turn [OF c v1 wf1 k(2), of c0 "zstd_op flush"] and tr = zstd_enc_kept_trans [OF k(1)]
    show "(\<exists>r. Some (zstd_encoder_step eng (zstd_op flush) x) = Some (Ret r) \<and> ?Q r) \<or>
        (\<exists>y. Some (zstd_encoder_step eng (zstd_op flush) x) = Some (Next y) \<and> ?I y \<and>
          (case y of (s, b) \<Rightarrow> avail_in b + avail_out b) < (case x of (s, b) \<Rightarrow> avail_in b + avail_out b))"
    proof (cases "zstd_encoder_step eng (zstd_op flush) (s1, b1)")
      case (Ret q)
      obtain st s2 b2 where "q = (st, s2, b2)" by (metis prod_cases3)
      with t Ret tr x show ?thesis by simp
    next
      case (Next q)
      obtain s2 b2 where "q = (s2, b2)" by fastforce
      with t Next tr x show ?thesis by simp
    qed
  qed
  then obtain q where q: "run_loop (\<lambda>sb. Some (zstd_encoder_step eng (zstd_op flush) sb)) (s, b) = Some q" "?Q q" by blast
  obtain st s' b' where "q = (st, s', b')" by (metis prod_cases3)
  with q nd show ?thesis by (simp add: zstd_encoder_process_def)
qed

lemma zstd_encoder_trace:
  assumes c: "zstd_enc_contract valid eng" and v: "valid (zs_cctx s0)" and nd: "\<not> zs_done s0"
    and run: "codec_run (zstd_encoder_process eng) s0 i out s st"
  shows "is_progress st \<longrightarrow> valid (zs_cctx s) \<and> zstd_enc_at eng (zs_cctx s0) s i out \<and> (st = ZU_STREAM_END \<longrightarrow> zs_done s)"
  using run
proof (induction rule: codec_run.induct)
  case start
  with v nd zstd_written.start [of eng "zs_cctx s0"] show ?case by (auto simp: zstd_enc_at_def)
next
  case (call i out s st b flush st' s' b')
  then have "valid (zs_cctx s)" by simp
  from zstd_encoder_returns [OF c this call.hyps(3), of flush "zs_cctx s0"] call.hyps(2,4) call.IH
  show ?case by (auto simp: zstd_enc_kept_def)
qed

subsection \<open>The contracts of the driver\<close>

definition zstd_inv :: "('e, 'd) zstd_state option \<Rightarrow> bool" where
  "zstd_inv st \<longleftrightarrow> (\<forall>s. st = Some s \<longrightarrow> frames_ok (zs_frames s))"

lemma zstd_window_frames [simp]: "zu_int_zstd_window eng s = (st, s') \<Longrightarrow> zs_frames s' = zs_frames s"
  by (auto simp: zu_int_zstd_window_def split: prod.splits)

lemma zstd_level_frames: "zu_int_zstd_level eng s l = (st, s') \<Longrightarrow> zs_frames s' = zs_frames s"
  by (auto simp: zu_int_zstd_level_def Let_def split: prod.splits if_splits)

lemma zstd_decoder_new_frames:
  "zstd_decoder_new mem eng os = (ZU_OK, Some s) \<Longrightarrow> zs_frames s = zu_int_frames_init ZU_INT_FRAMES_ZSTD (do_flags os)"
  by (auto simp: zstd_decoder_new_def Let_def split: if_splits prod.splits)

lemma zstd_decoder_codec:
  fixes eng :: "('e, 'd) zstd_engine"
  assumes c: "frame_contract (\<lambda>_. True) fresh (ZSTD_isError eng) (ZSTD_decompressStream eng)"
  shows "decoder_codec zstd_inv (zu_int_codec_zstd mem eng)"
proof
  fix os s assume "the (v_decoder_new (zu_int_codec_zstd mem eng)) os = (ZU_OK, s)"
  then show "zstd_inv s"
    by (cases s) (auto simp: zstd_inv_def zu_int_codec_zstd_def dest: zstd_decoder_new_frames)
next
  fix so :: "('e, 'd) zstd_state option" and b flush assume i: "zstd_inv so" "buf_wf b"
  show "\<exists>st s' b'. the (v_decoder_process (zu_int_codec_zstd mem eng)) so b flush = Some (st, s', b') \<and> zstd_inv s' \<and> buf_adv b b'"
  proof (cases so)
    case None
    with i show ?thesis by (simp add: zu_int_codec_zstd_def zstd_decoder_process_def)
  next
    case (Some s)
    with i zstd.process_returns [OF c _ i(2), of s flush "zs_dctx s"] show ?thesis
      by (auto simp: zu_int_codec_zstd_def zstd_inv_def zstd.kept_def)
  qed
next
  fix f :: "('e, 'd) zstd_state option \<Rightarrow> zu_decoder_opts \<Rightarrow> zu_status \<times> ('e, 'd) zstd_state option" and so os st s'
  assume "v_decoder_reset (zu_int_codec_zstd mem eng) = Some f" "zstd_inv so" "f so os = (st, s')"
  then show "zstd_inv s'"
    by (cases so) (auto simp: zu_int_codec_zstd_def zstd_inv_def zstd_decoder_reset_def Let_def map_prod_def
        split: if_splits prod.splits)
qed

lemma zstd_encoder_codec:
  fixes eng :: "('e, 'd) zstd_engine"
  assumes c: "zstd_enc_contract (\<lambda>_. True) eng"
  shows "encoder_codec (\<lambda>_. True) (zu_int_codec_zstd mem eng)"
proof
  fix so :: "('e, 'd) zstd_state option" and b flush assume i: "buf_wf b"
  show "\<exists>st s' b'. the (v_encoder_process (zu_int_codec_zstd mem eng)) so b flush = Some (st, s', b') \<and> True \<and> buf_adv b b'"
  proof (cases so)
    case None
    with i show ?thesis by (simp add: zu_int_codec_zstd_def zstd_encoder_process_def)
  next
    case (Some s)
    with zstd_encoder_returns [OF c _ i, of s flush "zs_cctx s"] show ?thesis
      by (auto simp: zu_int_codec_zstd_def zstd_enc_kept_def)
  qed
qed simp_all

subsection \<open>The window ceiling\<close>

lemma ceil_log2_loop_spec:
  assumes "b \<le> 63" "\<And>k. k < b \<Longrightarrow> 2 ^ k < n"
  shows "ceil_log2_loop n b \<le> 63 \<and> (\<forall>k < ceil_log2_loop n b. 2 ^ k < n) \<and>
    (ceil_log2_loop n b < 63 \<longrightarrow> n \<le> 2 ^ ceil_log2_loop n b)"
  using assms
proof (induction n b rule: ceil_log2_loop.induct)
  case (1 n b)
  show ?case
  proof (cases "b < 63 \<and> 2 ^ b < n")
    case True
    then have "ceil_log2_loop n b = ceil_log2_loop n (b + 1)" by (subst ceil_log2_loop.simps) simp
    moreover have "2 ^ k < n" if "k < b + 1" for k using that 1(3) [of k] True by (cases "k = b") simp_all
    ultimately show ?thesis using 1(1) [OF True] True by simp
  next
    case False
    then have "ceil_log2_loop n b = b" by (subst ceil_log2_loop.simps) auto
    with False 1(2,3) show ?thesis by auto
  qed
qed

subsection \<open>An instance of the library\<close>

text \<open>Frames of the form magic, nonzero bytes, zero. The decoding context counts the magic bytes
  read; a byte \<open>0xFF\<close> in a body is an error, after which the context is broken.\<close>

fun toy_decompress :: "nat \<Rightarrow> byte list \<Rightarrow> nat \<Rightarrow> nat \<times> nat \<times> byte list \<times> nat" where
  "toy_decompress k [] room = (1, 0, [], k)"
| "toy_decompress k (x # xs) room =
     (if k > 4 then (0, 0, [], 0)
      else if k < 4 then (case toy_decompress (k + 1) xs room of (r, u, ws, k') \<Rightarrow> (r, u + 1, ws, k'))
      else if x = 0 then (0, 1, [], 0)
      else if x = 0xFF then (2, 1, [], 9)
      else if room = 0 then (1, 0, [], k)
      else (case toy_decompress k xs (room - 1) of (r, u, ws, k') \<Rightarrow> (r, u + 1, x # ws, k')))"

definition toy_call :: "nat option frame_call" where
  "toy_call c win room =
     (case toy_decompress (case c of None \<Rightarrow> 0 | Some k \<Rightarrow> k) win room of
        (r, u, ws, k) \<Rightarrow> (r, u, ws, length ws, Some k))"

definition toy_valid :: "nat option \<Rightarrow> bool" where
  "toy_valid c \<longleftrightarrow> (\<forall>k. c = Some k \<longrightarrow> k \<le> 4)"

definition toy_fresh :: "nat option \<Rightarrow> bool" where
  "toy_fresh c \<longleftrightarrow> c = Some 0"

lemma toy_decompress_ok:
  "k \<le> 4 \<Longrightarrow> toy_decompress k win room = (r, u, ws, k') \<Longrightarrow>
    u \<le> length win \<and> length ws \<le> room \<and> (r \<noteq> 2 \<longrightarrow> k' \<le> 4 \<and> (r = 0 \<longrightarrow> k' = 0) \<and> (k = 0 \<and> win \<noteq> [] \<longrightarrow> 0 < u))"
proof (induction k win room arbitrary: r u ws k' rule: toy_decompress.induct)
  case (1 k room)
  then show ?case by auto
next
  case (2 k x xs room)
  show ?case
  proof (cases "k < 4")
    case True
    obtain r1 u1 w1 k1 where e: "toy_decompress (k + 1) xs room = (r1, u1, w1, k1)" by (metis prod_cases4)
    from 2(1) [OF _ True _ e] True 2(4) e show ?thesis by auto
  next
    case False
    obtain r1 u1 w1 k1 where e: "toy_decompress k xs (room - 1) = (r1, u1, w1, k1)" by (metis prod_cases4)
    show ?thesis
    proof (cases "x = 0 \<or> x = 0xFF \<or> room = 0")
      case True
      with False 2(3,4) show ?thesis by (auto split: if_splits)
    next
      case ne: False
      from 2(2) [OF _ False _ _ _ _ e] ne False 2(3,4) e show ?thesis by auto
    qed
  qed
qed

lemma toy_contract: "frame_contract toy_valid toy_fresh (\<lambda>r. r = 2) toy_call"
  unfolding frame_contract_def
proof (intro allI impI)
  fix c win room r used ws n c'
  assume v: "toy_valid c" and cl: "toy_call c win room = (r, used, ws, n, c')"
  define k where "k = (case c of None \<Rightarrow> 0 | Some k \<Rightarrow> k)"
  have k: "k \<le> 4" using v by (auto simp: k_def toy_valid_def split: option.splits)
  obtain r1 u1 w1 k1 where e: "toy_decompress k win room = (r1, u1, w1, k1)" by (metis prod_cases4)
  from cl [unfolded toy_call_def, folded k_def, unfolded e]
  have eqs: "r = r1" "used = u1" "ws = w1" "n = length w1" "c' = Some k1" by auto
  have "toy_fresh c \<longrightarrow> k = 0" by (simp add: toy_fresh_def k_def)
  with toy_decompress_ok [OF k e] eqs
  show "used \<le> length win \<and> length ws \<le> room \<and> n \<le> length ws \<and>
      (\<not> r = 2 \<longrightarrow> toy_valid c' \<and> (r = 0 \<longrightarrow> toy_fresh c') \<and> (toy_fresh c \<and> win \<noteq> [] \<longrightarrow> 0 < used))"
    by (simp add: toy_valid_def toy_fresh_def)
qed

definition toy_compress :: "ZSTD_EndDirective \<Rightarrow> unit option frame_call" where
  "toy_compress op c win room =
     (let n = min (length win) room
      in if op = ZSTD_e_end \<and> length win < room then (0, length win, win @ [0], length win + 1, c)
         else (if op = ZSTD_e_end then 1 else 0, n, take n win, n, c))"

definition toy_zstd :: "(unit, nat) zstd_engine" where
  "toy_zstd =
     \<lparr>ZSTD_isError = (\<lambda>r. r = 2), ZSTD_getErrorCode = (\<lambda>r. 20), ZSTD_createCCtx = Some (), ZSTD_createDCtx = Some 0,
      ZSTD_CCtx_setParameter = (\<lambda>c p v. (0, c)), ZSTD_DCtx_setParameter = (\<lambda>c p v. (0, c)),
      ZSTD_CCtx_reset = (\<lambda>c. (0, c)), ZSTD_DCtx_reset = (\<lambda>c. (0, Some 0)),
      ZSTD_compressStream2 = toy_compress, ZSTD_decompressStream = toy_call,
      ZSTD_compressBound = (\<lambda>n. n + 1)\<rparr>"

lemma toy_zstd_contracts:
  "frame_contract toy_valid toy_fresh (ZSTD_isError toy_zstd) (ZSTD_decompressStream toy_zstd)"
  "zstd_enc_contract (\<lambda>_. True) toy_zstd"
  using toy_contract by (simp_all add: toy_zstd_def zstd_enc_contract_def toy_compress_def Let_def split: if_splits)

definition toy_dec_opts :: zu_decoder_opts where
  "toy_dec_opts = \<lparr>do_struct_size = 32, do_codec = ZU_CODEC_ZSTD, do_max_output = 0, do_max_ratio = 0, do_flags = 3,
     do_expected_size = 0\<rparr>"

definition toy_enc_opts :: zu_encoder_opts where
  "toy_enc_opts = \<lparr>eo_struct_size = 16, eo_codec = ZU_CODEC_ZSTD, eo_level = ZU_LEVEL_DEFAULT, eo_flags = 0\<rparr>"

definition toy_decoder :: "(unit, nat) zstd_state" where
  "toy_decoder = the (snd (zstd_decoder_new (\<lambda>_ _. True) toy_zstd toy_dec_opts))"

definition toy_encoder :: "(unit, nat) zstd_state" where
  "toy_encoder = the (snd (zstd_encoder_new (\<lambda>_ _. True) toy_zstd toy_enc_opts))"

lemma toy_coders:
  "zstd_decoder_new (\<lambda>_ _. True) toy_zstd toy_dec_opts = (ZU_OK, Some toy_decoder)"
  "zstd_encoder_new (\<lambda>_ _. True) toy_zstd toy_enc_opts = (ZU_OK, Some toy_encoder)"
  "toy_valid (zs_dctx toy_decoder)" "\<not> zs_done toy_encoder"
  by (simp_all add: toy_decoder_def toy_encoder_def zstd_decoder_new_def zstd_encoder_new_def toy_zstd_def toy_dec_opts_def
      toy_enc_opts_def zstd_blank_def zu_int_zstd_window_def zu_int_zstd_level_def toy_valid_def Let_def)

subsection \<open>Properties\<close>

text \<open>C21: a zstd decoder that reports the end of the stream, after any number of calls with any buffers
  and flush arguments, has delivered exactly the bytes that libzstd put out while reading exactly the
  bytes consumed, and libzstd's last word was that a frame is complete and verified. At most three
  bytes that begin a frame magic were consumed beyond that, and none where the caller does not allow
  several frames.\<close>

theorem zstd_decoder_exact:
  assumes "frame_contract valid fresh (ZSTD_isError eng) (ZSTD_decompressStream eng)"
    and "zstd_decoder_new mem eng os = (ZU_OK, Some s0)" "valid (zs_dctx s0)"
    and "codec_run (zstd_decoder_process eng) s0 i out s ZU_STREAM_END"
  shows "\<exists>i' tl c. i = i' @ tl \<and> lib_run (ZSTD_decompressStream eng) (ZSTD_isError eng) (zs_dctx s0) i' out True c \<and>
    length tl < 4 \<and> magic_prefix ZU_INT_FRAMES_ZSTD tl \<and> (\<not> has_flag (do_flags os) ZU_DEC_CONCAT_MEMBERS \<longrightarrow> tl = [])"
  by (rule zstd.decoder_exact [OF assms(1,3) zstd_decoder_new_frames [OF assms(2)] assms(4)])

definition toy_frames_in :: "byte list" where
  "toy_frames_in = [0x28, 0xB5, 0x2F, 0xFD, 7, 8, 0, 0x28, 0xB5, 0x2F, 0xFD, 9, 0]"

definition toy_buffer :: zu_buffer where
  "toy_buffer = one_shot_buffer toy_frames_in (replicate 5 0)"

lemma toy_decoder_call:
  "case zstd_decoder_process toy_zstd (Some toy_decoder) toy_buffer ZU_FINISH of
     Some (st, Some s', b') \<Rightarrow> st = ZU_STREAM_END \<and> consumed toy_buffer b' = toy_frames_in \<and>
       emitted toy_buffer b' = [7, 8, 9]
   | _ \<Rightarrow> False"
  by code_simp

lemma toy_decoder_run: "\<exists>s. codec_run (zstd_decoder_process toy_zstd) toy_decoder toy_frames_in [7, 8, 9] s ZU_STREAM_END"
proof -
  have wf: "buf_wf toy_buffer"
    unfolding toy_buffer_def by (intro one_shot_buffer_wf) (simp_all add: UINT64_MAX_def toy_frames_in_def)
  from toy_decoder_call obtain s' b' where
    "zstd_decoder_process toy_zstd (Some toy_decoder) toy_buffer ZU_FINISH = Some (ZU_STREAM_END, Some s', b')"
    and io: "consumed toy_buffer b' = toy_frames_in" "emitted toy_buffer b' = [7, 8, 9]"
    by (auto split: option.splits)
  from codec_run_one [where proc = "zstd_decoder_process toy_zstd", OF this(1) wf] io show ?thesis by auto
qed

theorem zstd_decoder_exact_witness:
  "\<exists>i' tl c. toy_frames_in = i' @ tl \<and>
    lib_run (ZSTD_decompressStream toy_zstd) (ZSTD_isError toy_zstd) (zs_dctx toy_decoder) i' [7, 8, 9] True c"
  using toy_decoder_run zstd_decoder_exact [OF toy_zstd_contracts(1) toy_coders(1,3)] by blast

text \<open>A zstd encoder that reports the end of the stream has handed libzstd exactly the bytes it
  consumed and delivered exactly the bytes libzstd wrote, and libzstd's last call closed the frame and
  left nothing to flush.\<close>

theorem zstd_encoder_exact:
  assumes "zstd_enc_contract valid eng" "valid (zs_cctx s0)"
    and "zstd_encoder_new mem eng os = (ZU_OK, Some s0)"
    and "codec_run (zstd_encoder_process eng) s0 i out s ZU_STREAM_END"
  shows "\<exists>c. zstd_written eng (zs_cctx s0) i out True c"
proof -
  have "\<not> zs_done s0" using assms(3)
    by (auto simp: zstd_encoder_new_def zstd_blank_def zu_int_zstd_level_def Let_def split: if_splits prod.splits)
  from zstd_encoder_trace [OF assms(1,2) this assms(4)] show ?thesis by (auto simp: zstd_enc_at_def)
qed

definition toy_plain_buffer :: zu_buffer where
  "toy_plain_buffer = one_shot_buffer [1, 2, 3] (replicate 4 0)"

lemma toy_encoder_call:
  "case zstd_encoder_process toy_zstd (Some toy_encoder) toy_plain_buffer ZU_FINISH of
     Some (st, Some s', b') \<Rightarrow> st = ZU_STREAM_END \<and> consumed toy_plain_buffer b' = [1, 2, 3] \<and>
       emitted toy_plain_buffer b' = [1, 2, 3, 0]
   | _ \<Rightarrow> False"
  by code_simp

theorem zstd_encoder_exact_witness:
  "\<exists>c. zstd_written toy_zstd (zs_cctx toy_encoder) [1, 2, 3] [1, 2, 3, 0] True c"
proof -
  have wf: "buf_wf toy_plain_buffer"
    unfolding toy_plain_buffer_def by (intro one_shot_buffer_wf) (simp_all add: UINT64_MAX_def)
  from toy_encoder_call obtain s' b' where
    "zstd_encoder_process toy_zstd (Some toy_encoder) toy_plain_buffer ZU_FINISH = Some (ZU_STREAM_END, Some s', b')"
    and io: "consumed toy_plain_buffer b' = [1, 2, 3]" "emitted toy_plain_buffer b' = [1, 2, 3, 0]"
    by (auto split: option.splits)
  from codec_run_one [where proc = "zstd_encoder_process toy_zstd", OF this(1) wf] io
  have "codec_run (zstd_encoder_process toy_zstd) toy_encoder [1, 2, 3] [1, 2, 3, 0] s' ZU_STREAM_END" by simp
  from zstd_encoder_exact [OF toy_zstd_contracts(2) TrueI toy_coders(2) this] show ?thesis .
qed

text \<open>Every call of the zstd coders returns, in both directions, whatever the buffer and the flush
  argument, and keeps to the cursor discipline. An encoder that asks for input has taken all of it, and
  one that asks for room has none left.\<close>

theorem zstd_process_returns:
  assumes "frame_contract valid fresh (ZSTD_isError eng) (ZSTD_decompressStream eng)" "zstd_enc_contract valid' eng"
    and "valid (zs_dctx d)" "frames_ok (zs_frames d)" "valid' (zs_cctx e)" "buf_wf b"
  shows "(\<exists>st d' b'. zstd_decoder_process eng (Some d) b flush = Some (st, Some d', b') \<and> buf_adv b b' \<and>
        frames_ok (zs_frames d')) \<and>
    (\<exists>st e' b'. zstd_encoder_process eng (Some e) b flush = Some (st, Some e', b') \<and> buf_adv b b' \<and>
        (st = ZU_NEED_INPUT \<longrightarrow> avail_in b' = 0) \<and> (st = ZU_NEED_OUTPUT \<longrightarrow> avail_out b' = 0))"
  using zstd.process_returns [OF assms(1,3,6,4), of flush "zs_dctx d"]
    zstd_encoder_returns [OF assms(2,5,6), of flush "zs_cctx e"]
  by (auto simp: zstd.kept_def zstd_enc_kept_def names_def)

theorem zstd_process_returns_witness:
  "\<exists>st d' b'. zstd_decoder_process toy_zstd (Some toy_decoder) toy_buffer ZU_RUN = Some (st, Some d', b') \<and>
    buf_adv toy_buffer b'"
proof -
  have wf: "buf_wf toy_buffer"
    unfolding toy_buffer_def by (intro one_shot_buffer_wf) (simp_all add: UINT64_MAX_def toy_frames_in_def)
  have "frames_ok (zs_frames toy_decoder)" by (simp add: zstd_decoder_new_frames [OF toy_coders(1)])
  from zstd_process_returns [OF toy_zstd_contracts toy_coders(3) this TrueI wf, of ZU_RUN] show ?thesis by blast
qed

text \<open>The window ceiling. Without an output limit it is libzstd's \<open>2 ^ 27\<close>; under one it is the
  least power of two that is at least the limit, never below \<open>2 ^ 23\<close> and never above \<open>2 ^ 27\<close>.\<close>

theorem zstd_window_ceiling:
  "zstd_window_log 0 = 27 \<and>
   (0 < m \<longrightarrow> (\<exists>w. zstd_window_log m = int w \<and> 23 \<le> w \<and> w \<le> 27 \<and> (w < 27 \<longrightarrow> m \<le> 2 ^ w) \<and>
      (23 < w \<longrightarrow> 2 ^ (w - 1) < m)))"
proof (cases "m = 0")
  case True
  then show ?thesis by (simp add: zstd_window_log_def ZU_INT_ZSTD_WINDOWLOG_DEFAULT_def)
next
  case False
  let ?l = "zu_int_ceil_log2 m"
  note l = ceil_log2_loop_spec [of 0 m, simplified, folded zu_int_ceil_log2_def]
  let ?w = "min 27 (max 23 ?l)"
  have "zstd_window_log m = int ?w" "zstd_window_log 0 = 27"
    using False by (auto simp: zstd_window_log_def ZU_INT_ZSTD_WINDOWLOG_DEFAULT_def ZU_INT_ZSTD_WINDOWLOG_FLOOR_def Let_def)
  moreover have "m \<le> 2 ^ ?w" if "?w < 27"
  proof -
    have "?l \<le> ?w" using that by linarith
    then have "(2::nat) ^ ?l \<le> 2 ^ ?w" by (rule power_increasing) simp
    moreover have "m \<le> 2 ^ ?l" using l that by simp
    ultimately show ?thesis by linarith
  qed
  moreover have "2 ^ (?w - 1) < m" if "23 < ?w"
  proof -
    have "?w - 1 < ?l" using that by linarith
    with l show ?thesis by blast
  qed
  ultimately show ?thesis by (intro conjI impI exI [of _ ?w]) simp_all
qed

theorem zstd_window_ceiling_witness: "zstd_window_log 0 = 27"
  using zstd_window_ceiling [of 0] by simp

definition toy_single :: "(unit, nat) zstd_state" where
  "toy_single = the (snd (zstd_decoder_new (\<lambda>_ _. True) toy_zstd (toy_dec_opts\<lparr>do_flags := 0\<rparr>)))"

lemma toy_single_new:
  "zstd_decoder_new (\<lambda>_ _. True) toy_zstd (toy_dec_opts\<lparr>do_flags := 0\<rparr>) = (ZU_OK, Some toy_single)"
  "toy_valid (zs_dctx toy_single)"
  by (simp_all add: toy_single_def zstd_decoder_new_def toy_zstd_def toy_dec_opts_def
      zstd_blank_def zu_int_zstd_window_def toy_valid_def Let_def)

definition toy_corrupt :: zu_buffer where
  "toy_corrupt = one_shot_buffer [0x28, 0xB5, 0x2F, 0xFD, 7, 0xFF, 1] (replicate 5 0)"

lemma toy_refused_then_accepted:
  "case zstd_decoder_process toy_zstd (Some toy_single) toy_corrupt ZU_FINISH of
     Some (st, Some s', b') \<Rightarrow> st = ZU_ERR_INVALID_DATA \<and>
       map_option fst (zstd_decoder_process toy_zstd (Some s') b' ZU_FINISH) = Some ZU_STREAM_END
   | _ \<Rightarrow> False"
  by code_simp

text \<open>C38: an error of the library is not remembered. A decoder whose library has reported corrupt data
  passes the failed context to the library again on the next call, against libzstd's documentation,
  and so may report the end of the stream for a stream it has just refused.\<close>

theorem zstd_error_not_remembered:
  "\<exists>(eng :: (unit, nat) zstd_engine) valid fresh s0 s1 b b1.
     frame_contract valid fresh (ZSTD_isError eng) (ZSTD_decompressStream eng) \<and>
     zstd_decoder_new (\<lambda>_ _. True) eng (toy_dec_opts\<lparr>do_flags := 0\<rparr>) = (ZU_OK, Some s0) \<and> valid (zs_dctx s0) \<and>
     zstd_decoder_process eng (Some s0) b ZU_FINISH = Some (ZU_ERR_INVALID_DATA, Some s1, b1) \<and>
     map_option fst (zstd_decoder_process eng (Some s1) b1 ZU_FINISH) = Some ZU_STREAM_END"
proof -
  from toy_refused_then_accepted obtain s1 b1 where
    "zstd_decoder_process toy_zstd (Some toy_single) toy_corrupt ZU_FINISH = Some (ZU_ERR_INVALID_DATA, Some s1, b1)"
    "map_option fst (zstd_decoder_process toy_zstd (Some s1) b1 ZU_FINISH) = Some ZU_STREAM_END"
    by (auto split: option.splits)
  with toy_zstd_contracts(1) toy_single_new show ?thesis by blast
qed

end
