(* ===== verification/Zu_Prompt.thy ===== *)
theory Zu_Prompt
  imports Zu_Komp_Codecs Codec_Zstd
begin

unbundle bit_operations_syntax

text \<open>
  Every built-in codec is prompt in both directions: a call that neither moves a cursor nor fails asks for more of a window
  that is exhausted. For zstd and lz4-frame this is a property of their loops, for lz4-block of the drained stage, for
  the DEFLATE family of the wrapper's states and of what \<^verbatim>\<open>miniz.h\<close> says of the engine.
\<close>

subsection \<open>A codec whose calls name what they wait for\<close>

lemma names_prompt_decoder:
  assumes d: "decoder_codec I v" and p: "v_decoder_process v = Some proc"
    and n: "\<And>so b flush st s' b'. I so \<Longrightarrow> buf_wf b \<Longrightarrow> proc so b flush = Some (st, s', b') \<Longrightarrow> names st b'"
  shows "prompt_decoder I v"
proof (rule prompt_decoder.intro [OF d], unfold_locales)
  fix so b flush st s' b' assume i: "I so" "buf_wf b" and c: "the (v_decoder_process v) so b flush = Some (st, s', b')"
  have "buf_adv b b'" using decoder_codec.process_ok [OF d i, of flush] c by auto
  moreover have "names st b'" using n [OF i, of flush] c p by auto
  ultimately show "prompt_call st b b'" using names_moved i(2) by blast
qed

lemma names_prompt_encoder:
  assumes d: "encoder_codec I v" and p: "v_encoder_process v = Some proc"
    and n: "\<And>so b flush st s' b'. I so \<Longrightarrow> buf_wf b \<Longrightarrow> proc so b flush = Some (st, s', b') \<Longrightarrow> names st b'"
  shows "prompt_encoder I v"
proof (rule prompt_encoder.intro [OF d], unfold_locales)
  fix so b flush st s' b' assume i: "I so" "buf_wf b" and c: "the (v_encoder_process v) so b flush = Some (st, s', b')"
  have "buf_adv b b'" using encoder_codec.process_ok [OF d i, of flush] c by auto
  moreover have "names st b'" using n [OF i, of flush] c p by auto
  ultimately show "prompt_call st b b'" using names_moved i(2) by blast
qed

subsection \<open>zstd and LZ4\<close>

lemma zstd_prompt:
  assumes "frame_contract (\<lambda>_. True) fresh (ZSTD_isError eng) (ZSTD_decompressStream eng)"
  shows "prompt_decoder zstd_inv (zu_int_codec_zstd mem eng)"
proof (rule names_prompt_decoder [OF zstd_decoder_codec [OF assms]])
  fix so b flush st s' b'
  assume i: "zstd_inv so" "buf_wf b" and p: "zstd_decoder_process eng so b flush = Some (st, s', b')"
  show "names st b'"
  proof (cases so)
    case None
    with p show ?thesis by (simp add: zstd_decoder_process_def names_def)
  next
    case (Some s)
    with p i zstd.process_names [OF assms i(2), of s flush st s' b'] show ?thesis by (simp add: zstd_inv_def)
  qed
qed (simp add: zu_int_codec_zstd_def)

lemma zstd_enc_prompt:
  assumes "zstd_enc_contract (\<lambda>_. True) eng"
  shows "prompt_encoder (\<lambda>_. True) (zu_int_codec_zstd mem eng)"
proof (rule names_prompt_encoder [OF zstd_encoder_codec [OF assms]])
  fix so b flush st s' b'
  assume wf: "buf_wf b" and p: "zstd_encoder_process eng so b flush = Some (st, s', b')"
  show "names st b'"
  proof (cases so)
    case None
    with p show ?thesis by (simp add: zstd_encoder_process_def names_def)
  next
    case (Some s)
    with p zstd_encoder_returns [OF assms TrueI wf, of s flush "zs_cctx s"] show ?thesis by auto
  qed
qed (simp add: zu_int_codec_zstd_def)

lemma lz4f_prompt:
  assumes "frame_contract (\<lambda>_. True) fresh (LZ4F_isError eng) (LZ4F_decompress eng)"
  shows "prompt_decoder lz4f_inv (zu_int_codec_lz4_frame mem eng)"
proof (rule names_prompt_decoder [OF lz4f_decoder_codec [OF assms]])
  fix so b flush st s' b'
  assume i: "lz4f_inv so" "buf_wf b" and p: "lz4f_decoder_process eng so b flush = Some (st, s', b')"
  show "names st b'"
  proof (cases so)
    case None
    with p show ?thesis by (simp add: lz4f_decoder_process_def names_def)
  next
    case (Some s)
    with p i lz4f.process_names [OF assms i(2), of s flush st s' b'] show ?thesis by (simp add: lz4f_inv_def)
  qed
qed (simp add: zu_int_codec_lz4_frame_def)

lemma lz4f_enc_prompt:
  assumes "lz4f_enc_contract (\<lambda>_. True) eng"
  shows "prompt_encoder (\<lambda>so. \<forall>s. so = Some s \<longrightarrow> stage_ok s) (zu_int_codec_lz4_frame mem eng)"
proof (rule names_prompt_encoder [OF lz4f_encoder_codec [OF assms]])
  fix so b flush st s' b'
  assume i: "\<forall>s. so = Some s \<longrightarrow> stage_ok s" and wf: "buf_wf b" and p: "lz4f_encoder_process eng so b flush = Some (st, s', b')"
  show "names st b'"
  proof (cases so)
    case None
    with p show ?thesis by (simp add: lz4f_encoder_process_def names_def)
  next
    case (Some s)
    with p i lz4f_encoder_returns [OF assms TrueI wf, of s flush "l_cctx s"] show ?thesis by auto
  qed
qed (simp add: zu_int_codec_lz4_frame_def)

lemma block_names:
  assumes c: "block_coder R proc" and i: "block_inv so" "buf_wf b" and p: "proc so b flush = Some (st, s', b')"
    and z: "\<And>b flush. proc None b flush = Some (ZU_ERR_INVALID_ARGUMENT, None, b)"
  shows "names st b'"
proof (cases so)
  case None
  with p z show ?thesis by (simp add: names_def)
next
  case (Some s)
  with i(1) have "block_ok s" by simp
  with c i(2) obtain r t b1 where "proc (Some s) b flush = Some (r, Some t, b1)" "block_kept R s b r t b1"
    unfolding block_coder_def by blast
  with p Some show ?thesis by (cases "is_progress st") (auto simp: block_kept_def names_stop)
qed

lemma block_prompt:
  assumes c: "lz4_block_contract dec eng"
  shows "prompt_decoder block_inv (zu_int_codec_lz4_block mem eng)" "prompt_encoder block_inv (zu_int_codec_lz4_block mem eng)"
proof -
  show "prompt_decoder block_inv (zu_int_codec_lz4_block mem eng)"
    by (rule names_prompt_decoder [OF lz4b_decoder_codec [OF c] block_vtable(2)])
      (rule block_names [OF block_decoder [OF c]]; simp add: lz4b_decoder_process_def)
  show "prompt_encoder block_inv (zu_int_codec_lz4_block mem eng)"
    by (rule names_prompt_encoder [OF lz4b_encoder_codec [OF c] block_vtable(1)])
      (rule block_names [OF block_encoder [OF c]]; simp add: lz4b_encoder_process_def)
qed

subsection \<open>The DEFLATE family\<close>

text \<open>This takes what \<^verbatim>\<open>miniz.h\<close> says of \<^verbatim>\<open>MZ_BUF_ERROR\<close>, that a call that moves nothing had no
  input or no room. And that an initialisation that fails reports an error.\<close>

definition mz_prompt :: "'m mz_engine \<Rightarrow> bool" where
  "mz_prompt eng \<longleftrightarrow>
     (\<forall>m win room fl mz m'. mz_deflate eng m win room fl = (mz, 0, [], m') \<or> mz_inflate eng m win room fl = (mz, 0, [], m') \<longrightarrow>
        mz = MZ_OK \<or> mz = MZ_BUF_ERROR \<longrightarrow> win = [] \<or> room = 0) \<and>
     fst (mz_inflateInit2 eng) \<notin> {MZ_STREAM_END, MZ_BUF_ERROR}"

lemma from_mz_stop: "mz \<noteq> MZ_OK \<Longrightarrow> mz \<noteq> MZ_STREAM_END \<Longrightarrow> mz \<noteq> MZ_BUF_ERROR \<Longrightarrow> \<not> is_progress (zu_int_from_mz mz)"
  by (simp add: zu_int_from_mz_def)

lemma gz_feed_status: "zu_int_gzip_header_feed h x = (st, h', d) \<Longrightarrow> st = ZU_OK \<or> \<not> is_progress st"
  by (auto simp: zu_int_gzip_header_feed_def gz_leave_def Let_def split: if_splits zu_int_gzip_state.splits)

lemma decoder_reset_status:
  assumes "mz_contract eng" "\<not> ds_encoder s" "zu_int_deflate_reset eng s l = (st, s')"
  shows "st = ZU_OK \<or> \<not> is_progress st"
proof -
  have "fst (mz_inflateReset eng (ds_mz s)) = MZ_OK \<or> fst (mz_inflateReset eng (ds_mz s)) = MZ_STREAM_ERROR"
    using assms(1) by (simp add: mz_contract_def)
  with assms(2,3) show ?thesis
    by (cases "mz_inflateReset eng (ds_mz s)") (auto simp: zu_int_deflate_reset_def zu_int_from_mz_def mz_codes Let_def split: if_splits)
qed


lemma skip_one_names: "buf_wf b \<Longrightarrow> avail_in b \<noteq> 0 \<Longrightarrow> \<not> 2 \<le> avail_in b \<Longrightarrow> names ZU_NEED_INPUT (skip_in (Suc 0) b)"
  using avail_in_skip [of b 1] by (simp add: names_def)

lemma header_names:
  assumes "deflate_header_step s b flush = Ret (st, s', b')"
  shows "names st b'"
proof (cases "\<not> ds_encoder s \<and> ds_wrap s = WRAP_GZIP \<and> avail_in b \<noteq> 0")
  case True
  obtain hs gz d where f: "zu_int_gzip_header_feed (ds_gz s) (src_byte b 0) = (hs, gz, d)" by (metis prod_cases3)
  from gz_feed_status [OF f] assms f True show ?thesis
    by (auto simp: deflate_header_step_def Let_def names_def split: if_splits)
next
  case False
  with assms show ?thesis
    by (auto simp: deflate_header_step_def Let_def names_def zu_int_zlib_check_header_def split: if_splits)
qed

lemma body_names:
  assumes t: "deflate_body_step eng s b flush = Ret (st, s', b')" and wf: "buf_wf b" and p: "mz_prompt eng"
  shows "names st b'"
proof (cases "avail_out b = 0 \<and> ds_encoder s")
  case True
  with t show ?thesis by (auto simp: deflate_body_step_def names_def)
next
  case d: False
  let ?win = "take (if avail_in b > MZ_WINDOW then MZ_WINDOW else avail_in b) (in_window b)"
  let ?room = "if avail_out b > MZ_WINDOW then MZ_WINDOW else avail_out b"
  obtain mz u out m where c: "(if ds_encoder s then mz_deflate eng (ds_mz s) ?win ?room (deflate_mz_flush s flush)
      else mz_inflate eng (ds_mz s) ?win ?room (deflate_mz_flush s flush)) = (mz, u, out, m)" by (metis prod_cases4)
  obtain mz' used produced s1 b1 where call: "deflate_mz_call eng s b flush = (mz', used, produced, s1, b1)" by (metis prod_cases5)
  have e: "mz' = mz" "used = u" "produced = length out" "b1 = put_out out (skip_in u b)"
    using call c by (auto simp: deflate_mz_call_def Let_def split: if_splits)
  show ?thesis
  proof (cases "mz \<noteq> MZ_STREAM_END \<and> (mz = MZ_OK \<or> mz = MZ_BUF_ERROR)")
    case False
    with t call e d have "st = ZU_STREAM_END \<or> (mz \<noteq> MZ_OK \<and> mz \<noteq> MZ_STREAM_END \<and> mz \<noteq> MZ_BUF_ERROR \<and> st = zu_int_from_mz mz)"
      by (auto simp: deflate_body_step_def split: if_splits)
    then show ?thesis
    proof
      assume "mz \<noteq> MZ_OK \<and> mz \<noteq> MZ_STREAM_END \<and> mz \<noteq> MZ_BUF_ERROR \<and> st = zu_int_from_mz mz"
      then show ?thesis using from_mz_stop [of mz] names_stop by blast
    qed (simp add: names_def)
  next
    case True
    with t call e d have n: "u = 0" "out = []" by (auto simp: deflate_body_step_def split: if_splits)
    have "mz_deflate eng (ds_mz s) ?win ?room (deflate_mz_flush s flush) = (mz, 0, [], m) \<or>
        mz_inflate eng (ds_mz s) ?win ?room (deflate_mz_flush s flush) = (mz, 0, [], m)"
      using c n by (simp split: if_splits)
    from p [unfolded mz_prompt_def, THEN conjunct1, rule_format, OF this conjunct2 [OF True]] have "?win = [] \<or> ?room = 0" .
    then have z: "avail_in b = 0 \<or> avail_out b = 0"
      using in_window_length [OF wf] by (auto simp: MZ_WINDOW_def split: if_splits)
    have b1: "avail_in b1 = avail_in b" "avail_out b1 = avail_out b" "src_pos b1 = src_pos b" "src_size b1 = src_size b"
      by (simp_all add: e(4) n avail_in_def avail_out_def put_out_def skip_in_def)
    have sz: "src_pos b = src_size b \<longleftrightarrow> avail_in b = 0" using wf by (auto simp: avail_in_wf buf_wf_def)
    show ?thesis using t call e(1-3) n d True z b1 sz
      by (auto simp: deflate_body_step_def names_def split: if_splits)
  qed
qed

lemma trailer_names: "deflate_trailer_step s b flush = Ret (st, s', b') \<Longrightarrow> names st b'"
  by (auto simp: deflate_trailer_step_def names_def split: if_splits)

lemma member_end_names:
  assumes t: "deflate_member_end_step eng s b flush = Ret (st, s', b')" and wf: "buf_wf b" and c: "mz_contract eng"
  shows "names st b'"
proof -
  obtain rs s1 where r: "zu_int_deflate_reset eng s ZU_LEVEL_DEFAULT = (rs, s1)" by fastforce
  obtain hs gz hd where f: "zu_int_gzip_header_feed (ds_gz s1) 0x1F = (hs, gz, hd)" by (metis prod_cases3)
  consider "\<not> deflate_concat s \<or> avail_in b = 0" "deflate_no_member s b flush = Ret (st, s', b')"
    | "deflate_concat s" "avail_in b \<noteq> 0" "deflate_first_probe eng s b flush = Ret (st, s', b')"
    | "deflate_concat s" "deflate_second_probe eng s b = Ret (st, s', b')"
    using t by (auto simp: deflate_member_end_step_def split: if_splits)
  then show ?thesis
  proof cases
    case 1
    then show ?thesis by (auto simp: deflate_no_member_def names_def Let_def split: if_splits)
  next
    case 2
    then have "\<not> ds_encoder s" by (simp add: deflate_concat_def)
    from 2 decoder_reset_status [OF c this r] show ?thesis using r skip_one_names [OF wf]
      by (auto simp: deflate_first_probe_def names_def Let_def split: if_splits)
  next
    case 3
    then have "\<not> ds_encoder s" by (simp add: deflate_concat_def)
    from 3 decoder_reset_status [OF c this r] gz_feed_status [OF f] show ?thesis using r f
      by (auto simp: deflate_second_probe_def names_def Let_def split: if_splits)
  qed
qed

lemma deflate_step_names:
  assumes "deflate_step eng flush (s, b) = Ret (st, s', b')" "buf_wf b" "mz_contract eng" "mz_prompt eng"
  shows "names st b'"
proof (cases "ds_state s")
  case ST_HEADER
  with assms(1) header_names [of s b flush st s' b'] show ?thesis by (simp add: deflate_step_def)
next
  case ST_BODY
  with assms body_names [of eng s b flush st s' b'] show ?thesis by (simp add: deflate_step_def)
next
  case ST_TRAILER
  with assms(1) trailer_names [of s b flush st s' b'] show ?thesis by (simp add: deflate_step_def)
next
  case ST_MEMBER_END
  with assms member_end_names [of eng s b flush st s' b'] show ?thesis by (simp add: deflate_step_def)
next
  case ST_DONE
  with assms(1) show ?thesis by (simp add: deflate_step_def names_def)
qed

lemma deflate_names:
  assumes c: "mz_contract eng" and p: "mz_prompt eng" and i: "deflate_inv so" "buf_wf b"
    and call: "deflate_process eng so b flush = Some (st, so', b')"
  shows "names st b'"
proof (cases so)
  case None
  with call show ?thesis by (simp add: deflate_process_def names_def)
next
  case (Some s)
  with i(1) have "deflate_wf s" by (simp add: deflate_inv_def)
  from deflate_loop [OF c this i(2), where P = "\<lambda>_ _. True" and Q = "\<lambda>st _ b. names st b" and flush = flush]
  have "\<exists>st s' b'. deflate_process eng (Some s) b flush = Some (st, Some s', b') \<and> deflate_kept s b s' b' \<and> names st b'"
    using deflate_step_names [OF _ _ c p] by blast
  with call Some show ?thesis by auto
qed

lemma inflate_new_status:
  assumes new: "zu_int_deflate_new mem eng wrap False level fl = (st, so)" and p: "mz_prompt eng"
  shows "st = ZU_OK \<or> \<not> is_progress st"
proof -
  obtain mz m where i: "mz_inflateInit2 eng = (mz, m)" by fastforce
  with new have "st = ZU_ERR_MEMORY \<or> mz \<noteq> MZ_OK \<and> st = zu_int_from_mz mz \<or> st = ZU_OK"
    by (auto simp: zu_int_deflate_new_def Let_def split: if_splits)
  with p i from_mz_stop [of mz] show ?thesis by (auto simp: mz_prompt_def)
qed

lemma deflate_prompt:
  assumes c: "mz_contract eng" "mz_prompt eng"
    and v: "v \<in> {zu_int_codec_deflate_raw mem eng, zu_int_codec_zlib mem eng, zu_int_codec_gzip mem eng}"
  shows "prompt_decoder deflate_inv v" "prompt_encoder deflate_inv v"
proof -
  have p: "v_decoder_process v = Some (deflate_process eng)" "v_encoder_process v = Some (deflate_process eng)"
    using v by (auto simp: zu_int_codec_deflate_raw_def zu_int_codec_zlib_def zu_int_codec_gzip_def)
  show "prompt_decoder deflate_inv v"
    by (rule names_prompt_decoder [OF deflate_decoder_codec [OF c(1) v] p(1) deflate_names [OF c]])
  show "prompt_encoder deflate_inv v"
    by (rule names_prompt_encoder [OF deflate_encoder_codec [OF c(1) v] p(2) deflate_names [OF c]])
qed

end
