(* ===== verification/Zu_Builtin.thy ===== *)
theory Zu_Builtin
  imports Zu_Prompt
begin

unbundle bit_operations_syntax

text \<open>
  The registry of the package as it is shipped: \<^verbatim>\<open>zu_int_register_builtin_codecs\<close> of \<^verbatim>\<open>src/zu_registry.c\<close> with its
  fixed table of vtables. The codecs have different states behind the \<^verbatim>\<open>void *\<close> of the vtable; here they are the summands
  of one datatype, and the locale \<open>state_embedding\<close> carries the contract of a codec to the datatype. On
  this registry the guarantees for any registry become guarantees under the contracts of the libraries alone.
\<close>

subsection \<open>One registry for codecs with different states\<close>

text \<open>The \<^verbatim>\<open>void *\<close> of a codec handle as a tagged union. A vtable over its own state becomes a vtable over the
  union; \<open>prj\<close> is the cast of \<^verbatim>\<open>void *\<close> to the codec's state, which no codec applies to another's.\<close>

definition lift_process :: "('s \<Rightarrow> 't) \<Rightarrow> ('t \<Rightarrow> 's) \<Rightarrow> 's process_fn \<Rightarrow> 't process_fn" where
  "lift_process emb prj p so b flush =
     map_option (\<lambda>(st, so', b'). (st, map_option emb so', b')) (p (map_option prj so) b flush)"

definition lift_new :: "('s \<Rightarrow> 't) \<Rightarrow> ('o \<Rightarrow> zu_status \<times> 's option) \<Rightarrow> 'o \<Rightarrow> zu_status \<times> 't option" where
  "lift_new emb f os = map_prod id (map_option emb) (f os)"

definition lift_reset ::
  "('s \<Rightarrow> 't) \<Rightarrow> ('t \<Rightarrow> 's) \<Rightarrow> ('s option \<Rightarrow> 'o \<Rightarrow> zu_status \<times> 's option) \<Rightarrow> 't option \<Rightarrow> 'o \<Rightarrow> zu_status \<times> 't option" where
  "lift_reset emb prj f so os = map_prod id (map_option emb) (f (map_option prj so) os)"

definition lift_vtable :: "('s \<Rightarrow> 't) \<Rightarrow> ('t \<Rightarrow> 's) \<Rightarrow> 's zu_codec_vtable \<Rightarrow> 't zu_codec_vtable" where
  "lift_vtable emb prj v =
     \<lparr>v_struct_size = v_struct_size v, v_codec = v_codec v, v_name = v_name v,
      v_content_encoding = v_content_encoding v, v_source = v_source v,
      v_level_min = v_level_min v, v_level_max = v_level_max v, v_level_default = v_level_default v,
      v_flags = v_flags v, v_magic = v_magic v, v_magic_len = v_magic_len v, v_magic_offset = v_magic_offset v,
      v_sniff = v_sniff v,
      v_encoder_new = map_option (lift_new emb) (v_encoder_new v),
      v_encoder_process = map_option (lift_process emb prj) (v_encoder_process v),
      v_encoder_reset = map_option (lift_reset emb prj) (v_encoder_reset v),
      v_encoder_free = map_option (\<lambda>f so. f (map_option prj so)) (v_encoder_free v),
      v_decoder_new = map_option (lift_new emb) (v_decoder_new v),
      v_decoder_process = map_option (lift_process emb prj) (v_decoder_process v),
      v_decoder_reset = map_option (lift_reset emb prj) (v_decoder_reset v),
      v_decoder_free = map_option (\<lambda>f so. f (map_option prj so)) (v_decoder_free v),
      v_bound = v_bound v, v_level_fast = v_level_fast v, v_level_best = v_level_best v\<rparr>"

text \<open>\<open>Unit_state\<close> is the sentinel of the codecs that keep nothing.\<close>

datatype ('m, 'ze, 'zd, 'le, 'ld) builtin_state =
    Unit_state (unit_of: unit)
  | Deflate_state (deflate_of: "'m deflate_state")
  | Zstd_state (zstd_of: "('ze, 'zd) zstd_state")
  | Lz4_state (lz4_of: "('le, 'ld) lz4_state")

definition builtin_codecs ::
  "alloc \<Rightarrow> 'm mz_engine \<Rightarrow> ('ze, 'zd) zstd_engine \<Rightarrow> ('le, 'ld) lz4_engine \<Rightarrow>
    ('m, 'ze, 'zd, 'le, 'ld) builtin_state zu_codec_vtable list" where
  "builtin_codecs mem mz zs lz =
     [lift_vtable Unit_state unit_of zu_int_codec_identity,
      lift_vtable Deflate_state deflate_of (zu_int_codec_deflate_raw mem mz),
      lift_vtable Deflate_state deflate_of (zu_int_codec_zlib mem mz),
      lift_vtable Deflate_state deflate_of (zu_int_codec_gzip mem mz),
      lift_vtable Zstd_state zstd_of (zu_int_codec_zstd mem zs),
      lift_vtable Lz4_state lz4_of (zu_int_codec_lz4_frame mem lz),
      lift_vtable Lz4_state lz4_of (zu_int_codec_lz4_block mem lz)]"

definition zu_int_register_builtin_codecs ::
  "alloc \<Rightarrow> 'm mz_engine \<Rightarrow> ('ze, 'zd) zstd_engine \<Rightarrow> ('le, 'ld) lz4_engine \<Rightarrow>
    ('m, 'ze, 'zd, 'le, 'ld) builtin_state zu_registry \<Rightarrow>
    zu_status \<times> ('m, 'ze, 'zd, 'le, 'ld) builtin_state zu_registry" where
  "zu_int_register_builtin_codecs mem mz zs lz r = register_list (builtin_codecs mem mz zs lz) r"

text \<open>A state of the union is one of this codec.\<close>

definition lift_inv :: "('s \<Rightarrow> 't) \<Rightarrow> ('s option \<Rightarrow> bool) \<Rightarrow> 't option \<Rightarrow> bool" where
  "lift_inv emb I so \<longleftrightarrow> (\<exists>r. so = map_option emb r \<and> I r)"

locale state_embedding =
  fixes emb :: "'s \<Rightarrow> 't" and prj :: "'t \<Rightarrow> 's"
  assumes prj_emb [simp]: "prj (emb s) = s"
begin

lemma prj_emb_option [simp]: "map_option prj (map_option emb so) = so"
  by (cases so) simp_all

lemma lift_decoder:
  assumes d: "decoder_codec I v" and n: "v_decoder_new v = Some nw" "v_decoder_process v = Some pr"
  shows "decoder_codec (lift_inv emb I) (lift_vtable emb prj v)"
proof
  fix os so assume "the (v_decoder_new (lift_vtable emb prj v)) os = (ZU_OK, so)"
  then obtain r where "nw os = (ZU_OK, r)" "so = map_option emb r"
    by (cases "nw os") (auto simp: lift_vtable_def n lift_new_def)
  with decoder_codec.new_inv [OF d] n show "lift_inv emb I so" by (auto simp: lift_inv_def)
next
  fix so b flush assume "lift_inv emb I so" and wf: "buf_wf b"
  then obtain r where r: "so = map_option emb r" "I r" by (auto simp: lift_inv_def)
  from decoder_codec.process_ok [OF d r(2) wf, of flush] n obtain st r' b' where
    "pr r b flush = Some (st, r', b')" "I r'" "buf_adv b b'" by auto
  with r n show "\<exists>st s' b'. the (v_decoder_process (lift_vtable emb prj v)) so b flush = Some (st, s', b') \<and>
      lift_inv emb I s' \<and> buf_adv b b'"
    by (auto simp: lift_vtable_def lift_process_def lift_inv_def)
next
  fix f so os st so' assume f: "v_decoder_reset (lift_vtable emb prj v) = Some f" and "lift_inv emb I so" and e: "f so os = (st, so')"
  then obtain r g where r: "so = map_option emb r" "I r" "v_decoder_reset v = Some g" "f = lift_reset emb prj g"
    by (auto simp: lift_inv_def lift_vtable_def)
  obtain r' where "g r os = (st, r')" "so' = map_option emb r'" using e r by (cases "g r os") (auto simp: lift_reset_def)
  with decoder_codec.reset_inv [OF d r(3,2)] show "lift_inv emb I so'" by (auto simp: lift_inv_def)
qed

lemma lift_prompt:
  assumes d: "prompt_decoder I v" and n: "v_decoder_new v = Some nw" "v_decoder_process v = Some pr"
  shows "prompt_decoder (lift_inv emb I) (lift_vtable emb prj v)"
proof (rule prompt_decoder.intro [OF lift_decoder [OF prompt_decoder.axioms(1) [OF d] n]], unfold_locales)
  fix so b flush st so' b'
  assume "lift_inv emb I so" and wf: "buf_wf b" and c: "the (v_decoder_process (lift_vtable emb prj v)) so b flush = Some (st, so', b')"
  then obtain r where r: "so = map_option emb r" "I r" by (auto simp: lift_inv_def)
  with c n obtain r' where "pr r b flush = Some (st, r', b')" by (auto simp: lift_vtable_def lift_process_def)
  with prompt_decoder.codec_prompt [OF d r(2) wf, of flush] n
  show "prompt_call st b b'" by simp
qed

lemma lift_encoder:
  assumes d: "encoder_codec I v" and n: "v_encoder_new v = Some nw" "v_encoder_process v = Some pr"
  shows "encoder_codec (lift_inv emb I) (lift_vtable emb prj v)"
proof
  fix os so assume "the (v_encoder_new (lift_vtable emb prj v)) os = (ZU_OK, so)"
  then obtain r where "nw os = (ZU_OK, r)" "so = map_option emb r"
    by (cases "nw os") (auto simp: lift_vtable_def n lift_new_def)
  with encoder_codec.new_inv [OF d] n show "lift_inv emb I so" by (auto simp: lift_inv_def)
next
  fix so b flush assume "lift_inv emb I so" and wf: "buf_wf b"
  then obtain r where r: "so = map_option emb r" "I r" by (auto simp: lift_inv_def)
  from encoder_codec.process_ok [OF d r(2) wf, of flush] n obtain st r' b' where
    "pr r b flush = Some (st, r', b')" "I r'" "buf_adv b b'" by auto
  with r n show "\<exists>st s' b'. the (v_encoder_process (lift_vtable emb prj v)) so b flush = Some (st, s', b') \<and>
      lift_inv emb I s' \<and> buf_adv b b'"
    by (auto simp: lift_vtable_def lift_process_def lift_inv_def)
next
  fix f so os st so' assume f: "v_encoder_reset (lift_vtable emb prj v) = Some f" and "lift_inv emb I so" and e: "f so os = (st, so')"
  then obtain r g where r: "so = map_option emb r" "I r" "v_encoder_reset v = Some g" "f = lift_reset emb prj g"
    by (auto simp: lift_inv_def lift_vtable_def)
  obtain r' where "g r os = (st, r')" "so' = map_option emb r'" using e r by (cases "g r os") (auto simp: lift_reset_def)
  with encoder_codec.reset_inv [OF d r(3,2)] show "lift_inv emb I so'" by (auto simp: lift_inv_def)
qed

lemma lift_enc_prompt:
  assumes d: "prompt_encoder I v" and n: "v_encoder_new v = Some nw" "v_encoder_process v = Some pr"
  shows "prompt_encoder (lift_inv emb I) (lift_vtable emb prj v)"
proof (rule prompt_encoder.intro [OF lift_encoder [OF prompt_encoder.axioms(1) [OF d] n]], unfold_locales)
  fix so b flush st so' b'
  assume "lift_inv emb I so" and wf: "buf_wf b" and c: "the (v_encoder_process (lift_vtable emb prj v)) so b flush = Some (st, so', b')"
  then obtain r where r: "so = map_option emb r" "I r" by (auto simp: lift_inv_def)
  with c n obtain r' where "pr r b flush = Some (st, r', b')" by (auto simp: lift_vtable_def lift_process_def)
  with prompt_encoder.codec_prompt [OF d r(2) wf, of flush] n show "prompt_call st b b'" by simp
qed

end

interpretation unit_state: state_embedding Unit_state unit_of
  by unfold_locales simp

interpretation deflate_state: state_embedding Deflate_state deflate_of
  by unfold_locales simp

interpretation zstd_state: state_embedding Zstd_state zstd_of
  by unfold_locales simp

interpretation lz4_state: state_embedding Lz4_state lz4_of
  by unfold_locales simp

lemma builtin_ok: "list_all vtable_ok (builtin_codecs mem mz zs lz)"
  by code_simp

lemma builtin_apart: "sorted_wrt vtables_apart (builtin_codecs mem mz zs lz)"
  by code_simp

subsection \<open>The registry after loading\<close>

lemma register_list_all:
  assumes "registry_wf r" "list_all vtable_ok vs" "sorted_wrt vtables_apart vs"
    and "\<forall>w \<in> set (reg_table r). \<forall>v \<in> set vs. vtables_apart w v" "length (reg_table r) + length vs \<le> ZU_INT_REGISTRY_CAP"
  shows "\<exists>r'. register_list vs r = (ZU_OK, r') \<and> reg_table r' = reg_table r @ vs \<and> registry_wf r'"
  using assms
proof (induction vs arbitrary: r)
  case (Cons v vs)
  let ?r = "r\<lparr>reg_table := reg_table r @ [v], reg_gen := u64_add (reg_gen r) 1\<rparr>"
  have c: "zu_register_codec (Some v) r = (ZU_OK, ?r)" using Cons.prems by (simp add: zu_register_codec_eq)
  have "registry_wf ?r" by (rule registry_wf_register [OF Cons.prems(1) c])
  with Cons.IH [of ?r] Cons.prems c show ?case by auto
qed simp

definition builtin_reg ::
  "alloc \<Rightarrow> 'm mz_engine \<Rightarrow> ('ze, 'zd) zstd_engine \<Rightarrow> ('le, 'ld) lz4_engine \<Rightarrow> ('m, 'ze, 'zd, 'le, 'ld) builtin_state zu_registry" where
  "builtin_reg mem mz zs lz = snd (zu_int_register_builtin_codecs mem mz zs lz zu_registry_init)"

lemma registry_init_table: "reg_table zu_registry_init = []"
  by (simp add: zu_registry_init_def)

lemma builtin_registered:
  "zu_int_register_builtin_codecs mem mz zs lz zu_registry_init = (ZU_OK, builtin_reg mem mz zs lz)"
  "reg_table (builtin_reg mem mz zs lz) = builtin_codecs mem mz zs lz" "registry_wf (builtin_reg mem mz zs lz)"
proof -
  have l: "length (builtin_codecs mem mz zs lz) = 7" by (simp add: builtin_codecs_def)
  from register_list_all [OF registry_wf_init builtin_ok [of mem mz zs lz] builtin_apart] obtain r' where
    "register_list (builtin_codecs mem mz zs lz) zu_registry_init = (ZU_OK, r')" "reg_table r' = builtin_codecs mem mz zs lz" "registry_wf r'"
    by (auto simp add: ZU_INT_REGISTRY_CAP_def l registry_init_table)
  then show "zu_int_register_builtin_codecs mem mz zs lz zu_registry_init = (ZU_OK, builtin_reg mem mz zs lz)"
    "reg_table (builtin_reg mem mz zs lz) = builtin_codecs mem mz zs lz" "registry_wf (builtin_reg mem mz zs lz)"
    by (simp_all add: builtin_reg_def zu_int_register_builtin_codecs_def)
qed

text \<open>What the vendored libraries are relied on for.\<close>

definition engine_contracts ::
  "(byte list \<Rightarrow> byte list option) \<Rightarrow> 'm mz_engine \<Rightarrow> ('ze, 'zd) zstd_engine \<Rightarrow> ('le, 'ld) lz4_engine \<Rightarrow> bool" where
  "engine_contracts dec mz zs lz \<longleftrightarrow>
     mz_contract mz \<and> mz_prompt mz \<and>
     (\<exists>fresh. frame_contract (\<lambda>_. True) fresh (ZSTD_isError zs) (ZSTD_decompressStream zs)) \<and> zstd_enc_contract (\<lambda>_. True) zs \<and>
     (\<exists>fresh. frame_contract (\<lambda>_. True) fresh (LZ4F_isError lz) (LZ4F_decompress lz)) \<and> lz4f_enc_contract (\<lambda>_. True) lz \<and>
     lz4_block_contract dec lz"

definition builtin_dec_inv ::
  "('m, 'ze, 'zd, 'le, 'ld) builtin_state zu_codec_vtable \<Rightarrow> ('m, 'ze, 'zd, 'le, 'ld) builtin_state option \<Rightarrow> bool" where
  "builtin_dec_inv v =
     (if v_codec v = ZU_CODEC_IDENTITY then lift_inv Unit_state (\<lambda>_. True)
      else if v_codec v = ZU_CODEC_ZSTD then lift_inv Zstd_state zstd_inv
      else if v_codec v = ZU_CODEC_LZ4_FRAME then lift_inv Lz4_state lz4f_inv
      else if v_codec v = ZU_CODEC_LZ4_BLOCK then lift_inv Lz4_state block_inv
      else lift_inv Deflate_state deflate_inv)"

definition builtin_enc_inv ::
  "('m, 'ze, 'zd, 'le, 'ld) builtin_state zu_codec_vtable \<Rightarrow> ('m, 'ze, 'zd, 'le, 'ld) builtin_state option \<Rightarrow> bool" where
  "builtin_enc_inv v =
     (if v_codec v = ZU_CODEC_IDENTITY then lift_inv Unit_state (\<lambda>_. True)
      else if v_codec v = ZU_CODEC_ZSTD then lift_inv Zstd_state (\<lambda>_. True)
      else if v_codec v = ZU_CODEC_LZ4_FRAME then lift_inv Lz4_state (\<lambda>so. \<forall>s. so = Some s \<longrightarrow> stage_ok s)
      else if v_codec v = ZU_CODEC_LZ4_BLOCK then lift_inv Lz4_state block_inv
      else lift_inv Deflate_state deflate_inv)"

lemma vtable_codecs [simp]:
  "v_codec (lift_vtable i p v) = v_codec v" "v_codec zu_int_codec_identity = ZU_CODEC_IDENTITY"
  "v_codec (zu_int_codec_deflate_raw mem mz) = ZU_CODEC_DEFLATE_RAW" "v_codec (zu_int_codec_zlib mem mz) = ZU_CODEC_ZLIB"
  "v_codec (zu_int_codec_gzip mem mz) = ZU_CODEC_GZIP" "v_codec (zu_int_codec_zstd mem zs) = ZU_CODEC_ZSTD"
  "v_codec (zu_int_codec_lz4_frame mem lz) = ZU_CODEC_LZ4_FRAME" "v_codec (zu_int_codec_lz4_block mem lz) = ZU_CODEC_LZ4_BLOCK"
  by (simp_all add: lift_vtable_def zu_int_codec_identity_def zu_int_codec_deflate_raw_def zu_int_codec_zlib_def zu_int_codec_gzip_def
      zu_int_codec_zstd_def zu_int_codec_lz4_frame_def zu_int_codec_lz4_block_def)

lemma vtable_fields:
  "\<exists>nw pr. v_decoder_new v = Some nw \<and> v_decoder_process v = Some pr" "\<exists>nw pr. v_encoder_new v = Some nw \<and> v_encoder_process v = Some pr"
  if "v = zu_int_codec_deflate_raw mem mz \<or> v = zu_int_codec_zlib mem mz \<or> v = zu_int_codec_gzip mem mz"
  using that by (auto simp: zu_int_codec_deflate_raw_def zu_int_codec_zlib_def zu_int_codec_gzip_def)

lemma builtin_prompt:
  assumes "engine_contracts dec mz zs lz"
  shows "decoders_prompt builtin_dec_inv (builtin_reg mem mz zs lz)"
proof -
  from assms obtain zf lf where c: "mz_contract mz" "mz_prompt mz"
    "frame_contract (\<lambda>_. True) zf (ZSTD_isError zs) (ZSTD_decompressStream zs)"
    "frame_contract (\<lambda>_. True) lf (LZ4F_isError lz) (LZ4F_decompress lz)" "lz4_block_contract dec lz"
    unfolding engine_contracts_def by blast
  have df: "prompt_decoder (lift_inv Deflate_state deflate_inv) (lift_vtable Deflate_state deflate_of v)"
    if dv: "v = zu_int_codec_deflate_raw mem mz \<or> v = zu_int_codec_zlib mem mz \<or> v = zu_int_codec_gzip mem mz" for v
  proof -
    obtain nw pr where n: "v_decoder_new v = Some nw" "v_decoder_process v = Some pr" using vtable_fields(1) [OF dv] by blast
    have "prompt_decoder deflate_inv v" using dv by (intro deflate_prompt [OF c(1,2)]) auto
    then show ?thesis by (rule deflate_state.lift_prompt [OF _ n])
  qed
  have id: "prompt_decoder (lift_inv Unit_state (\<lambda>_. True)) (lift_vtable Unit_state unit_of zu_int_codec_identity)"
    by (rule unit_state.lift_prompt [OF identity_prompt.prompt_decoder_axioms]) (simp_all add: zu_int_codec_identity_def)
  have zst: "prompt_decoder (lift_inv Zstd_state zstd_inv) (lift_vtable Zstd_state zstd_of (zu_int_codec_zstd mem zs))"
    by (rule zstd_state.lift_prompt [OF zstd_prompt [OF c(3)]]) (simp_all add: zu_int_codec_zstd_def)
  have l4f: "prompt_decoder (lift_inv Lz4_state lz4f_inv) (lift_vtable Lz4_state lz4_of (zu_int_codec_lz4_frame mem lz))"
    by (rule lz4_state.lift_prompt [OF lz4f_prompt [OF c(4)]]) (simp_all add: zu_int_codec_lz4_frame_def)
  have l4b: "prompt_decoder (lift_inv Lz4_state block_inv) (lift_vtable Lz4_state lz4_of (zu_int_codec_lz4_block mem lz))"
    by (rule lz4_state.lift_prompt [OF block_prompt(1) [OF c(5)]]) (simp_all add: zu_int_codec_lz4_block_def)
  show ?thesis
    unfolding decoders_prompt_def builtin_registered(2) builtin_codecs_def
    by (simp add: builtin_dec_inv_def zu_codec_ids df id zst l4f l4b del: One_nat_def)
qed


lemma builtin_enc_prompt:
  assumes "engine_contracts dec mz zs lz"
  shows "encoders_prompt builtin_enc_inv (builtin_reg mem mz zs lz)"
proof -
  from assms have c: "mz_contract mz" "mz_prompt mz" "zstd_enc_contract (\<lambda>_. True) zs" "lz4f_enc_contract (\<lambda>_. True) lz" "lz4_block_contract dec lz"
    unfolding engine_contracts_def by blast+
  have df: "prompt_encoder (lift_inv Deflate_state deflate_inv) (lift_vtable Deflate_state deflate_of v)"
    if dv: "v = zu_int_codec_deflate_raw mem mz \<or> v = zu_int_codec_zlib mem mz \<or> v = zu_int_codec_gzip mem mz" for v
  proof -
    obtain nw pr where n: "v_encoder_new v = Some nw" "v_encoder_process v = Some pr" using vtable_fields(2) [OF dv] by blast
    have "prompt_encoder deflate_inv v" using dv by (intro deflate_prompt [OF c(1,2)]) auto
    then show ?thesis by (rule deflate_state.lift_enc_prompt [OF _ n])
  qed
  have id: "prompt_encoder (lift_inv Unit_state (\<lambda>_. True)) (lift_vtable Unit_state unit_of zu_int_codec_identity)"
    by (rule unit_state.lift_enc_prompt [OF identity_enc_prompt.prompt_encoder_axioms]) (simp_all add: zu_int_codec_identity_def)
  have zst: "prompt_encoder (lift_inv Zstd_state (\<lambda>_. True)) (lift_vtable Zstd_state zstd_of (zu_int_codec_zstd mem zs))"
    by (rule zstd_state.lift_enc_prompt [OF zstd_enc_prompt [OF c(3)]]) (simp_all add: zu_int_codec_zstd_def)
  have l4f: "prompt_encoder (lift_inv Lz4_state (\<lambda>so. \<forall>s. so = Some s \<longrightarrow> stage_ok s)) (lift_vtable Lz4_state lz4_of (zu_int_codec_lz4_frame mem lz))"
    by (rule lz4_state.lift_enc_prompt [OF lz4f_enc_prompt [OF c(4)]]) (simp_all add: zu_int_codec_lz4_frame_def)
  have l4b: "prompt_encoder (lift_inv Lz4_state block_inv) (lift_vtable Lz4_state lz4_of (zu_int_codec_lz4_block mem lz))"
    by (rule lz4_state.lift_enc_prompt [OF block_prompt(2) [OF c(5)]]) (simp_all add: zu_int_codec_lz4_block_def)
  show ?thesis
    unfolding encoders_prompt_def builtin_registered(2) builtin_codecs_def
    by (simp add: builtin_enc_inv_def zu_codec_ids df id zst l4f l4b del: One_nat_def)
qed

lemma lift_new_status: "fst (lift_new emb f os) = fst (f os)"
  by (simp add: lift_new_def)

lemma lz4b_news: "fst (lz4b_decoder_new mem os) = ZU_OK \<or> \<not> is_progress (fst (lz4b_decoder_new mem os))"
  by (simp add: lz4b_decoder_new_def lz4b_new_def Let_def)

lemma builtin_news:
  assumes "mz_prompt mz"
  shows "decoder_news_ok (builtin_reg mem mz zs lz)"
proof -
  have df: "fst (zu_int_deflate_new mem mz w False ZU_LEVEL_DEFAULT fl) = ZU_OK \<or> \<not> is_progress (fst (zu_int_deflate_new mem mz w False ZU_LEVEL_DEFAULT fl))" for w fl
    using inflate_new_status [OF prod.collapse [symmetric] assms] .
  have zst: "fst (zstd_decoder_new mem zs os) = ZU_OK \<or> \<not> is_progress (fst (zstd_decoder_new mem zs os))" for os
    by (simp add: zstd_decoder_new_def zu_int_zstd_window_def Let_def split: prod.splits)
  have l4: "fst (lz4f_decoder_new mem lz os) = ZU_OK \<or> \<not> is_progress (fst (lz4f_decoder_new mem lz os))" for os
    by (simp add: lz4f_decoder_new_def split: prod.splits)
  show ?thesis
    unfolding decoder_news_ok_def builtin_registered(2) builtin_codecs_def
    using df zst l4
    by (simp add: lz4b_news lift_vtable_def lift_new_status zu_int_codec_identity_def identity_decoder_new_def identity_new_def
        zu_int_codec_deflate_raw_def zu_int_codec_zlib_def zu_int_codec_gzip_def deflate_raw_decoder_new_def zlib_decoder_new_def
        gzip_decoder_new_def zu_int_codec_zstd_def zu_int_codec_lz4_frame_def zu_int_codec_lz4_block_def)
qed

lemma builtin_32: "codecs_32 (builtin_reg mem mz zs lz)"
  unfolding codecs_32_def builtin_registered(2) builtin_codecs_def by (simp add: zu_codec_ids)

text \<open>At load time the registration of the built-in codecs succeeds, and afterwards the declared codecs
  that are available are exactly the seven built in.\<close>

theorem builtin_available:
  "\<exists>r. zu_int_register_builtin_codecs mem mz zs lz zu_registry_init = (ZU_OK, r) \<and> registry_wf r \<and>
    map (\<lambda>d. (d_name d, zu_codec_available r (zu_codec_lookup r (Some (d_name d))))) zu_int_declared =
      [(''identity'', True), (''deflate-raw'', True), (''zlib'', True), (''gzip'', True), (''brotli'', False), (''zstd'', True),
       (''lz4-frame'', True), (''lz4-block'', True), (''snappy-frame'', False), (''snappy-raw'', False)]"
proof (intro exI conjI)
  let ?r = "builtin_reg mem mz zs lz"
  show "zu_int_register_builtin_codecs mem mz zs lz zu_registry_init = (ZU_OK, ?r)" "registry_wf ?r" by (rule builtin_registered)+
  have "zu_codec_lookup ?r (Some (d_name d)) = d_codec d" if "d \<in> set zu_int_declared" for d
    by (rule declared_lookup [OF that])
  then have "map (\<lambda>d. (d_name d, zu_codec_available ?r (zu_codec_lookup ?r (Some (d_name d))))) zu_int_declared =
      map (\<lambda>d. (d_name d, zu_codec_available ?r (d_codec d))) zu_int_declared" by simp
  also have "\<dots> = [(''identity'', True), (''deflate-raw'', True), (''zlib'', True), (''gzip'', True), (''brotli'', False), (''zstd'', True),
       (''lz4-frame'', True), (''lz4-block'', True), (''snappy-frame'', False), (''snappy-raw'', False)]"
    by (simp add: zu_int_declared_def zu_codec_available_def zu_int_registry_lookup_def builtin_registered(2) builtin_codecs_def zu_codec_ids)
  finally show "map (\<lambda>d. (d_name d, zu_codec_available ?r (zu_codec_lookup ?r (Some (d_name d))))) zu_int_declared =
      [(''identity'', True), (''deflate-raw'', True), (''zlib'', True), (''gzip'', True), (''brotli'', False), (''zstd'', True),
       (''lz4-frame'', True), (''lz4-block'', True), (''snappy-frame'', False), (''snappy-raw'', False)]" .
qed

subsection \<open>The package as it is shipped\<close>

text \<open>Engines that keep the contracts: the ones of the codec theories, with a frame decoder for libzstd
  that accepts any bytes.\<close>

definition plain_zstd :: "(unit, nat) zstd_engine" where
  "plain_zstd = toy_zstd\<lparr>ZSTD_isError := (\<lambda>r. 1 < r), ZSTD_decompressStream := mini_decompress\<rparr>"

lemma demo_engines: "engine_contracts mini_block_dec zero_engine plain_zstd mini_block"
proof -
  have p: "mz_prompt zero_engine"
    unfolding mz_prompt_def
  proof (intro conjI allI impI)
    fix m win room fl mz m'
    assume c: "mz_deflate zero_engine m win room fl = (mz, 0, [], m') \<or> mz_inflate zero_engine m win room fl = (mz, 0, [], m')"
      and r: "mz = MZ_OK \<or> mz = MZ_BUF_ERROR"
    show "win = [] \<or> room = 0"
    proof (rule ccontr)
      assume n: "\<not> (win = [] \<or> room = 0)"
      then obtain x xs k where w: "win = x # xs" "room = Suc k" by (metis neq_Nil_conv not0_implies_Suc)
      with c r show False by (cases "x = 0") (auto simp: zero_engine_def zero_inflate_def zero_deflate_def mz_codes Let_def split: if_splits)
    qed
  qed (simp add: zero_engine_def mz_codes)
  have z: "frame_contract (\<lambda>_. True) mini_fresh (ZSTD_isError plain_zstd) (ZSTD_decompressStream plain_zstd)"
    using mini_contract by (simp add: plain_zstd_def)
  have ze: "zstd_enc_contract (\<lambda>_. True) plain_zstd"
    by (simp add: plain_zstd_def toy_zstd_def zstd_enc_contract_def toy_compress_def Let_def split: if_splits)
  have l: "frame_contract (\<lambda>_. True) mini_fresh (LZ4F_isError mini_block) (LZ4F_decompress mini_block)" "lz4f_enc_contract (\<lambda>_. True) mini_block"
  proof -
    have "LZ4F_isError mini_block = LZ4F_isError mini_lz4" "LZ4F_decompress mini_block = LZ4F_decompress mini_lz4"
      by (simp_all add: mini_block_def)
    then show "frame_contract (\<lambda>_. True) mini_fresh (LZ4F_isError mini_block) (LZ4F_decompress mini_block)" using mini_contracts(1) by simp
    have "lz4f_call mini_block op c cap = lz4f_call mini_lz4 op c cap" for op c cap by (cases op) (simp_all add: mini_block_def)
    then show "lz4f_enc_contract (\<lambda>_. True) mini_block" using mini_contracts(2) by (simp add: lz4f_enc_contract_def mini_block_def)
  qed
  show ?thesis unfolding engine_contracts_def using zero_engine_contract p z ze l mini_block_contract by blast
qed





end
