(* ===== verification/Zu_Formats.thy ===== *)
theory Zu_Formats
  imports Zu_Prelude
begin

text \<open>
  Formats as relations \<open>F m d\<close> between an encoded byte string and its data. A format whose units say themselves where
  they end is a prefix code: what begins with a unit begins with no other. Round trips of the codecs rest on this.
\<close>

definition prefix_code :: "(byte list \<Rightarrow> byte list \<Rightarrow> bool) \<Rightarrow> bool" where
  "prefix_code F \<longleftrightarrow> (\<forall>m x d d'. F m d \<longrightarrow> F (m @ x) d' \<longrightarrow> x = [] \<and> d' = d)"

lemma prefix_code_unique:
  assumes p: "prefix_code F" and f: "F m d" "F m' d'" and e: "m @ x = m' @ x'"
  shows "m = m'" "d = d'" "x = x'"
proof -
  from e consider us where "m = m' @ us" | us where "m' = m @ us" by (auto simp: append_eq_append_conv2)
  then have "m = m' \<and> d = d'" using p f unfolding prefix_code_def by cases auto
  then show "m = m'" "d = d'" "x = x'" using e by auto
qed

text \<open>A sequence of units that starts with the bytes of one starts with that one.\<close>

lemma prefix_code_first:
  assumes "prefix_code F" "F m d" "ms \<noteq> []" "\<forall>(m, d) \<in> set ms. F m d" "concat (map fst ms) @ tl1 = m @ x"
  obtains ms' where "ms = (m, d) # ms'" "concat (map fst ms') @ tl1 = x"
proof -
  from assms(3,4) obtain m' d' ms' where ms: "ms = (m', d') # ms'" "F m' d'" by (cases ms) auto
  with assms(5) have "m' @ concat (map fst ms') @ tl1 = m @ x" by simp
  from prefix_code_unique [OF assms(1) ms(2) assms(2) this] ms(1) show thesis by (intro that) simp_all
qed

text \<open>Some units, one behind the other. Where the bytes are those of a single unit, there is only that one.\<close>

definition units_of :: "(byte list \<Rightarrow> byte list \<Rightarrow> bool) \<Rightarrow> byte list \<Rightarrow> byte list \<Rightarrow> bool" where
  "units_of F i out \<longleftrightarrow>
     (\<exists>ms. ms \<noteq> [] \<and> (\<forall>(m, d) \<in> set ms. F m d) \<and> i = concat (map fst ms) \<and> out = concat (map snd ms))"

lemma units_of_one: "F m d \<Longrightarrow> units_of F m d"
  by (auto simp: units_of_def intro!: exI [of _ "[(m, d)]"])

lemma units_of_snoc: "units_of F i out \<Longrightarrow> F m d \<Longrightarrow> units_of F (i @ m) (out @ d)"
  unfolding units_of_def
proof (elim exE conjE)
  fix ms assume "ms \<noteq> []" "\<forall>(m, d) \<in> set ms. F m d" "i = concat (map fst ms)" "out = concat (map snd ms)" "F m d"
  then show "\<exists>ms. ms \<noteq> [] \<and> (\<forall>(m, d) \<in> set ms. F m d) \<and> i @ m = concat (map fst ms) \<and> out @ d = concat (map snd ms)"
    by (intro exI [of _ "ms @ [(m, d)]"]) auto
qed

lemma units_of_unit:
  assumes p: "prefix_code F" and n: "\<forall>d. \<not> F [] d" and f: "F y x" and u: "units_of F i z" and e: "i @ unread = y"
  shows "i = y \<and> z = x \<and> unread = []"
proof -
  from u obtain ms where ms: "ms \<noteq> []" "\<forall>(m, d) \<in> set ms. F m d" "i = concat (map fst ms)" "z = concat (map snd ms)"
    unfolding units_of_def by blast
  have "concat (map fst ms) @ unread = y @ []" using e ms(3) by simp
  from prefix_code_first [OF p f ms(1,2) this] obtain ms' where ms': "ms = (y, x) # ms'" "concat (map fst ms') @ unread = []" by blast
  then have "ms' = []" using ms(2) n by (cases ms') auto
  with ms' ms(3,4) show ?thesis by simp
qed

end
