(* ===== verification/Codec_Deflate_Roundtrip.thy ===== *)
theory Codec_Deflate_Roundtrip
  imports Codec_Deflate_Integrity Zu_Formats
begin

unbundle bit_operations_syntax

text \<open>
  Encoding and decoding with the DEFLATE family compose to the identity, for each of the three wrappers and over any
  split of the bytes into calls, given that the engine inverts itself on bare streams. And where they do not: the
  window handed to the engine is cut to 31 bits even when the call is to finish the stream.
\<close>

subsection \<open>Members are a prefix code\<close>

lemma header_unique:
  assumes "header_ok w h" "header_ok w h'" "h @ x = h' @ x'"
  shows "h = h'"
proof (cases w)
  case WRAP_GZIP
  have ends: "us = []" if "header_ok w h" "header_ok w (h @ us)" for h us
    using that WRAP_GZIP by (simp add: header_ok_def gzip_feed_all_append)
  from assms(3) consider us where "h = h' @ us" | us where "h' = h @ us" by (auto simp: append_eq_append_conv2)
  then show ?thesis using assms(1,2) ends by cases auto
qed (use assms in \<open>auto simp: header_ok_def append_eq_append_conv\<close>)

lemma member_prefix_code:
  assumes "prefix_code F"
  shows "prefix_code (member_of F w)"
  unfolding prefix_code_def
proof (intro allI impI)
  fix m x d d' assume m: "member_of F w m d" "member_of F w (m @ x) d'"
  then obtain h body h' body' where f: "header_ok w h" "F body d" "m = h @ body @ trailer_of w d"
    "header_ok w h'" "F body' d'" "m @ x = h' @ body' @ trailer_of w d'" unfolding member_of_def by blast
  then have e: "h @ body @ trailer_of w d @ x = h' @ body' @ trailer_of w d'" by simp
  with header_unique [OF f(1,4) e] have b: "body @ trailer_of w d @ x = body' @ trailer_of w d'" by simp
  from prefix_code_unique(2,3) [OF assms f(2,5) b] show "x = [] \<and> d' = d" by simp
qed

lemma gzip_member_not_empty: "\<not> member_of F WRAP_GZIP [] d"
  by (simp add: member_of_def header_ok_def)

subsection \<open>The round trip\<close>

lemma deflate_decodes_written:
  assumes "mz_contract eng" "mz_inflates eng I F" "prefix_code F" and y: "member_of F w y x"
    and "zu_int_deflate_new mem' eng w False level' fl' = (ZU_OK, Some d0)" "deflate_run eng d0 c z d ZU_STREAM_END"
    and "c @ unread = y @ behind"
  shows "\<exists>c' z'. c = y @ c' \<and> z = x @ z' \<and> (\<not> (w = WRAP_GZIP \<and> has_flag fl' ZU_DEC_CONCAT_MEMBERS) \<or> c' = [] \<longrightarrow> c' = [] \<and> z' = [])"
proof -
  from decoder_members_flags [OF assms(1,2,5,6)] obtain ms tl1 where ms: "ms \<noteq> []" "\<forall>(m, d) \<in> set ms. member_of F w m d"
    and c: "c = concat (map fst ms) @ tl1" "z = concat (map snd ms)"
    and one: "\<not> (w = WRAP_GZIP \<and> has_flag fl' ZU_DEC_CONCAT_MEMBERS) \<longrightarrow> length ms = 1 \<and> tl1 = []"
    unfolding members_of_def by (metis (full_types))
  have "concat (map fst ms) @ tl1 @ unread = y @ behind" using assms(7) c(1) by simp
  from prefix_code_first [OF member_prefix_code [OF assms(3)] y ms this] obtain ms' where ms': "ms = (y, x) # ms'" by blast
  have "concat (map snd ms') = []" if "concat (map fst ms') = []" "w = WRAP_GZIP"
    using that ms(2) gzip_member_not_empty by (cases ms') (auto simp: ms')
  then show ?thesis using c one by (auto simp: ms')
qed

text \<open>C13: what an encoder of the family wrote for \<open>x\<close>, a decoder of the same wrapper that is given these bytes, and
  possibly others behind them, turns into \<open>x\<close>, for any sequence of calls on either side. It has read exactly these
  bytes, unless it may go on with another gzip member and there were behind bytes.\<close>

theorem deflate_round_trip:
  assumes "mz_contract eng" "mz_deflates eng D F" "mz_inflates eng I F" "prefix_code F"
    and "zu_int_deflate_new mem eng w True level fl = (ZU_OK, Some e0)" "deflate_run eng e0 x y e ZU_STREAM_END"
    and "zu_int_deflate_new mem' eng w False level' fl' = (ZU_OK, Some d0)" "deflate_run eng d0 c z d ZU_STREAM_END"
    and "c @ unread = y @ behind"
  shows "\<exists>c' z'. c = y @ c' \<and> z = x @ z' \<and> (\<not> (w = WRAP_GZIP \<and> has_flag fl' ZU_DEC_CONCAT_MEMBERS) \<or> c' = [] \<longrightarrow> c' = [] \<and> z' = [])"
  by (rule deflate_decodes_written [OF assms(1,3,4) encoder_member [OF assms(1,2,5,6)] assms(7-9)])

subsection \<open>An engine that inverts itself\<close>

text \<open>\<^const>\<open>zero_engine\<close> with the byte \<open>0\<close>, its end marker, refused in the data.\<close>

definition strict_deflate :: "unit option \<Rightarrow> byte list \<Rightarrow> nat \<Rightarrow> int \<Rightarrow> int \<times> nat \<times> byte list \<times> unit option" where
  "strict_deflate m win room fl = (if 0 \<in> set win then (MZ_STREAM_ERROR, 0, [], m) else zero_deflate m win room fl)"

definition strict_engine :: "unit mz_engine" where
  "strict_engine = zero_engine\<lparr>mz_deflate := strict_deflate\<rparr>"

definition plain_bytes :: "byte list \<Rightarrow> byte list \<Rightarrow> bool" where
  "plain_bytes x y \<longleftrightarrow> x = y \<and> 0 \<notin> set y"

definition ended_bytes :: "byte list \<Rightarrow> byte list \<Rightarrow> bool" where
  "ended_bytes body x \<longleftrightarrow> body = x @ [0] \<and> 0 \<notin> set x"

lemma strict_engine_simps [simp]:
  "mz_deflate strict_engine = strict_deflate" "mz_inflate strict_engine = zero_inflate"
  "mz_inflateReset strict_engine m = (MZ_OK, m)" "mz_inflateInit2 strict_engine = (MZ_OK, Some ())"
  "mz_deflateInit2 strict_engine level = (MZ_OK, Some ())"
  by (simp_all add: strict_engine_def zero_engine_def)

lemma strict_engine_contract: "mz_contract strict_engine"
  unfolding mz_contract_def
  by (auto simp: strict_deflate_def dest: zero_inflate_bounds zero_deflate_bounds split: if_splits)

lemma strict_engine_deflates: "mz_deflates strict_engine (\<lambda>_. plain_bytes) ended_bytes"
  unfolding mz_deflates_def
  by (auto simp: plain_bytes_def ended_bytes_def strict_deflate_def zero_deflate_def Let_def mz_codes dest: in_set_takeD split: if_splits)

lemma strict_engine_inflates: "mz_inflates strict_engine (\<lambda>_. plain_bytes) ended_bytes"
  unfolding mz_inflates_def
proof (intro conjI allI impI)
  fix m :: "unit option" and body x win room fl mz used out m'
  assume p: "plain_bytes body x" and r: "mz_inflate strict_engine m win room fl = (mz, used, out, m')"
  define y where "y = takeWhile (\<lambda>b. b \<noteq> 0) (take room win)"
  have y: "take (length y) win = y" "0 \<notin> set y"
    using takeWhile_eq_take [of "\<lambda>b. b \<noteq> 0" "take room win"] length_takeWhile_le [of "\<lambda>b. b \<noteq> 0" "take room win"]
    by (auto simp: y_def min_def dest: set_takeWhileD split: if_splits)
  have e: "(if length y < length win \<and> win ! length y = 0 then (MZ_STREAM_END, length y + 1, y, m)
      else if win = [] then (MZ_BUF_ERROR, 0, [], m) else (MZ_OK, length y, y, m)) = (mz, used, out, m')"
    using r by (simp add: zero_inflate_def Let_def y_def [symmetric])
  show "ended_bytes (body @ take used win) (x @ out)" if "mz = MZ_STREAM_END"
    using e that p y by (auto simp: plain_bytes_def ended_bytes_def mz_codes take_Suc_conv_app_nth split: if_splits)
  show "plain_bytes (body @ take used win) (x @ out)" if "mz = MZ_OK \<or> mz = MZ_BUF_ERROR"
    using e that p y by (auto simp: plain_bytes_def mz_codes split: if_splits)
qed (auto simp: plain_bytes_def)

lemma ended_bytes_prefix_code: "prefix_code ended_bytes"
  unfolding prefix_code_def
proof (intro allI impI)
  fix m x d d' assume a: "ended_bytes m d" "ended_bytes (m @ x) d'"
  then have e: "d @ [0] @ x = d' @ [0]" "0 \<notin> set d" "0 \<notin> set d'" by (simp_all add: ended_bytes_def)
  then have "d = d' \<and> x = []" by (auto simp: append_eq_append_conv2 append_eq_Cons_conv Cons_eq_append_conv)
  then show "x = [] \<and> d' = d" by simp
qed

definition strict_encoder :: "unit deflate_state" where
  "strict_encoder = the (snd (zu_int_deflate_new (\<lambda>_ _. True) strict_engine WRAP_ZLIB True 6 0))"

definition strict_decoder :: "unit deflate_state" where
  "strict_decoder = the (snd (zu_int_deflate_new (\<lambda>_ _. True) strict_engine WRAP_ZLIB False ZU_LEVEL_DEFAULT 2))"

lemma strict_coders:
  "zu_int_deflate_new (\<lambda>_ _. True) strict_engine WRAP_ZLIB True 6 0 = (ZU_OK, Some strict_encoder)"
  "zu_int_deflate_new (\<lambda>_ _. True) strict_engine WRAP_ZLIB False ZU_LEVEL_DEFAULT 2 = (ZU_OK, Some strict_decoder)"
  by (simp_all add: strict_encoder_def strict_decoder_def zu_int_deflate_new_def Let_def)

text \<open>A run of one call.\<close>

lemma deflate_one_call:
  assumes "length i \<le> SIZE_MAX" "length t \<le> SIZE_MAX"
    and "case deflate_process eng (Some s) (one_shot_buffer i t) ZU_FINISH of
        Some (st, Some s', b') \<Rightarrow> st = ZU_STREAM_END \<and> consumed (one_shot_buffer i t) b' = x \<and> emitted (one_shot_buffer i t) b' = y
      | _ \<Rightarrow> False"
  shows "\<exists>s'. deflate_run eng s x y s' ZU_STREAM_END"
proof -
  from assms(3) obtain s' b' where
    "deflate_process eng (Some s) (one_shot_buffer i t) ZU_FINISH = Some (ZU_STREAM_END, Some s', b')"
    "consumed (one_shot_buffer i t) b' = x" "emitted (one_shot_buffer i t) b' = y"
    by (auto split: option.splits)
  with deflate_run.call [OF deflate_run.start _ one_shot_buffer_wf [OF assms(1,2)] this(1)] show ?thesis by auto
qed

lemma strict_encoder_run: "\<exists>s. deflate_run strict_engine strict_encoder [1, 2, 3] zlib_demo_out s ZU_STREAM_END"
proof (rule deflate_one_call [where i = "[1, 2, 3]" and t = "replicate 10 0"])
  show "case deflate_process strict_engine (Some strict_encoder) (one_shot_buffer [1, 2, 3] (replicate 10 0)) ZU_FINISH of
      Some (st, Some s', b') \<Rightarrow> st = ZU_STREAM_END \<and> consumed (one_shot_buffer [1, 2, 3] (replicate 10 0)) b' = [1, 2, 3] \<and>
        emitted (one_shot_buffer [1, 2, 3] (replicate 10 0)) b' = zlib_demo_out
    | _ \<Rightarrow> False" by code_simp
qed (simp_all add: UINT64_MAX_def)

lemma strict_decoder_run: "\<exists>s. deflate_run strict_engine strict_decoder zlib_demo_out [1, 2, 3] s ZU_STREAM_END"
proof (rule deflate_one_call [where i = "zlib_demo_out @ [9]" and t = "replicate 5 0"])
  show "case deflate_process strict_engine (Some strict_decoder) (one_shot_buffer (zlib_demo_out @ [9]) (replicate 5 0)) ZU_FINISH of
      Some (st, Some s', b') \<Rightarrow> st = ZU_STREAM_END \<and> consumed (one_shot_buffer (zlib_demo_out @ [9]) (replicate 5 0)) b' = zlib_demo_out \<and>
        emitted (one_shot_buffer (zlib_demo_out @ [9]) (replicate 5 0)) b' = [1, 2, 3]
    | _ \<Rightarrow> False" by code_simp
qed (simp_all add: UINT64_MAX_def zlib_demo_out_def)

theorem deflate_round_trip_witness:
  "\<exists>c' z'. zlib_demo_out = zlib_demo_out @ c' \<and> [1, 2, 3] = [1, 2, 3] @ z' \<and>
    (\<not> (WRAP_ZLIB = WRAP_GZIP \<and> has_flag 2 ZU_DEC_CONCAT_MEMBERS) \<or> c' = [] \<longrightarrow> c' = [] \<and> z' = ([] :: byte list))"
proof -
  from strict_encoder_run strict_decoder_run obtain e d where
    "deflate_run strict_engine strict_encoder [1, 2, 3] zlib_demo_out e ZU_STREAM_END"
    "deflate_run strict_engine strict_decoder zlib_demo_out [1, 2, 3] d ZU_STREAM_END" by blast
  then show ?thesis
    by (rule deflate_round_trip [OF strict_engine_contract strict_engine_deflates strict_engine_inflates
          ended_bytes_prefix_code strict_coders(1) _ strict_coders(2), where unread = "[9]" and behind = "[9]"]) simp
qed

subsection \<open>The window\<close>

text \<open>A raw encoder whose engine ends the stream in the window it was given has ended it there, whatever lies behind.\<close>

lemma deflate_process_window:
  assumes c: "mz_contract eng" and wf: "buf_wf b" and s: "ds_encoder s" "ds_wrap s = WRAP_NONE" "ds_state s = ST_BODY"
    and b: "0 < avail_out b" "MZ_WINDOW < avail_in b"
    and fin: "mz_deflate eng (ds_mz s) (take MZ_WINDOW (in_window b)) (min (avail_out b) MZ_WINDOW) MZ_FINISH = (MZ_STREAM_END, MZ_WINDOW, out, m)"
  shows "\<exists>s'. deflate_process eng (Some s) b ZU_FINISH = Some (ZU_STREAM_END, Some s', put_out out (skip_in MZ_WINDOW b))"
proof -
  have "(if avail_out b > MZ_WINDOW then MZ_WINDOW else avail_out b) = min (avail_out b) MZ_WINDOW" by simp
  then have "\<exists>s'. deflate_step eng ZU_FINISH (s, b) = Ret (ZU_STREAM_END, s', put_out out (skip_in MZ_WINDOW b))"
    using s b fin by (simp add: deflate_step_def deflate_body_step_def deflate_mz_call_def Let_def deflate_mz_flush_def zu_int_to_mz_flush_def)
  then obtain s' where "deflate_step eng ZU_FINISH (s, b) = Ret (ZU_STREAM_END, s', put_out out (skip_in MZ_WINDOW b))" ..
  then show ?thesis by (simp add: deflate_process_def run_loop_Ret)
qed

end
