(* ===== verification/Zu_Komp_Deflate.thy ===== *)
theory Zu_Komp_Deflate
  imports Zu_Komp_Codecs Codec_Deflate_Roundtrip
begin

unbundle bit_operations_syntax

text \<open>
  The DEFLATE family from R: what \<^verbatim>\<open>komp_compress\<close> returns for raw deflate, zlib or gzip, \<^verbatim>\<open>komp_decompress\<close>
  turns back into the input. And the one-shot call of the C API that loses the end of an input beyond the engine's window.
\<close>

subsection \<open>The codecs of the family\<close>

definition deflate_codecs :: "alloc \<Rightarrow> 'm mz_engine \<Rightarrow> (wrap_kind \<times> 'm deflate_state zu_codec_vtable) set" where
  "deflate_codecs mem eng =
     {(WRAP_NONE, zu_int_codec_deflate_raw mem eng), (WRAP_ZLIB, zu_int_codec_zlib mem eng), (WRAP_GZIP, zu_int_codec_gzip mem eng)}"

lemma deflate_codecs_calls:
  assumes "(w, v) \<in> deflate_codecs mem eng"
  shows "v \<in> {zu_int_codec_deflate_raw mem eng, zu_int_codec_zlib mem eng, zu_int_codec_gzip mem eng}"
    "the (v_encoder_process v) = deflate_process eng" "the (v_decoder_process v) = deflate_process eng"
    "the (v_encoder_new v) = (\<lambda>os. zu_int_deflate_new mem eng w True (eo_level os) 0)"
    "the (v_decoder_new v) = (\<lambda>os. zu_int_deflate_new mem eng w False ZU_LEVEL_DEFAULT (do_flags os))"
  using assms
  by (auto simp: deflate_codecs_def zu_int_codec_deflate_raw_def zu_int_codec_zlib_def zu_int_codec_gzip_def fun_eq_iff
      deflate_raw_encoder_new_def zlib_encoder_new_def gzip_encoder_new_def
      deflate_raw_decoder_new_def zlib_decoder_new_def gzip_decoder_new_def)

lemma deflate_codec_run: "codec_run (deflate_process eng) s0 i out s st \<Longrightarrow> deflate_run eng s0 i out s st"
  by (induction rule: codec_run.induct) (auto intro: deflate_run.intros)

text \<open>When the engine ends a stream: on a call that asks for it, with everything it was offered taken. Setting it up is
  neither the end of a stream nor a lack of room.\<close>

definition mz_ends :: "'m mz_engine \<Rightarrow> bool" where
  "mz_ends eng \<longleftrightarrow>
     (\<forall>m win room fl used out m'. mz_deflate eng m win room fl = (MZ_STREAM_END, used, out, m') \<longrightarrow> fl = MZ_FINISH \<and> used = length win) \<and>
     (\<forall>level mz m. mz_deflateInit2 eng level = (mz, m) \<longrightarrow> mz \<noteq> MZ_STREAM_END \<and> mz \<noteq> MZ_BUF_ERROR) \<and>
     (\<forall>mz m. mz_inflateInit2 eng = (mz, m) \<longrightarrow> mz \<noteq> MZ_STREAM_END \<and> mz \<noteq> MZ_BUF_ERROR)"

lemma deflate_call_ended:
  assumes "mz_ends eng" "buf_wf b" "ds_encoder s" "deflate_mz_call eng s b flush = (MZ_STREAM_END, used, made, s', b')"
  shows "flush = ZU_FINISH \<and> avail_in b' = avail_in b - min (avail_in b) MZ_WINDOW"
proof -
  let ?win = "take (if avail_in b > MZ_WINDOW then MZ_WINDOW else avail_in b) (in_window b)"
  let ?room = "if avail_out b > MZ_WINDOW then MZ_WINDOW else avail_out b"
  obtain mz u out m where r: "mz_deflate eng (ds_mz s) ?win ?room (deflate_mz_flush s flush) = (mz, u, out, m)" by (metis prod_cases4)
  then have e: "mz = MZ_STREAM_END" "u = used" "b' = put_out out (skip_in used b)"
    using assms(3,4) by (auto simp: deflate_mz_call_def Let_def)
  then have f: "deflate_mz_flush s flush = MZ_FINISH" and u: "used = length ?win"
    using assms(1) r unfolding mz_ends_def by blast+
  have "used = min (avail_in b) MZ_WINDOW" using u in_window_length [OF assms(2)] by simp
  then have "avail_in b' = avail_in b - min (avail_in b) MZ_WINDOW"
    using avail_in_wf [OF assms(2)] skip_in_adv [OF assms(2), of used] assms(2)
    by (auto simp: e(3) avail_in_def put_out_def skip_in_def u64_sub_def buf_wf_def min_def)
  moreover have "flush = ZU_FINISH"
    using f assms(3) by (auto simp: deflate_mz_flush_def zu_int_to_mz_flush_def MZ_NO_FLUSH_def MZ_SYNC_FLUSH_def MZ_FINISH_def split: zu_flush.splits)
  ultimately show ?thesis by simp
qed

text \<open>An encoder that has left the body has seen the end of its input.\<close>

definition body_ended :: "'m deflate_state \<Rightarrow> bool" where
  "body_ended s \<longleftrightarrow> ds_encoder s \<longrightarrow> ds_state s \<noteq> ST_HEADER \<and> ds_state s \<noteq> ST_BODY"

definition turn_end :: "'m deflate_turn \<Rightarrow> zu_status \<times> 'm deflate_state \<times> zu_buffer" where
  "turn_end t = (case t of Ret q \<Rightarrow> q | Next (s, b) \<Rightarrow> (ZU_OK, s, b))"

lemma body_step_ended:
  assumes m: "mz_ends eng" and wf: "buf_wf b" and s: "ds_encoder s" "ds_state s = ST_BODY" "mz_contract eng" "deflate_wf s"
    and t: "turn_end (deflate_body_step eng s b flush) = (st, s', b')"
  shows "(st = ZU_STREAM_END \<longrightarrow> body_ended s') \<and>
    (body_ended s' \<longrightarrow> flush = ZU_FINISH \<and> avail_in b' = avail_in b - min (avail_in b) MZ_WINDOW)"
proof (cases "avail_out b = 0")
  case True
  then show ?thesis using t s(1,2) by (simp add: turn_end_def deflate_body_step_def body_ended_def)
next
  case False
  obtain mz used made s1 b1 where call: "deflate_mz_call eng s b flush = (mz, used, made, s1, b1)" by (metis prod_cases5)
  note k = deflate_mz_call_moves(2,4) [OF s(3,4) wf call]
  show ?thesis
  proof (cases "mz = MZ_STREAM_END")
    case True
    from deflate_call_ended [OF m wf s(1) call [unfolded True]] call True False t k s show ?thesis
      by (auto simp: turn_end_def deflate_body_step_def body_ended_def split: if_splits)
  next
    case False
    have "zu_int_from_mz mz \<noteq> ZU_STREAM_END" using False by (simp add: zu_int_from_mz_def)
    with call False t k s show ?thesis
      by (auto simp: turn_end_def deflate_body_step_def body_ended_def split: if_splits)
  qed
qed

lemma deflate_step_ended:
  assumes m: "mz_ends eng" and wf: "buf_wf b" and s: "mz_contract eng" "deflate_wf s"
    and t: "turn_end (deflate_step eng flush (s, b)) = (st, s', b')"
  shows "(st = ZU_STREAM_END \<longrightarrow> body_ended s') \<and>
    (body_ended s' \<longrightarrow> body_ended s \<or> flush = ZU_FINISH \<and> avail_in b' = avail_in b - min (avail_in b) MZ_WINDOW)"
proof -
  have k: "ds_encoder s' = ds_encoder s"
    using deflate_step_ok [OF s wf, of flush] t by (auto simp: deflate_turn_ok_def deflate_kept_def turn_end_def split: loop_step.splits)
  consider (dec) "\<not> ds_encoder s" | (body) "ds_encoder s" "ds_state s = ST_BODY" | (header) "ds_encoder s" "ds_state s = ST_HEADER"
    | (over) "ds_encoder s" "ds_state s \<noteq> ST_HEADER" "ds_state s \<noteq> ST_BODY" by blast
  then show ?thesis
  proof cases
    case dec
    with k show ?thesis by (simp add: body_ended_def)
  next
    case body
    with body_step_ended [OF m wf body s, of flush st s' b'] t show ?thesis by (simp add: deflate_step_def)
  next
    case header
    with t k show ?thesis by (auto simp: turn_end_def deflate_step_def deflate_header_step_def body_ended_def split: if_splits)
  next
    case over
    with t k show ?thesis
      by (cases "ds_state s") (auto simp: turn_end_def deflate_step_def deflate_trailer_step_def deflate_member_end_step_def
          deflate_no_member_def deflate_concat_def body_ended_def Let_def split: if_splits)
  qed
qed

text \<open>So the process function of an encoder finishes its inputs, up to the size of the window.\<close>

lemma window_left: "buf_wf b \<Longrightarrow> buf_adv b b' \<Longrightarrow> avail_in b' = avail_in b - min (avail_in b) MZ_WINDOW \<Longrightarrow>
    input_ended MZ_WINDOW ZU_FINISH (length (consumed b b')) (avail_in b')"
  using consumed_length [of b b'] avail_in_wf [of b] avail_in_wf [of b'] buf_adv_wf [of b b']
  by (auto simp: input_ended_def buf_adv_def min_def split: if_splits)

lemma deflate_finishes:
  fixes eng :: "'m mz_engine"
  assumes c: "mz_contract eng" and m: "mz_ends eng"
  shows "finishes MZ_WINDOW deflate_inv body_ended (deflate_process eng)"
proof (rule finishesI)
  fix s :: "'m deflate_state" and b flush st so b'
  assume i: "deflate_inv (Some s)" and wf: "buf_wf b" and call: "deflate_process eng (Some s) b flush = Some (st, so, b')"
  let ?E = "\<lambda>s1 b1. body_ended s1 \<longrightarrow> body_ended s \<or> input_ended MZ_WINDOW flush (length (consumed b b1)) (avail_in b1)"
  let ?P = "\<lambda>s1 b1. buf_adv b b1 \<and> ?E s1 b1"
  have ws: "deflate_wf s" using i by (simp add: deflate_inv_def)
  have step: "(st1 = ZU_STREAM_END \<longrightarrow> body_ended s2) \<and> ?P s2 b2"
    if a: "deflate_wf s1" "buf_wf b1" "?P s1 b1" "turn_end (deflate_step eng flush (s1, b1)) = (st1, s2, b2)" for s1 b1 st1 s2 b2
  proof -
    have adv: "buf_adv b1 b2" using deflate_step_ok [OF c a(1,2), of flush] a(4)
      by (auto simp: deflate_turn_ok_def deflate_kept_def turn_end_def split: loop_step.splits)
    have l: "length (consumed b b2) = length (consumed b b1) + length (consumed b1 b2)"
      using consumed_trans [OF conjunct1 [OF a(3)] adv] by simp
    note e = deflate_step_ended [OF m a(2) c a(1,4)]
    have "?E s2 b2"
    proof (intro impI)
      assume "body_ended s2"
      with e consider (before) "body_ended s1" | (now) "flush = ZU_FINISH" "avail_in b2 = avail_in b1 - min (avail_in b1) MZ_WINDOW" by blast
      then show "body_ended s \<or> input_ended MZ_WINDOW flush (length (consumed b b2)) (avail_in b2)"
      proof cases
        case before
        with a(3) input_ended_call [OF _ _ a(2) adv, of MZ_WINDOW flush] show ?thesis unfolding l by blast
      next
        case now
        with window_left [OF a(2) adv] show ?thesis unfolding l by (auto simp: input_ended_def)
      qed
    qed
    with e a(3) adv show ?thesis by (blast intro: buf_adv_trans)
  qed
  have "\<exists>st s' b'. deflate_process eng (Some s) b flush = Some (st, Some s', b') \<and> deflate_kept s b s' b' \<and>
      ((st = ZU_STREAM_END \<longrightarrow> body_ended s') \<and> ?P s' b')"
  proof (rule deflate_loop [OF c ws wf, where P = ?P and Q = "\<lambda>st s2 b2. (st = ZU_STREAM_END \<longrightarrow> body_ended s2) \<and> ?P s2 b2"])
    show "?P s b" using wf by simp
  next
    fix s1 b1 s2 b2
    assume a: "deflate_wf s1" "buf_wf b1" "?P s1 b1" "deflate_step eng flush (s1, b1) = Next (s2, b2)"
    have "turn_end (deflate_step eng flush (s1, b1)) = (ZU_OK, s2, b2)" by (simp add: a(4) turn_end_def)
    from step [OF a(1-3) this] show "?P s2 b2" by blast
  next
    fix s1 b1 st s2 b2
    assume a: "deflate_wf s1" "buf_wf b1" "?P s1 b1" "deflate_step eng flush (s1, b1) = Ret (st, s2, b2)"
    have "turn_end (deflate_step eng flush (s1, b1)) = (st, s2, b2)" by (simp add: a(4) turn_end_def)
    from step [OF a(1-3) this] show "(st = ZU_STREAM_END \<longrightarrow> body_ended s2) \<and> ?P s2 b2" .
  qed
  with call show "\<exists>s'. so = Some s' \<and> (st = ZU_STREAM_END \<longrightarrow> body_ended s') \<and> ?E s' b'" by auto
qed

subsection \<open>From R and back\<close>

lemma deflate_new_outcome:
  fixes eng :: "'m mz_engine"
  assumes m: "mz_ends eng" and new: "zu_int_deflate_new mem eng w enc lv fl = (st, so)"
  shows "st \<noteq> ZU_STREAM_END \<and> (st = ZU_OK \<longrightarrow> (\<exists>s. so = Some s \<and> (enc \<longrightarrow> \<not> body_ended s)))"
proof (cases "mem ''deflate_state'' 1")
  case False
  with new show ?thesis by (auto simp: zu_int_deflate_new_def)
next
  case True
  let ?s = "deflate_blank w enc lv fl :: 'm deflate_state"
  obtain mz m where i: "(if enc then mz_deflateInit2 eng (ds_level ?s) else mz_inflateInit2 eng) = (mz, m)" by fastforce
  then have mz: "mz \<noteq> MZ_STREAM_END" "mz \<noteq> MZ_BUF_ERROR" using m unfolding mz_ends_def by (metis (full_types))+
  show ?thesis
  proof (cases "mz = MZ_OK")
    case False
    then have "st = zu_int_from_mz mz" using new True i by (simp add: zu_int_deflate_new_def Let_def)
    then show ?thesis using mz False by (simp add: zu_int_from_mz_def)
  next
    case ok: True
    then have "st = ZU_OK" "so = Some (deflate_new_wrap (?s\<lparr>ds_mz := m, ds_mz_live := True\<rparr>))"
      using new True i by (simp_all add: zu_int_deflate_new_def Let_def)
    then show ?thesis
      by (cases w) (simp_all add: body_ended_def deflate_new_wrap_def deflate_blank_def Let_def)
  qed
qed

lemma deflate_starts:
  assumes "mz_ends eng"
  shows "starts_fresh K (\<lambda>os. zu_int_deflate_new mem eng w True (lv os) fl) body_ended"
    "starts_fresh 0 (\<lambda>os. zu_int_deflate_new mem eng w False lv' (fo os)) fin"
  unfolding starts_fresh_def using deflate_new_outcome [OF assms] by blast+

lemma deflate_decodes:
  assumes "mz_contract eng"
  shows "finishes 0 deflate_inv fin (deflate_process eng)"
proof (rule finishes_0I)
  fix s b flush st so b' assume "deflate_inv (Some s)" "buf_wf b" and c: "deflate_process eng (Some s) b flush = Some (st, so, b')"
  then have "\<exists>st s' b'. deflate_process eng (Some s) b flush = Some (st, Some s', b')"
    using deflate_loop [OF assms, of s b "\<lambda>_ _. True" flush "\<lambda>_ _ _. True"] by (auto simp: deflate_inv_def)
  with c show "\<exists>s'. so = Some s'" by auto
qed

lemma deflate_inverts:
  assumes c: "mz_contract eng" "mz_ends eng" "mz_deflates eng D F" "mz_inflates eng I F" "prefix_code F"
    and v: "(w, v) \<in> deflate_codecs mem eng"
  shows "invertible_codec deflate_inv deflate_inv v MZ_WINDOW 0 body_ended (\<lambda>_. True) (member_of F w)"
proof (intro invertible_codec.intro invertible_codec_axioms.intro deflate_decoder_codec [OF c(1) deflate_codecs_calls(1) [OF v]]
    deflate_encoder_codec [OF c(1) deflate_codecs_calls(1) [OF v]]; (unfold deflate_codecs_calls(2-5) [OF v])?)
  fix os :: zu_encoder_opts and s0 x z s
  assume "zu_int_deflate_new mem eng w True (eo_level os) 0 = (ZU_OK, Some s0)" "codec_run (deflate_process eng) s0 x z s ZU_STREAM_END"
  then show "member_of F w z x" using encoder_member [OF c(1,3)] deflate_codec_run by blast
next
  fix z x and os :: zu_decoder_opts and s0 i y s rest
  assume m: "member_of F w z x" and r: "zu_int_deflate_new mem eng w False ZU_LEVEL_DEFAULT (do_flags os) = (ZU_OK, Some s0)"
    "codec_run (deflate_process eng) s0 i y s ZU_STREAM_END" and "i @ rest = z"
  then have "i @ rest = z @ []" by simp
  from deflate_decodes_written [OF c(1,4,5) m r(1) deflate_codec_run [OF r(2)] this] obtain c' z' where
    "i = z @ c'" "y = x @ z'" "c' = [] \<longrightarrow> z' = []" by blast
  with \<open>i @ rest = z\<close> show "y = x" by simp
qed (use deflate_finishes [OF c(1,2)] in \<open>simp_all add: deflate_starts [OF c(2)] deflate_decodes [OF c(1)] MZ_WINDOW_def\<close>)


subsection \<open>A demonstration\<close>

lemma strict_engine_ends: "mz_ends strict_engine"
  by (auto simp: mz_ends_def strict_deflate_def zero_deflate_def Let_def mz_codes MZ_FINISH_def split: if_splits)

lemma raw_vtable:
  "v_name (zu_int_codec_deflate_raw mem eng) = Some ''deflate-raw''" "v_codec (zu_int_codec_deflate_raw mem eng) = ZU_CODEC_DEFLATE_RAW"
  by (simp_all add: zu_int_codec_deflate_raw_def)

lemma raw_vtable_ok: "vtable_ok (zu_int_codec_deflate_raw mem_ok strict_engine)"
  by code_simp

lemma raw_calls:
  "one_call_ends (only_reg (zu_int_codec_deflate_raw mem_ok strict_engine)) (zu_int_codec_deflate_raw mem_ok strict_engine) True [1, 2, 3] [1, 2, 3, 0] m"
  "one_call_ends (only_reg (zu_int_codec_deflate_raw mem_ok strict_engine)) (zu_int_codec_deflate_raw mem_ok strict_engine) False [1, 2, 3, 0] [1, 2, 3] m"
  by (code_simp, simp add: eval_nat_numeral)+


subsection \<open>An input beyond the window\<close>

lemma deflate_raw_new:
  "zu_int_deflate_new mem eng WRAP_NONE True lv fl = (ZU_OK, Some s) \<Longrightarrow>
    ds_encoder s \<and> ds_wrap s = WRAP_NONE \<and> ds_state s = ST_BODY"
  by (auto simp: zu_int_deflate_new_def deflate_new_wrap_def deflate_blank_def Let_def split: if_splits prod.splits)

text \<open>C36: the engine's input window is cut to 31 bits also on the call that asks it to finish. A one-shot compression to
  raw deflate of a longer input, on an engine that finishes what it is offered, reports success with the stream of the first
  2^31 - 1 bytes: the rest is lost, and the result does not depend on it.\<close>

theorem compress_one_truncates:
  assumes "mz_contract eng" "zu_int_registry_lookup reg (eo_codec os) = Some (zu_int_codec_deflate_raw mem' eng)"
    and "zu_encoder_new mem reg os = (ZU_OK, Some e)" "e_state e = Some s"
    and "MZ_WINDOW < length i" "length i \<le> SIZE_MAX" "0 < length t" "length t \<le> SIZE_MAX"
    and "mz_deflate eng (ds_mz s) (take MZ_WINDOW i) (min (length t) MZ_WINDOW) MZ_FINISH = (MZ_STREAM_END, MZ_WINDOW, out, m)"
  shows "zu_compress_one mem reg os (Some i) (length i) (Some t) (length t) =
    Some (ZU_OK, Some (length out), Some (out @ drop (length out) t))"
proof -
  let ?b = "one_shot_buffer i t" and ?v = "zu_int_codec_deflate_raw mem' eng"
  have v: "the (v_encoder_new ?v) = (\<lambda>os. zu_int_deflate_new mem' eng WRAP_NONE True (eo_level os) 0)"
    "v_encoder_process ?v = Some (deflate_process eng)"
    by (simp_all add: zu_int_codec_deflate_raw_def deflate_raw_encoder_new_def fun_eq_iff)
  note n = encoder_new_call [OF assms(3,2)]
  have s: "ds_encoder s" "ds_wrap s = WRAP_NONE" "ds_state s = ST_BODY"
    using deflate_raw_new n(1) assms(4) unfolding v(1) by metis+
  have wf: "buf_wf ?b" by (rule one_shot_buffer_wf [OF assms(6,8)])
  have av: "avail_in ?b = length i" "avail_out ?b = length t" "in_window ?b = i"
    by (simp_all add: avail_in_def avail_out_def in_window_def seg_full)
  obtain s' where "deflate_process eng (Some s) ?b ZU_FINISH = Some (ZU_STREAM_END, Some s', put_out out (skip_in MZ_WINDOW ?b))"
    using deflate_process_window [OF assms(1) wf s, of out m] assms(5,7,9) av by auto
  then obtain e' where "zu_encoder_process e ?b ZU_FINISH = Some (ZU_STREAM_END, e', put_out out (skip_in MZ_WINDOW ?b))"
    using n(2,3) assms(4) v(2) buf_wf_check [OF wf] by (auto simp: zu_encoder_process_def zu_int_check_flush_def)
  then have "one_shot_step (Enc e, ?b) = Some (Ret (ZU_OK, Enc e', put_out out (skip_in MZ_WINDOW ?b)))"
    by (simp add: one_shot_step_def handle_process_def)
  then have "zu_int_one_shot mem reg (EncOpts os) (Some i) (length i) (Some t) (length t) =
      Some (ZU_OK, Some (dst_pos (put_out out (skip_in MZ_WINDOW ?b))), dst (put_out out (skip_in MZ_WINDOW ?b)))"
    by (rule one_shot_ret [rotated]) (simp add: handle_new_def assms(3))
  then show ?thesis
    by (simp add: zu_compress_one_def put_out_def skip_in_def one_shot_buffer_def write_at_def)
qed

text \<open>An engine that finishes in one call, for runs of zeros: their number.\<close>

definition run_deflate :: "unit option \<Rightarrow> byte list \<Rightarrow> nat \<Rightarrow> int \<Rightarrow> int \<times> nat \<times> byte list \<times> unit option" where
  "run_deflate m win room fl =
     (if fl = MZ_FINISH \<and> 4 \<le> room \<and> list_all (\<lambda>b. b = 0) win
      then (MZ_STREAM_END, length win, le_bytes 4 (length win), m) else (MZ_STREAM_ERROR, 0, [], m))"

definition run_engine :: "unit mz_engine" where
  "run_engine = zero_engine\<lparr>mz_deflate := run_deflate\<rparr>"

abbreviation run_reg :: "unit deflate_state zu_registry" where
  "run_reg \<equiv> only_reg (zu_int_codec_deflate_raw mem_ok run_engine)"

definition run_opts :: zu_encoder_opts where
  "run_opts = \<lparr>eo_struct_size = 16, eo_codec = ZU_CODEC_DEFLATE_RAW, eo_level = ZU_LEVEL_DEFAULT, eo_flags = 0\<rparr>"

definition run_enc :: "unit deflate_state zu_encoder" where
  "run_enc = the (snd (zu_encoder_new mem_ok run_reg run_opts))"

lemma run_engine_contract: "mz_contract run_engine"
  unfolding mz_contract_def
  by (auto simp: run_engine_def zero_engine_def run_deflate_def dest: zero_inflate_bounds split: if_splits)

lemma run_enc_new: "zu_encoder_new mem_ok run_reg run_opts = (ZU_OK, Some run_enc)" "e_state run_enc \<noteq> None"
proof -
  have "fst (zu_encoder_new mem_ok run_reg run_opts) = ZU_OK" "snd (zu_encoder_new mem_ok run_reg run_opts) \<noteq> None"
    by code_simp+
  then show "zu_encoder_new mem_ok run_reg run_opts = (ZU_OK, Some run_enc)"
    unfolding run_enc_def by (simp add: prod_eq_iff)
  show "e_state run_enc \<noteq> None" by code_simp
qed

lemma run_vtable_ok: "vtable_ok (zu_int_codec_deflate_raw mem_ok run_engine)"
  by code_simp

lemma run_lookup: "zu_int_registry_lookup run_reg (eo_codec run_opts) = Some (zu_int_codec_deflate_raw mem_ok run_engine)"
  by (simp add: zu_int_registry_lookup_def only_reg_table [OF run_vtable_ok] run_opts_def raw_vtable zu_codec_ids)

theorem compress_one_truncates_witness:
  "zu_compress_one mem_ok run_reg run_opts (Some (replicate (Suc MZ_WINDOW) 0)) (Suc MZ_WINDOW) (Some [0, 0, 0, 0]) 4 =
    Some (ZU_OK, Some 4, Some [0xFF, 0xFF, 0xFF, 0x7F])"
proof -
  obtain s where s: "e_state run_enc = Some s" using run_enc_new(2) by blast
  have le: "le_bytes 4 MZ_WINDOW = [0xFF, 0xFF, 0xFF, 0x7F]" by code_simp
  have "mz_deflate run_engine (ds_mz s) (take MZ_WINDOW (replicate (Suc MZ_WINDOW) 0)) (min (length [0, 0, 0, 0 :: byte]) MZ_WINDOW) MZ_FINISH =
      (MZ_STREAM_END, MZ_WINDOW, le_bytes 4 MZ_WINDOW, ds_mz s)"
    by (simp add: run_engine_def run_deflate_def list_all_length MZ_WINDOW_def del: replicate_Suc)
  note r = compress_one_truncates [OF run_engine_contract run_lookup run_enc_new(1) s _ _ _ _ this]
  have "length [0, 0, 0, 0 :: byte] = 4" by simp
  from r [unfolded this le] show ?thesis by (simp add: MZ_WINDOW_def UINT64_MAX_def del: replicate_Suc)
qed

end
