(* ===== verification/Zu_Komp_Frames.thy ===== *)
theory Zu_Komp_Frames
  imports Zu_Komp_Codecs Zu_Formats Codec_Zstd
begin

unbundle bit_operations_syntax

text \<open>
  zstd and lz4-frame from R: what \<^verbatim>\<open>komp_compress\<close> returns is one frame, which \<^verbatim>\<open>komp_decompress\<close> turns back into the
  input, given that each library reads the frames it writes.
\<close>

subsection \<open>zstd\<close>

text \<open>What libzstd is relied on for: a context as the codec sets it up writes a frame of \<open>F\<close> up to the end of its stream and
  reads frames of \<open>F\<close>, and it ends a frame only when it has taken all that it was offered.\<close>

definition zstd_frames :: "(byte list \<Rightarrow> byte list \<Rightarrow> bool) \<Rightarrow> ('e, 'd) zstd_engine \<Rightarrow> bool" where
  "zstd_frames F eng \<longleftrightarrow>
     (\<forall>mem os s i out c. zstd_encoder_new mem eng os = (ZU_OK, Some s) \<longrightarrow> zstd_written eng (zs_cctx s) i out True c \<longrightarrow> F out i) \<and>
     (\<forall>mem os s i out c. zstd_decoder_new mem eng os = (ZU_OK, Some s) \<longrightarrow>
        lib_run (ZSTD_decompressStream eng) (ZSTD_isError eng) (zs_dctx s) i out True c \<longrightarrow> units_of F i out) \<and>
     (\<forall>c win room used ws n c'. ZSTD_compressStream2 eng ZSTD_e_end c win room = (0, used, ws, n, c') \<longrightarrow> used = length win)"

lemma zstd_level_status: "zu_int_zstd_level eng s l = (st, s') \<Longrightarrow> st \<noteq> ZU_STREAM_END"
  by (auto simp: zu_int_zstd_level_def Let_def split: prod.splits if_splits)

lemma zstd_level_done: "zu_int_zstd_level eng s l = (st, s') \<Longrightarrow> zs_done s' = zs_done s"
  by (auto simp: zu_int_zstd_level_def Let_def split: prod.splits if_splits)

lemma zstd_window_status: "zu_int_zstd_window eng s = (st, s') \<Longrightarrow> st \<noteq> ZU_STREAM_END"
  by (auto simp: zu_int_zstd_window_def split: prod.splits if_splits)

lemma zstd_starts:
  "starts_fresh K (zstd_encoder_new mem eng) zs_done" "starts_fresh 0 (zstd_decoder_new mem eng) fin"
  unfolding starts_fresh_def
  by (auto simp: zstd_encoder_new_def zstd_decoder_new_def zstd_blank_def Let_def
      dest: zstd_level_status zstd_window_status zstd_level_done split: if_splits prod.splits)

lemma zstd_step_done:
  assumes c: "zstd_enc_contract (\<lambda>_. True) eng" and f: "zstd_frames F eng" and wf: "buf_wf b" and nd: "\<not> zs_done s"
    and step: "zstd_encoder_step eng op (s, b) = Ret (st, s', b')" and d: "zs_done s'"
  shows "op = ZSTD_e_end \<and> avail_in b' = 0"
proof -
  obtain r used ws n k where cl: "ZSTD_compressStream2 eng op (zs_cctx s) (in_window b) (avail_out b) = (r, used, ws, n, k)"
    by (metis prod_cases5)
  note cc = zstd_enc_contractD [OF c TrueI cl]
  from step cl d nd have e: "op = ZSTD_e_end" "r = 0" "b' = advance used n (write_out ws b)"
    by (auto simp: zstd_encoder_step_def Let_def split: if_splits)
  have u: "used = length (in_window b)" using f cl e(1,2) unfolding zstd_frames_def by blast
  then have "used \<le> avail_in b" "used = avail_in b" using in_window_length [OF wf] by simp_all
  note mv = advance_moves [OF wf this(1) cc(2,3)]
  have "avail_in b' = avail_in b - length (consumed b b')" using adv_room(1) [OF wf mv(1)] e(3) by simp
  also have "\<dots> = 0" using mv(2) e(3) u \<open>used = avail_in b\<close> by simp
  finally show ?thesis using e(1) by simp
qed

lemma zstd_finishes:
  fixes eng :: "('e, 'd) zstd_engine"
  assumes c: "zstd_enc_contract (\<lambda>_. True) eng" and f: "zstd_frames F eng"
  shows "finishes K (\<lambda>_. True) zs_done (zstd_encoder_process eng)"
proof (rule finishesI)
  fix s :: "('e, 'd) zstd_state" and b flush st so b'
  assume wf: "buf_wf b" and call: "zstd_encoder_process eng (Some s) b flush = Some (st, so, b')"
  show "\<exists>s'. so = Some s' \<and> (st = ZU_STREAM_END \<longrightarrow> zs_done s') \<and>
    (zs_done s' \<longrightarrow> zs_done s \<or> input_ended K flush (length (consumed b b')) (avail_in b'))"
  proof (cases "zs_done s")
    case True
    with call show ?thesis by (auto simp: zstd_encoder_process_def)
  next
    case nd: False
    with call obtain s' where s': "so = Some s'"
      and loop: "run_loop (\<lambda>sb. Some (zstd_encoder_step eng (zstd_op flush) sb)) (s, b) = Some (st, s', b')"
      by (auto simp: zstd_encoder_process_def)
    let ?Q = "\<lambda>(st, s', b'). (st = ZU_STREAM_END \<longrightarrow> zs_done s') \<and> (zs_done s' \<longrightarrow> zstd_op flush = ZSTD_e_end \<and> avail_in b' = 0)"
    have "?Q (st, s', b')"
    proof (rule run_loop_inv [OF loop, where I = "\<lambda>(s1, b1). buf_wf b1 \<and> \<not> zs_done s1"])
      show "case (s, b) of (s1, b1) \<Rightarrow> buf_wf b1 \<and> \<not> zs_done s1" using wf nd by simp
    next
      fix x y assume "case x of (s1, b1) \<Rightarrow> buf_wf b1 \<and> \<not> zs_done s1" and e: "Some (zstd_encoder_step eng (zstd_op flush) x) = Some (Next y)"
      then obtain s1 b1 s2 b2 where x: "x = (s1, b1)" "y = (s2, b2)" "buf_wf b1" "\<not> zs_done s1" by (cases x; cases y) auto
      from zstd_enc_turn [OF c TrueI x(3,4), of "zs_cctx s1" "zstd_op flush"] e x
      show "case y of (s1, b1) \<Rightarrow> buf_wf b1 \<and> \<not> zs_done s1" by (auto simp: zstd_enc_kept_def intro: buf_adv_wf)
    next
      fix x q assume "case x of (s1, b1) \<Rightarrow> buf_wf b1 \<and> \<not> zs_done s1" and e: "Some (zstd_encoder_step eng (zstd_op flush) x) = Some (Ret q)"
      then obtain s1 b1 st s2 b2 where x: "x = (s1, b1)" "q = (st, s2, b2)" "buf_wf b1" "\<not> zs_done s1" by (cases x; cases q) auto
      from zstd_enc_turn [OF c TrueI x(3,4), of "zs_cctx s1" "zstd_op flush"] e x
      have "st = ZU_STREAM_END \<longrightarrow> zs_done s2" by simp
      moreover from zstd_step_done [OF c f x(3,4), of "zstd_op flush" st s2 b2] e x
      have "zs_done s2 \<longrightarrow> zstd_op flush = ZSTD_e_end \<and> avail_in b2 = 0" by simp
      ultimately show "?Q q" using x(2) by simp
    qed
    moreover have "flush = ZU_FINISH" if "zstd_op flush = ZSTD_e_end" using that by (cases flush) (simp_all add: zstd_op_def)
    ultimately show ?thesis using s' by (auto simp: input_ended_def)
  qed
qed

lemma zstd_decodes:
  assumes c: "frame_contract (\<lambda>_. True) fresh (ZSTD_isError eng) (ZSTD_decompressStream eng)"
  shows "finishes 0 zstd_inv fin (zstd_decoder_process eng)"
proof (rule finishes_0I)
  fix s b flush st so b' assume i: "zstd_inv (Some s)" "buf_wf b" and call: "zstd_decoder_process eng (Some s) b flush = Some (st, so, b')"
  from zstd.process_returns [OF c TrueI i(2), of s flush "zs_dctx s"] i(1) call
  show "\<exists>s'. so = Some s'" by (auto simp: zstd_inv_def)
qed

lemma zstd_vtable:
  "v_encoder_process (zu_int_codec_zstd mem eng) = Some (zstd_encoder_process eng)"
  "v_decoder_process (zu_int_codec_zstd mem eng) = Some (zstd_decoder_process eng)"
  "v_encoder_new (zu_int_codec_zstd mem eng) = Some (zstd_encoder_new mem eng)"
  "v_decoder_new (zu_int_codec_zstd mem eng) = Some (zstd_decoder_new mem eng)"
  "v_name (zu_int_codec_zstd mem eng) = Some ''zstd''"
  by (simp_all add: zu_int_codec_zstd_def)

lemma zstd_inverts:
  assumes c: "frame_contract (\<lambda>_. True) fresh (ZSTD_isError eng) (ZSTD_decompressStream eng)" "zstd_enc_contract (\<lambda>_. True) eng"
    and f: "zstd_frames F eng" "prefix_code F" "\<forall>d. \<not> F [] d"
  shows "invertible_codec zstd_inv (\<lambda>_. True) (zu_int_codec_zstd mem eng) (2 ^ 52) 0 zs_done (\<lambda>_. True) F"
proof (intro invertible_codec.intro invertible_codec_axioms.intro zstd_decoder_codec [OF c(1)] zstd_encoder_codec [OF c(2)];
    (unfold zstd_vtable option.sel)?)
  fix os s0 x z s assume n: "zstd_encoder_new mem eng os = (ZU_OK, Some s0)" and r: "codec_run (zstd_encoder_process eng) s0 x z s ZU_STREAM_END"
  have "\<not> zs_done s0" using starts_freshD(2) [OF zstd_starts(1) [of 1] n] by simp
  from zstd_encoder_trace [OF c(2) TrueI this r] have "zstd_written eng (zs_cctx s0) x z True (zs_cctx s)"
    by (metis (full_types) is_progress.simps(4) zstd_enc_at_def)
  with n f(1) show "F z x" unfolding zstd_frames_def by blast
next
  fix z x os s0 i y s rest
  assume m: "F z x" and n: "zstd_decoder_new mem eng os = (ZU_OK, Some s0)" and r: "codec_run (zstd_decoder_process eng) s0 i y s ZU_STREAM_END"
    and z: "i @ rest = z"
  from zstd.decoder_exact [OF c(1) TrueI zstd_decoder_new_frames [OF n] r] obtain i' tl1 k where
    i: "i = i' @ tl1" "lib_run (ZSTD_decompressStream eng) (ZSTD_isError eng) (zs_dctx s0) i' y True k" by blast
  then have "units_of F i' y" using f(1) n unfolding zstd_frames_def by blast
  moreover have "i' @ tl1 @ rest = z" using i(1) z by simp
  ultimately show "y = x" using units_of_unit [OF f(2,3) m] by blast
qed (simp_all add: zstd_starts zstd_finishes [OF c(2) f(1)] zstd_decodes [OF c(1)])

text \<open>What komp_compress() returns for zstd is one frame of exactly the vector it was given, and komp_decompress() of
  it, whatever the limits and the environment, returns exactly that vector when it succeeds, given that libzstd reads the
  frames it writes.\<close>

theorem komp_zstd_round_trip:
  assumes "frame_contract (\<lambda>_. True) fresh (ZSTD_isError eng) (ZSTD_decompressStream eng)" "zstd_enc_contract (\<lambda>_. True) eng"
    and "zstd_frames F eng" "prefix_code F" "\<forall>d. \<not> F [] d"
    and "registry_wf reg" "zu_int_codec_zstd mem eng \<in> set (reg_table reg)" "raw_ok x" "r_char0 codec = ''zstd''"
    and "zukomp_compress env reg x codec level live = Some (R_pair ZU_STREAM_END z, frees, freed, live1)"
    and "raw_ok (r_raw z)"
    and "zukomp_decompress env' reg (r_raw z) codec r_max r_ratio live' = Some (R_pair ZU_STREAM_END y, frees', freed', live2)"
  shows "F z (x_raw x) \<and> y = x_raw x"
proof -
  have "zu_codec_lookup reg (Some (r_char0 codec)) = v_codec (zu_int_codec_zstd mem eng)"
    using registered_name_resolves [OF assms(6,7)] by (simp add: assms(9) zstd_vtable)
  from invertible_codec.round_trip [OF zstd_inverts [OF assms(1-5)] assms(6,7) this assms(8) _ assms(10-12)] assms(8)
  show ?thesis by (simp add: raw_ok_def)
qed

subsection \<open>lz4-frame\<close>

definition lz4_frames :: "(byte list \<Rightarrow> byte list \<Rightarrow> bool) \<Rightarrow> ('e, 'd) lz4_engine \<Rightarrow> bool" where
  "lz4_frames F eng \<longleftrightarrow>
     (\<forall>mem os s ops i out c. lz4f_encoder_new mem eng os = (ZU_OK, Some s) \<longrightarrow> lz4f_written eng (l_cctx s) ops i out c \<longrightarrow>
        lz4f_one_frame ops \<longrightarrow> F out i) \<and>
     (\<forall>mem os s i out c. lz4f_decoder_new mem eng os = (ZU_OK, Some s) \<longrightarrow>
        lib_run (LZ4F_decompress eng) (LZ4F_isError eng) (l_dctx s) i out True c \<longrightarrow> units_of F i out)"

lemma lz4f_starts:
  fixes eng :: "('e, 'd) lz4_engine"
  shows "starts_fresh K (lz4f_encoder_new mem eng) (\<lambda>s. l_ended s \<or> l_done s)" "starts_fresh 0 (lz4f_decoder_new mem eng) fin"
  unfolding starts_fresh_def
proof (intro allI impI)
  fix os st so assume n: "lz4f_encoder_new mem eng os = (st, so)"
  then show "st \<noteq> ZU_STREAM_END \<and> (st = ZU_OK \<longrightarrow> (\<exists>s. so = Some s \<and> (K = 0 \<or> \<not> (l_ended s \<or> l_done s))))"
    using lz4f_encoder_new_ok [of mem eng os] by (auto simp: lz4f_encoder_new_def Let_def split: if_splits prod.splits)
qed (auto simp: lz4f_decoder_new_def split: if_splits prod.splits)

text \<open>The end of a frame is only written when all input has been taken and the caller finishes.\<close>

lemma lz4f_produce_ended:
  assumes "lz4f_produce eng flush s b fl = Some (r, ws, s', b', fl')" "l_ended s' \<or> l_done s'"
  shows "l_ended s \<or> l_done s \<or> flush = ZU_FINISH \<and> avail_in b' = 0"
  using assms by (auto simp: lz4f_produce_def Let_def split: if_splits prod.splits)

lemma lz4f_step_ended:
  assumes e: "lz4f_encoder_step eng flush (s, b, fl) = Ret (st, s', b') \<or> lz4f_encoder_step eng flush (s, b, fl) = Next (s', b', fl')"
    and k: "l_ended s \<or> l_done s \<longrightarrow> Q \<or> flush = ZU_FINISH \<and> avail_in b = 0"
  shows "l_ended s' \<or> l_done s' \<longrightarrow> Q \<or> flush = ZU_FINISH \<and> avail_in b' = 0"
proof -
  obtain dr s1 b1 where d: "zu_int_lz4_drain s b = (dr, s1, b1)" by (metis prod_cases3)
  have a: "avail_in b1 = avail_in b" "l_done s1 = l_done s" "l_ended s1 = l_ended s"
    using drain_avail [OF d] d by (auto simp: zu_int_lz4_drain_def Let_def split: if_splits)
  show ?thesis
  proof (cases "\<not> dr \<or> l_done s1 \<or> l_ended s1")
    case True
    with e d a k show ?thesis by (auto simp: lz4f_encoder_step_def split: if_splits)
  next
    case False
    show ?thesis
    proof (cases "lz4f_produce eng flush s1 b1 fl")
      case None
      with e d a k False show ?thesis by (auto simp: lz4f_encoder_step_def)
    next
      case (Some q)
      obtain r ws s2 b2 fl2 where q: "q = (r, ws, s2, b2, fl2)" by (metis prod_cases5)
      from lz4f_produce_ended [OF Some [unfolded q]] False
      have p: "l_ended s2 \<or> l_done s2 \<longrightarrow> flush = ZU_FINISH \<and> avail_in b2 = 0" by blast
      with e d False Some q show ?thesis by (auto simp: lz4f_encoder_step_def Let_def split: if_splits)
    qed
  qed
qed

lemma lz4f_finishes:
  fixes eng :: "('e, 'd) lz4_engine"
  assumes c: "lz4f_enc_contract (\<lambda>_. True) eng"
  shows "finishes K (\<lambda>so. \<forall>s. so = Some s \<longrightarrow> stage_ok s) (\<lambda>s. l_ended s \<or> l_done s) (lz4f_encoder_process eng)"
proof (rule finishesI)
  fix s :: "('e, 'd) lz4_state" and b flush st so b'
  assume i: "\<forall>t. Some s = Some t \<longrightarrow> stage_ok t" "buf_wf b" and call: "lz4f_encoder_process eng (Some s) b flush = Some (st, so, b')"
  obtain s' where s': "so = Some s'" and loop: "run_loop (\<lambda>x. Some (lz4f_encoder_step eng flush x)) (s, b, False) = Some (st, s', b')"
    using call by (auto simp: lz4f_encoder_process_def)
  let ?E = "\<lambda>s1 b1. l_ended s1 \<or> l_done s1 \<longrightarrow> (l_ended s \<or> l_done s) \<or> flush = ZU_FINISH \<and> avail_in b1 = 0"
  have "case (st, s', b') of (st, s1, b1) \<Rightarrow> ?E s1 b1"
  proof (rule run_loop_inv [OF loop, where I = "\<lambda>(s1, b1, fl). ?E s1 b1"])
    show "case (s, b, False) of (s1, b1, fl) \<Rightarrow> ?E s1 b1" by simp
  next
    fix x y assume k: "case x of (s1, b1, fl) \<Rightarrow> ?E s1 b1" and e: "Some (lz4f_encoder_step eng flush x) = Some (Next y)"
    obtain s1 b1 fl s2 b2 fl2 where x: "x = (s1, b1, fl)" "y = (s2, b2, fl2)" by (metis prod_cases3)
    have "lz4f_encoder_step eng flush (s1, b1, fl) = Next (s2, b2, fl2)" using e x by simp
    from lz4f_step_ended [OF disjI2 [OF this], of "l_ended s \<or> l_done s"] k x show "case y of (s1, b1, fl) \<Rightarrow> ?E s1 b1" by simp
  next
    fix x q assume k: "case x of (s1, b1, fl) \<Rightarrow> ?E s1 b1" and e: "Some (lz4f_encoder_step eng flush x) = Some (Ret q)"
    obtain s1 b1 fl r s2 b2 where x: "x = (s1, b1, fl)" "q = (r, s2, b2)" by (metis prod_cases3)
    have "lz4f_encoder_step eng flush (s1, b1, fl) = Ret (r, s2, b2)" using e x by simp
    from lz4f_step_ended [OF disjI1 [OF this], of "l_ended s \<or> l_done s"] k x show "case q of (st, s1, b1) \<Rightarrow> ?E s1 b1" by simp
  qed
  moreover have "st = ZU_STREAM_END \<longrightarrow> l_done s'"
    using lz4f_encoder_returns [OF c TrueI i(2), of s flush "l_cctx s"] i(1) call s' by auto
  ultimately show "\<exists>s'. so = Some s' \<and> (st = ZU_STREAM_END \<longrightarrow> l_ended s' \<or> l_done s') \<and>
      (l_ended s' \<or> l_done s' \<longrightarrow> (l_ended s \<or> l_done s) \<or> input_ended K flush (length (consumed b b')) (avail_in b'))"
    using s' by (auto simp: input_ended_def)
qed

lemma lz4f_decodes:
  assumes c: "frame_contract (\<lambda>_. True) fresh (LZ4F_isError eng) (LZ4F_decompress eng)"
  shows "finishes 0 lz4f_inv fin (lz4f_decoder_process eng)"
proof (rule finishes_0I)
  fix s b flush st so b' assume i: "lz4f_inv (Some s)" "buf_wf b" and call: "lz4f_decoder_process eng (Some s) b flush = Some (st, so, b')"
  from lz4f.process_returns [OF c TrueI i(2), of s flush "l_dctx s"] i(1) call
  show "\<exists>s'. so = Some s'" by (auto simp: lz4f_inv_def)
qed

lemma lz4f_vtable:
  "v_encoder_process (zu_int_codec_lz4_frame mem eng) = Some (lz4f_encoder_process eng)"
  "v_decoder_process (zu_int_codec_lz4_frame mem eng) = Some (lz4f_decoder_process eng)"
  "v_encoder_new (zu_int_codec_lz4_frame mem eng) = Some (lz4f_encoder_new mem eng)"
  "v_decoder_new (zu_int_codec_lz4_frame mem eng) = Some (lz4f_decoder_new mem eng)"
  "v_name (zu_int_codec_lz4_frame mem eng) = Some ''lz4-frame''"
  by (simp_all add: zu_int_codec_lz4_frame_def)

lemma lz4f_inverts:
  assumes c: "frame_contract (\<lambda>_. True) fresh (LZ4F_isError eng) (LZ4F_decompress eng)" "lz4f_enc_contract (\<lambda>_. True) eng"
    and f: "lz4_frames F eng" "prefix_code F" "\<forall>d. \<not> F [] d"
  shows "invertible_codec lz4f_inv (\<lambda>so. \<forall>s. so = Some s \<longrightarrow> stage_ok s) (zu_int_codec_lz4_frame mem eng) (2 ^ 52) 0 (\<lambda>s. l_ended s \<or> l_done s) (\<lambda>_. True) F"
proof (intro invertible_codec.intro invertible_codec_axioms.intro lz4f_decoder_codec [OF c(1)] lz4f_encoder_codec [OF c(2)];
    (unfold lz4f_vtable option.sel)?)
  fix os s0 x z s assume n: "lz4f_encoder_new mem eng os = (ZU_OK, Some s0)" and r: "codec_run (lz4f_encoder_process eng) s0 x z s ZU_STREAM_END"
  have "lz4f_enc_at eng (l_cctx s0) s x z" "l_done s" "pending s = []" using lz4f_encoder_trace [OF c(2) TrueI n r] by simp_all
  then obtain ops k where "lz4f_written eng (l_cctx s0) ops x z k" "lz4f_one_frame ops"
    by (auto simp: lz4f_enc_at_def lz4f_phase_def split: if_splits)
  with n f(1) show "F z x" unfolding lz4_frames_def by blast
next
  fix z x os s0 i y s rest
  assume m: "F z x" and n: "lz4f_decoder_new mem eng os = (ZU_OK, Some s0)" and r: "codec_run (lz4f_decoder_process eng) s0 i y s ZU_STREAM_END"
    and z: "i @ rest = z"
  from lz4f.decoder_exact [OF c(1) TrueI lz4f_decoder_new_frames [OF n] r] obtain i' tl1 k where
    i: "i = i' @ tl1" "lib_run (LZ4F_decompress eng) (LZ4F_isError eng) (l_dctx s0) i' y True k" by blast
  then have "units_of F i' y" using f(1) n unfolding lz4_frames_def by blast
  moreover have "i' @ tl1 @ rest = z" using i(1) z by simp
  ultimately show "y = x" using units_of_unit [OF f(2,3) m] by blast
qed (simp_all add: lz4f_starts lz4f_finishes [OF c(2)] lz4f_decodes [OF c(1)])

text \<open>The same for lz4-frame: what komp_compress() returns is one frame of exactly its input, every staged byte
  included, and a successful komp_decompress() of it returns exactly that input.\<close>

theorem komp_lz4_frame_round_trip:
  assumes "frame_contract (\<lambda>_. True) fresh (LZ4F_isError eng) (LZ4F_decompress eng)" "lz4f_enc_contract (\<lambda>_. True) eng"
    and "lz4_frames F eng" "prefix_code F" "\<forall>d. \<not> F [] d"
    and "registry_wf reg" "zu_int_codec_lz4_frame mem eng \<in> set (reg_table reg)" "raw_ok x" "r_char0 codec = ''lz4-frame''"
    and "zukomp_compress env reg x codec level live = Some (R_pair ZU_STREAM_END z, frees, freed, live1)"
    and "raw_ok (r_raw z)"
    and "zukomp_decompress env' reg (r_raw z) codec r_max r_ratio live' = Some (R_pair ZU_STREAM_END y, frees', freed', live2)"
  shows "F z (x_raw x) \<and> y = x_raw x"
proof -
  have "zu_codec_lookup reg (Some (r_char0 codec)) = v_codec (zu_int_codec_lz4_frame mem eng)"
    using registered_name_resolves [OF assms(6,7)] by (simp add: assms(9) lz4f_vtable)
  from invertible_codec.round_trip [OF lz4f_inverts [OF assms(1-5)] assms(6,7) this assms(8) _ assms(10-12)] assms(8)
  show ?thesis by (simp add: raw_ok_def)
qed

subsection \<open>Libraries that read what they write\<close>

text \<open>A format for demonstrations, with the magic of either library: the data without zero bytes, ended by a zero byte. It
  is read one frame a call.\<close>

definition wrapped :: "byte list \<Rightarrow> byte list \<Rightarrow> byte list \<Rightarrow> bool" where
  "wrapped mg m d \<longleftrightarrow> m = mg @ d @ [0] \<and> 0 \<notin> set d"

definition whole_call :: "byte list \<Rightarrow> nat \<Rightarrow> 'c frame_call" where
  "whole_call mg err c win room =
     (let d = takeWhile (\<lambda>b. b \<noteq> 0) (drop (length mg) win)
      in if take (length mg) win = mg \<and> length mg + length d < length win \<and> length d \<le> room
         then (0, length mg + length d + 1, d, length d, c) else (err, 0, [], 0, c))"

lemma wrapped_prefix_code: "prefix_code (wrapped mg)"
  unfolding prefix_code_def
proof (intro allI impI)
  fix m x d d' assume a: "wrapped mg m d" "wrapped mg (m @ x) d'"
  then have e: "d @ [0] @ x = d' @ [0]" "0 \<notin> set d" "0 \<notin> set d'" by (simp_all add: wrapped_def)
  then have "d = d' \<and> x = []" by (auto simp: append_eq_append_conv2 append_eq_Cons_conv Cons_eq_append_conv)
  then show "x = [] \<and> d' = d" by simp
qed

lemma wrapped_not_empty: "\<forall>d. \<not> wrapped mg [] d"
  by (simp add: wrapped_def)

lemma whole_call_contract: "bad err \<Longrightarrow> frame_contract (\<lambda>_. True) (\<lambda>_. True) bad (whole_call mg err)"
  unfolding frame_contract_def whole_call_def Let_def by (auto split: if_splits)

lemma whole_call_unit:
  assumes "whole_call mg err c win room = (r, used, ws, n, c')" "bad err" "\<not> bad r"
  shows "r = 0 \<and> wrapped mg (take used win) (take n ws)"
proof -
  define d where "d = takeWhile (\<lambda>b. b \<noteq> 0) (drop (length mg) win)"
  have e: "(if take (length mg) win = mg \<and> length mg + length d < length win \<and> length d \<le> room
         then (0, length mg + length d + 1, d, length d, c) else (err, 0, [], 0, c)) = (r, used, ws, n, c')"
    using assms(1) unfolding whole_call_def Let_def d_def .
  then have t: "take (length mg) win = mg" "length mg + length d < length win" "r = 0" "used = length mg + length d + 1"
    "ws = d" "n = length d" using assms(2,3) by (auto split: if_splits)
  have "length d < length (drop (length mg) win)" using t(2) by simp
  then have z: "drop (length mg) win ! length d = 0" "take (length d) (drop (length mg) win) = d"
    using nth_length_takeWhile [of "\<lambda>b. b \<noteq> 0" "drop (length mg) win"] takeWhile_eq_take [of "\<lambda>b. b \<noteq> 0" "drop (length mg) win"]
    by (simp_all add: d_def)
  have "take (length mg + (length d + 1)) win = take (length mg) win @ take (length d + 1) (drop (length mg) win)"
    by (rule take_add)
  also have "take (length d + 1) (drop (length mg) win) = d @ [0]"
    using take_Suc_conv_app_nth [of "length d" "drop (length mg) win"] \<open>length d < length (drop (length mg) win)\<close> z by simp
  finally have "take used win = mg @ d @ [0]" using t(1,4) by (simp add: add.assoc)
  moreover have "0 \<notin> set d" by (auto simp: d_def dest: set_takeWhileD)
  ultimately show ?thesis using t by (simp add: wrapped_def)
qed

lemma whole_call_run:
  assumes "lib_run (whole_call mg err) bad c0 i out e c" "bad err"
  shows "if e then units_of (wrapped mg) i out else i = [] \<and> out = []"
  using assms(1)
proof (induction rule: lib_run.induct)
  case (call i out e c win room r used ws n c')
  from whole_call_unit [OF call.hyps(2) assms(2) call.hyps(3)] call.IH
  show ?case by (auto intro: units_of_one units_of_snoc split: if_splits)
qed simp

definition whole_compress :: "ZSTD_EndDirective \<Rightarrow> unit option frame_call" where
  "whole_compress op c win room =
     (if op = ZSTD_e_end \<and> 0 \<notin> set win \<and> length win + 5 \<le> room
      then (0, length win, zstd_magic @ win @ [0], length win + 5, c) else (2, 0, [], 0, c))"

definition whole_zstd :: "(unit, nat) zstd_engine" where
  "whole_zstd = toy_zstd\<lparr>ZSTD_compressStream2 := whole_compress, ZSTD_decompressStream := whole_call zstd_magic 2\<rparr>"

definition whole_lz4 :: "(unit, nat) lz4_engine" where
  "whole_lz4 = mini_block\<lparr>LZ4F_compressUpdate := (\<lambda>c cap xs. if 0 \<in> set xs then (2 ^ 32, [], c) else mini_write cap xs c),
     LZ4F_decompress := whole_call lz4_magic (2 ^ 32)\<rparr>"

lemma whole_zstd_simps [simp]:
  "ZSTD_isError whole_zstd = (\<lambda>r. r = 2)" "ZSTD_compressStream2 whole_zstd = whole_compress"
  "ZSTD_decompressStream whole_zstd = whole_call zstd_magic 2"
  by (simp_all add: whole_zstd_def toy_zstd_def fun_eq_iff)

lemma whole_lz4_simps [simp]:
  "LZ4F_isError whole_lz4 = (\<lambda>r. 2 ^ 32 \<le> r)" "LZ4F_decompress whole_lz4 = whole_call lz4_magic (2 ^ 32)"
  by (simp_all add: whole_lz4_def mini_block_def mini_lz4_def fun_eq_iff)

lemma whole_zstd_contracts:
  "frame_contract (\<lambda>_. True) (\<lambda>_. True) (ZSTD_isError whole_zstd) (ZSTD_decompressStream whole_zstd)"
  "zstd_enc_contract (\<lambda>_. True) whole_zstd"
  by (simp add: whole_call_contract) (auto simp: zstd_enc_contract_def whole_compress_def zstd_magic_def split: if_splits)

lemma whole_zstd_written:
  "zstd_written whole_zstd c0 i out e c \<Longrightarrow> if e then wrapped zstd_magic out i else i = [] \<and> out = []"
  by (induction rule: zstd_written.induct)
    (auto simp: whole_compress_def wrapped_def zstd_magic_def split: if_splits)

lemma whole_zstd_frames: "zstd_frames (wrapped zstd_magic) whole_zstd"
  unfolding zstd_frames_def
proof (intro conjI allI impI)
  fix s :: "(unit, nat) zstd_state" and i out c assume "zstd_written whole_zstd (zs_cctx s) i out True c"
  then show "wrapped zstd_magic out i" using whole_zstd_written by fastforce
next
  fix s :: "(unit, nat) zstd_state" and i out c
  assume "lib_run (ZSTD_decompressStream whole_zstd) (ZSTD_isError whole_zstd) (zs_dctx s) i out True c"
  then have "lib_run (whole_call zstd_magic 2) (\<lambda>r. r = 2) (zs_dctx s) i out True c" by simp
  from whole_call_run [OF this] show "units_of (wrapped zstd_magic) i out" by simp
qed (auto simp: whole_compress_def split: if_splits)

text \<open>What each operation of lz4-frame writes.\<close>

fun whole_op :: "lz4f_op \<Rightarrow> byte list" where
  "whole_op (Lz4f_begin p) = lz4_magic"
| "whole_op (Lz4f_update xs) = xs"
| "whole_op Lz4f_flush = []"
| "whole_op Lz4f_end = [0]"

lemma whole_lz4_call:
  "lz4f_call whole_lz4 op c cap = (r, ws, c') \<Longrightarrow>
    length ws \<le> cap \<and> (r < 2 ^ 32 \<longrightarrow> r = length ws \<and> ws = whole_op op \<and> 0 \<notin> set (lz4f_input op))"
  by (cases op) (auto simp: whole_lz4_def mini_block_def mini_lz4_def mini_write_def lz4_magic_def split: if_splits)

lemma whole_lz4_contracts:
  "frame_contract (\<lambda>_. True) (\<lambda>_. True) (LZ4F_isError whole_lz4) (LZ4F_decompress whole_lz4)"
  "lz4f_enc_contract (\<lambda>_. True) whole_lz4"
  by (simp add: whole_call_contract) (auto simp: lz4f_enc_contract_def dest!: whole_lz4_call)

lemma whole_lz4_written:
  "lz4f_written whole_lz4 c0 ops i out c \<Longrightarrow>
    out = concat (map whole_op ops) \<and> i = concat (map lz4f_input ops) \<and> 0 \<notin> set i"
proof (induction rule: lz4f_written.induct)
  case (call ops i out c op cap r ws c')
  from whole_lz4_call [OF call.hyps(2)] call.hyps(3) call.IH show ?case by (auto simp: not_le)
qed simp

lemma whole_inner: "lz4f_inner op \<Longrightarrow> whole_op op = lz4f_input op"
  by (cases op) simp_all

lemma whole_lz4_frames: "lz4_frames (wrapped lz4_magic) whole_lz4"
  unfolding lz4_frames_def
proof (intro conjI allI impI)
  fix s :: "(unit, nat) lz4_state" and ops i out c
  assume "lz4f_written whole_lz4 (l_cctx s) ops i out c" and "lz4f_one_frame ops"
  then obtain p mid where "ops = Lz4f_begin p # mid @ [Lz4f_end]" "\<forall>op \<in> set mid. lz4f_inner op"
    and w: "out = concat (map whole_op ops)" "i = concat (map lz4f_input ops)" "0 \<notin> set i"
    using whole_lz4_written unfolding lz4f_one_frame_def by blast
  moreover from this(2) have "map whole_op mid = map lz4f_input mid" by (simp add: whole_inner)
  ultimately show "wrapped lz4_magic out i" by (simp add: wrapped_def)
next
  fix s :: "(unit, nat) lz4_state" and i out c
  assume "lib_run (LZ4F_decompress whole_lz4) (LZ4F_isError whole_lz4) (l_dctx s) i out True c"
  then have "lib_run (whole_call lz4_magic (2 ^ 32)) (\<lambda>r. 2 ^ 32 \<le> r) (l_dctx s) i out True c" by simp
  from whole_call_run [OF this] show "units_of (wrapped lz4_magic) i out" by simp
qed

subsubsection \<open>zstd\<close>

lemma wz_vtable_ok: "vtable_ok (zu_int_codec_zstd mem_ok whole_zstd)"
  by code_simp

lemma wz_calls:
  "one_call_ends (only_reg (zu_int_codec_zstd mem_ok whole_zstd)) (zu_int_codec_zstd mem_ok whole_zstd) True [1, 2, 3] [0x28, 0xB5, 0x2F, 0xFD, 1, 2, 3, 0] m"
  "one_call_ends (only_reg (zu_int_codec_zstd mem_ok whole_zstd)) (zu_int_codec_zstd mem_ok whole_zstd) False [0x28, 0xB5, 0x2F, 0xFD, 1, 2, 3, 0] [1, 2, 3] m"
  by (code_simp, simp add: eval_nat_numeral)+

theorem komp_zstd_round_trip_witness:
  "wrapped zstd_magic [0x28, 0xB5, 0x2F, 0xFD, 1, 2, 3, 0] (x_raw (r_raw [1, 2, 3])) \<and> [1, 2, 3] = x_raw (r_raw [1, 2, 3])"
proof -
  let ?v = "zu_int_codec_zstd mem_ok whole_zstd" and ?z = "[0x28, 0xB5, 0x2F, 0xFD, 1, 2, 3, 0]"
  have v: "?v \<in> set (reg_table (only_reg ?v))" "raw_ok (r_raw ?z)"
    by (simp_all add: only_reg_table [OF wz_vtable_ok] raw_ok_def r_raw_def)
  show ?thesis
  proof (rule komp_demo [OF only_reg_wf v(1) _ _ _ _ _ _ wz_calls])
    fix f1 d1 l1 f2 d2 l2
    assume "zukomp_compress demo_env (only_reg ?v) (r_raw [1, 2, 3]) (r_string ''zstd'') R_NilValue 0 =
        Some (R_pair ZU_STREAM_END ?z, f1, d1, l1)"
      "zukomp_decompress demo_env (only_reg ?v) (r_raw ?z) (r_string ''zstd'') r_zero r_zero 0 =
        Some (R_pair ZU_STREAM_END [1, 2, 3], f2, d2, l2)"
    then show ?thesis
      by (rule komp_zstd_round_trip [OF whole_zstd_contracts whole_zstd_frames wrapped_prefix_code wrapped_not_empty only_reg_wf v(1) demo_raw(1) demo_string _ v(2)])
  qed (simp_all add: zu_int_codec_zstd_def zu_codec_ids)
qed

subsubsection \<open>lz4-frame\<close>

lemma wl_vtable_ok: "vtable_ok (zu_int_codec_lz4_frame mem_ok whole_lz4)"
  by code_simp

lemma wl_calls:
  "one_call_ends (only_reg (zu_int_codec_lz4_frame mem_ok whole_lz4)) (zu_int_codec_lz4_frame mem_ok whole_lz4) True [1, 2, 3] [0x04, 0x22, 0x4D, 0x18, 1, 2, 3, 0] m"
  "one_call_ends (only_reg (zu_int_codec_lz4_frame mem_ok whole_lz4)) (zu_int_codec_lz4_frame mem_ok whole_lz4) False [0x04, 0x22, 0x4D, 0x18, 1, 2, 3, 0] [1, 2, 3] m"
  by (code_simp, simp add: eval_nat_numeral)+

theorem komp_lz4_frame_round_trip_witness:
  "wrapped lz4_magic [0x04, 0x22, 0x4D, 0x18, 1, 2, 3, 0] (x_raw (r_raw [1, 2, 3])) \<and> [1, 2, 3] = x_raw (r_raw [1, 2, 3])"
proof -
  let ?v = "zu_int_codec_lz4_frame mem_ok whole_lz4" and ?z = "[0x04, 0x22, 0x4D, 0x18, 1, 2, 3, 0]"
  have v: "?v \<in> set (reg_table (only_reg ?v))" "raw_ok (r_raw ?z)"
    by (simp_all add: only_reg_table [OF wl_vtable_ok] raw_ok_def r_raw_def)
  show ?thesis
  proof (rule komp_demo [OF only_reg_wf v(1) _ _ _ _ _ _ wl_calls])
    fix f1 d1 l1 f2 d2 l2
    assume "zukomp_compress demo_env (only_reg ?v) (r_raw [1, 2, 3]) (r_string ''lz4-frame'') R_NilValue 0 =
        Some (R_pair ZU_STREAM_END ?z, f1, d1, l1)"
      "zukomp_decompress demo_env (only_reg ?v) (r_raw ?z) (r_string ''lz4-frame'') r_zero r_zero 0 =
        Some (R_pair ZU_STREAM_END [1, 2, 3], f2, d2, l2)"
    then show ?thesis
      by (rule komp_lz4_frame_round_trip [OF whole_lz4_contracts whole_lz4_frames wrapped_prefix_code wrapped_not_empty only_reg_wf v(1) demo_raw(1) demo_string _ v(2)])
  qed (simp_all add: zu_int_codec_lz4_frame_def zu_codec_ids)
qed

end
