(* ===== verification/Zu_Round_Trip.thy ===== *)
theory Zu_Round_Trip
  imports Zu_Builtin Zu_Komp_Deflate Zu_Komp_Frames
begin

unbundle bit_operations_syntax

text \<open>
  Compression and decompression from R on the registry of the package as it is shipped: a round trip for every codec, under
  the contracts of the libraries alone.
\<close>

subsection \<open>A codec over the tagged union\<close>

context state_embedding
begin

lemma lift_starts: "starts_fresh K nw fin \<Longrightarrow> starts_fresh K (lift_new emb nw) (\<lambda>t. fin (prj t))"
  unfolding starts_fresh_def
proof (intro allI impI)
  fix os st so assume s: "\<forall>os st so. nw os = (st, so) \<longrightarrow> st \<noteq> ZU_STREAM_END \<and> (st = ZU_OK \<longrightarrow> (\<exists>s. so = Some s \<and> (K = 0 \<or> \<not> fin s)))"
    and n: "lift_new emb nw os = (st, so)"
  obtain r where "nw os = (st, r)" "so = map_option emb r" using n by (cases "nw os") (auto simp: lift_new_def)
  with s show "st \<noteq> ZU_STREAM_END \<and> (st = ZU_OK \<longrightarrow> (\<exists>s. so = Some s \<and> (K = 0 \<or> \<not> fin (prj s))))" by fastforce
qed

lemma lift_finishes: "finishes K I fin p \<Longrightarrow> finishes K (lift_inv emb I) (\<lambda>t. fin (prj t)) (lift_process emb prj p)"
  unfolding finishes_def
proof (intro allI impI)
  fix t b flush st so b'
  assume k: "\<forall>s b flush st so b'. I (Some s) \<longrightarrow> buf_wf b \<longrightarrow> p (Some s) b flush = Some (st, so, b') \<longrightarrow>
        (\<exists>s'. so = Some s' \<and> (st = ZU_STREAM_END \<or> fin s' \<longrightarrow> fin s \<or> input_ended K flush (length (consumed b b')) (avail_in b')))"
    and i: "lift_inv emb I (Some t)" and wf: "buf_wf b" and c: "lift_process emb prj p (Some t) b flush = Some (st, so, b')"
  obtain s where s: "t = emb s" "I (Some s)" using i by (auto simp: lift_inv_def dest: sym)
  obtain r where "p (Some s) b flush = Some (st, r, b')" "so = map_option emb r" using c s(1) by (auto simp: lift_process_def)
  with k s(2) wf obtain s' where "so = Some (emb s')"
    "st = ZU_STREAM_END \<or> fin s' \<longrightarrow> fin s \<or> input_ended K flush (length (consumed b b')) (avail_in b')" by blast
  then show "\<exists>s'. so = Some s' \<and> (st = ZU_STREAM_END \<or> fin (prj s') \<longrightarrow>
      fin (prj t) \<or> input_ended K flush (length (consumed b b')) (avail_in b'))" using s(1) by simp
qed

lemma lift_run:
  assumes "codec_run (lift_process emb prj p) (emb s0) i out t st"
  shows "\<exists>s. t = emb s \<and> codec_run p s0 i out s st"
  using assms
proof (induction rule: codec_run.induct)
  case (call i out t st b flush st' t' b')
  from call.IH obtain s where s: "t = emb s" "codec_run p s0 i out s st" by blast
  with call.hyps(4) obtain s' where "p (Some s) b flush = Some (st', Some s', b')" "t' = emb s'"
    by (auto simp: lift_process_def)
  with codec_run.call [OF s(2) call.hyps(2,3)] show ?case by blast
qed (auto intro: codec_run.start)

lemma lift_new_ok: "lift_new emb nw os = (ZU_OK, Some t) \<Longrightarrow> \<exists>s. t = emb s \<and> nw os = (ZU_OK, Some s)"
  by (cases "nw os") (auto simp: lift_new_def)

lemma lift_inverts:
  assumes v: "invertible_codec I J v K L ef df F"
    and d: "v_decoder_new v = Some dn" "v_decoder_process v = Some dp" and e: "v_encoder_new v = Some en" "v_encoder_process v = Some ep"
  shows "invertible_codec (lift_inv emb I) (lift_inv emb J) (lift_vtable emb prj v) K L (\<lambda>t. ef (prj t)) (\<lambda>t. df (prj t)) F"
proof (intro invertible_codec.intro invertible_codec_axioms.intro)
  note c = invertible_codec.axioms [OF v]
  show "decoder_codec (lift_inv emb I) (lift_vtable emb prj v)" by (rule lift_decoder [OF c(1) d])
  show "encoder_codec (lift_inv emb J) (lift_vtable emb prj v)" by (rule lift_encoder [OF c(2) e])
  note a = invertible_codec.capacity [OF v] invertible_codec.encoder_starts [OF v] invertible_codec.encoder_finishes [OF v]
    invertible_codec.decoder_starts [OF v] invertible_codec.decoder_finishes [OF v]
  have f: "the (v_encoder_new (lift_vtable emb prj v)) = lift_new emb en" "the (v_encoder_process (lift_vtable emb prj v)) = lift_process emb prj ep"
    "the (v_decoder_new (lift_vtable emb prj v)) = lift_new emb dn" "the (v_decoder_process (lift_vtable emb prj v)) = lift_process emb prj dp"
    by (simp_all add: lift_vtable_def d e)
  show "0 < K" "L = 0 \<or> 2 ^ 52 \<le> L" by (rule a)+
  show "starts_fresh K (the (v_encoder_new (lift_vtable emb prj v))) (\<lambda>t. ef (prj t))"
    "finishes K (lift_inv emb J) (\<lambda>t. ef (prj t)) (the (v_encoder_process (lift_vtable emb prj v)))"
    "starts_fresh L (the (v_decoder_new (lift_vtable emb prj v))) (\<lambda>t. df (prj t))"
    "finishes L (lift_inv emb I) (\<lambda>t. df (prj t)) (the (v_decoder_process (lift_vtable emb prj v)))"
    unfolding f using a by (simp_all add: d e lift_starts lift_finishes)
next
  fix os t0 x z t
  assume n: "the (v_encoder_new (lift_vtable emb prj v)) os = (ZU_OK, Some t0)"
    and r: "codec_run (the (v_encoder_process (lift_vtable emb prj v))) t0 x z t ZU_STREAM_END"
  obtain s0 where s0: "t0 = emb s0" "en os = (ZU_OK, Some s0)" using lift_new_ok [of en os t0] n by (auto simp: lift_vtable_def e)
  obtain s where "codec_run ep s0 x z s ZU_STREAM_END" using lift_run [of ep s0 x z t] r s0(1) by (auto simp: lift_vtable_def e)
  with invertible_codec.encodes [OF v] s0(2) e show "F z x" by simp
next
  fix z x os t0 i y t rest
  assume m: "F z x" and n: "the (v_decoder_new (lift_vtable emb prj v)) os = (ZU_OK, Some t0)"
    and r: "codec_run (the (v_decoder_process (lift_vtable emb prj v))) t0 i y t ZU_STREAM_END"
    and z: "i @ rest = z" "L \<noteq> 0 \<longrightarrow> rest = []"
  obtain s0 where s0: "t0 = emb s0" "dn os = (ZU_OK, Some s0)" using lift_new_ok [of dn os t0] n by (auto simp: lift_vtable_def d)
  obtain s where "codec_run dp s0 i y s ZU_STREAM_END" using lift_run [of dp s0 i y t] r s0(1) by (auto simp: lift_vtable_def d)
  with invertible_codec.decodes [OF v m] s0(2) d z show "y = x" by simp
qed

end

subsection \<open>The codecs of the package\<close>

text \<open>What the vendored libraries are relied on for: that they read what they write.\<close>

definition engines_invert :: "'m mz_engine \<Rightarrow> ('ze, 'zd) zstd_engine \<Rightarrow> ('le, 'ld) lz4_engine \<Rightarrow> bool" where
  "engines_invert mz zs lz \<longleftrightarrow>
     mz_ends mz \<and> (\<exists>D I F. mz_deflates mz D F \<and> mz_inflates mz I F \<and> prefix_code F) \<and>
     (\<exists>F. zstd_frames F zs \<and> prefix_code F \<and> (\<forall>d. \<not> F [] d)) \<and>
     (\<exists>F. lz4_frames F lz \<and> prefix_code F \<and> (\<forall>d. \<not> F [] d))"

lemma builtin_inverts:
  assumes c: "engine_contracts dec mz zs lz" and i: "engines_invert mz zs lz" and v: "v \<in> set (builtin_codecs mem mz zs lz)"
  shows "\<exists>I J K L ef df F. MZ_WINDOW \<le> K \<and> invertible_codec I J v K L ef df F"
proof -
  from c obtain zf lf where c: "mz_contract mz"
    "frame_contract (\<lambda>_. True) zf (ZSTD_isError zs) (ZSTD_decompressStream zs)" "zstd_enc_contract (\<lambda>_. True) zs"
    "frame_contract (\<lambda>_. True) lf (LZ4F_isError lz) (LZ4F_decompress lz)" "lz4f_enc_contract (\<lambda>_. True) lz" "lz4_block_contract dec lz"
    unfolding engine_contracts_def by blast
  from i obtain D I F Fz Fl where f: "mz_ends mz" "mz_deflates mz D F" "mz_inflates mz I F" "prefix_code F"
    "zstd_frames Fz zs" "prefix_code Fz" "\<forall>d. \<not> Fz [] d" "lz4_frames Fl lz" "prefix_code Fl" "\<forall>d. \<not> Fl [] d"
    unfolding engines_invert_def by blast
  have K: "MZ_WINDOW \<le> 2 ^ 52" by (simp add: MZ_WINDOW_def)
  consider (id) "v = lift_vtable Unit_state unit_of zu_int_codec_identity"
    | (df) w u where "(w, u) \<in> deflate_codecs mem mz" "v = lift_vtable Deflate_state deflate_of u"
    | (zs) "v = lift_vtable Zstd_state zstd_of (zu_int_codec_zstd mem zs)"
    | (lf) "v = lift_vtable Lz4_state lz4_of (zu_int_codec_lz4_frame mem lz)"
    | (lb) "v = lift_vtable Lz4_state lz4_of (zu_int_codec_lz4_block mem lz)"
    using v by (auto simp: builtin_codecs_def deflate_codecs_def)
  then show ?thesis
  proof cases
    case id
    from unit_state.lift_inverts [OF identity_inv.invertible_codec_axioms] K show ?thesis
      unfolding id by (simp add: zu_int_codec_identity_def) blast
  next
    case df
    obtain dn dp en ep where "v_decoder_new u = Some dn" "v_decoder_process u = Some dp" "v_encoder_new u = Some en" "v_encoder_process u = Some ep"
      using df(1) by (auto simp: deflate_codecs_def zu_int_codec_deflate_raw_def zu_int_codec_zlib_def zu_int_codec_gzip_def)
    from deflate_state.lift_inverts [OF deflate_inverts [OF c(1) f(1-4) df(1)] this] show ?thesis unfolding df(2) by blast
  next
    case zs
    from zstd_state.lift_inverts [OF zstd_inverts [OF c(2,3) f(5-7)] zstd_vtable(4,2,3,1)] K show ?thesis unfolding zs by blast
  next
    case lf
    from lz4_state.lift_inverts [OF lz4f_inverts [OF c(4,5) f(8-10)] lz4f_vtable(4,2,3,1)] K show ?thesis unfolding lf by blast
  next
    case lb
    from lz4_state.lift_inverts [OF block_inverts [OF c(6)] block_vtable(4,2,3,1)] K show ?thesis unfolding lb by blast
  qed
qed


subsection \<open>A demonstration\<close>

lemma demo_inverting_engines:
  "engine_contracts mini_block_dec strict_engine whole_zstd whole_lz4" "engines_invert strict_engine whole_zstd whole_lz4"
proof -
  have z: "mz_prompt zero_engine" using demo_engines unfolding engine_contracts_def by blast
  have p: "mz_prompt strict_engine"
    unfolding mz_prompt_def
  proof (intro conjI allI impI)
    fix m win room fl mz m'
    assume c: "mz_deflate strict_engine m win room fl = (mz, 0, [], m') \<or> mz_inflate strict_engine m win room fl = (mz, 0, [], m')"
      and r: "mz = MZ_OK \<or> mz = MZ_BUF_ERROR"
    have "mz \<noteq> MZ_STREAM_ERROR" using r by (auto simp: mz_codes)
    with c have "mz_deflate zero_engine m win room fl = (mz, 0, [], m') \<or> mz_inflate zero_engine m win room fl = (mz, 0, [], m')"
      by (auto simp: strict_deflate_def zero_engine_def split: if_splits)
    from z [unfolded mz_prompt_def, THEN conjunct1, rule_format, OF this r] show "win = [] \<or> room = 0" .
  qed (simp add: mz_codes)
  have b: "lz4_block_contract mini_block_dec whole_lz4"
    using mini_block_contract by (simp add: lz4_block_contract_def whole_lz4_def)
  show "engine_contracts mini_block_dec strict_engine whole_zstd whole_lz4" unfolding engine_contracts_def
    using strict_engine_contract p whole_zstd_contracts whole_lz4_contracts b by blast
  show "engines_invert strict_engine whole_zstd whole_lz4" unfolding engines_invert_def
    using strict_engine_ends strict_engine_deflates strict_engine_inflates ended_bytes_prefix_code whole_zstd_frames whole_lz4_frames
      wrapped_prefix_code wrapped_not_empty by blast
qed

abbreviation inv_reg :: "(unit, unit, nat, unit, nat) builtin_state zu_registry" where
  "inv_reg \<equiv> builtin_reg mem_ok strict_engine whole_zstd whole_lz4"

abbreviation inv_raw :: "(unit, unit, nat, unit, nat) builtin_state zu_codec_vtable" where
  "inv_raw \<equiv> lift_vtable Deflate_state deflate_of (zu_int_codec_deflate_raw mem_ok strict_engine)"

lemma inv_raw_ok: "vtable_ok inv_raw"
  by code_simp

lemma inv_raw_calls:
  "one_call_ends (only_reg inv_raw) inv_raw True [1, 2, 3] [1, 2, 3, 0] m"
  "one_call_ends (only_reg inv_raw) inv_raw False [1, 2, 3, 0] [1, 2, 3] m"
  by (code_simp, simp add: eval_nat_numeral)+


end
