(* ===== verification/Zu_Satellite.thy ===== *)
theory Zu_Satellite
  imports Zu_Builtin
begin

unbundle bit_operations_syntax

text \<open>
  The two packages at load time and the satellite as a consumer of the C API: \<^verbatim>\<open>R_init_zukomp\<close> of
  \<^verbatim>\<open>src/init.c\<close>, and \<^verbatim>\<open>init.c\<close>, \<^verbatim>\<open>codec_xor.c\<close> and \<^verbatim>\<open>oneshot.c\<close> of \<^verbatim>\<open>tools/zukomptest/src\<close>. The state of the
  process is the registry and the C-callable that zukomp has registered with R. The satellite reaches
  zukomp only through the table that \<open>zukomp_api\<close> resolves; its vtables live in the same union of states as
  the built-in ones, where they keep nothing.
\<close>

subsection \<open>Loading the packages\<close>

record 's r_session =
  ses_registry :: "'s zu_registry"
  ses_callable :: "(nat \<Rightarrow> 's zukomp_api_v1 option) option"

definition session_start :: "'s r_session" where
  "session_start = \<lparr>ses_registry = zu_registry_init, ses_callable = None\<rparr>"

text \<open>The message of \<^verbatim>\<open>Rf_error\<close>, if the load fails, and the state.\<close>

definition R_init_zukomp ::
  "alloc \<Rightarrow> 'm mz_engine \<Rightarrow> ('ze, 'zd) zstd_engine \<Rightarrow> ('le, 'ld) lz4_engine \<Rightarrow>
    ('m, 'ze, 'zd, 'le, 'ld) builtin_state r_session \<Rightarrow>
    string option \<times> ('m, 'ze, 'zd, 'le, 'ld) builtin_state r_session" where
  "R_init_zukomp mem mz zs lz s =
     (case zu_int_register_builtin_codecs mem mz zs lz (ses_registry s) of
        (st, r) \<Rightarrow>
          if st \<noteq> ZU_OK then (Some ''zukomp: failed to register built-in codecs'', s\<lparr>ses_registry := r\<rparr>)
          else (None, s\<lparr>ses_registry := r, ses_callable := Some zukomp_get_api\<rparr>))"

definition zukomptest_vtable :: "('m, 'ze, 'zd, 'le, 'ld) builtin_state zu_codec_vtable" where
  "zukomptest_vtable = lift_vtable Unit_state unit_of xor5a_vtable"

definition zukomptest_declared_vtable :: "('m, 'ze, 'zd, 'le, 'ld) builtin_state zu_codec_vtable" where
  "zukomptest_declared_vtable = lift_vtable Unit_state unit_of snappy_stub_vtable"

text \<open>\<open>declared_only\<close> is the value of the environment variable \<^verbatim>\<open>ZUKOMPTEST_DECLARED_ONLY\<close>.\<close>

definition R_init_zukomptest ::
  "string option \<Rightarrow> ('m, 'ze, 'zd, 'le, 'ld) builtin_state r_session \<Rightarrow>
    string option \<times> ('m, 'ze, 'zd, 'le, 'ld) builtin_state r_session" where
  "R_init_zukomptest declared_only s =
     (case zukomp_api (ses_callable s) None of
        None \<Rightarrow>
          (Some ''zukomptest: zukomp's API table is unavailable; is there an importFrom(zukomp, ...) in NAMESPACE?'', s)
      | Some api \<Rightarrow>
          (case (if declared_only = None \<or> declared_only = Some []
                 then api_register_codec api (Some zukomptest_vtable) (ses_registry s) else (ZU_OK, ses_registry s)) of
             (st, r) \<Rightarrow>
               if st \<noteq> ZU_OK then (Some ''zukomptest: failed to register the xor5a codec'', s\<lparr>ses_registry := r\<rparr>)
               else
                 (case api_register_codec api (Some zukomptest_declared_vtable) r of
                    (st, r') \<Rightarrow>
                      if st \<noteq> ZU_OK
                      then (Some ''zukomptest: failed to register the declared-codec stub'', s\<lparr>ses_registry := r'\<rparr>)
                      else (None, s\<lparr>ses_registry := r'\<rparr>))))"

subsection \<open>How a call from R ends\<close>

text \<open>It returns a value, raises an R error, runs out of memory inside R, or is interrupted by the user.\<close>

datatype 'a r_end = R_value 'a | R_error string | R_no_memory | R_interrupted

definition no_table :: string where
  "no_table = ''zukomptest: zukomp's API table is unavailable''"

definition no_resolve :: string where
  "no_resolve = ''zukomptest: could not resolve zukomp's API table''"

text \<open>\<^verbatim>\<open>(int) st\<close>: the position of a status in the enumeration, the inverse of \<^const>\<open>status_of_int\<close>.\<close>

definition status_int :: "zu_status \<Rightarrow> nat" where
  "status_int st = length (takeWhile (\<lambda>x. x \<noteq> st) zu_status_enum)"

subsection \<open>\<open>codec_xor.c\<close>\<close>

definition zukomptest_roundtrip_via_c ::
  "r_env \<Rightarrow> 's zukomp_api_v1 option \<Rightarrow> 's zu_registry \<Rightarrow> sexp \<Rightarrow> byte list r_end option" where
  "zukomptest_roundtrip_via_c env table reg bytes =
     (case table of
        None \<Rightarrow> Some (R_error no_resolve)
      | Some api \<Rightarrow>
          (let n = x_length bytes;
               eopts = enc_opts_zero\<lparr>eo_codec := ZU_CODEC_VENDOR_BASE, eo_level := ZU_LEVEL_DEFAULT\<rparr>
           in (case api_compress_bound api reg (eo_codec eopts) (eo_level eopts) n of
                 (st, bnd) \<Rightarrow>
                   if st \<noteq> ZU_OK then Some (R_error ''zukomptest: compress_bound failed'')
                   else
                     (let cap = (case bnd of None \<Rightarrow> 0 | Some b \<Rightarrow> b)
                      in if \<not> env_vector env cap then Some R_no_memory
                         else
                           (case api_compress_one api (env_mem env) reg eopts (Some (x_raw bytes)) n (Some (r_alloc cap)) cap of
                              None \<Rightarrow> None
                            | Some (st, wr, mid) \<Rightarrow>
                                if st \<noteq> ZU_OK
                                then Some (R_error (''zukomptest: compress_one: '' @ api_status_string api (status_int st)))
                                else if \<not> env_vector env n then Some R_no_memory
                                else
                                  (case api_decompress_one api (env_mem env) reg (dec_opts_zero\<lparr>do_codec := eo_codec eopts\<rparr>)
                                          mid (case wr of None \<Rightarrow> 0 | Some w \<Rightarrow> w) (Some (r_alloc n)) n of
                                     None \<Rightarrow> None
                                   | Some (st, back, out) \<Rightarrow>
                                       if st \<noteq> ZU_OK \<or> (case back of None \<Rightarrow> 0 | Some b \<Rightarrow> b) \<noteq> n
                                       then Some (R_error (''zukomptest: decompress_one: '' @ api_status_string api (status_int st)))
                                       else Some (R_value (the out))))))))"

text \<open>The copy of the stub's vtable with the fields of each case; \<open>None\<close> is the default case.\<close>

definition bad_vtable :: "int \<Rightarrow> ('m, 'ze, 'zd, 'le, 'ld) builtin_state zu_codec_vtable option" where
  "bad_vtable which =
     (let v = zukomptest_declared_vtable
      in if which = 0 then Some (v\<lparr>v_codec := ZU_CODEC_VENDOR_BASE + 7, v_name := Some ''gzip''\<rparr>)
         else if which = 1 then Some (v\<lparr>v_codec := ZU_CODEC_SNAPPY_RAW, v_name := Some ''not-snappy-raw''\<rparr>)
         else if which = 2 then Some (v\<lparr>v_codec := 900, v_name := Some ''reserved-gap''\<rparr>)
         else if which = 3 then Some (v\<lparr>v_codec := ZU_CODEC_VENDOR_BASE + 8, v_name := Some ''brotli''\<rparr>)
         else if which = 4 then Some (v\<lparr>v_codec := ZU_CODEC_VENDOR_BASE + 9, v_name := Some ''xor5a''\<rparr>)
         else if which = 5 then Some (v\<lparr>v_codec := ZU_CODEC_VENDOR_BASE, v_name := Some ''some-other-name''\<rparr>)
         else if which = 6
         then Some (v\<lparr>v_codec := ZU_CODEC_VENDOR_BASE + 10, v_name := Some ''fresh-name'', v_content_encoding := Some ''gzip''\<rparr>)
         else if which = 8
         then Some (v\<lparr>v_codec := ZU_CODEC_SNAPPY_RAW, v_name := Some ''snappy-raw'', v_content_encoding := Some ''br''\<rparr>)
         else if which = 9
         then Some (v\<lparr>v_codec := ZU_CODEC_SNAPPY_RAW, v_name := Some ''snappy-raw'', v_content_encoding := Some ''GZIP''\<rparr>)
         else if which = 7
         then Some (v\<lparr>v_codec := ZU_CODEC_VENDOR_BASE + 11, v_name := Some ''stunted'', v_struct_size := 8\<rparr>)
         else None)"

definition zukomptest_try_bad_registration ::
  "('m, 'ze, 'zd, 'le, 'ld) builtin_state zukomp_api_v1 option \<Rightarrow> sexp \<Rightarrow> ('m, 'ze, 'zd, 'le, 'ld) builtin_state zu_registry \<Rightarrow>
    int r_end \<times> ('m, 'ze, 'zd, 'le, 'ld) builtin_state zu_registry" where
  "zukomptest_try_bad_registration table which reg =
     (case table of
        None \<Rightarrow> (R_error no_resolve, reg)
      | Some api \<Rightarrow>
          (case bad_vtable (x_int which) of
             None \<Rightarrow> (R_value (- 1), reg)
           | Some v \<Rightarrow> (case api_register_codec api (Some v) reg of (st, r) \<Rightarrow> (R_value (int (status_int st)), r))))"

subsection \<open>\<open>oneshot.c\<close>\<close>

definition oneshot_names :: "string list" where
  "oneshot_names =
     [''ZU_OK'', ''ZU_NEED_INPUT'', ''ZU_NEED_OUTPUT'', ''ZU_STREAM_END'', ''ZU_ERR_INVALID_ARGUMENT'',
      ''ZU_ERR_UNSUPPORTED'', ''ZU_ERR_INVALID_DATA'', ''ZU_ERR_TRUNCATED'', ''ZU_ERR_CHECKSUM'', ''ZU_ERR_TRAILING'',
      ''ZU_ERR_MEMORY'', ''ZU_ERR_OUTPUT_LIMIT'', ''ZU_ERR_RATIO_LIMIT'', ''ZU_ERR_INTERNAL'']"

definition oneshot_result :: "r_env \<Rightarrow> zu_status \<Rightarrow> byte list option \<Rightarrow> nat \<Rightarrow> (string \<times> byte list) r_end" where
  "oneshot_result env st p n =
     (let nm = (if status_int st < length oneshot_names then oneshot_names ! status_int st else ''unknown'')
      in if env_vector env n then R_value (nm, if n > 0 then take n (the p) else []) else R_no_memory)"

definition oneshot_size :: "sexp \<Rightarrow> nat option" where
  "oneshot_size v =
     (case x_real v of
        R_finite d \<Rightarrow> if d < 0 \<or> d > two53 then None else Some (nat \<lfloor>d\<rfloor>)
      | _ \<Rightarrow> None)"

definition bad_size :: string where
  "bad_size = ''zukomptest: a size must be a finite non-negative number''"

definition zukomptest_compress_one ::
  "r_env \<Rightarrow> 's zukomp_api_v1 option \<Rightarrow> 's zu_registry \<Rightarrow> sexp \<Rightarrow> sexp \<Rightarrow> sexp \<Rightarrow> (string \<times> byte list) r_end option" where
  "zukomptest_compress_one env table reg bytes codec_name level =
     (case table of
        None \<Rightarrow> Some (R_error no_table)
      | Some api \<Rightarrow>
          (let codec = api_codec_lookup api reg (Some (r_char0 codec_name));
               opts = enc_opts_zero\<lparr>eo_codec := codec, eo_level := (if x_null level then ZU_LEVEL_DEFAULT else x_int level)\<rparr>;
               n = x_length bytes
           in (case api_compress_bound api reg codec (eo_level opts) n of
                 (st, bnd) \<Rightarrow>
                   if st \<noteq> ZU_OK then Some (oneshot_result env st None 0)
                   else
                     (let cap = (case bnd of None \<Rightarrow> 0 | Some b \<Rightarrow> b); size = (if cap > 0 then cap else 1)
                      in if \<not> env_vector env size then Some R_no_memory
                         else
                           (case api_compress_one api (env_mem env) reg opts (Some (x_raw bytes)) n (Some (r_alloc size)) cap of
                              None \<Rightarrow> None
                            | Some (st, wr, d) \<Rightarrow> Some (oneshot_result env st d (case wr of None \<Rightarrow> 0 | Some w \<Rightarrow> w)))))))"

text \<open>The three sizes are read in the order of the code, and the first bad one is an R error.\<close>

definition zukomptest_decompress_one ::
  "r_env \<Rightarrow> 's zukomp_api_v1 option \<Rightarrow> 's zu_registry \<Rightarrow> sexp \<Rightarrow> sexp \<Rightarrow> sexp \<Rightarrow> sexp \<Rightarrow> sexp \<Rightarrow> sexp \<Rightarrow>
    (string \<times> byte list) r_end option" where
  "zukomptest_decompress_one env table reg bytes codec_name cap_r max_output expected old_struct =
     (case table of
        None \<Rightarrow> Some (R_error no_table)
      | Some api \<Rightarrow>
          (case oneshot_size max_output of
             None \<Rightarrow> Some (R_error bad_size)
           | Some m \<Rightarrow>
               (let flags = ZU_DEC_REJECT_TRAILING OR ZU_DEC_CONCAT_MEMBERS;
                    opts = dec_opts_zero\<lparr>do_struct_size := (if r_true old_struct then ZU_DECODER_OPTS_REQUIRED_SIZE else sizeof_zu_decoder_opts),
                             do_codec := api_codec_lookup api reg (Some (r_char0 codec_name)), do_max_output := m, do_flags := flags\<rparr>
                in (case (if \<not> x_null expected
                          then map_option (\<lambda>e. opts\<lparr>do_flags := flags OR ZU_DEC_EXPECTED_SIZE, do_expected_size := e\<rparr>) (oneshot_size expected)
                          else Some opts) of
                      None \<Rightarrow> Some (R_error bad_size)
                    | Some opts1 \<Rightarrow>
                        (case oneshot_size cap_r of
                           None \<Rightarrow> Some (R_error bad_size)
                         | Some cap \<Rightarrow>
                             (let size = (if cap > 0 then cap else 1)
                              in if \<not> env_vector env size then Some R_no_memory
                                 else
                                   (case api_decompress_one api (env_mem env) reg opts1 (Some (x_raw bytes)) (x_length bytes)
                                           (Some (r_alloc size)) cap of
                                      None \<Rightarrow> None
                                    | Some (st, wr, d) \<Rightarrow> Some (oneshot_result env st d (case wr of None \<Rightarrow> 0 | Some w \<Rightarrow> w)))))))))"

text \<open>The six numbers in the order of the names \<^verbatim>\<open>id\<close>, \<^verbatim>\<open>min\<close>, \<^verbatim>\<open>max\<close>, \<^verbatim>\<open>default\<close>, \<^verbatim>\<open>fast\<close>, \<^verbatim>\<open>best\<close>; \<open>None\<close> is \<^verbatim>\<open>NULL\<close>.
  An identity is cast to \<^verbatim>\<open>int\<close>.\<close>

definition codec_int :: "zu_codec \<Rightarrow> int" where
  "codec_int c = (if c < 2 ^ 31 then int c else int c - 2 ^ 32)"

definition zukomptest_codec_levels ::
  "'s zukomp_api_v1 option \<Rightarrow> 's zu_registry \<Rightarrow> sexp \<Rightarrow> int list option r_end" where
  "zukomptest_codec_levels table reg codec_name =
     (case table of
        None \<Rightarrow> R_error no_table
      | Some api \<Rightarrow>
          (case api_codec_get_info api reg (api_codec_lookup api reg (Some (r_char0 codec_name)))
                  (Some (codec_info_zero\<lparr>i_struct_size := sizeof_zu_codec_info\<rparr>)) of
             (st, info) \<Rightarrow>
               if st \<noteq> ZU_OK then R_value None
               else
                 (let i = the info
                  in R_value (Some [codec_int (i_codec i), i_level_min i, i_level_max i, i_level_default i, i_level_fast i, i_level_best i]))))"

subsection \<open>What loading leaves behind\<close>

lemma register_one:
  assumes "registry_wf r" "vtable_ok v" "list_all (\<lambda>w. vtables_apart w v) (reg_table r)" "length (reg_table r) < ZU_INT_REGISTRY_CAP"
  obtains r' where "zu_register_codec (Some v) r = (ZU_OK, r')" "reg_table r' = reg_table r @ [v]" "registry_wf r'"
    "reg_gen r' = length (reg_table r) + 1"
proof -
  let ?r = "r\<lparr>reg_table := reg_table r @ [v], reg_gen := u64_add (reg_gen r) 1\<rparr>"
  have c: "zu_register_codec (Some v) r = (ZU_OK, ?r)" using assms by (simp add: zu_register_codec_eq list_all_iff)
  have w: "registry_wf ?r" by (rule registry_wf_register [OF assms(1) c])
  then have "reg_gen ?r = length (reg_table r) + 1" by (simp add: registry_wf_def)
  with c w show thesis by (intro that [of ?r]) simp_all
qed

lemma satellite_ok: "vtable_ok zukomptest_vtable" "vtable_ok zukomptest_declared_vtable"
  by code_simp+

lemma satellite_apart:
  "list_all (\<lambda>w. vtables_apart w zukomptest_vtable) (builtin_codecs mem mz zs lz)"
  "list_all (\<lambda>w. vtables_apart w zukomptest_declared_vtable) (builtin_codecs mem mz zs lz)"
  "vtables_apart zukomptest_vtable zukomptest_declared_vtable"
  by code_simp+

lemma zukomp_loaded:
  "R_init_zukomp mem mz zs lz session_start =
     (None, \<lparr>ses_registry = builtin_reg mem mz zs lz, ses_callable = Some zukomp_get_api\<rparr>)"
  by (simp add: R_init_zukomp_def session_start_def builtin_registered(1))

lemma table_resolved [simp]: "zukomp_api (Some zukomp_get_api) None = Some zu_int_api_v1"
  by (simp add: zukomp_api_def zukomp_get_api_def)

lemma api_fields [simp]:
  "api_register_codec zu_int_api_v1 = zu_register_codec" "api_codec_lookup zu_int_api_v1 = zu_codec_lookup"
  "api_codec_get_info zu_int_api_v1 = zu_codec_get_info" "api_codec_list zu_int_api_v1 = zu_codec_list"
  "api_codec_from_content_encoding zu_int_api_v1 = zu_codec_from_content_encoding"
  "api_compress_bound zu_int_api_v1 = zu_compress_bound" "api_compress_one zu_int_api_v1 = zu_compress_one"
  "api_decompress_one zu_int_api_v1 = zu_decompress_one" "api_status_string zu_int_api_v1 = zu_status_string"
  "api_decoder_new zu_int_api_v1 = zu_decoder_new" "api_decoder_process zu_int_api_v1 = zu_decoder_process"
  "api_decoder_free zu_int_api_v1 = zu_decoder_free"
  by (simp_all add: zu_int_api_v1_def)

lemma builtin_length: "length (builtin_codecs mem mz zs lz) = 7"
  by (simp add: builtin_codecs_def)

text \<open>The satellite on top of zukomp, with and without its own codec.\<close>

definition own_codec :: "string option \<Rightarrow> ('m, 'ze, 'zd, 'le, 'ld) builtin_state zu_codec_vtable list" where
  "own_codec only = (if only = None \<or> only = Some [] then [zukomptest_vtable] else [])"

lemma satellite_loads:
  fixes mem :: alloc and mz :: "'m mz_engine" and zs :: "('ze, 'zd) zstd_engine" and lz :: "('le, 'ld) lz4_engine"
  defines "s \<equiv> \<lparr>ses_registry = builtin_reg mem mz zs lz, ses_callable = Some zukomp_get_api\<rparr>"
  shows "\<exists>r. R_init_zukomptest only s = (None, s\<lparr>ses_registry := r\<rparr>) \<and> registry_wf r \<and>
    reg_table r = builtin_codecs mem mz zs lz @ own_codec only @ [zukomptest_declared_vtable]"
proof -
  note b = builtin_registered [of mem mz zs lz]
  obtain r1 where r1: "(if only = None \<or> only = Some [] then zu_register_codec (Some zukomptest_vtable) (builtin_reg mem mz zs lz)
      else (ZU_OK, builtin_reg mem mz zs lz)) = (ZU_OK, r1)" "reg_table r1 = builtin_codecs mem mz zs lz @ own_codec only" "registry_wf r1"
  proof (cases "only = None \<or> only = Some []")
    case True
    obtain r' where r': "zu_register_codec (Some zukomptest_vtable) (builtin_reg mem mz zs lz) = (ZU_OK, r')"
      "reg_table r' = reg_table (builtin_reg mem mz zs lz) @ [zukomptest_vtable]" "registry_wf r'"
      by (rule register_one [OF b(3) satellite_ok(1)]) (simp_all add: b(2) satellite_apart builtin_length ZU_INT_REGISTRY_CAP_def)
    with True b(2) show thesis by (intro that [of r']) (simp_all add: own_codec_def)
  next
    case False
    with b show thesis by (intro that [of "builtin_reg mem mz zs lz"]) (auto simp: own_codec_def)
  qed
  have ap: "list_all (\<lambda>w. vtables_apart w zukomptest_declared_vtable) (reg_table r1)"
    by (simp add: r1(2) own_codec_def satellite_apart)
  have len: "length (reg_table r1) < ZU_INT_REGISTRY_CAP" by (simp add: r1(2) own_codec_def builtin_length ZU_INT_REGISTRY_CAP_def)
  obtain r2 where r2: "zu_register_codec (Some zukomptest_declared_vtable) r1 = (ZU_OK, r2)"
    "reg_table r2 = reg_table r1 @ [zukomptest_declared_vtable]" "registry_wf r2"
    by (rule register_one [OF r1(3) satellite_ok(2) ap len])
  have "R_init_zukomptest only s = (None, s\<lparr>ses_registry := r2\<rparr>)"
    unfolding R_init_zukomptest_def s_def r_session.select_convs table_resolved option.case api_fields r1(1) prod.case r2(1)
    by simp
  with r2 r1(2) show ?thesis by auto
qed

text \<open>The registry once both packages are loaded and any further registrations have been tried.\<close>

definition loaded_registry ::
  "alloc \<Rightarrow> 'm mz_engine \<Rightarrow> ('ze, 'zd) zstd_engine \<Rightarrow> ('le, 'ld) lz4_engine \<Rightarrow>
    ('m, 'ze, 'zd, 'le, 'ld) builtin_state zu_codec_vtable option list \<Rightarrow> ('m, 'ze, 'zd, 'le, 'ld) builtin_state zu_registry" where
  "loaded_registry mem mz zs lz vts =
     fold (\<lambda>vt r. snd (zu_register_codec vt r)) vts
       (ses_registry (snd (R_init_zukomptest None (snd (R_init_zukomp mem mz zs lz session_start)))))"

lemma registrations_keep:
  "v \<in> set (reg_table r) \<Longrightarrow> v \<in> set (reg_table (fold (\<lambda>vt r. snd (zu_register_codec vt r)) vts r))"
proof (induction vts arbitrary: r)
  case (Cons vt vts)
  obtain st r' where "zu_register_codec vt r = (st, r')" by fastforce
  with register_appends [OF this] Cons show ?case by auto
qed simp

lemma loaded_ok:
  "registry_wf (loaded_registry mem mz zs lz vts)" "zukomptest_vtable \<in> set (reg_table (loaded_registry mem mz zs lz vts))"
proof -
  obtain r where "ses_registry (snd (R_init_zukomptest None (snd (R_init_zukomp mem mz zs lz session_start)))) = r" "registry_wf r"
    "zukomptest_vtable \<in> set (reg_table r)"
    using satellite_loads [of None mem mz zs lz] by (auto simp: zukomp_loaded own_codec_def)
  then show "registry_wf (loaded_registry mem mz zs lz vts)" "zukomptest_vtable \<in> set (reg_table (loaded_registry mem mz zs lz vts))"
    by (simp_all add: loaded_registry_def dir.registrations_inv registrations_keep)
qed

lemma undeclared_loaded:
  "filter (\<lambda>v. zu_int_declared_for (v_codec v) = None) (builtin_codecs mem mz zs lz) = []"
  "zu_int_declared_for (v_codec zukomptest_declared_vtable) \<noteq> None"
  by code_simp+

text \<open>C19: zukomp loads and then the satellite loads on top of it, each registering exactly its codecs behind the
  others; before zukomp the satellite refuses to load and registers nothing. With its own codec left out, the satellite
  changes no row of R's codec table but one: the declared codec it implements turns from unavailable to available, and the registry's
  generation says so.\<close>

theorem packages_load:
  "\<exists>s s' s''. R_init_zukomp mem mz zs lz session_start = (None, s) \<and> R_init_zukomptest None s = (None, s') \<and>
    R_init_zukomptest (Some ''1'') s = (None, s'') \<and> (\<exists>msg. R_init_zukomptest None session_start = (Some msg, session_start)) \<and>
    reg_table (ses_registry s') = builtin_codecs mem mz zs lz @ [zukomptest_vtable, zukomptest_declared_vtable] \<and>
    map cr_id (zukomp_codec_table (ses_registry s'')) = map cr_id (zukomp_codec_table (ses_registry s)) \<and>
    zukomp_codec_available (ses_registry s) (r_string ''snappy-raw'') = Some False \<and>
    zukomp_codec_available (ses_registry s'') (r_string ''snappy-raw'') = Some True \<and>
    zu_int_registry_generation (ses_registry s'') \<noteq> zu_int_registry_generation (ses_registry s)"
proof -
  let ?s = "\<lparr>ses_registry = builtin_reg mem mz zs lz, ses_callable = Some zukomp_get_api\<rparr>"
  obtain r1 where r1: "R_init_zukomptest None ?s = (None, ?s\<lparr>ses_registry := r1\<rparr>)"
    "reg_table r1 = builtin_codecs mem mz zs lz @ [zukomptest_vtable, zukomptest_declared_vtable]"
    using satellite_loads [of None mem mz zs lz] by (auto simp: own_codec_def)
  obtain r2 where r2: "R_init_zukomptest (Some ''1'') ?s = (None, ?s\<lparr>ses_registry := r2\<rparr>)" "registry_wf r2"
    and t2: "reg_table r2 = builtin_codecs mem mz zs lz @ [zukomptest_declared_vtable]"
    using satellite_loads [of "Some ''1''" mem mz zs lz] by (auto simp: own_codec_def)
  note b = builtin_registered [of mem mz zs lz]
  have ids: "map cr_id (zukomp_codec_table r2) = map cr_id (zukomp_codec_table (builtin_reg mem mz zs lz))"
    unfolding table_ids [OF r2(2)] table_ids [OF b(3)] t2 b(2) using undeclared_loaded by simp
  have l: "zu_codec_lookup r (Some ''snappy-raw'') = ZU_CODEC_SNAPPY_RAW" for r :: "('a, 'b, 'c, 'd, 'e) builtin_state zu_registry"
    by (simp add: zu_codec_lookup_def zu_int_declared_def)
  have av: "zukomp_codec_available r (r_string ''snappy-raw'') = Some (\<exists>v \<in> set (reg_table r). v_codec v = ZU_CODEC_SNAPPY_RAW)"
    for r :: "('a, 'b, 'c, 'd, 'e) builtin_state zu_registry"
    using l [of r] registry_lookup_None [of ZU_CODEC_SNAPPY_RAW r]
    by (auto simp: zukomp_codec_available_def zu_int_codec_from_sexp_def r_string_def zu_codec_available_def zu_codec_ids)
  have "list_all (\<lambda>v. v_codec v \<noteq> ZU_CODEC_SNAPPY_RAW) (builtin_codecs mem mz zs lz)" by code_simp
  then have a1: "zukomp_codec_available (builtin_reg mem mz zs lz) (r_string ''snappy-raw'') = Some False"
    unfolding av b(2) by (auto simp: list_all_iff)
  have "v_codec zukomptest_declared_vtable = ZU_CODEC_SNAPPY_RAW" by code_simp
  then have a2: "zukomp_codec_available r2 (r_string ''snappy-raw'') = Some True" unfolding av t2 by auto
  have "reg_gen r2 = 8" "reg_gen (builtin_reg mem mz zs lz) = 7"
    using r2(2) b(2,3) t2 by (simp_all add: registry_wf_def builtin_length)
  then have "zu_int_registry_generation r2 \<noteq> zu_int_registry_generation (builtin_reg mem mz zs lz)"
    by (simp add: zu_int_registry_generation_def)
  moreover have "\<exists>msg. R_init_zukomptest None session_start = (Some msg, session_start)"
    by (simp add: R_init_zukomptest_def session_start_def zukomp_api_def)
  ultimately show ?thesis unfolding zukomp_loaded using r1 r2(1) ids a1 a2 by simp
qed

subsection \<open>Bad registrations\<close>

lemma bad_alone:
  "\<not> vtable_ok (the (bad_vtable 0))" "\<not> vtable_ok (the (bad_vtable 1))" "\<not> vtable_ok (the (bad_vtable 2))"
  "\<not> vtable_ok (the (bad_vtable 3))" "\<not> vtable_ok (the (bad_vtable 6))" "\<not> vtable_ok (the (bad_vtable 7))"
  "\<not> vtable_ok (the (bad_vtable 8))" "\<not> vtable_ok (the (bad_vtable 9))"
  by code_simp+

lemma bad_beside:
  "\<not> vtables_apart zukomptest_vtable (the (bad_vtable 4))" "\<not> vtables_apart zukomptest_vtable (the (bad_vtable 5))"
  by code_simp+

lemma ten_cases: "n \<in> {0..9} \<Longrightarrow> n \<in> {0, 1, 2, 3, 4, 5, 6, 7, 8, 9 :: int}"
  by (simp only: atLeastAtMost_iff insert_iff empty_iff) presburger

lemma bad_some: "which \<in> {0..9} \<Longrightarrow> bad_vtable which \<noteq> None"
  by (drule ten_cases) (auto simp: bad_vtable_def Let_def)

text \<open>C20: once both packages are loaded, and whatever else has been registered since, each of the ten bad
  registrations is refused with \<^const>\<open>ZU_ERR_INVALID_ARGUMENT\<close> (4) and leaves the registry as it was.\<close>

theorem bad_registrations_refused:
  fixes mem :: alloc and mz :: "'m mz_engine" and zs :: "('ze, 'zd) zstd_engine" and lz :: "('le, 'ld) lz4_engine"
  assumes "x_int which \<in> {0..9}"
  shows "zukomptest_try_bad_registration (zukomp_get_api ZUKOMP_ABI_VERSION) which (loaded_registry mem mz zs lz vts) =
    (R_value 4, loaded_registry mem mz zs lz vts)"
proof -
  let ?r = "loaded_registry mem mz zs lz vts"
  obtain v :: "('m, 'ze, 'zd, 'le, 'ld) builtin_state zu_codec_vtable" where v: "bad_vtable (x_int which) = Some v"
    using bad_some [OF assms] by blast
  then have "v = the (bad_vtable (x_int which))" by simp
  with ten_cases [OF assms] have "\<not> vtable_ok v \<or> \<not> vtables_apart zukomptest_vtable v" by (auto simp: bad_alone bad_beside)
  then have "\<not> (vtable_ok v \<and> (\<forall>w \<in> set (reg_table ?r). vtables_apart w v))" using loaded_ok(2) [of mem mz zs lz vts] by auto
  then have "zu_register_codec (Some v) ?r = (ZU_ERR_INVALID_ARGUMENT, ?r)" by (simp only: zu_register_codec_eq if_False)
  moreover have "status_int ZU_ERR_INVALID_ARGUMENT = 4" by (simp add: status_int_def zu_status_enum_def)
  ultimately show ?thesis using v by (simp add: zukomptest_try_bad_registration_def zukomp_get_api_def)
qed

theorem bad_registrations_refused_witness:
  "zukomptest_try_bad_registration (zukomp_get_api ZUKOMP_ABI_VERSION) (r_zero\<lparr>x_int := 4\<rparr>)
      (loaded_registry mem_ok zero_engine plain_zstd mini_block [None]) =
    (R_value 4, loaded_registry mem_ok zero_engine plain_zstd mini_block [None])"
  by (rule bad_registrations_refused) (simp add: r_zero_def)

subsection \<open>The round trip through the table\<close>

lemma lifted_xor5a: "bytewise_at (\<lambda>x. x XOR XOR_KEY) (lift_process Unit_state unit_of xor5a_process) (Some (Unit_state ()))"
  unfolding bytewise_at_def
proof (intro allI impI)
  fix b flush assume "buf_wf b"
  then show "lift_process Unit_state unit_of xor5a_process (Some (Unit_state ())) b flush =
      (let n = min (avail_in b) (avail_out b)
       in Some (bytewise_status (avail_in b) (avail_out b) flush, Some (Unit_state ()),
                put_out (map (\<lambda>x. x XOR XOR_KEY) (take n (in_window b))) (skip_in n b)))"
    by (simp add: lift_process_def xor5a.proc_eq Let_def)
qed

lemma satellite_fields:
  "v_codec zukomptest_vtable = ZU_CODEC_VENDOR_BASE" "v_bound zukomptest_vtable = Some xor5a_bound"
  "has_flag (v_flags zukomptest_vtable) ZU_CAN_ENCODE" "has_flag (v_flags zukomptest_vtable) ZU_CAN_DECODE"
  "v_encoder_process zukomptest_vtable = Some (lift_process Unit_state unit_of xor5a_process)"
  "v_decoder_process zukomptest_vtable = Some (lift_process Unit_state unit_of xor5a_process)"
  "the (v_encoder_new zukomptest_vtable) eo = (ZU_OK, Some (Unit_state ()))"
  "the (v_decoder_new zukomptest_vtable) os = (ZU_OK, Some (Unit_state ()))"
  by (simp_all add: zukomptest_vtable_def lift_vtable_def xor5a_vtable_def lift_new_def xor5a_encoder_new_def
      xor5a_decoder_new_def xor5a_new_def zu_flag_bits)

lemma satellite_resolves:
  assumes "registry_wf reg" "zukomptest_vtable \<in> set (reg_table reg)"
  shows "zu_int_resolve reg ZU_CODEC_VENDOR_BASE ZU_CAN_ENCODE = (ZU_OK, Some zukomptest_vtable)"
    "zu_int_resolve reg ZU_CODEC_VENDOR_BASE ZU_CAN_DECODE = (ZU_OK, Some zukomptest_vtable)"
    "zu_compress_bound reg ZU_CODEC_VENDOR_BASE ZU_LEVEL_DEFAULT n = (ZU_OK, Some n)"
proof -
  have "zu_int_registry_lookup reg ZU_CODEC_VENDOR_BASE = Some zukomptest_vtable"
    using registry_lookup_mem [OF assms] by (simp add: satellite_fields)
  then show r: "zu_int_resolve reg ZU_CODEC_VENDOR_BASE ZU_CAN_ENCODE = (ZU_OK, Some zukomptest_vtable)"
    "zu_int_resolve reg ZU_CODEC_VENDOR_BASE ZU_CAN_DECODE = (ZU_OK, Some zukomptest_vtable)"
    by (simp_all add: zu_int_resolve_def satellite_fields)
  show "zu_compress_bound reg ZU_CODEC_VENDOR_BASE ZU_LEVEL_DEFAULT n = (ZU_OK, Some n)"
    by (simp add: zu_compress_bound_def r zu_int_check_level_def satellite_fields xor5a_bound_def)
qed

text \<open>The satellite's round trip through zukomp's table returns every input, on any registry in which both
  packages are loaded.\<close>

theorem roundtrip_via_c_exact:
  fixes mz :: "'m mz_engine" and zs :: "('ze, 'zd) zstd_engine" and lz :: "('le, 'ld) lz4_engine"
  assumes x: "raw_ok x" and env: "env_generous env"
  shows "zukomptest_roundtrip_via_c env (zukomp_get_api ZUKOMP_ABI_VERSION) (loaded_registry mem mz zs lz vts) x =
    Some (R_value (x_raw x))"
proof -
  let ?r = "loaded_registry mem mz zs lz vts" and ?f = "\<lambda>x :: byte. x XOR XOR_KEY" and ?s = "x_raw x"
  let ?y = "map ?f ?s" and ?t = "r_alloc (length ?s)"
  let ?eo = "enc_opts_zero\<lparr>eo_codec := ZU_CODEC_VENDOR_BASE, eo_level := ZU_LEVEL_DEFAULT\<rparr>"
  let ?p = "lift_process (Unit_state :: unit \<Rightarrow> ('m, 'ze, 'zd, 'le, 'ld) builtin_state) unit_of xor5a_process"
  let ?do = "dec_opts_zero\<lparr>do_codec := ZU_CODEC_VENDOR_BASE\<rparr>"
  note res = satellite_resolves [OF loaded_ok, of mem mz zs lz vts]
  have n: "x_length x = length ?s" "length ?s \<le> SIZE_MAX" "length ?t = length ?s" "length ?t \<le> SIZE_MAX" "length ?y \<le> SIZE_MAX"
    using x by (simp_all add: raw_ok_def UINT64_MAX_def r_alloc_def)
  have mem: "env_mem env w k" "env_vector env k" for w k using env by (simp_all add: env_generous_def)
  have e: "zu_encoder_new (env_mem env) ?r ?eo = (ZU_OK, Some \<lparr>e_vtable = zukomptest_vtable, e_state = Some (Unit_state ()),
      e_opts = copy_encoder_opts ?eo, e_finished = False\<rparr>)"
    by (simp add: zu_encoder_new_def enc_opts_zero_def sizeof_zu_encoder_opts_def ZU_ENCODER_OPTS_REQUIRED_SIZE_def res zu_int_check_level_def
        mem satellite_fields Let_def)
  have d: "zu_decoder_new (env_mem env) ?r ?do = (ZU_OK, Some \<lparr>dec_vtable = zukomptest_vtable, dec_state = Some (Unit_state ()),
      dec_opts = copy_decoder_opts ?do, dec_finished = False, total_in = 0, total_out = 0\<rparr>)"
    by (simp add: zu_decoder_new_def zu_int_check_dec_opts_def dec_opts_zero_def sizeof_zu_decoder_opts_def ZU_DECODER_OPTS_REQUIRED_SIZE_def
        offsetof_expected_size_def res mem satellite_fields Let_def)
  have "zu_compress_one (env_mem env) ?r ?eo (Some ?s) (length ?s) (Some ?t) (length ?t) =
      Some (ZU_OK, Some (length ?s), Some (?y @ drop (length ?s) ?t))"
    using compress_one_at [OF n(2,4) e, where f = ?f and proc = ?p] lifted_xor5a n(3) by (simp add: satellite_fields)
  then have c: "zu_compress_one (env_mem env) ?r ?eo (Some ?s) (length ?s) (Some ?t) (length ?s) = Some (ZU_OK, Some (length ?s), Some ?y)"
    using n(3) by simp
  have o': "copy_decoder_opts ?do = ?do"
    by (subst copy_decoder_opts_eq) (simp_all add: dec_opts_zero_def sizeof_zu_decoder_opts_def zu_codec_ids)
  have lim: "decoder_ceiling ?do = None" "\<not> has_flag (do_flags dec_opts_zero) ZU_DEC_EXPECTED_SIZE"
    by (simp_all add: decoder_ceiling_def dec_opts_zero_def has_flag_def)
  have "(\<lambda>x. x XOR XOR_KEY) \<circ> (\<lambda>x. x XOR XOR_KEY) = id" by (simp add: fun_eq_iff xor.assoc)
  then have "zu_decompress_one (env_mem env) ?r ?do (Some ?y) (length ?y) (Some ?t) (length ?t) = Some (ZU_OK, Some (length ?s), Some (?s @ drop (length ?s) ?t))"
    using decompress_one_at [OF n(5,4) d, where f = ?f and proc = ?p] lifted_xor5a n(3) unfolding o'
    by (simp add: satellite_fields bytewise_result_def output_room_def lim)
  then have u: "zu_decompress_one (env_mem env) ?r ?do (Some ?y) (length ?s) (Some ?t) (length ?s) = Some (ZU_OK, Some (length ?s), Some ?s)"
    using n(3) by simp
  show ?thesis
    using c u res(3) [of "length ?s"] mem by (simp add: zukomptest_roundtrip_via_c_def zukomp_get_api_def n(1) Let_def)
qed

theorem roundtrip_via_c_exact_witness:
  "zukomptest_roundtrip_via_c demo_env (zukomp_get_api ZUKOMP_ABI_VERSION)
      (loaded_registry mem_ok zero_engine plain_zstd mini_block []) (r_raw [1, 2, 3]) = Some (R_value [1, 2, 3])"
  using roundtrip_via_c_exact [OF demo_raw(1) demo_env_generous] by (simp add: demo_raw(2))

end
