(* ===== verification/Zu_One_Shot.thy ===== *)
theory Zu_One_Shot
  imports Zu_Komp
begin

text \<open>
  What a one-shot decompression promises for any codec: \<^verbatim>\<open>zu_decompress_one\<close> of \<^verbatim>\<open>zu_stream.c\<close> as a session of the
  driver that ends with the stream. Unlike the sliced loop of \<open>Zu_Whole\<close> it hands over the whole input in its
  first call, so trailing bytes never go unseen.
\<close>

lemma decoder_new_none: "zu_decoder_new mem reg os = (st, None) \<Longrightarrow> st \<noteq> ZU_OK"
  by (auto simp: zu_decoder_new_def zu_int_resolve_def Let_def split: if_splits prod.splits option.splits)

lemma session_trace_start:
  "zu_decoder_new mem reg os = (ZU_OK, Some d) \<Longrightarrow> session_trace mem reg (copy_decoder_opts os) (Dec d) [] [] ZU_OK ZU_RUN 0"
  using decoder_session.new new_fields by (fastforce simp: session_trace_def ratio_kept_def)

text \<open>The loop keeps the trace of the session, turn by turn.\<close>

definition one_shot_traced ::
  "alloc \<Rightarrow> 's zu_registry \<Rightarrow> zu_decoder_opts \<Rightarrow> zu_buffer \<Rightarrow> 's handle \<times> zu_buffer \<Rightarrow> zu_status \<Rightarrow> bool" where
  "one_shot_traced mem reg os b0 hb st \<longleftrightarrow>
     (case hb of (h, b) \<Rightarrow> buf_wf b \<and> buf_adv b0 b \<and>
        (\<exists>fl. session_trace mem reg os h (consumed b0 b) (emitted b0 b) st fl (if st = ZU_STREAM_END then avail_in b else 0)))"

lemma one_shot_traced_turn:
  assumes ok: "decoders_ok I reg" and k: "one_shot_traced mem reg os b0 (h, b) st0" and p: "is_progress st0" "st0 \<noteq> ZU_STREAM_END"
  obtains st h' b' where "handle_process h b ZU_FINISH = Some (st, h', b')" "one_shot_traced mem reg os b0 (h', b') st"
proof -
  from k obtain fl where w: "buf_wf b" "buf_adv b0 b" and t: "session_trace mem reg os h (consumed b0 b) (emitted b0 b) st0 fl 0"
    using p(2) by (auto simp: one_shot_traced_def)
  from session_call [OF ok t p(1) w(1), of ZU_FINISH] obtain st h' b' where
    q: "handle_process h b ZU_FINISH = Some (st, h', b')" "buf_adv b b'"
    "session_trace mem reg os h' (consumed b0 b @ consumed b b') (emitted b0 b @ emitted b b') st ZU_FINISH (avail_in b')" by blast
  have "session_trace mem reg os h' i out st fl left \<Longrightarrow> st \<noteq> ZU_STREAM_END \<Longrightarrow> session_trace mem reg os h' i out st fl 0" for i out fl left
    by (simp add: session_trace_def)
  with q(3) have "session_trace mem reg os h' (consumed b0 b') (emitted b0 b') st ZU_FINISH (if st = ZU_STREAM_END then avail_in b' else 0)"
    by (auto simp: consumed_trans [OF w(2) q(2)] emitted_trans [OF w(2) q(2)])
  with q w show thesis
    by (intro that [OF q(1)]) (auto simp: one_shot_traced_def intro: buf_adv_wf buf_adv_trans)
qed

lemma one_shot_end:
  assumes ok: "decoders_ok I reg" and start: "one_shot_traced mem reg os b0 x ZU_OK"
    and loop: "run_loop one_shot_step x = Some (ZU_OK, h', b')"
  shows "one_shot_traced mem reg os b0 (h', b') ZU_STREAM_END"
proof -
  let ?I = "\<lambda>x. \<exists>st. one_shot_traced mem reg os b0 x st \<and> is_progress st \<and> st \<noteq> ZU_STREAM_END"
  have "case (ZU_OK, h', b') of (st, h', b') \<Rightarrow> st = ZU_OK \<longrightarrow> one_shot_traced mem reg os b0 (h', b') ZU_STREAM_END"
  proof (rule run_loop_inv [OF loop, where I = ?I])
    show "?I x" using start by (intro exI [where x = ZU_OK]) simp
  next
    fix x y assume "?I x" and s: "one_shot_step x = Some (Next y)"
    then obtain h b st0 where x: "x = (h, b)" and k: "one_shot_traced mem reg os b0 (h, b) st0" "is_progress st0" "st0 \<noteq> ZU_STREAM_END"
      by (cases x) auto
    obtain st h' b' where q: "handle_process h b ZU_FINISH = Some (st, h', b')" "one_shot_traced mem reg os b0 (h', b') st"
      by (rule one_shot_traced_turn [OF ok k])
    with s x have "y = (h', b')" "is_progress st" "st \<noteq> ZU_STREAM_END"
      by (cases st; auto simp: one_shot_step_def split: if_splits)+
    with q(2) show "?I y" by blast
  next
    fix x q assume "?I x" and s: "one_shot_step x = Some (Ret q)"
    then obtain h b st0 where x: "x = (h, b)" and k: "one_shot_traced mem reg os b0 (h, b) st0" "is_progress st0" "st0 \<noteq> ZU_STREAM_END"
      by (cases x) auto
    obtain st h' b' where p: "handle_process h b ZU_FINISH = Some (st, h', b')" "one_shot_traced mem reg os b0 (h', b') st"
      by (rule one_shot_traced_turn [OF ok k])
    have "fst q = ZU_OK \<longrightarrow> st = ZU_STREAM_END" "snd q = (h', b')"
      using s x p(1) by (cases st; auto simp: one_shot_step_def split: if_splits)+
    with p(2) show "case q of (st, h', b') \<Rightarrow> st = ZU_OK \<longrightarrow> one_shot_traced mem reg os b0 (h', b') ZU_STREAM_END"
      by (cases q) auto
  qed
  then show ?thesis by simp
qed

lemma decompress_one_session:
  assumes ok: "decoders_ok I reg" and len: "length s \<le> SIZE_MAX" "cap \<le> length t" "length t \<le> SIZE_MAX"
    and call: "zu_decompress_one mem reg os (Some s) (length s) (Some t) cap = Some (ZU_OK, Some w, d)"
  shows "\<exists>dec n t'. d = Some t' \<and> decoder_session mem reg dec (take n s) (take w t') \<and> dec_opts dec = copy_decoder_opts os \<and>
    n \<le> length s \<and> w \<le> cap \<and> length t' = length t \<and> drop cap t' = drop cap t \<and>
    (do_max_output (copy_decoder_opts os) \<noteq> 0 \<longrightarrow> w \<le> do_max_output (copy_decoder_opts os)) \<and>
    (has_flag (do_flags (copy_decoder_opts os)) ZU_DEC_EXPECTED_SIZE \<longrightarrow> w = do_expected_size (copy_decoder_opts os)) \<and>
    (has_flag (do_flags (copy_decoder_opts os)) ZU_DEC_REJECT_TRAILING \<longrightarrow> n = length s)"
proof -
  let ?b = "\<lparr>src = Some s, src_size = length s, src_pos = 0, dst = Some t, dst_size = cap, dst_pos = 0\<rparr>" and ?os = "copy_decoder_opts os"
  have wf: "buf_wf ?b" using len by (simp add: buf_wf_def src_mem_def dst_mem_def)
  obtain h where h: "zu_decoder_new mem reg os = (ZU_OK, Some h)"
  proof (cases "zu_decoder_new mem reg os")
    case (Pair st oh)
    show thesis
    proof (cases oh)
      case None
      with decoder_new_none Pair have "st \<noteq> ZU_OK" by blast
      with call Pair None show thesis by (simp add: zu_decompress_one_def zu_int_one_shot_def handle_new_def)
    next
      case (Some h)
      then have "handle_new mem reg (DecOpts os) = (st, Some (Dec h))" using Pair by (simp add: handle_new_def)
      from handle_new_status [OF this] Pair Some show thesis by (intro that) simp
    qed
  qed
  obtain h' b' where l: "run_loop one_shot_step (Dec h, ?b) = Some (ZU_OK, h', b')" "w = dst_pos b'" "d = dst b'"
    using call h by (auto simp: zu_decompress_one_def zu_int_one_shot_def handle_new_def split: option.splits)
  have "one_shot_traced mem reg ?os ?b (Dec h, ?b) ZU_OK"
    using session_trace_start [OF h] wf by (auto simp: one_shot_traced_def)
  from one_shot_end [OF ok this l(1)] obtain fl where
    e: "buf_adv ?b b'" "session_trace mem reg ?os h' (consumed ?b b') (emitted ?b b') ZU_STREAM_END fl (avail_in b')"
    by (auto simp: one_shot_traced_def)
  obtain t' where t': "dst b' = Some t'" using e(1) by (auto simp: buf_adv_def)
  have m: "src_pos b' \<le> length s" "w \<le> cap" "length t' = length t" "drop cap t' = drop cap t" "avail_in b' = length s - src_pos b'"
    using e(1) t' l(2) avail_in_wf [OF buf_adv_wf [OF wf e(1)]] by (simp_all add: buf_adv_def dst_mem_def)
  have io: "consumed ?b b' = take (src_pos b') s" "emitted ?b b' = take w t'"
    using m t' l(2) by (simp_all add: consumed_def emitted_def seg_def src_mem_def dst_mem_def)
  from e(2) obtain dec where dec: "decoder_session mem reg dec (take (src_pos b') s) (take w t')" "dec_opts dec = ?os"
    "has_flag (do_flags ?os) ZU_DEC_EXPECTED_SIZE \<longrightarrow> length (take w t') = do_expected_size ?os"
    "has_flag (do_flags ?os) ZU_DEC_REJECT_TRAILING \<longrightarrow> avail_in b' = 0"
    unfolding io session_trace_def by auto
  have lw: "length (take w t') = w" using m len(2) by simp
  have "do_max_output ?os \<noteq> 0 \<longrightarrow> w \<le> do_max_output ?os" using session_capped(1) [OF ok dec(1)] dec(2) lw by simp
  with dec(3,4) lw m(5,1) have lim: "(do_max_output ?os \<noteq> 0 \<longrightarrow> w \<le> do_max_output ?os) \<and>
      (has_flag (do_flags ?os) ZU_DEC_EXPECTED_SIZE \<longrightarrow> w = do_expected_size ?os) \<and>
      (has_flag (do_flags ?os) ZU_DEC_REJECT_TRAILING \<longrightarrow> src_pos b' = length s)" by simp
  have "d = Some t'" using l(3) t' by simp
  then show ?thesis using dec(1,2) m(1-4) lim by blast
qed

text \<open>C10: a one-shot decompression that succeeds delivered what a session of the named decoder delivered, within the
  capacity and the limit, exactly the announced size where one was announced, and with \<^const>\<open>ZU_DEC_REJECT_TRAILING\<close>
  the decoder consumed the input to its last byte; nothing behind the capacity is written.\<close>

theorem decompress_one_exact:
  assumes "decoders_ok I reg" "length s \<le> SIZE_MAX" "cap \<le> length t" "length t \<le> SIZE_MAX"
    and "zu_decompress_one mem reg os (Some s) (length s) (Some t) cap = Some (ZU_OK, Some w, d)"
  shows "\<exists>dec n t'. d = Some t' \<and> decoder_session mem reg dec (take n s) (take w t') \<and> dec_opts dec = copy_decoder_opts os \<and>
    n \<le> length s \<and> w \<le> cap \<and> length t' = length t \<and> drop cap t' = drop cap t \<and>
    (do_max_output (copy_decoder_opts os) \<noteq> 0 \<longrightarrow> w \<le> do_max_output (copy_decoder_opts os)) \<and>
    (has_flag (do_flags (copy_decoder_opts os)) ZU_DEC_EXPECTED_SIZE \<longrightarrow> w = do_expected_size (copy_decoder_opts os)) \<and>
    (has_flag (do_flags (copy_decoder_opts os)) ZU_DEC_REJECT_TRAILING \<longrightarrow> n = length s)"
  by (rule decompress_one_session [OF assms])

theorem decompress_one_exact_witness:
  "\<exists>dec. decoder_session mem_ok demo_reg dec [0x5B, 0x58, 0x59] [1, 2, 3] \<and> dec_opts dec = copy_decoder_opts demo_opts"
proof -
  let ?s = "[0x5B, 0x58, 0x59] :: byte list" and ?t = "[0, 0, 0, 7] :: byte list" and ?o = "copy_decoder_opts demo_opts"
  have v: "dec_vtable demo_dec = xor5a_vtable" using demo_decoder_vtable [OF demo_dec_new] by (simp add: demo_opts_def)
  have n: "length ?s \<le> SIZE_MAX" "length ?t \<le> SIZE_MAX" by (simp_all add: UINT64_MAX_def)
  have r: "bytewise_result ?o (length ?s) (length ?t) = ZU_OK" "min (length ?s) (output_room ?o (length ?t)) = 3"
    "map (\<lambda>x. x XOR XOR_KEY) (take 3 ?s) @ drop 3 ?t = [1, 2, 3, 7]"
    by code_simp+
  have c: "zu_decompress_one mem_ok demo_reg demo_opts (Some ?s) (length ?s) (Some ?t) (length ?t) = Some (ZU_OK, Some 3, Some [1, 2, 3, 7])"
    using xor5a.decompress_one_eq [OF n demo_dec_new] v unfolding r by (simp add: xor5a_vtable_def)
  have f: "has_flag (do_flags ?o) ZU_DEC_REJECT_TRAILING" by code_simp
  from decompress_one_exact [OF demo_decoders n(1) order_refl n(2) c] f obtain dec n where
    "decoder_session mem_ok demo_reg dec (take n ?s) (take 3 [1, 2, 3, 7])" "n = length ?s" "dec_opts dec = ?o" by blast
  then show ?thesis by auto
qed

end
