(* ===== verification/Zu_Client.thy ===== *)
theory Zu_Client
  imports Zu_One_Shot
begin

unbundle bit_operations_syntax

text \<open>
  The loop that clients of a decoder write around \<^verbatim>\<open>zu_decoder_process\<close>: the next slice of the input once the
  previous one is spent, \<^verbatim>\<open>ZU_FINISH\<close> when the input is used up, an output block used from the front on every turn.
  \<^verbatim>\<open>tools/zukomptest/src/http_spike.c\<close> and \<^verbatim>\<open>fuzz/fuzz_common.h\<close> both have it; what one turn keeps, and
  that it leaves less to do, is proved here once.
\<close>

definition client_refill :: "byte list \<Rightarrow> nat \<Rightarrow> nat \<Rightarrow> zu_buffer \<Rightarrow> nat \<Rightarrow> zu_buffer \<times> nat" where
  "client_refill s n in_chunk b fed =
     (if src_pos b = src_size b \<and> fed < n
      then
        (let k = n - fed;
             k' = (if k > in_chunk then in_chunk else k)
         in (b\<lparr>src := Some (drop fed s), src_size := k', src_pos := 0\<rparr>, fed + k'))
      else (b, fed))"

definition buffer_zero :: zu_buffer where
  "buffer_zero = \<lparr>src = None, src_size = 0, src_pos = 0, dst = None, dst_size = 0, dst_pos = 0\<rparr>"

text \<open>The feed is the one of the drive loop of \<open>Zu_Whole\<close>, and the output block is a sink whose \<^verbatim>\<open>used\<close> stays 0.\<close>

definition client_run :: "byte list \<Rightarrow> nat \<Rightarrow> nat \<Rightarrow> zu_int_run_opts" where
  "client_run s ic oc =
     \<lparr>ro_src = s, ro_n = length s, ro_encode = False, ro_codec = 0, ro_level = 0, ro_max_output = 0, ro_max_ratio = 0,
      ro_dec_flags = 0, ro_expected_size = 0, ro_in_chunk = ic, ro_out_chunk = oc, ro_flush_every = 0\<rparr>"

definition client_sink :: "byte list \<Rightarrow> zu_int_outbuf" where
  "client_sink out = \<lparr>ob_owner = Some (Some 0), ob_buf = Some (0, out), ob_size = length out, ob_used = 0, ob_consumed = 0\<rparr>"

lemma client_refill_eq: "client_refill s (length s) ic b fed = whole_refill (client_run s ic oc) b fed"
  by (simp add: client_refill_def whole_refill_def client_run_def Let_def)

lemma client_window:
  "b\<lparr>dst := Some out, dst_size := oc, dst_pos := 0\<rparr> = whole_window (client_run s ic oc) (client_sink out) b"
  by (simp add: whole_window_def client_run_def client_sink_def)

text \<open>The loop's state and the bytes \<open>y\<close> the decoder has delivered so far.\<close>

definition client_kept ::
  "alloc \<Rightarrow> 's zu_registry \<Rightarrow> zu_decoder_opts \<Rightarrow> byte list \<Rightarrow> nat \<Rightarrow> nat \<Rightarrow>
    's zu_decoder \<Rightarrow> zu_buffer \<Rightarrow> byte list \<Rightarrow> nat \<Rightarrow> byte list \<Rightarrow> zu_status \<Rightarrow> bool" where
  "client_kept mem reg os s ic oc dec b out fed y st \<longleftrightarrow>
     feed_at (client_run s ic oc) b fed \<and> length out = oc \<and>
     (\<exists>fl left. capped_trace mem reg os (Dec dec) (take (taken b fed) s) y st fl left \<and>
        (st = ZU_STREAM_END \<longrightarrow> left = src_size b - src_pos b))"

definition client_weight :: "nat \<Rightarrow> byte list \<Rightarrow> 's zu_decoder \<Rightarrow> zu_buffer \<Rightarrow> nat \<Rightarrow> nat" where
  "client_weight m s dec b fed = (length s - fed) + (length s - taken b fed) + (m - total_out dec)"

lemma client_start:
  assumes "zu_decoder_new mem reg os = (ZU_OK, Some d)" "copy_decoder_opts os = os" "decoder_ceiling os \<noteq> None"
  shows "client_kept mem reg os s ic oc d buffer_zero (r_alloc oc) 0 [] ZU_OK"
proof -
  have "capped_trace mem reg os (Dec d) [] [] ZU_OK ZU_RUN 0"
    using session_trace_start [OF assms(1)] assms(2,3) by (simp add: capped_trace_def)
  then show ?thesis by (auto simp: client_kept_def feed_at_def buffer_zero_def taken_def src_mem_def r_alloc_def)
qed

text \<open>The decoder's own count is what it has delivered.\<close>

lemma client_total:
  assumes "decoders_ok I reg" "client_kept mem reg os s ic oc dec b out fed y st"
  shows "total_out dec = length y" "length y \<le> fst (the (decoder_ceiling os))"
proof -
  from assms(2) have d: "decoder_session mem reg dec (take (taken b fed) s) y" "dec_opts dec = os" "decoder_ceiling os \<noteq> None"
    by (auto simp: client_kept_def capped_trace_def session_trace_def)
  from session_inv [OF assms(1) d(1)] have i: "within_limits dec" "session_counts dec (take (taken b fed) s) y"
    by (simp_all add: decoder_inv_def)
  with d show "total_out dec = length y" by (simp add: session_counts_def)
  with i d show "length y \<le> fst (the (decoder_ceiling os))" by (auto simp: within_limits_def)
qed

text \<open>One turn, up to the decision whether to go round again: it makes one call, keeps the invariant, and unless the
  decoder asks for input after the last byte without output, there is less left to do.\<close>

lemma client_turn:
  assumes pr: "decoders_prompt I reg" and len: "length s \<le> 2 ^ 52" "0 < ic" "0 < oc" "oc < 2 ^ 31"
    and k: "client_kept mem reg os s ic oc dec b out fed y st0" and p: "is_progress st0" "st0 \<noteq> ZU_STREAM_END"
  obtains b1 fed1 st dec' b2 where
    "client_refill s (length s) ic b fed = (b1, fed1)"
    "zu_decoder_process dec (b1\<lparr>dst := Some out, dst_size := oc, dst_pos := 0\<rparr>)
       (if fed1 \<ge> length s \<and> src_pos b1 = src_size b1 then ZU_FINISH else ZU_RUN) = Some (st, dec', b2)"
    "client_kept mem reg os s ic oc dec' b2 (dst_mem b2) fed1 (y @ take (dst_pos b2) (dst_mem b2)) st"
    "length (take (dst_pos b2) (dst_mem b2)) = dst_pos b2"
    "is_progress st \<longrightarrow> st \<noteq> ZU_STREAM_END \<longrightarrow> \<not> (dst_pos b2 = 0 \<and> (fed1 \<ge> length s \<and> src_pos b1 = src_size b1) \<and> st = ZU_NEED_INPUT) \<longrightarrow>
       client_weight (fst (the (decoder_ceiling os))) s dec' b2 fed1 < client_weight (fst (the (decoder_ceiling os))) s dec b fed"
proof -
  let ?r = "client_run s ic oc" and ?ob = "client_sink out"
  have ok: "whole_opts_ok ?r" using len by (simp add: whole_opts_ok_def client_run_def UINT64_MAX_def)
  obtain fl0 left0 where kk: "feed_at ?r b fed" "length out = oc"
    and tr: "capped_trace mem reg os (Dec dec) (take (taken b fed) s) y st0 fl0 left0" using k by (auto simp: client_kept_def)
  obtain b1 fed1 where rf: "client_refill s (length s) ic b fed = (b1, fed1)" by fastforce
  note f1 = refill_ok [OF kk(1) rf [unfolded client_refill_eq [where oc = oc]] ok]
  let ?w = "whole_window ?r ?ob b1" and ?fl = "if fed1 \<ge> length s \<and> src_pos b1 = src_size b1 then ZU_FINISH else ZU_RUN"
  have sk: "sink_ok 0 ?ob 1" using len kk(2) by (simp add: sink_ok_def client_sink_def outbuf_mem_def UINT64_MAX_def)
  have wf: "buf_wf ?w" by (rule window_wf [OF f1(1) ok sk]) (simp add: client_sink_def client_run_def kk(2))
  have hi: "capped_hinv I reg (Dec dec)" using pr by (simp add: capped_hinv_def)
  note dok = decoders_prompt_ok [OF pr]
  have str: "session_trace mem reg os (Dec dec) (take (taken b fed) s) y st0 fl0 left0" and cn: "decoder_ceiling os \<noteq> None"
    using tr by (simp_all add: capped_trace_def)
  from session_call [OF dok str p(1) wf, of ?fl] obtain st h' b2 where
    q: "handle_process (Dec dec) ?w ?fl = Some (st, h', b2)" "buf_adv ?w b2"
    "session_trace mem reg os h' (take (taken b fed) s @ consumed ?w b2) (y @ emitted ?w b2) st ?fl (avail_in b2)" by blast
  then obtain dec' where d: "zu_decoder_process dec ?w ?fl = Some (st, dec', b2)" "h' = Dec dec'"
    by (auto simp: handle_process_def split: option.splits)
  note m = feed_moved [OF f1(1) q(2) ok]
  have em: "emitted ?w b2 = take (dst_pos b2) (dst_mem b2)" using q(2) by (simp add: emitted_def seg_def)
  have dl: "dst_pos b2 \<le> oc" "length (dst_mem b2) = oc"
    using q(2) kk(2) by (simp_all add: buf_adv_def window_mem client_sink_def outbuf_mem_def) (simp_all add: client_run_def)
  have src: "take (taken b fed) s @ consumed ?w b2 = take (taken b2 fed1) s" using m(4) f1(2) by (simp add: client_run_def)
  have tr': "capped_trace mem reg os (Dec dec') (take (taken b2 fed1) s) (y @ emitted ?w b2) st ?fl (avail_in b2)"
    using q(3) d(2) src cn by (simp add: capped_trace_def)
  have left: "avail_in b2 = src_size b2 - src_pos b2" using avail_in_wf [OF buf_adv_wf [OF wf q(2)]] .
  have kept: "client_kept mem reg os s ic oc dec' b2 (dst_mem b2) fed1 (y @ take (dst_pos b2) (dst_mem b2)) st"
    unfolding client_kept_def
    by (intro conjI exI [where x = ?fl] exI [where x = "avail_in b2"]) (use m(1) dl tr' em left in simp_all)
  have lt: "length (take (dst_pos b2) (dst_mem b2)) = dst_pos b2" using dl by simp
  have tot: "total_out dec = length y" "total_out dec' = length y + dst_pos b2" "length y + dst_pos b2 \<le> fst (the (decoder_ceiling os))"
    using client_total [OF dok k] client_total [OF dok kept] lt by simp_all
  have room: "0 < avail_out ?w" using len(3) avail_out_wf [OF wf] by (simp add: client_run_def)
  have fb: "fed1 \<le> length s" "taken b2 fed1 \<le> length s" "fed \<le> fed1" "taken b2 fed1 = taken b fed + (src_pos b2 - src_pos b1)"
    using taken_bounds(2) [OF f1(1)] m(3,5) f1(2,3) by (simp_all add: client_run_def)
  have prog: "client_weight (fst (the (decoder_ceiling os))) s dec' b2 fed1 < client_weight (fst (the (decoder_ceiling os))) s dec b fed"
    if g: "is_progress st" "st \<noteq> ZU_STREAM_END" and stuck: "\<not> (dst_pos b2 = 0 \<and> (fed1 \<ge> length s \<and> src_pos b1 = src_size b1) \<and> st = ZU_NEED_INPUT)"
  proof -
    have "src_pos b1 < src_pos b2 \<or> 0 < dst_pos b2 \<or> fed < fed1"
    proof (rule ccontr)
      assume c: "\<not> ?thesis"
      have mv: "src_pos b1 \<le> src_pos b2" "src_size b2 = src_size b1" using q(2) by (simp_all add: buf_adv_def)
      from whole_capped.prompt [OF hi tr p(1) wf room q(1) g] c have e: "st = ZU_NEED_INPUT" "avail_in b2 = 0" by auto
      then have z: "src_pos b1 = src_size b1" using c mv left f1(1) by (auto simp: feed_at_def)
      then have "fed1 < length s" using c e(1) stuck by auto
      moreover have "fed1 = fed" using fb(3) c by simp
      ultimately have "src_pos b \<noteq> src_size b" using f1(4) by (auto simp: client_run_def)
      then have "b1 = b" using rf by (simp add: client_refill_def)
      with z \<open>src_pos b \<noteq> src_size b\<close> show False by simp
    qed
    then show ?thesis using tot fb unfolding client_weight_def by linarith
  qed
  show thesis using that [OF rf d(1) [folded client_window] kept lt] prog by blast
qed

text \<open>After the first turn an input that fits one slice has been fed completely.\<close>

definition fed_once :: "byte list \<Rightarrow> zu_buffer \<Rightarrow> nat \<Rightarrow> bool" where
  "fed_once s b fed \<longleftrightarrow> fed = length s \<or> fed = 0 \<and> src_pos b = src_size b"

lemma fed_once_refill: "fed_once s b fed \<Longrightarrow> length s \<le> ic \<Longrightarrow> \<exists>b1. client_refill s (length s) ic b fed = (b1, length s)"
  by (auto simp: fed_once_def client_refill_def Let_def)

end
