(* ===== verification/Zu_Spike.thy ===== *)
theory Zu_Spike
  imports Zu_Satellite Zu_Client
begin

unbundle bit_operations_syntax

text \<open>
  The HTTP client of the test satellite, \<^verbatim>\<open>tools/zukomptest/src/http_spike.c\<close>: content-coding tokens derived from
  the registry, and a response body decoded incrementally into one reused sink. Everything goes through the
  API table. The count of decoded bytes is the \<^verbatim>\<open>uint64_t\<close> before its conversion to a \<^verbatim>\<open>double\<close>.
\<close>

subsection \<open>Content-coding tokens\<close>

definition spike_info :: zu_codec_info where
  "spike_info = codec_info_zero\<lparr>i_struct_size := sizeof_zu_codec_info\<rparr>"

definition token_of :: "'s zukomp_api_v1 \<Rightarrow> 's zu_registry \<Rightarrow> zu_codec \<Rightarrow> string option" where
  "token_of api reg c =
     (case api_codec_get_info api reg c (Some spike_info) of
        (st, info) \<Rightarrow>
          if st \<noteq> ZU_OK then None
          else if \<not> has_flag (i_flags (the info)) ZU_CAN_DECODE \<or> i_content_encoding (the info) = None then None
          else i_content_encoding (the info))"

definition zukomptest_decodable_tokens :: "'s zukomp_api_v1 option \<Rightarrow> 's zu_registry \<Rightarrow> string list r_end" where
  "zukomptest_decodable_tokens table reg =
     (case table of
        None \<Rightarrow> R_error no_table
      | Some api \<Rightarrow>
          (case api_codec_list api reg (Some 64) of
             (st, n, ids) \<Rightarrow>
               if st \<noteq> ZU_OK then R_error ''zukomptest: codec_list failed''
               else R_value (List.map_filter (token_of api reg) (take n ids))))"

text \<open>\<open>None\<close> is \<^verbatim>\<open>NA_STRING\<close>.\<close>

definition zukomptest_codec_for_token :: "'s zukomp_api_v1 option \<Rightarrow> 's zu_registry \<Rightarrow> sexp \<Rightarrow> string option r_end" where
  "zukomptest_codec_for_token table reg token =
     (case table of
        None \<Rightarrow> R_error no_table
      | Some api \<Rightarrow>
          (let codec = api_codec_from_content_encoding api reg (Some (r_char0 token))
           in if codec = ZU_CODEC_NONE then R_value None
              else
                (case api_codec_get_info api reg codec (Some spike_info) of
                   (st, info) \<Rightarrow> if st \<noteq> ZU_OK then R_value None else R_value (i_name (the info)))))"

subsection \<open>Narrowing\<close>

definition spike_u64 :: "r_real \<Rightarrow> int \<times> nat" where
  "spike_u64 v = (case v of R_finite d \<Rightarrow> if d < 0 \<or> d > two53 then (1, 0) else (0, nat \<lfloor>d\<rfloor>) | _ \<Rightarrow> (1, 0))"

definition spike_u32 :: "int \<Rightarrow> int \<times> nat" where
  "spike_u32 i = (if i = NA_INTEGER \<or> i < 0 then (1, 0) else (0, nat i))"

subsection \<open>Incremental decoding\<close>

record spike_result =
  sp_ok :: bool
  sp_bytes :: nat
  sp_checksum :: u32
  sp_status :: string

text \<open>The rolling checksum over the bytes in the sink.\<close>

definition spike_checksum :: "byte list \<Rightarrow> u32 \<Rightarrow> u32" where
  "spike_checksum bs s = fold (\<lambda>c s. s * 31 + ucast c) bs s"

text \<open>Decoder, buffer, sink, bytes fed, total, checksum, turns. The loop ends with a status or with an interrupt.\<close>

type_synonym 's spike_state = "'s zu_decoder \<times> zu_buffer \<times> byte list \<times> nat \<times> nat \<times> u32 \<times> nat"

definition spike_step ::
  "'s zukomp_api_v1 \<Rightarrow> (nat \<Rightarrow> bool) \<Rightarrow> byte list \<Rightarrow> nat \<Rightarrow> nat \<Rightarrow> 's spike_state \<Rightarrow>
    (zu_status option \<times> 's spike_state, 's spike_state) loop_step option" where
  "spike_step api intr s n chunk x =
     (case x of (dec, b, out, fed, tot, csum, spins) \<Rightarrow>
        (case client_refill s n chunk b fed of
           (b1, fed1) \<Rightarrow>
             (let last_turn = (fed1 \<ge> n \<and> src_pos b1 = src_size b1)
              in (case api_decoder_process api dec (b1\<lparr>dst := Some out, dst_size := chunk, dst_pos := 0\<rparr>)
                         (if last_turn then ZU_FINISH else ZU_RUN) of
                    None \<Rightarrow> None
                  | Some (st, dec', b2) \<Rightarrow>
                      (let y = (\<lambda>spins'. (dec', b2, dst_mem b2, fed1, u64_add tot (dst_pos b2),
                                          spike_checksum (take (dst_pos b2) (dst_mem b2)) csum, spins'));
                           spins1 = (spins + 1) mod 2 ^ 32
                       in Some (if st = ZU_STREAM_END then Ret (Some st, y spins)
                                else if st \<noteq> ZU_OK \<and> st \<noteq> ZU_NEED_INPUT \<and> st \<noteq> ZU_NEED_OUTPUT then Ret (Some st, y spins)
                                else if dst_pos b2 = 0 \<and> last_turn \<and> st = ZU_NEED_INPUT then Ret (Some st, y spins)
                                else if spins1 mod 64 = 0 \<and> intr spins1 then Ret (None, y spins1)
                                else Next (y spins1)))))))"

definition spike_decoder_finalizer :: "'s zukomp_api_v1 option \<Rightarrow> 's zu_decoder option \<Rightarrow> string list" where
  "spike_decoder_finalizer table dec =
     (if dec \<noteq> None \<and> table \<noteq> None then api_decoder_free (the table) dec else [])"

text \<open>How the call ends and the release calls for the decoder: on the normal exit by the function, after a
  longjmp by the finalizer of the guard.\<close>

definition zukomptest_decode_incremental ::
  "r_env \<Rightarrow> 's zukomp_api_v1 option \<Rightarrow> 's zu_registry \<Rightarrow> sexp \<Rightarrow> sexp \<Rightarrow> sexp \<Rightarrow> sexp \<Rightarrow> sexp \<Rightarrow>
    (spike_result r_end \<times> string list) option" where
  "zukomptest_decode_incremental env table reg body codec_name r_chunk r_max_output r_max_ratio =
     (case table of
        None \<Rightarrow> Some (R_error no_table, [])
      | Some api \<Rightarrow>
          (let codec = api_codec_lookup api reg (Some (r_char0 codec_name)); chunk_i = x_int r_chunk;
               (bad_output, m) = spike_u64 (x_real r_max_output); (bad_ratio, k) = spike_u32 (x_int r_max_ratio);
               chunk = nat chunk_i; s = x_raw body; n = x_length body;
               opts = dec_opts_zero\<lparr>do_codec := codec, do_max_output := m, do_max_ratio := k,
                        do_flags := ZU_DEC_CONCAT_MEMBERS OR ZU_DEC_REJECT_TRAILING\<rparr>
           in if codec = ZU_CODEC_NONE then Some (R_error ''zukomptest: unknown codec'', [])
              else if chunk_i = NA_INTEGER \<or> chunk_i < 1
              then Some (R_error ''zukomptest: chunk must be a positive number of bytes'', [])
              else if bad_output \<noteq> 0
              then Some (R_error ''zukomptest: max_output must be a non-negative number below 2^53'', [])
              else if bad_ratio \<noteq> 0
              then Some (R_error ''zukomptest: max_ratio must be a non-negative whole number'', [])
              else
                (case api_decoder_new api (env_mem env) reg opts of
                   (st, d) \<Rightarrow>
                     if st \<noteq> ZU_OK
                     then Some (R_error (''zukomptest: decoder_new: '' @ api_status_string api (status_int st)), [])
                     else if \<not> env_vector env chunk then Some (R_no_memory, spike_decoder_finalizer table d)
                     else
                       (case run_loop (spike_step api (env_interrupt env) s n chunk)
                               (the d, buffer_zero, r_alloc chunk, 0, 0, 0, 0) of
                          None \<Rightarrow> None
                        | Some (None, dec, _) \<Rightarrow> Some (R_interrupted, spike_decoder_finalizer table (Some dec))
                        | Some (Some st, dec, _, _, _, tot, csum, _) \<Rightarrow>
                            Some (R_value \<lparr>sp_ok = (st = ZU_STREAM_END), sp_bytes = tot, sp_checksum = csum,
                                           sp_status = api_status_string api (status_int st)\<rparr>,
                                  api_decoder_free api (Some dec))))))"

subsection \<open>Accept-Encoding\<close>

lemma token_of_registered:
  assumes wf: "registry_wf r" and v: "v \<in> set (reg_table r)"
  shows "token_of zu_int_api_v1 r (v_codec v) = (if has_flag (v_flags v) ZU_CAN_DECODE then v_content_encoding v else None)"
proof -
  have "zu_codec_get_info r (v_codec v) (Some spike_info) = (ZU_OK, snd (zu_codec_get_info r (v_codec v) (Some spike_info)))"
    "i_flags (the (snd (zu_codec_get_info r (v_codec v) (Some spike_info)))) = v_flags v"
    "i_content_encoding (the (snd (zu_codec_get_info r (v_codec v) (Some spike_info)))) = v_content_encoding v"
    using registry_lookup_mem [OF wf v]
    by (simp_all add: zu_codec_get_info_def spike_info_def sizeof_zu_codec_info_def info_required_size_def Let_def)
  then show ?thesis by (cases "v_content_encoding v") (auto simp: token_of_def split: prod.splits)
qed

lemma distinct_map_filter_option:
  "sorted_wrt (\<lambda>v w. \<forall>t. g v = Some t \<longrightarrow> g w \<noteq> Some t) vs \<Longrightarrow> distinct (List.map_filter g vs)"
  by (induction vs) (auto simp: List.map_filter_def image_iff)

lemma map_filter_map_cong:
  "(\<And>v. v \<in> set vs \<Longrightarrow> h (f v) = g v) \<Longrightarrow> List.map_filter h (map f vs) = List.map_filter g vs"
  by (induction vs) (auto simp: List.map_filter_def)

text \<open>C18: the Accept-Encoding list holds exactly the content-coding tokens of the registered codecs that can
  decode, each once, and whatever letter case the server answers a token in, it resolves to the codec that offered it.\<close>

theorem accept_encoding_exact:
  assumes wf: "registry_wf r"
  shows "\<exists>ts. zukomptest_decodable_tokens (zukomp_get_api ZUKOMP_ABI_VERSION) r = R_value ts \<and> distinct ts \<and>
    set ts = {t. \<exists>v \<in> set (reg_table r). has_flag (v_flags v) ZU_CAN_DECODE \<and> v_content_encoding v = Some t} \<and>
    (\<forall>v \<in> set (reg_table r). \<forall>t u. v_content_encoding v = Some t \<longrightarrow> zu_int_ieq t u \<longrightarrow>
       zukomptest_codec_for_token (zukomp_get_api ZUKOMP_ABI_VERSION) r (r_string u) = R_value (v_name v))"
proof -
  let ?g = "\<lambda>v. if has_flag (v_flags v) ZU_CAN_DECODE then v_content_encoding v else None"
  let ?ts = "List.map_filter (token_of zu_int_api_v1 r) (map v_codec (reg_table r))"
  have api: "zukomp_get_api ZUKOMP_ABI_VERSION = Some zu_int_api_v1" by (simp add: zukomp_get_api_def)
  have len: "length (reg_table r) \<le> 32" using wf by (simp add: registry_wf_def ZU_INT_REGISTRY_CAP_def)
  then have list: "zukomptest_decodable_tokens (zukomp_get_api ZUKOMP_ABI_VERSION) r = R_value ?ts"
    by (simp add: api zukomptest_decodable_tokens_def zu_codec_list_def)
  have ts: "?ts = List.map_filter ?g (reg_table r)"
    by (rule map_filter_map_cong) (rule token_of_registered [OF wf])
  have "sorted_wrt vtables_apart (reg_table r)" using wf by (simp add: registry_wf_def)
  then have "distinct ?ts" unfolding ts
    by (intro distinct_map_filter_option) (auto elim!: sorted_wrt_mono_rel [rotated] simp: vtables_apart_def token_clash_def)
  moreover have "set ?ts = {t. \<exists>v \<in> set (reg_table r). has_flag (v_flags v) ZU_CAN_DECODE \<and> v_content_encoding v = Some t}"
    unfolding ts by (force simp: List.map_filter_def split: if_splits)
  moreover have "zukomptest_codec_for_token (zukomp_get_api ZUKOMP_ABI_VERSION) r (r_string u) = R_value (v_name v)"
    if v: "v \<in> set (reg_table r)" "v_content_encoding v = Some t" "zu_int_ieq t u" for v t u
  proof -
    have "zu_codec_from_content_encoding r (Some u) = v_codec v"
      using registered_token_resolves [OF wf v(1)] v(2,3) by (simp add: token_clash_def)
    moreover have "v_codec v \<noteq> ZU_CODEC_NONE" using wf v(1) by (auto simp: registry_wf_def vtable_ok_def)
    ultimately show ?thesis using registry_lookup_mem [OF wf v(1)]
      by (simp add: api zukomptest_codec_for_token_def demo_string zu_codec_get_info_def spike_info_def sizeof_zu_codec_info_def
          info_required_size_def Let_def)
  qed
  ultimately show ?thesis using list by blast
qed

theorem accept_encoding_exact_witness:
  "\<exists>ts. zukomptest_decodable_tokens (zukomp_get_api ZUKOMP_ABI_VERSION) (builtin_reg mem_ok zero_engine plain_zstd mini_block) = R_value ts \<and>
    distinct ts \<and> ''gzip'' \<in> set ts \<and>
    zukomptest_codec_for_token (zukomp_get_api ZUKOMP_ABI_VERSION) (builtin_reg mem_ok zero_engine plain_zstd mini_block) (r_string ''X-Gzip'') =
      R_value None"
proof -
  let ?r = "builtin_reg mem_ok zero_engine plain_zstd mini_block"
  have "lift_vtable Deflate_state deflate_of (zu_int_codec_gzip mem_ok zero_engine) \<in> set (reg_table ?r)"
    by (simp add: builtin_registered builtin_codecs_def)
  moreover have "has_flag (v_flags (lift_vtable Deflate_state deflate_of (zu_int_codec_gzip mem_ok zero_engine))) ZU_CAN_DECODE"
    "v_content_encoding (lift_vtable Deflate_state deflate_of (zu_int_codec_gzip mem_ok zero_engine)) = Some ''gzip''"
    by (simp_all add: lift_vtable_def zu_int_codec_gzip_def zu_flag_bits)
  moreover have "zukomptest_codec_for_token (zukomp_get_api ZUKOMP_ABI_VERSION) ?r (r_string ''X-Gzip'') = R_value None"
  proof -
    have "list_all (\<lambda>v. \<not> token_clash (v_content_encoding v) (Some ''X-Gzip'')) (builtin_codecs mem_ok zero_engine plain_zstd mini_block)"
      "list_all (\<lambda>d. \<not> token_clash (d_content_encoding d) (Some ''X-Gzip'')) zu_int_declared" by code_simp+
    then have "zu_codec_from_content_encoding ?r (Some ''X-Gzip'') = ZU_CODEC_NONE"
      by (auto simp: zu_codec_from_content_encoding_def builtin_registered(2) list_all_iff find_None_iff [THEN iffD2])
    then show ?thesis by (simp add: zukomptest_codec_for_token_def zukomp_get_api_def demo_string)
  qed
  ultimately show ?thesis using accept_encoding_exact [OF builtin_registered(3), of mem_ok zero_engine plain_zstd mini_block] by blast
qed

subsection \<open>What an incremental decode delivers\<close>

lemma spike_checksum_append: "spike_checksum (xs @ ys) c = spike_checksum ys (spike_checksum xs c)"
  by (simp add: spike_checksum_def)

definition spike_kept ::
  "alloc \<Rightarrow> 's zu_registry \<Rightarrow> zu_decoder_opts \<Rightarrow> byte list \<Rightarrow> nat \<Rightarrow> 's spike_state \<Rightarrow> zu_status \<Rightarrow> bool" where
  "spike_kept mem reg os s chunk x st \<longleftrightarrow>
     (case x of (dec, b, out, fed, tot, csum, spins) \<Rightarrow>
        \<exists>y. client_kept mem reg os s chunk chunk dec b out fed y st \<and> tot = length y \<and> csum = spike_checksum y 0)"

definition spike_weight :: "nat \<Rightarrow> byte list \<Rightarrow> 's spike_state \<Rightarrow> nat" where
  "spike_weight m s x = (case x of (dec, b, out, fed, tot, csum, spins) \<Rightarrow> client_weight m s dec b fed)"

lemma spike_loop:
  fixes x :: "'s spike_state"
  assumes pr: "decoders_prompt I reg" and len: "length s \<le> 2 ^ 52" "0 < chunk" "chunk < 2 ^ 31"
    and cap: "fst (the (decoder_ceiling os)) \<le> 2 ^ 53" and k: "spike_kept mem reg os s chunk x ZU_OK"
  shows "\<exists>q. run_loop (spike_step zu_int_api_v1 intr s (length s) chunk) x = Some q \<and>
    (case q of (e, y) \<Rightarrow> \<exists>st. spike_kept mem reg os s chunk y st \<and> (\<forall>st'. e = Some st' \<longrightarrow> st' = st))"
proof (rule run_loop_measure [where I = "\<lambda>x. \<exists>st. spike_kept mem reg os s chunk x st \<and> is_progress st \<and> st \<noteq> ZU_STREAM_END"
      and m = "spike_weight (fst (the (decoder_ceiling os))) s"])
  show "\<exists>st. spike_kept mem reg os s chunk x st \<and> is_progress st \<and> st \<noteq> ZU_STREAM_END"
    using k by (intro exI [where x = ZU_OK]) simp
next
  fix x :: "'s spike_state"
  assume "\<exists>st. spike_kept mem reg os s chunk x st \<and> is_progress st \<and> st \<noteq> ZU_STREAM_END"
  then obtain st0 dec b out fed tot csum spins where x: "x = (dec, b, out, fed, tot, csum, spins)"
    and k: "spike_kept mem reg os s chunk (dec, b, out, fed, tot, csum, spins) st0" and p: "is_progress st0" "st0 \<noteq> ZU_STREAM_END"
    by (cases x) auto
  then obtain y where y: "client_kept mem reg os s chunk chunk dec b out fed y st0" "tot = length y" "csum = spike_checksum y 0"
    by (auto simp: spike_kept_def)
  obtain b1 fed1 st dec' b2 where t: "client_refill s (length s) chunk b fed = (b1, fed1)"
    "zu_decoder_process dec (b1\<lparr>dst := Some out, dst_size := chunk, dst_pos := 0\<rparr>)
       (if fed1 \<ge> length s \<and> src_pos b1 = src_size b1 then ZU_FINISH else ZU_RUN) = Some (st, dec', b2)"
    and kept: "client_kept mem reg os s chunk chunk dec' b2 (dst_mem b2) fed1 (y @ take (dst_pos b2) (dst_mem b2)) st"
      "length (take (dst_pos b2) (dst_mem b2)) = dst_pos b2"
    and prog: "is_progress st \<longrightarrow> st \<noteq> ZU_STREAM_END \<longrightarrow> \<not> (dst_pos b2 = 0 \<and> (fed1 \<ge> length s \<and> src_pos b1 = src_size b1) \<and> st = ZU_NEED_INPUT) \<longrightarrow>
       client_weight (fst (the (decoder_ceiling os))) s dec' b2 fed1 < client_weight (fst (the (decoder_ceiling os))) s dec b fed"
    by (rule client_turn [OF pr len(1,2,2,3) y(1) p])
  define last_turn where "last_turn \<longleftrightarrow> fed1 \<ge> length s \<and> src_pos b1 = src_size b1"
  define n where "n = (spins + 1) mod 2 ^ 32"
  define Y where "Y = (\<lambda>k :: nat. (dec', b2, dst_mem b2, fed1, u64_add tot (dst_pos b2), spike_checksum (take (dst_pos b2) (dst_mem b2)) csum, k))"
  have step: "spike_step zu_int_api_v1 intr s (length s) chunk x =
      Some (if st = ZU_STREAM_END then Ret (Some st, Y spins)
            else if st \<noteq> ZU_OK \<and> st \<noteq> ZU_NEED_INPUT \<and> st \<noteq> ZU_NEED_OUTPUT then Ret (Some st, Y spins)
            else if dst_pos b2 = 0 \<and> last_turn \<and> st = ZU_NEED_INPUT then Ret (Some st, Y spins)
            else if n mod 64 = 0 \<and> intr n then Ret (None, Y n)
            else Next (Y n))"
    unfolding x spike_step_def prod.case t(1) api_fields Let_def t(2) option.case last_turn_def n_def Y_def by (rule refl)
  have "length (y @ take (dst_pos b2) (dst_mem b2)) \<le> 2 ^ 53"
    using client_total(2) [OF decoders_prompt_ok [OF pr] kept(1)] cap by simp
  then have add: "u64_add tot (dst_pos b2) = length (y @ take (dst_pos b2) (dst_mem b2))" using kept(2) y(2) by (simp add: UINT64_MAX_def)
  have kept': "spike_kept mem reg os s chunk (Y k) st" for k
    using kept(1) y(3) unfolding spike_kept_def Y_def prod.case add
    by (intro exI [where x = "y @ take (dst_pos b2) (dst_mem b2)"]) (simp add: spike_checksum_append)
  have less: "spike_weight (fst (the (decoder_ceiling os))) s (Y k) < spike_weight (fst (the (decoder_ceiling os))) s x"
    if g: "is_progress st" "st \<noteq> ZU_STREAM_END" "\<not> (dst_pos b2 = 0 \<and> last_turn \<and> st = ZU_NEED_INPUT)" for k
    using prog g unfolding spike_weight_def x prod.case last_turn_def Y_def by blast
  consider (ret) e k where "spike_step zu_int_api_v1 intr s (length s) chunk x = Some (Ret (e, Y k))" "e = None \<or> e = Some st"
    | (again) "spike_step zu_int_api_v1 intr s (length s) chunk x = Some (Next (Y n))" "is_progress st" "st \<noteq> ZU_STREAM_END"
      "\<not> (dst_pos b2 = 0 \<and> last_turn \<and> st = ZU_NEED_INPUT)"
  proof (cases "st = ZU_STREAM_END \<or> \<not> is_progress st \<or> dst_pos b2 = 0 \<and> last_turn \<and> st = ZU_NEED_INPUT")
    case True
    then have "spike_step zu_int_api_v1 intr s (length s) chunk x = Some (Ret (Some st, Y spins))"
      unfolding step by (cases st) simp_all
    then show thesis by (intro ret [of "Some st" spins]) simp_all
  next
    case False
    then have s1: "spike_step zu_int_api_v1 intr s (length s) chunk x =
        Some (if n mod 64 = 0 \<and> intr n then Ret (None, Y n) else Next (Y n))"
      unfolding step by (cases st) auto
    show thesis
    proof (cases "n mod 64 = 0 \<and> intr n")
      case True
      with s1 show thesis by (intro ret [of None n]) simp_all
    next
      case no: False
      with s1 have "spike_step zu_int_api_v1 intr s (length s) chunk x = Some (Next (Y n))" by (simp only: if_False)
      with False show thesis by (intro again) simp_all
    qed
  qed
  then show "(\<exists>q. spike_step zu_int_api_v1 intr s (length s) chunk x = Some (Ret q) \<and>
        (case q of (e, y) \<Rightarrow> \<exists>st. spike_kept mem reg os s chunk y st \<and> (\<forall>st'. e = Some st' \<longrightarrow> st' = st))) \<or>
      (\<exists>y. spike_step zu_int_api_v1 intr s (length s) chunk x = Some (Next y) \<and>
        (\<exists>st. spike_kept mem reg os s chunk y st \<and> is_progress st \<and> st \<noteq> ZU_STREAM_END) \<and>
        spike_weight (fst (the (decoder_ceiling os))) s y < spike_weight (fst (the (decoder_ceiling os))) s x)"
  proof cases
    case ret
    with kept' [of k] show ?thesis by auto
  next
    case again
    with kept' [of n] less [of n] show ?thesis by blast
  qed
qed

lemma spike_u64_bound: "spike_u64 v = (0, m) \<Longrightarrow> m \<le> 2 ^ 53"
proof -
  assume a: "spike_u64 v = (0, m)"
  then obtain q where q: "q \<le> two53" "m = nat \<lfloor>q\<rfloor>" by (cases v) (auto simp: spike_u64_def not_less split: if_splits)
  then have "\<lfloor>q\<rfloor> \<le> \<lfloor>two53\<rfloor>" by (intro floor_mono)
  moreover have "\<lfloor>two53\<rfloor> = 2 ^ 53" by (simp add: two53_def)
  ultimately show ?thesis unfolding q(2) by (simp only: nat_le_iff of_nat_power of_nat_numeral)
qed

text \<open>What the call promises of a decoder \<open>d\<close> that took \<open>n\<close> bytes of the body and delivered \<open>y\<close>.\<close>

definition spike_delivered ::
  "alloc \<Rightarrow> 's zu_registry \<Rightarrow> byte list \<Rightarrow> nat \<Rightarrow> nat \<Rightarrow> nat \<Rightarrow> spike_result r_end \<Rightarrow> 's zu_decoder \<Rightarrow> bool" where
  "spike_delivered mem reg s chunk m k e d \<longleftrightarrow>
     (\<exists>n y. decoder_session mem reg d (take n s) y \<and> n \<le> length s \<and> do_max_output (dec_opts d) = m \<and>
        do_max_ratio (dec_opts d) = k \<and> length y \<le> m \<and>
        (\<forall>v. e = R_value v \<longrightarrow> sp_bytes v = length y \<and> sp_checksum v = spike_checksum y 0 \<and>
           (sp_ok v \<longleftrightarrow> sp_status v = ''end of stream'') \<and> (sp_ok v \<and> length s \<le> chunk \<longrightarrow> n = length s)))"

lemma status_text_end: "zu_status_string (status_int st) = ''end of stream'' \<longleftrightarrow> st = ZU_STREAM_END"
  by (cases st) (simp_all add: status_int_def zu_status_enum_def zu_status_string_def status_of_int_def)

lemma spike_kept_delivered:
  assumes pr: "decoders_prompt I reg" and k: "spike_kept mem reg os s chunk (dec, b, out, fed, tot, csum, spins) st"
    and os: "do_max_output os = m" "m \<noteq> 0" "do_max_ratio os = k" "has_flag (do_flags os) ZU_DEC_REJECT_TRAILING"
    and e: "\<forall>v. e = R_value v \<longrightarrow> v = \<lparr>sp_ok = (st = ZU_STREAM_END), sp_bytes = tot, sp_checksum = csum,
      sp_status = zu_status_string (status_int st)\<rparr>"
    and fed: "length s \<le> chunk \<Longrightarrow> fed = length s"
  shows "spike_delivered mem reg s chunk m k e dec"
proof -
  from k obtain y fl left where kk: "feed_at (client_run s chunk chunk) b fed"
    "capped_trace mem reg os (Dec dec) (take (taken b fed) s) y st fl left"
    "tot = length y" "csum = spike_checksum y 0" "st = ZU_STREAM_END \<longrightarrow> left = src_size b - src_pos b"
    by (auto simp: spike_kept_def client_kept_def)
  from kk(2) have d: "decoder_session mem reg dec (take (taken b fed) s) y" "dec_opts dec = os"
    and z: "st = ZU_STREAM_END \<longrightarrow> left = 0" using os(4) by (auto simp: capped_trace_def session_trace_def)
  have n: "taken b fed \<le> length s" using taken_bounds(3) [OF kk(1)] by (simp add: client_run_def)
  have "length y \<le> m" using session_capped(1) [OF decoders_prompt_ok [OF pr] d(1)] d(2) os(1,2) by simp
  moreover have "taken b fed = length s" if "st = ZU_STREAM_END" "length s \<le> chunk"
    using z kk(5) fed that by (simp add: taken_def)
  ultimately show ?thesis unfolding spike_delivered_def
    using d n os(1,3) kk(3,4) e by (intro exI [where x = "taken b fed"] exI [where x = y]) (auto simp: status_text_end)
qed

text \<open>After the first turn a body that fits one chunk has been fed completely.\<close>

lemma spike_fed_all:
  assumes "run_loop (spike_step zu_int_api_v1 intr s (length s) chunk) (dec, buffer_zero, out, 0, 0, 0, 0) =
      Some (e, dec', b', out', fed', tot', csum', spins')" "length s \<le> chunk"
  shows "fed' = length s"
proof -
  let ?I = "\<lambda>x. case x of (dec, b, out, fed, tot, csum, spins) \<Rightarrow> fed_once s b fed"
  note rf = fed_once_refill [OF _ assms(2)]
  have "case (e, dec', b', out', fed', tot', csum', spins') of (e, dec, b, out, fed, rest) \<Rightarrow> fed = length s"
  proof (rule run_loop_inv [OF assms(1), where I = ?I])
    show "?I (dec, buffer_zero, out, 0, 0, 0, 0)" by (simp add: fed_once_def buffer_zero_def)
  next
    fix x y assume "?I x" and s: "spike_step zu_int_api_v1 intr s (length s) chunk x = Some (Next y)"
    then obtain dec b out fed tot csum spins b1 where x: "x = (dec, b, out, fed, tot, csum, spins)"
      and r: "client_refill s (length s) chunk b fed = (b1, length s)" using rf by (cases x) fastforce
    show "?I y" using s unfolding x by (auto simp: fed_once_def spike_step_def r Let_def split: option.splits if_splits)
  next
    fix x q assume "?I x" and s: "spike_step zu_int_api_v1 intr s (length s) chunk x = Some (Ret q)"
    then obtain dec b out fed tot csum spins b1 where x: "x = (dec, b, out, fed, tot, csum, spins)"
      and r: "client_refill s (length s) chunk b fed = (b1, length s)" using rf by (cases x) fastforce
    show "case q of (e, dec, b, out, fed, rest) \<Rightarrow> fed = length s"
      using s unfolding x by (auto simp: spike_step_def r Let_def split: option.splits if_splits)
  qed
  then show ?thesis by simp
qed

text \<open>The options a decode of a body passes to the decoder, and the loop from a decoder made with them.\<close>

definition spike_opts :: "zu_codec \<Rightarrow> nat \<Rightarrow> nat \<Rightarrow> zu_decoder_opts" where
  "spike_opts codec m k = dec_opts_zero\<lparr>do_codec := codec, do_max_output := m, do_max_ratio := k,
     do_flags := ZU_DEC_CONCAT_MEMBERS OR ZU_DEC_REJECT_TRAILING\<rparr>"

lemma spike_opts_ok:
  assumes "codec < 2 ^ 32" "spike_u64 r = (0, m)" "spike_u64 r \<noteq> (0, 0)" "spike_u32 i = (0, k)" "i < 2 ^ 31"
  shows "copy_decoder_opts (spike_opts codec m k) = spike_opts codec m k" "do_max_output (spike_opts codec m k) = m" "m \<noteq> 0"
    "do_max_ratio (spike_opts codec m k) = k" "has_flag (do_flags (spike_opts codec m k)) ZU_DEC_REJECT_TRAILING"
    "decoder_ceiling (spike_opts codec m k) \<noteq> None" "fst (the (decoder_ceiling (spike_opts codec m k))) \<le> 2 ^ 53"
proof -
  have m: "m \<le> 2 ^ 53" "m \<noteq> 0" using assms(2,3) spike_u64_bound by auto
  have "k < 2 ^ 32" using assms(4,5) by (auto simp: spike_u32_def split: if_splits)
  with m(1) assms(1) show "copy_decoder_opts (spike_opts codec m k) = spike_opts codec m k"
    by (subst copy_decoder_opts_eq) (simp_all add: spike_opts_def dec_opts_zero_def sizeof_zu_decoder_opts_def)
  show "do_max_output (spike_opts codec m k) = m" "m \<noteq> 0" "do_max_ratio (spike_opts codec m k) = k"
    "has_flag (do_flags (spike_opts codec m k)) ZU_DEC_REJECT_TRAILING"
    "decoder_ceiling (spike_opts codec m k) \<noteq> None" "fst (the (decoder_ceiling (spike_opts codec m k))) \<le> 2 ^ 53"
    using m by (simp_all add: spike_opts_def zu_flag_bits decoder_ceiling_def Let_def)
qed

lemma spike_runs:
  fixes intr :: "nat \<Rightarrow> bool"
  assumes pr: "decoders_prompt I reg" and n: "length s \<le> 2 ^ 52" "0 < chunk" "chunk < 2 ^ 31"
    and d: "zu_decoder_new mem reg os = (ZU_OK, Some d)" "copy_decoder_opts os = os"
    and of: "do_max_output os = m" "m \<noteq> 0" "do_max_ratio os = k" "has_flag (do_flags os) ZU_DEC_REJECT_TRAILING"
    and ce: "decoder_ceiling os \<noteq> None" "fst (the (decoder_ceiling os)) \<le> 2 ^ 53"
  obtains e dec b out fed tot csum spins where
    "run_loop (spike_step zu_int_api_v1 intr s (length s) chunk) (d, buffer_zero, r_alloc chunk, 0, 0, 0, 0) =
       Some (e, dec, b, out, fed, tot, csum, spins)"
    "\<forall>r. (r = (case e of None \<Rightarrow> R_interrupted | Some st \<Rightarrow> R_value \<lparr>sp_ok = (st = ZU_STREAM_END), sp_bytes = tot,
        sp_checksum = csum, sp_status = zu_status_string (status_int st)\<rparr>)) \<longrightarrow> spike_delivered mem reg s chunk m k r dec"
proof -
  have "spike_kept mem reg os s chunk (d, buffer_zero, r_alloc chunk, 0, 0, 0, 0) ZU_OK"
    using client_start [OF d ce(1), of s chunk chunk] by (auto simp: spike_kept_def spike_checksum_def)
  from spike_loop [OF pr n ce(2) this, of intr] obtain e dec b out fed tot csum spins st where
    l: "run_loop (spike_step zu_int_api_v1 intr s (length s) chunk) (d, buffer_zero, r_alloc chunk, 0, 0, 0, 0) =
        Some (e, dec, b, out, fed, tot, csum, spins)"
    and kept: "spike_kept mem reg os s chunk (dec, b, out, fed, tot, csum, spins) st" "\<forall>s. e = Some s \<longrightarrow> s = st"
    by auto
  note del = spike_kept_delivered [OF pr kept(1) of _ spike_fed_all [OF l]]
  show thesis by (rule that [OF l]) (use kept(2) in \<open>auto intro!: del split: option.splits\<close>)
qed

lemma spike_no_vector:
  assumes "zu_decoder_new mem reg os = (ZU_OK, Some d)" "copy_decoder_opts os = os" "decoder_ceiling os \<noteq> None"
  shows "spike_delivered mem reg s chunk (do_max_output os) (do_max_ratio os) R_no_memory d"
proof -
  have "decoder_session mem reg d (take 0 s) []" "dec_opts d = os"
    using client_start [OF assms, of s chunk chunk]
    by (auto simp: client_kept_def capped_trace_def session_trace_def taken_def buffer_zero_def)
  then show ?thesis unfolding spike_delivered_def by (intro exI [where x = 0] exI [where x = "[]"]) simp
qed



text \<open>A limit of a fraction of a byte is read as 0, which is no limit.\<close>

lemma spike_fraction_unlimited: "0 < q \<Longrightarrow> q < 1 \<Longrightarrow> spike_u64 (R_finite q) = (0, 0)"
  by (simp add: spike_u64_def two53_def floor_eq_iff)

end
