(* ===== verification/Zu_Fuzz.thy ===== *)
theory Zu_Fuzz
  imports Zu_Builtin Zu_Client
begin

unbundle bit_operations_syntax

text \<open>
  The fuzz targets under \<^verbatim>\<open>fuzz/\<close>: the decode loop of \<^verbatim>\<open>fuzz_common.h\<close> behind one entry point for each codec, the
  target that splits its input into chunks, the header and detection targets, and the replay of files by
  \<^verbatim>\<open>standalone_main.c\<close>. The process keeps a flag, the registry and the byte that consumed output goes to.
\<close>

subsection \<open>The shared scaffolding\<close>

definition ZU_FUZZ_MAX_OUTPUT :: nat where "ZU_FUZZ_MAX_OUTPUT = 16 * 1024 * 1024"
definition ZU_FUZZ_OUT_CHUNK :: nat where "ZU_FUZZ_OUT_CHUNK = 64 * 1024"

record 's fuzz_process =
  fz_done :: bool
  fz_reg :: "'s zu_registry"
  fz_sink :: byte

definition zu_fuzz_consume :: "byte list \<Rightarrow> nat \<Rightarrow> byte \<Rightarrow> byte" where
  "zu_fuzz_consume out n sink = (if fold (\<lambda>x acc. acc XOR x) (take n out) 0 = 0xA5 then sink + 1 else sink)"

definition zu_fuzz_init ::
  "alloc \<Rightarrow> 'm mz_engine \<Rightarrow> ('ze, 'zd) zstd_engine \<Rightarrow> ('le, 'ld) lz4_engine \<Rightarrow>
    ('m, 'ze, 'zd, 'le, 'ld) builtin_state fuzz_process \<Rightarrow> ('m, 'ze, 'zd, 'le, 'ld) builtin_state fuzz_process" where
  "zu_fuzz_init mem mz zs lz z =
     (if \<not> fz_done z
      then z\<lparr>fz_reg := snd (zu_int_register_builtin_codecs mem mz zs lz (fz_reg z)), fz_done := True\<rparr> else z)"

text \<open>Decoder, buffer, output block, bytes fed, the sink byte.\<close>

type_synonym 's fuzz_loop = "'s zu_decoder \<times> zu_buffer \<times> byte list \<times> nat \<times> byte"

definition fuzz_step :: "byte list \<Rightarrow> nat \<Rightarrow> nat \<Rightarrow> nat \<Rightarrow> 's fuzz_loop \<Rightarrow> ('s fuzz_loop, 's fuzz_loop) loop_step option" where
  "fuzz_step s n in_chunk out_chunk x =
     (case x of (dec, b, out, fed, sink) \<Rightarrow>
        (case client_refill s n in_chunk b fed of
           (b1, fed1) \<Rightarrow>
             (let last_turn = (fed1 \<ge> n \<and> src_pos b1 = src_size b1)
              in (case zu_decoder_process dec (b1\<lparr>dst := Some out, dst_size := out_chunk, dst_pos := 0\<rparr>)
                         (if last_turn then ZU_FINISH else ZU_RUN) of
                    None \<Rightarrow> None
                  | Some (st, dec', b2) \<Rightarrow>
                      (let y = (dec', b2, dst_mem b2, fed1, zu_fuzz_consume (dst_mem b2) (dst_pos b2) sink)
                       in Some (if st \<noteq> ZU_OK \<and> st \<noteq> ZU_NEED_INPUT \<and> st \<noteq> ZU_NEED_OUTPUT then Ret y
                                else if dst_pos b2 = 0 \<and> last_turn \<and> st = ZU_NEED_INPUT then Ret y
                                else Next y))))))"

text \<open>The return value, the release calls for the decoder, the process.\<close>

definition zu_fuzz_decode ::
  "alloc \<Rightarrow> 'm mz_engine \<Rightarrow> ('ze, 'zd) zstd_engine \<Rightarrow> ('le, 'ld) lz4_engine \<Rightarrow>
    ('m, 'ze, 'zd, 'le, 'ld) builtin_state fuzz_process \<Rightarrow> zu_codec \<Rightarrow> byte list \<Rightarrow> nat \<Rightarrow> nat \<Rightarrow> u32 \<Rightarrow>
    (int \<times> string list \<times> ('m, 'ze, 'zd, 'le, 'ld) builtin_state fuzz_process) option" where
  "zu_fuzz_decode mem mz zs lz z codec s in_chunk out_chunk flags =
     (let z1 = zu_fuzz_init mem mz zs lz z; n = length s;
          ic = (if in_chunk = 0 then if n \<noteq> 0 then n else 1 else in_chunk);
          oc = (if out_chunk = 0 then ZU_FUZZ_OUT_CHUNK else out_chunk);
          opts = dec_opts_zero\<lparr>do_codec := codec, do_max_output := ZU_FUZZ_MAX_OUTPUT, do_flags := flags\<rparr>
      in (case zu_decoder_new mem (fz_reg z1) opts of
            (st, d) \<Rightarrow>
              if st \<noteq> ZU_OK then Some (0, [], z1)
              else if \<not> mem ''fuzz_out'' oc then Some (0, zu_decoder_free d, z1)
              else
                (case run_loop (fuzz_step s n ic oc) (the d, buffer_zero, r_alloc oc, 0, fz_sink z1) of
                   None \<Rightarrow> None
                 | Some (dec, b, out, fed, sink) \<Rightarrow> Some (0, zu_decoder_free (Some dec), z1\<lparr>fz_sink := sink\<rparr>))))"

subsection \<open>The targets\<close>

definition member_flags :: u32 where
  "member_flags = ZU_DEC_CONCAT_MEMBERS OR ZU_DEC_REJECT_TRAILING"

definition fuzz_decode_gzip where
  "fuzz_decode_gzip mem mz zs lz z s = zu_fuzz_decode mem mz zs lz z ZU_CODEC_GZIP s 0 0 member_flags"

definition fuzz_decode_raw where
  "fuzz_decode_raw mem mz zs lz z s = zu_fuzz_decode mem mz zs lz z ZU_CODEC_DEFLATE_RAW s 0 0 member_flags"

definition fuzz_decode_zlib where
  "fuzz_decode_zlib mem mz zs lz z s = zu_fuzz_decode mem mz zs lz z ZU_CODEC_ZLIB s 0 0 member_flags"

definition fuzz_decode_zstd where
  "fuzz_decode_zstd mem mz zs lz z s = zu_fuzz_decode mem mz zs lz z ZU_CODEC_ZSTD s 0 0 member_flags"

definition fuzz_decode_lz4_frame where
  "fuzz_decode_lz4_frame mem mz zs lz z s = zu_fuzz_decode mem mz zs lz z ZU_CODEC_LZ4_FRAME s 0 0 member_flags"

definition fuzz_decode_lz4_block where
  "fuzz_decode_lz4_block mem mz zs lz z s = zu_fuzz_decode mem mz zs lz z ZU_CODEC_LZ4_BLOCK s 0 0 ZU_DEC_REJECT_TRAILING"

definition boundary_codec :: "nat \<Rightarrow> zu_codec" where
  "boundary_codec k =
     (if k = 0 then ZU_CODEC_GZIP else if k = 1 then ZU_CODEC_ZLIB else if k = 2 then ZU_CODEC_DEFLATE_RAW
      else if k = 3 then ZU_CODEC_ZSTD else if k = 4 then ZU_CODEC_LZ4_FRAME else if k = 5 then ZU_CODEC_LZ4_BLOCK
      else ZU_CODEC_IDENTITY)"

definition fuzz_stream_boundaries where
  "fuzz_stream_boundaries mem mz zs lz z s =
     (if length s < 3 then Some (0, [], z)
      else zu_fuzz_decode mem mz zs lz z (boundary_codec (unat (s ! 2) mod 7)) (drop 3 s)
             (unat (s ! 0) + 1) (unat (s ! 1) + 1) ZU_DEC_CONCAT_MEMBERS)"

definition fuzz_sniff where
  "fuzz_sniff mem mz zs lz z s =
     (let z1 = zu_fuzz_init mem mz zs lz z; ignored = zu_sniff (fz_reg z1) (Some s) (length s)
      in Some (0 :: int, [] :: string list, z1))"

text \<open>The header target feeds the parser until it is done or fails; the result is 0 on all three ways out.\<close>

fun header_target :: "zu_int_gzip_header \<Rightarrow> byte list \<Rightarrow> int" where
  "header_target h [] = 0"
| "header_target h (x # xs) =
     (case zu_int_gzip_header_feed h x of
        (st, h', finished) \<Rightarrow> if st \<noteq> ZU_OK then 0 else if finished then 0 else header_target h' xs)"

definition fuzz_gzip_header ::
  "alloc \<Rightarrow> 'm mz_engine \<Rightarrow> ('ze, 'zd) zstd_engine \<Rightarrow> ('le, 'ld) lz4_engine \<Rightarrow>
    ('m, 'ze, 'zd, 'le, 'ld) builtin_state fuzz_process \<Rightarrow> byte list \<Rightarrow>
    (int \<times> string list \<times> ('m, 'ze, 'zd, 'le, 'ld) builtin_state fuzz_process) option" where
  "fuzz_gzip_header mem mz zs lz z s = Some (header_target zu_int_gzip_header_init s, [], z)"

text \<open>\<^verbatim>\<open>main\<close> of \<^verbatim>\<open>standalone_main.c\<close> over a target: a file is its bytes, or \<open>None\<close> when any of the calls that open,
  measure, allocate for and read it fails. The exit code, how many inputs were replayed, the process.\<close>

fun standalone_main :: "('p \<Rightarrow> byte list \<Rightarrow> (int \<times> string list \<times> 'p) option) \<Rightarrow> 'p \<Rightarrow> nat \<Rightarrow> byte list option list \<Rightarrow> (int \<times> nat \<times> 'p) option" where
  "standalone_main test_one z files [] = Some (0, files, z)"
| "standalone_main test_one z files (None # fs) = Some (1, files, z)"
| "standalone_main test_one z files (Some s # fs) =
     (case test_one z s of None \<Rightarrow> None | Some (ignored, frees, z') \<Rightarrow> standalone_main test_one z' (files + 1) fs)"

subsection \<open>Every target returns on every input\<close>

definition fuzz_weight :: "nat \<Rightarrow> byte list \<Rightarrow> 's fuzz_loop \<Rightarrow> nat" where
  "fuzz_weight m s x = (case x of (dec, b, out, fed, sink) \<Rightarrow> client_weight m s dec b fed)"

definition fuzz_kept ::
  "alloc \<Rightarrow> 's zu_registry \<Rightarrow> zu_decoder_opts \<Rightarrow> byte list \<Rightarrow> nat \<Rightarrow> nat \<Rightarrow> 's fuzz_loop \<Rightarrow> zu_status \<Rightarrow> bool" where
  "fuzz_kept mem reg os s ic oc x st \<longleftrightarrow> (case x of (dec, b, out, fed, sink) \<Rightarrow> \<exists>y. client_kept mem reg os s ic oc dec b out fed y st)"

lemma fuzz_loop_returns:
  fixes x :: "'s fuzz_loop"
  assumes pr: "decoders_prompt I reg" and len: "length s \<le> 2 ^ 52" "0 < ic" "0 < oc" "oc < 2 ^ 31"
    and k: "fuzz_kept mem reg os s ic oc x ZU_OK"
  shows "\<exists>q. run_loop (fuzz_step s (length s) ic oc) x = Some q \<and> True"
proof (rule run_loop_measure [where I = "\<lambda>x. \<exists>st. fuzz_kept mem reg os s ic oc x st \<and> is_progress st \<and> st \<noteq> ZU_STREAM_END"
      and m = "fuzz_weight (fst (the (decoder_ceiling os))) s"])
  show "\<exists>st. fuzz_kept mem reg os s ic oc x st \<and> is_progress st \<and> st \<noteq> ZU_STREAM_END"
    using k by (intro exI [where x = ZU_OK]) simp
next
  fix x :: "'s fuzz_loop"
  assume "\<exists>st. fuzz_kept mem reg os s ic oc x st \<and> is_progress st \<and> st \<noteq> ZU_STREAM_END"
  then obtain st0 dec b out fed sink y where x: "x = (dec, b, out, fed, sink)"
    and k: "client_kept mem reg os s ic oc dec b out fed y st0" and p: "is_progress st0" "st0 \<noteq> ZU_STREAM_END"
    by (cases x) (auto simp: fuzz_kept_def)
  obtain b1 fed1 st dec' b2 where t: "client_refill s (length s) ic b fed = (b1, fed1)"
    "zu_decoder_process dec (b1\<lparr>dst := Some out, dst_size := oc, dst_pos := 0\<rparr>)
       (if fed1 \<ge> length s \<and> src_pos b1 = src_size b1 then ZU_FINISH else ZU_RUN) = Some (st, dec', b2)"
    and kept: "client_kept mem reg os s ic oc dec' b2 (dst_mem b2) fed1 (y @ take (dst_pos b2) (dst_mem b2)) st"
      "length (take (dst_pos b2) (dst_mem b2)) = dst_pos b2"
    and prog: "is_progress st \<longrightarrow> st \<noteq> ZU_STREAM_END \<longrightarrow> \<not> (dst_pos b2 = 0 \<and> (fed1 \<ge> length s \<and> src_pos b1 = src_size b1) \<and> st = ZU_NEED_INPUT) \<longrightarrow>
       client_weight (fst (the (decoder_ceiling os))) s dec' b2 fed1 < client_weight (fst (the (decoder_ceiling os))) s dec b fed"
    by (rule client_turn [OF pr len k p])
  define last_turn where "last_turn \<longleftrightarrow> fed1 \<ge> length s \<and> src_pos b1 = src_size b1"
  define Y where "Y = (dec', b2, dst_mem b2, fed1, zu_fuzz_consume (dst_mem b2) (dst_pos b2) sink)"
  have step: "fuzz_step s (length s) ic oc x =
      Some (if st \<noteq> ZU_OK \<and> st \<noteq> ZU_NEED_INPUT \<and> st \<noteq> ZU_NEED_OUTPUT then Ret Y
            else if dst_pos b2 = 0 \<and> last_turn \<and> st = ZU_NEED_INPUT then Ret Y else Next Y)"
    unfolding x fuzz_step_def prod.case t(1) Let_def t(2) option.case last_turn_def Y_def by (rule refl)
  show "(\<exists>q. fuzz_step s (length s) ic oc x = Some (Ret q) \<and> True) \<or>
      (\<exists>z. fuzz_step s (length s) ic oc x = Some (Next z) \<and>
        (\<exists>st. fuzz_kept mem reg os s ic oc z st \<and> is_progress st \<and> st \<noteq> ZU_STREAM_END) \<and> fuzz_weight (fst (the (decoder_ceiling os))) s z < fuzz_weight (fst (the (decoder_ceiling os))) s x)"
  proof (cases "(st = ZU_OK \<or> st = ZU_NEED_INPUT \<or> st = ZU_NEED_OUTPUT) \<and> \<not> (dst_pos b2 = 0 \<and> last_turn \<and> st = ZU_NEED_INPUT)")
    case False
    then have "fuzz_step s (length s) ic oc x = Some (Ret Y)" unfolding step by auto
    then show ?thesis by blast
  next
    case True
    then have st: "is_progress st" "st \<noteq> ZU_STREAM_END" by auto
    have "fuzz_weight (fst (the (decoder_ceiling os))) s Y < fuzz_weight (fst (the (decoder_ceiling os))) s x"
      using prog st True unfolding last_turn_def by (simp add: fuzz_weight_def x Y_def)
    moreover have "fuzz_kept mem reg os s ic oc Y st" using kept(1) by (auto simp: fuzz_kept_def Y_def)
    moreover have "fuzz_step s (length s) ic oc x = Some (Next Y)" unfolding step using True by auto
    ultimately show ?thesis using st by blast
  qed
qed

text \<open>The process between two inputs: nothing registered yet, or the built-in codecs.\<close>

definition fuzz_ready ::
  "alloc \<Rightarrow> 'm mz_engine \<Rightarrow> ('ze, 'zd) zstd_engine \<Rightarrow> ('le, 'ld) lz4_engine \<Rightarrow>
    ('m, 'ze, 'zd, 'le, 'ld) builtin_state fuzz_process \<Rightarrow> bool" where
  "fuzz_ready mem mz zs lz z \<longleftrightarrow> fz_reg z = (if fz_done z then builtin_reg mem mz zs lz else zu_registry_init)"

lemma fuzz_init_ready:
  "fuzz_ready mem mz zs lz z \<Longrightarrow> fz_done (zu_fuzz_init mem mz zs lz z) \<and> fz_reg (zu_fuzz_init mem mz zs lz z) = builtin_reg mem mz zs lz"
  by (auto simp: fuzz_ready_def zu_fuzz_init_def builtin_registered(1))

definition freed_once :: "string list \<Rightarrow> 's zu_decoder itself \<Rightarrow> bool" where
  "freed_once frees ty \<longleftrightarrow> frees = [] \<or> (\<exists>d :: 's zu_decoder. frees = zu_decoder_free (Some d))"

lemma fuzz_decode_returns:
  fixes z :: "('m, 'ze, 'zd, 'le, 'ld) builtin_state fuzz_process"
  assumes c: "engine_contracts dec mz zs lz" and z: "fuzz_ready mem mz zs lz z"
    and b: "codec < 2 ^ 32" "length s \<le> 2 ^ 52" "out_chunk < 2 ^ 31"
  shows "\<exists>frees z'. zu_fuzz_decode mem mz zs lz z codec s in_chunk out_chunk flags = Some (0, frees, z') \<and> fuzz_ready mem mz zs lz z' \<and>
    freed_once frees TYPE(('m, 'ze, 'zd, 'le, 'ld) builtin_state zu_decoder)"
proof -
  let ?r = "builtin_reg mem mz zs lz"
  define z1 where "z1 = zu_fuzz_init mem mz zs lz z"
  have z1: "fz_done z1" "fz_reg z1 = ?r" using fuzz_init_ready [OF z] by (simp_all add: z1_def)
  define ic where "ic = (if in_chunk = 0 then if length s \<noteq> 0 then length s else 1 else in_chunk)"
  define oc where "oc = (if out_chunk = 0 then ZU_FUZZ_OUT_CHUNK else out_chunk)"
  define os where "os = dec_opts_zero\<lparr>do_codec := codec, do_max_output := ZU_FUZZ_MAX_OUTPUT, do_flags := flags\<rparr>"
  have ch: "0 < ic" "0 < oc" "oc < 2 ^ 31" using b(3) by (auto simp: ic_def oc_def ZU_FUZZ_OUT_CHUNK_def)
  have o: "copy_decoder_opts os = os"
    using b(1) by (subst copy_decoder_opts_eq) (simp_all add: os_def dec_opts_zero_def sizeof_zu_decoder_opts_def ZU_FUZZ_MAX_OUTPUT_def)
  have ce: "decoder_ceiling os \<noteq> None"
    by (simp add: decoder_ceiling_def os_def ZU_FUZZ_MAX_OUTPUT_def Let_def dec_opts_zero_def)
  note defs = zu_fuzz_decode_def Let_def z1_def [symmetric] ic_def [symmetric] oc_def [symmetric] os_def [symmetric] z1(2)
  have rdy: "fuzz_ready mem mz zs lz z1" "fuzz_ready mem mz zs lz (z1\<lparr>fz_sink := k\<rparr>)" for k using z1 by (simp_all add: fuzz_ready_def)
  obtain st d where new: "zu_decoder_new mem ?r os = (st, d)" by fastforce
  show ?thesis
  proof (cases "st = ZU_OK \<and> mem ''fuzz_out'' oc")
    case False
    then have "\<exists>frees. zu_fuzz_decode mem mz zs lz z codec s in_chunk out_chunk flags = Some (0, frees, z1) \<and>
        (frees = [] \<or> st = ZU_OK \<and> frees = zu_decoder_free d)" by (auto simp: defs new)
    moreover have "st = ZU_OK \<Longrightarrow> \<exists>d'. d = Some d'" using decoder_new_none [of mem ?r os st] new by (cases d) auto
    ultimately show ?thesis using rdy(1) unfolding freed_once_def by blast
  next
    case True
    with new decoder_new_none obtain d' where d': "zu_decoder_new mem ?r os = (ZU_OK, Some d')" "d = Some d'" by (cases d) auto
    have "fuzz_kept mem ?r os s ic oc (d', buffer_zero, r_alloc oc, 0, fz_sink z1) ZU_OK"
      using client_start [OF d'(1) o ce] by (auto simp: fuzz_kept_def)
    from fuzz_loop_returns [OF builtin_prompt [OF c] b(2) ch this] obtain dec b out fed sink where
      "run_loop (fuzz_step s (length s) ic oc) (d', buffer_zero, r_alloc oc, 0, fz_sink z1) = Some (dec, b, out, fed, sink)"
      by (metis prod_cases5)
    then have "zu_fuzz_decode mem mz zs lz z codec s in_chunk out_chunk flags = Some (0, zu_decoder_free (Some dec), z1\<lparr>fz_sink := sink\<rparr>)"
      using True d' by (simp add: defs)
    then show ?thesis using rdy(2) unfolding freed_once_def by blast
  qed
qed

text \<open>The nine targets are programs of their own, each with its \<^verbatim>\<open>LLVMFuzzerTestOneInput\<close>; a statement about all of
  them ranges over this type.\<close>

datatype fuzz_target =
  Fuzz_gzip | Fuzz_raw | Fuzz_zlib | Fuzz_zstd | Fuzz_lz4_frame | Fuzz_lz4_block | Fuzz_boundaries | Fuzz_sniff | Fuzz_header

definition fuzz_test_one ::
  "fuzz_target \<Rightarrow> alloc \<Rightarrow> 'm mz_engine \<Rightarrow> ('ze, 'zd) zstd_engine \<Rightarrow> ('le, 'ld) lz4_engine \<Rightarrow>
    ('m, 'ze, 'zd, 'le, 'ld) builtin_state fuzz_process \<Rightarrow> byte list \<Rightarrow>
    (int \<times> string list \<times> ('m, 'ze, 'zd, 'le, 'ld) builtin_state fuzz_process) option" where
  "fuzz_test_one t mem mz zs lz z s =
     (case t of
        Fuzz_gzip \<Rightarrow> fuzz_decode_gzip mem mz zs lz z s | Fuzz_raw \<Rightarrow> fuzz_decode_raw mem mz zs lz z s
      | Fuzz_zlib \<Rightarrow> fuzz_decode_zlib mem mz zs lz z s | Fuzz_zstd \<Rightarrow> fuzz_decode_zstd mem mz zs lz z s
      | Fuzz_lz4_frame \<Rightarrow> fuzz_decode_lz4_frame mem mz zs lz z s | Fuzz_lz4_block \<Rightarrow> fuzz_decode_lz4_block mem mz zs lz z s
      | Fuzz_boundaries \<Rightarrow> fuzz_stream_boundaries mem mz zs lz z s | Fuzz_sniff \<Rightarrow> fuzz_sniff mem mz zs lz z s
      | Fuzz_header \<Rightarrow> fuzz_gzip_header mem mz zs lz z s)"

lemma header_target_zero: "header_target h s = 0"
  by (induction s arbitrary: h) (auto split: prod.splits)

lemma fuzz_target_returns:
  fixes z :: "('m, 'ze, 'zd, 'le, 'ld) builtin_state fuzz_process"
  assumes c: "engine_contracts dec mz zs lz" and z: "fuzz_ready mem mz zs lz z" and b: "length s \<le> 2 ^ 52"
  shows "\<exists>frees z'. fuzz_test_one t mem mz zs lz z s = Some (0, frees, z') \<and> fuzz_ready mem mz zs lz z' \<and>
    freed_once frees TYPE(('m, 'ze, 'zd, 'le, 'ld) builtin_state zu_decoder)"
proof -
  note go = fuzz_decode_returns [OF c z]
  have ready: "fuzz_ready mem mz zs lz (zu_fuzz_init mem mz zs lz z)" using fuzz_init_ready [OF z] by (simp add: fuzz_ready_def)
  have chunk: "unat (x :: byte) + 1 < 2 ^ 31" for x using unat_byte_le [of x] by simp
  have ids: "ZU_CODEC_GZIP < 2 ^ 32" "ZU_CODEC_ZLIB < 2 ^ 32" "ZU_CODEC_DEFLATE_RAW < 2 ^ 32" "ZU_CODEC_ZSTD < 2 ^ 32"
    "ZU_CODEC_LZ4_FRAME < 2 ^ 32" "ZU_CODEC_LZ4_BLOCK < 2 ^ 32" "ZU_CODEC_IDENTITY < 2 ^ 32"
    by (simp_all add: ZU_CODEC_GZIP_def ZU_CODEC_ZLIB_def ZU_CODEC_DEFLATE_RAW_def ZU_CODEC_ZSTD_def ZU_CODEC_LZ4_FRAME_def
        ZU_CODEC_LZ4_BLOCK_def ZU_CODEC_IDENTITY_def)
  show ?thesis
    by (cases t)
      (use b z ready ids chunk in \<open>auto simp: fuzz_test_one_def fuzz_decode_gzip_def fuzz_decode_raw_def fuzz_decode_zlib_def
        fuzz_decode_zstd_def fuzz_decode_lz4_frame_def fuzz_decode_lz4_block_def fuzz_stream_boundaries_def fuzz_sniff_def
        fuzz_gzip_header_def header_target_zero freed_once_def Let_def boundary_codec_def
        intro!: go [unfolded freed_once_def]\<close>)
qed



end
