(* ===== verification/Zu_Info.thy ===== *)
theory Zu_Info
  imports Zu_R
begin

text \<open>
  What R reads of the build and of the process: the versions of \<^verbatim>\<open>src/zukomp_r.c\<close>, its compile-time switches, and counters
  as a \<^verbatim>\<open>double\<close>.
\<close>

text \<open>The value of a 64-bit integer as a \<^verbatim>\<open>double\<close>: from \<open>2 ^ 53\<close> on rounded to the nearest, a tie to the even one.\<close>

definition double_of_u64 :: "nat \<Rightarrow> nat" where
  "double_of_u64 n =
     (let u = 2 ^ hd (filter (\<lambda>k. n div 2 ^ k < 2 ^ 53) [0 ..< 64]); q = n div u; r = n mod u
      in if 2 * r > u \<or> (2 * r = u \<and> odd q) then (q + 1) * u else q * u)"

definition double_of_i64 :: "int \<Rightarrow> int" where
  "double_of_i64 i = (if i < 0 then - int (double_of_u64 (nat (- i))) else int (double_of_u64 (nat i)))"

lemma double_of_u64_exact: "n < 2 ^ 53 \<Longrightarrow> double_of_u64 n = n"
  by (simp add: double_of_u64_def upt_rec Let_def)

definition zukomp_abi_version :: int where "zukomp_abi_version = int zu_abi_version"

definition zukomp_registry_generation :: "'s zu_registry \<Rightarrow> nat" where
  "zukomp_registry_generation reg = double_of_u64 (zu_int_registry_generation reg)"

definition zu_int_outbuf_live_count :: "int \<Rightarrow> int" where "zu_int_outbuf_live_count live = live"

definition zukomp_test_outbuf_live :: "int \<Rightarrow> int" where
  "zukomp_test_outbuf_live live = double_of_i64 (zu_int_outbuf_live_count live)"

text \<open>The names and the version macros of the vendored headers.\<close>

definition zukomp_vendored :: "string \<Rightarrow> string \<Rightarrow> string \<Rightarrow> (string \<times> string) list" where
  "zukomp_vendored MZ_VERSION ZSTD_VERSION_STRING LZ4_VERSION_STRING =
     zip [''miniz'', ''zstd'', ''lz4''] [MZ_VERSION, ZSTD_VERSION_STRING, LZ4_VERSION_STRING]"

text \<open>\<open>macro x\<close> is the value of the preprocessor symbol \<open>x\<close>, \<open>None\<close> when it is not defined. Most entries test whether a
  symbol is defined, the two of zstd its value.\<close>

definition zukomp_build_info :: "(string \<rightharpoonup> int) \<Rightarrow> string list" where
  "zukomp_build_info macro =
     filter (\<lambda>x. macro x \<noteq> None)
       [''MINIZ_NO_ARCHIVE_APIS'', ''MINIZ_NO_ARCHIVE_WRITING_APIS'', ''MINIZ_NO_STDIO'', ''MINIZ_NO_TIME'',
        ''MINIZ_NO_ZLIB_COMPATIBLE_NAMES'', ''MINIZ_NO_PNG_APIS'', ''MINIZ_NO_ASSERT''] @
     (case macro ''ZSTD_DISABLE_ASM'' of Some v \<Rightarrow> if v \<noteq> 0 then [''ZSTD_DISABLE_ASM''] else [] | None \<Rightarrow> []) @
     (case macro ''ZSTD_LEGACY_SUPPORT'' of
        Some v \<Rightarrow> if v = 0 then [''ZSTD_LEGACY_SUPPORT=0''] else []
      | None \<Rightarrow> [])"

text \<open>The switches of \<^verbatim>\<open>src/Makevars\<close>; \<^verbatim>\<open>-DX\<close> gives 1.\<close>

definition PKG_CPPFLAGS :: "string \<rightharpoonup> int" where
  "PKG_CPPFLAGS = map_of
     [(''MINIZ_NO_ARCHIVE_APIS'', 1), (''MINIZ_NO_ARCHIVE_WRITING_APIS'', 1), (''MINIZ_NO_STDIO'', 1), (''MINIZ_NO_TIME'', 1),
      (''MINIZ_NO_ZLIB_COMPATIBLE_NAMES'', 1), (''MINIZ_NO_PNG_APIS'', 1), (''MINIZ_NO_ASSERT'', 1), (''ZSTD_DISABLE_ASM'', 1),
      (''ZSTD_LEGACY_SUPPORT'', 0)]"

lemma shipped_build_info:
  "zukomp_build_info PKG_CPPFLAGS =
     [''MINIZ_NO_ARCHIVE_APIS'', ''MINIZ_NO_ARCHIVE_WRITING_APIS'', ''MINIZ_NO_STDIO'', ''MINIZ_NO_TIME'',
      ''MINIZ_NO_ZLIB_COMPATIBLE_NAMES'', ''MINIZ_NO_PNG_APIS'', ''MINIZ_NO_ASSERT'', ''ZSTD_DISABLE_ASM'', ''ZSTD_LEGACY_SUPPORT=0'']"
  by code_simp

end
