(* ===== verification/Zu_Zip.thy ===== *)
theory Zu_Zip
  imports Zu_Satellite Zu_Info
begin

text \<open>
  The archive consumer \<^verbatim>\<open>tools/zukomplink/src/zip_consume.c\<close>: listing the members of a ZIP file and extracting one of
  them in chunks. Miniz's ZIP reader is the record \<open>zip_reader\<close>; the archive found behind a path may be another one
  each time it is opened. The consumer's own state is how often it has opened an archive, and which of the reader's
  resources are live.
\<close>

subsection \<open>The reader, and what is live\<close>

record zip_stat =
  m_filename :: string
  m_uncomp_size :: nat
  m_comp_size :: nat
  m_time :: int

text \<open>A call that fails reports an error number; \<open>zr_read\<close> returns the bytes it stored.\<close>

record ('z, 'i) zip_reader =
  zr_init_file :: "nat \<Rightarrow> string \<Rightarrow> nat + 'z"
  zr_num_files :: "'z \<Rightarrow> nat"
  zr_file_stat :: "'z \<Rightarrow> nat \<Rightarrow> nat + zip_stat"
  zr_locate :: "'z \<Rightarrow> string \<Rightarrow> nat option"
  zr_iter_new :: "'z \<Rightarrow> nat \<Rightarrow> nat + 'i"
  zr_read :: "'i \<Rightarrow> nat \<Rightarrow> byte list \<times> 'i"
  zr_iter_free :: "'i \<Rightarrow> bool"
  zr_error_string :: "nat \<Rightarrow> string"
  zr_version :: string

record zip_live =
  zl_opened :: nat
  zl_archives :: int
  zl_iterators :: int

definition ZL_MAX_OUTPUT :: nat where "ZL_MAX_OUTPUT = 16 * 1024 * 1024"
definition ZL_MAX_MEMBERS :: nat where "ZL_MAX_MEMBERS = 1024"

definition zl_last_error :: "('z, 'i) zip_reader \<Rightarrow> nat \<Rightarrow> string" where
  "zl_last_error e code = zr_error_string e code"

definition zl_prefix :: "string \<Rightarrow> string" where "zl_prefix err = ''zukomplink: '' @ err"

text \<open>\<^verbatim>\<open>mz_zip_reader_init_file\<close> on a zeroed handle, and \<^verbatim>\<open>mz_zip_reader_end\<close>, which has nothing to release when the
  former failed.\<close>

definition zl_init_file :: "('z, 'i) zip_reader \<Rightarrow> zip_live \<Rightarrow> string \<Rightarrow> (nat + 'z) \<times> zip_live" where
  "zl_init_file e l path =
     (case zr_init_file e (zl_opened l) path of
        Inl code \<Rightarrow> (Inl code, l\<lparr>zl_opened := zl_opened l + 1\<rparr>)
      | Inr arch \<Rightarrow> (Inr arch, l\<lparr>zl_opened := zl_opened l + 1, zl_archives := zl_archives l + 1\<rparr>))"

definition zl_reader_end :: "nat + 'z \<Rightarrow> zip_live \<Rightarrow> zip_live" where
  "zl_reader_end arch l = (case arch of Inl _ \<Rightarrow> l | Inr _ \<Rightarrow> l\<lparr>zl_archives := zl_archives l - 1\<rparr>)"

subsection \<open>Listing the members\<close>

definition zl_count :: "('z, 'i) zip_reader \<Rightarrow> zip_live \<Rightarrow> string \<Rightarrow> (string + nat) \<times> zip_live" where
  "zl_count e l path =
     (case zl_init_file e l path of
        (Inl code, l1) \<Rightarrow> (Inl (zl_last_error e code), zl_reader_end (Inl code :: nat + 'z) l1)
      | (Inr arch, l1) \<Rightarrow>
          (let n = zr_num_files e arch; l2 = zl_reader_end (Inr arch :: nat + 'z) l1
           in if n > ZL_MAX_MEMBERS then (Inl ''archive claims more members than this fixture will read'', l2) else (Inr n, l2)))"

type_synonym zip_row = "string \<times> nat \<times> nat \<times> int"

definition zip_row :: "zip_stat \<Rightarrow> zip_row" where
  "zip_row st = (m_filename st, double_of_u64 (m_uncomp_size st), double_of_u64 (m_comp_size st), double_of_i64 (m_time st))"

text \<open>The filling pass. \<^verbatim>\<open>Rf_mkChar\<close> allocates, so it may leave by a longjmp.\<close>

fun zl_fill :: "('z, 'i) zip_reader \<Rightarrow> (string \<Rightarrow> bool) \<Rightarrow> 'z \<Rightarrow> nat list \<Rightarrow> zip_row list \<Rightarrow> zip_row list r_end" where
  "zl_fill e mk arch [] rows = R_value rows"
| "zl_fill e mk arch (i # is) rows =
     (case zr_file_stat e arch i of
        Inl code \<Rightarrow> R_error (zl_last_error e code)
      | Inr st \<Rightarrow> if \<not> mk (m_filename st) then R_no_memory else zl_fill e mk arch is (rows @ [zip_row st]))"

text \<open>The four columns, then the list and its names.\<close>

definition C_zip_members ::
  "('z, 'i) zip_reader \<Rightarrow> (nat \<Rightarrow> bool) \<Rightarrow> (string \<Rightarrow> bool) \<Rightarrow> zip_live \<Rightarrow> sexp \<Rightarrow> zip_row list r_end \<times> zip_live" where
  "C_zip_members e vec mk l r_path =
     (case zl_count e l (r_char0 r_path) of
        (Inl err, l1) \<Rightarrow> (R_error (zl_prefix err), l1)
      | (Inr n, l1) \<Rightarrow>
          if \<not> vec n then (R_no_memory, l1)
          else (case zl_init_file e l1 (r_char0 r_path) of
                  (Inl code, l2) \<Rightarrow> (R_error (zl_prefix (zl_last_error e code)), zl_reader_end (Inl code :: nat + 'z) l2)
                | (Inr arch, l2) \<Rightarrow>
                    (case zl_fill e mk arch [0 ..< n] [] of
                       R_value rows \<Rightarrow>
                         (let l3 = zl_reader_end (Inr arch :: nat + 'z) l2
                          in if vec 4 \<and> mk ''name'' \<and> mk ''uncomp_size'' \<and> mk ''comp_size'' \<and> mk ''mtime''
                             then (R_value rows, l3) else (R_no_memory, l3))
                     | R_error err \<Rightarrow> (R_error (zl_prefix err), zl_reader_end (Inr arch :: nat + 'z) l2)
                     | z \<Rightarrow> (z, l2))))"

subsection \<open>Extracting a member\<close>

definition zl_locate :: "('z, 'i) zip_reader \<Rightarrow> zip_live \<Rightarrow> string \<Rightarrow> string \<Rightarrow> (string + nat \<times> nat) \<times> zip_live" where
  "zl_locate e l path name =
     (case zl_init_file e l path of
        (Inl code, l1) \<Rightarrow> (Inl (zl_last_error e code), zl_reader_end (Inl code :: nat + 'z) l1)
      | (Inr arch, l1) \<Rightarrow>
          (let l2 = zl_reader_end (Inr arch :: nat + 'z) l1
           in case zr_locate e arch name of
                None \<Rightarrow> (Inl ''no such member in the archive'', l2)
              | Some index \<Rightarrow>
                  (case zr_file_stat e arch index of
                     Inl code \<Rightarrow> (Inl (zl_last_error e code), l2)
                   | Inr st \<Rightarrow>
                       if m_uncomp_size st > ZL_MAX_OUTPUT
                       then (Inl ''member claims to decompress past this fixture's output cap'', l2)
                       else (Inr (index, m_uncomp_size st), l2))))"

text \<open>Iterator, the raw vector, the bytes read.\<close>

definition zip_step ::
  "('z, 'i) zip_reader \<Rightarrow> nat \<Rightarrow> nat \<Rightarrow> 'i \<times> byte list \<times> nat \<Rightarrow> ('i \<times> byte list \<times> nat, 'i \<times> byte list \<times> nat) loop_step option" where
  "zip_step e want chunk x =
     (case x of (iter, ans, tot) \<Rightarrow>
        (let room = u64_sub want tot; ask = (if room < chunk then room else chunk)
         in Some (if ask = 0 then Ret x
                  else (case zr_read e iter ask of
                          (got, iter') \<Rightarrow>
                            if length got = 0 then Ret (iter', ans, tot)
                            else Next (iter', write_at ans tot got, u64_add tot (length got))))))"

definition zip_chunk :: "int \<Rightarrow> nat \<Rightarrow> nat" where
  "zip_chunk chunk_arg want = (let chunk = (if chunk_arg > 0 then nat chunk_arg else want) in if chunk = 0 then 1 else chunk)"

definition C_zip_extract ::
  "('z, 'i) zip_reader \<Rightarrow> (nat \<Rightarrow> bool) \<Rightarrow> zip_live \<Rightarrow> sexp \<Rightarrow> sexp \<Rightarrow> sexp \<Rightarrow> (byte list r_end \<times> zip_live) option" where
  "C_zip_extract e vec l r_path r_name r_chunk =
     (case zl_locate e l (r_char0 r_path) (r_char0 r_name) of
        (Inl err, l1) \<Rightarrow> Some (R_error (zl_prefix err), l1)
      | (Inr (index, want), l1) \<Rightarrow>
          if \<not> vec want then Some (R_no_memory, l1)
          else (case zl_init_file e l1 (r_char0 r_path) of
                  (Inl code, l2) \<Rightarrow> Some (R_error (zl_prefix (zl_last_error e code)), zl_reader_end (Inl code :: nat + 'z) l2)
                | (Inr arch, l2) \<Rightarrow>
                    (case zr_iter_new e arch index of
                       Inl code \<Rightarrow> Some (R_error (zl_prefix (zl_last_error e code)), zl_reader_end (Inr arch :: nat + 'z) l2)
                     | Inr iter \<Rightarrow>
                         (let l3 = l2\<lparr>zl_iterators := zl_iterators l2 + 1\<rparr>
                          in case run_loop (zip_step e want (zip_chunk (x_int r_chunk) want)) (iter, r_alloc want, 0) of
                               None \<Rightarrow> None
                             | Some (iter', ans, tot) \<Rightarrow>
                                 (let good = zr_iter_free e iter';
                                      l4 = zl_reader_end (Inr arch :: nat + 'z) (l3\<lparr>zl_iterators := zl_iterators l3 - 1\<rparr>)
                                  in Some (if \<not> good then R_error (zl_prefix ''member failed its CRC-32 check'')
                                           else if tot \<noteq> want
                                           then R_error (zl_prefix ''member decompressed to a different size than it declared'')
                                           else R_value ans, l4))))))"

definition C_miniz_version :: "('z, 'i) zip_reader \<Rightarrow> string" where
  "C_miniz_version e = zr_version e"

subsection \<open>What the consumer relies on, and what it guarantees\<close>

text \<open>The pull interface of the reader: an iterator stands at the bytes it has yet to deliver, and a read stores at most
  what was asked for, from the front of them.\<close>

definition zip_contract :: "('i \<Rightarrow> byte list \<Rightarrow> bool) \<Rightarrow> ('z, 'i) zip_reader \<Rightarrow> bool" where
  "zip_contract stands e \<longleftrightarrow>
     (\<forall>arch i iter. zr_iter_new e arch i = Inr iter \<longrightarrow> (\<exists>c. stands iter c)) \<and>
     (\<forall>iter c c'. stands iter c \<longrightarrow> stands iter c' \<longrightarrow> c = c') \<and>
     (\<forall>iter c k got iter'. stands iter c \<longrightarrow> zr_read e iter k = (got, iter') \<longrightarrow>
        length got \<le> k \<and> (\<exists>c'. c = got @ c' \<and> stands iter' c'))"

definition zip_released :: "zip_live \<Rightarrow> zip_live \<Rightarrow> bool" where
  "zip_released l l' \<longleftrightarrow> zl_archives l' = zl_archives l \<and> zl_iterators l' = zl_iterators l"

definition zip_read_at :: "('i \<Rightarrow> byte list \<Rightarrow> bool) \<Rightarrow> byte list \<Rightarrow> nat \<Rightarrow> 'i \<times> byte list \<times> nat \<Rightarrow> bool" where
  "zip_read_at stands c want x \<longleftrightarrow>
     (case x of (iter, ans, tot) \<Rightarrow> length ans = want \<and> tot \<le> want \<and> tot \<le> length c \<and> take tot ans = take tot c \<and> stands iter (drop tot c))"

lemma zip_loop:
  assumes c: "zip_contract stands e" and "0 < chunk" "want \<le> ZL_MAX_OUTPUT" "stands iter c"
  shows "\<exists>q. run_loop (zip_step e want chunk) (iter, r_alloc want, 0) = Some q \<and> zip_read_at stands c want q"
proof (rule run_loop_measure [where I = "zip_read_at stands c want" and m = "\<lambda>x. want - snd (snd x)"])
  show "zip_read_at stands c want (iter, r_alloc want, 0)" using assms(4) by (simp add: zip_read_at_def r_alloc_def)
next
  fix x :: "'a \<times> byte list \<times> nat" assume k: "zip_read_at stands c want x"
  obtain it ans tot where x: "x = (it, ans, tot)" by (rule prod_cases3)
  from k x have k: "length ans = want" "tot \<le> want" "tot \<le> length c" "take tot ans = take tot c" "stands it (drop tot c)"
    by (simp_all add: zip_read_at_def)
  have room: "u64_sub want tot = want - tot" using k(2) assms(3) by (simp add: u64_sub_def u64_of_def UINT64_MAX_def ZL_MAX_OUTPUT_def)
  define ask where "ask = (if want - tot < chunk then want - tot else chunk)"
  obtain got it' where r: "zr_read e it ask = (got, it')" by fastforce
  have step: "zip_step e want chunk x =
      Some (if ask = 0 then Ret x else if length got = 0 then Ret (it', ans, tot)
            else Next (it', write_at ans tot got, u64_add tot (length got)))"
    unfolding zip_step_def x prod.case Let_def room ask_def [symmetric] r by (rule refl)
  show "(\<exists>q. zip_step e want chunk x = Some (Ret q) \<and> zip_read_at stands c want q) \<or>
      (\<exists>z. zip_step e want chunk x = Some (Next z) \<and> zip_read_at stands c want z \<and> want - snd (snd z) < want - snd (snd x))"
  proof (cases "ask = 0")
    case True
    then show ?thesis using k by (simp add: step [unfolded x] x zip_read_at_def)
  next
    case False
    from c k(5) r obtain c' where g: "length got \<le> ask" "drop tot c = got @ c'" "stands it' c'"
      unfolding zip_contract_def by blast
    have fit: "tot + length got \<le> want" using g(1) k(2) by (auto simp: ask_def split: if_splits)
    have len: "tot + length got \<le> length c" using arg_cong [OF g(2), of length] k(3) by simp
    have c': "c' = drop (tot + length got) c" using g(2) by (metis append_eq_conv_conj drop_drop add.commute)
    have t: "take (tot + length got) c = take tot c @ got" using g(2) by (metis append_eq_conv_conj take_add)
    have "take (tot + length got) (write_at ans tot got) = take (tot + length got) c"
      unfolding t using k(1-4) fit by (simp add: write_at_def)
    moreover have "u64_add tot (length got) = tot + length got"
      using fit assms(3) by (simp add: u64_add_def u64_of_def UINT64_MAX_def ZL_MAX_OUTPUT_def)
    moreover have "length (write_at ans tot got) = want" using fit k(1) by simp
    ultimately show ?thesis
    proof (cases "got = []")
      case True
      then have "zip_read_at stands c want (it', ans, tot)" using g(3) k by (simp add: zip_read_at_def c')
      then show ?thesis using False True by (simp add: step)
    next
      case got: False
      have "zip_read_at stands c want (it', write_at ans tot got, tot + length got)"
        using g(3) fit len \<open>take (tot + length got) (write_at ans tot got) = take (tot + length got) c\<close>
          \<open>length (write_at ans tot got) = want\<close> by (simp add: zip_read_at_def c')
      moreover have "want - (tot + length got) < want - tot" using got fit by (cases got) auto
      ultimately show ?thesis using False got \<open>u64_add tot (length got) = tot + length got\<close> by (simp add: step [unfolded x] x)
    qed
  qed
qed

lemma zip_chunk_pos: "0 < zip_chunk k want"
  by (simp add: zip_chunk_def Let_def)

text \<open>What a member is: found in the archive as it is opened first, read from the archive as it is opened second.\<close>

definition zip_member ::
  "('i \<Rightarrow> byte list \<Rightarrow> bool) \<Rightarrow> ('z, 'i) zip_reader \<Rightarrow> nat \<Rightarrow> string \<Rightarrow> string \<Rightarrow> byte list \<Rightarrow> bool" where
  "zip_member stands e k path name bs \<longleftrightarrow>
     (\<exists>first second index st iter rest iter'.
        zr_init_file e k path = Inr first \<and> zr_locate e first name = Some index \<and> zr_file_stat e first index = Inr st \<and>
        m_uncomp_size st = length bs \<and> zr_init_file e (k + 1) path = Inr second \<and> zr_iter_new e second index = Inr iter \<and>
        stands iter (bs @ rest) \<and> stands iter' rest \<and> zr_iter_free e iter')"

lemma zip_member_unique:
  assumes "zip_contract stands e" "zip_member stands e k path name bs" "zip_member stands e k path name bs'"
  shows "bs = bs'"
  using assms unfolding zip_contract_def zip_member_def by (metis Inr_inject append_eq_append_conv option.inject)

lemma zl_locate_cases:
  "(\<exists>err l1. zl_locate e l path name = (Inl err, l1) \<and> zip_released l l1) \<or>
   (\<exists>arch index st. zl_locate e l path name = (Inr (index, m_uncomp_size st), l\<lparr>zl_opened := zl_opened l + 1\<rparr>) \<and>
      zr_init_file e (zl_opened l) path = Inr arch \<and> zr_locate e arch name = Some index \<and> zr_file_stat e arch index = Inr st \<and>
      m_uncomp_size st \<le> ZL_MAX_OUTPUT)"
  by (auto simp: zl_locate_def zl_init_file_def zl_reader_end_def zip_released_def Let_def split: sum.splits option.splits)

lemma zip_extract_opened:
  assumes "zl_locate e l (r_char0 r_path) (r_char0 r_name) = (Inr (index, want), l\<lparr>zl_opened := zl_opened l + 1\<rparr>)" "vec want"
    "zr_init_file e (zl_opened l + 1) (r_char0 r_path) = Inr second" "zr_iter_new e second index = Inr iter"
    "run_loop (zip_step e want (zip_chunk (x_int r_chunk) want)) (iter, r_alloc want, 0) = Some (it, ans, tot)"
  shows "C_zip_extract e vec l r_path r_name r_chunk =
      Some (if \<not> zr_iter_free e it then R_error (zl_prefix ''member failed its CRC-32 check'')
            else if tot \<noteq> want then R_error (zl_prefix ''member decompressed to a different size than it declared'')
            else R_value ans, l\<lparr>zl_opened := zl_opened l + 2\<rparr>)"
  unfolding C_zip_extract_def assms(1) using assms(2-5) by (simp add: zl_init_file_def zl_reader_end_def Let_def)

lemma zip_extract_refused:
  assumes "zl_locate e l (r_char0 r_path) (r_char0 r_name) = (Inr (index, want), l\<lparr>zl_opened := zl_opened l + 1\<rparr>)"
    "\<nexists>second iter. vec want \<and> zr_init_file e (zl_opened l + 1) (r_char0 r_path) = Inr second \<and> zr_iter_new e second index = Inr iter"
  shows "\<exists>res l'. C_zip_extract e vec l r_path r_name r_chunk = Some (res, l') \<and> zip_released l l' \<and> (\<forall>bs. res \<noteq> R_value bs)"
  unfolding C_zip_extract_def assms(1) using assms(2)
  by (auto simp: zl_init_file_def zl_reader_end_def zip_released_def split: sum.splits)

lemma zip_extract_one:
  assumes c: "zip_contract stands e"
  shows "\<exists>res l'. C_zip_extract e vec l r_path r_name r_chunk = Some (res, l') \<and> zip_released l l' \<and>
    (\<forall>bs. res = R_value bs \<longrightarrow>
       length bs \<le> ZL_MAX_OUTPUT \<and> zip_member stands e (zl_opened l) (r_char0 r_path) (r_char0 r_name) bs)"
proof -
  let ?p = "r_char0 r_path" and ?n = "r_char0 r_name"
  from zl_locate_cases [of e l ?p ?n] consider
    (refused) err l1 where "zl_locate e l ?p ?n = (Inl err, l1)" "zip_released l l1"
  | (found) arch index st where "zl_locate e l ?p ?n = (Inr (index, m_uncomp_size st), l\<lparr>zl_opened := zl_opened l + 1\<rparr>)"
      "zr_init_file e (zl_opened l) ?p = Inr arch" "zr_locate e arch ?n = Some index" "zr_file_stat e arch index = Inr st"
      "m_uncomp_size st \<le> ZL_MAX_OUTPUT" by blast
  then show ?thesis
  proof cases
    case refused
    then show ?thesis by (simp add: C_zip_extract_def)
  next
    case found
    define want where "want = m_uncomp_size st"
    note loc = found(1) [folded want_def]
    show ?thesis
    proof (cases "\<exists>second iter. vec want \<and> zr_init_file e (zl_opened l + 1) ?p = Inr second \<and> zr_iter_new e second index = Inr iter")
      case False
      from zip_extract_refused [OF loc, of vec r_chunk] False show ?thesis by blast
    next
      case True
      then obtain second iter where s: "vec want" "zr_init_file e (zl_opened l + 1) ?p = Inr second" "zr_iter_new e second index = Inr iter"
        by blast
      from c s(3) obtain body where st: "stands iter body" unfolding zip_contract_def by blast
      from zip_loop [OF c zip_chunk_pos found(5) [folded want_def] st] obtain q where
        "run_loop (zip_step e want (zip_chunk (x_int r_chunk) want)) (iter, r_alloc want, 0) = Some q" "zip_read_at stands body want q"
        by blast
      moreover obtain it ans tot where "q = (it, ans, tot)" by (rule prod_cases3)
      ultimately have q: "run_loop (zip_step e want (zip_chunk (x_int r_chunk) want)) (iter, r_alloc want, 0) = Some (it, ans, tot)"
        and k: "length ans = want" "tot \<le> length body" "take tot ans = take tot body" "stands it (drop tot body)"
        by (simp_all add: zip_read_at_def)
      have member: "zip_member stands e (zl_opened l) ?p ?n ans" if "zr_iter_free e it" "tot = want"
      proof -
        have "take tot body = ans" using k(1,3) that(2) by simp
        then have "body = ans @ drop tot body" by (metis append_take_drop_id)
        moreover have "m_uncomp_size st = length ans" using k(1) by (simp add: want_def)
        ultimately show ?thesis unfolding zip_member_def using found(2-4) s(2,3) st k(4) that(1) by metis
      qed
      note eq = zip_extract_opened [where r_chunk = r_chunk and r_path = r_path and r_name = r_name and l = l and vec = vec, OF loc s q]
      show ?thesis unfolding eq using member found(5) k(1) by (auto simp: zip_released_def want_def [symmetric])
    qed
  qed
qed

text \<open>C31: Extracting a member. On a reader that keeps its contract every call returns and releases what it opened. A
  success is exactly as many bytes as the member declares, at most 16 MiB, the ones the reader delivers for it, and the
  reader's check of them passed; the chunk size does not change them.\<close>

theorem zip_extract_exact:
  assumes c: "zip_contract stands e"
  shows "\<exists>res l'. C_zip_extract e vec l r_path r_name r_chunk = Some (res, l') \<and> zip_released l l' \<and>
    (\<forall>bs. res = R_value bs \<longrightarrow>
       length bs \<le> ZL_MAX_OUTPUT \<and> zip_member stands e (zl_opened l) (r_char0 r_path) (r_char0 r_name) bs \<and>
       (\<forall>other_chunk bs' l''. C_zip_extract e vec l r_path r_name other_chunk = Some (R_value bs', l'') \<longrightarrow> bs' = bs))"
proof -
  have "bs' = bs" if "zip_member stands e (zl_opened l) (r_char0 r_path) (r_char0 r_name) bs"
    "C_zip_extract e vec l r_path r_name ch = Some (R_value bs', l'')" for bs bs' ch l''
    using zip_extract_one [OF c, of vec l r_path r_name ch] that zip_member_unique [OF c] by fastforce
  with zip_extract_one [OF c, of vec l r_path r_name r_chunk] show ?thesis by metis
qed

subsection \<open>An archive in memory\<close>

definition demo_stat :: "string \<times> byte list \<Rightarrow> zip_stat" where
  "demo_stat x = \<lparr>m_filename = fst x, m_uncomp_size = length (snd x), m_comp_size = length (snd x), m_time = 0\<rparr>"

definition demo_zip :: "(string \<times> byte list) list \<Rightarrow> ((string \<times> byte list) list, byte list) zip_reader" where
  "demo_zip members =
     \<lparr>zr_init_file = (\<lambda>k path. if path = ''a.zip'' then Inr members else Inl 1),
      zr_num_files = List.length,
      zr_file_stat = (\<lambda>arch i. if i < length arch then Inr (demo_stat (arch ! i)) else Inl 2),
      zr_locate = (\<lambda>arch name. map_option fst (find (\<lambda>(i, m). fst m = name) (enumerate 0 arch))),
      zr_iter_new = (\<lambda>arch i. if i < length arch then Inr (snd (arch ! i)) else Inl 3),
      zr_read = (\<lambda>rest k. (take k rest, drop k rest)),
      zr_iter_free = (\<lambda>rest. rest = []),
      zr_error_string = (\<lambda>code. ''invalid archive''),
      zr_version = ''11.0.2''\<rparr>"

definition demo_live :: zip_live where "demo_live = \<lparr>zl_opened = 0, zl_archives = 0, zl_iterators = 0\<rparr>"

lemma demo_zip_contract: "zip_contract (=) (demo_zip members)"
  by (auto simp: zip_contract_def demo_zip_def)

lemma zip_extract_exact_witness:
  "zip_contract (=) (demo_zip [(''a'', [1]), (''b'', [2, 3, 4])]) \<and>
   C_zip_extract (demo_zip [(''a'', [1]), (''b'', [2, 3, 4])]) (\<lambda>n. True) demo_live (r_string ''a.zip'') (r_string ''b'') (R_NilValue\<lparr>x_int := 2\<rparr>) =
     Some (R_value [2, 3, 4], \<lparr>zl_opened = 2, zl_archives = 0, zl_iterators = 0\<rparr>) \<and>
   zip_member (=) (demo_zip [(''a'', [1]), (''b'', [2, 3, 4])]) 0 ''a.zip'' ''b'' [2, 3, 4]"
proof -
  have run: "C_zip_extract (demo_zip [(''a'', [1]), (''b'', [2, 3, 4])]) (\<lambda>n. True) demo_live (r_string ''a.zip'') (r_string ''b'') (R_NilValue\<lparr>x_int := 2\<rparr>) =
     Some (R_value [2, 3, 4], \<lparr>zl_opened = 2, zl_archives = 0, zl_iterators = 0\<rparr>)" by code_simp
  from zip_extract_exact [OF demo_zip_contract, of "[(''a'', [1]), (''b'', [2, 3, 4])]" "\<lambda>n. True" demo_live "r_string ''a.zip''" "r_string ''b''" "R_NilValue\<lparr>x_int := 2\<rparr>"]
  have "zip_member (=) (demo_zip [(''a'', [1]), (''b'', [2, 3, 4])]) 0 (r_char0 (r_string ''a.zip'')) (r_char0 (r_string ''b'')) [2, 3, 4]"
    unfolding run by (simp add: demo_live_def)
  then show ?thesis using run demo_zip_contract by (simp add: r_char0_def r_string_def)
qed

subsection \<open>The listing\<close>

lemma zl_fill_value:
  "zl_fill e mk arch is acc = R_value rows \<longleftrightarrow>
     (\<forall>i \<in> set is. \<exists>st. zr_file_stat e arch i = Inr st \<and> mk (m_filename st)) \<and>
     rows = acc @ map (\<lambda>i. zip_row (projr (zr_file_stat e arch i))) is"
  by (induction "is" arbitrary: acc) (auto split: sum.splits)

lemma zl_fill_no_interrupt: "zl_fill e mk arch is acc \<noteq> R_interrupted"
  by (induction "is" arbitrary: acc) (auto split: sum.splits)

lemma zl_count_cases:
  "(\<exists>err l1. zl_count e l path = (Inl err, l1) \<and> zip_released l l1) \<or>
   (\<exists>arch. zl_count e l path = (Inr (zr_num_files e arch), l\<lparr>zl_opened := zl_opened l + 1\<rparr>) \<and>
      zr_init_file e (zl_opened l) path = Inr arch \<and> zr_num_files e arch \<le> ZL_MAX_MEMBERS)"
  by (auto simp: zl_count_def zl_init_file_def zl_reader_end_def zip_released_def Let_def split: sum.splits)

text \<open>A listing has a row for each member counted by the first pass, at most 1024, as the second pass finds it. Only
  R's own allocation failure may keep the archive open.\<close>

theorem zip_members_exact:
  assumes m: "C_zip_members e vec mk l r_path = (res, l')"
  shows "zl_iterators l' = zl_iterators l" "res \<noteq> R_no_memory \<Longrightarrow> zip_released l l'"
    "res = R_value rows \<Longrightarrow> \<exists>first second.
       zr_init_file e (zl_opened l) (r_char0 r_path) = Inr first \<and> zr_init_file e (zl_opened l + 1) (r_char0 r_path) = Inr second \<and>
       length rows = zr_num_files e first \<and> length rows \<le> ZL_MAX_MEMBERS \<and>
       (\<forall>i < length rows. \<exists>st. zr_file_stat e second i = Inr st \<and> rows ! i = zip_row st)"
proof -
  let ?p = "r_char0 r_path"
  have "zl_iterators l' = zl_iterators l \<and> (res \<noteq> R_no_memory \<longrightarrow> zip_released l l') \<and>
    (\<forall>rows. res = R_value rows \<longrightarrow> (\<exists>first second.
       zr_init_file e (zl_opened l) ?p = Inr first \<and> zr_init_file e (zl_opened l + 1) ?p = Inr second \<and>
       length rows = zr_num_files e first \<and> length rows \<le> ZL_MAX_MEMBERS \<and>
       (\<forall>i < length rows. \<exists>st. zr_file_stat e second i = Inr st \<and> rows ! i = zip_row st)))"
  proof (rule disjE [OF zl_count_cases [of e l ?p]])
    assume "\<exists>err l1. zl_count e l ?p = (Inl err, l1) \<and> zip_released l l1"
    then show ?thesis using m by (auto simp: C_zip_members_def zip_released_def)
  next
    assume "\<exists>arch. zl_count e l ?p = (Inr (zr_num_files e arch), l\<lparr>zl_opened := zl_opened l + 1\<rparr>) \<and>
      zr_init_file e (zl_opened l) ?p = Inr arch \<and> zr_num_files e arch \<le> ZL_MAX_MEMBERS"
    then obtain arch where c: "zl_count e l ?p = (Inr (zr_num_files e arch), l\<lparr>zl_opened := zl_opened l + 1\<rparr>)"
      "zr_init_file e (zl_opened l) ?p = Inr arch" "zr_num_files e arch \<le> ZL_MAX_MEMBERS" by blast
    show ?thesis
    proof (cases "zr_init_file e (zl_opened l + 1) ?p")
      case (Inl code)
      then show ?thesis using m by (auto simp: C_zip_members_def c(1) zl_init_file_def zl_reader_end_def zip_released_def split: if_splits)
    next
      case (Inr second)
      define f where "f = zl_fill e mk second [0 ..< zr_num_files e arch] []"
      have "f = R_value rows \<Longrightarrow> length rows = zr_num_files e arch \<and> (\<forall>i < length rows. \<exists>st. zr_file_stat e second i = Inr st \<and> rows ! i = zip_row st)"
        for rows unfolding f_def zl_fill_value by fastforce
      moreover have "f \<noteq> R_interrupted" unfolding f_def by (rule zl_fill_no_interrupt)
      ultimately show ?thesis using m c(2,3) Inr
        by (cases f) (auto simp: C_zip_members_def c(1) zl_init_file_def zl_reader_end_def zip_released_def Let_def f_def [symmetric] split: if_splits)
    qed
  qed
  then show "zl_iterators l' = zl_iterators l" "res \<noteq> R_no_memory \<Longrightarrow> zip_released l l'"
    "res = R_value rows \<Longrightarrow> \<exists>first second.
       zr_init_file e (zl_opened l) (r_char0 r_path) = Inr first \<and> zr_init_file e (zl_opened l + 1) (r_char0 r_path) = Inr second \<and>
       length rows = zr_num_files e first \<and> length rows \<le> ZL_MAX_MEMBERS \<and>
       (\<forall>i < length rows. \<exists>st. zr_file_stat e second i = Inr st \<and> rows ! i = zip_row st)" by blast+
qed

text \<open>C33: The listing can leave the archive open: \<^verbatim>\<open>Rf_mkChar\<close> allocates inside the filling pass, so when R has no memory
  for the name of a member the longjmp skips the end of the reader, and its memory and its \<^verbatim>\<open>FILE\<close> stay behind.\<close>

theorem zip_members_leaks:
  assumes "zr_init_file e (zl_opened l) (r_char0 r_path) = Inr first" "0 < zr_num_files e first" "zr_num_files e first \<le> ZL_MAX_MEMBERS"
    "vec (zr_num_files e first)" "zr_init_file e (zl_opened l + 1) (r_char0 r_path) = Inr second"
    "zr_file_stat e second 0 = Inr st" "\<not> mk (m_filename st)"
  shows "C_zip_members e vec mk l r_path = (R_no_memory, l\<lparr>zl_opened := zl_opened l + 2, zl_archives := zl_archives l + 1\<rparr>)"
proof -
  have "[0 ..< zr_num_files e first] = 0 # [1 ..< zr_num_files e first]" using assms(2) by (simp add: upt_rec)
  then show ?thesis using assms by (simp add: C_zip_members_def zl_count_def zl_init_file_def zl_reader_end_def Let_def)
qed

lemma zip_members_leaks_witness:
  "C_zip_members (demo_zip [(''a'', [1])]) (\<lambda>n. True) (\<lambda>s. s \<noteq> ''a'') demo_live (r_string ''a.zip'') =
     (R_no_memory, \<lparr>zl_opened = 2, zl_archives = 1, zl_iterators = 0\<rparr>)"
  using zip_members_leaks [of "demo_zip [(''a'', [1])]" demo_live "r_string ''a.zip''" "[(''a'', [1])]" "\<lambda>n. True" "[(''a'', [1])]"
      "demo_stat (''a'', [1])" "\<lambda>s. s \<noteq> ''a''"]
  by (simp add: demo_zip_def demo_live_def demo_stat_def r_char0_def r_string_def ZL_MAX_MEMBERS_def)

end
