(* ===== verification/Spec2Isabelle.thy ===== *)
theory Spec2Isabelle
  imports Zu_Guarantees Zu_Test Zu_Round_Trip Zu_Spike Zu_Fuzz Zu_Zip
begin

text \<open>
  A verification development of \<^bold>\<open>zukomp\<close>, a codec registry with a uniform byte-in/byte-out C API
  (\<^verbatim>\<open>inst/include/zukomp.h\<close>), its implementation under \<^verbatim>\<open>src/\<close>, its R entry points, and the consumers under
  \<^verbatim>\<open>tools/\<close> and \<^verbatim>\<open>fuzz/\<close>.

  \<^bold>\<open>The program.\<close> Codecs are vtables in a registry (\<^verbatim>\<open>zu_registry.c\<close>). A client creates an encoder or decoder handle
  by codec identity and drives it with a \<^verbatim>\<open>zu_buffer\<close> of two windows and cursors (\<^verbatim>\<open>zu_stream.c\<close>); the driver
  validates the arguments, calls the codec, and enforces the limits on output size, expected size and expansion ratio
  around any codec. The DEFLATE family (\<^verbatim>\<open>codec_deflate.c\<close> with the gzip header of \<^verbatim>\<open>zu_gzip.c\<close>) wraps the vendored
  miniz engine in its own header, trailer and member machinery; zstd and lz4-frame (\<^verbatim>\<open>codec_zstd.c\<close>,
  \<^verbatim>\<open>codec_lz4.c\<close>) drive their libraries and share the frame continuation of \<^verbatim>\<open>zu_frames.c\<close>; lz4-block stages whole
  blocks; \<^verbatim>\<open>codec_identity.c\<close> and the satellite \<^verbatim>\<open>xor5a\<close> are one pass over the bytes. R reaches the API through
  \<^verbatim>\<open>zukomp_r.c\<close> and the whole-buffer loop of \<^verbatim>\<open>zu_whole.c\<close>; other packages through a table of function pointers
  (\<^verbatim>\<open>zukomp_api.c\<close>, \<^verbatim>\<open>zukomp-r.h\<close>) that \<^verbatim>\<open>init.c\<close> registers.

  \<^bold>\<open>The theories: shared parts.\<close>
    \<^item> \<open>Zu_Prelude\<close>: bytes and words, 64-bit arithmetic on \<open>nat\<close>, memory as byte lists, byte order, and \<open>run_loop\<close>,
      the model of a \<^verbatim>\<open>for (;;)\<close> loop, with its total-correctness rule (a well-founded relation that every turn
      decreases) and its partial-correctness rule.
    \<^item> \<open>Zu_Abi\<close>: the types of \<^verbatim>\<open>zukomp.h\<close>, and \<^verbatim>\<open>zu_status.c\<close>.
    \<^item> \<open>Zu_Buf\<close>: \<^verbatim>\<open>zu_buf.c\<close>; windows of a buffer; the cursor discipline \<open>buf_adv\<close>, a preorder that says what a callee
      may change, and the bytes \<open>consumed\<close> and \<open>emitted\<close> between two states of a buffer.

  \<^bold>\<open>The theories: registry and driver.\<close>
    \<^item> \<open>Zu_Registry\<close>: \<^verbatim>\<open>zu_registry.c\<close>; the invariant of the registry, the locale \<open>codec_directory\<close> with its
      clients' lemmas, detection.
    \<^item> \<open>Zu_Stream\<close>: \<^verbatim>\<open>zu_stream.c\<close>.
    \<^item> \<open>Zu_Driver\<close>, \<open>Zu_Handle\<close>: the contract of a codec as the locales \<open>decoder_codec\<close> and \<open>encoder_codec\<close>, what the
      driver guarantees on top of it for one call, for every session of calls and resets (\<open>decoder_session\<close>, by rule
      induction) and for the one-shot loop. \<open>Zu_Guarantees\<close> states the properties of the driver, the registry, the
      checksums and the bytewise codecs; \<open>Zu_One_Shot\<close> says what a successful one-shot decompression delivered.

  \<^bold>\<open>The theories: codecs.\<close>
    \<^item> \<open>Codec_Identity\<close>: \<^verbatim>\<open>codec_identity.c\<close> and \<^verbatim>\<open>xor5a\<close>, through the locale \<open>bytewise\<close>.
    \<^item> \<open>Zu_Checksum\<close>: \<^verbatim>\<open>mz_adler32\<close> and \<^verbatim>\<open>mz_crc32\<close>, refined against the sums of RFC 1950 and the bitwise division of
      RFC 1952.
    \<^item> \<open>Zu_Gzip\<close>: \<^verbatim>\<open>zu_gzip.c\<close>, equivalent to a grammar on whole byte strings.
    \<^item> \<open>Zu_Formats\<close>: formats whose strings delimit themselves (\<open>prefix_code\<close>) and concatenations of them.
    \<^item> \<open>Codec_Deflate\<close>, \<open>Codec_Deflate_Loop\<close>, \<open>Codec_Deflate_Integrity\<close>, \<open>Codec_Deflate_Roundtrip\<close>:
      \<^verbatim>\<open>codec_deflate.c\<close>; its process loop always returns and keeps its invariant, what a finished encoder wrote and a
      finished decoder accepted is a sequence of well-formed, checksummed members, and the decoder inverts the encoder.
    \<^item> \<open>Zu_Frames\<close>: \<^verbatim>\<open>zu_frames.c\<close>, whether another frame follows, independent of how the bytes arrive;
      \<open>Zu_Frame_Loop\<close>: the loop both frame codecs run around their library, as the locale \<open>framed_decoder\<close>.
    \<^item> \<open>Codec_Zstd\<close>, \<open>Codec_Lz4\<close>, \<open>Codec_Lz4_Frame\<close>, \<open>Codec_Lz4_Block\<close>: \<^verbatim>\<open>codec_zstd.c\<close> and \<^verbatim>\<open>codec_lz4.c\<close>; what a
      finished coder delivered is exactly what its library made of the bytes consumed, the block size search is exact.
    \<^item> \<open>Zu_Prompt\<close>, \<open>Zu_Builtin\<close>: every built-in encoder and decoder names what it waits for when it stops, and the built-in table
      as one registry whose codec states are the tagged union \<open>builtin_state\<close>.

  \<^bold>\<open>The theories: R and the consumers.\<close>
    \<^item> \<open>Zu_Whole\<close>: \<^verbatim>\<open>zu_whole.c\<close>; the sink, its ownership and its finalizer, and the drive loop, as the locale
      \<open>whole_trace\<close> over a codec, extended by \<open>whole_prompt\<close>; \<open>Zu_R\<close>: \<^verbatim>\<open>zukomp_r.c\<close>, the API table and the codec table; \<open>Zu_Info\<close>: versions, build switches
      and counters; \<open>Zu_Test\<close>: \<^verbatim>\<open>zukomp_test.c\<close>.
    \<^item> \<open>Zu_Komp\<close>: compression and decompression from R return and release what they took; \<open>Zu_Komp_Runs\<close>: a completed
      call is one run of the codec's process function that ended, and the locale \<open>invertible_codec\<close>, what that asks of a
      codec to make the two a round trip; \<open>Zu_Komp_Codecs\<close>, \<open>Zu_Komp_Deflate\<close>, \<open>Zu_Komp_Frames\<close>: every codec keeps it;
      \<open>Zu_Round_Trip\<close>: so do their vtables in the registry as it is shipped.
    \<^item> \<open>Zu_Satellite\<close>: loading \<^verbatim>\<open>zukomp\<close> and \<^verbatim>\<open>tools/zukomptest\<close> (\<^verbatim>\<open>init.c\<close> of both, \<^verbatim>\<open>codec_xor.c\<close>, \<^verbatim>\<open>oneshot.c\<close>);
      \<open>Zu_Client\<close>: the loop clients write around a decoder; \<open>Zu_Spike\<close>: its use in \<^verbatim>\<open>http_spike.c\<close>; \<open>Zu_Fuzz\<close>: its use
      in the fuzz targets and their replay; \<open>Zu_Zip\<close>: the ZIP consumer of \<^verbatim>\<open>tools/zukomplink\<close>.

  \<^bold>\<open>Conventions.\<close> Sizes, cursors and 64-bit counters are \<open>nat\<close> with the wrap-around written out; bytes and flag words
  are words. A pointer that may be \<^verbatim>\<open>NULL\<close> is an option where the code distinguishes the cases; guards against a
  \<^verbatim>\<open>NULL\<close> handle, buffer or out-parameter have no counterpart, because these objects are values here. Sizes and
  offsets of structs are those of the LP64 layout. A loop that need not end is \<open>run_loop\<close>, and \<open>None\<close> is a call that
  does not return; that the loops of the code do return is proved for each of them. No fuel is used. Bounds in
  hypotheses (inputs of at most \<open>2 ^ 52\<close> bytes, chunks below \<open>2 ^ 31\<close>) are those of R's vectors and of \<^verbatim>\<open>int\<close>.

  \<^bold>\<open>Parameters.\<close> The compression engines are records of functions, and what the code relies on is a named contract:
  \<open>mz_engine\<close> with \<open>mz_contract\<close> (a call uses no more input and room than it was given) and \<open>mz_prompt\<close> (a call that
  moves nothing had no input or no room); \<open>zstd_engine\<close> and \<open>lz4_engine\<close> with \<open>frame_contract\<close> for their decoders,
  \<open>zstd_enc_contract\<close> and \<open>lz4f_enc_contract\<close> for their encoders and \<open>lz4_block_contract\<close> for blocks; \<open>engine_contracts\<close> is
  all of them; \<open>zip_reader\<close> with \<open>zip_contract\<close>. That an engine reads what it writes is \<open>mz_deflates\<close>, \<open>mz_inflates\<close> and
  \<open>mz_ends\<close>, \<open>zstd_frames\<close> and \<open>lz4_frames\<close>, together \<open>engines_invert\<close>; the round trips through a DEFLATE codec are for
  inputs of at most \<open>MZ_WINDOW\<close> bytes, beyond which \<open>compress_one_truncates\<close> shows what one call can lose. Heap exhaustion is \<open>mem\<close>; R's allocation of vectors, \<^verbatim>\<open>realloc\<close> and the
  user's interrupt are the record \<open>r_env\<close>. The engines \<open>zero_engine\<close>, \<open>strict_engine\<close>, \<open>run_engine\<close>,
  \<open>toy_zstd\<close>, \<open>plain_zstd\<close>, \<open>whole_zstd\<close>, \<open>mini_lz4\<close>, \<open>mini_block\<close>, \<open>whole_lz4\<close> and \<open>demo_zip\<close> are instances that keep the contracts; the witnesses run on them.

  \<^bold>\<open>Not modelled.\<close> The vendored libraries under \<^verbatim>\<open>src/vendor\<close>, but for the two checksums; the tables of routines handed
  to R at load time; \<^verbatim>\<open>fuzz/msan_canary.c\<close>, a deliberate bug that checks a sanitizer; that R fails to allocate one of
  the short character vectors and lists of fixed size an entry point returns, except in \<open>Zu_Zip\<close>; threads, since R and
  the library are single-threaded.
\<close>

end
